(* ===== verification/Ice_Prelude.thy ===== *)
theory Ice_Prelude
  imports Main "HOL-Library.Word"
begin

unbundle bit_operations_syntax

text \<open>
  Shared vocabulary of the icedb development.

  \<^item> Machine integers of the Rust sources are words (\<open>u8\<close>, \<open>u16\<close>, \<open>u32\<close>, \<open>u64\<close>); a
    \<^verbatim>\<open>usize\<close> that only indexes buffers or counts their bytes is a \<open>nat\<close>.
  \<^item> A fallible Rust function returns an \<open>outcome\<close>: \<open>Ok\<close>, \<open>Err\<close> of the function's error
    enum, or \<open>Panic\<close> (an out-of-range slice, a failed \<^verbatim>\<open>unwrap\<close>, an explicit
    \<^verbatim>\<open>panic!\<close>). Sequencing with \<open>obind\<close> is the \<^verbatim>\<open>?\<close> operator.
  \<^item> A byte buffer is a \<open>byte list\<close>; \<open>slice\<close> reads a range, \<open>patch\<close> overwrites one, and
    \<open>get_slice\<close>, \<open>put_slice\<close> are the bounds-checked Rust versions.
  \<^item> \<open>to_le_bytes\<close>, \<open>from_le_bytes\<close> are the little-endian conversions of the Rust
    standard library, for every width.
\<close>

section \<open>Types and outcomes\<close>

type_synonym byte = "8 word"
type_synonym u8 = "8 word"
type_synonym u16 = "16 word"
type_synonym u32 = "32 word"
type_synonym u64 = "64 word"

datatype ('e, 'a) outcome = Ok 'a | Err 'e | Panic

primrec obind :: "('e, 'a) outcome \<Rightarrow> ('a \<Rightarrow> ('e, 'b) outcome) \<Rightarrow> ('e, 'b) outcome" where
  "obind (Ok x) f = f x"
| "obind (Err e) f = Err e"
| "obind Panic f = Panic"

text \<open>\<^verbatim>\<open>map_err\<close> and the implicit \<^verbatim>\<open>From\<close> conversion of the question-mark operator.\<close>

primrec map_err :: "('e \<Rightarrow> 'f) \<Rightarrow> ('e, 'a) outcome \<Rightarrow> ('f, 'a) outcome" where
  "map_err g (Ok x) = Ok x"
| "map_err g (Err e) = Err (g e)"
| "map_err g Panic = Panic"

definition ok_or :: "'e \<Rightarrow> 'a option \<Rightarrow> ('e, 'a) outcome" where
  "ok_or e r = (case r of Some x \<Rightarrow> Ok x | None \<Rightarrow> Err e)"

primrec is_ok :: "('e, 'a) outcome \<Rightarrow> bool" where
  "is_ok (Ok x) = True"
| "is_ok (Err e) = False"
| "is_ok Panic = False"

section \<open>Stateful operations\<close>

text \<open>
  A method on \<^verbatim>\<open>&mut self\<close> that returns a \<^verbatim>\<open>Result\<close> is a state transformer whose final
  state is kept on the error paths too: what the method changed before it failed stays changed.
\<close>

type_synonym ('s, 'e, 'a) sop = "'s \<Rightarrow> ('e, 'a) outcome \<times> 's"

definition sbind :: "('s, 'e, 'a) sop \<Rightarrow> ('a \<Rightarrow> ('s, 'e, 'b) sop) \<Rightarrow> ('s, 'e, 'b) sop" where
  "sbind m f = (\<lambda>s. case m s of
      (Ok x, s') \<Rightarrow> f x s' | (Err e, s') \<Rightarrow> (Err e, s') | (Panic, s') \<Rightarrow> (Panic, s'))"

definition sret :: "'a \<Rightarrow> ('s, 'e, 'a) sop" where
  "sret x = (\<lambda>s. (Ok x, s))"

definition serr :: "'e \<Rightarrow> ('s, 'e, 'a) sop" where
  "serr e = (\<lambda>s. (Err e, s))"

text \<open>A computation that reads the state and may fail, but changes nothing.\<close>

definition slift :: "('s \<Rightarrow> ('e, 'a) outcome) \<Rightarrow> ('s, 'e, 'a) sop" where
  "slift g = (\<lambda>s. (g s, s))"

definition smod :: "('s \<Rightarrow> 's) \<Rightarrow> ('s, 'e, unit) sop" where
  "smod g = (\<lambda>s. (Ok (), g s))"

text \<open>A part of a larger state as the state of an operation (a field passed by reference).\<close>

definition szoom :: "('s \<Rightarrow> 't) \<Rightarrow> ('t \<Rightarrow> 's \<Rightarrow> 's) \<Rightarrow> ('t, 'e, 'a) sop \<Rightarrow> ('s, 'e, 'a) sop" where
  "szoom g u m = (\<lambda>s. case m (g s) of (r, t) \<Rightarrow> (r, u t s))"

definition smap_err :: "('e \<Rightarrow> 'f) \<Rightarrow> ('s, 'e, 'a) sop \<Rightarrow> ('s, 'f, 'a) sop" where
  "smap_err h m = (\<lambda>s. case m s of (r, s') \<Rightarrow> (map_err h r, s'))"

text \<open>
  Operations with a loop that need not end: \<open>None\<close> is a run that never returns. \<open>lbind\<close> is the
  question-mark operator again, \<open>ltotal\<close> embeds an operation that always returns.
\<close>

type_synonym ('s, 'e, 'a) lop = "'s \<Rightarrow> (('e, 'a) outcome \<times> 's) option"

definition lbind :: "('s, 'e, 'a) lop \<Rightarrow> ('a \<Rightarrow> ('s, 'e, 'b) lop) \<Rightarrow> ('s, 'e, 'b) lop" where
  "lbind m f = (\<lambda>s. case m s of
      None \<Rightarrow> None
    | Some (Ok x, s') \<Rightarrow> f x s' | Some (Err e, s') \<Rightarrow> Some (Err e, s') | Some (Panic, s') \<Rightarrow> Some (Panic, s'))"

definition ltotal :: "('s, 'e, 'a) sop \<Rightarrow> ('s, 'e, 'a) lop" where
  "ltotal m = (\<lambda>s. Some (m s))"

text \<open>A computation that reads the state, may loop and may fail.\<close>

definition lread :: "('s \<Rightarrow> ('e, 'a) outcome option) \<Rightarrow> ('s, 'e, 'a) lop" where
  "lread g = (\<lambda>s. map_option (\<lambda>r. (r, s)) (g s))"

text \<open>Forget the state of a failed run: the form in which contracts are stated.\<close>

definition as_outcome :: "('e, 'a) outcome \<times> 's \<Rightarrow> ('e, 's \<times> 'a) outcome" where
  "as_outcome rs = obind (fst rs) (\<lambda>x. Ok (snd rs, x))"

section \<open>Buffers\<close>

definition slice :: "nat \<Rightarrow> nat \<Rightarrow> 'a list \<Rightarrow> 'a list" where
  "slice off n xs = take n (drop off xs)"

definition patch :: "nat \<Rightarrow> 'a list \<Rightarrow> 'a list \<Rightarrow> 'a list" where
  "patch off ys xs = take off xs @ ys @ drop (off + length ys) xs"

definition get_slice :: "'a list \<Rightarrow> nat \<Rightarrow> nat \<Rightarrow> ('e, 'a list) outcome" where
  "get_slice xs off n = (if off + n \<le> length xs then Ok (slice off n xs) else Panic)"

definition put_slice :: "'a list \<Rightarrow> nat \<Rightarrow> 'a list \<Rightarrow> ('e, 'a list) outcome" where
  "put_slice xs off ys = (if off + length ys \<le> length xs then Ok (patch off ys xs) else Panic)"

section \<open>Little-endian words\<close>

primrec to_le_bytes :: "nat \<Rightarrow> 'a::len word \<Rightarrow> byte list" where
  "to_le_bytes 0 w = []"
| "to_le_bytes (Suc n) w = ucast w # to_le_bytes n (drop_bit 8 w)"

primrec from_le_bytes :: "byte list \<Rightarrow> 'a::len word" where
  "from_le_bytes [] = 0"
| "from_le_bytes (b # bs) = ucast b OR push_bit 8 (from_le_bytes bs)"

abbreviation u16_bytes :: "u16 \<Rightarrow> byte list" where "u16_bytes \<equiv> to_le_bytes 2"
abbreviation u32_bytes :: "u32 \<Rightarrow> byte list" where "u32_bytes \<equiv> to_le_bytes 4"
abbreviation u64_bytes :: "u64 \<Rightarrow> byte list" where "u64_bytes \<equiv> to_le_bytes 8"

section \<open>Laws of outcomes\<close>

named_theorems outcome_simps \<open>inversion of successful sequential code\<close>

lemma obind_cong [fundef_cong]:
  "r = r' \<Longrightarrow> (\<And>x. r' = Ok x \<Longrightarrow> f x = g x) \<Longrightarrow> obind r f = obind r' g"
  by (cases r') auto

lemma obind_eq_Ok [outcome_simps]: "obind r f = Ok y \<longleftrightarrow> (\<exists>x. r = Ok x \<and> f x = Ok y)"
  by (cases r) auto

lemma obind_eq_Err [outcome_simps]:
  "obind r f = Err e \<longleftrightarrow> r = Err e \<or> (\<exists>x. r = Ok x \<and> f x = Err e)"
  by (cases r) auto

lemma obind_eq_Panic [outcome_simps]:
  "obind r f = Panic \<longleftrightarrow> r = Panic \<or> (\<exists>x. r = Ok x \<and> f x = Panic)"
  by (cases r) auto

lemma obind_assoc [simp]: "obind (obind r f) g = obind r (\<lambda>x. obind (f x) g)"
  by (cases r) auto

lemma map_err_eq_Ok [outcome_simps, simp]: "map_err g r = Ok x \<longleftrightarrow> r = Ok x"
  by (cases r) auto

lemma map_err_eq_Err [outcome_simps]: "map_err g r = Err e \<longleftrightarrow> (\<exists>e'. r = Err e' \<and> e = g e')"
  by (cases r) auto

lemma map_err_eq_Panic [outcome_simps, simp]: "map_err g r = Panic \<longleftrightarrow> r = Panic"
  by (cases r) auto

lemma ok_or_eq_Ok [outcome_simps]: "ok_or e r = Ok x \<longleftrightarrow> r = Some x"
  by (auto simp: ok_or_def split: option.splits)

lemma ok_or_simps [simp]: "ok_or e (Some x) = Ok x" "ok_or e None = Err e"
  by (simp_all add: ok_or_def)

lemma sbind_Ok [outcome_simps]:
  "sbind m f s = (Ok y, s'') \<longleftrightarrow> (\<exists>x s'. m s = (Ok x, s') \<and> f x s' = (Ok y, s''))"
  by (auto simp: sbind_def split: prod.splits outcome.splits)

lemma sbind_run [simp]:
  "m s = (Ok x, s') \<Longrightarrow> sbind m f s = f x s'"
  "m s = (Err e, s') \<Longrightarrow> sbind m f s = (Err e, s')"
  "m s = (Panic, s') \<Longrightarrow> sbind m f s = (Panic, s')"
  by (simp_all add: sbind_def)

lemma sbind_assoc: "sbind (sbind m f) g = sbind m (\<lambda>x. sbind (f x) g)"
  by (auto simp: sbind_def fun_eq_iff split: prod.splits outcome.splits)

lemma sret_run [simp]: "sret x s = (Ok x, s)"
  by (simp add: sret_def)

lemma sbind_sret [simp]: "sbind (sret x) f = f x"
  by (simp add: sbind_def sret_def)

lemma serr_run [simp]: "serr e s = (Err e, s)"
  by (simp add: serr_def)

lemma slift_run [simp]: "slift g s = (g s, s)"
  by (simp add: slift_def)

lemma smod_run [simp]: "smod g s = (Ok (), g s)"
  by (simp add: smod_def)

lemma szoom_run [simp]: "m (g s) = (r, t) \<Longrightarrow> szoom g u m s = (r, u t s)"
  by (simp add: szoom_def)

lemma szoom_Ok [outcome_simps]:
  "szoom g u m s = (Ok x, s') \<longleftrightarrow> (\<exists>t. m (g s) = (Ok x, t) \<and> s' = u t s)"
  by (auto simp: szoom_def split: prod.splits)

lemma smap_err_Ok [outcome_simps, simp]: "smap_err h m s = (Ok x, s') \<longleftrightarrow> m s = (Ok x, s')"
  by (auto simp: smap_err_def split: prod.splits)

lemma smap_err_run [simp]: "m s = (r, s') \<Longrightarrow> smap_err h m s = (map_err h r, s')"
  by (simp add: smap_err_def)

lemma lbind_run [simp]:
  "m s = Some (Ok x, s') \<Longrightarrow> lbind m f s = f x s'"
  "m s = Some (Err e, s') \<Longrightarrow> lbind m f s = Some (Err e, s')"
  "m s = Some (Panic, s') \<Longrightarrow> lbind m f s = Some (Panic, s')"
  "m s = None \<Longrightarrow> lbind m f s = None"
  by (simp_all add: lbind_def)

lemma lbind_assoc: "lbind (lbind m f) g = lbind m (\<lambda>x. lbind (f x) g)"
  by (auto simp: lbind_def fun_eq_iff split: option.splits prod.splits outcome.splits)

lemma ltotal_run [simp]: "ltotal m s = Some (m s)"
  by (simp add: ltotal_def)

lemma lread_run [simp]: "g s = Some r \<Longrightarrow> lread g s = Some (r, s)"
  by (simp add: lread_def)

lemma as_outcome_Ok [outcome_simps]: "as_outcome rs = Ok (s, x) \<longleftrightarrow> rs = (Ok x, s)"
  by (cases rs) (auto simp: as_outcome_def outcome_simps)

lemma is_ok_as_outcome [simp]: "is_ok (as_outcome rs) \<longleftrightarrow> is_ok (fst rs)"
  by (cases rs, cases "fst rs") (auto simp: as_outcome_def)

lemma sbind_cong [fundef_cong]:
  assumes "s = t" and "m t = n t" and "\<And>x t'. n t = (Ok x, t') \<Longrightarrow> f x t' = g x t'"
  shows "sbind m f s = sbind n g t"
  using assms by (auto simp: sbind_def split: prod.splits outcome.splits)

section \<open>Laws of buffers\<close>

lemma length_slice [simp]: "length (slice off n xs) = min n (length xs - off)"
  by (simp add: slice_def)

lemma nth_slice: "i < n \<Longrightarrow> off + i < length xs \<Longrightarrow> slice off n xs ! i = xs ! (off + i)"
  by (simp add: slice_def)

lemma length_patch [simp]:
  "off + length ys \<le> length xs \<Longrightarrow> length (patch off ys xs) = length xs"
  by (simp add: patch_def)

lemma nth_patch:
  assumes "off + length ys \<le> length xs" and "i < length xs"
  shows "patch off ys xs ! i
       = (if off \<le> i \<and> i < off + length ys then ys ! (i - off) else xs ! i)"
  using assms by (auto simp: patch_def nth_append min_def)

lemma slice_patch_same [simp]:
  "off + length ys \<le> length xs \<Longrightarrow> n = length ys \<Longrightarrow> slice off n (patch off ys xs) = ys"
  by (simp add: slice_def patch_def)

lemma slice_patch_other:
  assumes "off + length ys \<le> length xs" and "o' + n \<le> off \<or> off + length ys \<le> o'"
  shows "slice o' n (patch off ys xs) = slice o' n xs"
proof (rule nth_equalityI)
  show "length (slice o' n (patch off ys xs)) = length (slice o' n xs)"
    using assms by simp
next
  fix i assume "i < length (slice o' n (patch off ys xs))"
  with assms show "slice o' n (patch off ys xs) ! i = slice o' n xs ! i"
    by (auto simp: nth_slice nth_patch)
qed

lemma slice_patch_before:
  "off + length ys \<le> length xs \<Longrightarrow> o' + n \<le> off \<Longrightarrow> slice o' n (patch off ys xs) = slice o' n xs"
  by (simp add: slice_patch_other)

lemma slice_patch_after:
  "off + length ys \<le> length xs \<Longrightarrow> off + length ys \<le> o'
    \<Longrightarrow> slice o' n (patch off ys xs) = slice o' n xs"
  by (simp add: slice_patch_other)

lemmas slice_patch = slice_patch_before slice_patch_after

lemma patch_patch_same:
  "length zs = length ys \<Longrightarrow> off + length ys \<le> length xs
    \<Longrightarrow> patch off zs (patch off ys xs) = patch off zs xs"
  by (simp add: patch_def)

lemma patch_slice_id:
  "off + n \<le> length xs \<Longrightarrow> patch off (slice off n xs) xs = xs"
  by (rule nth_equalityI) (auto simp: nth_patch nth_slice)

lemma slice_slice:
  "a + n \<le> m \<Longrightarrow> slice a n (slice b m xs) = slice (b + a) n xs"
  by (simp add: slice_def drop_take take_take min_def add.commute)

lemma slice_append1: "off + n \<le> length xs \<Longrightarrow> slice off n (xs @ ys) = slice off n xs"
  by (simp add: slice_def)

lemma slice_append2: "slice (length xs + k) n (xs @ ys) = slice k n ys"
  by (simp add: slice_def)

lemma slice_append2': "length xs \<le> k \<Longrightarrow> slice k n (xs @ ys) = slice (k - length xs) n ys"
  by (simp add: slice_def)

lemma slice_all [simp]: "slice 0 (length xs) xs = xs"
  by (simp add: slice_def)

lemma slice_patch_within:
  assumes "off + length ys \<le> length xs" and "off \<le> o'" and "o' + n \<le> off + length ys"
  shows "slice o' n (patch off ys xs) = slice (o' - off) n ys"
proof (rule nth_equalityI)
  show "length (slice o' n (patch off ys xs)) = length (slice (o' - off) n ys)"
    using assms by simp
next
  fix i assume "i < length (slice o' n (patch off ys xs))"
  with assms show "slice o' n (patch off ys xs) ! i = slice (o' - off) n ys ! i"
    by (auto simp: nth_slice nth_patch)
qed

lemma get_slice_Ok [outcome_simps]:
  "get_slice xs off n = Ok s \<longleftrightarrow> off + n \<le> length xs \<and> s = slice off n xs"
  by (auto simp: get_slice_def)

lemma put_slice_Ok [outcome_simps]:
  "put_slice xs off ys = Ok s \<longleftrightarrow> off + length ys \<le> length xs \<and> s = patch off ys xs"
  by (auto simp: put_slice_def)

lemma get_slice_in [simp]: "off + n \<le> length xs \<Longrightarrow> get_slice xs off n = Ok (slice off n xs)"
  by (simp add: get_slice_def)

lemma put_slice_in [simp]:
  "off + length ys \<le> length xs \<Longrightarrow> put_slice xs off ys = Ok (patch off ys xs)"
  by (simp add: put_slice_def)

section \<open>Laws of little-endian words\<close>

lemma length_to_le_bytes [simp]: "length (to_le_bytes n w) = n"
  by (induction n arbitrary: w) auto

lemma from_to_le_bytes_take:
  "from_le_bytes (to_le_bytes n w) = take_bit (8 * n) (w :: 'a::len word)"
proof (induction n arbitrary: w)
  case 0
  then show ?case by simp
next
  case (Suc n)
  show ?case
  proof (rule bit_word_eqI)
    fix i assume "i < LENGTH('a)"
    then show "bit (from_le_bytes (to_le_bytes (Suc n) w) :: 'a word) i
      = bit (take_bit (8 * Suc n) w) i"
      by (auto simp: Suc.IH bit_simps)
  qed
qed

lemma from_to_le_bytes [simp]:
  "LENGTH('a) \<le> 8 * n \<Longrightarrow> from_le_bytes (to_le_bytes n w) = (w :: 'a::len word)"
  by (simp add: from_to_le_bytes_take take_bit_word_eq_self)

lemma take_bit_from_le_bytes:
  "take_bit (8 * length bs) (from_le_bytes bs :: 'a::len word) = from_le_bytes bs"
proof (induction bs)
  case Nil
  then show ?case by simp
next
  case (Cons b bs)
  show ?case
  proof (rule bit_word_eqI)
    fix i assume "i < LENGTH('a)"
    moreover have "bit (from_le_bytes bs :: 'a word) (i - 8) \<Longrightarrow> i - 8 < 8 * length bs"
      by (metis Cons.IH bit_take_bit_iff)
    ultimately show "bit (take_bit (8 * length (b # bs)) (from_le_bytes (b # bs)) :: 'a word) i
      = bit (from_le_bytes (b # bs) :: 'a word) i"
      by (auto simp: bit_simps dest: bit_imp_le_length)
  qed
qed

lemma to_from_le_bytes:
  assumes "8 * length bs \<le> LENGTH('a)"
  shows "to_le_bytes (length bs) (from_le_bytes bs :: 'a::len word) = bs"
  using assms
proof (induction bs)
  case Nil
  then show ?case by simp
next
  case (Cons b bs)
  have hd: "ucast (ucast b OR push_bit 8 (from_le_bytes bs :: 'a word)) = b"
    using Cons.prems by (intro bit_word_eqI) (auto simp: bit_simps)
  have tl: "drop_bit 8 (ucast b OR push_bit 8 (from_le_bytes bs :: 'a word)) = from_le_bytes bs"
  proof (rule bit_word_eqI)
    fix i assume i: "i < LENGTH('a)"
    have "bit (from_le_bytes bs :: 'a word) i \<Longrightarrow> i < 8 * length bs"
      by (metis take_bit_from_le_bytes bit_take_bit_iff)
    with i Cons.prems show "bit (drop_bit 8 (ucast b OR push_bit 8 (from_le_bytes bs)) :: 'a word) i
      = bit (from_le_bytes bs :: 'a word) i"
      by (auto simp: bit_simps dest: bit_imp_le_length)
  qed
  have "to_le_bytes (length bs) (from_le_bytes bs :: 'a word) = bs"
    using Cons by simp
  then show ?case by (simp only: length_Cons from_le_bytes.simps to_le_bytes.simps hd tl)
qed

lemma from_le_bytes_inj:
  assumes "from_le_bytes bs = (from_le_bytes cs :: 'a::len word)"
    and "length bs = length cs" and "8 * length bs \<le> LENGTH('a)"
  shows "bs = cs"
  using assms to_from_le_bytes by metis

lemma to_le_bytes_inj:
  "to_le_bytes n w = to_le_bytes n v \<Longrightarrow> LENGTH('a) \<le> 8 * n \<Longrightarrow> w = (v :: 'a::len word)"
  by (metis from_to_le_bytes)

lemma unat_of_nat_small [simp]:
  "n < 2 ^ LENGTH('a) \<Longrightarrow> unat (of_nat n :: 'a::len word) = n"
  by (simp add: unat_of_nat take_bit_nat_eq_self)

lemma of_nat_small_eq_0 [simp]:
  "n < 2 ^ LENGTH('a) \<Longrightarrow> (of_nat n :: 'a::len word) = 0 \<longleftrightarrow> n = 0"
  by (auto simp: word_of_nat_eq_0_iff dest: nat_dvd_not_less)

lemma unat_u8_bound [simp]: "unat (w :: u8) < 256"
  using unsigned_less [of w] by simp

lemma unat_u16_bound [simp]: "unat (w :: u16) < 65536"
  using unsigned_less [of w] by simp

lemma unat_u32_bound [simp]: "unat (w :: u32) < 4294967296"
  using unsigned_less [of w] by simp

lemma unat_u64_bound [simp]: "unat (w :: u64) < 18446744073709551616"
  using unsigned_less [of w] by simp

lemma unat_dec: "0 < (w :: 'a::len word) \<Longrightarrow> unat (w - 1) = unat w - 1"
  by (metis unat_minus_one word_neq_0_conv)

lemma unat_Suc: "Suc (unat w) < 2 ^ LENGTH('a) \<Longrightarrow> unat (w + 1 :: 'a::len word) = Suc (unat w)"
  by (metis Suc_eq_plus1 unat_1 unat_add_lem unsigned_1)

lemma word_less_succ: "w \<noteq> - 1 \<Longrightarrow> w < (w + 1 :: 'a::len word)"
proof -
  assume "w \<noteq> - 1"
  then have "unat w \<noteq> 2 ^ LENGTH('a) - 1"
    by (metis mask_eq_exp_minus_1 unsigned_minus_1_eq_mask unsigned_word_eqI)
  moreover have "unat w < 2 ^ LENGTH('a)" by (rule unsigned_less)
  ultimately have "Suc (unat w) < 2 ^ LENGTH('a)" by linarith
  then show ?thesis by (simp add: word_less_nat_alt unat_Suc)
qed

lemma unat_succ_le: "unat (w + 1 :: 'a::len word) \<le> Suc (unat w)"
proof (cases "Suc (unat w) < 2 ^ LENGTH('a)")
  case False
  have "unat (w + 1) < 2 ^ LENGTH('a)" by (rule unsigned_less)
  with False show ?thesis by linarith
qed (simp add: unat_Suc)

lemma in_image_snd: "(j, t) \<in> (\<lambda>(a, b). (a, f a b)) ` R \<longleftrightarrow> (\<exists>b. (j, b) \<in> R \<and> t = f j b)"
  by force

end
