(* ===== verification/Sql_Type.thy ===== *)
theory Sql_Type
  imports Ice_Prelude
begin

text \<open>
  Strings and data types: \<^verbatim>\<open>catalog/src/types.rs\<close> and \<^verbatim>\<open>catalog/src/oids.rs\<close>. A Rust \<^verbatim>\<open>String\<close>
  is its bytes, which are always well-formed UTF-8; a signed integer is a word read with \<open>sint\<close>.
\<close>

section \<open>Strings\<close>

type_synonym rstring = "byte list"

definition cont :: "byte \<Rightarrow> bool" where
  "cont b \<longleftrightarrow> 0x80 \<le> b \<and> b \<le> 0xBF"

text \<open>\<^verbatim>\<open>std::str::from_utf8\<close>: no overlong forms, no surrogates, nothing above U+10FFFF.\<close>

fun utf8_ok :: "byte list \<Rightarrow> bool" where
  "utf8_ok [] \<longleftrightarrow> True"
| "utf8_ok [a] \<longleftrightarrow> a \<le> 0x7F"
| "utf8_ok [a, b] \<longleftrightarrow> (if a \<le> 0x7F then utf8_ok [b] else 0xC2 \<le> a \<and> a \<le> 0xDF \<and> cont b)"
| "utf8_ok [a, b, c] \<longleftrightarrow>
     (if a \<le> 0x7F then utf8_ok [b, c]
      else if 0xC2 \<le> a \<and> a \<le> 0xDF then cont b \<and> utf8_ok [c]
      else if a = 0xE0 then 0xA0 \<le> b \<and> b \<le> 0xBF \<and> cont c
      else if a = 0xED then 0x80 \<le> b \<and> b \<le> 0x9F \<and> cont c
      else 0xE1 \<le> a \<and> a \<le> 0xEF \<and> cont b \<and> cont c)"
| "utf8_ok (a # b # c # d # rest) \<longleftrightarrow>
     (if a \<le> 0x7F then utf8_ok (b # c # d # rest)
      else if 0xC2 \<le> a \<and> a \<le> 0xDF then cont b \<and> utf8_ok (c # d # rest)
      else if a = 0xE0 then 0xA0 \<le> b \<and> b \<le> 0xBF \<and> cont c \<and> utf8_ok (d # rest)
      else if a = 0xED then 0x80 \<le> b \<and> b \<le> 0x9F \<and> cont c \<and> utf8_ok (d # rest)
      else if 0xE1 \<le> a \<and> a \<le> 0xEF then cont b \<and> cont c \<and> utf8_ok (d # rest)
      else if a = 0xF0 then 0x90 \<le> b \<and> b \<le> 0xBF \<and> cont c \<and> cont d \<and> utf8_ok rest
      else if a = 0xF4 then 0x80 \<le> b \<and> b \<le> 0x8F \<and> cont c \<and> cont d \<and> utf8_ok rest
      else 0xF1 \<le> a \<and> a \<le> 0xF3 \<and> cont b \<and> cont c \<and> cont d \<and> utf8_ok rest)"

lemma utf8_ascii: "a \<le> 0x7F \<Longrightarrow> utf8_ok (a # s) \<longleftrightarrow> utf8_ok s"
  by (cases "a # s" rule: utf8_ok.cases) auto

lemma ascii_ok: "\<forall>b \<in> set s. b \<le> 0x7F \<Longrightarrow> utf8_ok s"
  by (induction s) (auto simp: utf8_ascii)

text \<open>A literal of the source, as bytes.\<close>

definition lit :: "string \<Rightarrow> rstring" where
  "lit s = map (\<lambda>c. of_nat (of_char c)) s"

section \<open>Data types\<close>

datatype data_type =
    TBoolean
  | TInt4
  | TInt8
  | TFloat8
  | TText
  | TVarChar u32
  | TBytea
  | TDate
  | TTimestamp
  | TTimestampTz
  | TNumeric
  | TUuid
  | TArray data_type
  | TJson
  | TJsonb

abbreviation (input) OID_TYPE_BOOL :: u32 where "OID_TYPE_BOOL \<equiv> 16"
abbreviation (input) OID_TYPE_INT4 :: u32 where "OID_TYPE_INT4 \<equiv> 23"
abbreviation (input) OID_TYPE_INT8 :: u32 where "OID_TYPE_INT8 \<equiv> 20"
abbreviation (input) OID_TYPE_TEXT :: u32 where "OID_TYPE_TEXT \<equiv> 25"
abbreviation (input) OID_TYPE_FLOAT8 :: u32 where "OID_TYPE_FLOAT8 \<equiv> 701"
abbreviation (input) OID_TYPE_BYTEA :: u32 where "OID_TYPE_BYTEA \<equiv> 17"
abbreviation (input) OID_TYPE_VARCHAR :: u32 where "OID_TYPE_VARCHAR \<equiv> 1043"
abbreviation (input) OID_TYPE_DATE :: u32 where "OID_TYPE_DATE \<equiv> 1082"
abbreviation (input) OID_TYPE_TIMESTAMP :: u32 where "OID_TYPE_TIMESTAMP \<equiv> 1114"
abbreviation (input) OID_TYPE_TIMESTAMPTZ :: u32 where "OID_TYPE_TIMESTAMPTZ \<equiv> 1184"
abbreviation (input) OID_TYPE_NUMERIC :: u32 where "OID_TYPE_NUMERIC \<equiv> 1700"
abbreviation (input) OID_TYPE_UUID :: u32 where "OID_TYPE_UUID \<equiv> 2950"

primrec type_oid :: "data_type \<Rightarrow> u32" where
  "type_oid TBoolean = OID_TYPE_BOOL"
| "type_oid TInt4 = OID_TYPE_INT4"
| "type_oid TInt8 = OID_TYPE_INT8"
| "type_oid TFloat8 = OID_TYPE_FLOAT8"
| "type_oid TText = OID_TYPE_TEXT"
| "type_oid (TVarChar n) = OID_TYPE_VARCHAR"
| "type_oid TBytea = OID_TYPE_BYTEA"
| "type_oid TDate = OID_TYPE_DATE"
| "type_oid TTimestamp = OID_TYPE_TIMESTAMP"
| "type_oid TTimestampTz = OID_TYPE_TIMESTAMPTZ"
| "type_oid TNumeric = OID_TYPE_NUMERIC"
| "type_oid TUuid = OID_TYPE_UUID"
| "type_oid (TArray t) = 2277"
| "type_oid TJson = 114"
| "type_oid TJsonb = 3802"

definition from_oid :: "u32 \<Rightarrow> u32 \<Rightarrow> data_type option" where
  "from_oid oid typmod =
     (if oid = OID_TYPE_BOOL then Some TBoolean
      else if oid = OID_TYPE_INT4 then Some TInt4
      else if oid = OID_TYPE_INT8 then Some TInt8
      else if oid = OID_TYPE_FLOAT8 then Some TFloat8
      else if oid = OID_TYPE_TEXT then Some TText
      else if oid = OID_TYPE_VARCHAR
      then let max_len = (if 4 < sint typmod then typmod - 4 else if typmod = - 1 then - 1 else 255) in
        Some (TVarChar max_len)
      else if oid = OID_TYPE_BYTEA then Some TBytea
      else if oid = OID_TYPE_DATE then Some TDate
      else if oid = OID_TYPE_TIMESTAMP then Some TTimestamp
      else if oid = OID_TYPE_TIMESTAMPTZ then Some TTimestampTz
      else if oid = OID_TYPE_NUMERIC then Some TNumeric
      else if oid = OID_TYPE_UUID then Some TUuid
      else None)"

primrec is_variable_length :: "data_type \<Rightarrow> bool" where
  "is_variable_length TBoolean = False"
| "is_variable_length TInt4 = False"
| "is_variable_length TInt8 = False"
| "is_variable_length TFloat8 = False"
| "is_variable_length TText = True"
| "is_variable_length (TVarChar n) = True"
| "is_variable_length TBytea = True"
| "is_variable_length TDate = False"
| "is_variable_length TTimestamp = False"
| "is_variable_length TTimestampTz = False"
| "is_variable_length TNumeric = False"
| "is_variable_length TUuid = False"
| "is_variable_length (TArray t) = True"
| "is_variable_length TJson = True"
| "is_variable_length TJsonb = True"

primrec fixed_size :: "data_type \<Rightarrow> nat option" where
  "fixed_size TBoolean = Some 1"
| "fixed_size TInt4 = Some 4"
| "fixed_size TInt8 = Some 8"
| "fixed_size TFloat8 = Some 8"
| "fixed_size TText = None"
| "fixed_size (TVarChar n) = None"
| "fixed_size TBytea = None"
| "fixed_size TDate = Some 4"
| "fixed_size TTimestamp = Some 8"
| "fixed_size TTimestampTz = Some 8"
| "fixed_size TNumeric = None"
| "fixed_size TUuid = None"
| "fixed_size (TArray t) = None"
| "fixed_size TJson = None"
| "fixed_size TJsonb = None"

primrec type_name :: "data_type \<Rightarrow> rstring" where
  "type_name TBoolean = lit ''boolean''"
| "type_name TInt4 = lit ''integer''"
| "type_name TInt8 = lit ''bigint''"
| "type_name TFloat8 = lit ''double precision''"
| "type_name TText = lit ''text''"
| "type_name (TVarChar n) = lit ''character varying''"
| "type_name TBytea = lit ''bytea''"
| "type_name TDate = lit ''date''"
| "type_name TTimestamp = lit ''timestamp without time zone''"
| "type_name TTimestampTz = lit ''timestamp with time zone''"
| "type_name TNumeric = lit ''numeric''"
| "type_name TUuid = lit ''uuid''"
| "type_name (TArray t) = type_name t @ lit ''[]''"
| "type_name TJson = lit ''json''"
| "type_name TJsonb = lit ''jsonb''"

text \<open>The addition wraps around, as it does without overflow checks.\<close>

definition typmod :: "data_type \<Rightarrow> u32" where
  "typmod t = (case t of TVarChar max_len \<Rightarrow> if max_len = - 1 then - 1 else max_len + 4 | _ \<Rightarrow> - 1)"

section \<open>Restoring a type from the catalog\<close>

text \<open>The types the catalog gives back as they were stored.\<close>

fun restorable :: "data_type \<Rightarrow> bool" where
  "restorable (TArray t) \<longleftrightarrow> False"
| "restorable TJson \<longleftrightarrow> False"
| "restorable TJsonb \<longleftrightarrow> False"
| "restorable (TVarChar n) \<longleftrightarrow> n = - 1 \<or> 0 < n \<and> n \<le> 0x7FFFFFFB"
| "restorable _ \<longleftrightarrow> True"

lemma sint_small: "uint w < 2 ^ (LENGTH('a) - 1) \<Longrightarrow> sint w = uint w" for w :: "'a::len word"
  unfolding sint_uint by (rule signed_take_bit_int_eq_self) (simp_all add: order_trans [OF _ uint_ge_0])

lemma varchar_typmod:
  assumes "0 < n" and "n \<le> (0x7FFFFFFB :: u32)"
  shows "n + 4 \<noteq> - 1" and "4 < sint (n + 4)"
proof -
  have n: "0 < uint n" "uint n \<le> 0x7FFFFFFB" using assms by (simp_all add: word_less_def word_le_def)
  then have "uint (n + 4) = uint n + 4" by (simp add: uint_word_ariths(1))
  then have "sint (n + 4) = uint n + 4" using sint_small [of "n + 4"] n(2) by simp
  then show "4 < sint (n + 4)" using n(1) by simp
  show "n + 4 \<noteq> - 1"
  proof
    assume eq: "n + 4 = - 1"
    show False using \<open>4 < sint (n + 4)\<close> unfolding eq by simp
  qed
qed

text \<open>  What the catalog stores of a column type (the type number and the modifier) restores the type exactly for
  the types \<open>restorable\<close> names. Arrays and both JSON types cannot be restored at all, and a
  \<^verbatim>\<open>VARCHAR(0)\<close> comes back with length 255.
\<close>

theorem column_type_restored:
  "(restorable t \<longrightarrow> from_oid (type_oid t) (typmod t) = Some t)
    \<and> from_oid (type_oid (TArray u)) m = None \<and> from_oid (type_oid TJson) m = None \<and> from_oid (type_oid TJsonb) m = None
    \<and> from_oid (type_oid (TVarChar 0)) (typmod (TVarChar 0)) = Some (TVarChar 255)"
proof -
  have "from_oid (type_oid t) (typmod t) = Some t" if "restorable t"
  proof (cases t)
    case (TVarChar n)
    then show ?thesis using that varchar_typmod [of n] by (auto simp: from_oid_def typmod_def Let_def)
  qed (use that in \<open>simp_all add: from_oid_def\<close>)
  then show ?thesis by (simp add: from_oid_def typmod_def)
qed

theorem column_type_restored_witness:
  "restorable (TVarChar 20) \<and> from_oid (type_oid (TVarChar 20)) (typmod (TVarChar 20)) = Some (TVarChar 20)"
  using column_type_restored [of "TVarChar 20"] by simp

end
