(* ===== verification/Catalog_Rows.thy ===== *)
theory Catalog_Rows
  imports Sql_Type
begin

text \<open>
  The rows of the catalog and their encoding: \<^verbatim>\<open>catalog/src/encoding.rs\<close>, \<^verbatim>\<open>pg_class.rs\<close>,
  \<^verbatim>\<open>pg_attribute.rs\<close>, \<^verbatim>\<open>pg_authid.rs\<close> and \<^verbatim>\<open>pg_namespace.rs\<close>. A floating point number is its bits.
  The messages of errors are left out.
\<close>

section \<open>Writers\<close>

datatype catalog_error =
    CatTableNotFound rstring | DuplicateTable rstring | CatColumnNotFound rstring | SchemaNotFound rstring
  | RoleNotFound rstring | DuplicateRole rstring | CatIo | CatStorage | CatHeap | CatWal | CatTxn | CatSerde
  | CorruptCatalog | AlreadyExists rstring

definition cat_u8 :: "u8 \<Rightarrow> byte list \<Rightarrow> byte list" where
  "cat_u8 v buf = buf @ [v]"

definition cat_u16 :: "u16 \<Rightarrow> byte list \<Rightarrow> byte list" where
  "cat_u16 v buf = buf @ u16_bytes v"

definition cat_u32 :: "u32 \<Rightarrow> byte list \<Rightarrow> byte list" where
  "cat_u32 v buf = buf @ u32_bytes v"

definition cat_i16 :: "u16 \<Rightarrow> byte list \<Rightarrow> byte list" where
  "cat_i16 v buf = buf @ u16_bytes v"

definition cat_i32 :: "u32 \<Rightarrow> byte list \<Rightarrow> byte list" where
  "cat_i32 v buf = buf @ u32_bytes v"

definition cat_f64 :: "u64 \<Rightarrow> byte list \<Rightarrow> byte list" where
  "cat_f64 v buf = buf @ u64_bytes v"

definition cat_bool :: "bool \<Rightarrow> byte list \<Rightarrow> byte list" where
  "cat_bool v buf = buf @ [if v then 1 else 0]"

definition cat_str :: "rstring \<Rightarrow> byte list \<Rightarrow> byte list" where
  "cat_str s buf = cat_u16 (of_nat (length s)) buf @ s"

definition cat_opt_str :: "rstring option \<Rightarrow> byte list \<Rightarrow> byte list" where
  "cat_opt_str s buf = (case s of Some s \<Rightarrow> cat_str s (cat_u8 1 buf) | None \<Rightarrow> cat_u8 0 buf)"

section \<open>Readers\<close>

record reader =
  rbuf :: "byte list"
  rpos :: nat

definition Reader_new :: "byte list \<Rightarrow> reader" where
  "Reader_new buf = \<lparr>rbuf = buf, rpos = 0\<rparr>"

definition need :: "nat \<Rightarrow> (reader, catalog_error, unit) sop" where
  "need n = (\<lambda>r. (if length (rbuf r) < rpos r + n then Err CorruptCatalog else Ok (), r))"

text \<open>The bytes of the next field, once \<open>need\<close> has passed.\<close>

definition advance :: "nat \<Rightarrow> (reader, catalog_error, byte list) sop" where
  "advance n = (\<lambda>r. (Ok (slice (rpos r) n (rbuf r)), r\<lparr>rpos := rpos r + n\<rparr>))"

definition get_u8 :: "(reader, catalog_error, u8) sop" where
  "get_u8 = sbind (need 1) (\<lambda>_. sbind (advance 1) (\<lambda>b. sret (b ! 0)))"

definition get_u16 :: "(reader, catalog_error, u16) sop" where
  "get_u16 = sbind (need 2) (\<lambda>_. sbind (advance 2) (\<lambda>b. sret (from_le_bytes b)))"

definition get_u32 :: "(reader, catalog_error, u32) sop" where
  "get_u32 = sbind (need 4) (\<lambda>_. sbind (advance 4) (\<lambda>b. sret (from_le_bytes b)))"

definition get_i16 :: "(reader, catalog_error, u16) sop" where
  "get_i16 = sbind (need 2) (\<lambda>_. sbind (advance 2) (\<lambda>b. sret (from_le_bytes b)))"

definition get_i32 :: "(reader, catalog_error, u32) sop" where
  "get_i32 = sbind (need 4) (\<lambda>_. sbind (advance 4) (\<lambda>b. sret (from_le_bytes b)))"

definition get_f64 :: "(reader, catalog_error, u64) sop" where
  "get_f64 = sbind (need 8) (\<lambda>_. sbind (advance 8) (\<lambda>b. sret (from_le_bytes b)))"

definition get_bool :: "(reader, catalog_error, bool) sop" where
  "get_bool = sbind get_u8 (\<lambda>b. sret (b \<noteq> 0))"

definition get_str :: "(reader, catalog_error, rstring) sop" where
  "get_str =
     sbind get_u16 (\<lambda>len.
     sbind (need (unat len)) (\<lambda>_ r.
     let s = slice (rpos r) (unat len) (rbuf r) in
     if utf8_ok s then (Ok s, r\<lparr>rpos := rpos r + unat len\<rparr>) else (Err CorruptCatalog, r)))"

definition get_opt_str :: "(reader, catalog_error, rstring option) sop" where
  "get_opt_str = sbind get_u8 (\<lambda>present. if present \<noteq> 0 then sbind get_str (\<lambda>s. sret (Some s)) else sret None)"

section \<open>Rows\<close>

record pg_class_row =
  cl_oid :: u32
  relname :: rstring
  relnamespace :: u32
  reltype :: u32
  relkind :: u8
  relnatts :: u16
  relpages :: u32
  reltuples :: u64

definition pg_class_encode :: "pg_class_row \<Rightarrow> byte list" where
  "pg_class_encode c = cat_f64 (reltuples c) (cat_u32 (relpages c) (cat_u16 (relnatts c) (cat_u8 (relkind c)
     (cat_u32 (reltype c) (cat_u32 (relnamespace c) (cat_str (relname c) (cat_u32 (cl_oid c) [])))))))"

definition pg_class_decode :: "byte list \<Rightarrow> (catalog_error, pg_class_row) outcome" where
  "pg_class_decode bytes = fst (
     (sbind get_u32 (\<lambda>oid. sbind get_str (\<lambda>name. sbind get_u32 (\<lambda>ns. sbind get_u32 (\<lambda>ty. sbind get_u8 (\<lambda>kind.
      sbind get_u16 (\<lambda>natts. sbind get_u32 (\<lambda>pages. sbind get_f64 (\<lambda>tuples.
      sret \<lparr>cl_oid = oid, relname = name, relnamespace = ns, reltype = ty, relkind = kind, relnatts = natts,
            relpages = pages, reltuples = tuples\<rparr>)))))))))
     (Reader_new bytes))"

record pg_attribute_row =
  attrelid :: u32
  attname :: rstring
  atttypid :: u32
  atttypmod :: u32
  attnum :: u16
  attnotnull :: bool
  atthasdef :: bool
  attisdropped :: bool

definition pg_attribute_encode :: "pg_attribute_row \<Rightarrow> byte list" where
  "pg_attribute_encode a = cat_bool (attisdropped a) (cat_bool (atthasdef a) (cat_bool (attnotnull a)
     (cat_i16 (attnum a) (cat_i32 (atttypmod a) (cat_u32 (atttypid a) (cat_str (attname a) (cat_u32 (attrelid a) [])))))))"

definition pg_attribute_decode :: "byte list \<Rightarrow> (catalog_error, pg_attribute_row) outcome" where
  "pg_attribute_decode bytes = fst (
     (sbind get_u32 (\<lambda>rel. sbind get_str (\<lambda>name. sbind get_u32 (\<lambda>ty. sbind get_i32 (\<lambda>md. sbind get_i16 (\<lambda>num.
      sbind get_bool (\<lambda>nn. sbind get_bool (\<lambda>def. sbind get_bool (\<lambda>dropped.
      sret \<lparr>attrelid = rel, attname = name, atttypid = ty, atttypmod = md, attnum = num, attnotnull = nn,
            atthasdef = def, attisdropped = dropped\<rparr>)))))))))
     (Reader_new bytes))"

record pg_authid_row =
  ro_oid :: u32
  rolname :: rstring
  rolsuper :: bool
  rolinherit :: bool
  rolcreaterole :: bool
  rolcreatedb :: bool
  rolcanlogin :: bool
  rolbypassrls :: bool
  rolpassword :: "rstring option"

definition pg_authid_encode :: "pg_authid_row \<Rightarrow> byte list" where
  "pg_authid_encode a = cat_opt_str (rolpassword a) (cat_bool (rolbypassrls a) (cat_bool (rolcanlogin a) (cat_bool (rolcreatedb a)
     (cat_bool (rolcreaterole a) (cat_bool (rolinherit a) (cat_bool (rolsuper a) (cat_str (rolname a) (cat_u32 (ro_oid a) []))))))))"

definition pg_authid_decode :: "byte list \<Rightarrow> (catalog_error, pg_authid_row) outcome" where
  "pg_authid_decode bytes = fst (
     (sbind get_u32 (\<lambda>oid. sbind get_str (\<lambda>name. sbind get_bool (\<lambda>su. sbind get_bool (\<lambda>inh. sbind get_bool (\<lambda>cr.
      sbind get_bool (\<lambda>cd. sbind get_bool (\<lambda>login. sbind get_bool (\<lambda>rls. sbind get_opt_str (\<lambda>pw.
      sret \<lparr>ro_oid = oid, rolname = name, rolsuper = su, rolinherit = inh, rolcreaterole = cr, rolcreatedb = cd,
            rolcanlogin = login, rolbypassrls = rls, rolpassword = pw\<rparr>))))))))))
     (Reader_new bytes))"

record pg_namespace_row =
  ns_oid :: u32
  nspname :: rstring
  nspowner :: u32

definition pg_namespace_encode :: "pg_namespace_row \<Rightarrow> byte list" where
  "pg_namespace_encode n = cat_u32 (nspowner n) (cat_str (nspname n) (cat_u32 (ns_oid n) []))"

definition pg_namespace_decode :: "byte list \<Rightarrow> (catalog_error, pg_namespace_row) outcome" where
  "pg_namespace_decode bytes = fst (
     (sbind get_u32 (\<lambda>oid. sbind get_str (\<lambda>name. sbind get_u32 (\<lambda>owner.
      sret \<lparr>ns_oid = oid, nspname = name, nspowner = owner\<rparr>))))
     (Reader_new bytes))"

section \<open>Reading what was written\<close>

text \<open>
  A reader consumes \<open>bs\<close> and delivers \<open>v\<close>, whatever surrounds the bytes. Readers compose: this is the
  contract between the field readers and the rows.
\<close>

definition reads :: "(reader, catalog_error, 'a) sop \<Rightarrow> byte list \<Rightarrow> 'a \<Rightarrow> bool" where
  "reads m bs v \<longleftrightarrow> (\<forall>pre post. m \<lparr>rbuf = pre @ bs @ post, rpos = length pre\<rparr>
     = (Ok v, \<lparr>rbuf = pre @ bs @ post, rpos = length pre + length bs\<rparr>))"

named_theorems reader_rules \<open>what the field readers deliver\<close>

lemma reads_bind: "reads m bs v \<Longrightarrow> reads (f v) cs w \<Longrightarrow> reads (sbind m f) (bs @ cs) w"
  unfolding reads_def
proof (intro allI)
  fix pre post
  assume m: "\<forall>pre post. m \<lparr>rbuf = pre @ bs @ post, rpos = length pre\<rparr> = (Ok v, \<lparr>rbuf = pre @ bs @ post, rpos = length pre + length bs\<rparr>)"
    and f: "\<forall>pre post. f v \<lparr>rbuf = pre @ cs @ post, rpos = length pre\<rparr> = (Ok w, \<lparr>rbuf = pre @ cs @ post, rpos = length pre + length cs\<rparr>)"
  show "sbind m f \<lparr>rbuf = pre @ (bs @ cs) @ post, rpos = length pre\<rparr>
      = (Ok w, \<lparr>rbuf = pre @ (bs @ cs) @ post, rpos = length pre + length (bs @ cs)\<rparr>)"
    using m [rule_format, of pre "cs @ post"] f [rule_format, of "pre @ bs" post] by simp
qed

lemma reads_ret: "reads (sret v) [] v"
  by (simp add: reads_def)

lemma reads_done: "v = w \<Longrightarrow> reads (sret v) [] w"
  by (simp add: reads_ret)

lemma reads_last: "reads m bs v \<Longrightarrow> reads (f v) [] w \<Longrightarrow> reads (sbind m f) bs w"
  using reads_bind [of m bs v f "[]" w] by simp

lemma reads_run: "reads m bs v \<Longrightarrow> fst (m (Reader_new bs)) = Ok v"
  unfolding reads_def Reader_new_def by (metis append_Nil append_Nil2 fst_conv list.size(3))

lemma need_ok [simp]: "need (length bs) \<lparr>rbuf = pre @ bs @ post, rpos = length pre\<rparr> = (Ok (), \<lparr>rbuf = pre @ bs @ post, rpos = length pre\<rparr>)"
  by (simp add: need_def)

lemma advance_ok: "reads (sbind (need (length bs)) (\<lambda>_. sbind (advance (length bs)) (\<lambda>b. sret (f b)))) bs (f bs)"
  by (simp add: reads_def advance_def slice_def)

lemma field_rules [reader_rules]:
  "reads get_u8 [b] b" "reads get_u16 (u16_bytes x) x" "reads get_u32 (u32_bytes y) y" "reads get_i16 (u16_bytes x) x"
  "reads get_i32 (u32_bytes y) y" "reads get_f64 (u64_bytes z) z" "reads get_bool [if c then 1 else 0] c"
proof -
  show u8: "reads get_u8 [b] b" for b
    using advance_ok [of "[b]" "\<lambda>b. b ! 0"] by (simp add: get_u8_def)
  show "reads get_u16 (u16_bytes x) x" "reads get_i16 (u16_bytes x) x"
    using advance_ok [of "u16_bytes x" "from_le_bytes :: _ \<Rightarrow> u16"] by (simp_all add: get_u16_def get_i16_def)
  show "reads get_u32 (u32_bytes y) y" "reads get_i32 (u32_bytes y) y"
    using advance_ok [of "u32_bytes y" "from_le_bytes :: _ \<Rightarrow> u32"] by (simp_all add: get_u32_def get_i32_def)
  show "reads get_f64 (u64_bytes z) z"
    using advance_ok [of "u64_bytes z" "from_le_bytes :: _ \<Rightarrow> u64"] by (simp add: get_f64_def)
  show "reads get_bool [if c then 1 else 0] c"
    unfolding get_bool_def by (rule reads_last [OF u8]) (auto simp: reads_def)
qed

lemma str_rule:
  assumes "utf8_ok s" and "length s < 2 ^ 16"
  shows "reads get_str (u16_bytes (of_nat (length s)) @ s) s"
  unfolding get_str_def
proof (rule reads_bind [OF field_rules(2)])
  show "reads (sbind (need (unat (of_nat (length s) :: u16)))
      (\<lambda>_ r. let t = slice (rpos r) (unat (of_nat (length s) :: u16)) (rbuf r) in
        if utf8_ok t then (Ok t, r\<lparr>rpos := rpos r + unat (of_nat (length s) :: u16)\<rparr>) else (Err CorruptCatalog, r))) s s"
    using assms by (simp add: reads_def slice_def Let_def)
qed

lemma opt_str_rule:
  assumes "pred_option (\<lambda>s. utf8_ok s \<and> length s < 2 ^ 16) v"
  shows "reads get_opt_str (case v of Some s \<Rightarrow> 1 # u16_bytes (of_nat (length s)) @ s | None \<Rightarrow> [0]) v"
proof (cases v)
  case None
  then show ?thesis
    unfolding get_opt_str_def using reads_last [OF field_rules(1) [of 0], of "\<lambda>present. if present \<noteq> 0 then sbind get_str (\<lambda>s. sret (Some s)) else sret None"]
    by (simp add: reads_ret)
next
  case (Some s)
  then have "reads (sbind get_str (\<lambda>s. sret (Some s))) (u16_bytes (of_nat (length s)) @ s) (Some s)"
    using assms by (intro reads_last [OF str_rule] reads_ret) simp_all
  then show ?thesis
    unfolding get_opt_str_def using reads_bind [OF field_rules(1) [of 1], of "\<lambda>present. if present \<noteq> 0 then sbind get_str (\<lambda>s. sret (Some s)) else sret None"] Some
    by simp
qed


text \<open>Names of catalog rows: at most 65535 bytes, the longest the length field can say.\<close>

definition name_ok :: "rstring \<Rightarrow> bool" where
  "name_ok s \<longleftrightarrow> utf8_ok s \<and> length s < 2 ^ 16"

lemmas row_defs = cat_u8_def cat_u16_def cat_u32_def cat_i16_def cat_i32_def cat_f64_def cat_bool_def cat_str_def cat_opt_str_def

lemma name_reads: "name_ok s \<Longrightarrow> reads get_str (u16_bytes (of_nat (length s)) @ s) s"
  by (simp add: name_ok_def str_rule)

lemma class_roundtrip:
  assumes "name_ok (relname c)"
  shows "pg_class_decode (pg_class_encode c) = Ok c"
proof -
  have enc: "pg_class_encode c = u32_bytes (cl_oid c) @ (u16_bytes (of_nat (length (relname c))) @ relname c) @ u32_bytes (relnamespace c)
      @ u32_bytes (reltype c) @ [relkind c] @ u16_bytes (relnatts c) @ u32_bytes (relpages c) @ u64_bytes (reltuples c)"
    by (simp add: pg_class_encode_def row_defs)
  show ?thesis
    unfolding pg_class_decode_def enc
    by (rule reads_run, rule reads_bind [OF field_rules(3)], rule reads_bind [OF name_reads [OF assms]],
        rule reads_bind [OF field_rules(3)], rule reads_bind [OF field_rules(3)], rule reads_bind [OF field_rules(1)],
        rule reads_bind [OF field_rules(2)], rule reads_bind [OF field_rules(3)], rule reads_last [OF field_rules(6)], rule reads_done) simp
qed

lemma attribute_roundtrip:
  assumes "name_ok (attname a)"
  shows "pg_attribute_decode (pg_attribute_encode a) = Ok a"
proof -
  have enc: "pg_attribute_encode a = u32_bytes (attrelid a) @ (u16_bytes (of_nat (length (attname a))) @ attname a) @ u32_bytes (atttypid a)
      @ u32_bytes (atttypmod a) @ u16_bytes (attnum a) @ [if attnotnull a then 1 else 0] @ [if atthasdef a then 1 else 0]
      @ [if attisdropped a then 1 else 0]"
    by (simp add: pg_attribute_encode_def row_defs)
  show ?thesis
    unfolding pg_attribute_decode_def enc
    by (rule reads_run, rule reads_bind [OF field_rules(3)], rule reads_bind [OF name_reads [OF assms]],
        rule reads_bind [OF field_rules(3)], rule reads_bind [OF field_rules(5)], rule reads_bind [OF field_rules(4)],
        rule reads_bind [OF field_rules(7)], rule reads_bind [OF field_rules(7)], rule reads_last [OF field_rules(7)], rule reads_done) simp
qed

lemma authid_roundtrip:
  assumes "name_ok (rolname a)" and "pred_option name_ok (rolpassword a)"
  shows "pg_authid_decode (pg_authid_encode a) = Ok a"
proof -
  have enc: "pg_authid_encode a = u32_bytes (ro_oid a) @ (u16_bytes (of_nat (length (rolname a))) @ rolname a)
      @ [if rolsuper a then 1 else 0] @ [if rolinherit a then 1 else 0] @ [if rolcreaterole a then 1 else 0]
      @ [if rolcreatedb a then 1 else 0] @ [if rolcanlogin a then 1 else 0] @ [if rolbypassrls a then 1 else 0]
      @ (case rolpassword a of Some s \<Rightarrow> 1 # u16_bytes (of_nat (length s)) @ s | None \<Rightarrow> [0])"
    by (simp add: pg_authid_encode_def row_defs split: option.split)
  have pw: "reads get_opt_str (case rolpassword a of Some s \<Rightarrow> 1 # u16_bytes (of_nat (length s)) @ s | None \<Rightarrow> [0]) (rolpassword a)"
    using assms(2) by (intro opt_str_rule) (simp add: name_ok_def [abs_def])
  show ?thesis
    unfolding pg_authid_decode_def enc
    by (rule reads_run, rule reads_bind [OF field_rules(3)], rule reads_bind [OF name_reads [OF assms(1)]],
        rule reads_bind [OF field_rules(7)], rule reads_bind [OF field_rules(7)], rule reads_bind [OF field_rules(7)],
        rule reads_bind [OF field_rules(7)], rule reads_bind [OF field_rules(7)], rule reads_bind [OF field_rules(7)],
        rule reads_last [OF pw], rule reads_done) simp
qed

lemma namespace_roundtrip:
  assumes "name_ok (nspname n)"
  shows "pg_namespace_decode (pg_namespace_encode n) = Ok n"
proof -
  have enc: "pg_namespace_encode n = u32_bytes (ns_oid n) @ (u16_bytes (of_nat (length (nspname n))) @ nspname n) @ u32_bytes (nspowner n)"
    by (simp add: pg_namespace_encode_def row_defs)
  show ?thesis
    unfolding pg_namespace_decode_def enc
    by (rule reads_run, rule reads_bind [OF field_rules(3)], rule reads_bind [OF name_reads [OF assms]],
        rule reads_last [OF field_rules(3)], rule reads_done) simp
qed

text \<open>  Every row of the catalog (tables, columns, roles and namespaces) is read back from its bytes as it was
  written, as long as its names fit the 16-bit length field.
\<close>

theorem catalog_rows_roundtrip:
  "(name_ok (relname c) \<longrightarrow> pg_class_decode (pg_class_encode c) = Ok c)
    \<and> (name_ok (attname a) \<longrightarrow> pg_attribute_decode (pg_attribute_encode a) = Ok a)
    \<and> (name_ok (rolname r) \<and> pred_option name_ok (rolpassword r) \<longrightarrow> pg_authid_decode (pg_authid_encode r) = Ok r)
    \<and> (name_ok (nspname n) \<longrightarrow> pg_namespace_decode (pg_namespace_encode n) = Ok n)"
  by (simp add: class_roundtrip attribute_roundtrip authid_roundtrip namespace_roundtrip)

theorem catalog_rows_roundtrip_witness:
  "name_ok [104, 105] \<and> pg_namespace_decode (pg_namespace_encode \<lparr>ns_oid = 100, nspname = [104, 105], nspowner = 10\<rparr>)
    = Ok \<lparr>ns_oid = 100, nspname = [104, 105], nspowner = 10\<rparr>"
proof -
  have "name_ok [104, 105]" by (simp add: name_ok_def)
  then show ?thesis
    using catalog_rows_roundtrip [of undefined undefined undefined "\<lparr>ns_oid = 100, nspname = [104, 105], nspowner = 10\<rparr>"] by simp
qed

end
