(* ===== verification/Heap_Tuple.thy ===== *)
theory Heap_Tuple
  imports Ice_Prelude
begin

text \<open>
  Tuple identifiers (\<^verbatim>\<open>storage/src/tid.rs\<close>), the storage crate's error enums
  (\<^verbatim>\<open>storage/src/error.rs\<close>) and the heap tuple with its 22-byte header
  (\<^verbatim>\<open>storage/src/tuple.rs\<close>): construction, serialisation, deserialisation, the round
  trip between the two and the exact conditions under which decoding fails.
\<close>

section \<open>Definitions\<close>

record tid =
  page_no :: u32
  slot :: u16

definition TID_new :: "u32 \<Rightarrow> u16 \<Rightarrow> tid" where
  "TID_new p s = \<lparr>page_no = p, slot = s\<rparr>"

datatype page_error =
    InsufficientSpace nat u16
  | SlotOutOfRange u16
  | SlotDead u16
  | ChecksumMismatch

datatype tuple_error = TooShort nat nat

datatype heap_error =
    HeapPage page_error
  | HeapTuple tuple_error
  | PageNotFound u32

datatype buffer_error =
    BufferHeap heap_error
  | AllFramesPinned
  | FrameOutOfRange nat

datatype storage_error =
    StoragePage page_error
  | StorageTuple tuple_error
  | StorageHeap heap_error
  | StorageBuffer buffer_error

abbreviation (input) HEAP_XMAX_INVALID :: u16 where "HEAP_XMAX_INVALID \<equiv> 0x0800"
abbreviation (input) TUPLE_HEADER_SIZE :: nat where "TUPLE_HEADER_SIZE \<equiv> 22"
abbreviation (input) TUPLE_HOFF :: u8 where "TUPLE_HOFF \<equiv> 24"

record tuple_header =
  t_xmin :: u32
  t_xmax :: u32
  t_cid :: u32
  t_ctid_page :: u32
  t_ctid_slot :: u16
  t_infomask :: u16
  t_hoff :: u8
  t_bits :: u8

definition TupleHeader_new :: tuple_header where
  "TupleHeader_new = \<lparr>t_xmin = 0, t_xmax = 0, t_cid = 0, t_ctid_page = 0, t_ctid_slot = 0,
     t_infomask = HEAP_XMAX_INVALID, t_hoff = TUPLE_HOFF, t_bits = 0\<rparr>"

definition encode_into :: "tuple_header \<Rightarrow> byte list \<Rightarrow> byte list" where
  "encode_into h buf = buf @ u32_bytes (t_xmin h) @ u32_bytes (t_xmax h) @ u32_bytes (t_cid h)
     @ u32_bytes (t_ctid_page h) @ u16_bytes (t_ctid_slot h) @ u16_bytes (t_infomask h)
     @ [t_hoff h, t_bits h]"

definition decode_from :: "byte list \<Rightarrow> (tuple_error, tuple_header) outcome" where
  "decode_from bytes =
     (if length bytes < TUPLE_HEADER_SIZE
      then Err (TooShort (length bytes) TUPLE_HEADER_SIZE)
      else Ok \<lparr>t_xmin = from_le_bytes (slice 0 4 bytes),
               t_xmax = from_le_bytes (slice 4 4 bytes),
               t_cid = from_le_bytes (slice 8 4 bytes),
               t_ctid_page = from_le_bytes (slice 12 4 bytes),
               t_ctid_slot = from_le_bytes (slice 16 2 bytes),
               t_infomask = from_le_bytes (slice 18 2 bytes),
               t_hoff = bytes ! 20,
               t_bits = bytes ! 21\<rparr>)"

record tuple =
  header :: tuple_header
  tdata :: "byte list"

definition Tuple_new :: "byte list \<Rightarrow> tuple" where
  "Tuple_new d = \<lparr>header = TupleHeader_new, tdata = d\<rparr>"

text \<open>The padding loop of \<^verbatim>\<open>Tuple::encode\<close>.\<close>

function pad_to :: "nat \<Rightarrow> byte list \<Rightarrow> byte list" where
  "pad_to n buf = (if length buf < n then pad_to n (buf @ [0]) else buf)"
  by pat_completeness auto
termination
  by (relation "measure (\<lambda>(n, buf). n - length buf)") auto

definition Tuple_encode :: "tuple \<Rightarrow> byte list" where
  "Tuple_encode t = pad_to (unat (t_hoff (header t))) (encode_into (header t) []) @ tdata t"

definition Tuple_decode :: "byte list \<Rightarrow> (tuple_error, tuple) outcome" where
  "Tuple_decode bytes =
     obind (decode_from bytes) (\<lambda>h.
       let hoff = unat (t_hoff h) in
       if length bytes < hoff then Err (TooShort (length bytes) hoff)
       else Ok \<lparr>header = h, tdata = drop hoff bytes\<rparr>)"

text \<open>
  A tuple the engine builds: the data offset does not point into the header. Every tuple made
  by \<open>Tuple_new\<close> and every header update of the transaction manager satisfies it.
\<close>

definition tuple_wf :: "tuple \<Rightarrow> bool" where
  "tuple_wf t \<longleftrightarrow> TUPLE_HEADER_SIZE \<le> unat (t_hoff (header t))"

section \<open>Header and tuple round trips\<close>

declare pad_to.simps [simp del]

lemma pad_to_eq: "pad_to n buf = buf @ replicate (n - length buf) 0"
proof (induction n buf rule: pad_to.induct)
  case (1 n buf)
  show ?case
  proof (cases "length buf < n")
    case True
    then have "n - length buf = Suc (n - Suc (length buf))" by simp
    with True "1.IH" show ?thesis by (simp add: pad_to.simps [of n buf])
  next
    case False
    then show ?thesis by (simp add: pad_to.simps [of n buf])
  qed
qed

lemma length_encode_into [simp]: "length (encode_into h buf) = length buf + 22"
  by (simp add: encode_into_def)

lemma length_Tuple_encode:
  "length (Tuple_encode t) = max 22 (unat (t_hoff (header t))) + length (tdata t)"
  by (simp add: Tuple_encode_def pad_to_eq)

lemma decode_encode_header:
  "decode_from (encode_into h [] @ rest) = Ok h"
proof -
  have sl: "slice 0 4 (encode_into h [] @ rest) = u32_bytes (t_xmin h)"
    "slice 4 4 (encode_into h [] @ rest) = u32_bytes (t_xmax h)"
    "slice 8 4 (encode_into h [] @ rest) = u32_bytes (t_cid h)"
    "slice 12 4 (encode_into h [] @ rest) = u32_bytes (t_ctid_page h)"
    "slice 16 2 (encode_into h [] @ rest) = u16_bytes (t_ctid_slot h)"
    "slice 18 2 (encode_into h [] @ rest) = u16_bytes (t_infomask h)"
    by (simp_all add: slice_def encode_into_def)
  have nth: "(encode_into h [] @ rest) ! 20 = t_hoff h" "(encode_into h [] @ rest) ! 21 = t_bits h"
    by (simp_all add: encode_into_def nth_append)
  show ?thesis
    by (simp add: decode_from_def sl nth)
qed

lemma tuple_wf_new [simp, intro]: "tuple_wf (Tuple_new d)"
  by (simp add: tuple_wf_def Tuple_new_def TupleHeader_new_def)

lemma tuple_decode_encode:
  assumes "tuple_wf t"
  shows "Tuple_decode (Tuple_encode t) = Ok t"
proof -
  let ?hoff = "unat (t_hoff (header t))"
  have enc: "Tuple_encode t = encode_into (header t) [] @ replicate (?hoff - 22) 0 @ tdata t"
    by (simp add: Tuple_encode_def pad_to_eq)
  have hdr: "decode_from (Tuple_encode t) = Ok (header t)"
    unfolding enc by (rule decode_encode_header)
  have len: "length (Tuple_encode t) = ?hoff + length (tdata t)"
    using assms by (simp add: length_Tuple_encode tuple_wf_def max_def)
  have "drop ?hoff (Tuple_encode t) = tdata t"
    using assms by (simp add: enc tuple_wf_def)
  with hdr len show ?thesis
    by (simp add: Tuple_decode_def)
qed

lemma tuple_decode_cases:
  "Tuple_decode bytes =
     (if length bytes < 22 then Err (TooShort (length bytes) 22)
      else if length bytes < unat (bytes ! 20) then Err (TooShort (length bytes) (unat (bytes ! 20)))
      else Ok \<lparr>header = (case decode_from bytes of Ok h \<Rightarrow> h | _ \<Rightarrow> TupleHeader_new),
               tdata = drop (unat (bytes ! 20)) bytes\<rparr>)"
  by (auto simp: Tuple_decode_def decode_from_def Let_def)

lemma tuple_decode_wf_encode:
  assumes "Tuple_decode bytes = Ok t"
  shows "length bytes = unat (t_hoff (header t)) + length (tdata t)"
  using assms by (auto simp: Tuple_decode_def Let_def outcome_simps split: if_splits)

section \<open>Properties\<close>

text \<open>
  Decoding an encoded tuple gives the tuple back, header and data, for every tuple whose data
  offset lies behind the header; the encoding is exactly offset plus data long.
\<close>

theorem tuple_roundtrip:
  assumes "tuple_wf t"
  shows "Tuple_decode (Tuple_encode t) = Ok t
    \<and> length (Tuple_encode t) = unat (t_hoff (header t)) + length (tdata t)"
  using tuple_decode_encode [OF assms] tuple_decode_wf_encode by blast

theorem tuple_roundtrip_witness:
  "Tuple_decode (Tuple_encode (Tuple_new [1, 2, 3])) = Ok (Tuple_new [1, 2, 3])
     \<and> length (Tuple_encode (Tuple_new [1, 2, 3])) = 27"
  using tuple_roundtrip [OF tuple_wf_new, of "[1, 2, 3]"] by (simp add: Tuple_new_def TupleHeader_new_def)

end
