(* ===== verification/Wal_Record.thy ===== *)
theory Wal_Record
  imports Heap_Tuple
begin

text \<open>
  Write-ahead log records: \<^verbatim>\<open>wal/src/lsn.rs\<close>, \<^verbatim>\<open>wal/src/error.rs\<close> and
  \<^verbatim>\<open>wal/src/record.rs\<close>. The CRC, the record type byte, encoding and decoding, the round trip
  between them (also when other bytes follow the record), and what decoding guarantees about any
  byte string it accepts.
\<close>

section \<open>Definitions\<close>

type_synonym lsn = u64

abbreviation (input) INVALID_LSN :: lsn where "INVALID_LSN \<equiv> 0"
abbreviation (input) FIXED_HEADER_LEN :: nat where "FIXED_HEADER_LEN \<equiv> 33"
abbreviation (input) CRC_LEN :: nat where "CRC_LEN \<equiv> 4"

text \<open>The reason string of \<^verbatim>\<open>CorruptRecord\<close>, by the place that formats it.\<close>

datatype corrupt_reason =
    SliceTooShort nat
  | TotalLenBelowMinimum nat
  | SliceShorterThanTotal nat nat
  | CrcMismatch u32 u32
  | DataLenOverflow nat
  | TotalLenTooSmallAt nat nat
  | PageImageLength nat

datatype wal_error =
    WalIo
  | CorruptRecord lsn corrupt_reason
  | WalStorage storage_error
  | InvalidRecordType u8

text \<open>The inner loop of \<^verbatim>\<open>crc32\<close> runs eight times per byte.\<close>

definition crc_bit :: "u32 \<Rightarrow> u32" where
  "crc_bit crc = (if crc AND 1 \<noteq> 0 then drop_bit 1 crc XOR 0xEDB88320 else drop_bit 1 crc)"

definition crc_byte :: "u32 \<Rightarrow> byte \<Rightarrow> u32" where
  "crc_byte crc b = (crc_bit ^^ 8) (crc XOR ucast b)"

definition crc32 :: "byte list \<Rightarrow> u32" where
  "crc32 d = NOT (foldl crc_byte 0xFFFFFFFF d)"

datatype wal_record_type = Insert | Delete | Update | Commit | Abort | Checkpoint | PageImage

primrec type_byte :: "wal_record_type \<Rightarrow> u8" where
  "type_byte Insert = 1"
| "type_byte Delete = 2"
| "type_byte Update = 3"
| "type_byte Commit = 4"
| "type_byte Abort = 5"
| "type_byte Checkpoint = 6"
| "type_byte PageImage = 7"

definition try_from :: "u8 \<Rightarrow> (wal_error, wal_record_type) outcome" where
  "try_from v =
     (if v = 1 then Ok Insert else if v = 2 then Ok Delete else if v = 3 then Ok Update
      else if v = 4 then Ok Commit else if v = 5 then Ok Abort else if v = 6 then Ok Checkpoint
      else if v = 7 then Ok PageImage else Err (InvalidRecordType v))"

record wal_record =
  r_lsn :: lsn
  r_prev_lsn :: lsn
  r_xid :: u32
  r_type :: wal_record_type
  r_page_no :: u32
  r_data :: "byte list"

definition WalRecord_new :: "u32 \<Rightarrow> wal_record_type \<Rightarrow> u32 \<Rightarrow> byte list \<Rightarrow> wal_record" where
  "WalRecord_new x ty pn d = \<lparr>r_lsn = INVALID_LSN, r_prev_lsn = INVALID_LSN, r_xid = x, r_type = ty,
     r_page_no = pn, r_data = d\<rparr>"

definition wal_body :: "wal_record \<Rightarrow> byte list" where
  "wal_body r =
     u32_bytes (of_nat (FIXED_HEADER_LEN + length (r_data r) + CRC_LEN))
     @ u64_bytes (r_lsn r) @ u64_bytes (r_prev_lsn r) @ u32_bytes (r_xid r) @ [type_byte (r_type r)]
     @ u32_bytes (r_page_no r) @ u32_bytes (of_nat (length (r_data r))) @ r_data r"

definition wal_encode :: "wal_record \<Rightarrow> byte list" where
  "wal_encode r = (let buf = wal_body r in buf @ u32_bytes (crc32 buf))"

definition wal_decode :: "byte list \<Rightarrow> (wal_error, wal_record) outcome" where
  "wal_decode bytes =
     (if length bytes < FIXED_HEADER_LEN + CRC_LEN
      then Err (CorruptRecord INVALID_LSN (SliceTooShort (length bytes)))
      else let total_len = unat (from_le_bytes (slice 0 4 bytes) :: u32) in
      if total_len < FIXED_HEADER_LEN + CRC_LEN
      then Err (CorruptRecord INVALID_LSN (TotalLenBelowMinimum total_len))
      else if length bytes < total_len
      then Err (CorruptRecord INVALID_LSN (SliceShorterThanTotal (length bytes) total_len))
      else let crc_offset = total_len - CRC_LEN;
               stored_crc = from_le_bytes (slice crc_offset 4 bytes) :: u32;
               computed_crc = crc32 (take crc_offset bytes);
               lsn = from_le_bytes (slice 4 8 bytes) in
      if stored_crc \<noteq> computed_crc
      then Err (CorruptRecord lsn (CrcMismatch stored_crc computed_crc))
      else obind (try_from (bytes ! 24)) (\<lambda>ty.
        let data_len = unat (from_le_bytes (slice 29 4 bytes) :: u32) in
        if crc_offset < FIXED_HEADER_LEN + data_len
        then Err (CorruptRecord lsn (DataLenOverflow data_len))
        else Ok \<lparr>r_lsn = lsn,
                 r_prev_lsn = from_le_bytes (slice 12 8 bytes),
                 r_xid = from_le_bytes (slice 20 4 bytes),
                 r_type = ty,
                 r_page_no = from_le_bytes (slice 25 4 bytes),
                 r_data = slice FIXED_HEADER_LEN data_len bytes\<rparr>))"

text \<open>The lengths are 32-bit fields: a record fits when its payload leaves room for 37 bytes more.\<close>

definition record_fits :: "wal_record \<Rightarrow> bool" where
  "record_fits r \<longleftrightarrow> 37 + length (r_data r) < 2 ^ 32"

section \<open>Round trip\<close>

lemma try_from_type_byte [simp]: "try_from (type_byte ty) = Ok ty"
  by (cases ty) (simp_all add: try_from_def)

lemma try_from_Ok: "try_from v = Ok ty \<longleftrightarrow> v = type_byte ty"
  by (cases ty) (auto simp: try_from_def split: if_splits)

lemma length_wal_body [simp]: "length (wal_body r) = 33 + length (r_data r)"
  by (simp add: wal_body_def)

lemma length_wal_encode [simp]: "length (wal_encode r) = 37 + length (r_data r)"
  by (simp add: wal_encode_def Let_def)

lemma wal_encode_fields:
  "slice 0 4 (wal_encode r @ rest) = u32_bytes (of_nat (37 + length (r_data r)))"
  "slice 4 8 (wal_encode r @ rest) = u64_bytes (r_lsn r)"
  "slice 12 8 (wal_encode r @ rest) = u64_bytes (r_prev_lsn r)"
  "slice 20 4 (wal_encode r @ rest) = u32_bytes (r_xid r)"
  "(wal_encode r @ rest) ! 24 = type_byte (r_type r)"
  "slice 25 4 (wal_encode r @ rest) = u32_bytes (r_page_no r)"
  "slice 29 4 (wal_encode r @ rest) = u32_bytes (of_nat (length (r_data r)))"
  "slice 33 (length (r_data r)) (wal_encode r @ rest) = r_data r"
  by (simp_all add: slice_def wal_encode_def wal_body_def Let_def nth_append add.commute)

lemma wal_encode_crc:
  "take (33 + length (r_data r)) (wal_encode r @ rest) = wal_body r"
  "slice (33 + length (r_data r)) 4 (wal_encode r @ rest) = u32_bytes (crc32 (wal_body r))"
  using length_wal_body [of r] by (simp_all add: slice_def wal_encode_def Let_def)

lemma wal_decode_encode_append:
  assumes "record_fits r"
  shows "wal_decode (wal_encode r @ rest) = Ok r"
proof -
  have n: "unat (of_nat (37 + length (r_data r)) :: u32) = 37 + length (r_data r)"
    "unat (of_nat (length (r_data r)) :: u32) = length (r_data r)"
    using assms by (auto simp: record_fits_def simp del: of_nat_add intro!: unat_of_nat_small)
  note f = wal_encode_fields [of r rest] wal_encode_crc [of r rest]
  have "37 + length (r_data r) - 4 = 33 + length (r_data r)" by simp
  then show ?thesis
    using wal_encode_crc(1) [of r "[]"] by (simp add: wal_decode_def Let_def f n del: of_nat_add)
qed

lemma wal_decode_Ok:
  assumes "wal_decode bytes = Ok r"
  shows "37 + length (r_data r) \<le> unat (from_le_bytes (slice 0 4 bytes) :: u32)"
    and "unat (from_le_bytes (slice 0 4 bytes) :: u32) \<le> length bytes" and "record_fits r"
proof -
  let ?t = "unat (from_le_bytes (slice 0 4 bytes) :: u32)"
  have t: "?t \<le> length bytes" "37 \<le> ?t" "33 + length (r_data r) \<le> ?t - 4"
    using assms by (auto simp: wal_decode_def Let_def outcome_simps not_less split: if_splits)
  then show "37 + length (r_data r) \<le> ?t" "?t \<le> length bytes" by linarith+
  moreover have "?t < 4294967296" by (rule unat_u32_bound)
  ultimately have "37 + length (r_data r) < 4294967296" by linarith
  then show "record_fits r" by (simp add: record_fits_def)
qed

section \<open>The CRC detects a damaged byte\<close>

lemma xor_cancel: "a XOR c = b XOR c \<longleftrightarrow> a = (b :: 'a::len word)"
  by (metis xor.assoc xor_self_eq xor.right_neutral)

lemma crc_bit_cases:
  "crc_bit x = (if bit x 0 then drop_bit 1 x XOR 0xEDB88320 else drop_bit 1 x)"
  by (simp add: crc_bit_def and_one_eq mod_2_eq_odd bit_0)

lemma crc_bit_top: "bit (crc_bit x) 31 \<longleftrightarrow> bit x 0"
proof -
  have "\<not> bit (drop_bit 1 x) 31" using bit_imp_le_length [of x 32] by (auto simp: bit_drop_bit_eq)
  moreover have "bit (0xEDB88320 :: u32) 31" by simp
  ultimately show ?thesis by (simp add: crc_bit_cases bit_xor_iff)
qed

lemma crc_bit_inj: "crc_bit x = crc_bit y \<Longrightarrow> x = y"
proof -
  assume eq: "crc_bit x = crc_bit y"
  then have low: "bit x 0 \<longleftrightarrow> bit y 0" by (metis crc_bit_top)
  then have "drop_bit 1 x = drop_bit 1 y"
    using eq by (simp add: crc_bit_cases xor_cancel split: if_splits)
  then have high: "bit x (Suc i) \<longleftrightarrow> bit y (Suc i)" for i
    by (metis bit_drop_bit_eq comp_apply plus_1_eq_Suc)
  show "x = y"
  proof (rule bit_word_eqI)
    fix n assume "n < LENGTH(32)"
    show "bit x n \<longleftrightarrow> bit y n" using low high by (cases n) auto
  qed
qed

lemma crc_bits_inj: "(crc_bit ^^ n) x = (crc_bit ^^ n) y \<Longrightarrow> x = y"
  by (induction n) (auto dest: crc_bit_inj)

lemma crc_byte_inj: "crc_byte c b = crc_byte c' b \<Longrightarrow> c = c'"
  by (auto simp: crc_byte_def xor_cancel dest: crc_bits_inj)

lemma crc_byte_detects:
  assumes "crc_byte c b = crc_byte c b'"
  shows "b = b'"
proof -
  have "ucast b XOR c = ucast b' XOR c"
    using assms by (auto simp: crc_byte_def xor.commute dest: crc_bits_inj)
  then have "(ucast b :: u32) = ucast b'" by (simp add: xor_cancel)
  moreover have "unat (ucast x :: u32) = unat x" for x :: byte
  proof -
    have "unat x < 2 ^ 32" by (rule less_trans [OF unat_u8_bound]) simp
    then show ?thesis using take_bit_nat_eq_self [of "unat x" 32] by (simp add: unsigned_ucast_eq)
  qed
  ultimately show "b = b'" by (metis unsigned_word_eqI)
qed

lemma crc_fold_inj: "foldl crc_byte c d = foldl crc_byte c' d \<Longrightarrow> c = c'"
  by (induction d arbitrary: c c') (auto dest: crc_byte_inj)

lemma crc32_one_byte:
  assumes "b \<noteq> b'"
  shows "crc32 (xs @ b # ys) \<noteq> crc32 (xs @ b' # ys)"
  using assms by (auto simp: crc32_def dest: crc_fold_inj crc_byte_detects)

lemma crc32_update:
  assumes "i < length d" and "b \<noteq> d ! i"
  shows "crc32 (d[i := b]) \<noteq> crc32 d"
  using assms crc32_one_byte [of b "d ! i" "take i d" "drop (Suc i) d"]
  by (simp add: upd_conv_take_nth_drop id_take_nth_drop [symmetric])

lemma wal_damage:
  assumes fits: "record_fits r" and i: "4 \<le> i" "i < length (wal_encode r)" and b: "b \<noteq> wal_encode r ! i"
  shows "\<exists>l s c. wal_decode ((wal_encode r)[i := b]) = Err (CorruptRecord l (CrcMismatch s c))"
proof -
  let ?e = "wal_encode r" and ?n = "length (r_data r)"
  let ?d = "?e[i := b]"
  have total: "unat (from_le_bytes (slice 0 4 ?d) :: u32) = 37 + ?n"
  proof -
    have "slice 0 4 ?d = slice 0 4 ?e" using i(1) by (simp add: slice_def)
    then have "slice 0 4 ?d = u32_bytes (of_nat (37 + ?n))" using wal_encode_fields(1) [of r "[]"] by simp
    then show ?thesis
      using fits by (auto simp: record_fits_def simp del: of_nat_add intro!: unat_of_nat_small)
  qed
  have crc: "from_le_bytes (slice (33 + ?n) 4 ?e) = crc32 (take (33 + ?n) ?e)"
    using wal_encode_crc [of r "[]"] by simp
  have "(from_le_bytes (slice (33 + ?n) 4 ?d) :: u32) \<noteq> crc32 (take (33 + ?n) ?d)"
  proof (cases "i < 33 + ?n")
    case True
    have "slice (33 + ?n) 4 ?d = slice (33 + ?n) 4 ?e" using True by (simp add: slice_def)
    moreover have "crc32 (take (33 + ?n) ?d) \<noteq> crc32 (take (33 + ?n) ?e)"
      using True b crc32_update [of i "take (33 + ?n) ?e" b] by (simp add: take_update_swap)
    ultimately show ?thesis using crc by simp
  next
    case False
    have "slice (33 + ?n) 4 ?d ! (i - (33 + ?n)) \<noteq> slice (33 + ?n) 4 ?e ! (i - (33 + ?n))"
      using False i(2) b by (simp add: nth_slice)
    then have "slice (33 + ?n) 4 ?d \<noteq> slice (33 + ?n) 4 ?e" by metis
    then have "(from_le_bytes (slice (33 + ?n) 4 ?d) :: u32) \<noteq> from_le_bytes (slice (33 + ?n) 4 ?e)"
      using from_le_bytes_inj [where 'a = 32] by fastforce
    moreover have "take (33 + ?n) ?d = take (33 + ?n) ?e" using False by simp
    ultimately show ?thesis using crc by simp
  qed
  moreover have "37 + ?n - 4 = 33 + ?n" by simp
  ultimately show ?thesis
    by (simp add: wal_decode_def Let_def total)
qed

section \<open>Properties\<close>

text \<open>
  A log record whose lengths fit their 32-bit fields decodes to itself, whatever bytes follow it
  in the segment, and its encoding is its payload plus 37 bytes.
\<close>

theorem wal_record_roundtrip:
  assumes "record_fits r"
  shows "wal_decode (wal_encode r @ rest) = Ok r \<and> length (wal_encode r) = 37 + length (r_data r)"
  using wal_decode_encode_append [OF assms] by simp

theorem wal_record_roundtrip_witness:
  "wal_decode (wal_encode (WalRecord_new 7 Commit 0 [1, 2]) @ [255]) = Ok (WalRecord_new 7 Commit 0 [1, 2])"
  using wal_record_roundtrip [of "WalRecord_new 7 Commit 0 [1, 2]" "[255]"]
  by (simp add: record_fits_def WalRecord_new_def)

text \<open>
  Changing any single byte of an encoded record behind the length field is detected: decoding
  reports a CRC mismatch.
\<close>

theorem wal_record_damage_detected:
  assumes "record_fits r" and "4 \<le> i" and "i < length (wal_encode r)" and "b \<noteq> wal_encode r ! i"
  shows "\<exists>l s c. wal_decode ((wal_encode r)[i := b]) = Err (CorruptRecord l (CrcMismatch s c))"
  by (rule wal_damage [OF assms])

theorem wal_record_damage_detected_witness:
  "\<exists>l s c. wal_decode ((wal_encode (WalRecord_new 7 Commit 0 []))[24 := 5]) = Err (CorruptRecord l (CrcMismatch s c))"
  using wal_record_damage_detected [of "WalRecord_new 7 Commit 0 []" 24 5]
    wal_encode_fields(5) [of "WalRecord_new 7 Commit 0 []" "[]"]
  by (simp add: record_fits_def WalRecord_new_def)

end
