(* ===== verification/Tuple_Store.thy ===== *)
theory Tuple_Store
  imports Ice_Prelude
begin

text \<open>
  The contract between a container of tuples and its clients. A slotted page stores byte
  strings under slot numbers, a heap file stores tuples under tuple identifiers; both promise
  the same three things, stated here once as the locale \<open>tuple_store\<close> over an abstraction
  to a finite map. The client facts (read back what was inserted, other keys are untouched,
  a deleted key is gone, a batch of inserts yields distinct readable keys) are proved from the
  contract and reused through the interpretations in the theories \<^verbatim>\<open>Page\<close> and
  \<^verbatim>\<open>Heap_File\<close>.
\<close>

text \<open>Insert a batch front to back, stopping at the first error: the keys in order.\<close>

primrec insert_all ::
  "('s \<Rightarrow> 'd \<Rightarrow> ('e, 's \<times> 'k) outcome) \<Rightarrow> 's \<Rightarrow> 'd list \<Rightarrow> ('e, 's \<times> 'k list) outcome" where
  "insert_all ins s [] = Ok (s, [])"
| "insert_all ins s (d # ds) =
     obind (ins s d) (\<lambda>(s1, k). obind (insert_all ins s1 ds) (\<lambda>(s2, ks). Ok (s2, k # ks)))"

locale tuple_store =
  fixes inv :: "'s \<Rightarrow> bool"
    and abs :: "'s \<Rightarrow> 'k \<Rightarrow> 'd option"
    and valid :: "'d \<Rightarrow> bool"
    and ins :: "'s \<Rightarrow> 'd \<Rightarrow> ('e, 's \<times> 'k) outcome"
    and get :: "'s \<Rightarrow> 'k \<Rightarrow> ('e, 'd) outcome"
    and del :: "'s \<Rightarrow> 'k \<Rightarrow> ('e, 's) outcome"
  assumes ins_law: "inv s \<Longrightarrow> valid d \<Longrightarrow> ins s d = Ok (s', k)
      \<Longrightarrow> inv s' \<and> abs s k = None \<and> abs s' = (abs s)(k \<mapsto> d)"
    and get_law: "inv s \<Longrightarrow> get s k = Ok d \<longleftrightarrow> abs s k = Some d"
    and del_law: "inv s \<Longrightarrow> abs s k = Some d
      \<Longrightarrow> \<exists>s'. del s k = Ok s' \<and> inv s' \<and> abs s' = (abs s)(k := None)"
    and del_dead: "inv s \<Longrightarrow> abs s k = None \<Longrightarrow> \<not> is_ok (del s k)"
begin

lemma insert_then_get:
  "inv s \<Longrightarrow> valid d \<Longrightarrow> ins s d = Ok (s', k) \<Longrightarrow> get s' k = Ok d"
  using ins_law get_law by fastforce

lemma insert_keeps_others:
  "inv s \<Longrightarrow> valid d \<Longrightarrow> ins s d = Ok (s', k) \<Longrightarrow> get s j = Ok x \<Longrightarrow> get s' j = Ok x"
  using ins_law get_law by (metis fun_upd_apply option.distinct(1))

lemma delete_live:
  assumes "inv s" and "get s k = Ok d"
  obtains s' where "del s k = Ok s'" and "inv s'" and "\<not> is_ok (get s' k)"
    and "\<not> is_ok (del s' k)" and "\<And>j x. j \<noteq> k \<Longrightarrow> get s' j = Ok x \<longleftrightarrow> get s j = Ok x"
proof -
  from assms have "abs s k = Some d" by (simp add: get_law)
  then obtain s' where s': "del s k = Ok s'" "inv s'" "abs s' = (abs s)(k := None)"
    using assms(1) del_law by blast
  then have "get s' k \<noteq> Ok x" for x by (simp add: get_law)
  then have "\<not> is_ok (get s' k)" by (cases "get s' k") auto
  moreover have "\<not> is_ok (del s' k)" using s' del_dead by simp
  moreover have "get s' j = Ok x \<longleftrightarrow> get s j = Ok x" if "j \<noteq> k" for j x
    using s' that assms(1) by (simp add: get_law)
  ultimately show ?thesis using that s' by blast
qed

lemma insert_all_law:
  assumes "inv s" and "\<And>d. d \<in> set ds \<Longrightarrow> valid d" and "insert_all ins s ds = Ok (s', ks)"
  shows "inv s' \<and> length ks = length ds \<and> distinct ks \<and> set ks \<inter> dom (abs s) = {}
       \<and> abs s' = abs s ++ map_of (zip ks ds)"
  using assms
proof (induction ds arbitrary: s ks)
  case Nil
  then show ?case by simp
next
  case (Cons d ds)
  from Cons.prems(3) obtain s1 k ks1 where s1: "ins s d = Ok (s1, k)"
    and rest: "insert_all ins s1 ds = Ok (s', ks1)" and ks: "ks = k # ks1"
    by (auto simp: outcome_simps)
  from Cons.prems(1,2) s1 have law: "inv s1" "abs s k = None" "abs s1 = (abs s)(k \<mapsto> d)"
    using ins_law [of s d s1 k] by auto
  from Cons.IH [OF law(1) _ rest] Cons.prems(2)
  have IH: "inv s'" "length ks1 = length ds" "distinct ks1" "set ks1 \<inter> dom (abs s1) = {}"
    "abs s' = abs s1 ++ map_of (zip ks1 ds)" by auto
  have k: "k \<notin> set ks1" using IH(4) law(3) by auto
  then have "map_of (zip ks1 ds) k = None" using IH(2) by simp
  then have eq: "abs s' = abs s ++ map_of (zip ks (d # ds))"
    using IH(5) law(3) ks by (auto simp: map_add_def fun_eq_iff split: option.splits)
  show ?case by (intro conjI eq) (use IH(1-4) law ks k in auto)
qed

lemma insert_all_reads_back:
  assumes "inv s" and "\<And>d. d \<in> set ds \<Longrightarrow> valid d" and "insert_all ins s ds = Ok (s', ks)"
  shows "distinct ks" and "length ks = length ds"
    and "\<And>i. i < length ds \<Longrightarrow> get s' (ks ! i) = Ok (ds ! i)"
    and "\<And>j x. get s j = Ok x \<Longrightarrow> get s' j = Ok x"
proof -
  note law = insert_all_law [OF assms]
  show "distinct ks" "length ks = length ds" using law by auto
  show "get s' (ks ! i) = Ok (ds ! i)" if "i < length ds" for i
  proof -
    have "map_of (zip ks ds) (ks ! i) = Some (ds ! i)"
      using law that by (simp add: map_of_zip_nth)
    then show ?thesis using law by (simp add: get_law map_add_Some_iff)
  qed
  show "get s' j = Ok x" if "get s j = Ok x" for j x
  proof -
    have "abs s j = Some x" using that assms(1) by (simp add: get_law)
    moreover from this have "j \<notin> set ks" using law by auto
    ultimately show ?thesis using law by (simp add: get_law map_add_Some_iff)
  qed
qed

end

end
