(* ===== verification/Page.thy ===== *)
theory Page
  imports Heap_Tuple Tuple_Store
begin

unbundle bit_operations_syntax

text \<open>
  The 8 kB slotted page of \<^verbatim>\<open>storage/src/page.rs\<close>: header accessors, the item pointer
  array, tuple insertion, lookup and deletion, and the FNV-1a checksum. A page is its 8192
  raw bytes, as in the source; the invariant \<open>page_wf\<close> says what the header and the item
  pointers guarantee, and \<open>page_slots\<close> abstracts a page to the list of its slots. The operations
  are shown to implement that list (append, lookup, clear), to keep the invariant and never to
  panic on a page that satisfies it.
\<close>

section \<open>Definitions\<close>

type_synonym page = "byte list"

abbreviation (input) PAGE_SIZE :: nat where "PAGE_SIZE \<equiv> 8192"
abbreviation (input) OFF_LSN :: nat where "OFF_LSN \<equiv> 0"
abbreviation (input) OFF_CHECKSUM :: nat where "OFF_CHECKSUM \<equiv> 8"
abbreviation (input) OFF_FLAGS :: nat where "OFF_FLAGS \<equiv> 10"
abbreviation (input) OFF_LOWER :: nat where "OFF_LOWER \<equiv> 12"
abbreviation (input) OFF_UPPER :: nat where "OFF_UPPER \<equiv> 14"
abbreviation (input) OFF_SPECIAL :: nat where "OFF_SPECIAL \<equiv> 16"
abbreviation (input) OFF_VERSION :: nat where "OFF_VERSION \<equiv> 18"
abbreviation (input) OFF_PRUNE_XID :: nat where "OFF_PRUNE_XID \<equiv> 20"
abbreviation (input) PAGE_HEADER_SIZE :: nat where "PAGE_HEADER_SIZE \<equiv> 24"
abbreviation (input) ITEM_ID_SIZE :: nat where "ITEM_ID_SIZE \<equiv> 4"

text \<open>
  Raw little-endian access. At a constant header offset the access is always in range of the
  8192-byte array, so those accessors are plain functions; an access whose offset is computed
  is bounds-checked and may panic.
\<close>

definition read_u16 :: "page \<Rightarrow> nat \<Rightarrow> (page_error, u16) outcome" where
  "read_u16 buf off = obind (get_slice buf off 2) (\<lambda>s. Ok (from_le_bytes s))"

definition write_u16 :: "page \<Rightarrow> nat \<Rightarrow> u16 \<Rightarrow> (page_error, page) outcome" where
  "write_u16 buf off v = put_slice buf off (u16_bytes v)"

definition hdr_u16 :: "nat \<Rightarrow> page \<Rightarrow> u16" where
  "hdr_u16 off p = from_le_bytes (slice off 2 p)"

definition hdr_set_u16 :: "nat \<Rightarrow> u16 \<Rightarrow> page \<Rightarrow> page" where
  "hdr_set_u16 off v p = patch off (u16_bytes v) p"

definition hdr_set_u32 :: "nat \<Rightarrow> u32 \<Rightarrow> page \<Rightarrow> page" where
  "hdr_set_u32 off v p = patch off (u32_bytes v) p"

definition hdr_set_u64 :: "nat \<Rightarrow> u64 \<Rightarrow> page \<Rightarrow> page" where
  "hdr_set_u64 off v p = patch off (u64_bytes v) p"

record item_id =
  lp_off :: u16
  lp_len :: u16

definition ItemId_read :: "page \<Rightarrow> u16 \<Rightarrow> (page_error, item_id) outcome" where
  "ItemId_read buf s =
     (let base = PAGE_HEADER_SIZE + unat s * ITEM_ID_SIZE in
      obind (read_u16 buf base) (\<lambda>off.
      obind (read_u16 buf (base + 2)) (\<lambda>len.
      Ok \<lparr>lp_off = off, lp_len = len\<rparr>)))"

definition ItemId_write :: "page \<Rightarrow> u16 \<Rightarrow> item_id \<Rightarrow> (page_error, page) outcome" where
  "ItemId_write buf s item =
     (let base = PAGE_HEADER_SIZE + unat s * ITEM_ID_SIZE in
      obind (write_u16 buf base (lp_off item)) (\<lambda>buf1.
      write_u16 buf1 (base + 2) (lp_len item)))"

definition is_dead :: "item_id \<Rightarrow> bool" where
  "is_dead item \<longleftrightarrow> lp_off item = 0 \<and> lp_len item = 0"

definition init_header :: "page \<Rightarrow> page" where
  "init_header p =
     hdr_set_u32 OFF_PRUNE_XID 0 (hdr_set_u16 OFF_VERSION 1
       (hdr_set_u16 OFF_SPECIAL (of_nat PAGE_SIZE) (hdr_set_u16 OFF_UPPER (of_nat PAGE_SIZE)
         (hdr_set_u16 OFF_LOWER (of_nat PAGE_HEADER_SIZE) (hdr_set_u16 OFF_FLAGS 0
           (hdr_set_u16 OFF_CHECKSUM 0 (hdr_set_u64 OFF_LSN 0 p)))))))"

definition Page_new :: page where
  "Page_new = init_header (replicate PAGE_SIZE 0)"

definition lsn :: "page \<Rightarrow> u64" where
  "lsn p = from_le_bytes (slice OFF_LSN 8 p)"

definition set_lsn :: "page \<Rightarrow> u64 \<Rightarrow> page" where
  "set_lsn p l = hdr_set_u64 OFF_LSN l p"

definition checksum :: "page \<Rightarrow> u16" where
  "checksum p = hdr_u16 OFF_CHECKSUM p"

definition set_checksum :: "page \<Rightarrow> u16 \<Rightarrow> page" where
  "set_checksum p v = hdr_set_u16 OFF_CHECKSUM v p"

definition pd_lower :: "page \<Rightarrow> u16" where
  "pd_lower p = hdr_u16 OFF_LOWER p"

definition set_pd_lower :: "page \<Rightarrow> u16 \<Rightarrow> page" where
  "set_pd_lower p v = hdr_set_u16 OFF_LOWER v p"

definition pd_upper :: "page \<Rightarrow> u16" where
  "pd_upper p = hdr_u16 OFF_UPPER p"

definition set_pd_upper :: "page \<Rightarrow> u16 \<Rightarrow> page" where
  "set_pd_upper p v = hdr_set_u16 OFF_UPPER v p"

definition free_space :: "page \<Rightarrow> u16" where
  "free_space p = (let lower = pd_lower p; upper = pd_upper p in
     if upper < lower then 0 else upper - lower)"

definition num_slots :: "page \<Rightarrow> u16" where
  "num_slots p = (let lower = unat (pd_lower p) in
     if lower < PAGE_HEADER_SIZE then 0
     else of_nat ((lower - PAGE_HEADER_SIZE) div ITEM_ID_SIZE))"

definition page_insert_tuple :: "page \<Rightarrow> byte list \<Rightarrow> (page_error, page \<times> u16) outcome" where
  "page_insert_tuple p data =
     (let tuple_len = length data;
          needed = ITEM_ID_SIZE + tuple_len in
      if needed > unat (free_space p)
      then Err (InsufficientSpace needed (free_space p))
      else
        (let sl = num_slots p;
             new_lower = pd_lower p + of_nat ITEM_ID_SIZE;
             new_upper = pd_upper p - of_nat tuple_len;
             off = unat new_upper in
         obind (put_slice p off data) (\<lambda>p1.
         obind (ItemId_write p1 sl \<lparr>lp_off = new_upper, lp_len = of_nat tuple_len\<rparr>) (\<lambda>p2.
         Ok (set_pd_upper (set_pd_lower p2 new_lower) new_upper, sl)))))"

definition page_get_tuple :: "page \<Rightarrow> u16 \<Rightarrow> (page_error, byte list) outcome" where
  "page_get_tuple p s =
     (if s \<ge> num_slots p then Err (SlotOutOfRange s)
      else obind (ItemId_read p s) (\<lambda>item.
        if is_dead item then Err (SlotDead s)
        else get_slice p (unat (lp_off item)) (unat (lp_len item))))"

definition page_delete_tuple :: "page \<Rightarrow> u16 \<Rightarrow> (page_error, page) outcome" where
  "page_delete_tuple p s =
     (if s \<ge> num_slots p then Err (SlotOutOfRange s)
      else obind (ItemId_read p s) (\<lambda>item.
        if is_dead item then Err (SlotDead s)
        else ItemId_write p s \<lparr>lp_off = 0, lp_len = 0\<rparr>))"

text \<open>\<^verbatim>\<open>mark_dead\<close> drops the error of \<^verbatim>\<open>delete_tuple\<close>, but not a panic.\<close>

definition mark_dead :: "page \<Rightarrow> u16 \<Rightarrow> (page_error, page) outcome" where
  "mark_dead p s = (case page_delete_tuple p s of Ok p' \<Rightarrow> Ok p' | Err _ \<Rightarrow> Ok p | Panic \<Rightarrow> Panic)"

definition set_prune_xid :: "page \<Rightarrow> u32 \<Rightarrow> page" where
  "set_prune_xid p x = hdr_set_u32 OFF_PRUNE_XID x p"

definition prune_xid :: "page \<Rightarrow> u32" where
  "prune_xid p = from_le_bytes (slice OFF_PRUNE_XID 4 p)"

definition fnv_step :: "u32 \<Rightarrow> nat \<times> byte \<Rightarrow> u32" where
  "fnv_step hash ib =
     (let b = (if fst ib = OFF_CHECKSUM \<or> fst ib = OFF_CHECKSUM + 1 then 0 else snd ib)
      in (hash XOR ucast b) * 16777619)"

definition compute_checksum :: "page \<Rightarrow> u16" where
  "compute_checksum p =
     (let hash = foldl fnv_step 2166136261 (zip [0..<length p] p)
      in ucast (hash XOR drop_bit 16 hash))"

definition update_checksum :: "page \<Rightarrow> page" where
  "update_checksum p = set_checksum p (compute_checksum p)"

definition verify_checksum :: "page \<Rightarrow> bool" where
  "verify_checksum p \<longleftrightarrow> checksum p = compute_checksum p"

section \<open>Abstraction and invariant\<close>

definition n_slots :: "page \<Rightarrow> nat" where
  "n_slots p = (unat (pd_lower p) - PAGE_HEADER_SIZE) div ITEM_ID_SIZE"

definition item_off :: "page \<Rightarrow> nat \<Rightarrow> nat" where
  "item_off p i = unat (from_le_bytes (slice (PAGE_HEADER_SIZE + i * ITEM_ID_SIZE) 2 p) :: u16)"

definition item_len :: "page \<Rightarrow> nat \<Rightarrow> nat" where
  "item_len p i = unat (from_le_bytes (slice (PAGE_HEADER_SIZE + i * ITEM_ID_SIZE + 2) 2 p) :: u16)"

definition item_live :: "page \<Rightarrow> nat \<Rightarrow> bool" where
  "item_live p i \<longleftrightarrow> item_off p i \<noteq> 0 \<or> item_len p i \<noteq> 0"

definition slot_bytes :: "page \<Rightarrow> nat \<Rightarrow> byte list option" where
  "slot_bytes p i = (if item_live p i then Some (slice (item_off p i) (item_len p i) p) else None)"

definition page_slots :: "page \<Rightarrow> byte list option list" where
  "page_slots p = map (slot_bytes p) [0..<n_slots p]"

text \<open>The map view used by the contract: live slots only.\<close>

definition page_abs :: "page \<Rightarrow> u16 \<Rightarrow> byte list option" where
  "page_abs p s = (if unat s < n_slots p then slot_bytes p (unat s) else None)"

definition items_ok :: "page \<Rightarrow> bool" where
  "items_ok p \<longleftrightarrow>
     (\<forall>i < n_slots p. item_live p i \<longrightarrow>
        unat (pd_upper p) \<le> item_off p i \<and> item_off p i + item_len p i \<le> PAGE_SIZE) \<and>
     (\<forall>i < n_slots p. \<forall>j < n_slots p. i \<noteq> j \<longrightarrow> item_live p i \<longrightarrow> item_live p j \<longrightarrow>
        item_off p i + item_len p i \<le> item_off p j \<or> item_off p j + item_len p j \<le> item_off p i)"

definition page_wf :: "page \<Rightarrow> bool" where
  "page_wf p \<longleftrightarrow> length p = PAGE_SIZE
     \<and> PAGE_HEADER_SIZE \<le> unat (pd_lower p) \<and> unat (pd_lower p) \<le> unat (pd_upper p)
     \<and> unat (pd_upper p) \<le> PAGE_SIZE
     \<and> unat (pd_lower p) = PAGE_HEADER_SIZE + n_slots p * ITEM_ID_SIZE
     \<and> items_ok p"

section \<open>Header writes\<close>

lemmas hdr_defs = hdr_u16_def hdr_set_u16_def hdr_set_u32_def hdr_set_u64_def

lemma n_slots_num_slots:
  assumes "page_wf p"
  shows "unat (num_slots p) = n_slots p" and "n_slots p < 2048"
proof -
  from assms show "n_slots p < 2048" by (auto simp: page_wf_def)
  then show "unat (num_slots p) = n_slots p"
    using assms by (simp add: num_slots_def n_slots_def page_wf_def Let_def)
qed

lemma slot_in_range: "page_wf p \<Longrightarrow> s < num_slots p \<longleftrightarrow> unat s < n_slots p"
  by (simp add: word_less_nat_alt n_slots_num_slots)

lemma unat_free_space: "page_wf p \<Longrightarrow> unat (free_space p) = unat (pd_upper p) - unat (pd_lower p)"
  by (auto simp: free_space_def page_wf_def Let_def word_less_nat_alt unat_sub word_le_nat_alt)

text \<open>A write inside the header that misses \<open>pd_lower\<close> and \<open>pd_upper\<close> changes no slot.\<close>

lemma header_write_frame:
  assumes "length p = PAGE_SIZE" and "off + length ys \<le> 12 \<or> 16 \<le> off" and "off + length ys \<le> 24"
  shows "pd_lower (patch off ys p) = pd_lower p" "pd_upper (patch off ys p) = pd_upper p"
    "n_slots (patch off ys p) = n_slots p"
    "item_off (patch off ys p) i = item_off p i" "item_len (patch off ys p) i = item_len p i"
    "item_live (patch off ys p) i = item_live p i"
proof -
  have small: "slice o' 2 (patch off ys p) = slice o' 2 p" if "o' = 12 \<or> o' = 14 \<or> 24 \<le> o'" for o'
    using assms that by (intro slice_patch_other) auto
  show lo: "pd_lower (patch off ys p) = pd_lower p" and "pd_upper (patch off ys p) = pd_upper p"
    by (simp_all add: pd_lower_def pd_upper_def hdr_defs small)
  show "n_slots (patch off ys p) = n_slots p"
    by (simp add: n_slots_def lo)
  show io: "item_off (patch off ys p) i = item_off p i" "item_len (patch off ys p) i = item_len p i"
    by (simp_all add: item_off_def item_len_def small)
  then show "item_live (patch off ys p) i = item_live p i"
    by (simp add: item_live_def)
qed

lemma header_write_wf:
  assumes "page_wf p" and "off + length ys \<le> 12 \<or> 16 \<le> off" and "off + length ys \<le> 24"
  shows "page_wf (patch off ys p)" and "page_slots (patch off ys p) = page_slots p"
    and "page_abs (patch off ys p) = page_abs p" and "free_space (patch off ys p) = free_space p"
    and "num_slots (patch off ys p) = num_slots p"
proof -
  have len: "length p = PAGE_SIZE" using assms by (simp add: page_wf_def)
  note frame = header_write_frame [OF len assms(2,3)]
  have sb: "slot_bytes (patch off ys p) i = slot_bytes p i" if "i < n_slots p" for i
  proof (cases "item_live p i")
    case True
    with assms(1) that have "24 \<le> item_off p i" by (auto simp: page_wf_def items_ok_def)
    with assms(3) len have "slice (item_off p i) (item_len p i) (patch off ys p)
      = slice (item_off p i) (item_len p i) p" by (intro slice_patch_after) auto
    with True show ?thesis by (simp add: slot_bytes_def frame)
  next
    case False
    then show ?thesis by (simp add: slot_bytes_def frame)
  qed
  show "page_wf (patch off ys p)"
    using assms len by (simp add: page_wf_def items_ok_def frame)
  show "page_slots (patch off ys p) = page_slots p"
    by (simp add: page_slots_def frame sb)
  show "page_abs (patch off ys p) = page_abs p"
    by (auto simp: page_abs_def frame sb)
  show "free_space (patch off ys p) = free_space p" "num_slots (patch off ys p) = num_slots p"
    by (simp_all add: free_space_def num_slots_def frame)
qed

lemma update_checksum_wf:
  assumes "page_wf p"
  shows "page_wf (update_checksum p)" "page_slots (update_checksum p) = page_slots p"
    "page_abs (update_checksum p) = page_abs p" "free_space (update_checksum p) = free_space p"
    "num_slots (update_checksum p) = num_slots p"
  using header_write_wf [OF assms, of 8 "u16_bytes (compute_checksum p)"]
  by (simp_all add: update_checksum_def set_checksum_def hdr_defs)

lemma page_wf_length [dest]: "page_wf p \<Longrightarrow> length p = 8192"
  by (simp add: page_wf_def)

lemma Page_new_header:
  "length Page_new = PAGE_SIZE" "pd_lower Page_new = 24" "pd_upper Page_new = 8192"
  by (simp_all add: Page_new_def init_header_def hdr_defs pd_lower_def pd_upper_def slice_patch)

lemma Page_new_wf: "page_wf Page_new" and Page_new_slots: "page_slots Page_new = []"
  by (simp_all add: page_wf_def items_ok_def page_slots_def n_slots_def Page_new_header)

section \<open>The checksum\<close>

lemma checksum_set [simp]: "length p = PAGE_SIZE \<Longrightarrow> checksum (set_checksum p v) = v"
  by (simp add: checksum_def set_checksum_def hdr_defs)

lemma fnv_zip_cong:
  assumes "length q = length p"
    and "\<And>i. i < length p \<Longrightarrow> i \<noteq> 8 \<Longrightarrow> i \<noteq> 9 \<Longrightarrow> q ! i = p ! i"
  shows "foldl fnv_step h (zip [0..<length q] q) = foldl fnv_step h (zip [0..<length p] p)"
proof -
  have "foldl fnv_step h (take k (zip [0..<length q] q)) = foldl fnv_step h (take k (zip [0..<length p] p))"
    if "k \<le> length p" for k
    using that
  proof (induction k)
    case 0
    then show ?case by simp
  next
    case (Suc k)
    then have "take (Suc k) (zip [0..<length q] q) = take k (zip [0..<length q] q) @ [(k, q ! k)]"
      "take (Suc k) (zip [0..<length p] p) = take k (zip [0..<length p] p) @ [(k, p ! k)]"
      using assms(1) by (simp_all add: take_Suc_conv_app_nth)
    moreover have "fnv_step x (k, q ! k) = fnv_step x (k, p ! k)" for x
      using assms(2) [of k] Suc.prems by (cases "k = 8 \<or> k = 9") (auto simp: fnv_step_def)
    ultimately show ?case using Suc by simp
  qed
  from this [of "length p"] assms(1) show ?thesis by simp
qed

lemma compute_checksum_ignores_field:
  assumes "length p = PAGE_SIZE"
  shows "compute_checksum (set_checksum p v) = compute_checksum p"
proof -
  have "foldl fnv_step h (zip [0..<length (set_checksum p v)] (set_checksum p v))
    = foldl fnv_step h (zip [0..<length p] p)" for h
    using assms by (intro fnv_zip_cong) (auto simp: set_checksum_def hdr_defs nth_patch)
  then show ?thesis by (simp add: compute_checksum_def Let_def)
qed

lemma verify_update_checksum: "length p = PAGE_SIZE \<Longrightarrow> verify_checksum (update_checksum p)"
  by (simp add: verify_checksum_def update_checksum_def compute_checksum_ignores_field)

lemma update_checksum_id: "length p = PAGE_SIZE \<Longrightarrow> verify_checksum p \<Longrightarrow> update_checksum p = p"
proof -
  assume p: "length p = PAGE_SIZE" and "verify_checksum p"
  then have "u16_bytes (compute_checksum p) = slice 8 2 p"
    using to_from_le_bytes [of "slice 8 2 p", where 'a = 16]
    by (simp add: verify_checksum_def checksum_def hdr_defs)
  with p show ?thesis
    by (simp add: update_checksum_def set_checksum_def hdr_defs patch_slice_id)
qed

lemma length_update_checksum [simp]: "length p = PAGE_SIZE \<Longrightarrow> length (update_checksum p) = PAGE_SIZE"
  by (simp add: update_checksum_def set_checksum_def hdr_defs)

lemma update_checksum_idem:
  "length p = PAGE_SIZE \<Longrightarrow> update_checksum (update_checksum p) = update_checksum p"
  by (rule update_checksum_id) (simp_all add: verify_update_checksum)

section \<open>Slot operations implement a list of slots\<close>

lemma item_read_ok:
  assumes "page_wf p" and "unat s < n_slots p"
  shows "ItemId_read p s = Ok \<lparr>lp_off = of_nat (item_off p (unat s)), lp_len = of_nat (item_len p (unat s))\<rparr>"
proof -
  have "24 + unat s * 4 + 4 \<le> length p"
    using assms by (auto simp: page_wf_def)
  then show ?thesis
    by (simp add: ItemId_read_def read_u16_def item_off_def item_len_def)
qed

lemma item_write_ok:
  assumes "page_wf p" and "unat s < n_slots p"
  shows "ItemId_write p s it
    = Ok (patch (24 + unat s * 4 + 2) (u16_bytes (lp_len it)) (patch (24 + unat s * 4) (u16_bytes (lp_off it)) p))"
proof -
  have "24 + unat s * 4 + 4 \<le> length p"
    using assms by (auto simp: page_wf_def)
  then show ?thesis
    by (simp add: ItemId_write_def write_u16_def)
qed

lemma item_bounds: "item_off p i < 65536" "item_len p i < 65536"
  by (simp_all add: item_off_def item_len_def)

lemma page_get_cases:
  assumes "page_wf p"
  shows "page_get_tuple p s =
    (if unat s < n_slots p
     then (case slot_bytes p (unat s) of None \<Rightarrow> Err (SlotDead s) | Some b \<Rightarrow> Ok b)
     else Err (SlotOutOfRange s))"
proof (cases "unat s < n_slots p")
  case True
  have "item_off p (unat s) + item_len p (unat s) \<le> length p" if "item_live p (unat s)"
    using assms True that by (auto simp: page_wf_def items_ok_def)
  with True assms slot_in_range [OF assms, of s] show ?thesis
    using item_bounds [of p "unat s"]
    by (auto simp: page_get_tuple_def item_read_ok is_dead_def slot_bytes_def item_live_def
        not_le)
next
  case False
  with slot_in_range [OF assms, of s] show ?thesis
    by (simp add: page_get_tuple_def not_le)
qed

lemma page_insert_fails:
  "unat (free_space p) < 4 + length d
    \<Longrightarrow> page_insert_tuple p d = Err (InsufficientSpace (4 + length d) (free_space p))"
  by (simp add: page_insert_tuple_def)

text \<open>The page after a successful insertion, written out as the four regions it overwrites.\<close>

definition inserted :: "page \<Rightarrow> byte list \<Rightarrow> page" where
  "inserted p d = (let U = unat (pd_upper p) - length d; L = unat (pd_lower p) in
     patch 14 (u16_bytes (of_nat U)) (patch 12 (u16_bytes (of_nat (L + 4)))
       (patch (L + 2) (u16_bytes (of_nat (length d))) (patch L (u16_bytes (of_nat U))
         (patch U d p)))))"

lemma page_insert_eq:
  assumes wf: "page_wf p" and fits: "4 + length d \<le> unat (free_space p)"
  shows "page_insert_tuple p d = Ok (inserted p d, num_slots p)"
proof -
  let ?L = "unat (pd_lower p)" and ?U = "unat (pd_upper p)"
  have le: "?L + 4 + length d \<le> ?U" "?U \<le> 8192" "length p = 8192" "24 \<le> ?L"
    using wf fits unat_free_space [OF wf] by (auto simp: page_wf_def)
  have up: "pd_upper p - of_nat (length d) = of_nat (?U - length d)"
    using le by (simp add: of_nat_diff)
  have uU: "unat (of_nat (?U - length d) :: u16) = ?U - length d"
    using le by (simp del: of_nat_diff)
  have lo: "pd_lower p + 4 = of_nat (?L + 4)" by simp
  have base: "24 + unat (num_slots p) * 4 = ?L"
    using wf n_slots_num_slots [OF wf] by (simp add: page_wf_def)
  have fits': "\<not> unat (free_space p) < 4 + length d" using fits by simp
  have wr: "ItemId_write q (num_slots p) it
      = Ok (patch (?L + 2) (u16_bytes (lp_len it)) (patch ?L (u16_bytes (lp_off it)) q))"
    if "length q = 8192" for q it
    using le that unfolding ItemId_write_def write_u16_def base Let_def by simp
  show ?thesis
    using le by (simp add: page_insert_tuple_def fits' up uU lo wr Let_def
        inserted_def set_pd_lower_def set_pd_upper_def hdr_defs
        del: of_nat_add of_nat_diff)
qed

lemma inserted_facts:
  assumes wf: "page_wf p" and fits: "4 + length d \<le> unat (free_space p)"
  defines "n \<equiv> n_slots p" and "U \<equiv> unat (pd_upper p) - length d"
  shows "length (inserted p d) = PAGE_SIZE"
    and "unat (pd_lower (inserted p d)) = unat (pd_lower p) + 4"
    and "unat (pd_upper (inserted p d)) = U"
    and "n_slots (inserted p d) = Suc n"
    and "i < n \<Longrightarrow> item_off (inserted p d) i = item_off p i"
    and "i < n \<Longrightarrow> item_len (inserted p d) i = item_len p i"
    and "item_off (inserted p d) n = U" and "item_len (inserted p d) n = length d"
    and "unat (pd_upper p) \<le> a \<Longrightarrow> slice a b (inserted p d) = slice a b p"
    and "slice U (length d) (inserted p d) = d"
proof -
  let ?L = "unat (pd_lower p)"
  have le: "?L + 4 + length d \<le> unat (pd_upper p)" "unat (pd_upper p) \<le> 8192" "length p = 8192"
    "24 \<le> ?L" "?L = 24 + n * 4"
    using wf fits unat_free_space [OF wf] by (auto simp: page_wf_def n_def)
  have ins: "inserted p d = patch 14 (u16_bytes (of_nat U)) (patch 12 (u16_bytes (of_nat (?L + 4)))
       (patch (?L + 2) (u16_bytes (of_nat (length d))) (patch ?L (u16_bytes (of_nat U))
         (patch U d p))))"
    by (simp add: inserted_def U_def Let_def)
  have U: "U + length d = unat (pd_upper p)" "?L + 4 \<le> U" using le by (auto simp: U_def)
  note sizes = le U
  show len: "length (inserted p d) = PAGE_SIZE"
    using sizes by (simp add: ins)
  show lo: "unat (pd_lower (inserted p d)) = ?L + 4"
    using sizes by (simp add: ins pd_lower_def hdr_defs slice_patch del: of_nat_add)
  show "unat (pd_upper (inserted p d)) = U"
    using sizes by (simp add: ins pd_upper_def hdr_defs slice_patch)
  show "n_slots (inserted p d) = Suc n"
    using sizes by (simp add: n_slots_def lo)
  show "item_off (inserted p d) i = item_off p i" "item_len (inserted p d) i = item_len p i" if "i < n"
    using sizes that by (simp_all add: ins item_off_def item_len_def slice_patch)
  have "24 + n * 4 = ?L" "24 + n * 4 + 2 = ?L + 2" using sizes by auto
  then show "item_off (inserted p d) n = U" "item_len (inserted p d) n = length d"
    using sizes unfolding ins item_off_def item_len_def by (simp_all add: slice_patch)
  show "slice a b (inserted p d) = slice a b p" if "unat (pd_upper p) \<le> a"
    using sizes that by (simp add: ins slice_patch)
  show "slice U (length d) (inserted p d) = d"
    using sizes by (simp add: ins slice_patch)
qed

lemma page_insert_correct:
  assumes wf: "page_wf p" and fits: "4 + length d \<le> unat (free_space p)"
  shows "page_wf (inserted p d)" and "page_slots (inserted p d) = page_slots p @ [Some d]"
    and "page_abs (inserted p d) = (page_abs p)(num_slots p \<mapsto> d)"
    and "unat (free_space (inserted p d)) = unat (free_space p) - (4 + length d)"
proof -
  let ?n = "n_slots p" and ?q = "inserted p d" and ?U = "unat (pd_upper p) - length d"
  note facts = inserted_facts [OF wf fits]
  have le: "unat (pd_lower p) + 4 + length d \<le> unat (pd_upper p)" "unat (pd_upper p) \<le> 8192"
    "24 \<le> unat (pd_lower p)" "unat (pd_lower p) = 24 + ?n * 4"
    using wf fits unat_free_space [OF wf] by (auto simp: page_wf_def)
  have live: "item_live ?q i = item_live p i" if "i < ?n" for i
    using that facts(5,6) by (simp add: item_live_def)
  have old: "unat (pd_upper p) \<le> item_off p i \<and> item_off p i + item_len p i \<le> 8192"
    if "i < ?n" "item_live p i" for i
    using wf that by (auto simp: page_wf_def items_ok_def)
  have "items_ok ?q"
    unfolding items_ok_def facts(3,4)
  proof (intro conjI allI impI)
    fix i assume i: "i < Suc ?n" "item_live ?q i"
    have "?U \<le> item_off ?q i \<and> item_off ?q i + item_len ?q i \<le> PAGE_SIZE"
      using i old [of i] live [of i] le facts(5-8) by (cases "i = ?n") (auto simp: less_Suc_eq)
    then show "?U \<le> item_off ?q i" "item_off ?q i + item_len ?q i \<le> PAGE_SIZE" by simp_all
  next
    fix i j assume ij: "i < Suc ?n" "j < Suc ?n" "i \<noteq> j" "item_live ?q i" "item_live ?q j"
    have new: "k < ?n \<Longrightarrow> item_live p k \<Longrightarrow> ?U + length d \<le> item_off p k" for k
      using old [of k] le by simp
    have disj: "k < ?n \<Longrightarrow> m < ?n \<Longrightarrow> k \<noteq> m \<Longrightarrow> item_live p k \<Longrightarrow> item_live p m \<Longrightarrow>
      item_off p k + item_len p k \<le> item_off p m \<or> item_off p m + item_len p m \<le> item_off p k" for k m
      using wf by (auto simp: page_wf_def items_ok_def)
    show "item_off ?q i + item_len ?q i \<le> item_off ?q j \<or> item_off ?q j + item_len ?q j \<le> item_off ?q i"
      using ij new [of i] new [of j] disj [of i j] live facts(5-8)
      by (cases "i = ?n"; cases "j = ?n") (simp_all add: less_Suc_eq)
  qed
  with facts(1-4) le show wf': "page_wf ?q"
    by (auto simp: page_wf_def)
  have sb: "slot_bytes ?q i = slot_bytes p i" if "i < ?n" for i
    using that live [OF that] old [OF that] facts(5,6,9) by (simp add: slot_bytes_def)
  have new: "slot_bytes ?q ?n = Some d"
    using le facts(7,8,10) by (auto simp: slot_bytes_def item_live_def)
  show "page_slots ?q = page_slots p @ [Some d]"
    by (simp add: page_slots_def facts(4) sb new)
  show "page_abs ?q = (page_abs p)(num_slots p \<mapsto> d)"
  proof (rule ext)
    fix s
    have "s = num_slots p \<longleftrightarrow> unat s = ?n"
      using n_slots_num_slots [OF wf] by (metis unsigned_word_eqI)
    then show "page_abs ?q s = ((page_abs p)(num_slots p \<mapsto> d)) s"
      using sb new by (auto simp: page_abs_def facts(4) less_Suc_eq)
  qed
  show "unat (free_space ?q) = unat (free_space p) - (4 + length d)"
    using unat_free_space [OF wf] unat_free_space [OF wf'] facts(2,3) le by simp
qed

text \<open>
  Clearing an item pointer: the slot becomes \<open>None\<close>, the tuple bytes stay where they are.
\<close>

definition cleared :: "page \<Rightarrow> nat \<Rightarrow> page" where
  "cleared p i = patch (24 + i * 4 + 2) (u16_bytes 0) (patch (24 + i * 4) (u16_bytes 0) p)"

lemma cleared_facts:
  assumes wf: "page_wf p" and i: "i < n_slots p"
  shows "length (cleared p i) = PAGE_SIZE"
    and "pd_lower (cleared p i) = pd_lower p" and "pd_upper (cleared p i) = pd_upper p"
    and "n_slots (cleared p i) = n_slots p"
    and "j \<noteq> i \<Longrightarrow> item_off (cleared p i) j = item_off p j"
    and "j \<noteq> i \<Longrightarrow> item_len (cleared p i) j = item_len p j"
    and "\<not> item_live (cleared p i) i"
    and "unat (pd_upper p) \<le> a \<Longrightarrow> slice a b (cleared p i) = slice a b p"
proof -
  have le: "24 + i * 4 + 4 \<le> unat (pd_lower p)" "unat (pd_lower p) \<le> unat (pd_upper p)"
    "unat (pd_upper p) \<le> 8192" "length p = 8192"
    using wf i by (auto simp: page_wf_def)
  show "length (cleared p i) = PAGE_SIZE" using le by (simp add: cleared_def)
  show lo: "pd_lower (cleared p i) = pd_lower p" and "pd_upper (cleared p i) = pd_upper p"
    using le by (simp_all add: cleared_def pd_lower_def pd_upper_def hdr_defs slice_patch)
  show "n_slots (cleared p i) = n_slots p" by (simp add: n_slots_def lo)
  have other: "slice (24 + j * 4) 2 (cleared p i) = slice (24 + j * 4) 2 p"
    "slice (24 + j * 4 + 2) 2 (cleared p i) = slice (24 + j * 4 + 2) 2 p" if "j \<noteq> i" for j
    using le that by (cases "j < i"; simp add: cleared_def slice_patch)+
  show "item_off (cleared p i) j = item_off p j" "item_len (cleared p i) j = item_len p j" if "j \<noteq> i"
    using other [OF that] by (simp_all add: item_off_def item_len_def)
  have "slice (24 + i * 4) 2 (cleared p i) = u16_bytes 0"
    "slice (24 + i * 4 + 2) 2 (cleared p i) = u16_bytes 0"
    using le by (simp_all add: cleared_def slice_patch)
  then show "\<not> item_live (cleared p i) i"
    by (simp add: item_live_def item_off_def item_len_def)
  show "slice a b (cleared p i) = slice a b p" if "unat (pd_upper p) \<le> a"
    using le that by (simp add: cleared_def slice_patch)
qed

lemma page_delete_cases:
  assumes "page_wf p"
  shows "page_delete_tuple p s =
    (if unat s < n_slots p
     then (case slot_bytes p (unat s) of None \<Rightarrow> Err (SlotDead s) | Some b \<Rightarrow> Ok (cleared p (unat s)))
     else Err (SlotOutOfRange s))"
proof (cases "unat s < n_slots p")
  case True
  with assms slot_in_range [OF assms, of s] show ?thesis
    using item_bounds [of p "unat s"]
    by (auto simp: page_delete_tuple_def item_read_ok item_write_ok is_dead_def slot_bytes_def
        item_live_def cleared_def not_le)
next
  case False
  with slot_in_range [OF assms, of s] show ?thesis
    by (simp add: page_delete_tuple_def not_le)
qed

lemma page_delete_correct:
  assumes wf: "page_wf p" and i: "i < n_slots p"
  shows "page_wf (cleared p i)" and "page_slots (cleared p i) = (page_slots p)[i := None]"
    and "page_abs (cleared p i) = (page_abs p)(of_nat i := None)"
    and "free_space (cleared p i) = free_space p"
proof -
  note facts = cleared_facts [OF wf i]
  have live: "item_live (cleared p i) j \<longleftrightarrow> j \<noteq> i \<and> item_live p j" for j
    using facts(5,6) [of j] facts(7) by (cases "j = i") (simp_all add: item_live_def)
  show "page_wf (cleared p i)"
    using wf facts(1-6) live by (auto simp: page_wf_def items_ok_def)
  have sb: "slot_bytes (cleared p i) j = (if j = i then None else slot_bytes p j)" if "j < n_slots p" for j
  proof (cases "j \<noteq> i \<and> item_live p j")
    case True
    with wf that have "unat (pd_upper p) \<le> item_off p j" by (auto simp: page_wf_def items_ok_def)
    with True facts(5,6,8) live show ?thesis by (simp add: slot_bytes_def)
  next
    case False
    with live show ?thesis by (auto simp: slot_bytes_def)
  qed
  show "page_slots (cleared p i) = (page_slots p)[i := None]"
    by (rule nth_equalityI) (auto simp: page_slots_def facts(4) sb nth_list_update)
  have "i < 2048" using n_slots_num_slots(2) [OF wf] i by simp
  then show "page_abs (cleared p i) = (page_abs p)(of_nat i := None)"
    by (auto simp: page_abs_def facts(4) sb fun_eq_iff)
  show "free_space (cleared p i) = free_space p"
    by (simp add: free_space_def facts(2,3))
qed

text \<open>Overwriting a prefix of a live slot leaves every other slot alone.\<close>

lemma slot_overwrite:
  assumes wf: "page_wf p" and i: "i < n_slots p" and live: "item_live p i"
    and fits: "length d \<le> item_len p i"
  defines "q \<equiv> patch (item_off p i) d p"
  shows "page_wf q" and "n_slots q = n_slots p"
    and "slot_bytes q i = Some (d @ drop (length d) (slice (item_off p i) (item_len p i) p))"
    and "j < n_slots p \<Longrightarrow> j \<noteq> i \<Longrightarrow> slot_bytes q j = slot_bytes p j"
    and "free_space q = free_space p" and "num_slots q = num_slots p"
proof -
  have le: "unat (pd_lower p) \<le> item_off p i" "item_off p i + item_len p i \<le> 8192" "length p = 8192"
    "24 + n_slots p * 4 = unat (pd_lower p)"
    using wf i live by (auto simp: page_wf_def items_ok_def)
  have low: "slice a 2 q = slice a 2 p" if "a + 2 \<le> unat (pd_lower p)" for a
    using le fits that by (simp add: q_def slice_patch_before)
  have hd: "pd_lower q = pd_lower p" "pd_upper q = pd_upper p"
    using wf by (simp_all add: pd_lower_def pd_upper_def hdr_defs low page_wf_def)
  then show n: "n_slots q = n_slots p" and "free_space q = free_space p" "num_slots q = num_slots p"
    by (simp_all add: n_slots_def free_space_def num_slots_def)
  have it: "item_off q j = item_off p j" "item_len q j = item_len p j" "item_live q j = item_live p j"
    if "j < n_slots p" for j
  proof -
    have "24 + j * 4 + 4 \<le> unat (pd_lower p)" using that le by simp
    then show "item_off q j = item_off p j" "item_len q j = item_len p j"
      by (simp_all add: item_off_def item_len_def low)
    then show "item_live q j = item_live p j" by (simp add: item_live_def)
  qed
  have len: "length q = 8192" using le fits by (simp add: q_def)
  show "page_wf q"
    using wf len by (simp add: page_wf_def items_ok_def hd n it)
  have "slice (item_off p i) (item_len p i) q = d @ drop (length d) (slice (item_off p i) (item_len p i) p)"
    using le fits len
    by (intro nth_equalityI) (auto simp: q_def nth_slice nth_patch nth_append)
  then show "slot_bytes q i = Some (d @ drop (length d) (slice (item_off p i) (item_len p i) p))"
    using i live by (simp add: slot_bytes_def it)
  show "slot_bytes q j = slot_bytes p j" if j: "j < n_slots p" "j \<noteq> i"
  proof (cases "item_live p j")
    case True
    with wf i j live have "item_off p i + item_len p i \<le> item_off p j
        \<or> item_off p j + item_len p j \<le> item_off p i"
      by (auto simp: page_wf_def items_ok_def)
    then have "slice (item_off p j) (item_len p j) q = slice (item_off p j) (item_len p j) p"
      unfolding q_def using le fits by (intro slice_patch_other) auto
    with True j show ?thesis by (simp add: slot_bytes_def it)
  next
    case False
    with j show ?thesis by (simp add: slot_bytes_def it)
  qed
qed

section \<open>The page implements the tuple store contract\<close>

interpretation page_store: tuple_store page_wf page_abs "\<lambda>d. True" page_insert_tuple page_get_tuple page_delete_tuple
proof
  fix p d p' k assume wf: "page_wf p" and ok: "page_insert_tuple p d = Ok (p', k)"
  then have fits: "4 + length d \<le> unat (free_space p)"
    by (cases "unat (free_space p) < 4 + length d") (simp_all add: page_insert_fails)
  with ok page_insert_eq [OF wf] have "p' = inserted p d" "k = num_slots p" by simp_all
  with page_insert_correct [OF wf fits] n_slots_num_slots [OF wf]
  show "page_wf p' \<and> page_abs p k = None \<and> page_abs p' = (page_abs p)(k \<mapsto> d)"
    by (simp add: page_abs_def)
next
  fix p s d assume "page_wf p"
  then show "page_get_tuple p s = Ok d \<longleftrightarrow> page_abs p s = Some d"
    by (simp add: page_get_cases page_abs_def split: option.splits)
next
  fix p s d assume wf: "page_wf p" and "page_abs p s = Some d"
  then have i: "unat s < n_slots p" and "slot_bytes p (unat s) = Some d"
    by (auto simp: page_abs_def split: if_splits)
  then show "\<exists>p'. page_delete_tuple p s = Ok p' \<and> page_wf p' \<and> page_abs p' = (page_abs p)(s := None)"
    using page_delete_correct [OF wf i] by (simp add: page_delete_cases wf)
next
  fix p s assume "page_wf p" and "page_abs p s = None"
  then show "\<not> is_ok (page_delete_tuple p s)"
    by (auto simp: page_delete_cases page_abs_def split: option.splits if_splits)
qed

section \<open>Properties\<close>

text \<open>
  A well-formed page is a list of slots. Insertion appends a slot and fails exactly when data and
  item pointer do not fit in the free space; lookup reads the slot and deletion empties it, with the error
  of the source for an out-of-range or already dead slot. Each operation keeps the page well formed.
\<close>

theorem page_refines_slot_list:
  assumes "page_wf p"
  shows "(if 4 + length d \<le> unat (free_space p)
      then \<exists>q. page_insert_tuple p d = Ok (q, num_slots p) \<and> page_wf q
        \<and> page_slots q = page_slots p @ [Some d] \<and> unat (num_slots p) = length (page_slots p)
        \<and> unat (free_space q) = unat (free_space p) - (4 + length d)
      else page_insert_tuple p d = Err (InsufficientSpace (4 + length d) (free_space p)))
    \<and> page_get_tuple p s =
        (if unat s < length (page_slots p)
         then (case page_slots p ! unat s of Some b \<Rightarrow> Ok b | None \<Rightarrow> Err (SlotDead s))
         else Err (SlotOutOfRange s))
    \<and> (if unat s < length (page_slots p) \<and> page_slots p ! unat s \<noteq> None
       then \<exists>q. page_delete_tuple p s = Ok q \<and> page_wf q \<and> page_slots q = (page_slots p)[unat s := None]
       else page_delete_tuple p s
         = Err (if unat s < length (page_slots p) then SlotDead s else SlotOutOfRange s))"
proof -
  have len: "length (page_slots p) = n_slots p" by (simp add: page_slots_def)
  have nth: "unat s < n_slots p \<Longrightarrow> page_slots p ! unat s = slot_bytes p (unat s)"
    by (simp add: page_slots_def)
  have get: "page_get_tuple p s = (if unat s < length (page_slots p)
      then (case page_slots p ! unat s of Some b \<Rightarrow> Ok b | None \<Rightarrow> Err (SlotDead s))
      else Err (SlotOutOfRange s))"
    using len nth by (auto simp: page_get_cases [OF assms] split: option.splits)
  have del: "if unat s < length (page_slots p) \<and> page_slots p ! unat s \<noteq> None
      then \<exists>q. page_delete_tuple p s = Ok q \<and> page_wf q \<and> page_slots q = (page_slots p)[unat s := None]
      else page_delete_tuple p s
        = Err (if unat s < length (page_slots p) then SlotDead s else SlotOutOfRange s)"
    using page_delete_correct [OF assms] len nth
    by (auto simp: page_delete_cases [OF assms] split: option.splits)
  have ins: "if 4 + length d \<le> unat (free_space p)
      then \<exists>q. page_insert_tuple p d = Ok (q, num_slots p) \<and> page_wf q
        \<and> page_slots q = page_slots p @ [Some d] \<and> unat (num_slots p) = length (page_slots p)
        \<and> unat (free_space q) = unat (free_space p) - (4 + length d)
      else page_insert_tuple p d = Err (InsufficientSpace (4 + length d) (free_space p))"
    using page_insert_eq [OF assms, of d] page_insert_correct [OF assms, of d]
      n_slots_num_slots [OF assms] len page_insert_fails [of p d] by (auto simp: not_le)
  show ?thesis by (intro conjI get del ins)
qed

theorem page_refines_slot_list_witness:
  "(\<exists>q. page_insert_tuple Page_new [7, 8] = Ok (q, 0) \<and> page_slots q = [Some [7, 8]])
     \<and> page_get_tuple Page_new 0 = Err (SlotOutOfRange 0)"
  using page_refines_slot_list [OF Page_new_wf, of "[7, 8]" 0] Page_new_slots
    unat_free_space [OF Page_new_wf] Page_new_header
  by (auto simp: num_slots_def)

text \<open>
  A page whose checksum was just updated verifies, updating again changes nothing, and the update
  touches no slot, so a page written to disk reads back valid with the same tuples.
\<close>

theorem checksum_stamp:
  assumes "page_wf p"
  shows "verify_checksum (update_checksum p) \<and> update_checksum (update_checksum p) = update_checksum p
    \<and> page_wf (update_checksum p) \<and> page_slots (update_checksum p) = page_slots p"
  using verify_update_checksum [of p] update_checksum_idem [of p] update_checksum_wf [OF assms] assms by auto

theorem checksum_stamp_witness:
  "verify_checksum (update_checksum Page_new) \<and> page_slots (update_checksum Page_new) = []"
  using checksum_stamp [OF Page_new_wf] Page_new_slots by simp

end
