(* ===== verification/Block_File.thy ===== *)
theory Block_File
  imports Page
begin

text \<open>
  Files of fixed-size pages. A file is its bytes; \<^verbatim>\<open>seek\<close> followed by \<^verbatim>\<open>write_all\<close>
  overwrites in place, extends past the end and zero-fills a gap, as the operating system does.
  Block \<open>i\<close> is the 8192 bytes at offset \<open>8192 * i\<close>. The heap file
  (\<^verbatim>\<open>storage/src/heap.rs\<close>) and the index file (\<^verbatim>\<open>btree/src/file.rs\<close>) are both such
  files; a device error reported by the operating system is not modelled.
\<close>

section \<open>Definitions\<close>

type_synonym disk_file = "byte list"

definition file_write_at :: "disk_file \<Rightarrow> nat \<Rightarrow> byte list \<Rightarrow> disk_file" where
  "file_write_at f off d =
     (if off \<le> length f then take off f @ d @ drop (off + length d) f
      else f @ replicate (off - length f) 0 @ d)"

definition n_blocks :: "disk_file \<Rightarrow> nat" where
  "n_blocks f = length f div PAGE_SIZE"

definition block :: "disk_file \<Rightarrow> nat \<Rightarrow> page" where
  "block f i = slice (i * PAGE_SIZE) PAGE_SIZE f"

text \<open>A file that consists of whole pages.\<close>

definition blocked :: "disk_file \<Rightarrow> bool" where
  "blocked f \<longleftrightarrow> length f = n_blocks f * PAGE_SIZE"

section \<open>Laws\<close>

lemma file_write_at_end [simp]: "file_write_at f (length f) d = f @ d"
  by (simp add: file_write_at_def)

lemma n_blocks_le: "n_blocks f * PAGE_SIZE \<le> length f"
  by (simp add: n_blocks_def)

lemma block_end_le: "i < n_blocks f \<Longrightarrow> i * PAGE_SIZE + PAGE_SIZE \<le> length f"
  using n_blocks_le [of f] mult_le_mono1 [of "Suc i" "n_blocks f" PAGE_SIZE] by simp

lemma length_block [simp]: "i < n_blocks f \<Longrightarrow> length (block f i) = PAGE_SIZE"
  using block_end_le [of i f] by (simp add: block_def)

lemma n_blocks_Nil [simp]: "n_blocks [] = 0" and blocked_Nil [simp]: "blocked []"
  by (simp_all add: n_blocks_def blocked_def)

lemma append_block:
  assumes "blocked f" and "length p = PAGE_SIZE"
  shows "n_blocks (f @ p) = Suc (n_blocks f)" and "blocked (f @ p)"
    and "block (f @ p) (n_blocks f) = p"
    and "i < n_blocks f \<Longrightarrow> block (f @ p) i = block f i"
proof -
  have len: "length f = n_blocks f * PAGE_SIZE" using assms by (simp add: blocked_def)
  show n: "n_blocks (f @ p) = Suc (n_blocks f)"
    using assms len by (simp add: n_blocks_def)
  show "blocked (f @ p)" using assms n len by (simp add: blocked_def)
  show "block (f @ p) (n_blocks f) = p"
    using assms len by (simp add: block_def slice_append2' slice_def)
  show "block (f @ p) i = block f i" if "i < n_blocks f"
    using block_end_le [OF that] by (simp add: block_def slice_append1)
qed

lemma write_block:
  assumes "blocked f" and "i < n_blocks f" and "length p = PAGE_SIZE"
  shows "n_blocks (file_write_at f (i * PAGE_SIZE) p) = n_blocks f"
    and "blocked (file_write_at f (i * PAGE_SIZE) p)"
    and "block (file_write_at f (i * PAGE_SIZE) p) i = p"
    and "j \<noteq> i \<Longrightarrow> block (file_write_at f (i * PAGE_SIZE) p) j = block f j"
proof -
  have len: "length f = n_blocks f * PAGE_SIZE" using assms by (simp add: blocked_def)
  have fits: "i * PAGE_SIZE + length p \<le> length f"
    using block_end_le [OF assms(2)] assms(3) by simp
  have w: "file_write_at f (i * PAGE_SIZE) p = patch (i * PAGE_SIZE) p f"
    using fits by (simp add: file_write_at_def patch_def)
  show n: "n_blocks (file_write_at f (i * PAGE_SIZE) p) = n_blocks f"
    using fits by (simp add: w n_blocks_def)
  show "blocked (file_write_at f (i * PAGE_SIZE) p)"
    using n fits len by (simp add: blocked_def) (simp add: w)
  show "block (file_write_at f (i * PAGE_SIZE) p) i = p"
    using fits assms(3) by (simp add: w block_def)
  show "block (file_write_at f (i * PAGE_SIZE) p) j = block f j" if "j \<noteq> i"
  proof -
    have "j * PAGE_SIZE + PAGE_SIZE \<le> i * PAGE_SIZE \<or> i * PAGE_SIZE + PAGE_SIZE \<le> j * PAGE_SIZE"
      using that by (cases "j < i") auto
    then show ?thesis
      unfolding w block_def using fits assms(3) by (intro slice_patch_other) auto
  qed
qed

lemma file_eqI:
  assumes "blocked f" and "blocked g" and "n_blocks f = n_blocks g"
    and "\<And>i. i < n_blocks f \<Longrightarrow> block f i = block g i"
  shows "f = g"
proof (rule nth_equalityI)
  show "length f = length g" using assms by (simp add: blocked_def)
  fix k assume k: "k < length f"
  let ?i = "k div PAGE_SIZE" and ?r = "k mod PAGE_SIZE"
  have i: "?i < n_blocks f"
    using k assms(1) by (simp add: blocked_def less_mult_imp_div_less)
  have "f ! k = block f ?i ! ?r" "g ! k = block g ?i ! ?r"
    using k assms(1-3) by (simp_all add: block_def nth_slice blocked_def)
  with assms(4) [OF i] show "f ! k = g ! k" by simp
qed

end
