(* ===== verification/Wal_Log.thy ===== *)
theory Wal_Log
  imports Wal_Record Block_File "HOL-Library.AList" "HOL-Library.Sublist" "HOL-Library.Multiset"
begin

text \<open>
  The segmented log: \<^verbatim>\<open>wal/src/writer.rs\<close> and \<^verbatim>\<open>wal/src/reader.rs\<close>. The log directory is an
  association list from file names to contents; an open file is a name and a position. What the
  operating system has been told to make durable is kept as a byte count per file. Other I/O errors
  than a missing file or a short read are not modelled.
\<close>

section \<open>File names\<close>

definition digit :: "nat \<Rightarrow> char" where
  "digit d = char_of (48 + d)"

fun dec :: "nat \<Rightarrow> string" where
  "dec n = (if n < 10 then [digit n] else dec (n div 10) @ [digit (n mod 10)])"

definition segment_filename :: "u64 \<Rightarrow> string" where
  "segment_filename seg =
     (let s = dec (unat seg) in replicate (16 - length s) (digit 0) @ s @ ''.wal'')"

text \<open>\<^verbatim>\<open>str::parse::<u64>\<close>: an optional plus sign, at least one digit, no overflow.\<close>

primrec parse_digits :: "nat \<Rightarrow> string \<Rightarrow> nat option" where
  "parse_digits acc [] = Some acc"
| "parse_digits acc (c # cs) =
     (let d = of_char c :: nat in
      if 48 \<le> d \<and> d < 58 \<and> acc * 10 + (d - 48) < 2 ^ 64 then parse_digits (acc * 10 + (d - 48)) cs
      else None)"

definition parse_u64 :: "string \<Rightarrow> u64 option" where
  "parse_u64 s =
     (let ds = (case s of c # cs \<Rightarrow> if c = CHR ''+'' then cs else s | [] \<Rightarrow> []) in
      if ds = [] then None else map_option of_nat (parse_digits 0 ds))"

function trim_wal :: "string \<Rightarrow> string" where
  "trim_wal s = (if suffix ''.wal'' s then trim_wal (take (length s - 4) s) else s)"
  by pat_completeness auto
termination
  by (relation "measure length") (auto simp: suffix_def)

type_synonym dir = "(string \<times> byte list) list"

definition seg_number :: "string \<Rightarrow> u64 option" where
  "seg_number name = (if suffix ''.wal'' name then parse_u64 (trim_wal name) else None)"

definition list_segments :: "dir \<Rightarrow> u64 list" where
  "list_segments d = sort (List.map_filter (\<lambda>(name, _). seg_number name) d)"

section \<open>The writer\<close>

abbreviation (input) DEFAULT_SEGMENT_SIZE :: u64 where "DEFAULT_SEGMENT_SIZE \<equiv> 16777216"

text \<open>\<^verbatim>\<open>Inner\<close>, with the directory it writes to and the durable length of each file.\<close>

record wal_writer =
  w_dir :: dir
  w_file :: string
  w_pos :: nat
  w_lsn :: lsn
  w_prev :: lsn
  w_segment :: u64
  w_segment_size :: u64
  w_synced :: "string \<Rightarrow> nat"

definition dir_create :: "string \<Rightarrow> dir \<Rightarrow> dir" where
  "dir_create name d = (case map_of d name of None \<Rightarrow> AList.update name [] d | Some _ \<Rightarrow> d)"

definition rotate_segment_if_needed :: "(wal_writer, wal_error, unit) sop" where
  "rotate_segment_if_needed w =
     (if w_pos w \<ge> unat (w_segment_size w)
      then let seg = w_segment w + 1; name = segment_filename seg in
        (Ok (), w\<lparr>w_segment := seg, w_dir := dir_create name (w_dir w), w_file := name, w_pos := 0\<rparr>)
      else (Ok (), w))"

definition wal_write_all :: "byte list \<Rightarrow> (wal_writer, wal_error, unit) sop" where
  "wal_write_all bytes w =
     (case map_of (w_dir w) (w_file w) of
        None \<Rightarrow> (Err WalIo, w)
      | Some content \<Rightarrow>
          (Ok (), w\<lparr>w_dir := AList.update (w_file w) (file_write_at content (w_pos w) bytes) (w_dir w),
                    w_pos := w_pos w + length bytes\<rparr>))"

definition append_inner :: "u32 \<Rightarrow> wal_record_type \<Rightarrow> u32 \<Rightarrow> byte list \<Rightarrow> (wal_writer, wal_error, lsn) sop" where
  "append_inner xid ty pn d =
     sbind rotate_segment_if_needed (\<lambda>_ w.
       let lsn = w_lsn w + 1;
           rec = \<lparr>r_lsn = lsn, r_prev_lsn = w_prev w, r_xid = xid, r_type = ty, r_page_no = pn, r_data = d\<rparr> in
       sbind (wal_write_all (wal_encode rec)) (\<lambda>_.
       sbind (smod (\<lambda>w. w\<lparr>w_lsn := lsn, w_prev := lsn\<rparr>)) (\<lambda>_.
       sret lsn)) w)"

definition wal_append :: "u32 \<Rightarrow> wal_record_type \<Rightarrow> u32 \<Rightarrow> byte list \<Rightarrow> (wal_writer, wal_error, lsn) sop" where
  "wal_append xid ty pn d = append_inner xid ty pn d"

text \<open>\<^verbatim>\<open>sync_all\<close> on the current segment, and on no other.\<close>

definition wal_flush :: "(wal_writer, wal_error, unit) sop" where
  "wal_flush w =
     (Ok (), w\<lparr>w_synced := (w_synced w)(w_file w :=
        (case map_of (w_dir w) (w_file w) of Some c \<Rightarrow> length c | None \<Rightarrow> 0))\<rparr>)"

definition append_and_flush :: "u32 \<Rightarrow> wal_record_type \<Rightarrow> u32 \<Rightarrow> byte list \<Rightarrow> (wal_writer, wal_error, lsn) sop" where
  "append_and_flush xid ty pn d =
     sbind (append_inner xid ty pn d) (\<lambda>lsn. sbind wal_flush (\<lambda>_. sret lsn))"

definition next_lsn :: "wal_writer \<Rightarrow> lsn" where
  "next_lsn w = w_lsn w + 1"

text \<open>\<^verbatim>\<open>read_exact\<close> at a position: the bytes and the new position, or the end of the file.\<close>

definition read_exact :: "byte list \<Rightarrow> nat \<Rightarrow> nat \<Rightarrow> byte list option \<times> nat" where
  "read_exact bytes pos n =
     (if pos + n \<le> length bytes then (Some (slice pos n bytes), pos + n) else (None, max pos (length bytes)))"

definition read_next_record_from :: "byte list \<Rightarrow> nat \<Rightarrow> (wal_error, wal_record option) outcome \<times> nat" where
  "read_next_record_from bytes pos =
     (case read_exact bytes pos 4 of
        (None, pos1) \<Rightarrow> (Ok None, pos1)
      | (Some len_buf, pos1) \<Rightarrow>
          let total_len = unat (from_le_bytes len_buf :: u32) in
          if total_len < 4 then (Ok None, pos1)
          else case read_exact bytes pos1 (total_len - 4) of
            (None, pos2) \<Rightarrow> (Err WalIo, pos2)
          | (Some rest, pos2) \<Rightarrow>
              (case wal_decode (len_buf @ rest) of
                 Ok rec \<Rightarrow> (Ok (Some rec), pos2)
               | Err _ \<Rightarrow> (Ok None, pos2)
               | Panic \<Rightarrow> (Panic, pos2)))"

lemma wal_decode_min: "wal_decode (l @ rest) = Ok rec \<Longrightarrow> length l = 4 \<Longrightarrow> 37 \<le> length l + length rest"
  using wal_decode_Ok(1,2) [of "l @ rest" rec] by simp

lemma read_next_progress:
  assumes "read_next_record_from bytes pos = (Ok (Some rec), pos')"
  shows "pos < pos' \<and> pos' \<le> length bytes"
  using assms by (auto simp: read_next_record_from_def read_exact_def Let_def split: if_splits outcome.splits)

function scan_file :: "byte list \<Rightarrow> nat \<Rightarrow> lsn \<times> lsn \<Rightarrow> lsn \<times> lsn" where
  "scan_file bytes pos (max_lsn, prev_lsn) =
     (case read_next_record_from bytes pos of
        (Ok (Some rec), pos') \<Rightarrow> scan_file bytes pos' (r_lsn rec, max_lsn)
      | _ \<Rightarrow> (max_lsn, prev_lsn))"
  by pat_completeness auto
termination
  by (relation "measure (\<lambda>(bytes, pos, _). length bytes - pos)") (auto dest!: read_next_progress [OF sym])

fun scan_segments :: "dir \<Rightarrow> u64 list \<Rightarrow> lsn \<times> lsn \<Rightarrow> lsn \<times> lsn" where
  "scan_segments d [] acc = acc"
| "scan_segments d (seg # segs) acc =
     (case map_of d (segment_filename seg) of
        None \<Rightarrow> scan_segments d segs acc
      | Some bytes \<Rightarrow> scan_segments d segs (scan_file bytes 0 acc))"

text \<open>\<^verbatim>\<open>WalWriter::open\<close>: what was durable before stays durable.\<close>

definition WalWriter_open :: "dir \<Rightarrow> (string \<Rightarrow> nat) \<Rightarrow> (wal_error, wal_writer) outcome" where
  "WalWriter_open d synced =
     (let segments = list_segments d in
      if segments = []
      then let name = segment_filename 1 in
        Ok \<lparr>w_dir = dir_create name d, w_file = name, w_pos = 0, w_lsn = INVALID_LSN, w_prev = INVALID_LSN,
            w_segment = 1, w_segment_size = DEFAULT_SEGMENT_SIZE, w_synced = synced\<rparr>
      else let last_seg = last segments;
               (max_lsn, prev_lsn) = scan_segments d segments (INVALID_LSN, INVALID_LSN);
               name = segment_filename last_seg;
               d' = dir_create name d in
        Ok \<lparr>w_dir = d', w_file = name,
            w_pos = (case map_of d' name of Some c \<Rightarrow> length c | None \<Rightarrow> 0),
            w_lsn = max_lsn, w_prev = prev_lsn, w_segment = last_seg,
            w_segment_size = DEFAULT_SEGMENT_SIZE, w_synced = synced\<rparr>)"

definition open_with_segment_size :: "dir \<Rightarrow> (string \<Rightarrow> nat) \<Rightarrow> u64 \<Rightarrow> (wal_error, wal_writer) outcome" where
  "open_with_segment_size d synced seg_size =
     obind (WalWriter_open d synced) (\<lambda>w. Ok (w\<lparr>w_segment_size := seg_size\<rparr>))"

section \<open>The reader\<close>

record wal_reader =
  r_dir :: dir
  r_segments :: "u64 list"
  r_seg_idx :: nat
  r_file :: "(string \<times> nat) option"
  r_position :: nat

definition read_one_record_with_crc :: "byte list \<Rightarrow> nat \<Rightarrow> nat \<Rightarrow> (wal_error, wal_record option) outcome \<times> nat" where
  "read_one_record_with_crc bytes pos at =
     (case read_exact bytes pos 4 of
        (None, pos1) \<Rightarrow> (Ok None, pos1)
      | (Some len_buf, pos1) \<Rightarrow>
          let total_len = unat (from_le_bytes len_buf :: u32) in
          if total_len < 4 then (Err (CorruptRecord INVALID_LSN (TotalLenTooSmallAt total_len at)), pos1)
          else case read_exact bytes pos1 (total_len - 4) of
            (None, pos2) \<Rightarrow> (Ok None, pos2)
          | (Some rest, pos2) \<Rightarrow> (obind (wal_decode (len_buf @ rest)) (\<lambda>rec. Ok (Some rec)), pos2))"

definition read_one_record_raw :: "byte list \<Rightarrow> nat \<Rightarrow> (wal_error, wal_record option) outcome \<times> nat" where
  "read_one_record_raw bytes pos = read_one_record_with_crc bytes pos 0"

lemma read_one_progress:
  assumes "read_one_record_with_crc bytes pos at = (Ok (Some rec), pos')"
  shows "pos < pos' \<and> pos' \<le> length bytes"
  using assms by (auto simp: read_one_record_with_crc_def read_exact_def Let_def split: if_splits)

fun find_segment_for_lsn :: "dir \<Rightarrow> (nat \<times> u64) list \<Rightarrow> lsn \<Rightarrow> nat \<Rightarrow> nat" where
  "find_segment_for_lsn d [] start best = best"
| "find_segment_for_lsn d ((i, seg) # segs) start best =
     (case map_of d (segment_filename seg) of
        None \<Rightarrow> find_segment_for_lsn d segs start best
      | Some bytes \<Rightarrow>
          find_segment_for_lsn d segs start
            (case read_one_record_raw bytes 0 of
               (Ok (Some rec), _) \<Rightarrow> if r_lsn rec \<le> start then i else best
             | _ \<Rightarrow> best))"

definition open_segment :: "nat \<Rightarrow> (wal_reader, wal_error, unit) sop" where
  "open_segment idx r =
     (let name = segment_filename (r_segments r ! idx) in
      case map_of (r_dir r) name of
        None \<Rightarrow> (Err WalIo, r)
      | Some _ \<Rightarrow> (Ok (), r\<lparr>r_file := Some (name, r_position r)\<rparr>))"

text \<open>The loop of \<^verbatim>\<open>skip_to_lsn\<close> on the current file: file position and recorded position.\<close>

function skip_loop :: "byte list \<Rightarrow> lsn \<Rightarrow> nat \<Rightarrow> nat \<Rightarrow> nat \<times> nat" where
  "skip_loop bytes start pos position =
     (case read_one_record_raw bytes pos of
        (Ok (Some rec), pos') \<Rightarrow> if r_lsn rec \<ge> start then (pos, pos) else skip_loop bytes start pos' pos'
      | (Ok None, pos') \<Rightarrow> (pos', position)
      | (Err e, pos') \<Rightarrow> (pos', position)
      | (Panic, pos') \<Rightarrow> (pos', position))"
  by pat_completeness auto
termination
  by (relation "measure (\<lambda>(bytes, _, pos, _). length bytes - pos)")
    (auto simp: read_one_record_raw_def dest!: read_one_progress [OF sym])

definition skip_to_lsn :: "lsn \<Rightarrow> (wal_reader, wal_error, unit) sop" where
  "skip_to_lsn start r =
     (case r_file r of
        None \<Rightarrow> (Ok (), r)
      | Some (name, pos) \<Rightarrow>
          (case map_of (r_dir r) name of
             None \<Rightarrow> (Err WalIo, r)
           | Some bytes \<Rightarrow>
               (case skip_loop bytes start pos (r_position r) of
                  (pos', position) \<Rightarrow> (Ok (), r\<lparr>r_file := Some (name, pos'), r_position := position\<rparr>))))"

definition WalReader_open :: "dir \<Rightarrow> lsn \<Rightarrow> (wal_error, wal_reader) outcome" where
  "WalReader_open d start =
     (let segments = list_segments d in
      if segments = []
      then Ok \<lparr>r_dir = d, r_segments = segments, r_seg_idx = 0, r_file = None, r_position = 0\<rparr>
      else let idx = (if start = INVALID_LSN then 0
                      else find_segment_for_lsn d (enumerate 0 segments) start 0);
               r = \<lparr>r_dir = d, r_segments = segments, r_seg_idx = idx, r_file = None, r_position = 0\<rparr> in
        if idx < length segments
        then (case sbind (open_segment idx)
                     (\<lambda>_. if start \<noteq> INVALID_LSN then skip_to_lsn start else sret ()) r of
                (Ok _, r') \<Rightarrow> Ok r' | (Err e, _) \<Rightarrow> Err e | (Panic, _) \<Rightarrow> Panic)
        else Ok r)"

function next_record :: "(wal_reader, wal_error, wal_record option) sop" where
  "next_record r =
     (if r_seg_idx r \<ge> length (r_segments r) then (Ok None, r)
      else case (case r_file r of None \<Rightarrow> open_segment (r_seg_idx r) r | Some _ \<Rightarrow> (Ok (), r)) of
        (Err e, r1) \<Rightarrow> (Err e, r1)
      | (Panic, r1) \<Rightarrow> (Panic, r1)
      | (Ok _, r1) \<Rightarrow>
          (case r_file r1 of
             None \<Rightarrow> (Panic, r1)
           | Some (name, pos) \<Rightarrow>
               (case map_of (r_dir r1) name of
                  None \<Rightarrow> (Err WalIo, r1)
                | Some bytes \<Rightarrow>
                    (case read_one_record_with_crc bytes pos pos of
                       (Ok (Some rec), pos') \<Rightarrow>
                         (Ok (Some rec), r1\<lparr>r_file := Some (name, pos'), r_position := pos'\<rparr>)
                     | (Ok None, _) \<Rightarrow>
                         next_record (r1\<lparr>r_file := None, r_position := 0, r_seg_idx := Suc (r_seg_idx r1)\<rparr>)
                     | (Err e, pos') \<Rightarrow> (Err e, r1\<lparr>r_file := Some (name, pos')\<rparr>)
                     | (Panic, pos') \<Rightarrow> (Panic, r1)))))"
  by pat_completeness auto
termination
  by (relation "measure (\<lambda>r. length (r_segments r) - r_seg_idx r)")
    (auto simp: open_segment_def Let_def split: option.splits)

declare dec.simps [simp del] trim_wal.simps [simp del] scan_file.simps [simp del] skip_loop.simps [simp del]
  next_record.simps [simp del]

section \<open>Names and directories\<close>

lemma of_char_digit [simp]: "d < 10 \<Longrightarrow> of_char (digit d) = (48 + d :: nat)"
  by (simp add: digit_def)

lemma parse_digits_append:
  "parse_digits acc (xs @ ys) = Option.bind (parse_digits acc xs) (\<lambda>a. parse_digits a ys)"
  by (induction xs arbitrary: acc) (auto simp: Let_def)

lemma parse_zeros: "parse_digits 0 (replicate k (digit 0)) = Some 0"
  by (induction k) (auto simp: Let_def)

lemma parse_dec: "n < 2 ^ 64 \<Longrightarrow> parse_digits 0 (dec n) = Some n"
proof (induction n rule: dec.induct)
  case (1 n)
  show ?case
  proof (cases "n < 10")
    case True
    then show ?thesis by (simp add: dec.simps [of n] Let_def)
  next
    case False
    then have "parse_digits 0 (dec (n div 10)) = Some (n div 10)" using 1 by simp
    then show ?thesis
      using False "1.prems" by (simp add: dec.simps [of n] parse_digits_append Let_def)
  qed
qed

lemma dec_last: "\<exists>ds d. dec n = ds @ [digit d] \<and> d < 10"
  by (cases "n < 10") (auto simp: dec.simps [of n] intro: exI [of _ "[]"])

lemma dec_hd: "\<exists>d ds. dec n = digit d # ds \<and> d < 10"
proof (induction n rule: dec.induct)
  case (1 n)
  then show ?case by (cases "n < 10") (auto simp: dec.simps [of n])
qed

lemma digit_neq: "d < 10 \<Longrightarrow> digit d \<noteq> CHR ''l''" "d < 10 \<Longrightarrow> digit d \<noteq> CHR ''+''"
  using of_char_digit [of d] by (auto simp del: of_char_digit)

lemma trim_wal_once: "last x \<noteq> CHR ''l'' \<Longrightarrow> x \<noteq> [] \<Longrightarrow> trim_wal (x @ ''.wal'') = x"
  by (auto simp: trim_wal.simps [of "x @ ''.wal''"] trim_wal.simps [of x] suffix_def)

lemma seg_number_name [simp]: "seg_number (segment_filename n) = Some n"
proof -
  let ?s = "dec (unat n)"
  let ?x = "replicate (16 - length ?s) (digit 0) @ ?s"
  obtain ds d where l: "?s = ds @ [digit d]" "d < 10" using dec_last by blast
  have name: "segment_filename n = ?x @ ''.wal''" by (simp add: segment_filename_def Let_def)
  have trim: "trim_wal (?x @ ''.wal'') = ?x"
    by (rule trim_wal_once) (simp_all add: l digit_neq)
  obtain c cs where x: "?x = c # cs" "c \<noteq> CHR ''+''"
    using dec_hd [of "unat n"] by (cases "16 - length ?s") (auto simp: digit_neq)
  have "parse_digits 0 ?x = Some (unat n)"
    using parse_dec [of "unat n"] by (simp add: parse_digits_append parse_zeros)
  then show ?thesis
    unfolding seg_number_def name trim using x by (simp add: parse_u64_def suffix_def)
qed

lemma segment_filename_inj: "segment_filename m = segment_filename n \<longleftrightarrow> m = n"
  by (metis option.inject seg_number_name)

text \<open>The segments of a directory in order, with their contents; other files do not matter.\<close>

definition dir_holds :: "dir \<Rightarrow> (u64 \<times> byte list) list \<Rightarrow> bool" where
  "dir_holds d segs \<longleftrightarrow> list_segments d = map fst segs \<and> distinct (map fst segs)
     \<and> (\<forall>(n, bytes) \<in> set segs. map_of d (segment_filename n) = Some bytes)"

lemma list_segments_keys:
  "list_segments d = sort (List.map_filter seg_number (map fst d))"
  by (simp add: list_segments_def map_filter_map_filter [symmetric] map_filter_def comp_def case_prod_beta
      filter_map)

lemma dir_holds_update:
  assumes "dir_holds d (segs @ [(n, b)])"
  shows "dir_holds (AList.update (segment_filename n) b' d) (segs @ [(n, b')])"
proof -
  have old: "map_of d (segment_filename n) = Some b" using assms by (auto simp: dir_holds_def)
  then have "segment_filename n \<in> set (map fst d)" by (metis domI dom_map_of_conv_image_fst list.set_map)
  then have "map fst (AList.update (segment_filename n) b' d) = map fst d"
    by (simp add: update_keys)
  then have "list_segments (AList.update (segment_filename n) b' d) = list_segments d"
    by (simp add: list_segments_keys)
  moreover have "m \<noteq> n" if "(m, c) \<in> set segs" for m c
    using that assms by (auto simp: dir_holds_def image_iff)
  ultimately show ?thesis
    using assms by (auto simp: dir_holds_def update_conv' segment_filename_inj)
qed

lemma dir_holds_new:
  assumes "dir_holds d segs" and "\<And>m. m \<in> fst ` set segs \<Longrightarrow> m < n"
  shows "dir_holds (dir_create (segment_filename n) d) (segs @ [(n, [])])"
proof -
  let ?f = "segment_filename n"
  have ls: "list_segments d = map fst segs" using assms(1) by (simp add: dir_holds_def)
  have "n \<notin> set (list_segments d)" using assms(2) ls by (auto simp: image_iff)
  then have fresh: "?f \<notin> set (map fst d)"
    by (auto simp: list_segments_def map_filter_def image_iff) (metis option.distinct(1) option.sel seg_number_name)
  then have none: "map_of d ?f = None" by (simp add: map_of_eq_None_iff)
  have create: "dir_create ?f d = AList.update ?f [] d" by (simp add: dir_create_def none)
  have keys: "map fst (AList.update ?f [] d) = map fst d @ [?f]"
    using fresh by (simp add: update_keys)
  let ?ns = "List.map_filter seg_number (map fst d)"
  have ns: "sort ?ns = map fst segs" using ls by (simp add: list_segments_keys)
  have "sort (?ns @ [n]) = sort ?ns @ [n]"
  proof (rule properties_for_sort)
    have "x < n" if "x \<in> set (sort ?ns)" for x using that assms(2) ns by auto
    then show "sorted (sort ?ns @ [n])" by (auto simp: sorted_append less_imp_le)
  qed simp
  then have "list_segments (AList.update ?f [] d) = map fst segs @ [n]"
    using keys ns by (simp add: list_segments_keys map_filter_def)
  moreover have "segment_filename m \<noteq> ?f" if "(m, c) \<in> set segs" for m c
    using that assms(2) [of m] by (force simp: segment_filename_inj)
  moreover have "n \<notin> fst ` set segs" using assms(2) by blast
  ultimately show ?thesis
    using assms(1) unfolding create by (auto simp: dir_holds_def update_conv')
qed

section \<open>Replay\<close>

text \<open>Bytes the reader still has in front of it; every record it returns consumes some of them.\<close>

definition file_len :: "dir \<Rightarrow> string \<Rightarrow> nat" where
  "file_len d name = (case map_of d name of Some c \<Rightarrow> length c | None \<Rightarrow> 0)"

definition rem_bytes :: "wal_reader \<Rightarrow> nat" where
  "rem_bytes r =
     (if r_seg_idx r < length (r_segments r)
      then (case r_file r of
              None \<Rightarrow> file_len (r_dir r) (segment_filename (r_segments r ! r_seg_idx r))
            | Some (name, pos) \<Rightarrow> file_len (r_dir r) name - pos)
         + sum_list (map (\<lambda>n. file_len (r_dir r) (segment_filename n)) (drop (Suc (r_seg_idx r)) (r_segments r)))
      else 0)"

lemma next_record_opened:
  assumes "r_seg_idx r < length (r_segments r)" and "r_file r = Some (name, pos)"
    and "map_of (r_dir r) name = Some bytes"
  shows "next_record r = (case read_one_record_with_crc bytes pos pos of
      (Ok (Some rec), pos') \<Rightarrow> (Ok (Some rec), r\<lparr>r_file := Some (name, pos'), r_position := pos'\<rparr>)
    | (Ok None, _) \<Rightarrow> next_record (r\<lparr>r_file := None, r_position := 0, r_seg_idx := Suc (r_seg_idx r)\<rparr>)
    | (Err e, pos') \<Rightarrow> (Err e, r\<lparr>r_file := Some (name, pos')\<rparr>)
    | (Panic, pos') \<Rightarrow> (Panic, r))"
  using assms by (subst next_record.simps) simp

lemma next_record_opens:
  assumes "r_seg_idx r < length (r_segments r)" and "r_file r = None"
    and "map_of (r_dir r) (segment_filename (r_segments r ! r_seg_idx r)) = Some bytes"
  shows "next_record r
    = next_record (r\<lparr>r_file := Some (segment_filename (r_segments r ! r_seg_idx r), r_position r)\<rparr>)"
  using assms by (subst next_record.simps, subst (2) next_record.simps) (simp add: open_segment_def Let_def)

lemma next_record_unopened:
  assumes "r_seg_idx r < length (r_segments r)"
    and "r_file r = None \<Longrightarrow> map_of (r_dir r) (segment_filename (r_segments r ! r_seg_idx r)) = None"
    and "\<And>name pos. r_file r = Some (name, pos) \<Longrightarrow> map_of (r_dir r) name = None"
  shows "next_record r = (Err WalIo, r)"
  using assms by (cases "r_file r") (auto simp: next_record.simps [of r] open_segment_def Let_def)

lemma rem_bytes_open:
  "r_file r = None \<Longrightarrow> rem_bytes (r\<lparr>r_file := Some (segment_filename (r_segments r ! r_seg_idx r), p)\<rparr>) \<le> rem_bytes r"
  by (simp add: rem_bytes_def)

lemma rem_bytes_skip:
  "r_seg_idx r < length (r_segments r)
    \<Longrightarrow> rem_bytes (r\<lparr>r_file := None, r_position := 0, r_seg_idx := Suc (r_seg_idx r)\<rparr>) \<le> rem_bytes r"
  using Cons_nth_drop_Suc [of "Suc (r_seg_idx r)" "r_segments r", symmetric] by (simp add: rem_bytes_def)

lemma next_record_consumes:
  assumes "next_record r = (Ok (Some rec), r')"
  shows "rem_bytes r' < rem_bytes r"
  using assms
proof (induction "length (r_segments r) - r_seg_idx r" arbitrary: r rule: less_induct)
  case less
  have idx: "r_seg_idx r < length (r_segments r)"
    using less.prems by (auto simp: next_record.simps [of r] split: if_splits)
  have opened: ?case if r: "next_record s = (Ok (Some rec), r')" "r_file s = Some (name, pos)"
    "map_of (r_dir s) name = Some bytes" "r_segments s = r_segments r" "r_seg_idx s = r_seg_idx r"
    "rem_bytes s \<le> rem_bytes r" for s name pos bytes
  proof -
    let ?n = "s\<lparr>r_file := None, r_position := 0, r_seg_idx := Suc (r_seg_idx s)\<rparr>"
    from r(1) consider (here) pos' where "read_one_record_with_crc bytes pos pos = (Ok (Some rec), pos')"
        "r' = s\<lparr>r_file := Some (name, pos'), r_position := pos'\<rparr>"
      | (later) "next_record ?n = (Ok (Some rec), r')"
      using next_record_opened [of s name pos bytes] idx r
      by (auto split: outcome.splits option.splits prod.splits)
    then show ?thesis
    proof cases
      case here
      then have "rem_bytes r' < rem_bytes s"
        using read_one_progress [OF here(1)] idx r(2-5) by (auto simp: rem_bytes_def file_len_def)
      with r(6) show ?thesis by simp
    next
      case later
      have "rem_bytes r' < rem_bytes ?n" by (rule less.hyps [OF _ later]) (use idx r in auto)
      with rem_bytes_skip [of s] idx r show ?thesis by simp
    qed
  qed
  show ?case
  proof (cases "r_file r")
    case None
    let ?f = "segment_filename (r_segments r ! r_seg_idx r)"
    obtain bytes where b: "map_of (r_dir r) ?f = Some bytes"
      using next_record_unopened [OF idx] less.prems None by (cases "map_of (r_dir r) ?f") auto
    show ?thesis
      by (rule opened [of "r\<lparr>r_file := Some (?f, r_position r)\<rparr>"])
        (use next_record_opens [OF idx None b] less.prems b rem_bytes_open [OF None] in auto)
  next
    case (Some f)
    obtain name pos where f: "f = (name, pos)" by (cases f)
    obtain bytes where "map_of (r_dir r) name = Some bytes"
      using next_record_unopened [OF idx] less.prems Some f by (cases "map_of (r_dir r) name") auto
    then show ?thesis using opened [OF less.prems] Some f by blast
  qed
qed

text \<open>
  The loop \<^verbatim>\<open>while let Some(record) = reader.next_record()? { step }\<close>; recovery and the
  transaction manager run it with their own step.
\<close>

function replay :: "(wal_record \<Rightarrow> ('s, wal_error, unit) sop) \<Rightarrow> wal_reader \<Rightarrow> ('s, wal_error, unit) sop" where
  "replay step r s =
     (case next_record r of
        (Ok (Some rec), r') \<Rightarrow>
          (case step rec s of
             (Ok _, s') \<Rightarrow> replay step r' s' | (Err e, s') \<Rightarrow> (Err e, s') | (Panic, s') \<Rightarrow> (Panic, s'))
      | (Ok None, _) \<Rightarrow> (Ok (), s)
      | (Err e, _) \<Rightarrow> (Err e, s)
      | (Panic, _) \<Rightarrow> (Panic, s))"
  by pat_completeness auto
termination
  by (relation "measure (\<lambda>(step, r, s). rem_bytes r)") (auto dest!: next_record_consumes [OF sym])

declare replay.simps [simp del]

text \<open>The same loop over a list of records.\<close>

primrec steps :: "(wal_record \<Rightarrow> ('s, wal_error, unit) sop) \<Rightarrow> wal_record list \<Rightarrow> ('s, wal_error, unit) sop" where
  "steps step [] = sret ()"
| "steps step (r # rs) = sbind (step r) (\<lambda>_. steps step rs)"

definition read_all :: "wal_reader \<Rightarrow> (wal_error, unit) outcome \<times> wal_record list" where
  "read_all r = replay (\<lambda>rec rs. (Ok (), rs @ [rec])) r []"

section \<open>Reading what was written\<close>

text \<open>
  An unfinished tail: fewer bytes than a length field, or fewer than its length field announces. What a
  crash leaves of a record is one, and it stays one when bytes are added that do not fill it up.
\<close>

definition torn :: "byte list \<Rightarrow> bool" where
  "torn t \<longleftrightarrow> length t < 4 \<or> (\<exists>r. record_fits r \<and> 4 \<le> length t \<and> take 4 t = take 4 (wal_encode r)
     \<and> length t < length (wal_encode r))"

lemma torn_Nil [simp]: "torn []"
  by (simp add: torn_def)

lemma torn_take: "record_fits r \<Longrightarrow> k < length (wal_encode r) \<Longrightarrow> torn (take k (wal_encode r))"
  by (cases "k < 4") (auto simp: torn_def min_def intro!: exI [of _ r])

lemma total_len_encode:
  "record_fits r \<Longrightarrow> unat (from_le_bytes (take 4 (wal_encode r)) :: u32) = length (wal_encode r)"
  using wal_encode_fields(1) [of r "[]"]
  by (auto simp: slice_def record_fits_def simp del: of_nat_add intro!: unat_of_nat_small)

lemma read_header:
  "read_exact (pre @ wal_encode r @ post) (length pre) 4 = (Some (take 4 (wal_encode r)), length pre + 4)"
  "read_exact (pre @ wal_encode r @ post) (length pre + 4) (length (wal_encode r) - 4)
    = (Some (drop 4 (wal_encode r)), length pre + length (wal_encode r))"
  by (simp_all add: read_exact_def slice_def)

lemma read_one_encoded:
  assumes "record_fits r"
  shows "read_one_record_with_crc (pre @ wal_encode r @ post) (length pre) at
    = (Ok (Some r), length pre + length (wal_encode r))"
  using wal_decode_encode_append [OF assms, of "[]"]
  unfolding read_one_record_with_crc_def read_header Let_def prod.case option.case total_len_encode [OF assms]
  by simp

lemma read_next_encoded:
  assumes "record_fits r"
  shows "read_next_record_from (pre @ wal_encode r @ post) (length pre)
    = (Ok (Some r), length pre + length (wal_encode r))"
  using wal_decode_encode_append [OF assms, of "[]"]
  unfolding read_next_record_from_def read_header Let_def prod.case option.case total_len_encode [OF assms]
  by simp

text \<open>A torn record whose length field survived: the reader wants more bytes than there are.\<close>

lemma read_short:
  assumes "record_fits r" and "4 \<le> length t" and "take 4 t = take 4 (wal_encode r)"
    and "length t < length (wal_encode r)"
  shows "read_one_record_with_crc (pre @ t) (length pre) at = (Ok None, length pre + length t)"
    and "read_next_record_from (pre @ t) (length pre) = (Err WalIo, length pre + length t)"
proof -
  have h: "read_exact (pre @ t) (length pre) 4 = (Some (take 4 (wal_encode r)), length pre + 4)"
    using assms by (simp add: read_exact_def slice_def)
  have b: "read_exact (pre @ t) (length pre + 4) (length (wal_encode r) - 4) = (None, length pre + length t)"
    using assms(2,4) by (simp add: read_exact_def)
  show "read_one_record_with_crc (pre @ t) (length pre) at = (Ok None, length pre + length t)"
    "read_next_record_from (pre @ t) (length pre) = (Err WalIo, length pre + length t)"
    unfolding read_one_record_with_crc_def read_next_record_from_def h Let_def prod.case option.case
      total_len_encode [OF assms(1)] b by simp_all
qed

lemma read_few:
  assumes "length t < 4"
  shows "read_one_record_with_crc (pre @ t) (length pre) at = (Ok None, length pre + length t)"
    and "read_next_record_from (pre @ t) (length pre) = (Ok None, length pre + length t)"
  using assms by (simp_all add: read_one_record_with_crc_def read_next_record_from_def read_exact_def)

lemma torn_cases:
  assumes "torn t"
  obtains (few) "length t < 4"
  | (short) r where "record_fits r" "4 \<le> length t" "take 4 t = take 4 (wal_encode r)" "length t < length (wal_encode r)"
  using assms few short by (auto simp: torn_def)

lemma read_torn:
  assumes "torn t"
  shows "read_one_record_with_crc (pre @ t) (length pre) at = (Ok None, length pre + length t)"
  using assms by (cases rule: torn_cases) (simp_all add: read_few read_short)

lemma scan_file_law:
  assumes "\<And>r. r \<in> set rs \<Longrightarrow> record_fits r" and "torn t"
  shows "scan_file (pre @ concat (map wal_encode rs) @ t) (length pre) acc
    = foldl (\<lambda>(m, p) r. (r_lsn r, m)) acc rs"
  using assms(1)
proof (induction rs arbitrary: pre acc)
  case Nil
  obtain m p where acc: "acc = (m, p)" by (cases acc)
  show ?case
    using assms(2)
    by (cases rule: torn_cases) (simp_all add: acc scan_file.simps [of "pre @ t"] read_few read_short)
next
  case (Cons r rs)
  obtain m p where acc: "acc = (m, p)" by (cases acc)
  have fits: "record_fits r" using Cons.prems by simp
  have "scan_file (pre @ wal_encode r @ concat (map wal_encode rs) @ t) (length pre) (m, p)
      = scan_file ((pre @ wal_encode r) @ concat (map wal_encode rs) @ t) (length (pre @ wal_encode r)) (r_lsn r, m)"
    by (subst scan_file.simps) (simp add: read_next_encoded [OF fits])
  also have "\<dots> = foldl (\<lambda>(m, p) r. (r_lsn r, m)) (r_lsn r, m) rs"
    by (rule Cons.IH) (use Cons.prems in simp)
  finally show ?case by (simp add: acc)
qed

section \<open>Directories that hold a log\<close>

text \<open>A segment number, the complete records of the segment, and a torn record behind them.\<close>

type_synonym chunk = "u64 \<times> wal_record list \<times> byte list"

definition chunk_records :: "chunk \<Rightarrow> wal_record list" where
  "chunk_records c = fst (snd c)"

definition chunk_bytes :: "chunk \<Rightarrow> byte list" where
  "chunk_bytes c = concat (map wal_encode (chunk_records c)) @ snd (snd c)"

definition log_records :: "chunk list \<Rightarrow> wal_record list" where
  "log_records cs = concat (map chunk_records cs)"

definition chunk_ok :: "chunk \<Rightarrow> bool" where
  "chunk_ok c \<longleftrightarrow> (\<forall>r \<in> set (chunk_records c). record_fits r) \<and> torn (snd (snd c))"

definition holds_log :: "dir \<Rightarrow> chunk list \<Rightarrow> bool" where
  "holds_log d cs \<longleftrightarrow> dir_holds d (map (\<lambda>c. (fst c, chunk_bytes c)) cs) \<and> (\<forall>c \<in> set cs. chunk_ok c)"

lemma holds_logD:
  assumes "holds_log d cs"
  shows "list_segments d = map fst cs"
    and "i < length cs \<Longrightarrow> map_of d (segment_filename (fst (cs ! i))) = Some (chunk_bytes (cs ! i))"
    and "c \<in> set cs \<Longrightarrow> map_of d (segment_filename (fst c)) = Some (chunk_bytes c)"
    and "c \<in> set cs \<Longrightarrow> chunk_ok c"
  using assms by (auto simp: holds_log_def dir_holds_def comp_def)

lemma steps_append: "steps f (xs @ ys) = sbind (steps f xs) (\<lambda>_. steps f ys)"
  by (induction xs) (simp_all add: sbind_assoc)

lemma replay_step:
  "next_record r = (Ok (Some rec), r') \<Longrightarrow> replay f r s = sbind (f rec) (\<lambda>_. replay f r') s"
  by (subst replay.simps) (simp add: sbind_def split: prod.splits outcome.splits)

lemma replay_cong: "next_record r = next_record r' \<Longrightarrow> replay f r s = replay f r' s"
  by (simp add: replay.simps [of f r] replay.simps [of f r'])

definition next_segment :: "wal_reader \<Rightarrow> wal_reader" where
  "next_segment r = r\<lparr>r_file := None, r_position := 0, r_seg_idx := Suc (r_seg_idx r)\<rparr>"

lemma replay_in_file:
  assumes "r_seg_idx r < length (r_segments r)" and "r_file r = Some (name, length pre)"
    and "map_of (r_dir r) name = Some (pre @ concat (map wal_encode rs) @ t)"
    and "\<forall>r \<in> set rs. record_fits r" and "torn t"
  shows "replay f r s = sbind (steps f rs) (\<lambda>_. replay f (next_segment r)) s"
  using assms(1-4)
proof (induction rs arbitrary: pre r s)
  case Nil
  have "next_record r = next_record (next_segment r)"
    using next_record_opened [OF Nil(1-3)] read_torn [OF assms(5), of pre]
    by (simp add: next_segment_def)
  then have "replay f r s = replay f (next_segment r) s" by (rule replay_cong)
  then show ?case by simp
next
  case (Cons rec rs)
  let ?pre = "pre @ wal_encode rec"
  let ?r = "r\<lparr>r_file := Some (name, length ?pre), r_position := length ?pre\<rparr>"
  have nr: "next_record r = (Ok (Some rec), ?r)"
    using next_record_opened [OF Cons.prems(1-3)]
      read_one_encoded [of rec pre "concat (map wal_encode rs) @ t"] Cons.prems(4) by simp
  moreover have "replay f ?r s' = sbind (steps f rs) (\<lambda>_. replay f (next_segment ?r)) s'" for s'
    by (rule Cons.IH [where pre = ?pre]) (use Cons.prems in simp_all)
  moreover have "next_segment ?r = next_segment r" by (simp add: next_segment_def)
  ultimately have "replay f ?r = sbind (steps f rs) (\<lambda>_. replay f (next_segment r))" by auto
  then show ?case by (simp add: replay_step [OF nr] sbind_assoc)
qed

lemma replay_chunk:
  assumes log: "holds_log (r_dir r) cs" and seg: "r_segments r = map fst cs"
    and i: "r_seg_idx r < length cs" and r: "r_file r = None" "r_position r = 0"
  shows "replay f r s = sbind (steps f (chunk_records (cs ! r_seg_idx r))) (\<lambda>_. replay f (next_segment r)) s"
proof -
  let ?c = "cs ! r_seg_idx r"
  let ?r = "r\<lparr>r_file := Some (segment_filename (fst ?c), 0)\<rparr>"
  have c: "map_of (r_dir r) (segment_filename (fst ?c)) = Some (chunk_bytes ?c)" "chunk_ok ?c"
    using holds_logD [OF log] i by auto
  have "replay f r s = replay f ?r s"
    by (rule replay_cong) (use next_record_opens [of r "chunk_bytes ?c"] c i r seg in simp)
  also have "\<dots> = sbind (steps f (chunk_records ?c)) (\<lambda>_. replay f (next_segment ?r)) s"
    by (rule replay_in_file [where pre = "[]" and t = "snd (snd ?c)"])
      (use c i seg in \<open>simp_all add: chunk_bytes_def chunk_ok_def\<close>)
  finally show ?thesis by (simp add: next_segment_def)
qed

lemma replay_chunks:
  assumes "holds_log (r_dir r) cs" and "r_segments r = map fst cs" and "r_file r = None" and "r_position r = 0"
  shows "replay f r s = steps f (log_records (drop (r_seg_idx r) cs)) s"
  using assms
proof (induction "length cs - r_seg_idx r" arbitrary: r s)
  case 0
  then have "next_record r = (Ok None, r)" by (simp add: next_record.simps [of r])
  then show ?case using 0 by (simp add: replay.simps [of f r] log_records_def)
next
  case (Suc k)
  then have i: "r_seg_idx r < length cs" by simp
  have "replay f (next_segment r) = steps f (log_records (drop (Suc (r_seg_idx r)) cs))"
  proof
    show "replay f (next_segment r) s' = steps f (log_records (drop (Suc (r_seg_idx r)) cs)) s'" for s'
      using Suc.hyps(1) [of "next_segment r" s'] Suc.hyps(2) Suc.prems by (simp add: next_segment_def)
  qed
  moreover have "log_records (drop (r_seg_idx r) cs)
      = chunk_records (cs ! r_seg_idx r) @ log_records (drop (Suc (r_seg_idx r)) cs)"
    using Cons_nth_drop_Suc [OF i, symmetric] by (simp add: log_records_def)
  ultimately show ?case
    using replay_chunk [OF Suc.prems(1,2) i Suc.prems(3,4), of f s] by (simp add: steps_append)
qed

section \<open>Opening a reader\<close>

lemma skip_loop_law:
  assumes "\<forall>r \<in> set rs. record_fits r" and "torn t"
  obtains p where "skip_loop (pre @ concat (map wal_encode rs) @ t) start (length pre) position
      = (length (pre @ concat (map wal_encode (takeWhile (\<lambda>r. r_lsn r < start) rs)))
         + (if dropWhile (\<lambda>r. r_lsn r < start) rs = [] then length t else 0), p)"
  using assms(1)
proof (induction rs arbitrary: pre position thesis)
  case Nil
  have "skip_loop (pre @ t) start (length pre) position = (length pre + length t, position)"
    by (subst skip_loop.simps) (simp add: read_one_record_raw_def read_torn [OF assms(2)])
  then show ?case by (simp add: Nil.prems(1))
next
  case (Cons r rs)
  let ?rest = "concat (map wal_encode rs) @ t"
  have one: "read_one_record_raw (pre @ wal_encode r @ ?rest) (length pre)
      = (Ok (Some r), length (pre @ wal_encode r))"
    using read_one_encoded [of r pre ?rest] Cons.prems(2) by (simp add: read_one_record_raw_def)
  show ?case
  proof (cases "r_lsn r < start")
    case True
    obtain p where "skip_loop ((pre @ wal_encode r) @ ?rest) start (length (pre @ wal_encode r)) (length (pre @ wal_encode r))
        = (length ((pre @ wal_encode r) @ concat (map wal_encode (takeWhile (\<lambda>r. r_lsn r < start) rs)))
           + (if dropWhile (\<lambda>r. r_lsn r < start) rs = [] then length t else 0), p)"
      using Cons.IH [of "pre @ wal_encode r"] Cons.prems(2) by auto
    moreover have "skip_loop (pre @ wal_encode r @ ?rest) start (length pre) position
        = skip_loop ((pre @ wal_encode r) @ ?rest) start (length (pre @ wal_encode r)) (length (pre @ wal_encode r))"
      by (subst skip_loop.simps) (use one True in \<open>auto dest: leD\<close>)
    ultimately show ?thesis using True Cons.prems(1) [of p] by simp
  next
    case False
    then have "skip_loop (pre @ wal_encode r @ ?rest) start (length pre) position = (length pre, length pre)"
      using one by (subst skip_loop.simps) (simp add: not_less)
    then show ?thesis using False Cons.prems(1) [of "length pre"] by simp
  qed
qed

text \<open>A chunk whose first record is not behind the start.\<close>

definition starts_by :: "lsn \<Rightarrow> chunk \<Rightarrow> bool" where
  "starts_by start c \<longleftrightarrow> chunk_records c \<noteq> [] \<and> r_lsn (hd (chunk_records c)) \<le> start"

lemma first_record:
  assumes "chunk_ok c"
  shows "(case read_one_record_raw (chunk_bytes c) 0 of
      (Ok (Some rec), _) \<Rightarrow> if r_lsn rec \<le> start then i else best | _ \<Rightarrow> (best :: nat))
    = (if starts_by start c then i else best)"
proof (cases "chunk_records c")
  case Nil
  then show ?thesis
    using read_torn [of "snd (snd c)" "[]" 0] assms
    by (simp add: chunk_ok_def read_one_record_raw_def chunk_bytes_def starts_by_def)
next
  case (Cons r rs)
  then show ?thesis
    using read_one_encoded [of r "[]" "concat (map wal_encode rs) @ snd (snd c)" 0] assms
    by (simp add: chunk_ok_def read_one_record_raw_def chunk_bytes_def starts_by_def)
qed

lemma find_segment_law:
  assumes "\<forall>c \<in> set cs. map_of d (segment_filename (fst c)) = Some (chunk_bytes c) \<and> chunk_ok c"
  shows "(\<forall>c \<in> set cs. \<not> starts_by start c)
        \<and> find_segment_for_lsn d (enumerate k (map fst cs)) start best = best
     \<or> (\<exists>A c B. cs = A @ c # B \<and> starts_by start c \<and> (\<forall>b \<in> set B. \<not> starts_by start b)
        \<and> find_segment_for_lsn d (enumerate k (map fst cs)) start best = k + length A)"
  using assms
proof (induction cs arbitrary: k best)
  case Nil
  then show ?case by simp
next
  case (Cons c cs)
  let ?best = "if starts_by start c then k else best"
  have run: "find_segment_for_lsn d (enumerate k (map fst (c # cs))) start best
      = find_segment_for_lsn d (enumerate (Suc k) (map fst cs)) start ?best"
    using Cons.prems first_record [of c, where start = start and i = k and best = best] by simp
  consider "\<forall>c \<in> set cs. \<not> starts_by start c"
      "find_segment_for_lsn d (enumerate (Suc k) (map fst cs)) start ?best = ?best"
    | A c' B where "cs = A @ c' # B" "starts_by start c'" "\<forall>b \<in> set B. \<not> starts_by start b"
      "find_segment_for_lsn d (enumerate (Suc k) (map fst cs)) start ?best = Suc k + length A"
    using Cons.IH [of "Suc k" ?best] Cons.prems by auto
  then show ?case
  proof cases
    case 1
    show ?thesis
    proof (cases "starts_by start c")
      case True
      with 1 have "c # cs = [] @ c # cs \<and> starts_by start c \<and> (\<forall>b \<in> set cs. \<not> starts_by start b)
        \<and> find_segment_for_lsn d (enumerate k (map fst (c # cs))) start best = k + length ([] :: chunk list)"
        unfolding run by simp
      then show ?thesis by blast
    next
      case False
      with 1 show ?thesis unfolding run by simp
    qed
  next
    case (2 A c' B)
    then show ?thesis unfolding run
      by (intro disjI2 exI [of _ "c # A"] exI [of _ c'] exI [of _ B]) simp
  qed
qed

definition ascending :: "wal_record list \<Rightarrow> bool" where
  "ascending rs \<longleftrightarrow> sorted_wrt (<) (map r_lsn rs)"

lemma ascending_append:
  "ascending (xs @ ys) \<longleftrightarrow> ascending xs \<and> ascending ys \<and> (\<forall>x \<in> set xs. \<forall>y \<in> set ys. r_lsn x < r_lsn y)"
  by (auto simp: ascending_def sorted_wrt_append)

lemma ascending_filter_drop:
  "ascending rs \<Longrightarrow> filter (\<lambda>r. start \<le> r_lsn r) rs = dropWhile (\<lambda>r. r_lsn r < start) rs"
proof (induction rs)
  case (Cons r rs)
  have all: "start \<le> r_lsn x" if "start \<le> r_lsn r" "x \<in> set rs" for x
    using Cons.prems that by (force simp: ascending_def)
  show ?case
  proof (cases "r_lsn r < start")
    case True
    then show ?thesis using Cons by (simp add: ascending_def)
  next
    case False
    then have "filter (\<lambda>r. start \<le> r_lsn r) rs = rs" using all by (simp add: filter_id_conv)
    then show ?thesis using False by (simp add: linorder_not_less)
  qed
qed simp

lemma log_records_simps [simp]:
  "log_records [] = []" "log_records (c # cs) = chunk_records c @ log_records cs"
  "log_records (cs @ cs') = log_records cs @ log_records cs'"
  by (simp_all add: log_records_def)

text \<open>The records from the chosen segment on that are not skipped are those at or after the start.\<close>

lemma filter_from_chunk:
  assumes asc: "ascending (log_records (A @ c # B))"
    and c: "A = [] \<or> starts_by start c" and B: "\<forall>b \<in> set B. \<not> starts_by start b"
  shows "filter (\<lambda>r. start \<le> r_lsn r) (log_records (A @ c # B))
    = dropWhile (\<lambda>r. r_lsn r < start) (chunk_records c) @ log_records B"
proof -
  have parts: "ascending (chunk_records c)" "ascending (log_records B)"
    "\<forall>x \<in> set (log_records A). \<forall>y \<in> set (chunk_records c). r_lsn x < r_lsn y"
    using asc by (auto simp: ascending_append)
  have "r_lsn x < start" if "x \<in> set (log_records A)" for x
  proof -
    have "starts_by start c" using that c by auto
    then have "r_lsn x < r_lsn (hd (chunk_records c))" "r_lsn (hd (chunk_records c)) \<le> start"
      using parts(3) that by (auto simp: starts_by_def)
    then show ?thesis by (rule less_le_trans)
  qed
  then have A: "filter (\<lambda>r. start \<le> r_lsn r) (log_records A) = []"
    by (auto simp: filter_empty_conv linorder_not_le)
  have "start \<le> r_lsn x" if "x \<in> set (log_records B)" for x
  proof -
    from that obtain b where b: "b \<in> set B" "x \<in> set (chunk_records b)" by (auto simp: log_records_def)
    then obtain B1 B2 where "B = B1 @ b # B2" by (meson split_list)
    then have "ascending (chunk_records b)" using parts(2) by (simp add: ascending_append)
    moreover have "start < r_lsn (hd (chunk_records b))" "chunk_records b \<noteq> []"
      using B b by (auto simp: starts_by_def linorder_not_le)
    ultimately show ?thesis
      using b(2) by (cases "chunk_records b") (auto simp: ascending_def)
  qed
  then have "filter (\<lambda>r. start \<le> r_lsn r) (log_records B) = log_records B" by (simp add: filter_id_conv)
  with A ascending_filter_drop [OF parts(1)] show ?thesis by simp
qed

lemma chosen_segment:
  assumes log: "holds_log d cs" and ne: "cs \<noteq> []"
  obtains A c B where "cs = A @ c # B"
    and "find_segment_for_lsn d (enumerate 0 (map fst cs)) start 0 = length A"
    and "A = [] \<or> starts_by start c" and "\<forall>b \<in> set B. \<not> starts_by start b"
proof -
  let ?i = "find_segment_for_lsn d (enumerate 0 (map fst cs)) start 0"
  have "\<forall>c \<in> set cs. map_of d (segment_filename (fst c)) = Some (chunk_bytes c) \<and> chunk_ok c"
    using holds_logD(3,4) [OF log] by simp
  from find_segment_law [where start = start and k = 0 and best = 0, OF this] show thesis
  proof (elim disjE conjE exE)
    assume "\<forall>c \<in> set cs. \<not> starts_by start c" "?i = 0"
    with ne show thesis by (intro that [of "[]" "hd cs" "tl cs"]) (auto dest: list.set_sel(2))
  next
    fix A c B assume "cs = A @ c # B" "starts_by start c" "\<forall>b \<in> set B. \<not> starts_by start b" "?i = 0 + length A"
    then show thesis by (intro that [of A c B]) auto
  qed
qed

lemma reader_from_start:
  assumes log: "holds_log d cs"
  obtains r where "WalReader_open d INVALID_LSN = Ok r" and "\<And>f s. replay f r s = steps f (log_records cs) s"
proof -
  let ?r = "\<lparr>r_dir = d, r_segments = map fst cs, r_seg_idx = 0, r_file = None, r_position = 0\<rparr>"
  have rep: "replay f ?r s = steps f (log_records cs) s" for f s
    using replay_chunks [of ?r cs f s] log by simp
  show ?thesis
  proof (cases cs)
    case Nil
    then have "WalReader_open d INVALID_LSN = Ok ?r"
      using holds_logD(1) [OF log] by (simp add: WalReader_open_def)
    with rep that show ?thesis by blast
  next
    case (Cons c cs')
    let ?r' = "?r\<lparr>r_file := Some (segment_filename (fst c), 0)\<rparr>"
    have m: "map_of d (segment_filename (fst c)) = Some (chunk_bytes c)"
      using holds_logD(2) [OF log, of 0] Cons by simp
    have "WalReader_open d INVALID_LSN = Ok ?r'"
      using holds_logD(1) [OF log] Cons m by (simp add: WalReader_open_def open_segment_def Let_def)
    moreover have "replay f ?r' s = steps f (log_records cs) s" for f s
    proof -
      have "next_record ?r' = next_record ?r"
        using next_record_opens [of ?r "chunk_bytes c"] m Cons by simp
      then have "replay f ?r' s = replay f ?r s" by (rule replay_cong)
      also have "\<dots> = steps f (log_records cs) s" by (rule rep)
      finally show ?thesis .
    qed
    ultimately show ?thesis using that by blast
  qed
qed

lemma reader_from_lsn:
  assumes log: "holds_log d cs" and asc: "ascending (log_records cs)" and st: "start \<noteq> INVALID_LSN"
  obtains r where "WalReader_open d start = Ok r"
    and "\<And>f s. replay f r s = steps f (filter (\<lambda>x. start \<le> r_lsn x) (log_records cs)) s"
proof (cases "cs = []")
  case True
  let ?r = "\<lparr>r_dir = d, r_segments = [], r_seg_idx = 0, r_file = None, r_position = 0\<rparr>"
  have "WalReader_open d start = Ok ?r"
    using holds_logD(1) [OF log] True by (simp add: WalReader_open_def)
  moreover have "replay f ?r s = steps f (filter (\<lambda>x. start \<le> r_lsn x) (log_records cs)) s" for f s
    using replay_chunks [of ?r cs f s] log True by simp
  ultimately show ?thesis by (rule that)
next
  case False
  let ?i = "find_segment_for_lsn d (enumerate 0 (map fst cs)) start 0"
  obtain A c B where cs: "cs = A @ c # B" and i: "?i = length A"
    and sel: "A = [] \<or> starts_by start c" "\<forall>b \<in> set B. \<not> starts_by start b"
    by (rule chosen_segment [OF log False])
  define rs where "rs = chunk_records c"
  define skipped where "skipped = concat (map wal_encode (takeWhile (\<lambda>r. r_lsn r < start) rs))"
  define kept where "kept = dropWhile (\<lambda>r. r_lsn r < start) rs"
  have m: "map_of d (segment_filename (fst c)) = Some (chunk_bytes c)" and ok: "chunk_ok c"
    using holds_logD(3,4) [OF log, of c] cs by auto
  have bytes: "chunk_bytes c = skipped @ concat (map wal_encode kept) @ snd (snd c)"
    unfolding chunk_bytes_def rs_def [symmetric] skipped_def kept_def
    by (metis append.assoc concat_append map_append takeWhile_dropWhile_id)
  let ?pos = "length skipped + (if kept = [] then length (snd (snd c)) else 0)"
  obtain p where sk: "skip_loop (chunk_bytes c) start 0 0 = (?pos, p)"
    using skip_loop_law [of rs "snd (snd c)" "[]" start 0] ok
    by (auto simp: chunk_bytes_def rs_def chunk_ok_def skipped_def kept_def)
  let ?r = "\<lparr>r_dir = d, r_segments = map fst cs, r_seg_idx = length A,
      r_file = Some (segment_filename (fst c), ?pos), r_position = p\<rparr>"
  have op: "WalReader_open d start = Ok ?r"
    using holds_logD(1) [OF log] False i m sk st cs
    by (simp add: WalReader_open_def open_segment_def skip_to_lsn_def Let_def nth_append)
  have rest: "replay f (next_segment ?r) = steps f (log_records B)" for f
  proof
    show "replay f (next_segment ?r) s = steps f (log_records B) s" for s
      using replay_chunks [of "next_segment ?r" cs f s] log cs by (simp add: next_segment_def)
  qed
  have here: "replay f ?r s = sbind (steps f kept) (\<lambda>_. replay f (next_segment ?r)) s" for f s
  proof (rule replay_in_file [where pre = "skipped @ (if kept = [] then snd (snd c) else [])"
        and t = "if kept = [] then [] else snd (snd c)"])
    show "\<forall>r \<in> set kept. record_fits r"
      using ok set_dropWhileD unfolding kept_def rs_def chunk_ok_def by fastforce
  qed (use m bytes cs ok in \<open>auto simp: chunk_ok_def\<close>)
  have all: "replay f ?r s = steps f (kept @ log_records B) s" for f s
    by (simp only: here rest steps_append)
  have flt: "kept @ log_records B = filter (\<lambda>x. start \<le> r_lsn x) (log_records cs)"
    using filter_from_chunk [of A c B start] asc sel cs by (simp add: kept_def rs_def)
  have "replay f ?r s = steps f (filter (\<lambda>x. start \<le> r_lsn x) (log_records cs)) s" for f s
    by (simp only: all flt)
  with op show ?thesis by (rule that)
qed

section \<open>The writer's invariant\<close>

text \<open>
  The directory holds a log whose sequence numbers are consecutive from one, the last segment is the
  current one and the writer stands at its end.
\<close>

definition numbered :: "wal_record list \<Rightarrow> bool" where
  "numbered rs \<longleftrightarrow> map r_lsn rs = map of_nat [1..<Suc (length rs)] \<and> length rs < 2 ^ 64"

definition wal_inv :: "chunk list \<Rightarrow> wal_writer \<Rightarrow> bool" where
  "wal_inv cs w \<longleftrightarrow> cs \<noteq> [] \<and> holds_log (w_dir w) cs \<and> sorted_wrt (<) (map fst cs)
     \<and> w_segment w = fst (last cs) \<and> w_file w = segment_filename (w_segment w)
     \<and> w_pos w = length (chunk_bytes (last cs)) \<and> (\<forall>c \<in> set cs. snd (snd c) = [])
     \<and> numbered (log_records cs) \<and> w_lsn w = of_nat (length (log_records cs))"

lemma numbered_ascending:
  assumes "numbered rs"
  shows "ascending rs"
proof -
  have len: "length rs < 2 ^ 64" using assms by (simp add: numbered_def)
  have "(of_nat i :: u64) < of_nat j" if "i < j" "j \<le> length rs" for i j
    using that len by (simp add: word_less_nat_alt)
  then have "sorted_wrt (<) (map (of_nat :: nat \<Rightarrow> u64) [1..<Suc (length rs)])"
    unfolding sorted_wrt_map by (intro sorted_wrt_mono_rel [OF _ sorted_wrt_upt]) auto
  then show ?thesis using assms by (simp add: ascending_def numbered_def)
qed

lemma numbered_snoc:
  assumes "numbered rs" and "r_lsn r = of_nat (Suc (length rs))" and "Suc (length rs) < 2 ^ 64"
  shows "numbered (rs @ [r])"
  using assms by (simp add: numbered_def)

text \<open>Appending to the last segment of a directory.\<close>

lemma holds_log_extend:
  assumes log: "holds_log d (cs @ [c])" and c: "snd (snd c) = []" and fits: "record_fits r"
  shows "holds_log (AList.update (segment_filename (fst c))
      (file_write_at (chunk_bytes c) (length (chunk_bytes c)) (wal_encode r)) d)
    (cs @ [(fst c, chunk_records c @ [r], [])])"
proof -
  let ?c = "(fst c, chunk_records c @ [r], [])"
  have b: "chunk_bytes c @ wal_encode r = chunk_bytes ?c"
    using c by (simp add: chunk_bytes_def chunk_records_def)
  have "chunk_ok ?c" using log fits by (auto simp: holds_log_def chunk_ok_def chunk_records_def)
  with log dir_holds_update [of d "map (\<lambda>c. (fst c, chunk_bytes c)) cs" "fst c" "chunk_bytes c"]
  show ?thesis by (simp add: holds_log_def b)
qed

lemma rotate_law:
  assumes inv: "wal_inv cs w" and seg: "w_segment w \<noteq> - 1"
  obtains cs' w' where "rotate_segment_if_needed w = (Ok (), w')" and "wal_inv cs' w'"
    and "log_records cs' = log_records cs" and "w_lsn w' = w_lsn w" and "w_prev w' = w_prev w"
    and "w_synced w' = w_synced w" and "unat (w_segment w') \<le> Suc (unat (w_segment w))"
    and "w_segment_size w' = w_segment_size w"
proof (cases "w_pos w \<ge> unat (w_segment_size w)")
  case False
  then show ?thesis using inv that [of w cs] by (simp add: rotate_segment_if_needed_def)
next
  case True
  let ?n = "w_segment w + 1"
  let ?cs = "cs @ [(?n, [], [])]"
  let ?w = "w\<lparr>w_segment := ?n, w_dir := dir_create (segment_filename ?n) (w_dir w),
      w_file := segment_filename ?n, w_pos := 0\<rparr>"
  have ne: "cs \<noteq> []" and lst: "w_segment w = fst (last cs)" using inv by (auto simp: wal_inv_def)
  have lt: "w_segment w < ?n"
    using seg by (rule word_less_succ)
  have all: "m < ?n" if "m \<in> set (map fst cs)" for m
  proof -
    have "m \<le> last (map fst cs)"
      using that inv ne by (cases "map fst cs" rule: rev_cases) (auto simp: wal_inv_def sorted_wrt_append intro: less_imp_le)
    then show ?thesis using lt lst ne by (auto simp: last_map intro: le_less_trans)
  qed
  have "dir_holds (dir_create (segment_filename ?n) (w_dir w)) (map (\<lambda>c. (fst c, chunk_bytes c)) cs @ [(?n, [])])"
  proof (rule dir_holds_new)
    show "dir_holds (w_dir w) (map (\<lambda>c. (fst c, chunk_bytes c)) cs)"
      using inv by (simp add: wal_inv_def holds_log_def)
    show "m < ?n" if "m \<in> fst ` set (map (\<lambda>c. (fst c, chunk_bytes c)) cs)" for m
      using that all [of m] by force
  qed
  then have "holds_log (w_dir ?w) ?cs"
    using inv by (auto simp: wal_inv_def holds_log_def chunk_ok_def chunk_bytes_def chunk_records_def)
  then have "wal_inv ?cs ?w"
    using inv all by (auto simp: wal_inv_def sorted_wrt_append chunk_bytes_def chunk_records_def)
  moreover have "rotate_segment_if_needed w = (Ok (), ?w)"
    using True by (simp add: rotate_segment_if_needed_def Let_def)
  moreover have "unat ?n \<le> Suc (unat (w_segment w))" by (rule unat_succ_le)
  ultimately show ?thesis using that [of ?w ?cs] by (simp add: chunk_records_def)
qed

definition appended :: "wal_writer \<Rightarrow> u32 \<Rightarrow> wal_record_type \<Rightarrow> u32 \<Rightarrow> byte list \<Rightarrow> wal_record" where
  "appended w xid ty pn d = \<lparr>r_lsn = w_lsn w + 1, r_prev_lsn = w_prev w, r_xid = xid, r_type = ty,
     r_page_no = pn, r_data = d\<rparr>"

lemma append_law:
  assumes inv: "wal_inv cs w" and seg: "w_segment w \<noteq> - 1" and room: "Suc (length (log_records cs)) < 2 ^ 64"
    and fits: "37 + length d < 2 ^ 32"
  obtains cs' w' where "append_inner xid ty pn d w = (Ok (w_lsn w + 1), w')" and "wal_inv cs' w'"
    and "log_records cs' = log_records cs @ [appended w xid ty pn d]"
    and "w_lsn w' = w_lsn w + 1" and "w_prev w' = w_lsn w + 1" and "w_synced w' = w_synced w"
    and "unat (w_segment w') \<le> Suc (unat (w_segment w))" and "w_segment_size w' = w_segment_size w"
proof -
  define r where "r = appended w xid ty pn d"
  obtain cs1 w1 where w1: "rotate_segment_if_needed w = (Ok (), w1)" "wal_inv cs1 w1"
    "log_records cs1 = log_records cs" "w_lsn w1 = w_lsn w" "w_prev w1 = w_prev w" "w_synced w1 = w_synced w"
    "unat (w_segment w1) \<le> Suc (unat (w_segment w))" "w_segment_size w1 = w_segment_size w"
    by (rule rotate_law [OF inv seg])
  obtain A c where cs1: "cs1 = A @ [c]" using w1(2) by (cases cs1 rule: rev_cases) (auto simp: wal_inv_def)
  have c: "snd (snd c) = []" "w_file w1 = segment_filename (fst c)" "w_pos w1 = length (chunk_bytes c)"
    "map_of (w_dir w1) (segment_filename (fst c)) = Some (chunk_bytes c)" "holds_log (w_dir w1) (A @ [c])"
    using w1(2) cs1 holds_logD(3) [of "w_dir w1" cs1 c] by (auto simp: wal_inv_def)
  have fr: "record_fits r" using fits by (simp add: r_def appended_def record_fits_def)
  let ?c = "(fst c, chunk_records c @ [r], [])"
  let ?w = "w1\<lparr>w_dir := AList.update (segment_filename (fst c))
      (file_write_at (chunk_bytes c) (length (chunk_bytes c)) (wal_encode r)) (w_dir w1),
      w_pos := w_pos w1 + length (wal_encode r), w_lsn := w_lsn w + 1, w_prev := w_lsn w + 1\<rparr>"
  have run: "append_inner xid ty pn d w = (Ok (w_lsn w + 1), ?w)"
    using w1(1,4,5) c by (simp add: append_inner_def wal_write_all_def Let_def r_def appended_def)
  have rec: "log_records (A @ [?c]) = log_records cs @ [r]"
    using w1(3) cs1 by (simp add: chunk_records_def)
  have lsn: "w_lsn w = of_nat (length (log_records cs))" using inv by (simp add: wal_inv_def)
  have "numbered (log_records cs @ [r])"
    using inv room lsn by (intro numbered_snoc) (auto simp: wal_inv_def r_def appended_def)
  moreover have "sorted_wrt (<) (map fst (A @ [c]))" "w_segment w1 = fst c" "\<forall>c \<in> set A. snd (snd c) = []"
    using w1(2) cs1 by (simp_all add: wal_inv_def)
  ultimately have "wal_inv (A @ [?c]) ?w"
    unfolding wal_inv_def rec using c lsn holds_log_extend [OF c(5) c(1) fr]
    by (simp add: chunk_bytes_def chunk_records_def)
  with run rec w1(6-8) show ?thesis using that [of ?w "A @ [?c]"] by (simp add: r_def)
qed

lemma scan_segments_law:
  assumes "\<forall>c \<in> set cs. map_of d (segment_filename (fst c)) = Some (chunk_bytes c) \<and> chunk_ok c"
  shows "scan_segments d (map fst cs) acc = foldl (\<lambda>(m, p) r. (r_lsn r, m)) acc (log_records cs)"
  using assms
proof (induction cs arbitrary: acc)
  case Nil
  then show ?case by simp
next
  case (Cons c cs)
  then have "scan_file (chunk_bytes c) 0 acc = foldl (\<lambda>(m, p) r. (r_lsn r, m)) acc (chunk_records c)"
    using scan_file_law [of "chunk_records c" "snd (snd c)" "[]" acc] by (simp add: chunk_bytes_def chunk_ok_def)
  then show ?case using Cons by simp
qed

lemma scan_fold:
  "foldl (\<lambda>(m, p) r. (r_lsn r, m)) (0, 0) rs
    = (if rs = [] then 0 else r_lsn (last rs), if length rs < 2 then 0 else r_lsn (rs ! (length rs - 2)))"
proof (induction rs rule: rev_induct)
  case (snoc r rs)
  show ?case
  proof (cases rs rule: rev_cases)
    case (snoc rs' r')
    with snoc.IH show ?thesis by (simp add: nth_append)
  qed simp
qed simp

lemma open_fresh:
  assumes "list_segments d = []"
  obtains w where "WalWriter_open d sy = Ok w" and "wal_inv [(1, [], [])] w" and "w_prev w = 0"
    and "w_segment w = 1" and "w_synced w = sy" and "w_segment_size w = DEFAULT_SEGMENT_SIZE"
proof -
  have "dir_holds d []" using assms by (simp add: dir_holds_def)
  then have "dir_holds (dir_create (segment_filename 1) d) [(1, [])]"
    using dir_holds_new [of d "[]" 1] by simp
  then show ?thesis
    using assms by (intro that [of "\<lparr>w_dir = dir_create (segment_filename 1) d, w_file = segment_filename 1,
        w_pos = 0, w_lsn = 0, w_prev = 0, w_segment = 1, w_segment_size = DEFAULT_SEGMENT_SIZE, w_synced = sy\<rparr>"])
      (simp_all add: WalWriter_open_def wal_inv_def holds_log_def chunk_ok_def chunk_bytes_def
        chunk_records_def numbered_def Let_def)
qed

lemma open_existing:
  assumes log: "holds_log d (cs @ [c])"
  obtains w where "WalWriter_open d sy = Ok w" and "w_dir w = d" and "w_segment w = fst c"
    and "w_file w = segment_filename (fst c)" and "w_pos w = length (chunk_bytes c)"
    and "w_lsn w = (let rs = log_records (cs @ [c]) in if rs = [] then 0 else r_lsn (last rs))"
    and "w_prev w = (let rs = log_records (cs @ [c]) in if length rs < 2 then 0 else r_lsn (rs ! (length rs - 2)))"
    and "w_synced w = sy" and "w_segment_size w = DEFAULT_SEGMENT_SIZE"
proof -
  let ?rs = "log_records (cs @ [c])"
  have ls: "list_segments d = map fst (cs @ [c])" by (rule holds_logD(1) [OF log])
  have m: "map_of d (segment_filename (fst c)) = Some (chunk_bytes c)"
    using holds_logD(3) [OF log, of c] by simp
  have scan: "scan_segments d (map fst (cs @ [c])) (0, 0)
      = (if ?rs = [] then 0 else r_lsn (last ?rs), if length ?rs < 2 then 0 else r_lsn (?rs ! (length ?rs - 2)))"
    using scan_segments_law [of "cs @ [c]" d "(0, 0)"] holds_logD(3,4) [OF log]
    unfolding scan_fold by blast
  have "WalWriter_open d sy = Ok \<lparr>w_dir = d, w_file = segment_filename (fst c), w_pos = length (chunk_bytes c),
      w_lsn = if ?rs = [] then 0 else r_lsn (last ?rs),
      w_prev = if length ?rs < 2 then 0 else r_lsn (?rs ! (length ?rs - 2)),
      w_segment = fst c, w_segment_size = DEFAULT_SEGMENT_SIZE, w_synced = sy\<rparr>"
    unfolding WalWriter_open_def Let_def ls scan using m by (simp add: dir_create_def)
  then show ?thesis by (rule that) (simp_all add: Let_def)
qed

lemma numbered_last: "numbered rs \<Longrightarrow> (if rs = [] then 0 else r_lsn (last rs)) = of_nat (length rs)"
proof -
  assume n: "numbered rs"
  show ?thesis
  proof (cases "rs = []")
    case False
    have "r_lsn (last rs) = last (map r_lsn rs)" using False by (simp add: last_map)
    also have "\<dots> = of_nat (length rs)" using n False by (cases rs) (auto simp: numbered_def last_map simp del: upt_Suc)
    finally show ?thesis using False by simp
  qed simp
qed

lemma reopen_inv:
  assumes inv: "wal_inv cs w"
  obtains w' where "WalWriter_open (w_dir w) sy = Ok w'" and "wal_inv cs w'" and "w_lsn w' = w_lsn w"
    and "w_prev w' = (let rs = log_records cs in if length rs < 2 then 0 else r_lsn (rs ! (length rs - 2)))"
    and "w_segment w' = w_segment w"
proof -
  obtain A c where cs: "cs = A @ [c]" using inv by (cases cs rule: rev_cases) (auto simp: wal_inv_def)
  have log: "holds_log (w_dir w) (A @ [c])" using inv cs by (simp add: wal_inv_def)
  obtain w' where w': "WalWriter_open (w_dir w) sy = Ok w'" "w_dir w' = w_dir w" "w_segment w' = fst c"
    "w_file w' = segment_filename (fst c)" "w_pos w' = length (chunk_bytes c)"
    "w_lsn w' = (let rs = log_records (A @ [c]) in if rs = [] then 0 else r_lsn (last rs))"
    "w_prev w' = (let rs = log_records (A @ [c]) in if length rs < 2 then 0 else r_lsn (rs ! (length rs - 2)))"
    using open_existing [OF log] by metis
  have "w_lsn w' = of_nat (length (log_records cs))"
  proof -
    have "numbered (log_records cs)" using inv by (simp add: wal_inv_def)
    from numbered_last [OF this] show ?thesis unfolding w'(6) Let_def cs .
  qed
  then have "wal_inv cs w'" "w_lsn w' = w_lsn w" "w_segment w' = w_segment w"
    using inv w'(1-5) cs by (simp_all add: wal_inv_def)
  with that w'(1,7) cs show ?thesis by blast
qed

section \<open>Batches, crashes and reopening\<close>

type_synonym entry = "u32 \<times> wal_record_type \<times> u32 \<times> byte list"

primrec append_list :: "entry list \<Rightarrow> (wal_writer, wal_error, lsn list) sop" where
  "append_list [] = sret []"
| "append_list (e # es) =
     (case e of (xid, ty, pn, d) \<Rightarrow>
        sbind (wal_append xid ty pn d) (\<lambda>l. sbind (append_list es) (\<lambda>ls. sret (l # ls))))"

definition entry_of :: "wal_record \<Rightarrow> entry" where
  "entry_of r = (r_xid r, r_type r, r_page_no r, r_data r)"

lemma entry_of_appended [simp]: "entry_of (appended w xid ty pn d) = (xid, ty, pn, d)"
  by (simp add: entry_of_def appended_def)

lemma appended_sel [simp]:
  "r_lsn (appended w xid ty pn d) = w_lsn w + 1" "r_prev_lsn (appended w xid ty pn d) = w_prev w"
  "r_data (appended w xid ty pn d) = d"
  by (simp_all add: appended_def)

text \<open>Each record points to the one before it.\<close>

fun linked :: "lsn \<Rightarrow> wal_record list \<Rightarrow> bool" where
  "linked prev [] \<longleftrightarrow> True"
| "linked prev (r # rs) \<longleftrightarrow> r_prev_lsn r = prev \<and> linked (r_lsn r) rs"

lemma steps_collect: "steps (\<lambda>rec rs. (Ok (), rs @ [rec])) xs acc = (Ok (), acc @ xs)"
  by (induction xs arbitrary: acc) (simp_all add: sbind_def)

lemma read_all_log:
  assumes "holds_log d cs"
  obtains r where "WalReader_open d INVALID_LSN = Ok r" and "read_all r = (Ok (), log_records cs)"
proof (rule reader_from_start [OF assms])
  fix r assume r: "WalReader_open d INVALID_LSN = Ok r"
    and "\<And>f (s :: wal_record list). replay f r s = steps f (log_records cs) s"
  then have "read_all r = (Ok (), log_records cs)" by (simp add: read_all_def steps_collect)
  with r show thesis by (rule that)
qed

lemma append_list_law:
  assumes "wal_inv cs w" and "unat (w_segment w) + length es < 2 ^ 64 - 1"
    and "length (log_records cs) + length es < 2 ^ 64" and "\<forall>(x, ty, pn, d) \<in> set es. 37 + length d < 2 ^ 32"
  obtains cs' w' rs where "append_list es w = (Ok (map r_lsn rs), w')" and "wal_inv cs' w'"
    and "log_records cs' = log_records cs @ rs" and "map entry_of rs = es" and "linked (w_prev w) rs"
    and "w_prev w' = (if rs = [] then w_prev w else r_lsn (last rs))"
    and "unat (w_segment w') \<le> unat (w_segment w) + length es"
  using assms
proof (induction es arbitrary: cs w thesis)
  case Nil
  show ?case by (rule Nil.prems(1) [of "[]" w cs]) (use Nil.prems(2) in simp_all)
next
  case (Cons e es)
  obtain xid ty pn d where e: "e = (xid, ty, pn, d)" by (cases e)
  have pre: "w_segment w \<noteq> - 1" "Suc (length (log_records cs)) < 2 ^ 64" "37 + length d < 2 ^ 32"
    using Cons.prems e by (auto simp: unsigned_minus_1_eq_mask mask_eq_exp_minus_1)
  let ?r = "appended w xid ty pn d"
  obtain cs1 w1 where 1: "append_inner xid ty pn d w = (Ok (w_lsn w + 1), w1)" "wal_inv cs1 w1"
    "log_records cs1 = log_records cs @ [?r]" "w_prev w1 = w_lsn w + 1"
    "unat (w_segment w1) \<le> Suc (unat (w_segment w))"
    by (rule append_law [OF Cons.prems(2) pre])
  have "unat (w_segment w1) + length es < 2 ^ 64 - 1" using 1(5) Cons.prems(3) by simp
  moreover have "length (log_records cs1) + length es < 2 ^ 64" using 1(3) Cons.prems(4) by simp
  ultimately obtain cs' w' rs where 2: "append_list es w1 = (Ok (map r_lsn rs), w')" "wal_inv cs' w'"
    "log_records cs' = log_records cs1 @ rs" "map entry_of rs = es" "linked (w_prev w1) rs"
    "w_prev w' = (if rs = [] then w_prev w1 else r_lsn (last rs))"
    "unat (w_segment w') \<le> unat (w_segment w1) + length es"
    using Cons.IH [OF _ 1(2)] Cons.prems(5) by auto
  show ?case
    by (rule Cons.prems(1) [of "?r # rs" w' cs'])
      (use 1 2 in \<open>simp_all add: e wal_append_def\<close>)
qed

text \<open>A crash keeps a prefix of the current segment.\<close>

definition crash :: "nat \<Rightarrow> wal_writer \<Rightarrow> dir" where
  "crash k w = AList.update (w_file w)
     (take k (case map_of (w_dir w) (w_file w) of Some c \<Rightarrow> c | None \<Rightarrow> [])) (w_dir w)"

lemma cut_records:
  assumes "\<forall>r \<in> set rs. record_fits r" and "k \<le> length (concat (map wal_encode rs))"
  shows "\<exists>n t. n \<le> length rs \<and> torn t \<and> take k (concat (map wal_encode rs)) = concat (map wal_encode (take n rs)) @ t
    \<and> (n < length rs \<longrightarrow> k < length (concat (map wal_encode (take (Suc n) rs))))"
  using assms
proof (induction rs arbitrary: k)
  case Nil
  then show ?case by (auto intro!: exI [of _ "[]"])
next
  case (Cons r rs)
  let ?e = "wal_encode r"
  show ?case
  proof (cases "k < length ?e")
    case True
    then have "torn (take k ?e)" using Cons.prems(1) by (simp add: torn_take)
    with True show ?thesis by (intro exI [of _ 0] exI [of _ "take k ?e"]) simp
  next
    case False
    then obtain n t where "n \<le> length rs" "torn t"
      "take (k - length ?e) (concat (map wal_encode rs)) = concat (map wal_encode (take n rs)) @ t"
      "n < length rs \<longrightarrow> k - length ?e < length (concat (map wal_encode (take (Suc n) rs)))"
    proof -
      have "k - length ?e \<le> length (concat (map wal_encode rs))" using Cons.prems(2) by auto
      from Cons.IH [OF _ this] Cons.prems(1) that show thesis by auto
    qed
    with False show ?thesis by (intro exI [of _ "Suc n"] exI [of _ t]) (auto simp del: length_wal_encode)
  qed
qed

lemma crash_law:
  assumes inv: "wal_inv (cs @ [c]) w" and k: "k \<le> w_pos w"
  obtains n t where "holds_log (crash k w) (cs @ [(fst c, take n (chunk_records c), t)])"
    and "n \<le> length (chunk_records c)" and "torn t"
    and "n < length (chunk_records c) \<longrightarrow> k < length (concat (map wal_encode (take (Suc n) (chunk_records c))))"
proof -
  have c: "snd (snd c) = []" "holds_log (w_dir w) (cs @ [c])" "w_file w = segment_filename (fst c)"
    "w_pos w = length (chunk_bytes c)" using inv by (auto simp: wal_inv_def)
  have m: "map_of (w_dir w) (segment_filename (fst c)) = Some (chunk_bytes c)"
    using holds_logD(3) [OF c(2), of c] by simp
  have "\<forall>r \<in> set (chunk_records c). record_fits r" using holds_logD(4) [OF c(2), of c] by (simp add: chunk_ok_def)
  moreover have "k \<le> length (concat (map wal_encode (chunk_records c)))"
    using k c(1,4) by (simp add: chunk_bytes_def)
  ultimately obtain n t where n: "n \<le> length (chunk_records c)" "torn t"
    "take k (concat (map wal_encode (chunk_records c))) = concat (map wal_encode (take n (chunk_records c))) @ t"
    "n < length (chunk_records c) \<longrightarrow> k < length (concat (map wal_encode (take (Suc n) (chunk_records c))))"
    using cut_records by blast
  let ?c = "(fst c, take n (chunk_records c), t)"
  have "take k (chunk_bytes c) = chunk_bytes ?c" using n(3) c(1) by (simp add: chunk_bytes_def chunk_records_def)
  then have cr: "crash k w = AList.update (segment_filename (fst c)) (chunk_bytes ?c) (w_dir w)"
    by (simp add: crash_def c(3) m)
  have "chunk_ok ?c" using holds_logD(4) [OF c(2), of c] n(2) by (auto simp: chunk_ok_def chunk_records_def dest: in_set_takeD)
  then have "holds_log (crash k w) (cs @ [?c])"
    using c(2) dir_holds_update [of "w_dir w" "map (\<lambda>c. (fst c, chunk_bytes c)) cs" "fst c" "chunk_bytes c" "chunk_bytes ?c"]
    by (simp add: holds_log_def cr)
  then show ?thesis using that n by blast
qed

section \<open>Properties\<close>

text \<open>
  \<^bold>\<open>C32.\<close> The log reads back. Appending any batch of entries succeeds, rotating segments as needed, and
  returns consecutive sequence numbers; a reader opened on the directory then delivers every earlier record
  and after them the batch, in order and unchanged, each new record pointing back to its predecessor.
\<close>

theorem wal_append_then_read:
  assumes "wal_inv cs w" and "unat (w_segment w) + length es < 2 ^ 64 - 1"
    and "length (log_records cs) + length es < 2 ^ 64" and "\<forall>(x, ty, pn, d) \<in> set es. 37 + length d < 2 ^ 32"
  shows "\<exists>rs w' r. append_list es w = (Ok (map r_lsn rs), w') \<and> map entry_of rs = es
    \<and> WalReader_open (w_dir w') INVALID_LSN = Ok r \<and> read_all r = (Ok (), log_records cs @ rs)
    \<and> map r_lsn (log_records cs @ rs) = map of_nat [1..<Suc (length (log_records cs) + length es)]
    \<and> linked (w_prev w) rs"
proof -
  obtain cs' w' rs where a: "append_list es w = (Ok (map r_lsn rs), w')" "wal_inv cs' w'"
    "log_records cs' = log_records cs @ rs" "map entry_of rs = es" "linked (w_prev w) rs"
    by (rule append_list_law [OF assms])
  have "holds_log (w_dir w') cs'" using a(2) by (simp add: wal_inv_def)
  then obtain r where r: "WalReader_open (w_dir w') INVALID_LSN = Ok r" "read_all r = (Ok (), log_records cs')"
    by (rule read_all_log)
  have "length rs = length es" using a(4) by auto
  then have "map r_lsn (log_records cs @ rs) = map of_nat [1..<Suc (length (log_records cs) + length es)]"
    using a(2,3) by (simp add: wal_inv_def numbered_def del: upt_Suc)
  with a r show ?thesis by auto
qed

lemma fresh_writer:
  obtains w where "WalWriter_open [] (\<lambda>_. 0) = Ok w" "wal_inv [(1, [], [])] w" "w_prev w = 0" "w_segment w = 1"
    "w_synced w = (\<lambda>_. 0)" "w_segment_size w = DEFAULT_SEGMENT_SIZE"
  by (rule open_fresh [of "[]" "\<lambda>_. 0"]) (auto simp: list_segments_def map_filter_def)

theorem wal_append_then_read_witness:
  "\<exists>w rs w' r. WalWriter_open [] (\<lambda>_. 0) = Ok w
     \<and> append_list [(9, Insert, 3, [1, 2]), (9, Commit, 0, [])] w = (Ok [1, 2], w')
     \<and> WalReader_open (w_dir w') INVALID_LSN = Ok r \<and> read_all r = (Ok (), rs)
     \<and> map entry_of rs = [(9, Insert, 3, [1, 2]), (9, Commit, 0, [])] \<and> linked 0 rs"
proof -
  obtain w where w: "WalWriter_open [] (\<lambda>_. 0) = Ok w" "wal_inv [(1, [], [])] w" "w_prev w = 0" "w_segment w = 1"
    by (rule fresh_writer)
  define es where "es = [(9 :: u32, Insert, 3 :: u32, [1 :: byte, 2]), (9, Commit, 0, [])]"
  have none: "log_records [(1, [], [])] = []" by (simp add: chunk_records_def)
  have pre: "unat (w_segment w) + length es < 2 ^ 64 - 1" "length (log_records [(1, [], [])]) + length es < 2 ^ 64"
    "\<forall>(x, ty, pn, d) \<in> set es. 37 + length d < 2 ^ 32"
    using w none by (simp_all add: es_def)
  have two: "map of_nat [1..<Suc (0 + length es)] = [1, 2 :: u64]" by (simp add: es_def)
  from wal_append_then_read [OF w(2) pre] show ?thesis
    unfolding none append_Nil list.size two using w unfolding es_def [symmetric] by metis
qed

text \<open>
  \<^bold>\<open>C33.\<close> A crash that leaves any prefix of the current segment is survived: the reader reports no error
  and delivers exactly the records that are complete in the surviving bytes, a prefix of the log.
\<close>

theorem wal_torn_tail_is_prefix:
  assumes "wal_inv (cs @ [c]) w" and "k \<le> w_pos w"
  shows "\<exists>n r. n \<le> length (chunk_records c)
    \<and> WalReader_open (crash k w) INVALID_LSN = Ok r
    \<and> read_all r = (Ok (), log_records cs @ take n (chunk_records c))
    \<and> (n < length (chunk_records c) \<longrightarrow> k < length (concat (map wal_encode (take (Suc n) (chunk_records c)))))"
proof -
  obtain n t where n: "holds_log (crash k w) (cs @ [(fst c, take n (chunk_records c), t)])"
    "n \<le> length (chunk_records c)"
    "n < length (chunk_records c) \<longrightarrow> k < length (concat (map wal_encode (take (Suc n) (chunk_records c))))"
    by (rule crash_law [OF assms])
  obtain r where "WalReader_open (crash k w) INVALID_LSN = Ok r"
    "read_all r = (Ok (), log_records (cs @ [(fst c, take n (chunk_records c), t)]))"
    by (rule read_all_log [OF n(1)])
  with n(2,3) show ?thesis by (auto simp: chunk_records_def)
qed

theorem wal_torn_tail_is_prefix_witness:
  "\<exists>w r. WalWriter_open [] (\<lambda>_. 0) = Ok w \<and> WalReader_open (crash 0 w) INVALID_LSN = Ok r \<and> read_all r = (Ok (), [])"
proof -
  obtain w where w: "WalWriter_open [] (\<lambda>_. 0) = Ok w" "wal_inv ([] @ [(1, [], [])]) w" using fresh_writer by auto
  from wal_torn_tail_is_prefix [OF w(2), of 0] w(1) show ?thesis by (auto simp: chunk_records_def)
qed

text \<open>
  Opening at a nonzero sequence number delivers exactly the records at or after it, wherever the
  segment boundaries lie.
\<close>

theorem wal_open_at_lsn:
  assumes "wal_inv cs w" and "start \<noteq> INVALID_LSN"
  shows "\<exists>r. WalReader_open (w_dir w) start = Ok r
    \<and> read_all r = (Ok (), filter (\<lambda>x. start \<le> r_lsn x) (log_records cs))"
proof (rule reader_from_lsn [OF _ _ assms(2)])
  show "holds_log (w_dir w) cs" using assms(1) by (simp add: wal_inv_def)
  show "ascending (log_records cs)" using assms(1) by (simp add: wal_inv_def numbered_ascending)
  fix r assume "WalReader_open (w_dir w) start = Ok r"
    and "\<And>f (s :: wal_record list). replay f r s = steps f (filter (\<lambda>x. start \<le> r_lsn x) (log_records cs)) s"
  then show ?thesis by (simp add: read_all_def steps_collect)
qed

theorem wal_open_at_lsn_witness:
  "\<exists>w r. WalWriter_open [] (\<lambda>_. 0) = Ok w \<and> WalReader_open (w_dir w) 5 = Ok r \<and> read_all r = (Ok (), [])"
proof -
  obtain w where "WalWriter_open [] (\<lambda>_. 0) = Ok w" "wal_inv [(1, [], [])] w" by (rule fresh_writer)
  with wal_open_at_lsn [of "[(1, [], [])]" w 5] show ?thesis by (auto simp: chunk_records_def)
qed

text \<open>
  Opening a log whose last record was torn by a crash does not cut the torn bytes off; new
  records are written behind them. As long as the new record does not fill up the announced length of the
  torn one (a commit of 37 bytes behind a torn page image of 8229, say), \<open>append_and_flush\<close> reports
  success and yet no reader will ever deliver the record: a committed transaction is lost silently.
\<close>

theorem wal_append_behind_torn_record_is_lost:
  assumes "holds_log d (cs @ [(n, rs, take k (wal_encode r))])" and "record_fits r" and "4 \<le> k"
    and "k + (37 + length data) < length (wal_encode r)"
    and "length (chunk_bytes (n, rs, take k (wal_encode r))) < 16777216"
  shows "\<exists>w l w' rd. WalWriter_open d sy = Ok w \<and> append_and_flush xid ty pn data w = (Ok l, w')
    \<and> WalReader_open (w_dir w') INVALID_LSN = Ok rd \<and> read_all rd = (Ok (), log_records cs @ rs)"
proof -
  let ?t = "take k (wal_encode r)"
  let ?c = "(n, rs, ?t)"
  obtain w where w: "WalWriter_open d sy = Ok w" "w_dir w = d" "w_segment w = n"
    "w_file w = segment_filename n" "w_pos w = length (chunk_bytes ?c)" "w_segment_size w = DEFAULT_SEGMENT_SIZE"
    using open_existing [OF assms(1)] by (metis fst_conv)
  let ?e = "wal_encode (appended w xid ty pn data)"
  let ?c' = "(n, rs, ?t @ ?e)"
  have m: "map_of d (segment_filename n) = Some (chunk_bytes ?c)"
    using holds_logD(3) [OF assms(1), of ?c] by simp
  have fw: "chunk_bytes ?c @ ?e = chunk_bytes ?c'"
    by (simp add: chunk_bytes_def chunk_records_def)
  let ?d = "AList.update (segment_filename n) (chunk_bytes ?c') d"
  obtain w' where run: "append_and_flush xid ty pn data w = (Ok (w_lsn w + 1), w')" and d': "w_dir w' = ?d"
    using w assms(5) m fw
    by (simp add: append_and_flush_def append_inner_def rotate_segment_if_needed_def wal_write_all_def
        wal_flush_def Let_def appended_def)
  have "torn (?t @ ?e)"
    using assms(2-4) by (auto simp: torn_def min_def intro!: exI [of _ r])
  then have "holds_log ?d (cs @ [?c'])"
    using assms(1) dir_holds_update [of d "map (\<lambda>c. (fst c, chunk_bytes c)) cs" n "chunk_bytes ?c" "chunk_bytes ?c'"]
    by (auto simp: holds_log_def chunk_ok_def chunk_records_def)
  then obtain rd where "WalReader_open ?d INVALID_LSN = Ok rd" "read_all rd = (Ok (), log_records (cs @ [?c']))"
    by (rule read_all_log)
  with w(1) run d' show ?thesis by (auto simp: chunk_records_def)
qed

definition torn_dir :: dir where
  "torn_dir = [(segment_filename 1, take 4 (wal_encode (WalRecord_new 1 PageImage 0 (replicate 100 0))))]"

lemma torn_dir_holds:
  "holds_log torn_dir ([] @ [(1, [], take 4 (wal_encode (WalRecord_new 1 PageImage 0 (replicate 100 0))))])"
proof -
  let ?r = "WalRecord_new 1 PageImage 0 (replicate 100 0)"
  have "record_fits ?r" by (simp add: record_fits_def WalRecord_new_def)
  then have "torn (take 4 (wal_encode ?r))" by (rule torn_take) simp
  moreover have "list_segments torn_dir = [1]"
    by (simp add: list_segments_def torn_dir_def map_filter_def)
  ultimately show ?thesis
    by (simp add: holds_log_def dir_holds_def chunk_ok_def chunk_records_def chunk_bytes_def torn_dir_def)
qed

theorem wal_append_behind_torn_record_is_lost_witness:
  "\<exists>w l w' rd. WalWriter_open torn_dir (\<lambda>_. 0) = Ok w \<and> append_and_flush 1 Commit 0 [] w = (Ok l, w')
     \<and> WalReader_open (w_dir w') INVALID_LSN = Ok rd \<and> read_all rd = (Ok (), [])"
  using wal_append_behind_torn_record_is_lost [OF torn_dir_holds, of "[]" "\<lambda>_. 0" 1 Commit 0]
  by (simp add: record_fits_def chunk_bytes_def chunk_records_def WalRecord_new_def)

text \<open>
  Reopening a log keeps its records and continues its numbering, but not its chain of back
  pointers: the writer resumes with the second highest sequence number as predecessor, so the first record
  appended after a restart skips the record before it.
\<close>

theorem wal_reopen_skips_a_link:
  assumes "wal_inv cs w" and "2 \<le> length (log_records cs)"
  shows "\<exists>w'. WalWriter_open (w_dir w) sy = Ok w' \<and> wal_inv cs w' \<and> w_lsn w' = w_lsn w
    \<and> w_prev w' = w_lsn w' - 1 \<and> w_prev w' \<noteq> w_lsn w'"
proof -
  let ?rs = "log_records cs"
  let ?n = "length ?rs"
  obtain w' where w': "WalWriter_open (w_dir w) sy = Ok w'" "wal_inv cs w'" "w_lsn w' = w_lsn w"
    "w_prev w' = (let rs = ?rs in if length rs < 2 then 0 else r_lsn (rs ! (length rs - 2)))"
    by (rule reopen_inv [OF assms(1)])
  have num: "numbered ?rs" and l: "w_lsn w = of_nat ?n" using assms(1) by (simp_all add: wal_inv_def)
  have "r_lsn (?rs ! (?n - 2)) = map r_lsn ?rs ! (?n - 2)" using assms(2) by simp
  also have "\<dots> = of_nat (?n - 1)"
    using num assms(2) unfolding numbered_def by (simp add: Suc_diff_Suc numeral_2_eq_2 del: upt_Suc)
  finally have p: "w_prev w' = of_nat (?n - 1)" using w'(4) assms(2) by simp
  have "(of_nat (?n - 1) :: u64) = of_nat ?n - 1" using assms(2) by simp
  with w' p l show ?thesis by auto
qed

theorem wal_reopen_skips_a_link_witness:
  "\<exists>cs w w'. wal_inv cs w \<and> length (log_records cs) = 2
     \<and> WalWriter_open (w_dir w) (\<lambda>_. 0) = Ok w' \<and> w_lsn w' = 2 \<and> w_prev w' = 1"
proof -
  obtain w where w: "wal_inv [(1, [], [])] w" "w_segment w = 1" by (rule fresh_writer)
  define es where "es = [(9 :: u32, Insert, 3 :: u32, [1 :: byte, 2]), (9, Commit, 0, [])]"
  have pre: "unat (w_segment w) + length es < 2 ^ 64 - 1" "length (log_records [(1, [], [])]) + length es < 2 ^ 64"
    "\<forall>(x, ty, pn, d) \<in> set es. 37 + length d < 2 ^ 32"
    using w by (simp_all add: es_def chunk_records_def)
  obtain cs2 w2 rs where 2: "wal_inv cs2 w2" "log_records cs2 = log_records [(1, [], [])] @ rs" "map entry_of rs = es"
    by (rule append_list_law [OF w(1) pre])
  have "length rs = 2" using 2(3) by (auto simp: es_def dest: arg_cong [of _ _ length])
  then have n: "length (log_records cs2) = 2" using 2(2) by (simp add: chunk_records_def)
  have "w_lsn w2 = 2" using 2(1) n by (simp add: wal_inv_def)
  with n wal_reopen_skips_a_link [OF 2(1), of "\<lambda>_. 0"]
  have "\<exists>w'. WalWriter_open (w_dir w2) (\<lambda>_. 0) = Ok w' \<and> w_lsn w' = 2 \<and> w_prev w' = 1" by auto
  with 2(1) n show ?thesis by blast
qed

text \<open>
  When the current segment is full, \<open>append_and_flush\<close> starts a new one and makes only the new
  one durable: whatever part of the old segment had not been synchronised stays so, although records written
  after it (a commit, say) are reported as durable.
\<close>

theorem wal_rotation_leaves_old_segment_unsynced:
  assumes "unat (w_segment_size w) \<le> w_pos w" and "w_file w = segment_filename (w_segment w)"
  shows "\<exists>l w'. append_and_flush xid ty pn d w = (Ok l, w') \<and> w_file w' \<noteq> w_file w
    \<and> w_synced w' (w_file w) = w_synced w (w_file w)
    \<and> w_synced w' (w_file w') = file_len (w_dir w') (w_file w')"
proof -
  let ?f = "segment_filename (w_segment w + 1)"
  obtain c where c: "map_of (dir_create ?f (w_dir w)) ?f = Some c"
    by (cases "map_of (w_dir w) ?f") (simp_all add: dir_create_def update_conv')
  have "?f \<noteq> w_file w" using assms(2) by (simp add: segment_filename_inj)
  then show ?thesis
    using assms(1) c
    by (simp add: append_and_flush_def append_inner_def rotate_segment_if_needed_def wal_write_all_def
        wal_flush_def Let_def file_len_def)
qed

theorem wal_rotation_leaves_old_segment_unsynced_witness:
  "\<exists>w l w'. open_with_segment_size [] (\<lambda>_. 0) 0 = Ok w \<and> append_and_flush 1 Commit 0 [] w = (Ok l, w')
     \<and> w_file w' \<noteq> w_file w"
proof -
  obtain w where w: "WalWriter_open [] (\<lambda>_. 0) = Ok w" "wal_inv [(1, [], [])] w" by (rule fresh_writer)
  let ?w = "w\<lparr>w_segment_size := 0\<rparr>"
  have "w_file ?w = segment_filename (w_segment ?w)" using w(2) by (simp add: wal_inv_def)
  from wal_rotation_leaves_old_segment_unsynced [OF _ this, of 1 Commit 0 "[]"] w(1) show ?thesis
    by (auto simp: open_with_segment_size_def)
qed

end
