(* ===== verification/Txn_Core.thy ===== *)
theory Txn_Core
  imports Wal_Log
begin

text \<open>
  The parts of the transaction layer below its manager: \<^verbatim>\<open>txn/src/xid.rs\<close>,
  \<^verbatim>\<open>txn/src/error.rs\<close>, \<^verbatim>\<open>txn/src/transaction.rs\<close>, \<^verbatim>\<open>txn/src/snapshot.rs\<close>,
  \<^verbatim>\<open>txn/src/visibility.rs\<close> and \<^verbatim>\<open>txn/src/lock.rs\<close>. Hash sets are sets, hash maps that are
  iterated or searched are association lists with distinct keys.
\<close>

section \<open>Definitions\<close>

type_synonym xid = u32

abbreviation (input) INVALID_XID :: xid where "INVALID_XID \<equiv> 0"
abbreviation (input) FROZEN_XID :: xid where "FROZEN_XID \<equiv> 2"

datatype txn_error =
    NotFound xid
  | NotActive xid
  | WriteWriteConflict xid
  | Deadlock xid xid
  | SerializationFailure
  | TxnStorage storage_error
  | TxnWal wal_error

text \<open>The process-wide counter \<^verbatim>\<open>NEXT_XID\<close> is passed as a value.\<close>

definition allocate_xid :: "xid \<Rightarrow> xid \<times> xid" where
  "allocate_xid next = (next, next + 1)"

definition advance_next_xid :: "xid \<Rightarrow> xid \<Rightarrow> xid" where
  "advance_next_xid min_val current = (if current \<ge> min_val then current else min_val)"

datatype transaction_state = Active | Committed | Aborted

datatype isolation_level = ReadCommitted | RepeatableRead | Serializable

record snapshot =
  s_xmin :: xid
  s_xmax :: xid
  in_progress :: "xid set"

definition xid_is_visible :: "snapshot \<Rightarrow> xid \<Rightarrow> bool" where
  "xid_is_visible s x =
     (if x = INVALID_XID then False
      else if x < s_xmin s then True
      else if x \<ge> s_xmax s then False
      else x \<notin> in_progress s)"

definition is_tuple_visible :: "tuple_header \<Rightarrow> snapshot \<Rightarrow> xid set \<Rightarrow> bool" where
  "is_tuple_visible h s committed =
     (if t_xmin h \<notin> committed then False
      else if \<not> xid_is_visible s (t_xmin h) then False
      else if t_xmax h = INVALID_XID then True
      else if t_xmax h \<in> committed \<and> xid_is_visible s (t_xmax h) then False
      else True)"

type_synonym tuple_key = "u32 \<times> u16"

record transaction =
  tx_xid :: xid
  tx_state :: transaction_state
  tx_isolation :: isolation_level
  tx_snapshot :: "snapshot option"
  tx_wal_lsns :: "lsn list"
  tx_command_id :: u32
  read_set :: "tuple_key set"
  write_set :: "tuple_key set"

definition Transaction_new :: "xid \<Rightarrow> isolation_level \<Rightarrow> transaction" where
  "Transaction_new x lvl = \<lparr>tx_xid = x, tx_state = Active, tx_isolation = lvl, tx_snapshot = None,
     tx_wal_lsns = [], tx_command_id = 0, read_set = {}, write_set = {}\<rparr>"

section \<open>Write locks\<close>

record lock_state =
  write_locks :: "(tuple_key \<times> xid) list"
  wait_for :: "(xid \<times> xid) list"

definition LockManager_new :: lock_state where
  "LockManager_new = \<lparr>write_locks = [], wait_for = []\<rparr>"

text \<open>The walk along \<^verbatim>\<open>wait_for\<close>; a cycle that avoids the caller would never end.\<close>

partial_function (option) wait_walk :: "(xid \<times> xid) list \<Rightarrow> xid \<Rightarrow> xid \<Rightarrow> bool option" where
  "wait_walk waits x current =
     (case map_of waits current of
        Some next \<Rightarrow> if next = x then Some True else wait_walk waits x next
      | None \<Rightarrow> Some False)"

definition acquire_write_lock :: "xid \<Rightarrow> tid \<Rightarrow> lock_state \<Rightarrow> ((txn_error, unit) outcome \<times> lock_state) option" where
  "acquire_write_lock x t s =
     (let key = (page_no t, slot t);
          grant = Some (Ok (), s\<lparr>write_locks := AList.update key x (write_locks s)\<rparr>) in
      case map_of (write_locks s) key of
        Some holder \<Rightarrow>
          if holder \<noteq> x
          then let s1 = s\<lparr>wait_for := AList.update x holder (wait_for s)\<rparr> in
            (case wait_walk (wait_for s1) x holder of
               None \<Rightarrow> None
             | Some cycle \<Rightarrow>
                 Some (Err (if cycle then Deadlock x holder else WriteWriteConflict holder),
                       s1\<lparr>wait_for := AList.delete x (wait_for s1)\<rparr>))
          else grant
      | None \<Rightarrow> grant)"

definition release_all :: "xid \<Rightarrow> lock_state \<Rightarrow> lock_state" where
  "release_all x s = s\<lparr>write_locks := filter (\<lambda>kv. snd kv \<noteq> x) (write_locks s),
                       wait_for := AList.delete x (wait_for s)\<rparr>"

section \<open>Laws of the lock manager\<close>

text \<open>
  Nobody ever waits: the entry a blocked caller makes is removed before the call returns, so between
  calls the wait graph is empty and the walk sees nothing but the caller's own entry.
\<close>

definition locks_inv :: "lock_state \<Rightarrow> bool" where
  "locks_inv s \<longleftrightarrow> wait_for s = [] \<and> distinct (map fst (write_locks s))"

lemma acquire_law:
  assumes "locks_inv s"
  shows "acquire_write_lock x t s =
    (case map_of (write_locks s) (page_no t, slot t) of
       Some holder \<Rightarrow>
         if holder = x then Some (Ok (), s\<lparr>write_locks := AList.update (page_no t, slot t) x (write_locks s)\<rparr>)
         else Some (Err (WriteWriteConflict holder), s)
     | None \<Rightarrow> Some (Ok (), s\<lparr>write_locks := AList.update (page_no t, slot t) x (write_locks s)\<rparr>))"
proof -
  have "wait_walk [(x, holder)] x holder = Some False" if "holder \<noteq> x" for holder
    using that by (simp add: wait_walk.simps)
  moreover have "s\<lparr>wait_for := []\<rparr> = s" using assms by (simp add: locks_inv_def)
  ultimately show ?thesis
    using assms by (auto simp: acquire_write_lock_def Let_def locks_inv_def split: option.splits)
qed

lemma acquire_inv:
  assumes "locks_inv s" and "acquire_write_lock x t s = Some (r, s')"
  shows "locks_inv s'"
  using assms by (auto simp: acquire_law locks_inv_def distinct_update split: option.splits if_splits)

lemma release_inv: "locks_inv s \<Longrightarrow> locks_inv (release_all x s)"
  by (auto simp: locks_inv_def release_all_def distinct_map_filter)

lemma release_law:
  assumes "locks_inv s"
  shows "map_of (write_locks (release_all x s)) k
    = (case map_of (write_locks s) k of Some h \<Rightarrow> if h = x then None else Some h | None \<Rightarrow> None)"
proof -
  have "distinct (map fst (write_locks s))" using assms by (simp add: locks_inv_def)
  then show ?thesis
  proof (induction "write_locks s" arbitrary: s)
    case Nil
    then show ?case by (simp add: release_all_def)
  next
    case (Cons kv kvs)
    have "map_of (filter (\<lambda>kv. snd kv \<noteq> x) kvs) k
        = (case map_of kvs k of Some h \<Rightarrow> if h = x then None else Some h | None \<Rightarrow> None)"
      using Cons.hyps(1) [of "s\<lparr>write_locks := kvs\<rparr>"] Cons.prems Cons.hyps(2) [symmetric]
      by (simp add: release_all_def)
    moreover have "map_of kvs k = None" if "fst kv = k"
      using Cons.prems Cons.hyps(2) [symmetric] that by (auto simp: map_of_eq_None_iff)
    ultimately show ?case
      unfolding release_all_def Cons.hyps(2) [symmetric] by (cases kv) auto
  qed
qed

section \<open>Properties\<close>

text \<open>
  \<^bold>\<open>C38.\<close> Write locks exclude each other. From a state the lock manager can be in, acquiring always
  returns: it grants a free lock and a lock already held by the caller, and reports the holder otherwise,
  changing nothing. Granting changes this lock only; releasing frees exactly the caller's locks. The
  documented \<open>Deadlock\<close> error never occurs.
\<close>

theorem write_locks_exclusive:
  assumes "locks_inv s"
  shows "\<exists>r s'. acquire_write_lock x t s = Some (r, s') \<and> locks_inv s' \<and> locks_inv (release_all x s)
    \<and> (let key = (page_no t, slot t); holder = map_of (write_locks s) key in
       (if holder = None \<or> holder = Some x
        then r = Ok () \<and> map_of (write_locks s') = (map_of (write_locks s))(key \<mapsto> x)
        else r = Err (WriteWriteConflict (the holder)) \<and> s' = s))
    \<and> (\<forall>k. map_of (write_locks (release_all x s)) k
          = (if map_of (write_locks s) k = Some x then None else map_of (write_locks s) k))"
proof -
  obtain r s' where run: "acquire_write_lock x t s = Some (r, s')"
    using acquire_law [OF assms, of x t] by (auto split: option.splits if_splits)
  have rel: "map_of (write_locks (release_all x s)) k
      = (if map_of (write_locks s) k = Some x then None else map_of (write_locks s) k)" for k
    by (simp add: release_law [OF assms] split: option.splits)
  show ?thesis
    using run acquire_law [OF assms, of x t] acquire_inv [OF assms run] release_inv [OF assms, of x] rel
    by (auto simp: update_conv' Let_def split: option.splits if_splits)
qed

definition one_lock :: lock_state where
  "one_lock = \<lparr>write_locks = [((0, 1), 7)], wait_for = []\<rparr>"

theorem write_locks_exclusive_witness:
  "acquire_write_lock 9 (TID_new 0 1) one_lock = Some (Err (WriteWriteConflict 7), one_lock)
     \<and> map_of (write_locks (release_all 7 one_lock)) (0, 1) = None"
proof -
  have "locks_inv one_lock" by (simp add: locks_inv_def one_lock_def)
  then show ?thesis
    using write_locks_exclusive [of one_lock 9 "TID_new 0 1"] write_locks_exclusive [of one_lock 7 "TID_new 0 1"]
    by (auto simp: one_lock_def TID_new_def Let_def)
qed

end
