(* ===== verification/Sql_Value.thy ===== *)
theory Sql_Value
  imports Sql_Type Catalog_Rows Txn_Core
begin

text \<open>
  Values, rows and their bytes: \<^verbatim>\<open>sql/src/value.rs\<close>, \<^verbatim>\<open>sql/src/row.rs\<close>, \<^verbatim>\<open>sql/src/codec.rs\<close>,
  \<^verbatim>\<open>sql/src/error.rs\<close> and \<^verbatim>\<open>catalog/src/schema.rs\<close>. A floating point number is its bits. Arrays go
  through a JSON library that is not part of the sources: \<open>array_codec\<close> stands for it. The messages of errors
  are left out.
\<close>

section \<open>Errors\<close>

datatype sql_error =
    ParseError | SqlTableNotFound rstring | SqlColumnNotFound rstring | TypeError | AmbiguousColumn rstring
  | ConstraintViolation | UniqueViolation | SqlStorage storage_error | SqlTxn txn_error | SqlCatalog catalog_error
  | SqlWal wal_error | NotImplemented | Execution | DivisionByZero | NumericOverflow

fun sqlstate :: "sql_error \<Rightarrow> string" where
  "sqlstate ParseError = ''42601''"
| "sqlstate (SqlTableNotFound t) = ''42P01''"
| "sqlstate (SqlColumnNotFound c) = ''42703''"
| "sqlstate (AmbiguousColumn c) = ''42702''"
| "sqlstate TypeError = ''42804''"
| "sqlstate ConstraintViolation = ''23000''"
| "sqlstate UniqueViolation = ''23505''"
| "sqlstate DivisionByZero = ''22012''"
| "sqlstate NumericOverflow = ''22003''"
| "sqlstate (SqlCatalog (DuplicateTable t)) = ''42P07''"
| "sqlstate (SqlCatalog e) = ''XX000''"
| "sqlstate (SqlStorage e) = ''XX000''"
| "sqlstate (SqlTxn SerializationFailure) = ''40001''"
| "sqlstate (SqlTxn e) = ''XX000''"
| "sqlstate (SqlWal e) = ''XX000''"
| "sqlstate NotImplemented = ''0A000''"
| "sqlstate Execution = ''XX000''"

section \<open>Values\<close>

datatype val =
    VNull
  | VBool bool
  | VInt4 u32
  | VInt8 u64
  | VFloat8 u64
  | VText rstring
  | VBytes "byte list"
  | VDate u32
  | VTimestamp u64
  | VNumeric rstring
  | VUuid rstring
  | VArray "val list"
  | VJson rstring

fun value_type :: "val \<Rightarrow> data_type option" where
  "value_type VNull = None"
| "value_type (VBool b) = Some TBoolean"
| "value_type (VInt4 v) = Some TInt4"
| "value_type (VInt8 v) = Some TInt8"
| "value_type (VFloat8 v) = Some TFloat8"
| "value_type (VText s) = Some TText"
| "value_type (VBytes b) = Some TBytea"
| "value_type (VDate d) = Some TDate"
| "value_type (VTimestamp t) = Some TTimestamp"
| "value_type (VNumeric s) = Some TNumeric"
| "value_type (VUuid s) = Some TUuid"
| "value_type (VArray []) = Some (TArray TText)"
| "value_type (VArray (v # vs)) = Some (TArray (case value_type v of Some t \<Rightarrow> t | None \<Rightarrow> TText))"
| "value_type (VJson s) = Some TJson"

text \<open>The JSON text of the elements of an array, and the elements a text stands for.\<close>

record array_codec =
  ser :: "val list \<Rightarrow> rstring"
  de :: "data_type \<Rightarrow> rstring \<Rightarrow> (sql_error, val list) outcome"

definition with_len :: "byte list \<Rightarrow> byte list" where
  "with_len bytes = u32_bytes (of_nat (length bytes)) @ bytes"

fun to_bytes :: "array_codec \<Rightarrow> val \<Rightarrow> byte list" where
  "to_bytes J VNull = []"
| "to_bytes J (VBool b) = [if b then 1 else 0]"
| "to_bytes J (VInt4 v) = u32_bytes v"
| "to_bytes J (VInt8 v) = u64_bytes v"
| "to_bytes J (VFloat8 v) = u64_bytes v"
| "to_bytes J (VText s) = with_len s"
| "to_bytes J (VNumeric s) = with_len s"
| "to_bytes J (VUuid s) = with_len s"
| "to_bytes J (VBytes b) = with_len b"
| "to_bytes J (VDate v) = u32_bytes v"
| "to_bytes J (VTimestamp v) = u64_bytes v"
| "to_bytes J (VArray vs) = with_len (ser J vs)"
| "to_bytes J (VJson s) = with_len s"

text \<open>The payload behind a length field.\<close>

definition take_len :: "byte list \<Rightarrow> (sql_error, byte list) outcome" where
  "take_len bytes =
     (if length bytes < 4 then Err TypeError
      else let len = unat (from_le_bytes (slice 0 4 bytes) :: u32) in
        if length bytes < 4 + len then Err TypeError else Ok (slice 4 len bytes))"

definition take_str :: "byte list \<Rightarrow> (sql_error, rstring) outcome" where
  "take_str bytes = obind (take_len bytes) (\<lambda>s. if utf8_ok s then Ok s else Err TypeError)"

fun from_bytes :: "array_codec \<Rightarrow> byte list \<Rightarrow> data_type \<Rightarrow> (sql_error, val) outcome" where
  "from_bytes J bytes TBoolean = (if bytes = [] then Err TypeError else Ok (VBool (bytes ! 0 \<noteq> 0)))"
| "from_bytes J bytes TInt4 = (if length bytes < 4 then Err TypeError else Ok (VInt4 (from_le_bytes (slice 0 4 bytes))))"
| "from_bytes J bytes TInt8 = (if length bytes < 8 then Err TypeError else Ok (VInt8 (from_le_bytes (slice 0 8 bytes))))"
| "from_bytes J bytes TFloat8 = (if length bytes < 8 then Err TypeError else Ok (VFloat8 (from_le_bytes (slice 0 8 bytes))))"
| "from_bytes J bytes TText = obind (take_str bytes) (\<lambda>s. Ok (VText s))"
| "from_bytes J bytes (TVarChar n) = obind (take_str bytes) (\<lambda>s. Ok (VText s))"
| "from_bytes J bytes TBytea = obind (take_len bytes) (\<lambda>b. Ok (VBytes b))"
| "from_bytes J bytes TDate = (if length bytes < 4 then Err TypeError else Ok (VDate (from_le_bytes (slice 0 4 bytes))))"
| "from_bytes J bytes TTimestamp = (if length bytes < 8 then Err TypeError else Ok (VTimestamp (from_le_bytes (slice 0 8 bytes))))"
| "from_bytes J bytes TTimestampTz = (if length bytes < 8 then Err TypeError else Ok (VTimestamp (from_le_bytes (slice 0 8 bytes))))"
| "from_bytes J bytes TNumeric = obind (take_str bytes) (\<lambda>s. Ok (VNumeric s))"
| "from_bytes J bytes TUuid = obind (take_str bytes) (\<lambda>s. Ok (VUuid s))"
| "from_bytes J bytes (TArray t) = obind (take_str bytes) (\<lambda>s. obind (de J t s) (\<lambda>vs. Ok (VArray vs)))"
| "from_bytes J bytes TJson = obind (take_str bytes) (\<lambda>s. Ok (VJson s))"
| "from_bytes J bytes TJsonb = obind (take_str bytes) (\<lambda>s. Ok (VJson s))"

section \<open>Rows\<close>

datatype fk_action = NoAction | Cascade | SetNull | SetDefault | Restrict

record foreign_key =
  ref_table :: rstring
  ref_col :: rstring
  on_delete :: fk_action

record table_foreign_key =
  local_col :: rstring
  tfk_table :: rstring
  tfk_col :: rstring
  tfk_on_delete :: fk_action
  tfk_on_update :: fk_action

record check_constraint =
  check_name :: "rstring option"
  check_expr :: rstring

record column_def =
  col_name :: rstring
  col_type :: data_type
  not_null :: bool
  has_default :: bool
  default_expr :: "rstring option"
  col_attnum :: u16
  serial :: bool
  references :: "foreign_key option"

record table_schema =
  ts_oid :: u32
  ts_name :: rstring
  namespace_oid :: u32
  columns :: "column_def list"
  foreign_keys :: "table_foreign_key list"
  check_constraints :: "check_constraint list"

definition column_by_name :: "table_schema \<Rightarrow> rstring \<Rightarrow> column_def option" where
  "column_by_name s name = find (\<lambda>c. col_name c = name) (columns s)"

definition column_by_attnum :: "table_schema \<Rightarrow> u16 \<Rightarrow> column_def option" where
  "column_by_attnum s n = find (\<lambda>c. col_attnum c = n) (columns s)"

record row =
  row_values :: "val list"
  row_schema :: "(rstring \<times> data_type) list"

definition row_get_by_idx :: "row \<Rightarrow> nat \<Rightarrow> val option" where
  "row_get_by_idx r i = (if i < length (row_values r) then Some (row_values r ! i) else None)"

definition position :: "('a \<Rightarrow> bool) \<Rightarrow> 'a list \<Rightarrow> nat option" where
  "position P xs = find (\<lambda>i. P (xs ! i)) [0..<length xs]"

definition ends_with :: "rstring \<Rightarrow> rstring \<Rightarrow> bool" where
  "ends_with s suf \<longleftrightarrow> length suf \<le> length s \<and> drop (length s - length suf) s = suf"

definition row_get :: "row \<Rightarrow> rstring \<Rightarrow> val option" where
  "row_get r name =
     (case position (\<lambda>c. fst c = name) (row_schema r) of
        Some i \<Rightarrow> row_get_by_idx r i
      | None \<Rightarrow>
          if 46 \<notin> set name
          then (case filter (\<lambda>i. ends_with (fst (row_schema r ! i)) (46 # name)) [0..<length (row_schema r)] of
                  [i] \<Rightarrow> row_get_by_idx r i
                | _ \<Rightarrow> None)
          else None)"

text \<open>The loop of \<^verbatim>\<open>encode_row\<close>, from column \<open>i\<close> on.\<close>

primrec encode_values :: "array_codec \<Rightarrow> val list \<Rightarrow> nat \<Rightarrow> byte list \<Rightarrow> u32 \<Rightarrow> byte list \<times> u32" where
  "encode_values J [] i data bitmap = (data, bitmap)"
| "encode_values J (v # vs) i data bitmap =
     (if v = VNull
      then encode_values J vs (Suc i) data (if i < 32 then bitmap OR push_bit i 1 else bitmap)
      else encode_values J vs (Suc i) (data @ to_bytes J v) bitmap)"

definition encode_row :: "array_codec \<Rightarrow> row \<Rightarrow> byte list \<times> u32" where
  "encode_row J r = encode_values J (row_values r) 0 [] 0"

text \<open>One column: its value and the offset behind it. A column behind the end of the data was added after the
  tuple was written and is \<open>VNull\<close>.\<close>

definition decode_fixed :: "array_codec \<Rightarrow> nat \<Rightarrow> byte list \<Rightarrow> nat \<Rightarrow> data_type \<Rightarrow> (sql_error, val \<times> nat) outcome" where
  "decode_fixed J n data offset ty =
     (if length data < offset + n then Ok (VNull, offset)
      else obind (from_bytes J (slice offset n data) ty) (\<lambda>v. Ok (v, offset + n)))"

definition decode_var :: "array_codec \<Rightarrow> byte list \<Rightarrow> nat \<Rightarrow> data_type \<Rightarrow> (sql_error, val \<times> nat) outcome" where
  "decode_var J data offset ty =
     (if length data < offset + 4 then Ok (VNull, offset)
      else let len = unat (from_le_bytes (slice offset 4 data) :: u32) in
        if length data < offset + 4 + len then Err Execution
        else obind (from_bytes J (slice offset (4 + len) data) ty) (\<lambda>v. Ok (v, offset + 4 + len)))"

definition decode_column :: "array_codec \<Rightarrow> byte list \<Rightarrow> nat \<Rightarrow> data_type \<Rightarrow> (sql_error, val \<times> nat) outcome" where
  "decode_column J data offset ty =
     (case ty of
        TBoolean \<Rightarrow> decode_fixed J 1 data offset ty
      | TInt4 \<Rightarrow> decode_fixed J 4 data offset ty
      | TInt8 \<Rightarrow> decode_fixed J 8 data offset ty
      | TFloat8 \<Rightarrow> decode_fixed J 8 data offset ty
      | TDate \<Rightarrow> decode_fixed J 4 data offset ty
      | TTimestamp \<Rightarrow> decode_fixed J 8 data offset ty
      | TTimestampTz \<Rightarrow> decode_fixed J 8 data offset ty
      | _ \<Rightarrow> decode_var J data offset ty)"

primrec decode_columns :: "array_codec \<Rightarrow> byte list \<Rightarrow> u32 \<Rightarrow> data_type list \<Rightarrow> nat \<Rightarrow> nat \<Rightarrow> (sql_error, val list) outcome" where
  "decode_columns J data bitmap [] i offset = Ok []"
| "decode_columns J data bitmap (t # ts) i offset =
     (if i < 32 \<and> drop_bit i bitmap AND 1 = 1
      then obind (decode_columns J data bitmap ts (Suc i) offset) (\<lambda>vs. Ok (VNull # vs))
      else obind (decode_column J data offset t) (\<lambda>(v, offset).
           obind (decode_columns J data bitmap ts (Suc i) offset) (\<lambda>vs. Ok (v # vs))))"

definition decode_row :: "array_codec \<Rightarrow> byte list \<Rightarrow> u32 \<Rightarrow> table_schema \<Rightarrow> (sql_error, row) outcome" where
  "decode_row J data bitmap schema =
     obind (decode_columns J data bitmap (map col_type (columns schema)) 0 0) (\<lambda>vs.
     Ok \<lparr>row_values = vs, row_schema = map (\<lambda>c. (col_name c, col_type c)) (columns schema)\<rparr>)"

text \<open>The payload of a heap tuple: the bitmap in front of the values.\<close>

definition row_payload :: "array_codec \<Rightarrow> row \<Rightarrow> byte list" where
  "row_payload J r = (case encode_row J r of (data, bitmap) \<Rightarrow> u32_bytes bitmap @ data)"

definition payload_row :: "array_codec \<Rightarrow> byte list \<Rightarrow> table_schema \<Rightarrow> (sql_error, row) outcome" where
  "payload_row J data schema =
     (let bitmap = (if 4 \<le> length data then from_le_bytes (slice 0 4 data) else 0);
          row_data = (if 4 \<le> length data then drop 4 data else data) in
      decode_row J row_data bitmap schema)"

end
