(* ===== verification/Sql_Date.thy ===== *)
theory Sql_Date
  imports Sql_Type "HOL-Library.Signed_Division"
begin

text \<open>
  Calendar dates: the date helpers of \<^verbatim>\<open>sql/src/value.rs\<close>. A signed integer is an \<open>int\<close>; \<open>i32\<close> and
  \<open>i64\<close> wrap the result of an operation to its width, and division truncates towards zero.
\<close>

section \<open>Civil calendar\<close>

definition i32 :: "int \<Rightarrow> int" where
  "i32 x = signed_take_bit 31 x"

definition i64 :: "int \<Rightarrow> int" where
  "i64 x = signed_take_bit 63 x"

definition days_from_ymd :: "int \<Rightarrow> int \<Rightarrow> int \<Rightarrow> int" where
  "days_from_ymd y m d =
     (let y = (if m \<le> 2 then i32 (y - 1) else y);
          era = (if 0 \<le> y then y else i32 (y - 399)) sdiv 400;
          yoe = i32 (y - i32 (era * 400));
          doy = i32 (i32 (i32 (i32 (153 * (if 2 < m then i32 (m - 3) else i32 (m + 9))) + 2) sdiv 5 + d) - 1);
          doe = i32 (i32 (i32 (i32 (yoe * 365) + yoe sdiv 4) - yoe sdiv 100) + doy)
      in i32 (i32 (i32 (era * 146097) + doe) - 719468))"

definition ymd_from_days :: "int \<Rightarrow> int \<times> int \<times> int" where
  "ymd_from_days z =
     (let z = i32 (z + 719468);
          era = (if 0 \<le> z then z else i32 (z - 146096)) sdiv 146097;
          doe = i32 (z - i32 (era * 146097));
          yoe = i32 (i32 (i32 (doe - doe sdiv 1460) + doe sdiv 36524) - doe sdiv 146096) sdiv 365;
          y = i32 (yoe + i32 (era * 400));
          doy = i32 (doe - i32 (i32 (i32 (365 * yoe) + yoe sdiv 4) - yoe sdiv 100));
          mp = i32 (i32 (5 * doy) + 2) sdiv 153;
          d = i32 (i32 (doy - i32 (i32 (153 * mp) + 2) sdiv 5) + 1);
          m = (if mp < 10 then i32 (mp + 3) else i32 (mp - 9));
          y = (if m \<le> 2 then i32 (y + 1) else y)
      in (y, m, d))"

section \<open>Arithmetic\<close>

lemma i32_id [simp]: "- 2147483648 \<le> x \<Longrightarrow> x \<le> 2147483647 \<Longrightarrow> i32 x = x"
  unfolding i32_def by (rule signed_take_bit_int_eq_self) simp_all

lemma i64_id [simp]: "- 9223372036854775808 \<le> x \<Longrightarrow> x \<le> 9223372036854775807 \<Longrightarrow> i64 x = x"
  unfolding i64_def by (rule signed_take_bit_int_eq_self) simp_all

lemma div_eqI: "x = c * q + r \<Longrightarrow> 0 \<le> r \<Longrightarrow> r < c \<Longrightarrow> x div c = q" for x c q r :: int
  by simp

lemma sdiv_pos: "0 \<le> x \<Longrightarrow> 0 < c \<Longrightarrow> x sdiv c = x div c" for x c :: int
  by (cases "x = 0") (simp_all add: signed_divide_int_def)

text \<open>The guard in front of the truncating division makes it round down.\<close>

lemma sdiv_floor:
  fixes x c :: int
  assumes "0 < c"
  shows "(if 0 \<le> x then x else x - (c - 1)) sdiv c = x div c"
proof (cases "0 \<le> x")
  case True
  then show ?thesis using assms by (simp add: sdiv_pos)
next
  case False
  have "(x - (c - 1)) sdiv c = - ((c - 1 - x) div c)" using False assms by (simp add: signed_divide_int_def sgn_if abs_if)
  also have "(c - 1 - x) div c = - (x div c)"
  proof -
    have "c - 1 - x = (- (x div c)) * c + (c - 1 - x mod c)" using mult_div_mod_eq [of c x] by (simp add: algebra_simps)
    moreover have "0 \<le> c - 1 - x mod c" "c - 1 - x mod c < c" using assms pos_mod_bound [of c x] pos_mod_sign [of c x] by linarith+
    ultimately show ?thesis by (intro div_eqI [of _ _ _ "c - 1 - x mod c"]) (simp_all add: mult.commute)
  qed
  finally show ?thesis using False by simp
qed

text \<open>The day of the year found for a day of an era lies within a year.\<close>

lemma era_days:
  fixes doe :: int
  assumes "0 \<le> doe" and "doe \<le> 146096"
  defines "yoe \<equiv> (doe - doe div 1460 + doe div 36524 - doe div 146096) div 365"
  shows "0 \<le> yoe" and "yoe \<le> 399" and "0 \<le> doe - (365 * yoe + yoe div 4 - yoe div 100)"
    and "doe - (365 * yoe + yoe div 4 - yoe div 100) \<le> 365"
proof -
  have "0 \<le> yoe \<and> yoe \<le> 399 \<and> 0 \<le> doe - (365 * yoe + yoe div 4 - yoe div 100) \<and> doe - (365 * yoe + yoe div 4 - yoe div 100) \<le> 365"
  proof (cases "doe = 146096")
    case True
    then have "yoe = 399" by (simp add: yoe_def)
    then show ?thesis using True by simp
  next
    case False
    define b u where "b = doe div 36524" and "u = doe mod 36524"
    have doe: "doe = 36524 * b + u" and u: "0 \<le> u" "u \<le> 36523" by (simp_all add: b_def u_def)
    have b: "0 \<le> b" "b \<le> 3" using assms False u doe by linarith+
    define q p where "q = u div 1461" and "p = u mod 1461"
    have up: "u = 1461 * q + p" and p: "0 \<le> p" "p \<le> 1460" by (simp_all add: q_def p_def)
    have q: "0 \<le> q" "q \<le> 24" using u p up by linarith+
    define f where "f = (if 1460 \<le> q + p + 24 * b then 1 else 0 :: int)"
    have e: "doe div 146096 = 0" using assms False by simp
    have a: "doe div 1460 = 25 * b + q + f"
      by (rule div_eqI [of _ _ _ "q + p + 24 * b - 1460 * f"]) (use doe up p q b in \<open>auto simp: f_def\<close>)
    have pf: "0 \<le> p - f" "p - f \<le> 1459" using p q b by (auto simp: f_def)
    define r s where "r = (p - f) div 365" and "s = (p - f) mod 365"
    have pr: "p - f = 365 * r + s" and s: "0 \<le> s" "s \<le> 364" by (simp_all add: r_def s_def)
    have r: "0 \<le> r" "r \<le> 3" using pf pr s by linarith+
    have "doe - doe div 1460 + doe div 36524 - doe div 146096 = 365 * (100 * b + 4 * q + r) + s"
      unfolding a e b_def [symmetric] using doe up pr by (simp add: algebra_simps)
    then have y: "yoe = 100 * b + 4 * q + r" unfolding yoe_def by (rule div_eqI) (use s in simp_all)
    have "yoe div 4 = 25 * b + q" "yoe div 100 = b" using y q r b by linarith+
    then have "doe - (365 * yoe + yoe div 4 - yoe div 100) = f + s" using doe up pr y by linarith
    then show ?thesis using y b q r s by (auto simp: f_def)
  qed
  then show "0 \<le> yoe" "yoe \<le> 399" "0 \<le> doe - (365 * yoe + yoe div 4 - yoe div 100)"
    "doe - (365 * yoe + yoe div 4 - yoe div 100) \<le> 365" by simp_all
qed

lemma month_days:
  fixes doy :: int
  assumes "0 \<le> doy" and "doy \<le> 365"
  defines "mp \<equiv> (5 * doy + 2) div 153"
  shows "0 \<le> mp" and "mp \<le> 11" and "0 \<le> doy - (153 * mp + 2) div 5" and "doy - (153 * mp + 2) div 5 \<le> 30"
proof -
  have "153 * mp \<le> 5 * doy + 2" "5 * doy + 2 < 153 * mp + 153"
    unfolding mp_def using mult_div_mod_eq [of 153 "5 * doy + 2"] pos_mod_bound [of 153 "5 * doy + 2"] pos_mod_sign [of 153 "5 * doy + 2"] by linarith+
  moreover have "5 * ((153 * mp + 2) div 5) \<le> 153 * mp + 2" "153 * mp + 2 < 5 * ((153 * mp + 2) div 5) + 5"
    using mult_div_mod_eq [of 5 "153 * mp + 2"] pos_mod_bound [of 5 "153 * mp + 2"] pos_mod_sign [of 5 "153 * mp + 2"] by linarith+
  ultimately show "0 \<le> mp" "mp \<le> 11" "0 \<le> doy - (153 * mp + 2) div 5" "doy - (153 * mp + 2) div 5 \<le> 30"
    using assms(1,2) by linarith+
qed

text \<open>The parts of a day number: era, day of the era, year of the era, day of the year, month counted from March.\<close>

lemma ymd_parts:
  assumes z: "- 2147483648 \<le> z" "z \<le> 2146764179"
  obtains era yoe doy mp where "z + 719468 = 146097 * era + (365 * yoe + yoe div 4 - yoe div 100 + doy)"
    and "0 \<le> yoe" "yoe \<le> 399" and "0 \<le> doy" "doy \<le> 365" and "- 14695 \<le> era" "era \<le> 14699" and "0 \<le> mp" "mp \<le> 11"
    and "0 \<le> doy - (153 * mp + 2) div 5" "doy - (153 * mp + 2) div 5 \<le> 30"
    and "ymd_from_days z = (yoe + 400 * era + (if mp < 10 then 0 else 1), if mp < 10 then mp + 3 else mp - 9, doy - (153 * mp + 2) div 5 + 1)"
proof -
  define z' era doe where "z' = z + 719468" and "era = (z + 719468) div 146097" and "doe = (z + 719468) mod 146097"
  have zd: "z' = 146097 * era + doe" and doe: "0 \<le> doe" "doe \<le> 146096" by (simp_all add: z'_def era_def doe_def)
  have zb: "- 2146764180 \<le> z'" "z' \<le> 2147483647" using z by (simp_all add: z'_def)
  have era: "- 14695 \<le> era" "era \<le> 14699" using zd zb doe by linarith+
  define yoe where "yoe = (doe - doe div 1460 + doe div 36524 - doe div 146096) div 365"
  define doy where "doy = doe - (365 * yoe + yoe div 4 - yoe div 100)"
  note ed = era_days [OF doe, folded yoe_def]
  have doy: "0 \<le> doy" "doy \<le> 365" using ed(3,4) by (simp_all add: doy_def)
  define mp where "mp = (5 * doy + 2) div 153"
  note md = month_days [OF doy, folded mp_def]
  have q: "0 \<le> doe div 1460" "doe div 1460 \<le> 101" "0 \<le> doe div 36524" "doe div 36524 \<le> 4" "0 \<le> doe div 146096" "doe div 146096 \<le> 1"
    "0 \<le> yoe div 4" "yoe div 4 \<le> 99" "0 \<le> yoe div 100" "yoe div 100 \<le> 3"
    using doe ed(1,2) by linarith+
  have s1: "i32 (z + 719468) = z'" using zb by (simp add: z'_def)
  have "i32 (z' - 146096) = z' - (146097 - 1)" using zb by simp
  then have s2: "(if 0 \<le> z' then z' else i32 (z' - 146096)) sdiv 146097 = era"
    using sdiv_floor [of 146097 z'] unfolding era_def z'_def by (simp only: simp_thms)
  have s3: "i32 (z' - i32 (era * 146097)) = doe" using zd zb doe by simp
  have s4: "i32 (i32 (i32 (doe - doe sdiv 1460) + doe sdiv 36524) - doe sdiv 146096) sdiv 365 = yoe"
  proof -
    have n: "0 \<le> doe - doe div 1460 + doe div 36524 - doe div 146096" using q doe by linarith
    have "i32 (doe - doe div 1460) = doe - doe div 1460" "i32 (doe - doe div 1460 + doe div 36524) = doe - doe div 1460 + doe div 36524"
      "i32 (doe - doe div 1460 + doe div 36524 - doe div 146096) = doe - doe div 1460 + doe div 36524 - doe div 146096"
      using q doe by (intro i32_id; linarith)+
    then show ?thesis using doe n by (simp only: sdiv_pos yoe_def)
  qed
  have s5: "i32 (yoe + i32 (era * 400)) = yoe + 400 * era" using ed(1,2) era by simp
  have s6: "i32 (doe - i32 (i32 (i32 (365 * yoe) + yoe sdiv 4) - yoe sdiv 100)) = doy"
  proof -
    have "i32 (365 * yoe) = 365 * yoe" "i32 (365 * yoe + yoe div 4) = 365 * yoe + yoe div 4"
      "i32 (365 * yoe + yoe div 4 - yoe div 100) = 365 * yoe + yoe div 4 - yoe div 100" "i32 doy = doy"
      using q ed(1,2) doy by (intro i32_id; linarith)+
    then show ?thesis using ed(1) by (simp only: sdiv_pos doy_def)
  qed
  have s7: "i32 (i32 (5 * doy) + 2) sdiv 153 = mp" using doy by (simp add: sdiv_pos mp_def)
  have s8: "i32 (i32 (doy - i32 (i32 (153 * mp) + 2) sdiv 5) + 1) = doy - (153 * mp + 2) div 5 + 1"
    using md doy by (simp add: sdiv_pos)
  have s9: "i32 (mp + 3) = mp + 3" "i32 (mp - 9) = mp - 9" "i32 (yoe + 400 * era + 1) = yoe + 400 * era + 1"
    using md ed(1,2) era by simp_all
  have "ymd_from_days z = (yoe + 400 * era + (if mp < 10 then 0 else 1), if mp < 10 then mp + 3 else mp - 9, doy - (153 * mp + 2) div 5 + 1)"
    unfolding ymd_from_days_def Let_def s1 s2 s3 s4 s5 s6 s7 s8 s9 using md(1,2) by auto
  moreover have "z + 719468 = 146097 * era + (365 * yoe + yoe div 4 - yoe div 100 + doy)" using zd by (simp add: z'_def doy_def)
  ultimately show ?thesis using that ed(1,2) doy era md by blast
qed


text \<open>The way back from the parts of a date.\<close>

lemma days_parts:
  assumes yoe: "0 \<le> yoe" "yoe \<le> 399" and doy: "0 \<le> doy" "doy \<le> 365" and era: "- 14695 \<le> era" "era \<le> 14699"
    and mp: "0 \<le> mp" "mp \<le> 11" and d: "doy = (153 * mp + 2) div 5 + d - 1" "1 \<le> d" "d \<le> 31"
    and z: "z + 719468 = 146097 * era + (365 * yoe + yoe div 4 - yoe div 100 + doy)" "- 2147483648 \<le> z" "z \<le> 2146764179"
  shows "days_from_ymd (yoe + 400 * era + (if mp < 10 then 0 else 1)) (if mp < 10 then mp + 3 else mp - 9) d = z"
proof -
  let ?m = "if mp < 10 then mp + 3 else mp - 9" and ?y = "yoe + 400 * era"
  have y: "(if ?m \<le> 2 then i32 (?y + (if mp < 10 then 0 else 1) - 1) else ?y + (if mp < 10 then 0 else 1)) = ?y"
    using yoe era mp by auto
  have "i32 (?y - 399) = ?y - (400 - 1)" using yoe era by simp
  then have e: "(if 0 \<le> ?y then ?y else i32 (?y - 399)) sdiv 400 = era"
    using sdiv_floor [of 400 ?y] yoe div_eqI [of ?y 400 era yoe] by (simp only: simp_thms)
  have o: "i32 (?y - i32 (era * 400)) = yoe" using yoe era by simp
  have q: "0 \<le> yoe div 4" "yoe div 4 \<le> 99" "0 \<le> yoe div 100" "yoe div 100 \<le> 3" using yoe by linarith+
  have k: "i32 (i32 (153 * (if 2 < ?m then i32 (?m - 3) else i32 (?m + 9))) + 2) sdiv 5 = (153 * mp + 2) div 5"
    using mp by (auto simp: sdiv_pos)
  have p: "0 \<le> (153 * mp + 2) div 5" "(153 * mp + 2) div 5 \<le> 337" using mp by linarith+
  have v: "i32 (i32 ((153 * mp + 2) div 5 + d) - 1) = doy" using p d by simp
  have w: "i32 (i32 (i32 (i32 (yoe * 365) + yoe sdiv 4) - yoe sdiv 100) + doy) = 365 * yoe + yoe div 4 - yoe div 100 + doy"
  proof -
    have "i32 (yoe * 365) = yoe * 365" "i32 (yoe * 365 + yoe div 4) = yoe * 365 + yoe div 4"
      "i32 (yoe * 365 + yoe div 4 - yoe div 100) = yoe * 365 + yoe div 4 - yoe div 100"
      "i32 (yoe * 365 + yoe div 4 - yoe div 100 + doy) = yoe * 365 + yoe div 4 - yoe div 100 + doy"
      using q yoe doy by (intro i32_id; linarith)+
    then show ?thesis using yoe by (simp add: sdiv_pos)
  qed
  have r: "i32 (i32 (i32 (era * 146097) + (365 * yoe + yoe div 4 - yoe div 100 + doy)) - 719468) = z"
  proof -
    have b: "0 \<le> 365 * yoe + yoe div 4 - yoe div 100 + doy" "365 * yoe + yoe div 4 - yoe div 100 + doy \<le> 147000" using q yoe doy by linarith+
    have "i32 (era * 146097) = era * 146097" using era by (intro i32_id) linarith+
    moreover have "i32 (z + 719468) = z + 719468" "i32 z = z" using z(2,3) by (intro i32_id; linarith)+
    moreover have "era * 146097 + (365 * yoe + yoe div 4 - yoe div 100 + doy) = z + 719468" using z(1) by (simp add: mult.commute)
    ultimately show ?thesis by simp
  qed
  show ?thesis unfolding days_from_ymd_def Let_def y e o k v w by (rule r)
qed

lemma date_inverse:
  assumes z: "- 2147483648 \<le> z" "z \<le> 2146764179" and ymd: "ymd_from_days z = (y, m, d)"
  shows "days_from_ymd y m d = z" and "1 \<le> m" "m \<le> 12" and "1 \<le> d" "d \<le> 31" and "- 5878000 \<le> y" "y \<le> 5880000"
    and "- 719468 \<le> z \<Longrightarrow> 0 \<le> y"
proof -
  obtain era yoe doy mp where p: "z + 719468 = 146097 * era + (365 * yoe + yoe div 4 - yoe div 100 + doy)"
    "0 \<le> yoe" "yoe \<le> 399" "0 \<le> doy" "doy \<le> 365" "- 14695 \<le> era" "era \<le> 14699" "0 \<le> mp" "mp \<le> 11"
    "0 \<le> doy - (153 * mp + 2) div 5" "doy - (153 * mp + 2) div 5 \<le> 30"
    "ymd_from_days z = (yoe + 400 * era + (if mp < 10 then 0 else 1), if mp < 10 then mp + 3 else mp - 9, doy - (153 * mp + 2) div 5 + 1)"
    by (rule ymd_parts [OF z])
  have eq: "y = yoe + 400 * era + (if mp < 10 then 0 else 1)" "m = (if mp < 10 then mp + 3 else mp - 9)" "d = doy - (153 * mp + 2) div 5 + 1"
    using p(12) ymd by simp_all
  show "days_from_ymd y m d = z" unfolding eq
    by (rule days_parts [OF p(2,3,4,5,6,7,8,9) _ _ _ p(1) z]) (use p(10,11) in simp_all)
  show "1 \<le> m" "m \<le> 12" "1 \<le> d" "d \<le> 31" "- 5878000 \<le> y" "y \<le> 5880000" using p eq by auto
  have q: "0 \<le> yoe div 4" "yoe div 4 \<le> 99" "0 \<le> yoe div 100" "yoe div 100 \<le> 3" using p(2,3) by linarith+
  show "0 \<le> y" if "- 719468 \<le> z"
  proof -
    have "0 \<le> 146097 * era + 147000" using p(1,3,5) q that by linarith
    then have "-1 \<le> era" by linarith
    moreover have "era \<noteq> -1" using p(1,3,5) q that by auto
    ultimately show ?thesis using eq(1) p(2) by auto
  qed
qed

end
