(* ===== verification/Sql_Text.thy ===== *)
theory Sql_Text
  imports Sql_Date
begin

text \<open>
  Dates, times and numbers as text: the formatting and parsing functions of \<^verbatim>\<open>sql/src/value.rs\<close>, over the
  parts of the standard library they use (\<^verbatim>\<open>str::trim\<close>, \<^verbatim>\<open>str::splitn\<close>, \<^verbatim>\<open>str::parse\<close>, padded
  formatting of integers). A string is its bytes; signed arithmetic wraps as a release build does.
\<close>

section \<open>Strings of the standard library\<close>

text \<open>The characters \<^verbatim>\<open>char::is_whitespace\<close> accepts, in UTF-8.\<close>

definition spaces :: "rstring list" where
  "spaces =
     [[9], [10], [11], [12], [13], [32], [0xC2, 0x85], [0xC2, 0xA0], [0xE1, 0x9A, 0x80],
      [0xE2, 0x80, 0x80], [0xE2, 0x80, 0x81], [0xE2, 0x80, 0x82], [0xE2, 0x80, 0x83], [0xE2, 0x80, 0x84],
      [0xE2, 0x80, 0x85], [0xE2, 0x80, 0x86], [0xE2, 0x80, 0x87], [0xE2, 0x80, 0x88], [0xE2, 0x80, 0x89],
      [0xE2, 0x80, 0x8A], [0xE2, 0x80, 0xA8], [0xE2, 0x80, 0xA9], [0xE2, 0x80, 0xAF], [0xE2, 0x81, 0x9F],
      [0xE3, 0x80, 0x80]]"

function strip :: "rstring list \<Rightarrow> rstring \<Rightarrow> rstring" where
  "strip ws s =
     (case find (\<lambda>w. w \<noteq> [] \<and> take (length w) s = w) ws of
        None \<Rightarrow> s
      | Some w \<Rightarrow> strip ws (drop (length w) s))"
  by pat_completeness auto
termination
  by (relation "measure (\<lambda>(ws, s). length s)") (auto simp: find_Some_iff intro!: diff_less)

declare strip.simps [simp del]

definition trim :: "rstring \<Rightarrow> rstring" where
  "trim s = rev (strip (map rev spaces) (rev (strip spaces s)))"

definition split_once :: "byte \<Rightarrow> rstring \<Rightarrow> (rstring \<times> rstring) option" where
  "split_once c s = (if c \<in> set s then Some (takeWhile (\<lambda>b. b \<noteq> c) s, tl (dropWhile (\<lambda>b. b \<noteq> c) s)) else None)"

fun splitn :: "nat \<Rightarrow> byte \<Rightarrow> rstring \<Rightarrow> rstring list" where
  "splitn 0 c s = []"
| "splitn (Suc 0) c s = [s]"
| "splitn (Suc (Suc n)) c s =
     (case split_once c s of None \<Rightarrow> [s] | Some (a, b) \<Rightarrow> a # splitn (Suc n) c b)"

definition is_digit :: "byte \<Rightarrow> bool" where
  "is_digit b \<longleftrightarrow> 48 \<le> b \<and> b \<le> 57"

definition digits_val :: "rstring \<Rightarrow> nat" where
  "digits_val s = foldl (\<lambda>a b. 10 * a + (unat b - 48)) 0 s"

definition parse_int :: "int \<Rightarrow> int \<Rightarrow> rstring \<Rightarrow> int option" where
  "parse_int lo hi s =
     (let neg = (s \<noteq> [] \<and> hd s = 45);
          ds = (if s \<noteq> [] \<and> (hd s = 43 \<or> hd s = 45) then tl s else s);
          v = (if neg then - int (digits_val ds) else int (digits_val ds)) in
      if ds \<noteq> [] \<and> list_all is_digit ds \<and> lo \<le> v \<and> v \<le> hi then Some v else None)"

abbreviation parse_i32 :: "rstring \<Rightarrow> int option" where
  "parse_i32 \<equiv> parse_int (- 2147483648) 2147483647"

abbreviation parse_i64 :: "rstring \<Rightarrow> int option" where
  "parse_i64 \<equiv> parse_int (- 9223372036854775808) 9223372036854775807"

fun dec :: "nat \<Rightarrow> rstring" where
  "dec n = (if n < 10 then [of_nat (48 + n)] else dec (n div 10) @ [of_nat (48 + n mod 10)])"

declare dec.simps [simp del]

text \<open>\<^verbatim>\<open>{x:0w}\<close>: zeros between the sign and the digits, up to width \<open>w\<close>.\<close>

definition fmt_int :: "nat \<Rightarrow> int \<Rightarrow> rstring" where
  "fmt_int w x =
     (let sign = (if x < 0 then [45] else []); ds = dec (nat \<bar>x\<bar>) in
      sign @ replicate (w - length sign - length ds) 48 @ ds)"

definition char_count :: "rstring \<Rightarrow> nat" where
  "char_count s = length (filter (\<lambda>b. \<not> cont b) s)"

definition char_boundary :: "rstring \<Rightarrow> nat \<Rightarrow> bool" where
  "char_boundary s i \<longleftrightarrow> i = 0 \<or> i = length s \<or> i < length s \<and> \<not> cont (s ! i)"

section \<open>Formatting and parsing\<close>

definition format_date :: "int \<Rightarrow> rstring" where
  "format_date days = (case ymd_from_days days of (y, m, d) \<Rightarrow> fmt_int 4 y @ [45] @ fmt_int 2 m @ [45] @ fmt_int 2 d)"

definition parse_date_str :: "rstring \<Rightarrow> int option" where
  "parse_date_str s =
     (case splitn 3 45 (trim s) of
        [py, pm, pd] \<Rightarrow>
          (case parse_i32 py of None \<Rightarrow> None | Some year \<Rightarrow>
           case parse_i32 pm of None \<Rightarrow> None | Some month \<Rightarrow>
           case parse_i32 pd of None \<Rightarrow> None | Some day \<Rightarrow>
             if \<not> (1 \<le> month \<and> month \<le> 12) \<or> \<not> (1 \<le> day \<and> day \<le> 31) then None
             else Some (days_from_ymd year month day))
      | _ \<Rightarrow> None)"

definition format_timestamp :: "int \<Rightarrow> rstring" where
  "format_timestamp micros =
     (let total_secs = micros sdiv 1000000;
          rem_micros = micros mod 1000000;
          days = i32 (total_secs sdiv 86400);
          time_secs = total_secs mod 86400 in
      case ymd_from_days days of (y, mo, d) \<Rightarrow>
        let h = time_secs sdiv 3600; mi = (time_secs smod 3600) sdiv 60; s = time_secs smod 60;
            text = fmt_int 4 y @ [45] @ fmt_int 2 mo @ [45] @ fmt_int 2 d @ [32]
              @ fmt_int 2 h @ [58] @ fmt_int 2 mi @ [58] @ fmt_int 2 s in
        if rem_micros = 0 then text else text @ [46] @ fmt_int 6 rem_micros)"

text \<open>A missing value is \<open>Err ()\<close>. Cutting the fraction after six bytes panics inside a character.\<close>

definition parse_frac :: "rstring \<Rightarrow> (unit, int) outcome" where
  "parse_frac frac_str =
     (let n = min (length frac_str) 6 in
      if \<not> char_boundary frac_str n then Panic
      else let cut = take n frac_str in
        ok_or () (parse_i64 (cut @ replicate (6 - char_count cut) 48)))"

definition parse_time_str :: "rstring \<Rightarrow> (unit, int) outcome" where
  "parse_time_str s =
     obind (case split_once 46 s of
              Some (hms, frac_str) \<Rightarrow> obind (parse_frac frac_str) (\<lambda>f. Ok (hms, f))
            | None \<Rightarrow> Ok (s, 0)) (\<lambda>(hms, frac_micros).
       case splitn 3 58 hms of
         [ph, pm, ps] \<Rightarrow>
           obind (ok_or () (parse_i64 ph)) (\<lambda>h.
           obind (ok_or () (parse_i64 pm)) (\<lambda>m.
           obind (ok_or () (parse_i64 ps)) (\<lambda>s_val.
           Ok (i64 (i64 (i64 (i64 (i64 (h * 3600) + i64 (m * 60)) + s_val) * 1000000) + frac_micros)))))
       | _ \<Rightarrow> Err ())"

definition parse_timestamp_str :: "rstring \<Rightarrow> (unit, int) outcome" where
  "parse_timestamp_str s =
     (let s = trim s in
      case (case split_once 32 s of
              Some p \<Rightarrow> p
            | None \<Rightarrow> (case split_once 84 s of Some p \<Rightarrow> p | None \<Rightarrow> (s, lit ''00:00:00''))) of
        (date_part, time_part) \<Rightarrow>
          obind (ok_or () (parse_date_str date_part)) (\<lambda>days.
          obind (parse_time_str time_part) (\<lambda>micros_in_day.
          Ok (i64 (i64 (days * 86400000000) + micros_in_day)))))"

section \<open>Reading back what was printed\<close>

lemma unat_digit: "k < 10 \<Longrightarrow> unat (of_nat (48 + k) :: byte) = 48 + k"
  by (simp only: unat_of_nat) (simp add: take_bit_nat_eq_self)

lemma dec_digits: "list_all is_digit (dec n)" "dec n \<noteq> []"
proof (induction n rule: dec.induct)
  case (1 n)
  have d: "is_digit (of_nat (48 + k))" if "k < 10" for k :: nat
    using that unat_digit [of k] by (simp add: is_digit_def word_le_nat_alt del: of_nat_add)
  show "list_all is_digit (dec n)" "dec n \<noteq> []"
    using 1 d [of n] d [of "n mod 10"] by (subst dec.simps; simp del: of_nat_add)+
qed

lemma digits_val_snoc: "digits_val (s @ [b]) = 10 * digits_val s + (unat b - 48)"
  by (simp add: digits_val_def)

lemma digits_val_dec: "digits_val (dec n) = n"
proof (induction n rule: dec.induct)
  case (1 n)
  show ?case
  proof (cases "n < 10")
    case True
    then show ?thesis using unat_digit [of n] by (subst dec.simps) (simp add: digits_val_def del: of_nat_add)
  next
    case False
    then show ?thesis using 1 unat_digit [of "n mod 10"] by (subst dec.simps) (simp add: digits_val_snoc del: of_nat_add)
  qed
qed

lemma digits_val_zeros: "digits_val (replicate k 48 @ s) = digits_val s"
  by (induction k) (simp_all add: digits_val_def)

lemma length_dec: "n < 10 ^ Suc w \<Longrightarrow> length (dec n) \<le> Suc w"
proof (induction w arbitrary: n)
  case 0
  then show ?case by (subst dec.simps) simp
next
  case (Suc w)
  have "n div 10 < 10 ^ Suc w" using Suc.prems by (simp add: less_mult_imp_div_less mult.commute)
  then show ?case using Suc.IH [of "n div 10"] by (subst dec.simps) simp
qed

lemma fmt_int_pos: "0 \<le> x \<Longrightarrow> fmt_int w x = replicate (w - length (dec (nat x))) 48 @ dec (nat x)"
  by (simp add: fmt_int_def Let_def)

lemma fmt_int_digits:
  assumes "0 \<le> x"
  shows "list_all is_digit (fmt_int w x)" and "fmt_int w x \<noteq> []"
  using dec_digits [of "nat x"] assms by (auto simp: fmt_int_pos is_digit_def list_all_iff)

lemma length_fmt_int: "0 \<le> x \<Longrightarrow> x < 10 ^ Suc w \<Longrightarrow> length (fmt_int (Suc w) x) = Suc w"
  using length_dec [of "nat x" w] by (simp add: fmt_int_pos nat_less_iff)

lemma parse_fmt_int:
  assumes "0 \<le> x" "lo \<le> x" "x \<le> hi"
  shows "parse_int lo hi (fmt_int w x) = Some x"
proof -
  have "is_digit (hd (fmt_int w x))" using fmt_int_digits [OF assms(1), of w] by (cases "fmt_int w x") auto
  then have "hd (fmt_int w x) \<noteq> 43" "hd (fmt_int w x) \<noteq> 45" by (auto simp: is_digit_def)
  moreover have "digits_val (fmt_int w x) = nat x" using assms(1) by (simp add: fmt_int_pos digits_val_zeros digits_val_dec)
  ultimately show ?thesis using fmt_int_digits [OF assms(1), of w] assms by (simp add: parse_int_def)
qed

lemma split_once_append: "c \<notin> set a \<Longrightarrow> split_once c (a @ c # b) = Some (a, b)"
  by (auto simp: split_once_def takeWhile_append dropWhile_append)

lemma splitn_three:
  "c \<notin> set a \<Longrightarrow> c \<notin> set b \<Longrightarrow> splitn 3 c (a @ c # b @ c # d) = [a, b, d]"
  by (simp add: numeral_3_eq_3 split_once_append)

lemma digits_no_sep: "list_all is_digit s \<Longrightarrow> \<not> is_digit c \<Longrightarrow> c \<notin> set s"
  by (auto simp: list_all_iff)

text \<open>Text between visible ASCII characters has no space to trim.\<close>

definition plain :: "byte \<Rightarrow> bool" where
  "plain b \<longleftrightarrow> 33 \<le> b \<and> b \<le> 126"

lemma digit_plain: "is_digit b \<Longrightarrow> plain b"
  by (auto simp: is_digit_def plain_def word_le_nat_alt)

lemma strip_id:
  assumes "s \<noteq> []" "plain (hd s)" "\<forall>w \<in> set ws. w \<noteq> [] \<longrightarrow> \<not> plain (hd w)"
  shows "strip ws s = s"
proof -
  have "find (\<lambda>w. w \<noteq> [] \<and> take (length w) s = w) ws = None"
    using assms by (auto simp: find_None_iff neq_Nil_conv)
  then show ?thesis by (subst strip.simps) simp
qed

lemma trim_id:
  assumes "s \<noteq> []" "plain (hd s)" "plain (last s)"
  shows "trim s = s"
proof -
  have "strip spaces s = s" by (rule strip_id) (use assms in \<open>auto simp: spaces_def plain_def\<close>)
  moreover have "strip (map rev spaces) (rev s) = rev s"
    by (rule strip_id) (use assms in \<open>auto simp: spaces_def plain_def hd_rev\<close>)
  ultimately show ?thesis by (simp add: trim_def)
qed

lemma not_digit [simp]: "\<not> is_digit 32" "\<not> is_digit 45" "\<not> is_digit 46" "\<not> is_digit 58"
  by (simp_all add: is_digit_def)

lemma fmt_int_no_sep: "0 \<le> x \<Longrightarrow> \<not> is_digit c \<Longrightarrow> c \<notin> set (fmt_int w x)"
  using fmt_int_digits(1) digits_no_sep by blast

lemma fmt_int_ends:
  assumes "0 \<le> x"
  shows "plain (hd (fmt_int w x))" and "plain (last (fmt_int w x))"
  using fmt_int_digits [OF assms, of w] digit_plain by (simp_all add: list_all_iff)

lemma parse_date_parts:
  assumes "0 \<le> y" "y \<le> 2147483647" "1 \<le> m" "m \<le> 12" "1 \<le> d" "d \<le> 31"
  shows "parse_date_str (fmt_int 4 y @ 45 # fmt_int 2 m @ 45 # fmt_int 2 d) = Some (days_from_ymd y m d)"
proof -
  let ?t = "fmt_int 4 y @ 45 # fmt_int 2 m @ 45 # fmt_int 2 d"
  have "trim ?t = ?t"
    by (rule trim_id) (use assms fmt_int_digits [of y 4] fmt_int_digits [of d 2] fmt_int_ends [of y 4] fmt_int_ends [of d 2] in simp_all)
  moreover have "splitn 3 45 ?t = [fmt_int 4 y, fmt_int 2 m, fmt_int 2 d]"
    by (rule splitn_three) (use assms in \<open>simp_all add: fmt_int_no_sep\<close>)
  ultimately show ?thesis using assms by (simp add: parse_date_str_def parse_fmt_int)
qed

lemma strip_keeps_last:
  assumes "\<forall>w \<in> set ws. c \<notin> set w"
  shows "\<exists>q. strip ws (s @ [c]) = q @ [c]"
proof (induction "length s" arbitrary: s rule: less_induct)
  case less
  show ?case
  proof (cases "find (\<lambda>w. w \<noteq> [] \<and> take (length w) (s @ [c]) = w) ws")
    case None
    then show ?thesis by (subst strip.simps) simp
  next
    case (Some w)
    then have w: "w \<in> set ws" "w \<noteq> []" "take (length w) (s @ [c]) = w" by (auto simp: find_Some_iff)
    have "length w \<le> length s"
    proof (rule ccontr)
      assume "\<not> length w \<le> length s"
      then have "w = s @ [c]" using w(3) by simp
      then show False using w(1) assms by auto
    qed
    moreover have "0 < length s" using calculation w(2) by auto
    ultimately obtain q where "strip ws (drop (length w) s @ [c]) = q @ [c]" using less [of "drop (length w) s"] w(2) by auto
    then show ?thesis using Some \<open>length w \<le> length s\<close> by (subst strip.simps) (simp del: take_append)
  qed
qed

lemma parse_negative_year:
  assumes "y < 0"
  shows "parse_date_str (fmt_int 4 y @ 45 # s) = None"
proof -
  let ?t = "fmt_int 4 y @ 45 # s"
  obtain r where r: "?t = 45 # r" using assms by (auto simp: fmt_int_def Let_def)
  have "strip spaces ?t = ?t" unfolding r by (rule strip_id) (auto simp: spaces_def plain_def)
  moreover obtain q where "strip (map rev spaces) (rev r @ [45]) = q @ [45]"
    using strip_keeps_last [of "map rev spaces" 45 "rev r"] by (auto simp: spaces_def)
  ultimately have "trim ?t = 45 # rev q" unfolding trim_def r by simp
  then have "splitn 3 45 (trim ?t) = [] # splitn 2 45 (rev q)" by (simp add: numeral_3_eq_3 numeral_2_eq_2 split_once_def)
  then show ?thesis by (simp add: parse_date_str_def parse_int_def split: list.splits)
qed

text \<open>
  A printed date parses back to the same day, for every day up to the one behind which the calendar
  arithmetic overflows, unless its year is negative: the parser takes the sign for a separator and refuses it.
\<close>

theorem date_text_roundtrip:
  assumes "- 2147483648 \<le> z" "z \<le> 2146764179"
  shows "parse_date_str (format_date z) = (if fst (ymd_from_days z) < 0 then None else Some z)"
proof (cases "ymd_from_days z")
  case (fields y m d)
  note i = date_inverse [OF assms fields]
  show ?thesis
  proof (cases "y < 0")
    case True
    then show ?thesis using fields parse_negative_year [OF True] by (simp add: format_date_def)
  next
    case False
    then show ?thesis using fields i parse_date_parts [of y m d] by (simp add: format_date_def)
  qed
qed

theorem date_text_roundtrip_witness: "parse_date_str (format_date 19782) = Some 19782"
proof -
  have "ymd_from_days 19782 = (2024, 2, 29)" by code_simp
  then show ?thesis using date_text_roundtrip [of 19782] by simp
qed

lemma digits_not_cont: "list_all is_digit s \<Longrightarrow> char_count s = length s"
  by (induction s) (auto simp: char_count_def is_digit_def cont_def word_le_nat_alt)

lemma parse_frac_fmt:
  assumes "0 \<le> u" "u < 1000000"
  shows "parse_frac (fmt_int 6 u) = Ok u"
proof -
  have "length (fmt_int 6 u) = 6" using length_fmt_int [of u 5] assms by simp
  moreover have "char_count (fmt_int 6 u) = length (fmt_int 6 u)" using assms by (simp add: digits_not_cont fmt_int_digits)
  ultimately show ?thesis using assms by (simp add: parse_frac_def char_boundary_def ok_or_def parse_fmt_int)
qed

lemma parse_time_parts:
  assumes "0 \<le> h" "h < 24" "0 \<le> m" "m < 60" "0 \<le> s" "s < 60" "0 \<le> u" "u < 1000000"
  defines "t \<equiv> fmt_int 2 h @ 58 # fmt_int 2 m @ 58 # fmt_int 2 s"
  shows "parse_time_str (if u = 0 then t else t @ 46 # fmt_int 6 u) = Ok ((h * 3600 + m * 60 + s) * 1000000 + u)"
proof -
  have dot: "46 \<notin> set t" using assms fmt_int_no_sep [of _ 46] by (simp add: t_def)
  have "splitn 3 58 t = [fmt_int 2 h, fmt_int 2 m, fmt_int 2 s]"
    unfolding t_def by (rule splitn_three) (use assms in \<open>simp_all add: fmt_int_no_sep\<close>)
  moreover have "split_once 46 (if u = 0 then t else t @ 46 # fmt_int 6 u) = (if u = 0 then None else Some (t, fmt_int 6 u))"
    using dot split_once_append [OF dot] by (simp add: split_once_def)
  ultimately show ?thesis using assms(1-8) by (simp add: parse_time_str_def parse_frac_fmt ok_or_def parse_fmt_int)
qed

text \<open>What a timestamp before the epoch is off by when it is read back: the seconds and the days are rounded
  towards zero, the microseconds and the time of day downwards.\<close>

definition late_by :: "int \<Rightarrow> int" where
  "late_by t =
     (if 0 \<le> t then 0
      else (if t mod 1000000 = 0 then 0 else 1000000)
         + (if (t sdiv 1000000) mod 86400 = 0 then 0 else 86400000000))"

lemma sdiv_ceiling: "t < 0 \<Longrightarrow> 0 < c \<Longrightarrow> t sdiv c * c = t - t mod c + (if t mod c = 0 then 0 else c)" for t c :: int
proof -
  assume t: "t < 0" and c: "0 < c"
  have "t sdiv c = - ((- t) div c)" using t c by (simp add: signed_divide_int_def sgn_if)
  also have "\<dots> = (if t mod c = 0 then t div c else t div c + 1)" using c by (simp add: zdiv_zminus1_eq_if)
  finally show ?thesis by (simp add: minus_mod_eq_div_mult algebra_simps)
qed

lemma late_by_eq:
  fixes t :: int
  shows "(t sdiv 1000000 sdiv 86400 * 86400 + (t sdiv 1000000) mod 86400) * 1000000 + t mod 1000000 = t + late_by t"
proof (cases "0 \<le> t")
  case True
  then have "t sdiv 1000000 = t div 1000000" "t sdiv 1000000 sdiv 86400 = t div 1000000 div 86400" by (simp_all add: sdiv_pos)
  then show ?thesis using True by (simp add: late_by_def)
next
  case False
  have s: "t sdiv 1000000 * 1000000 = t - t mod 1000000 + (if t mod 1000000 = 0 then 0 else 1000000)"
    using sdiv_ceiling [of t 1000000] False by simp
  show ?thesis
  proof (cases "t sdiv 1000000 < 0")
    case True
    then show ?thesis using False s sdiv_ceiling [OF True, of 86400] by (auto simp: late_by_def split: if_splits)
  next
    case n: False
    then have "t sdiv 1000000 = 0" using False s by (auto split: if_splits)
    then show ?thesis using False s by (simp add: late_by_def sdiv_pos split: if_splits)
  qed
qed

lemma sdiv_bounds:
  fixes t c l h :: int
  assumes "0 < c" "l * c \<le> t" "t < (h + 1) * c" "l \<le> 0" "0 \<le> h"
  shows "l \<le> t sdiv c" and "t sdiv c \<le> h"
proof -
  have "l \<le> t sdiv c \<and> t sdiv c \<le> h"
  proof (cases "t < 0")
    case True
    then have "t sdiv c * c = t - t mod c + (if t mod c = 0 then 0 else c)" using assms by (intro sdiv_ceiling)
    moreover have "t mod c \<le> (if t mod c = 0 then 0 else c)" using assms(1) by (simp add: less_imp_le)
    ultimately have "l * c \<le> t sdiv c * c" using assms(2) by linarith
    moreover have "t sdiv c \<le> 0" using True assms(1) by (simp add: signed_divide_int_def sgn_if pos_imp_zdiv_nonneg_iff)
    ultimately show ?thesis using assms by simp
  next
    case False
    then have e: "t sdiv c = t div c" "0 \<le> t div c" using assms by (simp_all add: sdiv_pos pos_imp_zdiv_nonneg_iff)
    have "t div c * c < (h + 1) * c" using assms(1,3) pos_mod_sign [of c t] minus_mod_eq_div_mult [of t c] by linarith
    then show ?thesis using e assms by simp
  qed
  then show "l \<le> t sdiv c" "t sdiv c \<le> h" by simp_all
qed

lemma time_of_day:
  fixes n :: int
  assumes "0 \<le> n" "n < 86400"
  shows "0 \<le> n sdiv 3600" "n sdiv 3600 < 24" "0 \<le> (n smod 3600) sdiv 60" "(n smod 3600) sdiv 60 < 60"
    "0 \<le> n smod 60" "n smod 60 < 60" "n sdiv 3600 * 3600 + (n smod 3600) sdiv 60 * 60 + n smod 60 = n"
proof -
  have "n smod 3600 = n mod 3600" "n smod 60 = n mod 60" using assms(1) by (simp_all add: signed_modulo_int_def sgn_if)
  moreover have "n mod 60 = n mod 3600 mod 60" by (simp add: mod_mod_cancel)
  ultimately show "0 \<le> n sdiv 3600" "n sdiv 3600 < 24" "0 \<le> (n smod 3600) sdiv 60" "(n smod 3600) sdiv 60 < 60"
    "0 \<le> n smod 60" "n smod 60 < 60" "n sdiv 3600 * 3600 + (n smod 3600) sdiv 60 * 60 + n smod 60 = n"
    using assms by (simp_all add: sdiv_pos)
qed

text \<open>
  A printed timestamp of the years 0 and later parses back as itself when it is not before the
  epoch; before it, the time printed is late by a second when it has a fraction and by a day when it is not
  midnight.
\<close>

theorem timestamp_text:
  assumes "- 62162035200000000 \<le> t" "t \<le> 9223372036854775807"
  shows "parse_timestamp_str (format_timestamp t) = Ok (t + late_by t)"
proof -
  let ?secs = "t sdiv 1000000"
  let ?days = "?secs sdiv 86400" and ?n = "?secs mod 86400" and ?u = "t mod 1000000"
  have "- 62162035200 \<le> ?secs" "?secs \<le> 9223372036854" using sdiv_bounds [of 1000000 "- 62162035200" t 9223372036854] assms by simp_all
  then have days: "- 719468 \<le> ?days" "?days \<le> 106751991" using sdiv_bounds [of 86400 "- 719468" ?secs 106751991] by simp_all
  obtain y m d where ymd: "ymd_from_days ?days = (y, m, d)" by (cases "ymd_from_days ?days")
  have i: "days_from_ymd y m d = ?days" "1 \<le> m" "m \<le> 12" "1 \<le> d" "d \<le> 31" "0 \<le> y" "y \<le> 2147483647"
    using date_inverse [OF _ _ ymd] days by simp_all
  let ?date = "fmt_int 4 y @ 45 # fmt_int 2 m @ 45 # fmt_int 2 d"
  let ?h = "?n sdiv 3600" and ?mi = "(?n smod 3600) sdiv 60" and ?s = "?n smod 60"
  let ?hms = "fmt_int 2 ?h @ 58 # fmt_int 2 ?mi @ 58 # fmt_int 2 ?s"
  let ?time = "if ?u = 0 then ?hms else ?hms @ 46 # fmt_int 6 ?u"
  note td = time_of_day [of ?n]
  have printed: "format_timestamp t = ?date @ 32 # ?time" using days ymd by (simp add: format_timestamp_def Let_def)
  have trimmed: "trim (?date @ 32 # ?time) = ?date @ 32 # ?time"
    by (rule trim_id) (use i td in \<open>simp_all add: fmt_int_digits fmt_int_ends\<close>)
  have "32 \<notin> set ?date" using i by (simp add: fmt_int_no_sep)
  then have split: "split_once 32 (?date @ 32 # ?time) = Some (?date, ?time)" by (rule split_once_append)
  have date: "parse_date_str ?date = Some ?days" using parse_date_parts [of y m d] i by simp
  have time: "parse_time_str ?time = Ok (?n * 1000000 + ?u)" using parse_time_parts [of ?h ?mi ?s ?u] td by simp
  have "?days * 86400000000 + (?n * 1000000 + ?u) = t + late_by t" using late_by_eq [of t] by (simp add: algebra_simps)
  moreover have "i64 (?days * 86400000000) = ?days * 86400000000" using days by (intro i64_id) linarith+
  moreover have "i64 (t + late_by t) = t + late_by t" using assms by (intro i64_id) (auto simp: late_by_def)
  ultimately show ?thesis using assms unfolding printed
    by (simp only: parse_timestamp_str_def trimmed split Let_def option.case prod.case date time ok_or_def obind.simps)
qed

theorem timestamp_text_witness:
  "parse_timestamp_str (format_timestamp 1709209845500000) = Ok 1709209845500000
   \<and> parse_timestamp_str (format_timestamp (- 1)) = Ok 999999"
proof -
  have "late_by (- 1) = 1000000" by code_simp
  then show ?thesis using timestamp_text [of 1709209845500000] timestamp_text [of "- 1"] by (simp add: late_by_def)
qed

end
