(* ===== verification/Sql_Order.thy ===== *)
theory Sql_Order
  imports Sql_Value Sql_Text "HOL-Library.List_Lexorder"
begin

unbundle bit_operations_syntax

text \<open>
  Printing, equality and order of values and the keys of the indexes: \<^verbatim>\<open>Display\<close>, \<^verbatim>\<open>PartialEq\<close> and
  \<^verbatim>\<open>PartialOrd\<close> of \<^verbatim>\<open>sql/src/value.rs\<close> and \<^verbatim>\<open>encode_sort_key\<close> of \<^verbatim>\<open>sql/src/codec.rs\<close>. A
  double is its bits: comparison and the conversion from integers are computed on them; arithmetic and decimal text
  of doubles are the processor's and the standard library's, the parameter \<open>float_lib\<close>.
\<close>

section \<open>Doubles\<close>

datatype ordering = OLess | OEqual | OGreater

definition cmp :: "'a::linorder \<Rightarrow> 'a \<Rightarrow> ordering" where
  "cmp a b = (if a < b then OLess else if a = b then OEqual else OGreater)"

primrec reverse :: "ordering \<Rightarrow> ordering" where
  "reverse OLess = OGreater"
| "reverse OEqual = OEqual"
| "reverse OGreater = OLess"

record float_lib =
  f_add :: "u64 \<Rightarrow> u64 \<Rightarrow> u64"
  f_sub :: "u64 \<Rightarrow> u64 \<Rightarrow> u64"
  f_mul :: "u64 \<Rightarrow> u64 \<Rightarrow> u64"
  f_div :: "u64 \<Rightarrow> u64 \<Rightarrow> u64"
  f_sum :: "u64 list \<Rightarrow> u64"
  f_square :: "u64 \<Rightarrow> u64"
  f_sqrt :: "u64 \<Rightarrow> u64"
  f_parse :: "rstring \<Rightarrow> u64 option"
  f_show :: "u64 \<Rightarrow> rstring"
  f_fixed10 :: "u64 \<Rightarrow> rstring"

definition f64_nan :: "u64 \<Rightarrow> bool" where
  "f64_nan b \<longleftrightarrow> 0x7FF0000000000000 < b AND 0x7FFFFFFFFFFFFFFF"

text \<open>The position of a number in the order of all numbers; both zeros are at \<open>0\<close>.\<close>

definition f64_rank :: "u64 \<Rightarrow> int" where
  "f64_rank b = (if bit b 63 then - uint (b AND 0x7FFFFFFFFFFFFFFF) else uint b)"

definition f64_cmp :: "u64 \<Rightarrow> u64 \<Rightarrow> ordering option" where
  "f64_cmp a b = (if f64_nan a \<or> f64_nan b then None else Some (cmp (f64_rank a) (f64_rank b)))"

fun bit_len :: "nat \<Rightarrow> nat" where
  "bit_len n = (if n = 0 then 0 else Suc (bit_len (n div 2)))"

declare bit_len.simps [simp del]

definition round_half_even :: "nat \<Rightarrow> nat \<Rightarrow> nat" where
  "round_half_even n s =
     (let q = n div 2 ^ s; r = n mod 2 ^ s; h = 2 ^ (s - 1) in
      if h < r \<or> r = h \<and> odd q then q + 1 else q)"

text \<open>\<^verbatim>\<open>x as f64\<close>: rounded to the nearest double, ties to even.\<close>

definition f64_of_int :: "int \<Rightarrow> u64" where
  "f64_of_int x =
     (if x = 0 then 0
      else let n = nat \<bar>x\<bar>; k = bit_len n - 1;
               m = (if k \<le> 52 then n * 2 ^ (52 - k) else round_half_even n (k - 52)) in
        of_nat ((if x < 0 then 2 ^ 63 else 0) + (k + 1023) * 2 ^ 52 + (m - 2 ^ 52)))"

text \<open>\<^verbatim>\<open>b as i32\<close>, \<^verbatim>\<open>b as i64\<close>: truncated, clamped to the range, \<open>0\<close> for no number.\<close>

definition f64_to_int :: "int \<Rightarrow> int \<Rightarrow> u64 \<Rightarrow> int" where
  "f64_to_int lo hi b =
     (if f64_nan b then 0
      else let e = unat (drop_bit 52 b AND 0x7FF); f = unat (b AND 0xFFFFFFFFFFFFF);
               m = (if e = 0 then f else f + 2 ^ 52); e = max e 1;
               v = (if 1075 \<le> e then m * 2 ^ (e - 1075) else m div 2 ^ (1075 - e));
               x = (if bit b 63 then - int v else int v) in
        max lo (min hi x))"

section \<open>Text of a value\<close>

definition hex_digit :: "nat \<Rightarrow> byte" where
  "hex_digit n = of_nat (if n < 10 then 48 + n else 87 + n)"

definition hex_encode :: "byte list \<Rightarrow> rstring" where
  "hex_encode bytes = concat (map (\<lambda>b. [hex_digit (unat b div 16), hex_digit (unat b mod 16)]) bytes)"

definition escape_quotes :: "rstring \<Rightarrow> rstring" where
  "escape_quotes s = concat (map (\<lambda>b. if b = 34 then [92, 34] else [b]) s)"

fun join_text :: "rstring \<Rightarrow> rstring list \<Rightarrow> rstring" where
  "join_text sep [] = []"
| "join_text sep [x] = x"
| "join_text sep (x # y # ys) = x @ sep @ join_text sep (y # ys)"

fun show_val :: "float_lib \<Rightarrow> val \<Rightarrow> rstring" where
  "show_val F VNull = lit ''NULL''"
| "show_val F (VBool b) = (if b then lit ''t'' else lit ''f'')"
| "show_val F (VInt4 v) = fmt_int 0 (sint v)"
| "show_val F (VInt8 v) = fmt_int 0 (sint v)"
| "show_val F (VFloat8 v) = f_show F v"
| "show_val F (VText s) = s"
| "show_val F (VBytes b) = [92, 120] @ hex_encode b"
| "show_val F (VDate d) = format_date (sint d)"
| "show_val F (VTimestamp t) = format_timestamp (sint t)"
| "show_val F (VNumeric s) = s"
| "show_val F (VUuid s) = s"
| "show_val F (VArray vs) =
     [123] @ join_text [44] (map (\<lambda>x. case x of VText s \<Rightarrow> [34] @ escape_quotes s @ [34] | _ \<Rightarrow> show_val F x) vs) @ [125]"
| "show_val F (VJson s) = s"

section \<open>Equality and order\<close>

text \<open>The derived \<^verbatim>\<open>==\<close>: doubles compare as numbers, so not a number differs from itself.\<close>

fun val_eq :: "val \<Rightarrow> val \<Rightarrow> bool"
  and vals_eq :: "val list \<Rightarrow> val list \<Rightarrow> bool" where
  "val_eq a b =
     (case a of
        VFloat8 x \<Rightarrow> (case b of VFloat8 y \<Rightarrow> f64_cmp x y = Some OEqual | _ \<Rightarrow> False)
      | VArray xs \<Rightarrow> (case b of VArray ys \<Rightarrow> vals_eq xs ys | _ \<Rightarrow> False)
      | _ \<Rightarrow> a = b)"
| "vals_eq [] ys \<longleftrightarrow> ys = []"
| "vals_eq (x # xs) ys \<longleftrightarrow> (case ys of [] \<Rightarrow> False | y # ys \<Rightarrow> val_eq x y \<and> vals_eq xs ys)"

text \<open>The number a value stands for in a comparison with a \<^verbatim>\<open>NUMERIC\<close> or a double.\<close>

definition as_float :: "float_lib \<Rightarrow> val \<Rightarrow> u64 option" where
  "as_float F v =
     (case v of
        VInt4 i \<Rightarrow> Some (f64_of_int (sint i))
      | VInt8 i \<Rightarrow> Some (f64_of_int (sint i))
      | VFloat8 f \<Rightarrow> Some f
      | VNumeric s \<Rightarrow> f_parse F s
      | _ \<Rightarrow> None)"

definition float_pair :: "float_lib \<Rightarrow> val \<Rightarrow> val \<Rightarrow> ordering option" where
  "float_pair F a b =
     (case as_float F a of None \<Rightarrow> None | Some x \<Rightarrow>
      case as_float F b of None \<Rightarrow> None | Some y \<Rightarrow> f64_cmp x y)"

fun val_cmp :: "float_lib \<Rightarrow> val \<Rightarrow> val \<Rightarrow> ordering option"
  and vals_cmp :: "float_lib \<Rightarrow> val list \<Rightarrow> val list \<Rightarrow> ordering option" where
  "val_cmp F a b =
     (if b = VNull then Some (if a = VNull then OEqual else OGreater)
      else case a of
        VNull \<Rightarrow> Some OLess
      | VBool x \<Rightarrow> (case b of VBool y \<Rightarrow> Some (cmp x y) | _ \<Rightarrow> None)
      | VInt4 x \<Rightarrow> (case b of VInt4 y \<Rightarrow> Some (cmp (sint x) (sint y)) | VInt8 y \<Rightarrow> Some (cmp (sint x) (sint y))
          | VFloat8 y \<Rightarrow> float_pair F a b | VNumeric y \<Rightarrow> float_pair F a b | _ \<Rightarrow> None)
      | VInt8 x \<Rightarrow> (case b of VInt8 y \<Rightarrow> Some (cmp (sint x) (sint y)) | VInt4 y \<Rightarrow> Some (cmp (sint x) (sint y))
          | VFloat8 y \<Rightarrow> float_pair F a b | VNumeric y \<Rightarrow> float_pair F a b | _ \<Rightarrow> None)
      | VFloat8 x \<Rightarrow> (case b of VFloat8 y \<Rightarrow> f64_cmp x y
          | VInt4 y \<Rightarrow> float_pair F a b | VInt8 y \<Rightarrow> float_pair F a b | VNumeric y \<Rightarrow> float_pair F a b | _ \<Rightarrow> None)
      | VText x \<Rightarrow> (case b of VText y \<Rightarrow> Some (cmp x y) | _ \<Rightarrow> None)
      | VBytes x \<Rightarrow> (case b of VBytes y \<Rightarrow> Some (cmp x y) | _ \<Rightarrow> None)
      | VDate x \<Rightarrow> (case b of VDate y \<Rightarrow> Some (cmp (sint x) (sint y)) | _ \<Rightarrow> None)
      | VTimestamp x \<Rightarrow> (case b of VTimestamp y \<Rightarrow> Some (cmp (sint x) (sint y)) | _ \<Rightarrow> None)
      | VNumeric x \<Rightarrow> (case b of
            VNumeric y \<Rightarrow> (case (f_parse F x, f_parse F y) of (Some fa, Some fb) \<Rightarrow> f64_cmp fa fb | _ \<Rightarrow> Some (cmp x y))
          | VInt4 y \<Rightarrow> float_pair F a b | VInt8 y \<Rightarrow> float_pair F a b | VFloat8 y \<Rightarrow> float_pair F a b | _ \<Rightarrow> None)
      | VUuid x \<Rightarrow> (case b of VUuid y \<Rightarrow> Some (cmp x y) | _ \<Rightarrow> None)
      | VArray xs \<Rightarrow> (case b of VArray ys \<Rightarrow> vals_cmp F xs ys | _ \<Rightarrow> None)
      | VJson x \<Rightarrow> None)"
| "vals_cmp F [] ys = Some (if ys = [] then OEqual else OLess)"
| "vals_cmp F (x # xs) ys =
     (case ys of [] \<Rightarrow> Some OGreater
      | y # ys \<Rightarrow> (case val_cmp F x y of Some OEqual \<Rightarrow> vals_cmp F xs ys | r \<Rightarrow> r))"

declare val_eq.simps [simp del] val_cmp.simps [simp del]

section \<open>Sort keys\<close>

definition u32_be :: "u32 \<Rightarrow> byte list" where
  "u32_be w = rev (u32_bytes w)"

definition u64_be :: "u64 \<Rightarrow> byte list" where
  "u64_be w = rev (u64_bytes w)"

fun encode_sort_key :: "float_lib \<Rightarrow> val \<Rightarrow> byte list" where
  "encode_sort_key F VNull = [0]"
| "encode_sort_key F (VBool b) = [1, if b then 1 else 0]"
| "encode_sort_key F (VInt4 v) = 2 # u32_be (v XOR 0x80000000)"
| "encode_sort_key F (VInt8 v) = 3 # u64_be (v XOR 0x8000000000000000)"
| "encode_sort_key F (VFloat8 v) = 4 # u64_be (if drop_bit 63 v = 0 then v XOR 0x8000000000000000 else NOT v)"
| "encode_sort_key F (VText s) = 5 # s"
| "encode_sort_key F (VBytes b) = 6 # b"
| "encode_sort_key F (VDate d) = 7 # u32_be (d XOR 0x80000000)"
| "encode_sort_key F (VTimestamp t) = 8 # u64_be (t XOR 0x8000000000000000)"
| "encode_sort_key F (VNumeric s) = 9 # s"
| "encode_sort_key F (VUuid s) = 10 # s"
| "encode_sort_key F (VArray vs) = 11 # show_val F (VArray vs)"
| "encode_sort_key F (VJson s) = 12 # s"

section \<open>Keys keep the order of values\<close>

lemma cmp_mono: "(a < b \<longleftrightarrow> c < d) \<Longrightarrow> (a = b \<longleftrightarrow> c = d) \<Longrightarrow> cmp a b = cmp c d"
  by (simp add: cmp_def)

lemma cmp_Cons [simp]: "cmp (x # a) (x # b) = cmp a b"
  by (simp add: cmp_def)

lemma cmp_shift [simp]: "cmp (a + c) (b + c) = cmp a b" for a b c :: int
  by (simp add: cmp_def)

lemma cmp_bool [simp]: "cmp [if a then 1 else 0 :: byte] [if b then 1 else 0] = cmp a b"
  by (auto simp: cmp_def)

lemma less_snoc: "length a = length b \<Longrightarrow> a @ [x] < b @ [y] \<longleftrightarrow> a < b \<or> a = b \<and> x < y" for x y :: "'a::linorder"
  by (induction a b rule: list_induct2) auto

lemma split_byte:
  fixes A B r s :: int
  assumes "0 \<le> r" "r < 256" "0 \<le> s" "s < 256"
  shows "256 * A + r < 256 * B + s \<longleftrightarrow> A < B \<or> A = B \<and> r < s"
    and "256 * A + r = 256 * B + s \<longleftrightarrow> A = B \<and> r = s"
proof -
  consider "A < B" | "A = B" | "B < A" by linarith
  then show "256 * A + r < 256 * B + s \<longleftrightarrow> A < B \<or> A = B \<and> r < s"
    and "256 * A + r = 256 * B + s \<longleftrightarrow> A = B \<and> r = s" using assms by (cases; auto)+
qed

lemma rev_le_bytes_less:
  "(rev (to_le_bytes n v) < rev (to_le_bytes n w) \<longleftrightarrow> uint v mod 256 ^ n < uint w mod 256 ^ n)
   \<and> (to_le_bytes n v = to_le_bytes n w \<longleftrightarrow> uint v mod 256 ^ n = uint w mod 256 ^ n)" for v w :: "'a::len word"
proof (induction n arbitrary: v w)
  case 0
  then show ?case by simp
next
  case (Suc n)
  have m: "x mod 256 ^ Suc n = 256 * (x div 256 mod 256 ^ n) + x mod 256" for x :: int
    by (simp add: zmod_zmult2_eq)
  have b: "uint (ucast u :: byte) = uint u mod 256" "uint (drop_bit 8 u) = uint u div 256" for u :: "'a word"
    by (simp_all only: unsigned_ucast_eq unsigned_drop_bit_eq take_bit_drop_bit) (simp_all add: take_bit_eq_mod drop_bit_eq_div)
  have "rev (to_le_bytes n (drop_bit 8 v)) = rev (to_le_bytes n (drop_bit 8 w)) \<longleftrightarrow>
      uint v div 256 mod 256 ^ n = uint w div 256 mod 256 ^ n" using Suc [of "drop_bit 8 v" "drop_bit 8 w"] by (simp add: b)
  then show ?case using Suc [of "drop_bit 8 v" "drop_bit 8 w"] unfolding m
    by (subst split_byte; simp add: less_snoc b word_less_def word_uint_eq_iff conj_commute)+
qed

lemma u32_be_cmp: "cmp (u32_be v) (u32_be w) = cmp (uint v) (uint w)"
  using rev_le_bytes_less [of 4 v w] uint_lt2p [of v] uint_lt2p [of w] by (intro cmp_mono) (simp_all add: u32_be_def)

lemma u64_be_cmp: "cmp (u64_be v) (u64_be w) = cmp (uint v) (uint w)"
  using rev_le_bytes_less [of 8 v w] uint_lt2p [of v] uint_lt2p [of w] by (intro cmp_mono) (simp_all add: u64_be_def)

text \<open>Flipping the sign bit turns the signed order into the unsigned one.\<close>

lemma flip_int: "flip_bit n x = (if bit x n then x - 2 ^ n else x + 2 ^ n)" for x :: int
  by (simp add: flip_bit_eq_if set_bit_eq unset_bit_eq)

lemma uint_flip_sign:
  fixes v :: "'a::len word"
  assumes "LENGTH('a) = Suc n"
  shows "uint (v XOR push_bit n 1) = sint v + 2 ^ n"
proof -
  have "uint (v XOR push_bit n 1) = flip_bit n (uint v)"
    using assms by (simp only: flip_bit_eq_xor unsigned_xor_eq unsigned_push_bit_eq unsigned_1)
      (simp add: take_bit_eq_mod)
  moreover have "sint v = uint v - 2 ^ Suc n * of_bool (bit (uint v) n)"
    using assms take_bit_int_eq_self [of "uint v" "Suc n"] uint_lt2p [of v]
    by (simp add: sint_uint signed_take_bit_eq_take_bit_minus)
  ultimately show ?thesis by (simp add: flip_int)
qed

lemma flip32: "uint (v XOR 0x80000000 :: u32) = sint v + 2 ^ 31"
  using uint_flip_sign [of 31 v] by simp

lemma flip64: "uint (v XOR 0x8000000000000000 :: u64) = sint v + 2 ^ 63"
  using uint_flip_sign [of 63 v] by simp

lemma top_div: "uint v div 2 ^ 63 = (if 2 ^ 63 \<le> uint v then 1 else 0)" for v :: u64
  using uint_lt2p [of v] div_eqI [of "uint v" "2 ^ 63" 1 "uint v - 2 ^ 63"] by (simp add: div_pos_pos_trivial)

lemma top_bit: "bit v 63 \<longleftrightarrow> 2 ^ 63 \<le> uint v" for v :: u64
proof -
  have "bit v 63 \<longleftrightarrow> bit (uint v) 63" by (simp add: bit_uint_iff)
  also have "\<dots> \<longleftrightarrow> odd (uint v div 2 ^ 63)" by (rule bit_iff_odd)
  also have "uint v div 2 ^ 63 = (if 2 ^ 63 \<le> uint v then 1 else 0)" by (rule top_div)
  finally show ?thesis by simp
qed

lemma negative_rank: "bit v 63 \<Longrightarrow> f64_rank v = 2 ^ 63 - uint v"
proof -
  assume b: "bit v 63"
  have "v AND 0x7FFFFFFFFFFFFFFF = take_bit 63 v" by (simp add: take_bit_eq_mask mask_eq_exp_minus_1)
  then have "uint (v AND 0x7FFFFFFFFFFFFFFF) = take_bit 63 (uint v)" by (simp only: unsigned_take_bit_eq)
  then have "uint (v AND 0x7FFFFFFFFFFFFFFF) = uint v mod 2 ^ 63" by (simp only: take_bit_eq_mod)
  also have "\<dots> = uint v - 2 ^ 63" using b top_bit [of v] top_div [of v] minus_div_mult_eq_mod [of "uint v" "2 ^ 63"] by simp
  finally show ?thesis using b by (simp add: f64_rank_def)
qed

text \<open>The key of a double is its rank, with negative numbers one lower to make room for the negative zero.\<close>

lemma f64_key:
  "uint (if drop_bit 63 v = 0 then v XOR 0x8000000000000000 else NOT v) = f64_rank v + 2 ^ 63 - (if bit v 63 then 1 else 0)"
proof -
  have lt: "0 \<le> uint v" "uint v < 2 ^ 64" using uint_lt2p [of v] by simp_all
  have "uint (drop_bit 63 v) = uint v div 2 ^ 63"
    using lt by (simp only: unsigned_drop_bit_eq) (simp add: drop_bit_eq_div take_bit_int_eq_self)
  then have d: "drop_bit 63 v = 0 \<longleftrightarrow> \<not> bit v 63"
    unfolding top_bit word_uint_eq_iff by (simp only: top_div unsigned_0) simp
  show ?thesis
  proof (cases "bit v 63")
    case True
    have "(- uint v - 1) mod 2 ^ 64 = (2 ^ 64 - 1 - uint v) mod 2 ^ 64"
      using mod_add_self2 [of "- uint v - 1" "2 ^ 64"] by (simp add: algebra_simps)
    moreover have "(2 ^ 64 - 1 - uint v) mod 2 ^ 64 = 2 ^ 64 - 1 - uint v" by (rule mod_pos_pos_trivial) (use lt in linarith)+
    ultimately have "uint (NOT v) = 2 ^ 64 - 1 - uint v" by (simp add: unsigned_not_eq take_bit_eq_mod not_int_def)
    then show ?thesis using True d by (simp add: negative_rank)
  next
    case False
    have "sint v = uint v" using sint_small [of v] False top_bit [of v] by simp
    then show ?thesis using False d flip64 [of v] by (simp add: f64_rank_def)
  qed
qed

text \<open>The values a key represents up to equality: neither JSON nor arrays nor decimal text, no double that is
  not a number, and no negative zero.\<close>

fun sortable :: "val \<Rightarrow> bool" where
  "sortable (VFloat8 f) \<longleftrightarrow> \<not> f64_nan f \<and> f \<noteq> 0x8000000000000000"
| "sortable (VNumeric s) \<longleftrightarrow> False"
| "sortable (VArray vs) \<longleftrightarrow> False"
| "sortable (VJson s) \<longleftrightarrow> False"
| "sortable _ \<longleftrightarrow> True"

lemma f64_key_cmp:
  assumes "sortable (VFloat8 v)" "sortable (VFloat8 w)"
  defines "key \<equiv> \<lambda>v :: u64. if drop_bit 63 v = 0 then v XOR 0x8000000000000000 else NOT v"
  shows "f64_cmp v w = Some (cmp (uint (key v)) (uint (key w)))"
proof -
  have n: "f64_rank x < 0" if "bit x 63" "x \<noteq> 0x8000000000000000" for x
    using that top_bit [of x] negative_rank [of x] by (simp add: word_uint_eq_iff)
  have p: "0 \<le> f64_rank x" if "\<not> bit x 63" for x using that by (simp add: f64_rank_def)
  have "cmp (f64_rank v) (f64_rank w) = cmp (uint (key v)) (uint (key w))"
    unfolding key_def f64_key using assms(1,2) n [of v] n [of w] p [of v] p [of w] by (intro cmp_mono) auto
  then show ?thesis using assms(1,2) by (simp add: f64_cmp_def)
qed

lemma sort_key_order:
  assumes "sortable a" "sortable b" "a = VNull \<or> b = VNull \<or> value_type a = value_type b"
  shows "val_cmp F a b = Some (cmp (encode_sort_key F a) (encode_sort_key F b))"
proof (cases "a = VNull \<or> b = VNull")
  case True
  then show ?thesis using assms(1,2) by (cases a; cases b) (simp_all add: val_cmp.simps cmp_def)
next
  case False
  then have "value_type a = value_type b" using assms(3) by simp
  then show ?thesis using False assms(1,2) f64_key_cmp
    by (cases a; cases b) (simp_all add: val_cmp.simps u32_be_cmp u64_be_cmp flip32 flip64)
qed

text \<open>
  \<^bold>\<open>C15.\<close> The key of a value in an index sorts as the value does, for two values of one type out of BOOLEAN, INT4, INT8,
  FLOAT8 without NaN and negative zero, TEXT, BYTEA, DATE, TIMESTAMP and UUID; a missing value sorts first. In particular
  two such values have the same key exactly when they are equal. NUMERIC, arrays and JSON are left out.
\<close>

theorem sort_keys_keep_order:
  assumes "sortable a" "sortable b" "a = VNull \<or> b = VNull \<or> value_type a = value_type b"
  shows "val_cmp F a b = Some (cmp (encode_sort_key F a) (encode_sort_key F b))"
  using assms by (rule sort_key_order)

theorem sort_keys_keep_order_witness:
  "\<forall>F. val_cmp F (VInt4 (- 5)) (VInt4 7) = Some OLess
   \<and> cmp (encode_sort_key F (VInt4 (- 5))) (encode_sort_key F (VInt4 7)) = OLess"
proof
  fix F
  show "val_cmp F (VInt4 (- 5)) (VInt4 7) = Some OLess
      \<and> cmp (encode_sort_key F (VInt4 (- 5))) (encode_sort_key F (VInt4 7)) = OLess"
    using sort_keys_keep_order [of "VInt4 (- 5)" "VInt4 7" F] by (simp add: val_cmp.simps cmp_def)
qed


text \<open>Finding. NUMERIC values are compared as numbers and indexed by their text: ten is above nine, its key below.\<close>

theorem numeric_sort_keys_disagree:
  assumes "f_parse F (lit ''10'') = Some 0x4024000000000000" and "f_parse F (lit ''9'') = Some 0x4022000000000000"
  shows "val_cmp F (VNumeric (lit ''10'')) (VNumeric (lit ''9'')) = Some OGreater
    \<and> cmp (encode_sort_key F (VNumeric (lit ''10''))) (encode_sort_key F (VNumeric (lit ''9''))) = OLess"
proof -
  have "f64_cmp 0x4024000000000000 0x4022000000000000 = Some OGreater" by code_simp
  moreover have "cmp (9 # lit ''10'') (9 # lit ''9'') = OLess" by code_simp
  ultimately show ?thesis using assms by (simp add: val_cmp.simps)
qed

end
