(* ===== verification/Sql_Plan.thy ===== *)
theory Sql_Plan
  imports Sql_Value
begin

text \<open>
  Expressions and logical plans: \<^verbatim>\<open>sql/src/plan.rs\<close>, constructor by constructor. A field of a Rust variant
  is an argument of the constructor, in the order of the source. Expressions hold subqueries: \<open>'p expr\<close> is an
  expression over plans \<open>'p\<close>, and the plans are the type \<open>logical_plan\<close> of which they are the parameter.
\<close>

datatype binary_op =
    OpEq | OpNotEq | OpLt | OpLe | OpGt | OpGe | OpAnd | OpOr | OpAdd | OpSub | OpMul | OpDiv | OpConcat | OpMod
  | OpJsonGet | OpJsonGetText

datatype unary_op = OpNeg | OpNot

datatype set_operation = Union_op | Intersect_op | Except_op

datatype transaction_control_kind =
  TcBegin | TcCommit | TcRollback | TcSavepoint | TcRollbackToSavepoint | TcReleaseSavepoint

datatype join_algorithm = NestedLoop | Hash

datatype join_type = JInner | JLeft | JRight | JFull | JCross

datatype window_frame_units = FrameRows | FrameRange | FrameGroups

datatype window_frame_bound =
  UnboundedPreceding | Preceding u64 | CurrentRow | Following u64 | UnboundedFollowing

record window_frame =
  frame_units :: window_frame_units
  frame_start :: window_frame_bound
  frame_end :: window_frame_bound

datatype alter_table_op =
    AddColumn rstring rstring bool
  | DropColumn rstring
  | RenameColumn rstring rstring
  | RenameTable rstring
  | SetColumnType rstring data_type
  | SetNotNull rstring
  | DropNotNull rstring
  | AddCheckConstraint "rstring option" rstring
  | DropConstraint rstring
  | SetDefaultExpr rstring rstring
  | DropDefault rstring

datatype agg_func =
    AggCount | AggCountDistinct | AggSum | AggAvg | AggMin | AggMax | AggStddev | AggStddevPop | AggVariance | AggVarPop
  | AggStringAgg rstring | AggBoolAnd | AggBoolOr | AggArrayAgg

datatype (plugins only: code size) 'p expr =
    EColumn "rstring option" rstring
  | ELiteral val
  | EBinaryOp "'p expr" binary_op "'p expr"
  | EUnaryOp unary_op "'p expr"
  | EIsNull "'p expr"
  | EIsNotNull "'p expr"
  | EIsDistinctFrom "'p expr" "'p expr"
  | EIsNotDistinctFrom "'p expr" "'p expr"
  | ECast "'p expr" data_type
  | EFunctionCall rstring "'p expr list"
  | EInSubquery "'p expr" 'p bool
  | EExists 'p bool
  | EScalarSubquery 'p
  | ECase "'p expr option" "('p expr \<times> 'p expr) list" "'p expr option"
  | ECoalesce "'p expr list"
  | ENullIf "'p expr" "'p expr"

datatype (plugins only: code size) 'p sort_key = SortKey (sk_expr: "'p expr") (sk_ascending: bool) (sk_nulls_first: bool)

datatype (plugins only: code size) 'p window_function =
    WRowNumber | WRank | WDenseRank
  | WSum "'p expr" | WAvg "'p expr" | WMin "'p expr" | WMax "'p expr" | WCount "'p expr"
  | WLead "'p expr" u64 "'p expr option" | WLag "'p expr" u64 "'p expr option"
  | WFirstValue "'p expr" | WLastValue "'p expr" | WNthValue "'p expr" u64
  | WCumeDist | WPercentRank | WNtile "'p expr"

datatype (plugins only: code size) 'p window_expr =
  WindowExpr rstring "'p window_function" "'p expr list" "'p sort_key list" "window_frame option"

datatype (plugins only: code size) 'p insert_source = SourceValues "'p expr list list" | SourceQuery 'p

datatype (plugins only: code size) 'p on_conflict_action = DoNothing | DoUpdate "(rstring \<times> 'p expr) list"

datatype (plugins only: code size) 'p on_conflict = OnConflict "rstring list" "'p on_conflict_action"

datatype (plugins only: code size) logical_plan =
    PTableScan rstring "rstring option" table_schema "logical_plan expr option"
  | PFilter logical_plan "logical_plan expr"
  | PProject logical_plan "(rstring \<times> logical_plan expr) list" bool
  | PJoin logical_plan logical_plan join_type "logical_plan expr" "rstring list" join_algorithm
  | PAggregate logical_plan "logical_plan expr list" "(rstring \<times> agg_func \<times> logical_plan expr) list" "logical_plan expr option" "logical_plan expr list list option"
  | PSort logical_plan "logical_plan sort_key list"
  | PLimit logical_plan u64 u64
  | PSetOp set_operation bool logical_plan logical_plan
  | PCte "(rstring \<times> logical_plan) list" logical_plan
  | PValues "(rstring \<times> data_type) list" "val list list"
  | PInsert rstring table_schema "rstring list" "logical_plan insert_source" "(rstring \<times> logical_plan expr) list" "logical_plan on_conflict option"
  | PUpdate rstring table_schema "(rstring \<times> logical_plan expr) list" "logical_plan expr option" "(rstring \<times> logical_plan expr) list" "logical_plan option"
  | PDelete rstring table_schema "logical_plan expr option" "(rstring \<times> logical_plan expr) list" "logical_plan option"
  | PWindow logical_plan "logical_plan window_expr list"
  | PRecursiveCte rstring "rstring list" logical_plan logical_plan "rstring option" "rstring option" "rstring option"
      "rstring option" "rstring option"
  | PCreateTable rstring rstring "column_def list" bool "rstring option" "rstring list" "table_foreign_key list"
      "check_constraint list"
  | PDropTable rstring rstring bool
  | PCreateRole rstring bool bool "rstring option"
  | PCreateIndex rstring rstring rstring "rstring option"
  | PAlterTable rstring alter_table_op
  | PIndexScan rstring table_schema rstring "val option" "val option" "val option" "logical_plan expr option"
  | PTransactionControl transaction_control_kind
  | PGrant rstring rstring rstring "rstring list" "rstring list"
  | PRevoke rstring rstring rstring "rstring list" "rstring list"
  | PVacuum "rstring option" rstring bool
  | PSystemCatalogScan rstring rstring "logical_plan expr option"
  | PCopyFrom rstring rstring rstring u32 bool u32
  | PCopyTo "rstring option" "logical_plan option" rstring u32 bool
  | PPrepare rstring rstring
  | PExecutePrepared rstring "val list"
  | PDeallocate rstring
  | PCreateFunction rstring rstring "(rstring \<times> data_type) list" data_type rstring rstring
  | PDropFunction rstring rstring bool
  | PGenerateSeries "logical_plan expr" "logical_plan expr" "logical_plan expr"
  | PLateral logical_plan logical_plan rstring
  | PNoOp rstring
  | PCreateSequence rstring rstring u64 u64 "u64 option" "u64 option" bool
  | PDropSequence rstring rstring bool
  | PCreateDatabase rstring bool
  | PDropDatabase rstring bool
  | PCreateSchema rstring bool
  | PExplain bool logical_plan

end
