(* ===== verification/Sql_Eval.thy ===== *)
theory Sql_Eval
  imports Sql_Order Sql_Plan
begin

text \<open>
  Evaluation of expressions: \<^verbatim>\<open>Value::cast_to\<close> and \<^verbatim>\<open>is_valid_numeric\<close> of \<^verbatim>\<open>sql/src/value.rs\<close> and
  \<^verbatim>\<open>eval_binary_op\<close>, \<^verbatim>\<open>checked_numeric_op\<close> and \<^verbatim>\<open>eval_expr\<close> of \<^verbatim>\<open>sql/src/executor.rs\<close>. The
  environment holds what an expression refers to: the JSON library, arithmetic of doubles, Unicode case mapping, the
  built-in and stored functions and the execution of subqueries.
\<close>

unbundle bit_operations_syntax

section \<open>Casts\<close>

datatype json = JNull | JBool bool | JNumber rstring | JString rstring | JArray "json list" | JObject "(rstring \<times> json) list"

record json_lib =
  j_parse :: "rstring \<Rightarrow> json option"
  j_text :: "json \<Rightarrow> rstring"

definition ascii_lower :: "rstring \<Rightarrow> rstring" where
  "ascii_lower s = map (\<lambda>b. if 65 \<le> b \<and> b \<le> 90 then b + 32 else b) s"

fun numeric_chars :: "bool \<Rightarrow> rstring \<Rightarrow> bool" where
  "numeric_chars has_dot [] \<longleftrightarrow> True"
| "numeric_chars has_dot (c # cs) \<longleftrightarrow>
     (if c = 46 then \<not> has_dot \<and> numeric_chars True cs else is_digit c \<and> numeric_chars has_dot cs)"

definition is_valid_numeric :: "rstring \<Rightarrow> bool" where
  "is_valid_numeric s = (let s = dropWhile (\<lambda>b. b = 43 \<or> b = 45) s in s \<noteq> [] \<and> numeric_chars False s)"

definition i32_of_float :: "u64 \<Rightarrow> u32" where
  "i32_of_float f = word_of_int (f64_to_int (- 2147483648) 2147483647 f)"

definition i64_of_float :: "u64 \<Rightarrow> u64" where
  "i64_of_float f = word_of_int (f64_to_int (- 9223372036854775808) 9223372036854775807 f)"

definition parse_float :: "float_lib \<Rightarrow> rstring \<Rightarrow> u64 option" where
  "parse_float F trimmed =
     (let l = ascii_lower trimmed in
      if l = lit ''infinity'' \<or> l = lit ''+infinity'' then Some 0x7FF0000000000000
      else if l = lit ''-infinity'' then Some 0xFFF0000000000000
      else if l = lit ''nan'' then Some 0x7FF8000000000000
      else f_parse F trimmed)"

definition parse_bool :: "rstring \<Rightarrow> bool option" where
  "parse_bool s =
     (let l = ascii_lower (trim s) in
      if l \<in> set (map lit [''true'', ''t'', ''yes'', ''on'', ''1'']) then Some True
      else if l \<in> set (map lit [''false'', ''f'', ''no'', ''off'', ''0'']) then Some False
      else None)"

text \<open>The casts from a text; the arms of \<^verbatim>\<open>cast_to\<close> whose source is \<^verbatim>\<open>Value::Text\<close>.\<close>

definition cast_text :: "float_lib \<Rightarrow> json_lib \<Rightarrow> rstring \<Rightarrow> data_type \<Rightarrow> (sql_error, val) outcome" where
  "cast_text F J s ty =
     (case ty of
        TText \<Rightarrow> Ok (VText s)
      | TVarChar n \<Rightarrow> Ok (VText s)
      | TDate \<Rightarrow> ok_or TypeError (map_option (\<lambda>d. VDate (word_of_int d)) (parse_date_str s))
      | TTimestamp \<Rightarrow> map_err (\<lambda>_. TypeError) (obind (parse_timestamp_str s) (\<lambda>t. Ok (VTimestamp (word_of_int t))))
      | TTimestampTz \<Rightarrow> map_err (\<lambda>_. TypeError) (obind (parse_timestamp_str s) (\<lambda>t. Ok (VTimestamp (word_of_int t))))
      | TNumeric \<Rightarrow>
          if f_parse F (trim s) \<noteq> None \<or> is_valid_numeric (trim s) then Ok (VNumeric (trim s)) else Err TypeError
      | TUuid \<Rightarrow> Ok (VUuid s)
      | TInt4 \<Rightarrow> ok_or TypeError (map_option (\<lambda>i. VInt4 (word_of_int i)) (parse_i32 (trim s)))
      | TInt8 \<Rightarrow> ok_or TypeError (map_option (\<lambda>i. VInt8 (word_of_int i)) (parse_i64 (trim s)))
      | TFloat8 \<Rightarrow> ok_or TypeError (map_option VFloat8 (parse_float F (trim s)))
      | TBoolean \<Rightarrow> ok_or TypeError (map_option VBool (parse_bool s))
      | TJson \<Rightarrow> if j_parse J s \<noteq> None then Ok (VJson s) else Err TypeError
      | TJsonb \<Rightarrow> if j_parse J s \<noteq> None then Ok (VJson s) else Err TypeError
      | _ \<Rightarrow> Err TypeError)"

definition cast_to :: "float_lib \<Rightarrow> json_lib \<Rightarrow> val \<Rightarrow> data_type \<Rightarrow> (sql_error, val) outcome" where
  "cast_to F J v ty =
     (case v of
        VNull \<Rightarrow> Ok VNull
      | VText s \<Rightarrow> cast_text F J s ty
      | _ \<Rightarrow>
         (case ty of
            TText \<Rightarrow> Ok (VText (show_val F v))
          | TVarChar n \<Rightarrow> Ok (VText (show_val F v))
          | _ \<Rightarrow>
             (case v of
                VBool b \<Rightarrow> (case ty of TBoolean \<Rightarrow> Ok v | TInt4 \<Rightarrow> Ok (VInt4 (if b then 1 else 0)) | _ \<Rightarrow> Err TypeError)
              | VInt4 i \<Rightarrow> (case ty of TInt4 \<Rightarrow> Ok v | TInt8 \<Rightarrow> Ok (VInt8 (scast i)) | TFloat8 \<Rightarrow> Ok (VFloat8 (f64_of_int (sint i)))
                  | TNumeric \<Rightarrow> Ok (VNumeric (fmt_int 0 (sint i))) | _ \<Rightarrow> Err TypeError)
              | VInt8 i \<Rightarrow> (case ty of TInt8 \<Rightarrow> Ok v | TInt4 \<Rightarrow> Ok (VInt4 (ucast i)) | TFloat8 \<Rightarrow> Ok (VFloat8 (f64_of_int (sint i)))
                  | TNumeric \<Rightarrow> Ok (VNumeric (fmt_int 0 (sint i))) | _ \<Rightarrow> Err TypeError)
              | VFloat8 f \<Rightarrow> (case ty of TFloat8 \<Rightarrow> Ok v | TInt4 \<Rightarrow> Ok (VInt4 (i32_of_float f)) | TInt8 \<Rightarrow> Ok (VInt8 (i64_of_float f))
                  | TNumeric \<Rightarrow> Ok (VNumeric (f_show F f)) | _ \<Rightarrow> Err TypeError)
              | VBytes b \<Rightarrow> (case ty of TBytea \<Rightarrow> Ok v | _ \<Rightarrow> Err TypeError)
              | VDate d \<Rightarrow> (case ty of TDate \<Rightarrow> Ok v | _ \<Rightarrow> Err TypeError)
              | VTimestamp t \<Rightarrow> (case ty of TTimestamp \<Rightarrow> Ok v | TTimestampTz \<Rightarrow> Ok v | _ \<Rightarrow> Err TypeError)
              | VNumeric s \<Rightarrow> (case ty of TNumeric \<Rightarrow> Ok v
                  | TFloat8 \<Rightarrow> ok_or TypeError (map_option VFloat8 (f_parse F s))
                  | TInt4 \<Rightarrow> ok_or TypeError (map_option (\<lambda>f. VInt4 (i32_of_float f)) (f_parse F s))
                  | TInt8 \<Rightarrow> ok_or TypeError (map_option (\<lambda>f. VInt8 (i64_of_float f)) (f_parse F s))
                  | _ \<Rightarrow> Err TypeError)
              | VUuid s \<Rightarrow> (case ty of TUuid \<Rightarrow> Ok v | _ \<Rightarrow> Err TypeError)
              | VArray vs \<Rightarrow> (case ty of TArray t \<Rightarrow> Ok v | _ \<Rightarrow> Err TypeError)
              | VJson s \<Rightarrow> (case ty of TJson \<Rightarrow> Ok v | TJsonb \<Rightarrow> Ok v | _ \<Rightarrow> Err TypeError)
              | _ \<Rightarrow> Err TypeError)))"

section \<open>Arithmetic\<close>

text \<open>\<^verbatim>\<open>checked_add\<close> and its kin at width \<open>n\<close>.\<close>

definition checked :: "nat \<Rightarrow> int \<Rightarrow> int option" where
  "checked n x = (if - (2 ^ (n - 1)) \<le> x \<and> x < 2 ^ (n - 1) then Some x else None)"

definition checked_div :: "nat \<Rightarrow> int \<Rightarrow> int \<Rightarrow> int option" where
  "checked_div n a b = (if b = 0 then None else checked n (a sdiv b))"

definition trim_end_byte :: "byte \<Rightarrow> rstring \<Rightarrow> rstring" where
  "trim_end_byte c s = rev (dropWhile (\<lambda>b. b = c) (rev s))"

definition format_numeric :: "float_lib \<Rightarrow> u64 \<Rightarrow> rstring" where
  "format_numeric F f =
     (let s = f_fixed10 F f in if 46 \<in> set s then trim_end_byte 46 (trim_end_byte 48 s) else s)"

definition checked_numeric_op ::
  "float_lib \<Rightarrow> (nat \<Rightarrow> int \<Rightarrow> int \<Rightarrow> int option) \<Rightarrow> (u64 \<Rightarrow> u64 \<Rightarrow> u64) \<Rightarrow> val \<Rightarrow> val \<Rightarrow> (sql_error, val) outcome" where
  "checked_numeric_op F op_int op_f64 left right =
     (let int4 = (\<lambda>a b. ok_or NumericOverflow (map_option (\<lambda>r. VInt4 (word_of_int r)) (op_int 32 a b)));
          int8 = (\<lambda>a b. ok_or NumericOverflow (map_option (\<lambda>r. VInt8 (word_of_int r)) (op_int 64 a b)));
          mixed = (case as_float F left of None \<Rightarrow> Err TypeError | Some lf \<Rightarrow>
                   case as_float F right of None \<Rightarrow> Err TypeError | Some rf \<Rightarrow>
                     if (case left of VNumeric _ \<Rightarrow> True | _ \<Rightarrow> False) \<or> (case right of VNumeric _ \<Rightarrow> True | _ \<Rightarrow> False)
                     then Ok (VNumeric (format_numeric F (op_f64 lf rf)))
                     else Ok (VFloat8 (op_f64 lf rf))) in
      case left of
        VInt4 a \<Rightarrow> (case right of VInt4 b \<Rightarrow> int4 (sint a) (sint b) | VInt8 b \<Rightarrow> int8 (sint a) (sint b) | _ \<Rightarrow> mixed)
      | VInt8 a \<Rightarrow> (case right of VInt8 b \<Rightarrow> int8 (sint a) (sint b) | VInt4 b \<Rightarrow> int8 (sint a) (sint b) | _ \<Rightarrow> mixed)
      | _ \<Rightarrow> mixed)"

text \<open>\<^verbatim>\<open>%\<close> of the language: the remainder of the smallest number by \<open>-1\<close> panics.\<close>

definition rem_op :: "nat \<Rightarrow> (int \<Rightarrow> val) \<Rightarrow> int \<Rightarrow> int \<Rightarrow> (sql_error, val) outcome" where
  "rem_op n mk a b = (if b = 0 \<or> b = - 1 \<and> a = - (2 ^ (n - 1)) then Panic else Ok (mk (a smod b)))"

section \<open>Binary operators\<close>

definition coerce :: "val \<Rightarrow> val \<Rightarrow> (sql_error, val \<times> val) outcome" where
  "coerce left right =
     (case left of
        VDate d \<Rightarrow> (case right of
            VText s \<Rightarrow> (case parse_date_str s of Some e \<Rightarrow> Ok (left, VDate (word_of_int e)) | None \<Rightarrow> Ok (left, right))
          | _ \<Rightarrow> Ok (left, right))
      | VTimestamp t \<Rightarrow> (case right of
            VText s \<Rightarrow> (case parse_timestamp_str s of
                Ok u \<Rightarrow> Ok (left, VTimestamp (word_of_int u)) | Err _ \<Rightarrow> Ok (left, right) | Panic \<Rightarrow> Panic)
          | _ \<Rightarrow> Ok (left, right))
      | VUuid u \<Rightarrow> (case right of VText s \<Rightarrow> Ok (left, VUuid s) | _ \<Rightarrow> Ok (left, right))
      | VText s \<Rightarrow> (case right of
            VDate d \<Rightarrow> (case parse_date_str s of Some e \<Rightarrow> Ok (VDate (word_of_int e), right) | None \<Rightarrow> Ok (left, right))
          | VTimestamp t \<Rightarrow> (case parse_timestamp_str s of
                Ok u \<Rightarrow> Ok (VTimestamp (word_of_int u), right) | Err _ \<Rightarrow> Ok (left, right) | Panic \<Rightarrow> Panic)
          | VUuid u \<Rightarrow> Ok (VUuid s, right)
          | _ \<Rightarrow> Ok (left, right))
      | _ \<Rightarrow> Ok (left, right))"

definition json_at :: "json \<Rightarrow> nat \<Rightarrow> json" where
  "json_at v i = (case v of JArray js \<Rightarrow> if i < length js then js ! i else JNull | _ \<Rightarrow> JNull)"

definition json_get :: "json_lib \<Rightarrow> rstring \<Rightarrow> val \<Rightarrow> json" where
  "json_get J text right =
     (let v = (case j_parse J text of Some v \<Rightarrow> v | None \<Rightarrow> JNull) in
      case right of
        VText key \<Rightarrow> (case v of JObject kvs \<Rightarrow> (case map_of kvs key of Some w \<Rightarrow> w | None \<Rightarrow> JNull) | _ \<Rightarrow> JNull)
      | VInt4 i \<Rightarrow> json_at v (unat (scast i :: u64))
      | VInt8 i \<Rightarrow> json_at v (unat i)
      | _ \<Rightarrow> JNull)"

definition eval_binary_op :: "float_lib \<Rightarrow> json_lib \<Rightarrow> val \<Rightarrow> binary_op \<Rightarrow> val \<Rightarrow> (sql_error, val) outcome" where
  "eval_binary_op F J left op right =
     (if left = VNull \<and> op = OpAnd then Ok (if right = VBool False then VBool False else VNull)
      else if right = VNull \<and> op = OpAnd then Ok (if left = VBool False then VBool False else VNull)
      else if left = VNull \<and> op = OpOr then Ok (if right = VBool True then VBool True else VNull)
      else if right = VNull \<and> op = OpOr then Ok (if left = VBool True then VBool True else VNull)
      else if left = VNull \<or> right = VNull then Ok VNull
      else obind (coerce left right) (\<lambda>(left, right).
        case op of
          OpEq \<Rightarrow> Ok (VBool (val_eq left right \<or> val_cmp F left right = Some OEqual))
        | OpNotEq \<Rightarrow> Ok (VBool (\<not> val_eq left right \<and> val_cmp F left right \<noteq> Some OEqual))
        | OpLt \<Rightarrow> Ok (VBool (val_cmp F left right = Some OLess))
        | OpLe \<Rightarrow> Ok (VBool (val_cmp F left right = Some OLess \<or> val_cmp F left right = Some OEqual))
        | OpGt \<Rightarrow> Ok (VBool (val_cmp F left right = Some OGreater))
        | OpGe \<Rightarrow> Ok (VBool (val_cmp F left right = Some OGreater \<or> val_cmp F left right = Some OEqual))
        | OpAnd \<Rightarrow> (case (left, right) of (VBool a, VBool b) \<Rightarrow> Ok (VBool (a \<and> b)) | _ \<Rightarrow> Err TypeError)
        | OpOr \<Rightarrow> (case (left, right) of (VBool a, VBool b) \<Rightarrow> Ok (VBool (a \<or> b)) | _ \<Rightarrow> Err TypeError)
        | OpAdd \<Rightarrow> checked_numeric_op F (\<lambda>n a b. checked n (a + b)) (f_add F) left right
        | OpSub \<Rightarrow> checked_numeric_op F (\<lambda>n a b. checked n (a - b)) (f_sub F) left right
        | OpMul \<Rightarrow> checked_numeric_op F (\<lambda>n a b. checked n (a * b)) (f_mul F) left right
        | OpDiv \<Rightarrow>
            if right = VInt4 0 \<or> right = VInt8 0 \<or> (case right of VFloat8 f \<Rightarrow> f64_cmp f 0 = Some OEqual | _ \<Rightarrow> False)
            then Err DivisionByZero
            else checked_numeric_op F checked_div (f_div F) left right
        | OpConcat \<Rightarrow> Ok (VText (show_val F left @ show_val F right))
        | OpMod \<Rightarrow>
            if right = VInt4 0 \<or> right = VInt8 0 then Err DivisionByZero
            else (case (left, right) of
                (VInt4 a, VInt4 b) \<Rightarrow> rem_op 32 (\<lambda>r. VInt4 (word_of_int r)) (sint a) (sint b)
              | (VInt8 a, VInt8 b) \<Rightarrow> rem_op 64 (\<lambda>r. VInt8 (word_of_int r)) (sint a) (sint b)
              | (VInt4 a, VInt8 b) \<Rightarrow> rem_op 64 (\<lambda>r. VInt8 (word_of_int r)) (sint a) (sint b)
              | (VInt8 a, VInt4 b) \<Rightarrow> rem_op 64 (\<lambda>r. VInt8 (word_of_int r)) (sint a) (sint b)
              | _ \<Rightarrow> Err Execution)
        | OpJsonGet \<Rightarrow>
            (case (case left of VJson s \<Rightarrow> Some s | VText s \<Rightarrow> Some s | _ \<Rightarrow> None) of
               None \<Rightarrow> Ok VNull
             | Some s \<Rightarrow> (case json_get J s right of JNull \<Rightarrow> Ok VNull | w \<Rightarrow> Ok (VJson (j_text J w))))
        | OpJsonGetText \<Rightarrow>
            (case (case left of VJson s \<Rightarrow> Some s | VText s \<Rightarrow> Some s | _ \<Rightarrow> None) of
               None \<Rightarrow> Ok VNull
             | Some s \<Rightarrow> (case json_get J s right of JNull \<Rightarrow> Ok VNull | JString t \<Rightarrow> Ok (VText t) | w \<Rightarrow> Ok (VText (j_text J w))))))"

section \<open>Expressions\<close>

record 'p eval_env =
  floats :: float_lib
  json_of :: json_lib
  to_lowercase :: "rstring \<Rightarrow> rstring"
  eval_function :: "rstring \<Rightarrow> 'p expr list \<Rightarrow> row \<Rightarrow> (sql_error, val) outcome"
  run_subquery :: "'p \<Rightarrow> row \<Rightarrow> (sql_error, row list) outcome"

definition columns_named :: "row \<Rightarrow> rstring \<Rightarrow> nat list" where
  "columns_named r name =
     filter (\<lambda>i. fst (row_schema r ! i) = name \<or> ends_with (fst (row_schema r ! i)) (46 # name)) [0..<length (row_schema r)]"

definition value_at :: "row \<Rightarrow> nat \<Rightarrow> (sql_error, val) outcome" where
  "value_at r i = (if i < length (row_values r) then Ok (row_values r ! i) else Panic)"

definition eval_column :: "(rstring \<Rightarrow> rstring) \<Rightarrow> rstring option \<Rightarrow> rstring \<Rightarrow> row \<Rightarrow> (sql_error, val) outcome" where
  "eval_column lower table name r =
     (let qualified = (case table of
            None \<Rightarrow> None
          | Some tbl \<Rightarrow>
              (let q = tbl @ [46] @ name; ql = lower tbl @ [46] @ lower name in
               case row_get r q of Some v \<Rightarrow> Some v | None \<Rightarrow> if ql \<noteq> q then row_get r ql else None)) in
      case qualified of Some v \<Rightarrow> Ok v | None \<Rightarrow>
      case row_get r name of Some v \<Rightarrow> Ok v | None \<Rightarrow>
      case columns_named r name of
        [] \<Rightarrow> Err (SqlColumnNotFound name)
      | [i] \<Rightarrow> value_at r i
      | _ \<Rightarrow> Err (AmbiguousColumn name))"

definition eval_unary_op :: "unary_op \<Rightarrow> val \<Rightarrow> (sql_error, val) outcome" where
  "eval_unary_op op v =
     (case op of
        OpNeg \<Rightarrow> (case v of VInt4 i \<Rightarrow> Ok (VInt4 (- i)) | VInt8 i \<Rightarrow> Ok (VInt8 (- i))
            | VFloat8 f \<Rightarrow> Ok (VFloat8 (f XOR 0x8000000000000000)) | VNull \<Rightarrow> Ok VNull | _ \<Rightarrow> Err TypeError)
      | OpNot \<Rightarrow> (case v of VBool b \<Rightarrow> Ok (VBool (\<not> b)) | VNull \<Rightarrow> Ok VNull | _ \<Rightarrow> Err TypeError))"

definition distinct_values :: "val \<Rightarrow> val \<Rightarrow> bool" where
  "distinct_values l r =
     (if l = VNull \<and> r = VNull then False else if l = VNull \<or> r = VNull then True else \<not> val_eq l r)"

text \<open>The comparison of \<^verbatim>\<open>CASE\<close>, \<^verbatim>\<open>NULLIF\<close> and the search of \<^verbatim>\<open>IN\<close>.\<close>

definition equal_values :: "float_lib \<Rightarrow> val \<Rightarrow> val \<Rightarrow> bool" where
  "equal_values F l r \<longleftrightarrow> l \<noteq> VNull \<and> r \<noteq> VNull \<and> val_cmp F l r = Some OEqual"

definition found_in :: "float_lib \<Rightarrow> row list \<Rightarrow> val \<Rightarrow> bool" where
  "found_in F rs v = list_ex (\<lambda>r. case row_get_by_idx r 0 of Some w \<Rightarrow> val_cmp F w v = Some OEqual | None \<Rightarrow> False) rs"

definition scalar_result :: "row list \<Rightarrow> (sql_error, val) outcome" where
  "scalar_result rs =
     (case rs of [] \<Rightarrow> Ok VNull | [r] \<Rightarrow> Ok (case row_get_by_idx r 0 of Some v \<Rightarrow> v | None \<Rightarrow> VNull) | _ \<Rightarrow> Err Execution)"

function eval_expr :: "'p eval_env \<Rightarrow> 'p expr \<Rightarrow> row \<Rightarrow> (sql_error, val) outcome"
  and eval_case :: "'p eval_env \<Rightarrow> val option \<Rightarrow> ('p expr \<times> 'p expr) list \<Rightarrow> row \<Rightarrow> (sql_error, val option) outcome"
  and eval_coalesce :: "'p eval_env \<Rightarrow> 'p expr list \<Rightarrow> row \<Rightarrow> (sql_error, val) outcome" where
  "eval_expr E (ELiteral v) r = Ok v"
| "eval_expr E (EColumn table name) r = eval_column (to_lowercase E) table name r"
| "eval_expr E (EBinaryOp left op right) r =
     obind (eval_expr E left r) (\<lambda>l. obind (eval_expr E right r) (\<lambda>v. eval_binary_op (floats E) (json_of E) l op v))"
| "eval_expr E (EUnaryOp op e) r = obind (eval_expr E e r) (eval_unary_op op)"
| "eval_expr E (EIsNull e) r = obind (eval_expr E e r) (\<lambda>v. Ok (VBool (v = VNull)))"
| "eval_expr E (EIsNotNull e) r = obind (eval_expr E e r) (\<lambda>v. Ok (VBool (v \<noteq> VNull)))"
| "eval_expr E (EIsDistinctFrom left right) r =
     obind (eval_expr E left r) (\<lambda>l. obind (eval_expr E right r) (\<lambda>v. Ok (VBool (distinct_values l v))))"
| "eval_expr E (EIsNotDistinctFrom left right) r =
     obind (eval_expr E left r) (\<lambda>l. obind (eval_expr E right r) (\<lambda>v. Ok (VBool (\<not> distinct_values l v))))"
| "eval_expr E (EInSubquery e subquery negated) r =
     obind (eval_expr E e r) (\<lambda>v.
       if v = VNull then Ok VNull
       else obind (run_subquery E subquery r) (\<lambda>rs. Ok (VBool (found_in (floats E) rs v \<noteq> negated))))"
| "eval_expr E (EExists subquery negated) r = obind (run_subquery E subquery r) (\<lambda>rs. Ok (VBool ((rs \<noteq> []) \<noteq> negated)))"
| "eval_expr E (EScalarSubquery subquery) r = obind (run_subquery E subquery r) scalar_result"
| "eval_expr E (ECast e ty) r = obind (eval_expr E e r) (\<lambda>v. cast_to (floats E) (json_of E) v ty)"
| "eval_expr E (EFunctionCall name args) r = eval_function E name args r"
| "eval_expr E (ECase operand whens els) r =
     obind (case operand of None \<Rightarrow> Ok None | Some e \<Rightarrow> obind (eval_expr E e r) (\<lambda>v. Ok (Some v))) (\<lambda>op_val.
     obind (eval_case E op_val whens r) (\<lambda>found.
       case found of Some v \<Rightarrow> Ok v | None \<Rightarrow> (case els of Some e \<Rightarrow> eval_expr E e r | None \<Rightarrow> Ok VNull)))"
| "eval_expr E (ECoalesce args) r = eval_coalesce E args r"
| "eval_expr E (ENullIf e1 e2) r =
     obind (eval_expr E e1 r) (\<lambda>v1. obind (eval_expr E e2 r) (\<lambda>v2. Ok (if equal_values (floats E) v1 v2 then VNull else v1)))"
| "eval_case E op_val [] r = Ok None"
| "eval_case E op_val ((c, res) # whens) r = obind (eval_expr E c r) (\<lambda>v.
     if (case op_val of Some x \<Rightarrow> equal_values (floats E) x v | None \<Rightarrow> v = VBool True)
     then obind (eval_expr E res r) (\<lambda>v. Ok (Some v))
     else eval_case E op_val whens r)"
| "eval_coalesce E [] r = Ok VNull"
| "eval_coalesce E (e # es) r = obind (eval_expr E e r) (\<lambda>v. if v \<noteq> VNull then Ok v else eval_coalesce E es r)"
  by pat_completeness auto
termination
  by (relation "measure (case_sum (\<lambda>(E, e, r). size e)
    (case_sum (\<lambda>(E, v, ws, r). size_list (size_prod size size) ws) (\<lambda>(E, es, r). size_list size es)))") auto

end
