(* ===== verification/Sql_Exec.thy ===== *)
theory Sql_Exec
  imports Sql_Eval
begin

text \<open>
  The relational operators of \<^verbatim>\<open>sql/src/executor.rs\<close> on lists of rows: filter, projection, limit, joins, set
  operations and pattern matching, with the choice of the join algorithm of \<^verbatim>\<open>sql/src/planner.rs\<close>. A loop that
  stops at the first error is \<open>ocollect\<close>, \<open>okfilter\<close> or \<open>omap\<close>.
\<close>

section \<open>Loops with errors\<close>

primrec omap :: "('a \<Rightarrow> ('e, 'b) outcome) \<Rightarrow> 'a list \<Rightarrow> ('e, 'b list) outcome" where
  "omap f [] = Ok []"
| "omap f (x # xs) = obind (f x) (\<lambda>y. obind (omap f xs) (\<lambda>ys. Ok (y # ys)))"

definition ocollect :: "('a \<Rightarrow> ('e, 'b list) outcome) \<Rightarrow> 'a list \<Rightarrow> ('e, 'b list) outcome" where
  "ocollect f xs = obind (omap f xs) (\<lambda>yss. Ok (concat yss))"

definition okfilter :: "('a \<Rightarrow> ('e, bool) outcome) \<Rightarrow> 'a list \<Rightarrow> ('e, 'a list) outcome" where
  "okfilter p xs = ocollect (\<lambda>x. obind (p x) (\<lambda>b. Ok (if b then [x] else []))) xs"

section \<open>Filter, projection, limit\<close>

definition holds :: "'p eval_env \<Rightarrow> 'p expr \<Rightarrow> row \<Rightarrow> (sql_error, bool) outcome" where
  "holds E e r = obind (eval_expr E e r) (\<lambda>v. Ok (v = VBool True))"

definition exec_filter :: "'p eval_env \<Rightarrow> row list \<Rightarrow> 'p expr \<Rightarrow> (sql_error, row list) outcome" where
  "exec_filter E rows predicate = okfilter (holds E predicate) rows"

fun infer_expr_type :: "(rstring \<Rightarrow> rstring) \<Rightarrow> 'p expr \<Rightarrow> (rstring \<times> data_type) list \<Rightarrow> data_type" where
  "infer_expr_type lower (EColumn table name) schema =
     (let search_name = (case table of Some t \<Rightarrow> t @ [46] @ name | None \<Rightarrow> name) in
      case find (\<lambda>(c, _). c = search_name \<or> ends_with c (46 # name) \<or> c = name) schema of
        Some (_, t) \<Rightarrow> t | None \<Rightarrow> TText)"
| "infer_expr_type lower (ELiteral v) schema = (case value_type v of Some t \<Rightarrow> t | None \<Rightarrow> TText)"
| "infer_expr_type lower (EBinaryOp left op right) schema =
     (if op \<in> {OpEq, OpNotEq, OpLt, OpLe, OpGt, OpGe, OpAnd, OpOr} then TBoolean
      else if op \<in> {OpAdd, OpSub, OpMul, OpDiv, OpMod} then infer_expr_type lower left schema
      else if op = OpJsonGet then TJson else TText)"
| "infer_expr_type lower (EUnaryOp op e) schema = infer_expr_type lower e schema"
| "infer_expr_type lower (ECast e t) schema = t"
| "infer_expr_type lower (EIsNull e) schema = TBoolean"
| "infer_expr_type lower (EIsNotNull e) schema = TBoolean"
| "infer_expr_type lower (EIsDistinctFrom l r) schema = TBoolean"
| "infer_expr_type lower (EIsNotDistinctFrom l r) schema = TBoolean"
| "infer_expr_type lower (EInSubquery e p n) schema = TBoolean"
| "infer_expr_type lower (EExists p n) schema = TBoolean"
| "infer_expr_type lower (EScalarSubquery p) schema = TText"
| "infer_expr_type lower (EFunctionCall name args) schema =
     (let n = lower name in
      if n = lit ''count'' then TInt8
      else if n = lit ''sum'' \<or> n = lit ''avg'' then (case args of a # _ \<Rightarrow> infer_expr_type lower a schema | [] \<Rightarrow> TFloat8)
      else if n = lit ''min'' \<or> n = lit ''max'' then (case args of a # _ \<Rightarrow> infer_expr_type lower a schema | [] \<Rightarrow> TText)
      else TText)"
| "infer_expr_type lower (ECase operand whens els) schema =
     (case els of Some e \<Rightarrow> infer_expr_type lower e schema
      | None \<Rightarrow> (case whens of (_, res) # _ \<Rightarrow> infer_expr_type lower res schema | [] \<Rightarrow> TText))"
| "infer_expr_type lower (ECoalesce args) schema = (case args of a # _ \<Rightarrow> infer_expr_type lower a schema | [] \<Rightarrow> TText)"
| "infer_expr_type lower (ENullIf e1 e2) schema = infer_expr_type lower e1 schema"

definition exec_project :: "'p eval_env \<Rightarrow> row list \<Rightarrow> (rstring \<times> 'p expr) list \<Rightarrow> (sql_error, row list) outcome" where
  "exec_project E rows cols =
     omap (\<lambda>r. obind (omap (\<lambda>(_, e). eval_expr E e r) cols) (\<lambda>vs.
       Ok \<lparr>row_values = vs, row_schema = map (\<lambda>(name, e). (name, infer_expr_type (to_lowercase E) e (row_schema r))) cols\<rparr>)) rows"

text \<open>The end of the range is computed at machine width; a range whose end is in front of its start panics.\<close>

definition exec_limit :: "row list \<Rightarrow> u64 \<Rightarrow> u64 \<Rightarrow> (sql_error, row list) outcome" where
  "exec_limit rows limit offset =
     (let start = min (unat offset) (length rows);
          stop = (if limit = - 1 then length rows else min (unat (of_nat start + limit)) (length rows)) in
      if stop < start then Panic else Ok (take (stop - start) (drop start rows)))"

definition qualify_row_schema :: "row \<Rightarrow> rstring option \<Rightarrow> row" where
  "qualify_row_schema r alias =
     (case alias of
        None \<Rightarrow> r
      | Some a \<Rightarrow>
          \<lparr>row_values = concat (map (\<lambda>(_, v). [v, v]) (zip (row_schema r) (row_values r))),
           row_schema = concat (map (\<lambda>((c, t), _). [(a @ [46] @ c, t), (c, t)]) (zip (row_schema r) (row_values r)))\<rparr>)"

section \<open>Joins\<close>

definition merge_rows :: "row \<Rightarrow> row \<Rightarrow> row" where
  "merge_rows l r = \<lparr>row_values = row_values l @ row_values r, row_schema = row_schema l @ row_schema r\<rparr>"

definition first_schema :: "row list \<Rightarrow> (rstring \<times> data_type) list" where
  "first_schema rs = (case rs of r # _ \<Rightarrow> row_schema r | [] \<Rightarrow> [])"

definition left_pad_row :: "row \<Rightarrow> row list \<Rightarrow> row" where
  "left_pad_row lr right_rows =
     (let s = first_schema right_rows in
      \<lparr>row_values = row_values lr @ map (\<lambda>_. VNull) s, row_schema = row_schema lr @ s\<rparr>)"

definition right_pad_row :: "row list \<Rightarrow> row \<Rightarrow> row" where
  "right_pad_row left_rows rr =
     (let s = first_schema left_rows in
      \<lparr>row_values = map (\<lambda>_. VNull) s @ row_values rr, row_schema = s @ row_schema rr\<rparr>)"

definition find_using_col_value :: "row \<Rightarrow> rstring \<Rightarrow> val option" where
  "find_using_col_value r name =
     (case position (\<lambda>c. fst c = name) (row_schema r) of
        Some i \<Rightarrow> row_get_by_idx r i
      | None \<Rightarrow> (case position (\<lambda>c. ends_with (fst c) (46 # name)) (row_schema r) of
            Some i \<Rightarrow> row_get_by_idx r i | None \<Rightarrow> None))"

definition rows_match_using :: "float_lib \<Rightarrow> row \<Rightarrow> row \<Rightarrow> rstring list \<Rightarrow> bool" where
  "rows_match_using F l r using_columns =
     list_all (\<lambda>c. case (find_using_col_value l c, find_using_col_value r c) of
        (Some x, Some y) \<Rightarrow> val_cmp F x y = Some OEqual | _ \<Rightarrow> False) using_columns"

definition bare_name :: "rstring \<Rightarrow> rstring" where
  "bare_name c = rev (takeWhile (\<lambda>b. b \<noteq> 46) (rev c))"

primrec keep_using :: "rstring list \<Rightarrow> rstring list \<Rightarrow> ((rstring \<times> data_type) \<times> val) list \<Rightarrow> ((rstring \<times> data_type) \<times> val) list" where
  "keep_using using_columns seen [] = []"
| "keep_using using_columns seen (c # cs) =
     (let b = bare_name (fst (fst c)) in
      if b \<in> set using_columns
      then if b \<in> set seen then keep_using using_columns seen cs else c # keep_using using_columns (b # seen) cs
      else c # keep_using using_columns seen cs)"

definition deduplicate_using_cols :: "row \<Rightarrow> rstring list \<Rightarrow> row" where
  "deduplicate_using_cols r using_columns =
     (if using_columns = [] then r
      else let cs = keep_using using_columns [] (zip (row_schema r) (row_values r)) in
        \<lparr>row_values = map snd cs, row_schema = map fst cs\<rparr>)"

definition join_match :: "'p eval_env \<Rightarrow> 'p expr \<Rightarrow> rstring list \<Rightarrow> row \<Rightarrow> row \<Rightarrow> (sql_error, bool) outcome" where
  "join_match E condition using_columns lr rr =
     (if using_columns \<noteq> [] then Ok (rows_match_using (floats E) lr rr using_columns)
      else holds E condition (merge_rows lr rr))"

definition exec_nested_loop_join ::
  "'p eval_env \<Rightarrow> row list \<Rightarrow> row list \<Rightarrow> join_type \<Rightarrow> 'p expr \<Rightarrow> (sql_error, row list) outcome" where
  "exec_nested_loop_join E left right join_type condition =
     ocollect (\<lambda>lr. obind (okfilter (\<lambda>rr. holds E condition (merge_rows lr rr)) right) (\<lambda>ms.
       Ok (if join_type = JLeft \<and> ms = [] then [left_pad_row lr right] else map (merge_rows lr) ms))) left"

fun extract_hash_join_keys :: "'p expr \<Rightarrow> ('p expr \<times> 'p expr) option" where
  "extract_hash_join_keys (EBinaryOp left op right) =
     (if op = OpEq then Some (left, right) else if op = OpAnd then extract_hash_join_keys left else None)"
| "extract_hash_join_keys _ = None"

text \<open>The debug text of a value, which is the key of the hash table, distinguishes all values but the bit patterns of
  doubles that are not a number.\<close>

fun debug_key :: "val \<Rightarrow> val" where
  "debug_key (VFloat8 f) = VFloat8 (if f64_nan f then 0x7FF8000000000000 else f)"
| "debug_key (VArray vs) = VArray (map debug_key vs)"
| "debug_key v = v"

definition hash_key :: "'p eval_env \<Rightarrow> 'p expr option \<Rightarrow> row \<Rightarrow> (sql_error, val list option) outcome" where
  "hash_key E key r =
     (case key of
        None \<Rightarrow> Ok (Some (map debug_key (row_values r)))
      | Some e \<Rightarrow> (case eval_expr E e r of
            Ok v \<Rightarrow> Ok (if v = VNull then None else Some [debug_key v]) | Err _ \<Rightarrow> Ok None | Panic \<Rightarrow> Panic))"

primrec any_ok :: "('a \<Rightarrow> ('e, 'b) outcome) \<Rightarrow> 'a list \<Rightarrow> ('e, bool) outcome" where
  "any_ok f [] = Ok False"
| "any_ok f (x # xs) = (case f x of Ok _ \<Rightarrow> Ok True | Err _ \<Rightarrow> any_ok f xs | Panic \<Rightarrow> Panic)"

definition join_key_exprs ::
  "'p eval_env \<Rightarrow> row list \<Rightarrow> row list \<Rightarrow> 'p expr \<Rightarrow> (sql_error, 'p expr option \<times> 'p expr option) outcome" where
  "join_key_exprs E left right condition =
     (case extract_hash_join_keys condition of
        None \<Rightarrow> Ok (None, None)
      | Some (le, re) \<Rightarrow>
          obind (any_ok (eval_expr E le) left) (\<lambda>le_on_left.
          obind (any_ok (eval_expr E re) right) (\<lambda>re_on_right.
          Ok (if le_on_left \<and> re_on_right then (Some le, Some re) else (Some re, Some le)))))"

definition hash_lookup :: "(val list option \<times> row) list \<Rightarrow> val list \<Rightarrow> row list" where
  "hash_lookup table k = map snd (filter (\<lambda>e. fst e = Some k) table)"

definition exec_hash_join ::
  "'p eval_env \<Rightarrow> row list \<Rightarrow> row list \<Rightarrow> join_type \<Rightarrow> 'p expr \<Rightarrow> (sql_error, row list) outcome" where
  "exec_hash_join E left right join_type condition =
     obind (join_key_exprs E left right condition) (\<lambda>(left_key, right_key).
      obind (omap (\<lambda>rr. obind (hash_key E right_key rr) (\<lambda>k. Ok (k, rr))) right) (\<lambda>table.
        if right \<noteq> [] \<and> list_all (\<lambda>e. fst e = None) table then exec_nested_loop_join E left right join_type condition
        else ocollect (\<lambda>lr. obind (hash_key E left_key lr) (\<lambda>k.
          case k of
            None \<Rightarrow> Ok (if join_type = JLeft then [left_pad_row lr right] else [])
          | Some key \<Rightarrow> obind (okfilter (\<lambda>rr. holds E condition (merge_rows lr rr)) (hash_lookup table key)) (\<lambda>ms.
              Ok (if join_type = JLeft \<and> ms = [] then [left_pad_row lr right] else map (merge_rows lr) ms)))) left))"

definition exec_join ::
  "'p eval_env \<Rightarrow> row list \<Rightarrow> row list \<Rightarrow> join_type \<Rightarrow> 'p expr \<Rightarrow> rstring list \<Rightarrow> join_algorithm \<Rightarrow> (sql_error, row list) outcome" where
  "exec_join E left right join_type condition using_columns algorithm =
     (let m = join_match E condition using_columns;
          merged = (\<lambda>lr rr. deduplicate_using_cols (merge_rows lr rr) using_columns) in
      if algorithm = Hash \<and> using_columns = [] \<and> (join_type = JInner \<or> join_type = JLeft)
      then exec_hash_join E left right join_type condition
      else case join_type of
        JCross \<Rightarrow> ocollect (\<lambda>lr. obind (okfilter (m lr) right) (\<lambda>ms. Ok (map (merged lr) ms))) left
      | JInner \<Rightarrow> ocollect (\<lambda>lr. obind (okfilter (m lr) right) (\<lambda>ms. Ok (map (merged lr) ms))) left
      | JLeft \<Rightarrow> ocollect (\<lambda>lr. obind (okfilter (m lr) right) (\<lambda>ms.
            Ok (if ms = [] then [left_pad_row lr right] else map (merged lr) ms))) left
      | JRight \<Rightarrow> ocollect (\<lambda>rr. obind (okfilter (\<lambda>lr. m lr rr) left) (\<lambda>ms.
            Ok (if ms = [] then [right_pad_row left rr] else map (\<lambda>lr. merged lr rr) ms))) right
      | JFull \<Rightarrow> obind (omap (\<lambda>rr. obind (omap (\<lambda>lr. m lr rr) left) (\<lambda>bs. Ok (rr, bs))) right) (\<lambda>table.
            Ok (concat (map (\<lambda>(rr, bs). if True \<in> set bs then map (\<lambda>(lr, b). merged lr rr) (filter snd (zip left bs))
                                       else [right_pad_row left rr]) table)
                @ concat (map (\<lambda>(i, lr). if list_ex (\<lambda>(rr, bs). bs ! i) table then [] else [left_pad_row lr right])
                    (enumerate 0 left)))))"

fun is_equality_condition :: "'p expr \<Rightarrow> bool" where
  "is_equality_condition (EBinaryOp left op right) =
     (if op = OpEq then (case left of EColumn _ _ \<Rightarrow> True | _ \<Rightarrow> False) \<and> (case right of EColumn _ _ \<Rightarrow> True | _ \<Rightarrow> False)
      else op = OpAnd \<and> is_equality_condition left \<and> is_equality_condition right)"
| "is_equality_condition _ = False"

definition infer_join_algorithm :: "'p expr \<Rightarrow> join_algorithm" where
  "infer_join_algorithm condition = (if is_equality_condition condition then Hash else NestedLoop)"

section \<open>Set operations\<close>

definition rows_contain :: "val list list \<Rightarrow> val list \<Rightarrow> bool" where
  "rows_contain vss vs = list_ex (\<lambda>ws. vals_eq ws vs) vss"

primrec dedup_loop :: "val list list \<Rightarrow> row list \<Rightarrow> row list" where
  "dedup_loop seen [] = []"
| "dedup_loop seen (r # rs) =
     (if rows_contain seen (row_values r) then dedup_loop seen rs
      else r # dedup_loop (seen @ [row_values r]) rs)"

definition deduplicate_rows :: "row list \<Rightarrow> row list" where
  "deduplicate_rows rows = dedup_loop [] rows"

text \<open>Rows of the left side that find a partner in the pool, which loses it, and the rows that find none.\<close>

primrec take_partners :: "val list list \<Rightarrow> row list \<Rightarrow> row list \<times> row list" where
  "take_partners pool [] = ([], [])"
| "take_partners pool (r # rs) =
     (case position (\<lambda>ws. vals_eq ws (row_values r)) pool of
        Some i \<Rightarrow> (case take_partners (take i pool @ drop (Suc i) pool) rs of (a, b) \<Rightarrow> (r # a, b))
      | None \<Rightarrow> (case take_partners pool rs of (a, b) \<Rightarrow> (a, r # b)))"

definition set_op_rows :: "set_operation \<Rightarrow> bool \<Rightarrow> row list \<Rightarrow> row list \<Rightarrow> row list" where
  "set_op_rows op all left_rows right_rows =
     (let left_schema = first_schema left_rows;
          right = map (\<lambda>r. if left_schema \<noteq> [] then r\<lparr>row_schema := left_schema\<rparr> else r) right_rows;
          right_keys = map row_values right in
      case op of
        Union_op \<Rightarrow> if all then left_rows @ right else deduplicate_rows (left_rows @ right)
      | Intersect_op \<Rightarrow>
          if all then fst (take_partners right_keys left_rows)
          else deduplicate_rows (filter (\<lambda>lr. rows_contain right_keys (row_values lr)) left_rows)
      | Except_op \<Rightarrow>
          if all then snd (take_partners right_keys left_rows)
          else deduplicate_rows (filter (\<lambda>lr. \<not> rows_contain right_keys (row_values lr)) left_rows))"

section \<open>Pattern matching and window frames\<close>

function like_match_impl :: "rstring \<Rightarrow> rstring \<Rightarrow> bool" where
  "like_match_impl s [] = (s = [])"
| "like_match_impl s (c # p) =
     (if c = 37 then list_ex (\<lambda>i. like_match_impl (drop i s) p) [0..<Suc (length s)]
      else if c = 95 then s \<noteq> [] \<and> like_match_impl (tl s) p
      else s \<noteq> [] \<and> hd s = c \<and> like_match_impl (tl s) p)"
  by pat_completeness auto
termination
  by (relation "measure (\<lambda>(s, p). length p)") auto

definition frame_range :: "window_frame option \<Rightarrow> nat \<Rightarrow> nat \<Rightarrow> nat \<times> nat" where
  "frame_range frame current_idx partition_len =
     (case frame of
        None \<Rightarrow> (0, current_idx + 1)
      | Some f \<Rightarrow>
         ((case frame_start f of
             UnboundedPreceding \<Rightarrow> 0
           | Preceding n \<Rightarrow> current_idx - unat n
           | CurrentRow \<Rightarrow> current_idx
           | Following n \<Rightarrow> min (unat (of_nat current_idx + n)) (partition_len - 1)
           | UnboundedFollowing \<Rightarrow> partition_len - 1),
          (case frame_end f of
             UnboundedPreceding \<Rightarrow> 0
           | Preceding n \<Rightarrow> current_idx - unat n
           | CurrentRow \<Rightarrow> current_idx + 1
           | Following n \<Rightarrow> min (unat (of_nat current_idx + n + 1)) partition_len
           | UnboundedFollowing \<Rightarrow> partition_len)))"

end
