(* ===== verification/Sql_Join.thy ===== *)
theory Sql_Join
  imports Sql_Exec "HOL-Library.Multiset"
begin

text \<open>
  What the joins compute: each kind of join is the corresponding operation of relational algebra on the rows, and the
  hash join delivers exactly the rows of the nested loop, in the same order, when the values of its keys are of one
  type.
\<close>

section \<open>Loops without errors\<close>

lemma omap_Ok: "(\<And>x. x \<in> set xs \<Longrightarrow> f x = Ok (g x)) \<Longrightarrow> omap f xs = Ok (map g xs)"
  by (induction xs) auto

lemma omap_cong [cong]: "xs = ys \<Longrightarrow> (\<And>x. x \<in> set ys \<Longrightarrow> f x = g x) \<Longrightarrow> omap f xs = omap g ys"
  by (induction ys arbitrary: xs) auto

lemma ocollect_Ok: "(\<And>x. x \<in> set xs \<Longrightarrow> f x = Ok (g x)) \<Longrightarrow> ocollect f xs = Ok (concat (map g xs))"
  by (simp add: ocollect_def omap_Ok)

lemma ocollect_cong: "(\<And>x. x \<in> set xs \<Longrightarrow> f x = g x) \<Longrightarrow> ocollect f xs = ocollect g xs"
  unfolding ocollect_def by (simp cong: omap_cong)

lemma okfilter_Ok: "(\<And>x. x \<in> set xs \<Longrightarrow> p x = Ok (q x)) \<Longrightarrow> okfilter p xs = Ok (filter q xs)"
proof -
  assume p: "\<And>x. x \<in> set xs \<Longrightarrow> p x = Ok (q x)"
  have "concat (map (\<lambda>x. if q x then [x] else []) xs) = filter q xs" by (induction xs) auto
  then show ?thesis using p by (simp add: okfilter_def ocollect_Ok [of xs _ "\<lambda>x. if q x then [x] else []"])
qed

lemma holds_Ok: "is_ok (eval_expr E e r) \<Longrightarrow> holds E e r = Ok (eval_expr E e r = Ok (VBool True))"
  by (cases "eval_expr E e r") (auto simp: holds_def)

section \<open>Hash join\<close>

text \<open>Values whose debug text agrees when they compare equal: no decimal text, no arrays, no negative zero.\<close>

fun hashable :: "val \<Rightarrow> bool" where
  "hashable (VNumeric s) \<longleftrightarrow> False"
| "hashable (VArray vs) \<longleftrightarrow> False"
| "hashable (VFloat8 f) \<longleftrightarrow> f \<noteq> 0x8000000000000000"
| "hashable _ \<longleftrightarrow> True"

lemma rank_inj:
  assumes "f64_rank v = f64_rank w" "v \<noteq> 0x8000000000000000" "w \<noteq> 0x8000000000000000"
  shows "v = w"
proof -
  have r: "f64_rank x = (if bit x 63 then 2 ^ 63 - uint x else uint x)" for x
    by (cases "bit x 63") (simp_all add: negative_rank, simp add: f64_rank_def)
  have n: "2 ^ 63 < uint x" if "bit x 63" "x \<noteq> 0x8000000000000000" for x :: u64
    using that top_bit [of x] by (simp add: word_uint_eq_iff)
  have "uint v = uint w" using assms n [of v] n [of w] uint_ge_0 [of v] uint_ge_0 [of w] unfolding r
    by (cases "bit v 63"; cases "bit w 63"; simp only: if_True if_False; linarith)
  then show ?thesis by (simp add: word_uint_eq_iff)
qed

lemma sint_inj: "sint x = sint y \<Longrightarrow> x = y"
  by (rule signed_word_eqI)

lemma eq_key:
  assumes "val_eq l r \<or> val_cmp F l r = Some OEqual" "value_type l = value_type r" "hashable l" "hashable r"
    "l \<noteq> VNull" "r \<noteq> VNull"
  shows "debug_key l = debug_key r"
  using assms rank_inj
  by (cases l; cases r) (auto simp: val_eq.simps val_cmp.simps f64_cmp_def cmp_def split: if_splits intro: sint_inj)

lemma coerce_same: "value_type l = value_type r \<Longrightarrow> coerce l r = Ok (l, r)"
  by (cases l; cases r) (auto simp: coerce_def)

lemma equality_true:
  assumes "eval_binary_op F J l OpEq r = Ok (VBool True)"
    and "l \<noteq> VNull \<Longrightarrow> r \<noteq> VNull \<Longrightarrow> value_type l = value_type r \<and> hashable l \<and> hashable r"
  shows "l \<noteq> VNull \<and> r \<noteq> VNull \<and> debug_key l = debug_key r"
proof -
  have "l \<noteq> VNull" "r \<noteq> VNull" using assms(1) by (auto simp: eval_binary_op_def)
  moreover from this have "val_eq l r \<or> val_cmp F l r = Some OEqual"
    using assms coerce_same [of l r] by (simp add: eval_binary_op_def)
  ultimately show ?thesis using assms(2) eq_key by blast
qed

lemma coerce_bool: "coerce l r = Ok (VBool x, v) \<Longrightarrow> l = VBool x"
  by (cases l; cases r) (auto simp: coerce_def split: option.splits outcome.splits)

lemma and_true:
  assumes "eval_binary_op F J l OpAnd r = Ok (VBool True)"
  shows "l = VBool True"
proof -
  have "l \<noteq> VNull" "r \<noteq> VNull" using assms by (auto simp: eval_binary_op_def split: if_splits)
  then obtain a b where "coerce l r = Ok (a, b)" and
    "(case (a, b) of (VBool x, VBool y) \<Rightarrow> Ok (VBool (x \<and> y)) | _ \<Rightarrow> Err TypeError) = Ok (VBool True)"
    using assms by (auto simp: eval_binary_op_def outcome_simps)
  then show ?thesis by (cases a; cases b) (auto dest: coerce_bool)
qed

text \<open>A condition that holds makes the equality at its front hold.\<close>

lemma front_equality:
  "extract_hash_join_keys c = Some (le, re) \<Longrightarrow> eval_expr E c r = Ok (VBool True) \<Longrightarrow>
    eval_expr E (EBinaryOp le OpEq re) r = Ok (VBool True)"
proof (induction c rule: extract_hash_join_keys.induct)
  case (1 left op right)
  then show ?case by (auto simp: outcome_simps split: if_splits dest: and_true)
qed auto

text \<open>
  The key expressions \<open>lk\<close> and \<open>rk\<close> are resolved on their sides, alone and in merged rows, the condition does not
  fail, and key values that are present are of one type whose debug text is faithful.
\<close>

definition key_of :: "'p eval_env \<Rightarrow> 'p expr \<Rightarrow> row \<Rightarrow> val" where
  "key_of E e r = (case eval_expr E e r of Ok v \<Rightarrow> v | _ \<Rightarrow> VNull)"

definition same_kind :: "val \<Rightarrow> val \<Rightarrow> bool" where
  "same_kind a b \<longleftrightarrow> a = VNull \<or> b = VNull \<or> value_type a = value_type b \<and> hashable a \<and> hashable b"

definition keys_resolved :: "'p eval_env \<Rightarrow> row list \<Rightarrow> row list \<Rightarrow> 'p expr \<Rightarrow> 'p expr \<Rightarrow> 'p expr \<Rightarrow> bool" where
  "keys_resolved E left right condition lk rk \<longleftrightarrow>
     join_key_exprs E left right condition = Ok (Some lk, Some rk)
     \<and> list_all (\<lambda>lr. is_ok (eval_expr E lk lr)) left \<and> list_all (\<lambda>rr. is_ok (eval_expr E rk rr)) right
     \<and> list_all (\<lambda>lr. list_all (\<lambda>rr.
          eval_expr E lk (merge_rows lr rr) = eval_expr E lk lr \<and> eval_expr E rk (merge_rows lr rr) = eval_expr E rk rr
          \<and> is_ok (eval_expr E condition (merge_rows lr rr)) \<and> same_kind (key_of E lk lr) (key_of E rk rr)) right) left"

lemma key_of_Ok: "is_ok (eval_expr E e r) \<Longrightarrow> eval_expr E e r = Ok (key_of E e r)"
  by (cases "eval_expr E e r") (simp_all add: key_of_def)

lemma keys_resolvedD:
  assumes "keys_resolved E left right condition lk rk"
  shows "join_key_exprs E left right condition = Ok (Some lk, Some rk)"
    and "lr \<in> set left \<Longrightarrow> eval_expr E lk lr = Ok (key_of E lk lr)"
    and "rr \<in> set right \<Longrightarrow> eval_expr E rk rr = Ok (key_of E rk rr)"
    and "lr \<in> set left \<Longrightarrow> rr \<in> set right \<Longrightarrow> eval_expr E lk (merge_rows lr rr) = Ok (key_of E lk lr)
      \<and> eval_expr E rk (merge_rows lr rr) = Ok (key_of E rk rr)
      \<and> is_ok (eval_expr E condition (merge_rows lr rr)) \<and> same_kind (key_of E lk lr) (key_of E rk rr)"
  using assms key_of_Ok [of E lk] key_of_Ok [of E rk] by (auto simp: keys_resolved_def list_all_iff)

lemma met_keys:
  assumes "keys_resolved E left right condition lk rk" "lr \<in> set left" "rr \<in> set right"
    and met: "eval_expr E condition (merge_rows lr rr) = Ok (VBool True)"
  shows "key_of E lk lr \<noteq> VNull \<and> key_of E rk rr \<noteq> VNull \<and> debug_key (key_of E lk lr) = debug_key (key_of E rk rr)"
proof -
  note r = keys_resolvedD [OF assms(1)]
  obtain le re where x: "extract_hash_join_keys condition = Some (le, re)" "lk = le \<and> rk = re \<or> lk = re \<and> rk = le"
    using r(1) by (auto simp: join_key_exprs_def outcome_simps split: option.splits if_splits)
  have "eval_expr E (EBinaryOp le OpEq re) (merge_rows lr rr) = Ok (VBool True)"
    using front_equality [OF x(1) met] .
  then show ?thesis using x(2) r(4) [OF assms(2,3)] equality_true [of "floats E" "json_of E" "key_of E lk lr" "key_of E rk rr"]
    equality_true [of "floats E" "json_of E" "key_of E rk rr" "key_of E lk lr"] by (auto simp: same_kind_def)
qed

text \<open>The work for one row of the left side, given the rows it is tried against.\<close>

definition join_row :: "'p eval_env \<Rightarrow> row list \<Rightarrow> join_type \<Rightarrow> 'p expr \<Rightarrow> row \<Rightarrow> row list \<Rightarrow> (sql_error, row list) outcome" where
  "join_row E right jt condition lr candidates =
     obind (okfilter (\<lambda>rr. holds E condition (merge_rows lr rr)) candidates) (\<lambda>ms.
       Ok (if jt = JLeft \<and> ms = [] then [left_pad_row lr right] else map (merge_rows lr) ms))"

lemma join_row_Ok:
  assumes "\<And>rr. rr \<in> set xs \<Longrightarrow> is_ok (eval_expr E condition (merge_rows lr rr))"
  shows "join_row E right jt condition lr xs =
    (let ms = filter (\<lambda>rr. eval_expr E condition (merge_rows lr rr) = Ok (VBool True)) xs in
     Ok (if jt = JLeft \<and> ms = [] then [left_pad_row lr right] else map (merge_rows lr) ms))"
proof -
  have "okfilter (\<lambda>rr. holds E condition (merge_rows lr rr)) xs =
    Ok (filter (\<lambda>rr. eval_expr E condition (merge_rows lr rr) = Ok (VBool True)) xs)"
    by (rule okfilter_Ok) (simp add: assms holds_Ok)
  then show ?thesis by (simp add: join_row_def Let_def)
qed

text \<open>It does not matter whether a row is tried against all rows or those of its bucket.\<close>

lemma bucket:
  assumes k: "keys_resolved E left right condition lk rk" and l: "lr \<in> set left"
  defines "bucket \<equiv> filter (\<lambda>rr. key_of E rk rr \<noteq> VNull \<and> debug_key (key_of E rk rr) = debug_key (key_of E lk lr)) right"
  shows "key_of E lk lr \<noteq> VNull \<Longrightarrow> join_row E right jt condition lr bucket = join_row E right jt condition lr right"
    and "key_of E lk lr = VNull \<Longrightarrow> join_row E right jt condition lr right = Ok (if jt = JLeft then [left_pad_row lr right] else [])"
proof -
  note r = keys_resolvedD(4) [OF k l]
  let ?met = "\<lambda>rr. eval_expr E condition (merge_rows lr rr) = Ok (VBool True)"
  have ok: "join_row E right jt condition lr xs =
      (let ms = filter ?met xs in Ok (if jt = JLeft \<and> ms = [] then [left_pad_row lr right] else map (merge_rows lr) ms))"
    if "set xs \<subseteq> set right" for xs by (rule join_row_Ok) (use that r in auto)
  show "join_row E right jt condition lr bucket = join_row E right jt condition lr right" if "key_of E lk lr \<noteq> VNull"
  proof -
    have "filter ?met bucket = filter ?met right"
      unfolding bucket_def filter_filter by (rule filter_cong) (use met_keys [OF k l] in auto)
    then show ?thesis using ok [of bucket] ok [of right] by (simp add: bucket_def)
  qed
  show "join_row E right jt condition lr right = Ok (if jt = JLeft then [left_pad_row lr right] else [])" if "key_of E lk lr = VNull"
  proof -
    have "filter ?met right = []" using met_keys [OF k l] that by (auto simp: filter_empty_conv)
    then show ?thesis using ok [of right] by simp
  qed
qed

lemma hash_join_equals_nested_loop:
  assumes "keys_resolved E left right condition lk rk"
  shows "exec_hash_join E left right jt condition = exec_nested_loop_join E left right jt condition"
proof -
  note r = keys_resolvedD [OF assms]
  define table where "table = map (\<lambda>rr. (if key_of E rk rr = VNull then None else Some [debug_key (key_of E rk rr)], rr)) right"
  have "omap (\<lambda>rr. obind (hash_key E (Some rk) rr) (\<lambda>k. Ok (k, rr))) right = Ok table"
    unfolding table_def by (rule omap_Ok) (simp add: hash_key_def r(3))
  moreover have look: "hash_lookup table [v] = filter (\<lambda>rr. key_of E rk rr \<noteq> VNull \<and> debug_key (key_of E rk rr) = v) right" for v
    unfolding table_def hash_lookup_def by (induction right) auto
  moreover have "obind (hash_key E (Some lk) lr) (\<lambda>k. case k of
        None \<Rightarrow> Ok (if jt = JLeft then [left_pad_row lr right] else [])
      | Some key \<Rightarrow> join_row E right jt condition lr (hash_lookup table key)) = join_row E right jt condition lr right"
    if "lr \<in> set left" for lr
    using r(2) [OF that] bucket [OF assms that, of jt] by (simp add: hash_key_def look)
  ultimately show ?thesis
    unfolding exec_hash_join_def exec_nested_loop_join_def r(1) join_row_def [symmetric]
    by (auto intro!: ocollect_cong)
qed

lemma nested_loop_join:
  assumes "jt = JInner \<or> jt = JLeft"
  shows "exec_join E left right jt condition [] NestedLoop = exec_nested_loop_join E left right jt condition"
  using assms by (auto simp: exec_join_def exec_nested_loop_join_def join_match_def [abs_def] deduplicate_using_cols_def)

lemma hash_like_loop:
  assumes "keys_resolved E left right condition lk rk"
  shows "exec_join E left right jt condition [] Hash = exec_join E left right jt condition [] NestedLoop"
proof (cases "jt = JInner \<or> jt = JLeft")
  case True
  then have "exec_join E left right jt condition [] Hash = exec_hash_join E left right jt condition"
    by (auto simp: exec_join_def)
  then show ?thesis using True nested_loop_join hash_join_equals_nested_loop [OF assms] by metis
next
  case False
  then show ?thesis by (simp add: exec_join_def)
qed

text \<open>
  \<^bold>\<open>C12.\<close> The join algorithm makes no difference: the hash join delivers the rows of the nested loop join, in the same order,
  when its keys are resolved.
\<close>

theorem join_algorithm_makes_no_difference:
  assumes "keys_resolved E left right condition lk rk"
  shows "exec_join E left right jt condition [] Hash = exec_join E left right jt condition [] NestedLoop"
  using assms by (rule hash_like_loop)

section \<open>Two small tables\<close>

definition bare_env :: "unit eval_env" where
  "bare_env = \<lparr>floats = \<lparr>f_add = (\<lambda>a b. a), f_sub = (\<lambda>a b. a), f_mul = (\<lambda>a b. a), f_div = (\<lambda>a b. a),
      f_sum = (\<lambda>as. 0), f_square = (\<lambda>a. a), f_sqrt = (\<lambda>a. a),
      f_parse = (\<lambda>s. None), f_show = (\<lambda>f. []), f_fixed10 = (\<lambda>f. [])\<rparr>,
    json_of = \<lparr>j_parse = (\<lambda>s. None), j_text = (\<lambda>j. [])\<rparr>, to_lowercase = (\<lambda>s. s),
    eval_function = (\<lambda>name args r. Err NotImplemented), run_subquery = (\<lambda>p r. Err NotImplemented)\<rparr>"

definition one_column :: "string \<Rightarrow> val \<Rightarrow> row" where
  "one_column name v = \<lparr>row_values = [v], row_schema = [(lit name, TInt8)]\<rparr>"

definition a_eq_b :: "unit expr" where
  "a_eq_b = EBinaryOp (EColumn (Some (lit ''a'')) (lit ''x'')) OpEq (EColumn (Some (lit ''b'')) (lit ''x''))"

theorem join_algorithm_makes_no_difference_witness:
  "exec_join bare_env (map (one_column ''a.x'') [VInt4 1, VNull, VInt4 3]) (map (one_column ''b.x'') [VInt4 3, VInt4 1]) JLeft a_eq_b [] Hash
   = exec_join bare_env (map (one_column ''a.x'') [VInt4 1, VNull, VInt4 3]) (map (one_column ''b.x'') [VInt4 3, VInt4 1]) JLeft a_eq_b [] NestedLoop"
proof (rule join_algorithm_makes_no_difference)
  show "keys_resolved bare_env (map (one_column ''a.x'') [VInt4 1, VNull, VInt4 3]) (map (one_column ''b.x'') [VInt4 3, VInt4 1]) a_eq_b
      (EColumn (Some (lit ''a'')) (lit ''x'')) (EColumn (Some (lit ''b'')) (lit ''x''))"
    by code_simp
qed

text \<open>How the two columns are found in a row of each side and in a merged row.\<close>

lemma columns_found:
  "eval_expr bare_env (EColumn (Some (lit ''a'')) (lit ''x'')) (one_column ''a.x'' v) = Ok v"
  "eval_expr bare_env (EColumn (Some (lit ''b'')) (lit ''x'')) (one_column ''b.x'' v) = Ok v"
  "eval_expr bare_env (EColumn (Some (lit ''a'')) (lit ''x'')) (merge_rows (one_column ''a.x'' v) (one_column ''b.x'' w)) = Ok v"
  "eval_expr bare_env (EColumn (Some (lit ''b'')) (lit ''x'')) (merge_rows (one_column ''a.x'' v) (one_column ''b.x'' w)) = Ok w"
  by (simp_all add: eval_column_def row_get_def position_def row_get_by_idx_def one_column_def merge_rows_def lit_def Let_def)

text \<open>
  A hash join on columns of different integer types finds no partner, where the nested loop finds it: the keys of the
  hash table are debug texts, which name the type.
\<close>

theorem hash_join_loses_equal_numbers:
  "exec_join bare_env [one_column ''a.x'' (VInt4 n)] [one_column ''b.x'' (VInt8 (scast n))] JInner a_eq_b [] NestedLoop
     = Ok [merge_rows (one_column ''a.x'' (VInt4 n)) (one_column ''b.x'' (VInt8 (scast n)))]
   \<and> exec_join bare_env [one_column ''a.x'' (VInt4 n)] [one_column ''b.x'' (VInt8 (scast n))] JInner a_eq_b [] Hash = Ok []"
proof -
  have s: "sint (scast n :: u64) = sint n" by (rule sint_up_scast) (simp add: is_up)
  have e: "eval_binary_op F J (VInt4 n) OpEq (VInt8 (scast n)) = Ok (VBool True)" for F J
    using s by (simp add: eval_binary_op_def coerce_def val_cmp.simps cmp_def)
  have k: "join_key_exprs bare_env [one_column ''a.x'' (VInt4 n)] [one_column ''b.x'' (VInt8 (scast n))] a_eq_b
      = Ok (Some (EColumn (Some (lit ''a'')) (lit ''x'')), Some (EColumn (Some (lit ''b'')) (lit ''x'')))"
    by (simp add: join_key_exprs_def a_eq_b_def columns_found del: eval_expr.simps(2))
  have c: "holds bare_env a_eq_b (merge_rows (one_column ''a.x'' (VInt4 n)) (one_column ''b.x'' (VInt8 (scast n)))) = Ok True"
    using e by (simp add: holds_def a_eq_b_def columns_found del: eval_expr.simps(2))
  have "exec_join bare_env [one_column ''a.x'' (VInt4 n)] [one_column ''b.x'' (VInt8 (scast n))] JInner a_eq_b [] Hash = Ok []"
    using k by (simp add: exec_join_def exec_hash_join_def hash_key_def hash_lookup_def columns_found okfilter_def ocollect_def
      del: eval_expr.simps(2))
  moreover have "exec_join bare_env [one_column ''a.x'' (VInt4 n)] [one_column ''b.x'' (VInt8 (scast n))] JInner a_eq_b [] NestedLoop
     = Ok [merge_rows (one_column ''a.x'' (VInt4 n)) (one_column ''b.x'' (VInt8 (scast n)))]"
    using c by (simp add: nested_loop_join exec_nested_loop_join_def okfilter_def ocollect_def)
  ultimately show ?thesis by simp
qed

section \<open>Joins as relational algebra\<close>

text \<open>What the loops of \<^verbatim>\<open>exec_join\<close> collect, with the padding of the code.\<close>

definition loop_rows :: "join_type \<Rightarrow> (row \<Rightarrow> row \<Rightarrow> row) \<Rightarrow> (row \<Rightarrow> row \<Rightarrow> bool) \<Rightarrow> row list \<Rightarrow> row list \<Rightarrow> row multiset" where
  "loop_rows jt f M left right =
     mset (concat (map (\<lambda>lr. map (f lr) (filter (M lr) right)) left))
     + (if jt = JLeft \<or> jt = JFull then mset (map (\<lambda>lr. left_pad_row lr right) (filter (\<lambda>lr. \<not> (\<exists>rr \<in> set right. M lr rr)) left)) else {#})
     + (if jt = JRight \<or> jt = JFull then mset (map (right_pad_row left) (filter (\<lambda>rr. \<not> (\<exists>lr \<in> set left. M lr rr)) right)) else {#})"

lemma concat_pad:
  "mset (concat (map (\<lambda>x. if filter (P x) ys = [] then [g x] else map (f x) (filter (P x) ys)) xs))
   = mset (concat (map (\<lambda>x. map (f x) (filter (P x) ys)) xs)) + mset (map g (filter (\<lambda>x. \<not> (\<exists>y \<in> set ys. P x y)) xs))"
  by (induction xs) (auto simp: filter_empty_conv)

lemma concat_swap:
  "mset (concat (map (\<lambda>x. map (f x) (filter (P x) ys)) xs)) = mset (concat (map (\<lambda>y. map (\<lambda>x. f x y) (filter (\<lambda>x. P x y) xs)) ys))"
proof (induction ys)
  case Nil
  show ?case by (induction xs) auto
next
  case (Cons y ys)
  have "mset (concat (map (\<lambda>x. map (f x) (filter (P x) (y # ys))) xs))
    = mset (map (\<lambda>x. f x y) (filter (\<lambda>x. P x y) xs)) + mset (concat (map (\<lambda>x. map (f x) (filter (P x) ys)) xs))"
    by (induction xs) auto
  then show ?case using Cons by simp
qed

lemma zip_flags: "map (\<lambda>(x, b). f x) (filter snd (zip xs (map P xs))) = map f (filter P xs)"
  by (induction xs) auto

lemma enumerate_flags:
  "(\<And>i. i < length xs \<Longrightarrow> Q (n + i) \<longleftrightarrow> R (xs ! i)) \<Longrightarrow>
    concat (map (\<lambda>(i, x). if Q i then [] else [f x]) (enumerate n xs)) = map f (filter (\<lambda>x. \<not> R x) xs)"
proof (induction xs arbitrary: n)
  case (Cons x xs)
  have "concat (map (\<lambda>(i, x). if Q i then [] else [f x]) (enumerate (Suc n) xs)) = map f (filter (\<lambda>x. \<not> R x) xs)"
    by (rule Cons.IH) (use Cons.prems [of "Suc _"] in simp)
  then show ?case using Cons.prems [of 0] by simp
qed simp

lemma join_loops:
  assumes ok: "\<forall>lr \<in> set left. \<forall>rr \<in> set right. join_match E condition us lr rr = Ok (M lr rr)"
  defines "f \<equiv> \<lambda>lr rr. deduplicate_using_cols (merge_rows lr rr) us"
  shows "\<exists>rows. exec_join E left right jt condition us NestedLoop = Ok rows \<and> mset rows = loop_rows jt f M left right"
proof -
  have l: "okfilter (join_match E condition us lr) right = Ok (filter (M lr) right)" if "lr \<in> set left" for lr
    by (rule okfilter_Ok) (use ok that in simp)
  have r: "okfilter (\<lambda>lr. join_match E condition us lr rr) left = Ok (filter (\<lambda>lr. M lr rr) left)" if "rr \<in> set right" for rr
    by (rule okfilter_Ok) (use ok that in simp)
  have inner: "ocollect (\<lambda>lr. obind (okfilter (join_match E condition us lr) right) (\<lambda>ms. Ok (map (f lr) ms))) left
      = Ok (concat (map (\<lambda>lr. map (f lr) (filter (M lr) right)) left))"
    by (rule ocollect_Ok) (simp add: l)
  show ?thesis
  proof (cases jt)
    case JLeft
    have "ocollect (\<lambda>lr. obind (okfilter (join_match E condition us lr) right) (\<lambda>ms.
        Ok (if ms = [] then [left_pad_row lr right] else map (f lr) ms))) left
      = Ok (concat (map (\<lambda>lr. if filter (M lr) right = [] then [left_pad_row lr right] else map (f lr) (filter (M lr) right)) left))"
      by (rule ocollect_Ok) (simp add: l)
    then show ?thesis using JLeft by (simp add: exec_join_def f_def [symmetric] loop_rows_def concat_pad)
  next
    case JRight
    have "ocollect (\<lambda>rr. obind (okfilter (\<lambda>lr. join_match E condition us lr rr) left) (\<lambda>ms.
        Ok (if ms = [] then [right_pad_row left rr] else map (\<lambda>lr. f lr rr) ms))) right
      = Ok (concat (map (\<lambda>rr. if filter (\<lambda>lr. M lr rr) left = [] then [right_pad_row left rr]
          else map (\<lambda>lr. f lr rr) (filter (\<lambda>lr. M lr rr) left)) right))"
      by (rule ocollect_Ok) (simp add: r)
    then show ?thesis using JRight by (simp add: exec_join_def f_def [symmetric] loop_rows_def concat_pad concat_swap [of f M])
  next
    case JFull
    define table where "table = map (\<lambda>rr. (rr, map (\<lambda>lr. M lr rr) left)) right"
    have "omap (\<lambda>lr. join_match E condition us lr rr) left = Ok (map (\<lambda>lr. M lr rr) left)" if "rr \<in> set right" for rr
      by (rule omap_Ok) (use ok that in simp)
    then have t: "omap (\<lambda>rr. obind (omap (\<lambda>lr. join_match E condition us lr rr) left) (\<lambda>bs. Ok (rr, bs))) right = Ok table"
      unfolding table_def by (intro omap_Ok) simp
    have 1: "concat (map (\<lambda>(rr, bs). if True \<in> set bs then map (\<lambda>(lr, b). f lr rr) (filter snd (zip left bs)) else [right_pad_row left rr]) table)
      = concat (map (\<lambda>rr. if filter (\<lambda>lr. M lr rr) left = [] then [right_pad_row left rr] else map (\<lambda>lr. f lr rr) (filter (\<lambda>lr. M lr rr) left)) right)"
      unfolding table_def by (rule arg_cong [where f = concat]) (auto simp: zip_flags filter_empty_conv)
    have 2: "concat (map (\<lambda>(i, lr). if list_ex (\<lambda>(rr, bs). bs ! i) table then [] else [left_pad_row lr right]) (enumerate 0 left))
      = map (\<lambda>lr. left_pad_row lr right) (filter (\<lambda>lr. \<not> (\<exists>rr \<in> set right. M lr rr)) left)"
      by (rule enumerate_flags) (auto simp: table_def list_ex_iff)
    show ?thesis using JFull t 1 2
      by (simp add: exec_join_def f_def [symmetric] loop_rows_def concat_pad concat_swap [of f M] ac_simps)
  qed (use inner in \<open>simp_all add: exec_join_def f_def [symmetric] loop_rows_def\<close>)
qed

text \<open>
  The join of relational algebra, of tables with the columns \<open>ls\<close> and \<open>rs\<close>, as a multiset of rows with the columns of both:
  the pairs on which the condition is true, and for an outer side its rows without partner, with a null in every column of
  the other side.
\<close>

definition joined :: "(rstring \<times> data_type) list \<Rightarrow> (rstring \<times> data_type) list \<Rightarrow> val list \<Rightarrow> val list \<Rightarrow> row" where
  "joined ls rs vs ws = \<lparr>row_values = vs @ ws, row_schema = ls @ rs\<rparr>"

definition partners :: "'p eval_env \<Rightarrow> 'p expr \<Rightarrow> (rstring \<times> data_type) list \<Rightarrow> (rstring \<times> data_type) list \<Rightarrow> row \<Rightarrow> row \<Rightarrow> bool" where
  "partners E condition ls rs l r \<longleftrightarrow> eval_expr E condition (joined ls rs (row_values l) (row_values r)) = Ok (VBool True)"

definition relational_join ::
  "join_type \<Rightarrow> (row \<Rightarrow> row \<Rightarrow> bool) \<Rightarrow> (rstring \<times> data_type) list \<Rightarrow> (rstring \<times> data_type) list \<Rightarrow> row list \<Rightarrow> row list \<Rightarrow> row multiset" where
  "relational_join jt P ls rs left right =
     image_mset (\<lambda>(l, r). joined ls rs (row_values l) (row_values r)) (filter_mset (\<lambda>(l, r). P l r) (mset (List.product left right)))
     + (if jt \<in> {JLeft, JFull}
        then {#joined ls rs (row_values l) (replicate (length rs) VNull). l \<in># filter_mset (\<lambda>l. \<forall>r \<in> set right. \<not> P l r) (mset left)#} else {#})
     + (if jt \<in> {JRight, JFull}
        then {#joined ls rs (replicate (length ls) VNull) (row_values r). r \<in># filter_mset (\<lambda>r. \<forall>l \<in> set left. \<not> P l r) (mset right)#} else {#})"

lemma pairs_product:
  "mset (concat (map (\<lambda>l. map (f l) (filter (P l) right)) left))
    = image_mset (\<lambda>(l, r). f l r) (filter_mset (\<lambda>(l, r). P l r) (mset (List.product left right)))"
  by (induction left) (simp_all add: filter_map comp_def flip: mset_filter mset_map)

lemma loop_rows_relational:
  assumes ls: "\<forall>l \<in> set left. row_schema l = ls" and rs: "\<forall>r \<in> set right. row_schema r = rs"
    and sides: "jt \<in> {JLeft, JFull} \<Longrightarrow> right \<noteq> []" "jt \<in> {JRight, JFull} \<Longrightarrow> left \<noteq> []"
  shows "loop_rows jt merge_rows P left right = relational_join jt P ls rs left right"
proof -
  have m: "map (merge_rows l) (filter (P l) right) = map (\<lambda>r. joined ls rs (row_values l) (row_values r)) (filter (P l) right)"
    if "l \<in> set left" for l using that ls rs by (auto simp: merge_rows_def joined_def)
  have "mset (concat (map (\<lambda>l. map (merge_rows l) (filter (P l) right)) left))
      = mset (concat (map (\<lambda>l. map (\<lambda>r. joined ls rs (row_values l) (row_values r)) (filter (P l) right)) left))"
    using m by (intro arg_cong [of _ _ "\<lambda>xs. mset (concat xs)"] map_cong) simp_all
  moreover have "left_pad_row l right = joined ls rs (row_values l) (replicate (length rs) VNull)" if "l \<in> set left" "jt \<in> {JLeft, JFull}" for l
    using that ls rs sides(1) by (cases right) (auto simp: left_pad_row_def first_schema_def joined_def map_replicate_const)
  then have "image_mset (\<lambda>l. left_pad_row l right) (filter_mset Q (mset left))
      = image_mset (\<lambda>l. joined ls rs (row_values l) (replicate (length rs) VNull)) (filter_mset Q (mset left))" if "jt \<in> {JLeft, JFull}" for Q
    using that by (intro image_mset_cong) simp
  moreover have "right_pad_row left r = joined ls rs (replicate (length ls) VNull) (row_values r)" if "r \<in> set right" "jt \<in> {JRight, JFull}" for r
    using that ls rs sides(2) by (cases left) (auto simp: right_pad_row_def first_schema_def joined_def map_replicate_const)
  then have "image_mset (right_pad_row left) (filter_mset Q (mset right))
      = image_mset (\<lambda>r. joined ls rs (replicate (length ls) VNull) (row_values r)) (filter_mset Q (mset right))" if "jt \<in> {JRight, JFull}" for Q
    using that by (intro image_mset_cong) simp
  ultimately show ?thesis unfolding loop_rows_def relational_join_def pairs_product by (auto simp: mset_filter)
qed

text \<open>
  \<^bold>\<open>C13.\<close> Every kind of join with an ON condition is the operation of relational algebra it is named after, whichever
  algorithm the planner has chosen: the pairs on which the condition is true, and with an outer side the rows of that side
  without partner, each once, with a null in every column of the other side. The condition evaluates on every pair, the
  side whose columns are filled with nulls is not empty, and the keys of a hash join are of one type.
\<close>

theorem joins_are_relational:
  assumes "\<forall>l \<in> set left. row_schema l = ls" and "\<forall>r \<in> set right. row_schema r = rs"
    and "\<forall>l \<in> set left. \<forall>r \<in> set right. is_ok (eval_expr E condition (joined ls rs (row_values l) (row_values r)))"
    and "jt \<in> {JLeft, JFull} \<Longrightarrow> right \<noteq> []" and "jt \<in> {JRight, JFull} \<Longrightarrow> left \<noteq> []"
    and "algorithm = Hash \<Longrightarrow> keys_resolved E left right condition lk rk"
  shows "\<exists>rows. exec_join E left right jt condition [] algorithm = Ok rows
    \<and> mset rows = relational_join jt (partners E condition ls rs) ls rs left right"
proof -
  have alg: "exec_join E left right jt condition [] algorithm = exec_join E left right jt condition [] NestedLoop"
    using hash_like_loop assms(6) by (cases algorithm) auto
  have "join_match E condition [] l r = Ok (partners E condition ls rs l r)" if "l \<in> set left" "r \<in> set right" for l r
    using assms(1-3) that holds_Ok [of E condition "joined ls rs (row_values l) (row_values r)"]
    by (simp add: join_match_def merge_rows_def joined_def partners_def)
  then obtain rows where "exec_join E left right jt condition [] NestedLoop = Ok rows"
    "mset rows = loop_rows jt (\<lambda>l r. deduplicate_using_cols (merge_rows l r) []) (partners E condition ls rs) left right"
    using join_loops [of left right E condition "[]" "partners E condition ls rs" jt] by blast
  then show ?thesis using alg loop_rows_relational [OF assms(1,2,4,5)] by (simp add: deduplicate_using_cols_def)
qed

theorem joins_are_relational_witness:
  "\<exists>rows. exec_join bare_env (map (one_column ''a.x'') [VInt4 1, VNull]) (map (one_column ''b.x'') [VInt4 1, VInt4 2]) JFull a_eq_b [] Hash
      = Ok rows \<and> mset rows = {#\<lparr>row_values = [VInt4 1, VInt4 1], row_schema = [(lit ''a.x'', TInt8), (lit ''b.x'', TInt8)]\<rparr>,
        \<lparr>row_values = [VNull, VNull], row_schema = [(lit ''a.x'', TInt8), (lit ''b.x'', TInt8)]\<rparr>,
        \<lparr>row_values = [VNull, VInt4 2], row_schema = [(lit ''a.x'', TInt8), (lit ''b.x'', TInt8)]\<rparr>#}"
proof -
  let ?l = "map (one_column ''a.x'') [VInt4 1, VNull]" and ?r = "map (one_column ''b.x'') [VInt4 1, VInt4 2]"
  let ?ls = "[(lit ''a.x'', TInt8)]" and ?rs = "[(lit ''b.x'', TInt8)]"
  have k: "keys_resolved bare_env ?l ?r a_eq_b (EColumn (Some (lit ''a'')) (lit ''x'')) (EColumn (Some (lit ''b'')) (lit ''x''))" by code_simp
  have v: "\<forall>l \<in> set ?l. \<forall>r \<in> set ?r. is_ok (eval_expr bare_env a_eq_b (joined ?ls ?rs (row_values l) (row_values r)))" by code_simp
  have p: "map (partners bare_env a_eq_b ?ls ?rs (one_column ''a.x'' v)) ?r = (if v = VNull then [False, False] else [True, False])"
    if "v \<in> {VInt4 1, VNull}" for v
  proof -
    have "map (partners bare_env a_eq_b ?ls ?rs (one_column ''a.x'' (VInt4 1))) ?r = [True, False]"
      "map (partners bare_env a_eq_b ?ls ?rs (one_column ''a.x'' VNull)) ?r = [False, False]" by code_simp+
    then show ?thesis using that by auto
  qed
  have "\<exists>rows. exec_join bare_env ?l ?r JFull a_eq_b [] Hash = Ok rows
    \<and> mset rows = relational_join JFull (partners bare_env a_eq_b ?ls ?rs) ?ls ?rs ?l ?r"
    by (rule joins_are_relational [OF _ _ v]) (use k in \<open>simp_all add: one_column_def\<close>)
  moreover have "relational_join JFull (partners bare_env a_eq_b ?ls ?rs) ?ls ?rs ?l ?r
    = {#joined ?ls ?rs [VInt4 1] [VInt4 1], joined ?ls ?rs [VNull] [VNull], joined ?ls ?rs [VNull] [VInt4 2]#}"
    using p [of "VInt4 1"] p [of VNull] by (simp add: relational_join_def) (simp add: one_column_def)
  ultimately show ?thesis by (simp add: joined_def)
qed

end
