(* ===== verification/Sql_Algebra.thy ===== *)
theory Sql_Algebra
  imports Sql_Join
begin

text \<open>
  What the set operations, the limit and the patterns compute, and the logic and arithmetic of expressions: the set
  operations are the operations on multisets of rows, expressions follow three-valued logic, and integer arithmetic is
  exact or refused.
\<close>

section \<open>Set operations\<close>

text \<open>Values that are equal exactly when they are the same: no double that is not a number and no negative zero.\<close>

fun solid :: "val \<Rightarrow> bool" where
  "solid (VFloat8 f) \<longleftrightarrow> \<not> f64_nan f \<and> f \<noteq> 0x8000000000000000"
| "solid (VArray vs) \<longleftrightarrow> list_all solid vs"
| "solid _ \<longleftrightarrow> True"

lemma solid_eq:
  "solid a \<Longrightarrow> solid b \<Longrightarrow> val_eq a b \<longleftrightarrow> a = b"
  "list_all solid as \<Longrightarrow> list_all solid bs \<Longrightarrow> vals_eq as bs \<longleftrightarrow> as = bs"
proof (induction a b and as bs rule: val_eq_vals_eq.induct)
  case (1 a b)
  show ?case
  proof (cases a)
    case (VFloat8 x)
    then show ?thesis using 1(2,3) rank_inj by (cases b) (auto simp: val_eq.simps f64_cmp_def cmp_def split: if_splits)
  next
    case (VArray xs)
    then show ?thesis using 1 by (cases b) (auto simp: val_eq.simps)
  qed (auto simp: val_eq.simps)
next
  case (3 x xs ys)
  then show ?case by (cases ys) auto
qed auto

definition solid_rows :: "row list \<Rightarrow> bool" where
  "solid_rows rs = list_all (\<lambda>r. list_all solid (row_values r)) rs"

lemma rows_contain_iff:
  "list_all solid vs \<Longrightarrow> list_all (list_all solid) vss \<Longrightarrow> rows_contain vss vs \<longleftrightarrow> vs \<in> set vss"
  by (induction vss) (auto simp: rows_contain_def solid_eq)

lemma dedup_loop_values:
  assumes "solid_rows rs" "list_all (list_all solid) seen"
  shows "distinct (map row_values (dedup_loop seen rs))
    \<and> row_values ` set (dedup_loop seen rs) = row_values ` set rs - set seen"
  using assms
proof (induction rs arbitrary: seen)
  case (Cons r rs)
  have "rows_contain seen (row_values r) \<longleftrightarrow> row_values r \<in> set seen"
    using Cons.prems by (intro rows_contain_iff) (auto simp: solid_rows_def)
  then show ?case using Cons.IH [of seen] Cons.IH [of "seen @ [row_values r]"] Cons.prems by (auto simp: solid_rows_def)
qed simp

lemma deduplicate_rows_values:
  assumes "solid_rows rs"
  shows "mset (map row_values (deduplicate_rows rs)) = mset_set (row_values ` set rs)"
proof -
  have d: "distinct (map row_values (deduplicate_rows rs))" "set (map row_values (deduplicate_rows rs)) = row_values ` set rs"
    using dedup_loop_values [of rs "[]"] assms by (auto simp: deduplicate_rows_def)
  show ?thesis unfolding d(2) [symmetric] by (rule mset_set_set [OF d(1), symmetric])
qed

lemma position_Some: "position P xs = Some i \<Longrightarrow> i < length xs \<and> P (xs ! i)"
  by (auto simp: position_def find_Some_iff)

lemma position_None: "position P xs = None \<Longrightarrow> x \<in> set xs \<Longrightarrow> \<not> P x"
  by (auto simp: position_def find_None_iff in_set_conv_nth)

lemma mset_drop_nth: "i < length xs \<Longrightarrow> mset (take i xs @ drop (Suc i) xs) = mset xs - {#xs ! i#}"
  using arg_cong [OF id_take_nth_drop, of i xs mset] by simp

lemma add_minus_partner: "x \<in># B \<Longrightarrow> add_mset x A - B = A - (B - {#x#})"
  by (metis insert_DiffM add_mset_diff_bothsides)

text \<open>Removing partners from the pool splits the left side into its part of the intersection and the rest.\<close>

lemma take_partners_values:
  assumes "solid_rows rs" "list_all (list_all solid) pool"
  shows "mset (map row_values (fst (take_partners pool rs))) = mset (map row_values rs) \<inter># mset pool
    \<and> mset (map row_values (snd (take_partners pool rs))) = mset (map row_values rs) - mset pool"
  using assms
proof (induction rs arbitrary: pool)
  case (Cons r rs)
  let ?P = "\<lambda>ws. vals_eq ws (row_values r)"
  have eq: "?P ws \<longleftrightarrow> ws = row_values r" if "ws \<in> set pool" for ws
    using that Cons.prems solid_eq(2) [of ws "row_values r"] by (auto simp: solid_rows_def list_all_iff)
  show ?case
  proof (cases "position ?P pool")
    case None
    then have "row_values r \<notin> set pool" using position_None eq by metis
    then show ?thesis using None Cons.IH [of pool] Cons.prems
      by (auto simp: solid_rows_def inter_add_left1 split: prod.splits)
  next
    case (Some i)
    then have i: "i < length pool" "pool ! i = row_values r" using position_Some [OF Some] eq by auto
    let ?rest = "take i pool @ drop (Suc i) pool"
    have m: "mset ?rest = mset pool - {#row_values r#}" using mset_drop_nth [OF i(1)] i(2) by simp
    have "list_all (list_all solid) ?rest" using Cons.prems(2) by (auto simp: list_all_iff dest: in_set_takeD in_set_dropD)
    then have "mset (map row_values (fst (take_partners ?rest rs))) = mset (map row_values rs) \<inter># mset ?rest"
      "mset (map row_values (snd (take_partners ?rest rs))) = mset (map row_values rs) - mset ?rest"
      using Cons.IH [of ?rest] Cons.prems by (auto simp: solid_rows_def)
    moreover have "row_values r \<in># mset pool" using i by (metis nth_mem set_mset_mset)
    ultimately show ?thesis using Some unfolding m
      by (auto simp: inter_add_left2 add_minus_partner simp del: mset_append split: prod.splits)
  qed
qed simp

text \<open>The multiset of rows a set operation stands for.\<close>

definition set_op_spec :: "set_operation \<Rightarrow> bool \<Rightarrow> val list multiset \<Rightarrow> val list multiset \<Rightarrow> val list multiset" where
  "set_op_spec op all A B =
     (case op of
        Union_op \<Rightarrow> if all then A + B else mset_set (set_mset A \<union> set_mset B)
      | Intersect_op \<Rightarrow> if all then A \<inter># B else mset_set (set_mset A \<inter> set_mset B)
      | Except_op \<Rightarrow> if all then A - B else mset_set (set_mset A - set_mset B))"

text \<open>
  \<^bold>\<open>C14.\<close> The set operations are the operations on multisets of rows: with \<^verbatim>\<open>ALL\<close> copies are added, matched one by
  one, or removed one by one; without it every row of the result occurs once.
\<close>

theorem set_operations_are_multiset_operations:
  assumes "solid_rows left" "solid_rows right"
  shows "mset (map row_values (set_op_rows op all left right))
    = set_op_spec op all (mset (map row_values left)) (mset (map row_values right))"
proof -
  define right' where "right' = map (\<lambda>r. if first_schema left \<noteq> [] then r\<lparr>row_schema := first_schema left\<rparr> else r) right"
  have v: "map row_values right' = map row_values right" unfolding right'_def by simp
  have p: "list_all (list_all solid) (map row_values right)" using assms(2) by (simp add: solid_rows_def list_all_iff)
  have s: "solid_rows right'" using assms(2) arg_cong [OF v, of "list_all (list_all solid)"] by (simp add: solid_rows_def list_all_iff)
  have sub: "solid_rows (filter P left)" for P using assms(1) by (auto simp: solid_rows_def list_all_iff)
  have c: "rows_contain (map row_values right) (row_values r) \<longleftrightarrow> row_values r \<in> row_values ` set right" if "r \<in> set left" for r
    using rows_contain_iff [OF _ p, of "row_values r"] that assms(1) by (auto simp: solid_rows_def list_all_iff)
  have i: "row_values ` set (filter (\<lambda>lr. rows_contain (map row_values right) (row_values lr)) left)
      = row_values ` set left \<inter> row_values ` set right"
    and e: "row_values ` set (filter (\<lambda>lr. \<not> rows_contain (map row_values right) (row_values lr)) left)
      = row_values ` set left - row_values ` set right" using c by auto
  have u: "solid_rows (left @ right')" using assms(1) s by (simp add: solid_rows_def)
  have im: "row_values ` set right' = row_values ` set right" using arg_cong [OF v, of set] by simp
  show ?thesis
    using take_partners_values [OF assms(1) p] deduplicate_rows_values [OF sub] deduplicate_rows_values [OF u] i e
    unfolding set_op_rows_def set_op_spec_def right'_def [symmetric] Let_def v
    by (cases op; cases all) (simp_all add: image_Un im v [symmetric])
qed

theorem set_operations_are_multiset_operations_witness:
  "mset (map row_values (set_op_rows Except_op True (map (one_column ''x'') [VInt4 1, VInt4 1, VInt4 2]) [one_column ''x'' (VInt4 1)]))
    = {#[VInt4 1], [VInt4 2]#}"
proof -
  have "solid_rows (map (one_column ''x'') [VInt4 1, VInt4 1, VInt4 2])" "solid_rows [one_column ''x'' (VInt4 1)]" by code_simp+
  from set_operations_are_multiset_operations [OF this, of Except_op True] show ?thesis
    by (simp add: set_op_spec_def one_column_def)
qed

section \<open>Limit\<close>

text \<open>
  A limit delivers the rows behind the offset, at most as many as asked for; when the end of the range does not fit the
  machine width, the slice panics instead of delivering the remaining rows.
\<close>

theorem limit_is_a_slice:
  assumes "length rows < 2 ^ 64"
  shows "exec_limit rows limit offset =
    (if limit = - 1 then Ok (drop (unat offset) rows)
     else if min (unat offset) (length rows) + unat limit < 2 ^ 64 then Ok (take (unat limit) (drop (unat offset) rows))
     else Panic)"
proof -
  define s where "s = min (unat offset) (length rows)"
  have d: "drop s rows = drop (unat offset) rows" "s \<le> length rows" by (simp_all add: s_def min_def)
  have l: "unat limit < 2 ^ 64" using unsigned_less [of limit] by simp
  have s: "s < 2 ^ 64" using assms d(2) by simp
  then have "unat (of_nat s :: u64) = s" by (simp only: unat_of_nat) (simp add: take_bit_nat_eq_self)
  then have w: "unat (of_nat s + limit) = (s + unat limit) mod 2 ^ 64" by (simp only: unat_word_ariths(1)) simp
  have e: "exec_limit rows limit offset =
      (let stop = (if limit = - 1 then length rows else min (unat (of_nat s + limit)) (length rows)) in
       if stop < s then Panic else Ok (take (stop - s) (drop (unat offset) rows)))"
    unfolding exec_limit_def s_def [symmetric] by (simp add: d Let_def)
  show ?thesis
  proof (cases "limit = - 1 \<or> s + unat limit < 2 ^ 64")
    case True
    then have "limit \<noteq> - 1 \<Longrightarrow> unat (of_nat s + limit) = s + unat limit" unfolding w by (intro mod_less) simp
    moreover have "length (drop (unat offset) rows) = length rows - s" using arg_cong [OF d(1), of length] by simp
    ultimately show ?thesis using True d(2) unfolding e s_def [symmetric] by (auto simp: min_def not_less)
  next
    case False
    then have "unat (of_nat s + limit) = s + unat limit - 2 ^ 64" unfolding w
      using l s le_mod_geq [of "2 ^ 64" "s + unat limit"] mod_less [of "s + unat limit - 2 ^ 64" "2 ^ 64"] by linarith
    then have "unat (of_nat s + limit) < s" using l False by linarith
    then show ?thesis using False d(2) unfolding e s_def [symmetric] by (simp only: Let_def) simp
  qed
qed

theorem limit_is_a_slice_witness: "exec_limit (map (one_column ''x'') [VInt4 1, VInt4 2, VInt4 3]) 1 1 = Ok [one_column ''x'' (VInt4 2)]
   \<and> exec_limit (map (one_column ''x'') [VInt4 1, VInt4 2, VInt4 3]) (- 2) 2 = Panic"
  using limit_is_a_slice [of "map (one_column ''x'') [VInt4 1, VInt4 2, VInt4 3]" 1 1]
    limit_is_a_slice [of "map (one_column ''x'') [VInt4 1, VInt4 2, VInt4 3]" "- 2" 2] by simp

section \<open>Patterns\<close>

text \<open>The texts a pattern stands for.\<close>

primrec like_texts :: "rstring \<Rightarrow> rstring set" where
  "like_texts [] = {[]}"
| "like_texts (c # p) =
     (if c = 37 then {u @ t | u t. t \<in> like_texts p}
      else if c = 95 then {b # t | b t. t \<in> like_texts p}
      else {c # t | t. t \<in> like_texts p})"

text \<open>
  The backtracking matcher always returns and decides whether a text is one the pattern stands for; an underscore
  stands for one byte.
\<close>

theorem like_match_decides: "like_match_impl s p \<longleftrightarrow> s \<in> like_texts p"
proof (induction p arbitrary: s)
  case (Cons c p)
  have "list_ex (\<lambda>i. like_match_impl (drop i s) p) [0..<Suc (length s)] \<longleftrightarrow> s \<in> {u @ t | u t. t \<in> like_texts p}"
  proof
    assume "list_ex (\<lambda>i. like_match_impl (drop i s) p) [0..<Suc (length s)]"
    then obtain i where "drop i s \<in> like_texts p" using Cons.IH unfolding list_ex_iff by blast
    moreover have "s = take i s @ drop i s" by simp
    ultimately show "s \<in> {u @ t | u t. t \<in> like_texts p}" by blast
  next
    assume "s \<in> {u @ t | u t. t \<in> like_texts p}"
    then obtain u t where "s = u @ t" "t \<in> like_texts p" by auto
    then have "length u \<in> set [0..<Suc (length s)] \<and> like_match_impl (drop (length u) s) p" using Cons.IH by simp
    then show "list_ex (\<lambda>i. like_match_impl (drop i s) p) [0..<Suc (length s)]" unfolding list_ex_iff by blast
  qed
  then show ?case using Cons.IH by (cases s) auto
qed simp

section \<open>Logic\<close>

primrec tv :: "bool option \<Rightarrow> val" where
  "tv None = VNull"
| "tv (Some b) = VBool b"

definition kleene_and :: "bool option \<Rightarrow> bool option \<Rightarrow> bool option" where
  "kleene_and a b = (if a = Some False \<or> b = Some False then Some False else if a = None \<or> b = None then None else Some True)"

definition kleene_or :: "bool option \<Rightarrow> bool option \<Rightarrow> bool option" where
  "kleene_or a b = (if a = Some True \<or> b = Some True then Some True else if a = None \<or> b = None then None else Some False)"

text \<open>
  Conjunction, disjunction and negation are those of three-valued logic, and every other operator on a missing value
  gives a missing value.
\<close>

theorem three_valued_logic:
  "eval_binary_op F J (tv a) OpAnd (tv b) = Ok (tv (kleene_and a b))
   \<and> eval_binary_op F J (tv a) OpOr (tv b) = Ok (tv (kleene_or a b))
   \<and> eval_unary_op OpNot (tv a) = Ok (tv (map_option Not a))
   \<and> (op \<noteq> OpAnd \<and> op \<noteq> OpOr \<longrightarrow> eval_binary_op F J VNull op v = Ok VNull \<and> eval_binary_op F J v op VNull = Ok VNull)"
  by (cases a; cases b) (simp_all add: eval_binary_op_def eval_unary_op_def coerce_def kleene_and_def kleene_or_def)

theorem three_valued_logic_witness:
  "\<forall>F J. eval_binary_op F J VNull OpAnd (VBool False) = Ok (VBool False) \<and> eval_binary_op F J VNull OpEq VNull = Ok VNull"
  using three_valued_logic [where a = None and b = "Some False" and op = OpEq and v = VNull] by (simp add: kleene_and_def)

section \<open>Arithmetic\<close>

fun int_of :: "val \<Rightarrow> int option" where
  "int_of (VInt4 i) = Some (sint i)"
| "int_of (VInt8 i) = Some (sint i)"
| "int_of _ = None"

definition width :: "val \<Rightarrow> val \<Rightarrow> nat" where
  "width a b = (case (a, b) of (VInt4 _, VInt4 _) \<Rightarrow> 32 | _ \<Rightarrow> 64)"

fun exact :: "binary_op \<Rightarrow> int \<Rightarrow> int \<Rightarrow> int option" where
  "exact OpAdd x y = Some (x + y)"
| "exact OpSub x y = Some (x - y)"
| "exact OpMul x y = Some (x * y)"
| "exact OpDiv x y = (if y = 0 then None else Some (x sdiv y))"
| "exact OpMod x y = (if y = 0 then None else Some (x smod y))"
| "exact _ x y = None"

lemma checked_fits:
  "checked 32 r = Some x \<Longrightarrow> x = r \<and> sint (word_of_int r :: u32) = r"
  "checked 64 r = Some x \<Longrightarrow> x = r \<and> sint (word_of_int r :: u64) = r"
  using i32_id [of r] i64_id [of r] by (auto simp: checked_def sint_sbintrunc' i32_def i64_def split: if_splits)

lemma sint_zero: "sint w = 0 \<longleftrightarrow> w = 0"
  by (rule signed_eq_0_iff)

lemma sum_product_quotient_exact:
  assumes "int_of a = Some x" "int_of b = Some y" "op \<in> {OpAdd, OpSub, OpMul, OpDiv}"
  shows "case eval_binary_op F J a op b of
      Ok r \<Rightarrow> int_of r = exact op x y
    | Err e \<Rightarrow> (e = DivisionByZero \<and> op = OpDiv \<and> y = 0)
        \<or> (e = NumericOverflow \<and> (\<exists>z. exact op x y = Some z \<and> checked (width a b) z = None))
    | Panic \<Rightarrow> False"
proof -
  have int: "case checked_numeric_op F (\<lambda>n p q. if z p q = None then None else checked n (the (z p q))) g a b of
      Ok r \<Rightarrow> int_of r = z x y
    | Err e \<Rightarrow> e = NumericOverflow \<and> (z x y \<noteq> None \<longrightarrow> checked (width a b) (the (z x y)) = None)
    | Panic \<Rightarrow> False" for z g
    using assms(1,2) by (cases a; cases b)
      (auto simp: checked_numeric_op_def width_def ok_or_def split: option.splits dest!: checked_fits)
  have n: "a \<noteq> VNull" "b \<noteq> VNull" "coerce a b = Ok (a, b)" using assms(1,2) by (cases a; cases b; simp add: coerce_def)+
  consider "op = OpAdd" | "op = OpSub" | "op = OpMul" | "op = OpDiv" "y = 0" | "op = OpDiv" "y \<noteq> 0" using assms(3) by auto
  then show ?thesis
  proof cases
    case 1
    then show ?thesis using n int [of "\<lambda>p q. Some (p + q)" "f_add F"] by (auto simp: eval_binary_op_def split: outcome.splits)
  next
    case 2
    then show ?thesis using n int [of "\<lambda>p q. Some (p - q)" "f_sub F"] by (auto simp: eval_binary_op_def split: outcome.splits)
  next
    case 3
    then show ?thesis using n int [of "\<lambda>p q. Some (p * q)" "f_mul F"] by (auto simp: eval_binary_op_def split: outcome.splits)
  next
    case 4
    then have "b = VInt4 0 \<or> b = VInt8 0" using assms(2) by (cases b) (auto simp: sint_zero)
    then show ?thesis using 4 n by (auto simp: eval_binary_op_def)
  next
    case 5
    have "b \<noteq> VInt4 0" "b \<noteq> VInt8 0" using 5(2) assms(2) by auto
    moreover have "(case b of VFloat8 f \<Rightarrow> f64_cmp f 0 = Some OEqual | _ \<Rightarrow> False) = False" using assms(2) by (cases b) simp_all
    moreover define z :: "int \<Rightarrow> int \<Rightarrow> int option" where "z = (\<lambda>p q. if q = 0 then None else Some (p sdiv q))"
    moreover have "checked_div = (\<lambda>n p q. if z p q = None then None else checked n (the (z p q)))"
      by (simp add: checked_div_def z_def fun_eq_iff)
    note i = int [of z "f_div F", folded this]
    have "z x y = exact op x y" using 5 by (simp add: z_def)
    ultimately show ?thesis using n 5 i by (auto simp: eval_binary_op_def split: outcome.splits)
  qed
qed

lemma rem_fits:
  fixes a b :: int
  assumes "b \<noteq> 0" "- (2 ^ n) \<le> b" "b < 2 ^ n"
  shows "- (2 ^ n) \<le> a smod b" and "a smod b < 2 ^ n"
proof -
  have "\<bar>a smod b\<bar> < \<bar>b\<bar>" using assms(1) by (simp add: signed_modulo_int_def abs_mult sgn_if abs_sgn_eq)
  then show "- (2 ^ n) \<le> a smod b" "a smod b < 2 ^ n" using assms(2,3) by linarith+
qed


lemma int_range:
  assumes "int_of a = Some x"
  shows "- (2 ^ 63) \<le> x" and "x < 2 ^ 63" and "\<exists>i. a = VInt4 i \<Longrightarrow> - (2 ^ 31) \<le> x \<and> x < 2 ^ 31"
proof -
  have four: "- (2 ^ 31) \<le> sint i \<and> sint i < 2 ^ 31" for i :: u32 using sint_ge [of i] sint_lt [of i] by simp
  moreover have "- (2 ^ 63) \<le> sint i \<and> sint i < 2 ^ 63" for i :: u32 using four [of i] by simp
  moreover have "- (2 ^ 63) \<le> sint i \<and> sint i < 2 ^ 63" for i :: u64 using sint_ge [of i] sint_lt [of i] by simp
  ultimately show "- (2 ^ 63) \<le> x" "x < 2 ^ 63" "\<exists>i. a = VInt4 i \<Longrightarrow> - (2 ^ 31) \<le> x \<and> x < 2 ^ 31"
    using assms by (cases a; auto)+
qed

lemma remainder_exact:
  assumes "int_of a = Some x" "int_of b = Some y"
  shows "eval_binary_op F J a OpMod b =
    (if y = 0 then Err DivisionByZero
     else if y = - 1 \<and> x = - (2 ^ (width a b - 1)) then Panic
     else Ok (if width a b = 32 then VInt4 (word_of_int (x smod y)) else VInt8 (word_of_int (x smod y))))"
proof -
  have n: "a \<noteq> VNull" "b \<noteq> VNull" "coerce a b = Ok (a, b)" using assms by (cases a; cases b; simp add: coerce_def)+
  have "b = VInt4 0 \<or> b = VInt8 0 \<longleftrightarrow> y = 0" using assms(2) by (cases b) (auto simp: sint_zero)
  then show ?thesis using n assms by (cases a; cases b) (auto simp: eval_binary_op_def rem_op_def width_def)
qed

lemma remainder_value:
  assumes "int_of a = Some x" "int_of b = Some y" "y \<noteq> 0"
  shows "int_of (if width a b = 32 then VInt4 (word_of_int (x smod y)) else VInt8 (word_of_int (x smod y))) = Some (x smod y)"
proof (cases "width a b = 32")
  case True
  then have "\<exists>i. b = VInt4 i" using assms(1,2) by (cases a; cases b) (auto simp: width_def)
  then have "checked 32 (x smod y) = Some (x smod y)" using int_range(3) [OF assms(2)] rem_fits [OF assms(3), of 31 x] by (simp add: checked_def)
  then show ?thesis using checked_fits(1) True by auto
next
  case False
  have "checked 64 (x smod y) = Some (x smod y)" using int_range(1,2) [OF assms(2)] rem_fits [OF assms(3), of 63 x] by (simp add: checked_def)
  then show ?thesis using checked_fits(2) False by auto
qed

lemma negated:
  assumes "int_of a = Some x"
  shows "\<exists>r. eval_unary_op OpNeg a = Ok r \<and> int_of r = Some (if x = - (2 ^ (width a a - 1)) then x else - x)"
proof (cases a)
  case (VInt4 i)
  have x: "x = sint i" using assms VInt4 by simp
  show ?thesis
  proof (cases "x = - (2 ^ 31)")
    case True
    have "word_of_int x = i" unfolding x by simp
    then have "sint (- i) = x" using True by auto
    then show ?thesis using True VInt4 x by (simp add: eval_unary_op_def width_def)
  next
    case False
    have "checked 32 (- x) = Some (- x)" using int_range(3) [OF assms] VInt4 False by (simp add: checked_def)
    then have "sint (- i) = - x" using checked_fits(1) [of "- x" "- x"] x by simp
    then show ?thesis using False VInt4 by (simp add: eval_unary_op_def width_def)
  qed
next
  case (VInt8 i)
  have x: "x = sint i" using assms VInt8 by simp
  show ?thesis
  proof (cases "x = - (2 ^ 63)")
    case True
    have "word_of_int x = i" unfolding x by simp
    then have "sint (- i) = x" using True by auto
    then show ?thesis using True VInt8 x by (simp add: eval_unary_op_def width_def)
  next
    case False
    have "checked 64 (- x) = Some (- x)" using int_range(1,2) [OF assms] False by (simp add: checked_def)
    then have "sint (- i) = - x" using checked_fits(2) [of "- x" "- x"] x by simp
    then show ?thesis using False VInt8 by (simp add: eval_unary_op_def width_def)
  qed
qed (use assms in simp_all)

text \<open>
  \<^bold>\<open>C26.\<close> Integer arithmetic. A result of \<open>+\<close>, \<open>-\<close>, \<open>*\<close>, \<open>/\<close> and \<open>%\<close> has the mathematical value, truncated
  towards zero for a division; a value that does not fit the width of the result is reported as an overflow, and a division
  by zero as such. There are two exceptions: the remainder of the smallest integer by minus one panics, and the negation of
  the smallest integer is that integer.
\<close>

theorem integer_arithmetic_is_exact_or_refused:
  assumes "int_of a = Some x" "int_of b = Some y" "op \<in> {OpAdd, OpSub, OpMul, OpDiv, OpMod}"
  shows "(if op = OpMod \<and> y = - 1 \<and> x = - (2 ^ (width a b - 1)) then eval_binary_op F J a op b = Panic
     else case eval_binary_op F J a op b of
         Ok r \<Rightarrow> int_of r = exact op x y
       | Err e \<Rightarrow> (e = DivisionByZero \<and> op \<in> {OpDiv, OpMod} \<and> y = 0)
           \<or> (e = NumericOverflow \<and> (\<exists>z. exact op x y = Some z \<and> checked (width a b) z = None))
       | Panic \<Rightarrow> False)
    \<and> (\<exists>r. eval_unary_op OpNeg a = Ok r \<and> int_of r = Some (if x = - (2 ^ (width a a - 1)) then x else - x))"
proof (cases "op = OpMod")
  case True
  then show ?thesis using remainder_exact [OF assms(1,2), of F J] remainder_value [OF assms(1,2)] negated [OF assms(1)] by simp
next
  case False
  then show ?thesis
    using sum_product_quotient_exact [OF assms(1,2), of op F J] assms(3) negated [OF assms(1)] by (auto split: outcome.splits)
qed

theorem integer_arithmetic_is_exact_or_refused_witness:
  "\<forall>F J. eval_binary_op F J (VInt4 0x80000000) OpMod (VInt4 (- 1)) = Panic
    \<and> (\<exists>r. eval_unary_op OpNeg (VInt4 0x80000000) = Ok r \<and> int_of r = Some (- 2147483648))"
proof (intro allI)
  fix F J
  have "int_of (VInt4 0x80000000) = Some (- 2147483648)" "int_of (VInt4 (- 1)) = Some (- 1)" by simp_all
  from integer_arithmetic_is_exact_or_refused [OF this, of OpMod F J]
  show "eval_binary_op F J (VInt4 0x80000000) OpMod (VInt4 (- 1)) = Panic
    \<and> (\<exists>r. eval_unary_op OpNeg (VInt4 0x80000000) = Ok r \<and> int_of r = Some (- 2147483648))"
    by (simp add: width_def)
qed

end
