(* ===== verification/Sql_Row.thy ===== *)
theory Sql_Row
  imports Sql_Value
begin

text \<open>
  Rows come back from the heap as they were stored: the round trip of values and rows, the types of what is
  decoded, and the columns the null bitmap has no bit for.
\<close>

section \<open>Typed values\<close>

primrec has_type :: "val \<Rightarrow> data_type \<Rightarrow> bool" where
  "has_type VNull t \<longleftrightarrow> False"
| "has_type (VBool b) t \<longleftrightarrow> t = TBoolean"
| "has_type (VInt4 v) t \<longleftrightarrow> t = TInt4"
| "has_type (VInt8 v) t \<longleftrightarrow> t = TInt8"
| "has_type (VFloat8 v) t \<longleftrightarrow> t = TFloat8"
| "has_type (VText s) t \<longleftrightarrow> (case t of TText \<Rightarrow> True | TVarChar n \<Rightarrow> True | _ \<Rightarrow> False) \<and> utf8_ok s"
| "has_type (VBytes b) t \<longleftrightarrow> t = TBytea"
| "has_type (VDate d) t \<longleftrightarrow> t = TDate"
| "has_type (VTimestamp m) t \<longleftrightarrow> t = TTimestamp \<or> t = TTimestampTz"
| "has_type (VNumeric s) t \<longleftrightarrow> t = TNumeric \<and> utf8_ok s"
| "has_type (VUuid s) t \<longleftrightarrow> t = TUuid \<and> utf8_ok s"
| "has_type (VArray vs) t \<longleftrightarrow> (case t of TArray u \<Rightarrow> True | _ \<Rightarrow> False)"
| "has_type (VJson s) t \<longleftrightarrow> (t = TJson \<or> t = TJsonb) \<and> utf8_ok s"

text \<open>A value the encoding can hold: its text fits the length field, and an array is one the JSON library
  gives back.\<close>

definition storable :: "array_codec \<Rightarrow> val \<Rightarrow> data_type \<Rightarrow> bool" where
  "storable J v t \<longleftrightarrow> v = VNull \<or> has_type v t \<and>
     (case v of VText s \<Rightarrow> length s < 2 ^ 32 | VBytes b \<Rightarrow> length b < 2 ^ 32 | VNumeric s \<Rightarrow> length s < 2 ^ 32
      | VUuid s \<Rightarrow> length s < 2 ^ 32 | VJson s \<Rightarrow> length s < 2 ^ 32
      | VArray vs \<Rightarrow> (case t of TArray u \<Rightarrow> utf8_ok (ser J vs) \<and> length (ser J vs) < 2 ^ 32 \<and> de J u (ser J vs) = Ok vs | _ \<Rightarrow> False)
      | _ \<Rightarrow> True)"

section \<open>One column\<close>

lemma slice_at: "slice (length pre) (length bs) (pre @ bs @ post) = bs" "n = length bs \<Longrightarrow> slice (length pre) n (pre @ bs @ post) = bs"
  by (simp_all add: slice_def)

lemma with_len_slice: "length s < 2 ^ 32 \<Longrightarrow> slice (length pre) 4 (pre @ with_len s @ post) = u32_bytes (of_nat (length s))"
  by (simp add: with_len_def slice_def)

lemma length_with_len [simp]: "length (with_len s) = 4 + length s"
  by (simp add: with_len_def)

lemma take_len_with_len: "length s < 2 ^ 32 \<Longrightarrow> take_len (with_len s) = Ok s"
  by (simp add: take_len_def with_len_def slice_def)

lemma decode_var_ok:
  assumes "length s < 2 ^ 32" and "from_bytes J (with_len s) t = Ok v"
  shows "decode_var J (pre @ with_len s @ post) (length pre) t = Ok (v, length pre + length (with_len s))"
proof -
  have "unat (from_le_bytes (slice (length pre) 4 (pre @ with_len s @ post)) :: u32) = length s"
    using assms(1) by (simp add: with_len_slice)
  moreover have "slice (length pre) (4 + length s) (pre @ with_len s @ post) = with_len s" by (rule slice_at(2)) simp
  ultimately show ?thesis using assms(2) by (simp add: decode_var_def Let_def)
qed

lemma decode_fixed_ok:
  assumes "length bs = n" and "from_bytes J bs t = Ok v"
  shows "decode_fixed J n (pre @ bs @ post) (length pre) t = Ok (v, length pre + n)"
  using assms slice_at(2) [of n bs pre post] by (simp add: decode_fixed_def)

lemma from_to_bytes:
  assumes "storable J v t" and "v \<noteq> VNull"
  shows "from_bytes J (to_bytes J v) t = Ok v"
  using assms
  by (cases v) (auto simp: storable_def take_str_def take_len_with_len slice_def split: data_type.splits)

lemma decode_column_ok:
  assumes "storable J v t" and "v \<noteq> VNull"
  shows "decode_column J (pre @ to_bytes J v @ post) (length pre) t = Ok (v, length pre + length (to_bytes J v))"
proof -
  note inv = from_to_bytes [OF assms]
  show ?thesis
  proof (cases "\<exists>s. to_bytes J v = with_len s \<and> length s < 2 ^ 32 \<and> fixed_size t = None")
    case True
    then obtain s where s: "to_bytes J v = with_len s" "length s < 2 ^ 32" "fixed_size t = None" by blast
    have "decode_column J d off t = decode_var J d off t" for d off using s(3) by (cases t) (simp_all add: decode_column_def)
    then show ?thesis using decode_var_ok [OF s(2) inv [unfolded s(1)]] by (simp add: s(1))
  next
    case False
    then have n: "fixed_size t = Some (length (to_bytes J v))"
      using assms by (cases v) (auto simp: storable_def split: data_type.splits)
    have "decode_column J d off t = decode_fixed J (length (to_bytes J v)) d off t" for d off
      using n by (cases t) (simp_all add: decode_column_def)
    then show ?thesis using decode_fixed_ok [OF refl inv] by simp
  qed
qed

section \<open>Rows\<close>

definition vbytes :: "array_codec \<Rightarrow> val list \<Rightarrow> byte list" where
  "vbytes J vs = concat (map (to_bytes J) vs)"

lemma vbytes_simps [simp]: "vbytes J [] = []" "vbytes J (v # vs) = to_bytes J v @ vbytes J vs" "vbytes J (vs @ ws) = vbytes J vs @ vbytes J ws"
  by (simp_all add: vbytes_def)

lemma encode_values_data: "fst (encode_values J vs i data bm) = data @ vbytes J vs"
  by (induction vs arbitrary: i data bm) auto

lemma encode_values_bits:
  "bit (snd (encode_values J vs i data bm)) k \<longleftrightarrow> bit bm k \<or> (i \<le> k \<and> k < 32 \<and> k < i + length vs \<and> vs ! (k - i) = VNull)"
proof (induction vs arbitrary: i data bm k)
  case (Cons v vs)
  have set_bit: "bit (bm OR push_bit i 1) k \<longleftrightarrow> bit bm k \<or> k = i" if "i < 32" for bm :: u32
    using that by (auto simp: bit_simps)
  have later: "(v # vs) ! (k - i) = vs ! (k - Suc i)" if "i < k" using that by (simp add: nth_Cons' Suc_diff_Suc [symmetric])
  consider "k < i" | "k = i" | "i < k" by linarith
  then show ?case
  proof cases
    case 1
    then show ?thesis using set_bit [of bm] by (auto simp: Cons.IH)
  next
    case 2
    then show ?thesis using set_bit [of bm] by (auto simp: Cons.IH)
  next
    case 3
    then show ?thesis using set_bit [of bm] later by (simp add: Cons.IH)
  qed
qed auto

lemma encode_row_bits:
  "bit (snd (encode_row J r)) k \<longleftrightarrow> k < 32 \<and> k < length (row_values r) \<and> row_values r ! k = VNull"
  by (auto simp: encode_row_def encode_values_bits)

lemma null_bit: "drop_bit i bm AND 1 = 1 \<longleftrightarrow> bit bm i" for bm :: u32
  by (simp add: bit_iff_odd_drop_bit odd_iff_mod_2_eq_one and_one_eq)

text \<open>The columns the bitmap covers are decoded as they were encoded; what follows starts behind them.\<close>

lemma decode_prefix:
  assumes "list_all2 (storable J) vs ts" and "i + length vs \<le> 32"
    and "\<forall>k < length vs. bit bm (i + k) \<longleftrightarrow> vs ! k = VNull"
  shows "decode_columns J (pre @ vbytes J vs @ post) bm (ts @ us) i (length pre)
    = obind (decode_columns J (pre @ vbytes J vs @ post) bm us (i + length vs) (length (pre @ vbytes J vs))) (\<lambda>ws. Ok (vs @ ws))"
  using assms
proof (induction vs ts arbitrary: i pre rule: list_all2_induct)
  case Nil
  show ?case by (cases "decode_columns J (pre @ post) bm us i (length pre)") auto
next
  case (Cons v vs t ts)
  have head: "bit bm i \<longleftrightarrow> v = VNull" using Cons.prems(2) by auto
  have tail: "\<forall>k < length vs. bit bm (Suc i + k) \<longleftrightarrow> vs ! k = VNull" using Cons.prems(2) by force
  have room: "Suc i + length vs \<le> 32" "i < 32" using Cons.prems(1) by simp_all
  note IH = Cons.IH [OF room(1) tail, of "pre @ to_bytes J v"]
  show ?case
  proof (cases "v = VNull")
    case True
    then show ?thesis using head room(2) IH by (simp add: null_bit)
  next
    case False
    then show ?thesis
      using head IH decode_column_ok [OF Cons.hyps(1) False, of pre "vbytes J vs @ post"] by (simp add: null_bit)
  qed
qed

lemma decode_columns_ok:
  assumes "list_all2 (storable J) vs ts" and "length vs \<le> 32" and "\<forall>k < length vs. bit bm k \<longleftrightarrow> vs ! k = VNull"
  shows "decode_columns J (vbytes J vs) bm ts 0 0 = Ok vs"
  using decode_prefix [OF assms(1), of 0 bm "[]" "[]" "[]"] assms(2,3) by simp

text \<open>A row whose values fit the columns of its table.\<close>

definition fits :: "array_codec \<Rightarrow> row \<Rightarrow> table_schema \<Rightarrow> bool" where
  "fits J r schema \<longleftrightarrow> list_all2 (storable J) (row_values r) (map col_type (columns schema))
     \<and> row_schema r = map (\<lambda>c. (col_name c, col_type c)) (columns schema)"

lemma payload_split: "payload_row J (u32_bytes bm @ data) schema = decode_row J data bm schema"
  by (simp add: payload_row_def slice_def)

lemma payload_roundtrip:
  assumes r: "fits J r schema" and few: "length (columns schema) \<le> 32"
  shows "payload_row J (row_payload J r) schema = Ok r"
proof -
  obtain data bm where e: "encode_row J r = (data, bm)" by (cases "encode_row J r") auto
  have data: "data = vbytes J (row_values r)" using arg_cong [OF e, of fst] encode_values_data by (simp add: encode_row_def)
  have len: "length (row_values r) = length (columns schema)" using r by (auto simp: fits_def dest: list_all2_lengthD)
  have bits: "\<forall>k < length (row_values r). bit bm k \<longleftrightarrow> row_values r ! k = VNull"
    using encode_row_bits [of J r] e few len by auto
  have "decode_columns J (vbytes J (row_values r)) bm (map col_type (columns schema)) 0 0 = Ok (row_values r)"
    using decode_columns_ok r few len bits by (simp add: fits_def)
  then show ?thesis using r by (simp add: row_payload_def e payload_split decode_row_def data fits_def)
qed

section \<open>Types of decoded values\<close>

lemma take_str_ok: "take_str bytes = Ok s \<Longrightarrow> utf8_ok s"
  by (auto simp: take_str_def outcome_simps split: if_splits)

lemma from_bytes_typed: "from_bytes J bytes t = Ok v \<Longrightarrow> has_type v t"
  by (cases t) (auto simp: outcome_simps dest: take_str_ok split: if_splits)

lemma no_panic_from_bytes:
  assumes "\<And>t s. de J t s \<noteq> Panic"
  shows "from_bytes J bytes t \<noteq> Panic"
proof -
  have l: "take_len bytes \<noteq> Panic" by (simp add: take_len_def Let_def)
  then have "take_str bytes \<noteq> Panic" by (auto simp: take_str_def outcome_simps)
  then show ?thesis using l assms by (cases t) (auto simp: outcome_simps)
qed

lemma decode_column_cases:
  obtains "decode_column J data off t = decode_var J data off t" | n where "decode_column J data off t = decode_fixed J n data off t"
  by (cases t) (auto simp: decode_column_def)

lemma decode_column_typed:
  assumes "decode_column J data off t = Ok (v, off')"
  shows "v = VNull \<or> has_type v t"
proof (rule decode_column_cases [of J data off t])
  assume "decode_column J data off t = decode_var J data off t"
  then have "decode_var J data off t = Ok (v, off')" using assms by simp
  then show ?thesis by (auto simp: decode_var_def Let_def outcome_simps dest: from_bytes_typed split: if_splits)
next
  fix n assume "decode_column J data off t = decode_fixed J n data off t"
  then have "decode_fixed J n data off t = Ok (v, off')" using assms by simp
  then show ?thesis by (auto simp: decode_fixed_def outcome_simps dest: from_bytes_typed split: if_splits)
qed

lemma decode_column_total:
  assumes "\<And>t s. de J t s \<noteq> Panic"
  shows "decode_column J data off t \<noteq> Panic"
proof -
  have "decode_var J data off t \<noteq> Panic" "decode_fixed J n data off t \<noteq> Panic" for n
    using no_panic_from_bytes [OF assms] by (simp_all add: decode_var_def decode_fixed_def Let_def outcome_simps)
  then show ?thesis by (rule_tac decode_column_cases [of J data off t]) auto
qed

lemma decode_columns_typed:
  "decode_columns J data bm ts i off = Ok vs \<Longrightarrow> list_all2 (\<lambda>v t. v = VNull \<or> has_type v t) vs ts"
  by (induction ts arbitrary: i off vs) (auto simp: outcome_simps dest: decode_column_typed split: if_splits)

lemma decode_columns_total:
  assumes "\<And>t s. de J t s \<noteq> Panic"
  shows "decode_columns J data bm ts i off \<noteq> Panic"
  using decode_column_total [OF assms] by (induction ts arbitrary: i off) (auto simp: outcome_simps)

section \<open>Properties\<close>

text \<open>  A row of a table with at most 32 columns comes back from the bytes stored for it exactly as it was, nulls
  included, when every value has the type of its column.
\<close>

theorem row_roundtrip:
  assumes "fits J r schema" and "length (columns schema) \<le> 32"
  shows "payload_row J (row_payload J r) schema = Ok r"
  using assms by (rule payload_roundtrip)

definition int_column :: "rstring \<Rightarrow> u16 \<Rightarrow> column_def" where
  "int_column name n = \<lparr>col_name = name, col_type = TInt4, not_null = False, has_default = False, default_expr = None,
     col_attnum = n, serial = False, references = None\<rparr>"

definition int_table :: "nat \<Rightarrow> table_schema" where
  "int_table n = \<lparr>ts_oid = 1000, ts_name = [116], namespace_oid = 100,
     columns = map (\<lambda>i. int_column [97] (of_nat (Suc i))) [0..<n], foreign_keys = [], check_constraints = []\<rparr>"

definition no_arrays :: array_codec where
  "no_arrays = \<lparr>ser = (\<lambda>_. []), de = (\<lambda>_ _. Err TypeError)\<rparr>"

theorem row_roundtrip_witness:
  "payload_row no_arrays (row_payload no_arrays \<lparr>row_values = [VInt4 7, VNull], row_schema = [([97], TInt4), ([97], TInt4)]\<rparr>) (int_table 2)
    = Ok \<lparr>row_values = [VInt4 7, VNull], row_schema = [([97], TInt4), ([97], TInt4)]\<rparr>"
  by (rule row_roundtrip) (simp_all add: fits_def int_table_def int_column_def storable_def upt_rec)

text \<open>  \<^bold>\<open>C37.\<close> Whatever bytes are decoded, the result is an error or a row with one value per column, each of them null or
  of the type of its column; decoding never panics.
\<close>

theorem decoded_rows_are_typed:
  assumes "\<And>t s. de J t s \<noteq> Panic"
  shows "case decode_row J data bm schema of
      Ok r \<Rightarrow> list_all2 (\<lambda>v c. v = VNull \<or> has_type v (col_type c)) (row_values r) (columns schema)
        \<and> row_schema r = map (\<lambda>c. (col_name c, col_type c)) (columns schema)
    | Err e \<Rightarrow> True
    | Panic \<Rightarrow> False"
proof (cases "decode_columns J data bm (map col_type (columns schema)) 0 0")
  case (Ok vs)
  then show ?thesis using decode_columns_typed [OF Ok] by (simp add: decode_row_def list_all2_map2)
next
  case Panic
  then show ?thesis using decode_columns_total [OF assms] by blast
qed (simp add: decode_row_def)

theorem decoded_rows_are_typed_witness:
  "case decode_row no_arrays [1, 2, 3, 4, 5] 0 (int_table 1) of
      Ok r \<Rightarrow> list_all2 (\<lambda>v c. v = VNull \<or> has_type v (col_type c)) (row_values r) (columns (int_table 1))
        \<and> row_schema r = map (\<lambda>c. (col_name c, col_type c)) (columns (int_table 1))
    | Err e \<Rightarrow> True
    | Panic \<Rightarrow> False"
  by (rule decoded_rows_are_typed) (simp add: no_arrays_def)

text \<open>  The null bitmap has 32 bits. In a table with 34 integer columns, a row with a null in column 33 and a
  number in column 34 comes back with the number in column 33 and a null in column 34.
\<close>

theorem null_behind_column_32_shifts:
  assumes "length vs = 32" and "\<forall>v \<in> set vs. storable J v TInt4"
    and "r = \<lparr>row_values = vs @ [VNull, VInt4 x], row_schema = map (\<lambda>c. (col_name c, col_type c)) (columns (int_table 34))\<rparr>"
  shows "payload_row J (row_payload J r) (int_table 34) = Ok (r\<lparr>row_values := vs @ [VInt4 x, VNull]\<rparr>)"
proof -
  obtain data bm where e: "encode_row J r = (data, bm)" by (cases "encode_row J r") auto
  have data: "data = vbytes J vs @ u32_bytes x"
    using arg_cong [OF e, of fst] encode_values_data by (simp add: encode_row_def assms(3))
  have bits: "\<forall>k < length vs. bit bm (0 + k) \<longleftrightarrow> vs ! k = VNull"
    using encode_row_bits [of J r] e assms(1) by (auto simp: assms(3) nth_append)
  have ts: "map col_type (columns (int_table 34)) = replicate 32 TInt4 @ [TInt4, TInt4]"
    by (simp add: int_table_def int_column_def comp_def map_replicate_const replicate_add [of 32 2, simplified] numeral_2_eq_2)
  have "decode_columns J (vbytes J vs @ u32_bytes x) bm (replicate 32 TInt4 @ [TInt4, TInt4]) 0 0 = Ok (vs @ [VInt4 x, VNull])"
  proof -
    have "list_all2 (storable J) vs (replicate 32 TInt4)" using assms(1,2) by (simp add: list_all2_conv_all_nth)
    from decode_prefix [OF this, of 0 bm "[]" "u32_bytes x" "[TInt4, TInt4]"] assms(1) bits
    show ?thesis by (simp add: decode_column_def decode_fixed_def slice_def)
  qed
  then have "payload_row J (row_payload J r) (int_table 34) = Ok \<lparr>row_values = vs @ [VInt4 x, VNull],
      row_schema = map (\<lambda>c. (col_name c, col_type c)) (columns (int_table 34))\<rparr>"
    by (simp add: row_payload_def e payload_split decode_row_def ts data)
  then show ?thesis by (simp add: assms(3))
qed


theorem null_behind_column_32_shifts_witness:
  "payload_row no_arrays (row_payload no_arrays \<lparr>row_values = replicate 32 (VInt4 1) @ [VNull, VInt4 2],
      row_schema = map (\<lambda>c. (col_name c, col_type c)) (columns (int_table 34))\<rparr>) (int_table 34)
    = Ok \<lparr>row_values = replicate 32 (VInt4 1) @ [VInt4 2, VNull],
      row_schema = map (\<lambda>c. (col_name c, col_type c)) (columns (int_table 34))\<rparr>"
  using null_behind_column_32_shifts [of "replicate 32 (VInt4 1)" no_arrays, OF _ _ refl] by (simp add: storable_def)

end
