(* ===== verification/BTree_Node.thy ===== *)
theory BTree_Node
  imports Wal_Log "HOL-Library.List_Lexorder"
begin

text \<open>
  Nodes of the index and its metadata page: \<^verbatim>\<open>btree/src/error.rs\<close>, \<^verbatim>\<open>btree/src/node.rs\<close> and
  \<^verbatim>\<open>btree/src/meta.rs\<close>. Keys are byte strings in lexicographic order, as \<^verbatim>\<open>[u8]\<close> compares them.
  Sizes are computed in \<^verbatim>\<open>usize\<close>; the one subtraction that can go below zero is written with 64-bit
  wrap-around.
\<close>

section \<open>Definitions\<close>

type_synonym key = "byte list"

datatype btree_error =
    BtIo
  | BtStorage storage_error
  | BtWal wal_error
  | InvalidPage u32
  | KeyNotFound
  | DuplicateKey
  | EmptyTree
  | CorruptMeta

abbreviation (input) NODE_PAGE :: nat where "NODE_PAGE \<equiv> 8192"
abbreviation (input) NODE_HEADER_SIZE :: nat where "NODE_HEADER_SIZE \<equiv> 11"
abbreviation (input) FULL_THRESHOLD :: u64 where "FULL_THRESHOLD \<equiv> 300"

datatype node_type = Internal | Leaf

record internal_entry =
  ie_key :: key
  child_page :: u32

record leaf_entry =
  le_key :: key
  le_tid :: tid

record btree_node =
  node_type :: node_type
  right_sibling :: u32
  left_sibling :: u32
  internal_entries :: "internal_entry list"
  leaf_entries :: "leaf_entry list"

definition new_leaf :: btree_node where
  "new_leaf = \<lparr>node_type = Leaf, right_sibling = 0, left_sibling = 0, internal_entries = [], leaf_entries = []\<rparr>"

definition new_internal :: btree_node where
  "new_internal = \<lparr>node_type = Internal, right_sibling = 0, left_sibling = 0, internal_entries = [], leaf_entries = []\<rparr>"

definition entry_size :: "nat \<Rightarrow> bool \<Rightarrow> nat" where
  "entry_size key_len is_leaf = (if is_leaf then 2 + key_len + 4 + 2 else 2 + key_len + 4)"

definition encoded_size :: "btree_node \<Rightarrow> nat" where
  "encoded_size n =
     (case node_type n of
        Leaf \<Rightarrow> foldl (\<lambda>size e. size + entry_size (length (le_key e)) True) NODE_HEADER_SIZE (leaf_entries n)
      | Internal \<Rightarrow> foldl (\<lambda>size e. size + entry_size (length (ie_key e)) False) NODE_HEADER_SIZE (internal_entries n))"

definition is_full :: "btree_node \<Rightarrow> bool" where
  "is_full n \<longleftrightarrow> (of_nat NODE_PAGE - of_nat (encoded_size n) :: u64) < FULL_THRESHOLD"

text \<open>Successive \<^verbatim>\<open>copy_from_slice\<close> at a moving position.\<close>

primrec emit :: "byte list list \<Rightarrow> nat \<Rightarrow> byte list \<Rightarrow> (btree_error, byte list) outcome" where
  "emit [] pos buf = Ok buf"
| "emit (c # cs) pos buf = obind (put_slice buf pos c) (emit cs (pos + length c))"

definition leaf_chunks :: "leaf_entry \<Rightarrow> byte list list" where
  "leaf_chunks e = [u16_bytes (of_nat (length (le_key e))), le_key e, u32_bytes (page_no (le_tid e)), u16_bytes (slot (le_tid e))]"

definition internal_chunks :: "internal_entry \<Rightarrow> byte list list" where
  "internal_chunks e = [u16_bytes (of_nat (length (ie_key e))), ie_key e, u32_bytes (child_page e)]"

definition node_encode :: "btree_node \<Rightarrow> (btree_error, byte list) outcome" where
  "node_encode n =
     (if encoded_size n > NODE_PAGE then Err (InvalidPage 0)
      else emit
        ([[case node_type n of Internal \<Rightarrow> 0 | Leaf \<Rightarrow> 1],
          u16_bytes (case node_type n of Leaf \<Rightarrow> of_nat (length (leaf_entries n)) | Internal \<Rightarrow> of_nat (length (internal_entries n))),
          u32_bytes (right_sibling n), u32_bytes (left_sibling n)]
         @ (case node_type n of
              Leaf \<Rightarrow> concat (map leaf_chunks (leaf_entries n))
            | Internal \<Rightarrow> concat (map internal_chunks (internal_entries n))))
        0 (replicate NODE_PAGE 0))"

primrec decode_leaf_entries :: "nat \<Rightarrow> byte list \<Rightarrow> nat \<Rightarrow> (btree_error, leaf_entry list) outcome" where
  "decode_leaf_entries 0 bytes pos = Ok []"
| "decode_leaf_entries (Suc n) bytes pos =
     (if pos + 2 > length bytes then Err (InvalidPage 0)
      else let key_len = unat (from_le_bytes (slice pos 2 bytes) :: u16); pos = pos + 2 in
        if pos + key_len + 6 > length bytes then Err (InvalidPage 0)
        else let k = slice pos key_len bytes; pos = pos + key_len;
                 t = TID_new (from_le_bytes (slice pos 4 bytes)) (from_le_bytes (slice (pos + 4) 2 bytes)) in
          obind (decode_leaf_entries n bytes (pos + 6)) (\<lambda>es. Ok (\<lparr>le_key = k, le_tid = t\<rparr> # es)))"

primrec decode_internal_entries :: "nat \<Rightarrow> byte list \<Rightarrow> nat \<Rightarrow> (btree_error, internal_entry list) outcome" where
  "decode_internal_entries 0 bytes pos = Ok []"
| "decode_internal_entries (Suc n) bytes pos =
     (if pos + 2 > length bytes then Err (InvalidPage 0)
      else let key_len = unat (from_le_bytes (slice pos 2 bytes) :: u16); pos = pos + 2 in
        if pos + key_len + 4 > length bytes then Err (InvalidPage 0)
        else let k = slice pos key_len bytes; pos = pos + key_len in
          obind (decode_internal_entries n bytes (pos + 4)) (\<lambda>es.
          Ok (\<lparr>ie_key = k, child_page = from_le_bytes (slice pos 4 bytes)\<rparr> # es)))"

definition node_decode :: "byte list \<Rightarrow> (btree_error, btree_node) outcome" where
  "node_decode bytes =
     (if length bytes < NODE_HEADER_SIZE then Err (InvalidPage 0)
      else
        let type_byte = bytes ! 0;
            num_entries = unat (from_le_bytes (slice 1 2 bytes) :: u16);
            rs = from_le_bytes (slice 3 4 bytes);
            ls = from_le_bytes (slice 7 4 bytes) in
        if type_byte = 0
        then obind (decode_internal_entries num_entries bytes 11) (\<lambda>es.
             Ok \<lparr>node_type = Internal, right_sibling = rs, left_sibling = ls, internal_entries = es, leaf_entries = []\<rparr>)
        else if type_byte = 1
        then obind (decode_leaf_entries num_entries bytes 11) (\<lambda>es.
             Ok \<lparr>node_type = Leaf, right_sibling = rs, left_sibling = ls, internal_entries = [], leaf_entries = es\<rparr>)
        else Err (InvalidPage 0))"

text \<open>The loop of \<^verbatim>\<open>find_key\<close>; indices stay below the length.\<close>

function find_key_loop :: "leaf_entry list \<Rightarrow> key \<Rightarrow> nat \<Rightarrow> nat \<Rightarrow> nat option" where
  "find_key_loop es key lo hi =
     (if lo < hi
      then let mid = lo + (hi - lo) div 2 in
        if le_key (es ! mid) = key then Some mid
        else if le_key (es ! mid) < key then find_key_loop es key (mid + 1) hi
        else find_key_loop es key lo mid
      else None)"
  by pat_completeness auto
termination
  by (relation "measure (\<lambda>(_, _, lo, hi). hi - lo)") auto

declare find_key_loop.simps [simp del]

definition find_key :: "btree_node \<Rightarrow> key \<Rightarrow> nat option" where
  "find_key n key = find_key_loop (leaf_entries n) key 0 (length (leaf_entries n))"

text \<open>\<^verbatim>\<open>partition_point\<close> of the standard library, on slices it is specified for; \<^verbatim>\<open>Vec::insert\<close>.\<close>

definition partition_point :: "('a \<Rightarrow> bool) \<Rightarrow> 'a list \<Rightarrow> nat" where
  "partition_point P xs = length (takeWhile P xs)"

definition vec_insert :: "nat \<Rightarrow> 'a \<Rightarrow> 'a list \<Rightarrow> 'a list" where
  "vec_insert i x xs = take i xs @ x # drop i xs"

definition insert_leaf_entry :: "leaf_entry \<Rightarrow> btree_node \<Rightarrow> btree_node" where
  "insert_leaf_entry e n =
     n\<lparr>leaf_entries := vec_insert (partition_point (\<lambda>x. le_key x < le_key e) (leaf_entries n)) e (leaf_entries n)\<rparr>"

definition insert_internal_entry :: "internal_entry \<Rightarrow> btree_node \<Rightarrow> btree_node" where
  "insert_internal_entry e n =
     (let es = internal_entries n;
          pos = (if ie_key e = [] then 0
                 else let start = (case es of [] \<Rightarrow> 0 | x # _ \<Rightarrow> if ie_key x = [] then 1 else 0)
                      in start + partition_point (\<lambda>x. ie_key x < ie_key e) (drop start es)) in
      n\<lparr>internal_entries := vec_insert pos e es\<rparr>)"

text \<open>Both splits return the node that stays, the new right node and the key to promote.\<close>

definition split_leaf :: "btree_node \<Rightarrow> (btree_error, btree_node \<times> btree_node \<times> key) outcome" where
  "split_leaf n =
     (let mid = length (leaf_entries n) div 2;
          right_entries = drop mid (leaf_entries n) in
      case right_entries of
        [] \<Rightarrow> Panic
      | e # _ \<Rightarrow> Ok (n\<lparr>leaf_entries := take mid (leaf_entries n)\<rparr>,
                   \<lparr>node_type = Leaf, right_sibling = right_sibling n, left_sibling = 0,
                    internal_entries = [], leaf_entries = right_entries\<rparr>, le_key e))"

definition split_internal :: "btree_node \<Rightarrow> (btree_error, btree_node \<times> btree_node \<times> key \<times> u32) outcome" where
  "split_internal n =
     (let mid = length (internal_entries n) div 2 in
      case drop mid (internal_entries n) of
        [] \<Rightarrow> Panic
      | promoted # rest \<Rightarrow>
          Ok (n\<lparr>internal_entries := take mid (internal_entries n)\<rparr>,
              \<lparr>node_type = Internal, right_sibling = 0, left_sibling = 0,
               internal_entries = \<lparr>ie_key = [], child_page = child_page promoted\<rparr> # rest, leaf_entries = []\<rparr>,
              ie_key promoted, child_page promoted))"

section \<open>Metadata\<close>

abbreviation (input) META_MAGIC :: u32 where "META_MAGIC \<equiv> 0xBEE71CEE"
abbreviation (input) META_PAGE_NO :: u32 where "META_PAGE_NO \<equiv> 0"

record btree_meta =
  root_page :: u32
  height :: u32
  num_entries :: u64
  next_page :: u32

definition meta_encode :: "btree_meta \<Rightarrow> byte list" where
  "meta_encode m = patch 20 (u32_bytes (next_page m)) (patch 12 (u64_bytes (num_entries m))
     (patch 8 (u32_bytes (height m)) (patch 4 (u32_bytes (root_page m)) (patch 0 (u32_bytes META_MAGIC) (replicate 32 0)))))"

definition meta_decode :: "byte list \<Rightarrow> (btree_error, btree_meta) outcome" where
  "meta_decode bytes =
     (if length bytes < 32 then Err CorruptMeta
      else if (from_le_bytes (slice 0 4 bytes) :: u32) \<noteq> META_MAGIC then Err CorruptMeta
      else Ok \<lparr>root_page = from_le_bytes (slice 4 4 bytes), height = from_le_bytes (slice 8 4 bytes),
               num_entries = from_le_bytes (slice 12 8 bytes), next_page = from_le_bytes (slice 20 4 bytes)\<rparr>)"

section \<open>Encoding\<close>

lemma emit_ok:
  "pos + length (concat cs) \<le> length buf \<Longrightarrow> emit cs pos buf = Ok (patch pos (concat cs) buf)"
proof (induction cs arbitrary: pos buf)
  case Nil
  then show ?case by (simp add: patch_def)
next
  case (Cons c cs)
  have fits: "pos + length c \<le> length buf" using Cons.prems by simp
  then have "emit (c # cs) pos buf = Ok (patch (pos + length c) (concat cs) (patch pos c buf))"
    using Cons.IH [of "pos + length c" "patch pos c buf"] Cons.prems by simp
  also have "patch (pos + length c) (concat cs) (patch pos c buf) = patch pos (concat (c # cs)) buf"
    using fits by (simp add: patch_def ac_simps)
  finally show ?case .
qed

definition node_wf :: "btree_node \<Rightarrow> bool" where
  "node_wf n \<longleftrightarrow> (case node_type n of Leaf \<Rightarrow> internal_entries n = [] | Internal \<Rightarrow> leaf_entries n = [])"

definition leaf_bytes :: "leaf_entry list \<Rightarrow> byte list" where
  "leaf_bytes es = concat (concat (map leaf_chunks es))"

definition internal_bytes :: "internal_entry list \<Rightarrow> byte list" where
  "internal_bytes es = concat (concat (map internal_chunks es))"

lemma leaf_bytes_simps [simp]: "leaf_bytes [] = []"
  "leaf_bytes (e # es) = u16_bytes (of_nat (length (le_key e))) @ le_key e @ u32_bytes (page_no (le_tid e))
     @ u16_bytes (slot (le_tid e)) @ leaf_bytes es"
  by (simp_all add: leaf_bytes_def leaf_chunks_def)

lemma internal_bytes_simps [simp]: "internal_bytes [] = []"
  "internal_bytes (e # es) = u16_bytes (of_nat (length (ie_key e))) @ ie_key e @ u32_bytes (child_page e) @ internal_bytes es"
  by (simp_all add: internal_bytes_def internal_chunks_def)

lemma foldl_sum: "foldl (\<lambda>s e. s + f e) a xs = a + sum_list (map f xs)" for a :: nat
  by (induction xs arbitrary: a) simp_all

lemma encoded_size_eq:
  "encoded_size n = (case node_type n of
      Leaf \<Rightarrow> 11 + sum_list (map (\<lambda>e. 8 + length (le_key e)) (leaf_entries n))
    | Internal \<Rightarrow> 11 + sum_list (map (\<lambda>e. 6 + length (ie_key e)) (internal_entries n)))"
  by (simp add: encoded_size_def entry_size_def foldl_sum add.commute split: node_type.split)

lemma length_leaf_bytes: "length (leaf_bytes es) = sum_list (map (\<lambda>e. 8 + length (le_key e)) es)"
  by (induction es) simp_all

lemma length_internal_bytes: "length (internal_bytes es) = sum_list (map (\<lambda>e. 6 + length (ie_key e)) es)"
  by (induction es) simp_all

lemma encode_eq:
  assumes "encoded_size n \<le> 8192"
  defines "hdr \<equiv> [case node_type n of Internal \<Rightarrow> 0 | Leaf \<Rightarrow> 1]
     @ u16_bytes (case node_type n of Leaf \<Rightarrow> of_nat (length (leaf_entries n)) | Internal \<Rightarrow> of_nat (length (internal_entries n)))
     @ u32_bytes (right_sibling n) @ u32_bytes (left_sibling n)"
    and "ents \<equiv> (case node_type n of Leaf \<Rightarrow> leaf_bytes (leaf_entries n) | Internal \<Rightarrow> internal_bytes (internal_entries n))"
  shows "node_encode n = Ok (hdr @ ents @ replicate (8192 - encoded_size n) 0)"
    and "length (hdr @ ents) = encoded_size n" and "length hdr = 11"
proof -
  show h: "length hdr = 11" by (simp add: hdr_def)
  show len: "length (hdr @ ents) = encoded_size n"
    using h by (simp add: ents_def encoded_size_eq length_leaf_bytes length_internal_bytes split: node_type.split)
  let ?cs = "[[case node_type n of Internal \<Rightarrow> 0 | Leaf \<Rightarrow> 1],
          u16_bytes (case node_type n of Leaf \<Rightarrow> of_nat (length (leaf_entries n)) | Internal \<Rightarrow> of_nat (length (internal_entries n))),
          u32_bytes (right_sibling n), u32_bytes (left_sibling n)]
         @ (case node_type n of
              Leaf \<Rightarrow> concat (map leaf_chunks (leaf_entries n))
            | Internal \<Rightarrow> concat (map internal_chunks (internal_entries n)))"
  have cs: "concat ?cs = hdr @ ents"
    by (simp add: hdr_def ents_def leaf_bytes_def internal_bytes_def split: node_type.split)
  have "emit ?cs 0 (replicate 8192 0) = Ok (patch 0 (hdr @ ents) (replicate 8192 0))"
    unfolding cs [symmetric] by (rule emit_ok) (use cs len assms(1) in simp)
  then show "node_encode n = Ok (hdr @ ents @ replicate (8192 - encoded_size n) 0)"
    using assms(1) len by (simp add: node_encode_def patch_def)
qed

lemma length_encode: "node_encode n = Ok b \<Longrightarrow> length b = 8192"
  using encode_eq(1,2) [of n] by (cases "encoded_size n \<le> 8192") (auto simp: node_encode_def)

lemma slice_here: "slice (length xs) n (xs @ ys) = take n ys"
  by (simp add: slice_def)

lemma decode_leaf_ok:
  assumes "\<forall>e \<in> set es. length (le_key e) < 65536"
  shows "decode_leaf_entries (length es) (pre @ leaf_bytes es @ suf) (length pre) = Ok es"
  using assms
proof (induction es arbitrary: pre)
  case (Cons e es)
  let ?l = "u16_bytes (of_nat (length (le_key e)))" and ?p = "u32_bytes (page_no (le_tid e))" and ?s = "u16_bytes (slot (le_tid e))"
  let ?b = "pre @ leaf_bytes (e # es) @ suf"
  have k: "unat (of_nat (length (le_key e)) :: u16) = length (le_key e)" using Cons.prems by simp
  have b: "?b = pre @ ?l @ le_key e @ ?p @ ?s @ leaf_bytes es @ suf" by simp
  have sl: "slice (length pre) 2 ?b = ?l" "slice (length pre + 2) (length (le_key e)) ?b = le_key e"
    "slice (length pre + 2 + length (le_key e)) 4 ?b = ?p" "slice (length pre + 2 + length (le_key e) + 4) 2 ?b = ?s"
    by (simp_all add: slice_def)
  have "decode_leaf_entries (length es) ?b (length pre + 2 + length (le_key e) + 6) = Ok es"
    using Cons.IH [of "pre @ ?l @ le_key e @ ?p @ ?s"] Cons.prems by (simp add: ac_simps)
  then show ?case
    using sl k by (simp add: Let_def TID_new_def del: leaf_bytes_simps) (simp add: b)
qed simp

lemma decode_internal_ok:
  assumes "\<forall>e \<in> set es. length (ie_key e) < 65536"
  shows "decode_internal_entries (length es) (pre @ internal_bytes es @ suf) (length pre) = Ok es"
  using assms
proof (induction es arbitrary: pre)
  case (Cons e es)
  let ?l = "u16_bytes (of_nat (length (ie_key e)))" and ?p = "u32_bytes (child_page e)"
  let ?b = "pre @ internal_bytes (e # es) @ suf"
  have k: "unat (of_nat (length (ie_key e)) :: u16) = length (ie_key e)" using Cons.prems by simp
  have b: "?b = pre @ ?l @ ie_key e @ ?p @ internal_bytes es @ suf" by simp
  have sl: "slice (length pre) 2 ?b = ?l" "slice (length pre + 2) (length (ie_key e)) ?b = ie_key e"
    "slice (length pre + 2 + length (ie_key e)) 4 ?b = ?p"
    by (simp_all add: slice_def)
  have "decode_internal_entries (length es) ?b (length pre + 2 + length (ie_key e) + 4) = Ok es"
    using Cons.IH [of "pre @ ?l @ ie_key e @ ?p"] Cons.prems by (simp add: ac_simps)
  then show ?case
    using sl k by (simp add: Let_def del: internal_bytes_simps) (simp add: b)
qed simp

lemma entry_bounds:
  assumes "encoded_size n \<le> 8192"
  shows "node_type n = Leaf \<Longrightarrow> length (leaf_entries n) < 65536 \<and> (\<forall>e \<in> set (leaf_entries n). length (le_key e) < 65536)"
    and "node_type n = Internal \<Longrightarrow> length (internal_entries n) < 65536 \<and> (\<forall>e \<in> set (internal_entries n). length (ie_key e) < 65536)"
proof -
  have count: "length xs \<le> sum_list (map f xs)" if pos: "\<And>x. 0 < f x" for f :: "'a \<Rightarrow> nat" and xs
  proof (induction xs)
    case (Cons a xs)
    then show ?case using pos [of a] by simp
  qed simp
  have mem: "f x \<le> sum_list (map f xs)" if "x \<in> set xs" for f :: "'a \<Rightarrow> nat" and x xs
    using that by (induction xs) (auto intro: trans_le_add2)
  show "length (leaf_entries n) < 65536 \<and> (\<forall>e \<in> set (leaf_entries n). length (le_key e) < 65536)" if "node_type n = Leaf"
    using assms that count [of "\<lambda>e. 8 + length (le_key e)" "leaf_entries n"] mem [of _ "leaf_entries n" "\<lambda>e. 8 + length (le_key e)"]
    by (fastforce simp: encoded_size_eq)
  show "length (internal_entries n) < 65536 \<and> (\<forall>e \<in> set (internal_entries n). length (ie_key e) < 65536)" if "node_type n = Internal"
    using assms that count [of "\<lambda>e. 6 + length (ie_key e)" "internal_entries n"] mem [of _ "internal_entries n" "\<lambda>e. 6 + length (ie_key e)"]
    by (fastforce simp: encoded_size_eq)
qed

lemma decode_encode:
  assumes wf: "node_wf n" and enc: "node_encode n = Ok b"
  shows "node_decode b = Ok n"
proof -
  have size: "encoded_size n \<le> 8192" using enc by (auto simp: node_encode_def split: if_splits)
  let ?t = "(case node_type n of Internal \<Rightarrow> 0 | Leaf \<Rightarrow> 1) :: byte"
  let ?c = "(case node_type n of Leaf \<Rightarrow> of_nat (length (leaf_entries n)) | Internal \<Rightarrow> of_nat (length (internal_entries n))) :: u16"
  let ?hdr = "[?t] @ u16_bytes ?c @ u32_bytes (right_sibling n) @ u32_bytes (left_sibling n)"
  let ?ents = "case node_type n of Leaf \<Rightarrow> leaf_bytes (leaf_entries n) | Internal \<Rightarrow> internal_bytes (internal_entries n)"
  let ?z = "replicate (8192 - encoded_size n) 0"
  have b: "b = ?hdr @ ?ents @ ?z" and h: "length ?hdr = 11" using encode_eq(1,3) [OF size] enc by auto
  have "b ! 0 = ?t" "slice 1 2 b = u16_bytes ?c" "slice 3 4 b = u32_bytes (right_sibling n)"
    "slice 7 4 b = u32_bytes (left_sibling n)" "\<not> length b < 11"
    unfolding b by (simp_all add: slice_def)
  moreover have "decode_leaf_entries (length (leaf_entries n)) b 11 = Ok (leaf_entries n)" if "node_type n = Leaf"
    using decode_leaf_ok [of "leaf_entries n" ?hdr ?z] entry_bounds(1) [OF size that] that h unfolding b by simp
  moreover have "decode_internal_entries (length (internal_entries n)) b 11 = Ok (internal_entries n)" if "node_type n = Internal"
    using decode_internal_ok [of "internal_entries n" ?hdr ?z] entry_bounds(2) [OF size that] that h unfolding b by simp
  ultimately show ?thesis
    using wf entry_bounds [OF size] by (cases "node_type n") (simp_all add: node_decode_def node_wf_def Let_def)
qed

lemma meta_roundtrip: "meta_decode (meta_encode m @ rest) = Ok m" and length_meta_encode [simp]: "length (meta_encode m) = 32"
  by (simp_all add: meta_decode_def meta_encode_def slice_append1 slice_patch)

section \<open>Search and insertion in a node\<close>

lemma find_key_loop_law:
  assumes "sorted_wrt (<) (map le_key es)" and "hi \<le> length es"
  shows "(case find_key_loop es key lo hi of
      Some i \<Rightarrow> lo \<le> i \<and> i < hi \<and> le_key (es ! i) = key
    | None \<Rightarrow> \<forall>i. lo \<le> i \<and> i < hi \<longrightarrow> le_key (es ! i) \<noteq> key)"
  using assms
proof (induction es key lo hi rule: find_key_loop.induct [case_names step])
  case (step es key lo hi)
  let ?mid = "lo + (hi - lo) div 2"
  have mono: "le_key (es ! i) < le_key (es ! j)" if "i < j" "j < length es" for i j
    using step.prems(1) that by (simp add: sorted_wrt_iff_nth_less)
  show ?case
  proof (cases "lo < hi")
    case True
    then have mid: "lo \<le> ?mid" "?mid < hi" "?mid < length es" using step.prems(2) by auto
    consider "le_key (es ! ?mid) = key" | "le_key (es ! ?mid) < key" | "key < le_key (es ! ?mid)" by fastforce
    then show ?thesis
    proof cases
      case 1
      then show ?thesis using True mid by (simp add: find_key_loop.simps [of es key lo hi] Let_def)
    next
      case 2
      have below: "le_key (es ! i) \<noteq> key" if "i \<le> ?mid" for i
        using mono [of i ?mid] that mid 2 by (cases "i = ?mid") auto
      have eq: "find_key_loop es key lo hi = find_key_loop es key (?mid + 1) hi"
        using True 2 less_imp_neq [OF 2] by (simp only: find_key_loop.simps [of es key lo hi] Let_def if_True if_False)
      have IH: "case find_key_loop es key (?mid + 1) hi of
          Some i \<Rightarrow> ?mid + 1 \<le> i \<and> i < hi \<and> le_key (es ! i) = key
        | None \<Rightarrow> \<forall>i. ?mid + 1 \<le> i \<and> i < hi \<longrightarrow> le_key (es ! i) \<noteq> key"
        using step.IH(1) [OF True refl] 2 step.prems by auto
      show ?thesis
      proof (cases "find_key_loop es key (?mid + 1) hi")
        case None
        have "le_key (es ! i) \<noteq> key" if "lo \<le> i" "i < hi" for i
          using IH None below [of i] that by (cases "i \<le> ?mid") auto
        then show ?thesis using eq None by simp
      next
        case (Some i)
        then show ?thesis using IH eq mid by simp
      qed
    next
      case 3
      have above: "le_key (es ! i) \<noteq> key" if "?mid \<le> i" "i < hi" for i
        using mono [of ?mid i] that step.prems(2) 3 by (cases "i = ?mid") auto
      have eq: "find_key_loop es key lo hi = find_key_loop es key lo ?mid"
        using True less_imp_neq [OF 3, symmetric] leD [OF less_imp_le [OF 3]]
        by (simp only: find_key_loop.simps [of es key lo hi] Let_def if_True if_False)
      have IH: "case find_key_loop es key lo ?mid of
          Some i \<Rightarrow> lo \<le> i \<and> i < ?mid \<and> le_key (es ! i) = key
        | None \<Rightarrow> \<forall>i. lo \<le> i \<and> i < ?mid \<longrightarrow> le_key (es ! i) \<noteq> key"
        using step.IH(2) [OF True refl] 3 step.prems mid by auto
      show ?thesis
      proof (cases "find_key_loop es key lo ?mid")
        case None
        have "le_key (es ! i) \<noteq> key" if "lo \<le> i" "i < hi" for i
          using IH None above [of i] that by (cases "?mid \<le> i") auto
        then show ?thesis using eq None by simp
      next
        case (Some i)
        then show ?thesis using IH eq mid by simp
      qed
    qed
  next
    case False
    then show ?thesis by (auto simp: find_key_loop.simps [of es key lo hi])
  qed
qed

lemma find_key_None:
  assumes "sorted_wrt (<) (map le_key (leaf_entries n))"
  shows "find_key n key = None \<longleftrightarrow> key \<notin> le_key ` set (leaf_entries n)"
  using find_key_loop_law [OF assms order_refl, where key = key and lo = 0]
  by (auto simp: find_key_def in_set_conv_nth image_iff split: option.splits) (metis nth_mem)

lemma find_key_Some:
  assumes "sorted_wrt (<) (map le_key (leaf_entries n))" and "find_key n key = Some i"
  shows "i < length (leaf_entries n) \<and> le_key (leaf_entries n ! i) = key"
  using find_key_loop_law [OF assms(1) order_refl, where key = key and lo = 0] assms(2) by (simp add: find_key_def)

lemma vec_insert_partition:
  "vec_insert (partition_point P xs) x xs = takeWhile P xs @ x # dropWhile P xs"
  by (simp add: vec_insert_def partition_point_def takeWhile_eq_take [symmetric] dropWhile_eq_drop [symmetric])

lemma takeWhile_split:
  assumes "\<forall>x \<in> set xs. P x" and "ys = [] \<or> \<not> P (hd ys)"
  shows "takeWhile P (xs @ ys) = xs" and "dropWhile P (xs @ ys) = ys"
  using assms by (cases ys; simp add: takeWhile_append dropWhile_append)+

lemma is_full_iff:
  assumes "encoded_size n \<le> 8192"
  shows "is_full n \<longleftrightarrow> 7892 < encoded_size n"
proof -
  have "(of_nat 8192 - of_nat (encoded_size n) :: u64) = of_nat (8192 - encoded_size n)"
    using assms by (simp only: of_nat_diff)
  moreover have "unat (of_nat (8192 - encoded_size n) :: u64) = 8192 - encoded_size n" by simp
  ultimately have "is_full n \<longleftrightarrow> 8192 - encoded_size n < 300" by (simp add: is_full_def word_less_nat_alt)
  then show ?thesis using assms by auto
qed

end
