(* ===== verification/BTree.thy ===== *)
theory BTree
  imports BTree_Node
begin

text \<open>
  The index file and the tree over it: \<^verbatim>\<open>btree/src/file.rs\<close> and \<^verbatim>\<open>btree/src/tree.rs\<close>. The file is its
  bytes; every node write is followed by a page image in the log, as in the source. The loops that follow
  child and sibling pointers need not end on an arbitrary file: \<open>None\<close> stands for that.
\<close>

section \<open>The file\<close>

text \<open>\<^verbatim>\<open>read_at\<close> into a zeroed buffer: behind the end of the file the zeros remain.\<close>

definition btf_read_page :: "disk_file \<Rightarrow> u32 \<Rightarrow> page" where
  "btf_read_page f pn =
     (let got = take NODE_PAGE (drop (unat pn * NODE_PAGE) f) in got @ replicate (NODE_PAGE - length got) 0)"

definition btf_write_page :: "u32 \<Rightarrow> page \<Rightarrow> disk_file \<Rightarrow> disk_file" where
  "btf_write_page pn p f = file_write_at f (unat pn * NODE_PAGE) p"

definition btf_num_pages :: "disk_file \<Rightarrow> u32" where
  "btf_num_pages f = of_nat (length f div NODE_PAGE)"

definition btf_allocate_page :: "disk_file \<Rightarrow> u32 \<times> disk_file" where
  "btf_allocate_page f = (btf_num_pages f, f @ replicate NODE_PAGE 0)"

partial_function (option) btf_grow :: "u32 \<Rightarrow> disk_file \<Rightarrow> disk_file option" where
  "btf_grow pn f = (if btf_num_pages f \<le> pn then btf_grow pn (snd (btf_allocate_page f)) else Some f)"

section \<open>The tree\<close>

record btree =
  bt_file :: disk_file
  bt_wal :: wal_writer
  index_id :: u32

definition zero_page :: "byte list \<Rightarrow> page" where
  "zero_page b = patch 0 b (replicate NODE_PAGE 0)"

definition BTree_open :: "disk_file \<Rightarrow> wal_writer \<Rightarrow> u32 \<Rightarrow> (btree_error, btree) outcome" where
  "BTree_open f w iid =
     (if btf_num_pages f = 0
      then let meta = \<lparr>root_page = 1, height = 1, num_entries = 0, next_page = 2\<rparr>;
               f1 = btf_write_page META_PAGE_NO (zero_page (meta_encode meta)) f in
        obind (node_encode new_leaf) (\<lambda>root.
        Ok \<lparr>bt_file = btf_write_page 1 root f1, bt_wal = w, index_id = iid\<rparr>)
      else Ok \<lparr>bt_file = f, bt_wal = w, index_id = iid\<rparr>)"

definition wal_page_no :: "btree \<Rightarrow> u32 \<Rightarrow> u32" where
  "wal_page_no s pn = index_id s * 100000 + pn"

definition read_meta :: "disk_file \<Rightarrow> (btree_error, btree_meta) outcome" where
  "read_meta f = meta_decode (btf_read_page f META_PAGE_NO)"

definition write_meta :: "btree_meta \<Rightarrow> (btree, btree_error, unit) sop" where
  "write_meta m = smod (\<lambda>s. s\<lparr>bt_file := btf_write_page META_PAGE_NO (zero_page (meta_encode m)) (bt_file s)\<rparr>)"

definition read_node :: "disk_file \<Rightarrow> u32 \<Rightarrow> (btree_error, btree_node) outcome" where
  "read_node f pn = node_decode (btf_read_page f pn)"

definition write_node :: "u32 \<Rightarrow> btree_node \<Rightarrow> u32 \<Rightarrow> (btree, btree_error, unit) sop" where
  "write_node pn n x =
     sbind (slift (\<lambda>_. node_encode n)) (\<lambda>page.
     sbind (smod (\<lambda>s. s\<lparr>bt_file := btf_write_page pn page (bt_file s)\<rparr>)) (\<lambda>_ s.
     sbind (smap_err BtWal (szoom bt_wal (\<lambda>w s. s\<lparr>bt_wal := w\<rparr>) (wal_append x PageImage (wal_page_no s pn) page))) (\<lambda>_.
     sret ()) s))"

definition find_child :: "btree_node \<Rightarrow> key \<Rightarrow> (btree_error, u32) outcome" where
  "find_child n key =
     (let entries = internal_entries n in
      if entries = [] then Panic
      else let pos = partition_point (\<lambda>e. ie_key e \<le> key) entries in
        Ok (child_page (entries ! min (pos - 1) (length entries - 1))))"

text \<open>The descent shared by \<^verbatim>\<open>find_leaf_path\<close>, \<^verbatim>\<open>search\<close> and \<^verbatim>\<open>range_scan\<close>: the pages visited, the leaf last.\<close>

partial_function (option) descend :: "disk_file \<Rightarrow> key \<Rightarrow> u32 \<Rightarrow> (btree_error, u32 list) outcome option" where
  "descend f key current =
     (case read_node f current of
        Ok n \<Rightarrow>
          (case node_type n of
             Leaf \<Rightarrow> Some (Ok [current])
           | Internal \<Rightarrow>
               (case find_child n key of
                  Ok c \<Rightarrow> Option.bind (descend f key c) (\<lambda>r. Some (obind r (\<lambda>path. Ok (current # path))))
                | Err e \<Rightarrow> Some (Err e)
                | Panic \<Rightarrow> Some Panic))
      | Err e \<Rightarrow> Some (Err e)
      | Panic \<Rightarrow> Some Panic)"

definition find_leaf_path :: "disk_file \<Rightarrow> btree_meta \<Rightarrow> key \<Rightarrow> (btree_error, u32 list) outcome option" where
  "find_leaf_path f meta key = descend f key (root_page meta)"

section \<open>Insertion\<close>

definition next_free :: "btree_meta \<Rightarrow> (btree, btree_error, u32 \<times> btree_meta) lop" where
  "next_free meta s =
     (let pn = next_page meta in
      case btf_grow pn (bt_file s) of
        None \<Rightarrow> None
      | Some f \<Rightarrow> Some (Ok (pn, meta\<lparr>next_page := pn + 1\<rparr>), s\<lparr>bt_file := f\<rparr>))"

text \<open>The loop over the parents, innermost first; the result is what is still to be put into a new root.\<close>

primrec propagate :: "u32 \<Rightarrow> u32 list \<Rightarrow> key \<Rightarrow> u32 \<Rightarrow> btree_meta \<Rightarrow> (btree, btree_error, (key \<times> u32) option \<times> btree_meta) lop" where
  "propagate x [] key right meta = ltotal (sret (Some (key, right), meta))"
| "propagate x (pn # pns) key right meta =
     lbind (ltotal (slift (\<lambda>s. read_node (bt_file s) pn))) (\<lambda>n.
     let parent = insert_internal_entry \<lparr>ie_key = key, child_page = right\<rparr> n in
     if \<not> is_full parent
     then lbind (ltotal (write_node pn parent x)) (\<lambda>_. ltotal (sret (None, meta)))
     else
       lbind (ltotal (slift (\<lambda>_. split_internal parent))) (\<lambda>(left, right_internal, new_key, _).
       lbind (next_free meta) (\<lambda>(rpn, meta).
       lbind (ltotal (write_node pn left x)) (\<lambda>_.
       lbind (ltotal (write_node rpn right_internal x)) (\<lambda>_.
       propagate x pns new_key rpn meta)))))"

definition grow_root :: "u32 \<Rightarrow> key \<Rightarrow> u32 \<Rightarrow> btree_meta \<Rightarrow> (btree, btree_error, btree_meta) lop" where
  "grow_root x key right meta =
     lbind (next_free meta) (\<lambda>(rpn, meta).
     let new_root = new_internal\<lparr>internal_entries :=
           [\<lparr>ie_key = [], child_page = root_page meta\<rparr>, \<lparr>ie_key = key, child_page = right\<rparr>]\<rparr> in
     lbind (ltotal (write_node rpn new_root x)) (\<lambda>_.
     ltotal (sret (meta\<lparr>root_page := rpn, height := height meta + 1\<rparr>))))"

definition fix_old_right :: "u32 \<Rightarrow> u32 \<Rightarrow> u32 \<Rightarrow> (btree, btree_error, unit) sop" where
  "fix_old_right x sib rpn =
     (if sib \<noteq> 0
      then sbind (slift (\<lambda>s. read_node (bt_file s) sib)) (\<lambda>old_right.
           write_node sib (old_right\<lparr>left_sibling := rpn\<rparr>) x)
      else sret ())"

definition insert_split :: "u32 \<Rightarrow> u32 list \<Rightarrow> btree_node \<Rightarrow> btree_meta \<Rightarrow> (btree, btree_error, unit) lop" where
  "insert_split x path leaf meta =
     lbind (ltotal (slift (\<lambda>_. split_leaf leaf))) (\<lambda>(left, right_leaf, median_key).
     lbind (next_free meta) (\<lambda>(rpn, meta).
     let leaf_pn = last path;
         right_leaf = right_leaf\<lparr>left_sibling := leaf_pn, right_sibling := right_sibling left\<rparr>;
         left = left\<lparr>right_sibling := rpn\<rparr> in
     lbind (ltotal (fix_old_right x (right_sibling right_leaf) rpn)) (\<lambda>_.
     lbind (ltotal (write_node leaf_pn left x)) (\<lambda>_.
     lbind (ltotal (write_node rpn right_leaf x)) (\<lambda>_.
     lbind (propagate x (rev (butlast path)) median_key rpn meta) (\<lambda>(up, meta).
     lbind (case up of None \<Rightarrow> ltotal (sret meta) | Some (key, right) \<Rightarrow> grow_root x key right meta) (\<lambda>meta.
     ltotal (write_meta meta))))))))"

definition bt_insert :: "u32 \<Rightarrow> key \<Rightarrow> tid \<Rightarrow> (btree, btree_error, unit) lop" where
  "bt_insert x key t =
     lbind (ltotal (slift (\<lambda>s. read_meta (bt_file s)))) (\<lambda>meta.
     lbind (lread (\<lambda>s. find_leaf_path (bt_file s) meta key)) (\<lambda>path.
     lbind (ltotal (slift (\<lambda>s. read_node (bt_file s) (last path)))) (\<lambda>leaf.
     if find_key leaf key \<noteq> None then ltotal (serr DuplicateKey)
     else
       let leaf = insert_leaf_entry \<lparr>le_key = key, le_tid = t\<rparr> leaf;
           meta = meta\<lparr>num_entries := num_entries meta + 1\<rparr> in
       if \<not> is_full leaf
       then ltotal (sbind (write_node (last path) leaf x) (\<lambda>_. write_meta meta))
       else insert_split x path leaf meta)))"

section \<open>Search, scan, deletion\<close>

definition bt_search :: "key \<Rightarrow> btree \<Rightarrow> (btree_error, tid) outcome option" where
  "bt_search key s =
     (case read_meta (bt_file s) of
        Ok meta \<Rightarrow>
          (case descend (bt_file s) key (root_page meta) of
             None \<Rightarrow> None
           | Some r \<Rightarrow> Some (obind r (\<lambda>path.
               obind (read_node (bt_file s) (last path)) (\<lambda>n.
               case find_key n key of Some i \<Rightarrow> Ok (le_tid (leaf_entries n ! i)) | None \<Rightarrow> Err KeyNotFound))))
      | Err e \<Rightarrow> Some (Err e)
      | Panic \<Rightarrow> Some Panic)"

partial_function (option) leftmost :: "disk_file \<Rightarrow> u32 \<Rightarrow> (btree_error, u32) outcome option" where
  "leftmost f current =
     (case read_node f current of
        Ok n \<Rightarrow>
          (case node_type n of
             Leaf \<Rightarrow> Some (Ok current)
           | Internal \<Rightarrow>
               (case internal_entries n of
                  [] \<Rightarrow> Some (Ok current)
                | e # _ \<Rightarrow> leftmost f (child_page e)))
      | Err e \<Rightarrow> Some (Err e)
      | Panic \<Rightarrow> Some Panic)"

text \<open>The entries of one leaf: those collected, and whether the upper bound was passed.\<close>

primrec scan_entries :: "key option \<Rightarrow> key option \<Rightarrow> leaf_entry list \<Rightarrow> (key \<times> tid) list \<times> bool" where
  "scan_entries sk ek [] = ([], False)"
| "scan_entries sk ek (e # es) =
     (if (case sk of Some k \<Rightarrow> le_key e < k | None \<Rightarrow> False) then scan_entries sk ek es
      else if (case ek of Some k \<Rightarrow> le_key e > k | None \<Rightarrow> False) then ([], True)
      else case scan_entries sk ek es of (rs, fin) \<Rightarrow> ((le_key e, le_tid e) # rs, fin))"

partial_function (option) scan_leaves ::
  "disk_file \<Rightarrow> key option \<Rightarrow> key option \<Rightarrow> u32 \<Rightarrow> (btree_error, (key \<times> tid) list) outcome option" where
  "scan_leaves f sk ek current =
     (if current = 0 then Some (Ok [])
      else case read_node f current of
        Ok n \<Rightarrow>
          (case scan_entries sk ek (leaf_entries n) of
             (rs, fin) \<Rightarrow>
               if fin then Some (Ok rs)
               else Option.bind (scan_leaves f sk ek (right_sibling n)) (\<lambda>r. Some (obind r (\<lambda>rest. Ok (rs @ rest)))))
      | Err e \<Rightarrow> Some (Err e)
      | Panic \<Rightarrow> Some Panic)"

definition range_scan :: "key option \<Rightarrow> key option \<Rightarrow> btree \<Rightarrow> (btree_error, (key \<times> tid) list) outcome option" where
  "range_scan sk ek s =
     (case read_meta (bt_file s) of
        Ok meta \<Rightarrow>
          (case (case sk of
                   Some k \<Rightarrow> map_option (\<lambda>r. obind r (\<lambda>path. Ok (last path))) (descend (bt_file s) k (root_page meta))
                 | None \<Rightarrow> leftmost (bt_file s) (root_page meta)) of
             None \<Rightarrow> None
           | Some (Ok first) \<Rightarrow> scan_leaves (bt_file s) sk ek first
           | Some (Err e) \<Rightarrow> Some (Err e)
           | Some Panic \<Rightarrow> Some Panic)
      | Err e \<Rightarrow> Some (Err e)
      | Panic \<Rightarrow> Some Panic)"

definition remove_at :: "nat \<Rightarrow> 'a list \<Rightarrow> 'a list" where
  "remove_at i xs = take i xs @ drop (Suc i) xs"

definition bt_delete :: "u32 \<Rightarrow> key \<Rightarrow> (btree, btree_error, unit) lop" where
  "bt_delete x key =
     lbind (ltotal (slift (\<lambda>s. read_meta (bt_file s)))) (\<lambda>meta.
     lbind (lread (\<lambda>s. find_leaf_path (bt_file s) meta key)) (\<lambda>path.
     lbind (ltotal (slift (\<lambda>s. read_node (bt_file s) (last path)))) (\<lambda>leaf.
     case find_key leaf key of
       Some i \<Rightarrow>
         ltotal (sbind (write_node (last path) (leaf\<lparr>leaf_entries := remove_at i (leaf_entries leaf)\<rparr>) x) (\<lambda>_.
                 write_meta (meta\<lparr>num_entries := (if num_entries meta = 0 then 0 else num_entries meta - 1)\<rparr>)))
     | None \<Rightarrow> ltotal (serr KeyNotFound))))"

definition bt_num_entries :: "btree \<Rightarrow> (btree_error, u64) outcome" where
  "bt_num_entries s = obind (read_meta (bt_file s)) (\<lambda>m. Ok (num_entries m))"

end
