(* ===== verification/BTree_Shape.thy ===== *)
theory BTree_Shape
  imports BTree_Node "HOL-Library.Product_Lexorder" "HOL-Library.Multiset"
begin

text \<open>
  The tree behind the pages of an index, as a mathematical object: leaves and inner nodes with their page
  numbers, contexts (a tree with a hole, innermost frame first) and the bottom-up repair after a split. The
  order invariant is stated on the flat list of separators and keys: a separator precedes an equal key, so
  one strict order on tagged keys says it all, and every operation on the tree becomes one on lists.
\<close>

section \<open>Trees\<close>

datatype gt = GLeaf u32 "leaf_entry list" | GNode u32 "(key \<times> gt) list"

primrec root_of :: "gt \<Rightarrow> u32" where
  "root_of (GLeaf p es) = p"
| "root_of (GNode p cs) = p"

definition ents :: "(key \<times> gt) list \<Rightarrow> internal_entry list" where
  "ents cs = map (\<lambda>c. \<lparr>ie_key = fst c, child_page = root_of (snd c)\<rparr>) cs"

definition sep :: "key \<Rightarrow> (key \<times> bool) list" where
  "sep k = (if k = [] then [] else [(k, False)])"

lemma sep_simps [simp]: "sep [] = []" "k \<noteq> [] \<Longrightarrow> sep k = [(k, False)]"
  by (simp_all add: sep_def)

primrec leaves :: "gt \<Rightarrow> (u32 \<times> leaf_entry list) list" where
  "leaves (GLeaf p es) = [(p, es)]"
| "leaves (GNode p cs) = concat (map snd (map (map_prod id leaves) cs))"

primrec tokens :: "gt \<Rightarrow> (key \<times> bool) list" where
  "tokens (GLeaf p es) = map (\<lambda>e. (le_key e, True)) es"
| "tokens (GNode p cs) = concat (map (\<lambda>c. sep (fst c) @ snd c) (map (map_prod id tokens) cs))"

primrec inn :: "gt \<Rightarrow> (u32 \<times> internal_entry list) list" where
  "inn (GLeaf p es) = []"
| "inn (GNode p cs) = (p, ents cs) # concat (map snd (map (map_prod id inn) cs))"

text \<open>Keys up to this length never overflow a page: a split leaves both halves below the threshold.\<close>

abbreviation (input) MAX_KEY :: nat where "MAX_KEY \<equiv> 128"

definition keys_size :: "nat \<Rightarrow> key list \<Rightarrow> nat" where
  "keys_size c ks = 11 + sum_list (map (\<lambda>k. c + length k) ks)"

definition leaf_ok :: "leaf_entry list \<Rightarrow> bool" where
  "leaf_ok es \<longleftrightarrow> keys_size 8 (map le_key es) \<le> 7892 \<and> (\<forall>e \<in> set es. length (le_key e) \<le> MAX_KEY)"

definition inner_ok :: "key list \<Rightarrow> bool" where
  "inner_ok ks \<longleftrightarrow> ks \<noteq> [] \<and> hd ks = [] \<and> [] \<notin> set (tl ks) \<and> keys_size 6 ks \<le> 7892 \<and> (\<forall>k \<in> set ks. length k \<le> MAX_KEY)"

primrec tree_ok :: "gt \<Rightarrow> bool" where
  "tree_ok (GLeaf p es) = leaf_ok es"
| "tree_ok (GNode p cs) = (inner_ok (map fst cs) \<and> list_all snd (map (map_prod id tree_ok) cs))"

primrec balanced :: "gt \<Rightarrow> nat \<Rightarrow> bool" where
  "balanced (GLeaf p es) d = (d = 1)"
| "balanced (GNode p cs) d = (case d of 0 \<Rightarrow> False | Suc e \<Rightarrow> list_all (\<lambda>c. snd c e) (map (map_prod id balanced) cs))"

lemma leaves_Node [simp]: "leaves (GNode p cs) = concat (map (\<lambda>c. leaves (snd c)) cs)"
  by (simp add: comp_def)

lemma tokens_Node [simp]: "tokens (GNode p cs) = concat (map (\<lambda>c. sep (fst c) @ tokens (snd c)) cs)"
  by (simp add: comp_def)

lemma inn_Node [simp]: "inn (GNode p cs) = (p, ents cs) # concat (map (\<lambda>c. inn (snd c)) cs)"
  by (simp add: comp_def)

lemma tree_ok_Node [simp]: "tree_ok (GNode p cs) \<longleftrightarrow> inner_ok (map fst cs) \<and> (\<forall>c \<in> set cs. tree_ok (snd c))"
  by (simp add: list_all_iff)

lemma balanced_Node [simp]:
  "balanced (GNode p cs) 0 = False" "balanced (GNode p cs) (Suc e) \<longleftrightarrow> (\<forall>c \<in> set cs. balanced (snd c) e)"
  by (simp_all add: list_all_iff)

declare leaves.simps(2) [simp del] tokens.simps(2) [simp del] inn.simps(2) [simp del] tree_ok.simps(2) [simp del]
  balanced.simps(2) [simp del]

lemma ents_simps [simp]: "ents [] = []" "ents (c # cs) = \<lparr>ie_key = fst c, child_page = root_of (snd c)\<rparr> # ents cs"
  "ents (cs @ ds) = ents cs @ ents ds" "length (ents cs) = length cs" "map ie_key (ents cs) = map fst cs"
  by (simp_all add: ents_def comp_def)

lemma ents_take: "take n (ents cs) = ents (take n cs)" "drop n (ents cs) = ents (drop n cs)"
  by (simp_all add: ents_def take_map drop_map)

text \<open>The entries of the leaves in order; their keys are the tagged keys of the token list.\<close>

definition contents :: "gt \<Rightarrow> leaf_entry list" where
  "contents t = concat (map snd (leaves t))"

lemma contents_simps [simp]: "contents (GLeaf p es) = es" "contents (GNode p cs) = concat (map (\<lambda>c. contents (snd c)) cs)"
  by (simp add: contents_def) (induction cs; simp add: contents_def)

lemma tokens_keys: "map fst (filter snd (tokens t)) = map le_key (contents t)"
proof (induction t)
  case (GLeaf p es)
  then show ?case by (simp add: comp_def filter_map)
next
  case (GNode p cs)
  have sep: "filter snd (sep k) = []" for k by (simp add: sep_def)
  have "map fst (filter snd (concat (map (\<lambda>c. sep (fst c) @ tokens (snd c)) ds)))
      = map le_key (concat (map (\<lambda>c. contents (snd c)) ds))" if "set ds \<subseteq> set cs" for ds
    using that GNode by (induction ds) (auto simp: sep)
  from this [of cs] show ?case by simp
qed

section \<open>Contexts\<close>

type_synonym frame = "u32 \<times> (key \<times> gt) list \<times> key \<times> (key \<times> gt) list"

fun fill :: "frame list \<Rightarrow> gt \<Rightarrow> gt" where
  "fill [] t = t"
| "fill ((p, pre, k, post) # ctx) t = fill ctx (GNode p (pre @ (k, t) # post))"

fun lleaves :: "frame list \<Rightarrow> (u32 \<times> leaf_entry list) list" where
  "lleaves [] = []"
| "lleaves ((p, pre, k, post) # ctx) = lleaves ctx @ concat (map (\<lambda>c. leaves (snd c)) pre)"

fun rleaves :: "frame list \<Rightarrow> (u32 \<times> leaf_entry list) list" where
  "rleaves [] = []"
| "rleaves ((p, pre, k, post) # ctx) = concat (map (\<lambda>c. leaves (snd c)) post) @ rleaves ctx"

fun ltokens :: "frame list \<Rightarrow> (key \<times> bool) list" where
  "ltokens [] = []"
| "ltokens ((p, pre, k, post) # ctx) = ltokens ctx @ concat (map (\<lambda>c. sep (fst c) @ tokens (snd c)) pre) @ sep k"

fun rtokens :: "frame list \<Rightarrow> (key \<times> bool) list" where
  "rtokens [] = []"
| "rtokens ((p, pre, k, post) # ctx) = concat (map (\<lambda>c. sep (fst c) @ tokens (snd c)) post) @ rtokens ctx"

text \<open>The inner nodes of a context whose hole is filled by a tree on page \<open>r\<close>.\<close>

fun cinn :: "frame list \<Rightarrow> u32 \<Rightarrow> (u32 \<times> internal_entry list) list" where
  "cinn [] r = []"
| "cinn ((p, pre, k, post) # ctx) r =
     (p, ents pre @ \<lparr>ie_key = k, child_page = r\<rparr> # ents post)
       # concat (map (\<lambda>c. inn (snd c)) pre) @ concat (map (\<lambda>c. inn (snd c)) post) @ cinn ctx p"

fun ctx_ok :: "frame list \<Rightarrow> bool" where
  "ctx_ok [] = True"
| "ctx_ok ((p, pre, k, post) # ctx) \<longleftrightarrow> inner_ok (map fst pre @ k # map fst post)
     \<and> (\<forall>c \<in> set pre \<union> set post. tree_ok (snd c)) \<and> ctx_ok ctx"

fun ctx_balanced :: "frame list \<Rightarrow> nat \<Rightarrow> bool" where
  "ctx_balanced [] e = True"
| "ctx_balanced ((p, pre, k, post) # ctx) e \<longleftrightarrow> (\<forall>c \<in> set pre \<union> set post. balanced (snd c) e) \<and> ctx_balanced ctx (Suc e)"

lemma leaves_fill: "leaves (fill ctx t) = lleaves ctx @ leaves t @ rleaves ctx"
  by (induction ctx t rule: fill.induct) auto

lemma tokens_fill: "tokens (fill ctx t) = ltokens ctx @ tokens t @ rtokens ctx"
  by (induction ctx t rule: fill.induct) auto

lemma inn_fill: "mset (inn (fill ctx t)) = mset (cinn ctx (root_of t)) + mset (inn t)"
  by (induction ctx t rule: fill.induct) auto

lemma tree_ok_fill: "tree_ok (fill ctx t) \<longleftrightarrow> ctx_ok ctx \<and> tree_ok t"
  by (induction ctx t rule: fill.induct) auto

lemma balanced_fill: "balanced (fill ctx t) (length ctx + e) \<longleftrightarrow> ctx_balanced ctx e \<and> balanced t e"
proof (induction ctx t arbitrary: e rule: fill.induct)
  case (2 p pre k post ctx t)
  from "2.IH" [of "Suc e"] show ?case by auto
qed simp

lemma contents_fill: "contents (fill ctx t) = concat (map snd (lleaves ctx)) @ contents t @ concat (map snd (rleaves ctx))"
  by (simp add: contents_def leaves_fill)

lemma root_of_fill: "root_of (fill ctx t) = (if ctx = [] then root_of t else fst (last ctx))"
  by (induction ctx t rule: fill.induct) auto

section \<open>Order\<close>

definition ordered :: "gt \<Rightarrow> bool" where
  "ordered t \<longleftrightarrow> sorted_wrt (<) (([], False) # tokens t)"

lemma sorted_keys:
  assumes "sorted_wrt (<) ts"
  shows "sorted_wrt (<) (map fst (filter snd ts))"
  using assms by (induction ts) auto

lemma ordered_contents: "ordered t \<Longrightarrow> sorted_wrt (<) (map le_key (contents t))"
  using sorted_keys [of "tokens t"] by (simp add: ordered_def tokens_keys)

lemma sorted_mid:
  assumes "sorted_wrt (<) (A @ s # R)"
  shows "x \<in> set A \<Longrightarrow> x < s" and "x \<in> set R \<Longrightarrow> s < x"
  using assms by (auto simp: sorted_wrt_append)

lemma sorted_upto: "sorted_wrt (<) (A @ s # R) \<Longrightarrow> x \<in> set (A @ [s]) \<Longrightarrow> x \<le> s" for s :: "'a::order"
  by (auto simp: sorted_wrt_append)

lemma sorted_from: "sorted_wrt (<) (A @ s # R) \<Longrightarrow> x \<in> set (s # R) \<Longrightarrow> s \<le> x" for s :: "'a::order"
  by (auto simp: sorted_wrt_append)

text \<open>The child a search descends into: everything left of it is smaller than the key, everything right is greater.\<close>

lemma child_split:
  assumes ok: "inner_ok (map fst cs)"
    and sorted: "sorted_wrt (<) (concat (map (\<lambda>c. sep (fst c) @ tokens (snd c)) cs))"
  obtains pre k t post where "cs = pre @ (k, t) # post"
    and "partition_point (\<lambda>e. ie_key e \<le> key) (ents cs) = Suc (length pre)"
    and "\<forall>x \<in> set (concat (map (\<lambda>c. sep (fst c) @ tokens (snd c)) pre) @ sep k). x < (key, True)"
    and "\<forall>x \<in> set (concat (map (\<lambda>c. sep (fst c) @ tokens (snd c)) post)). (key, True) < x"
proof -
  let ?T = "\<lambda>cs. concat (map (\<lambda>c. sep (fst c) @ tokens (snd c)) cs)"
  let ?P = "\<lambda>c :: key \<times> gt. fst c \<le> key"
  obtain t0 cs' where cs: "cs = ([], t0) # cs'"
    using ok by (cases cs) (auto simp: inner_ok_def)
  define pk where "pk = takeWhile ?P cs"
  define post where "post = dropWhile ?P cs"
  have "pk \<noteq> []" by (simp add: pk_def cs)
  then obtain pre k t where pk: "pk = pre @ [(k, t)]" by (metis rev_exhaust surj_pair)
  have split: "cs = pre @ (k, t) # post" 
    unfolding post_def using takeWhile_dropWhile_id [of ?P cs] pk [unfolded pk_def] by (metis append.assoc append_Cons append_Nil)
  have le: "k \<le> key" using pk set_takeWhileD [of "(k, t)" ?P cs] by (simp add: pk_def)
  have "partition_point (\<lambda>e. ie_key e \<le> key) (ents cs) = length pk"
    by (simp add: partition_point_def ents_def takeWhile_map comp_def pk_def)
  then have pp: "partition_point (\<lambda>e. ie_key e \<le> key) (ents cs) = Suc (length pre)" by (simp add: pk)
  have ord: "sorted_wrt (<) (?T pre @ sep k @ tokens t @ ?T post)" using sorted by (simp add: split)
  have left: "x < (key, True)" if "x \<in> set (?T pre @ sep k)" for x
  proof (cases pre)
    case Nil
    then have "k = []" using split cs by simp
    then show ?thesis using that Nil by (simp add: sep_def)
  next
    case (Cons c pre')
    then have "k \<noteq> []" using ok split by (auto simp: inner_ok_def)
    then have sk: "sep k = [(k, False)]" by (simp add: sep_def)
    have "x \<le> (k, False)"
      by (rule sorted_upto [of "?T pre" _ "tokens t @ ?T post"]) (use ord that sk in \<open>simp_all del: set_concat\<close>)
    also have "\<dots> < (key, True)" using le by auto
    finally show ?thesis .
  qed
  have right: "(key, True) < x" if "x \<in> set (?T post)" for x
  proof (cases post)
    case Nil
    then show ?thesis using that by simp
  next
    case (Cons c post')
    have gt: "key < fst c" using Cons hd_dropWhile [of ?P cs] by (simp add: post_def not_le)
    then have sc: "sep (fst c) = [(fst c, False)]" by (auto simp: sep_def)
    have "(fst c, False) \<le> x"
      by (rule sorted_from [of "?T pre @ sep k @ tokens t" _ "tokens (snd c) @ ?T post'"])
        (use ord that sc Cons in \<open>simp_all del: set_concat\<close>)
    moreover have "(key, True) < (fst c, False)" using gt by simp
    ultimately show ?thesis by (rule less_le_trans [rotated])
  qed
  show ?thesis using that [OF split pp] left right by blast
qed

text \<open>A key lies in the leaf the context points to or nowhere.\<close>

lemma side_keys:
  "map fst (filter snd (ltokens ctx)) = map le_key (concat (map snd (lleaves ctx)))"
  "map fst (filter snd (rtokens ctx)) = map le_key (concat (map snd (rleaves ctx)))"
proof -
  have sep: "filter snd (sep k) = []" for k by (simp add: sep_def)
  have part: "map fst (filter snd (concat (map (\<lambda>c. sep (fst c) @ tokens (snd c)) cs)))
      = map le_key (concat (map snd (concat (map (\<lambda>c. leaves (snd c)) cs))))" for cs
    using tokens_keys [of "GNode 0 cs"] by (simp add: contents_def)
  show "map fst (filter snd (ltokens ctx)) = map le_key (concat (map snd (lleaves ctx)))"
    by (induction ctx rule: ltokens.induct) (simp_all only: ltokens.simps lleaves.simps filter_append map_append
        concat_append part sep list.map filter.simps concat.simps append_Nil2)
  show "map fst (filter snd (rtokens ctx)) = map le_key (concat (map snd (rleaves ctx)))"
    by (induction ctx rule: rtokens.induct) (simp_all only: rtokens.simps rleaves.simps filter_append map_append
        concat_append part list.map filter.simps concat.simps)
qed

lemma only_here:
  assumes "\<forall>x \<in> set (ltokens ctx). x < (key, True)" and "\<forall>x \<in> set (rtokens ctx). (key, True) < x"
  shows "key \<notin> le_key ` set (concat (map snd (lleaves ctx)))" and "key \<notin> le_key ` set (concat (map snd (rleaves ctx)))"
proof -
  have "key \<notin> set (map fst (filter snd (ltokens ctx)))" "key \<notin> set (map fst (filter snd (rtokens ctx)))"
    using assms by fastforce+
  then show "key \<notin> le_key ` set (concat (map snd (lleaves ctx)))" "key \<notin> le_key ` set (concat (map snd (rleaves ctx)))"
    unfolding side_keys set_map by blast+
qed

section \<open>Putting a split into its parents\<close>

text \<open>
  The right part \<open>r\<close> goes behind its left sibling; a node that gets too large is split in the middle, and a
  split of the root makes a new root. The number counts the pages taken from \<open>nx\<close> on, the flag says
  whether the root was split.
\<close>

fun up :: "frame list \<Rightarrow> gt \<Rightarrow> key \<Rightarrow> gt \<Rightarrow> u32 \<Rightarrow> gt \<times> nat \<times> bool" where
  "up [] l k r nx = (GNode nx [([], l), (k, r)], 1, True)"
| "up ((p, pre, h, post) # ctx) l k r nx =
     (let cs = pre @ (h, l) # (k, r) # post in
      if keys_size 6 (map fst cs) \<le> 7892 then (fill ctx (GNode p cs), 0, False)
      else let mid = length cs div 2 in
        case up ctx (GNode p (take mid cs)) (fst (cs ! mid)) (GNode nx (([], snd (cs ! mid)) # drop (Suc mid) cs)) (nx + 1)
        of (t, n, g) \<Rightarrow> (t, Suc n, g))"

text \<open>Induction along the parents, with the children of a node that is split cut at the middle.\<close>

lemma up_induct [consumes 1, case_names root fits split]:
  assumes "up ctx l k r nx = (t, n, g)"
    and root: "\<And>l k r nx. Q [] l k r nx (GNode nx [([], l), (k, r)]) 1 True"
    and fits: "\<And>p pre h post ctx l k r nx cs. cs = pre @ (h, l) # (k, r) # post \<Longrightarrow> keys_size 6 (map fst cs) \<le> 7892
      \<Longrightarrow> Q ((p, pre, h, post) # ctx) l k r nx (fill ctx (GNode p cs)) 0 False"
    and split: "\<And>p pre h post ctx l k r nx cs A k' t' B t n g. cs = pre @ (h, l) # (k, r) # post
      \<Longrightarrow> 7892 < keys_size 6 (map fst cs) \<Longrightarrow> cs = A @ (k', t') # B \<Longrightarrow> length A = length cs div 2
      \<Longrightarrow> up ctx (GNode p A) k' (GNode nx (([], t') # B)) (nx + 1) = (t, n, g)
      \<Longrightarrow> Q ctx (GNode p A) k' (GNode nx (([], t') # B)) (nx + 1) t n g
      \<Longrightarrow> Q ((p, pre, h, post) # ctx) l k r nx t (Suc n) g"
  shows "Q ctx l k r nx t n g"
  using assms(1)
proof (induction ctx l k r nx arbitrary: t n g rule: up.induct)
  case (1 l k r nx)
  then have "t = GNode nx [([], l), (k, r)]" "n = 1" "g = True" by simp_all
  then show ?case using root by blast
next
  case (2 p pre h post ctx l k r nx)
  define cs where "cs = pre @ (h, l) # (k, r) # post"
  let ?mid = "length cs div 2"
  show ?case
  proof (cases "keys_size 6 (map fst cs) \<le> 7892")
    case True
    then have "t = fill ctx (GNode p cs)" "n = 0" "g = False"
      using "2.prems" by (simp_all only: up.simps Let_def cs_def [symmetric] if_True prod.inject)
    then show ?thesis using fits [OF cs_def True] by simp
  next
    case False
    have "?mid < length cs" by (simp add: cs_def)
    then have cut: "cs = take ?mid cs @ (fst (cs ! ?mid), snd (cs ! ?mid)) # drop (Suc ?mid) cs"
      using id_take_nth_drop [of ?mid cs] by simp
    obtain t1 n1 g1 where u: "up ctx (GNode p (take ?mid cs)) (fst (cs ! ?mid)) (GNode nx (([], snd (cs ! ?mid)) # drop (Suc ?mid) cs)) (nx + 1)
        = (t1, n1, g1)"
      by (metis surj_pair)
    have eq: "t = t1" "n = Suc n1" "g = g1"
      using False u "2.prems" by (simp_all only: up.simps Let_def cs_def [symmetric] if_False prod.case prod.inject)
    have len: "length (take ?mid cs) = length cs div 2" by simp
    show ?thesis
      unfolding eq by (rule split [OF cs_def _ cut len u "2.IH" [OF cs_def False refl u]]) (use False in simp)
  qed
qed

lemma leaves_up: "up ctx l k r nx = (t, n, g) \<Longrightarrow> leaves t = lleaves ctx @ leaves l @ leaves r @ rleaves ctx"
proof (induction rule: up_induct)
  case (split p pre h post ctx l k r nx cs A k' t' B t n g)
  have "concat (map (\<lambda>c. leaves (snd c)) (pre @ (h, l) # (k, r) # post)) = concat (map (\<lambda>c. leaves (snd c)) (A @ (k', t') # B))"
    using split.hyps(1,3) by simp
  then show ?case using split.IH by simp
next
  case (fits p pre h post ctx l k r nx cs)
  show ?case unfolding fits.hyps(1) by (simp add: leaves_fill)
qed simp

lemma up_count: "up ctx l k r nx = (t, n, g) \<Longrightarrow> n \<le> Suc (length ctx)"
proof (induction rule: up_induct)
  case split
  from split.IH show ?case by simp
qed simp_all

lemma up_balanced:
  "up ctx l k r nx = (t, n, g) \<Longrightarrow> ctx_balanced ctx e \<Longrightarrow> balanced l e \<Longrightarrow> balanced r e
    \<Longrightarrow> balanced t (length ctx + e + of_bool g)"
proof (induction arbitrary: e rule: up_induct)
  case (fits p pre h post ctx l k r nx cs)
  then show ?case using balanced_fill [of ctx "GNode p cs" "Suc e"] by auto
next
  case (split p pre h post ctx l k r nx cs A k' t' B t n g)
  have "\<forall>c \<in> set cs. balanced (snd c) e" using split.prems split.hyps(1) by auto
  then have "balanced (GNode p A) (Suc e)" "balanced (GNode nx (([], t') # B)) (Suc e)" using split.hyps(3) by auto
  then show ?case using split.IH [of "Suc e"] split.prems by simp
qed auto

text \<open>The keys of the parents, once the promoted key is among them.\<close>

lemma middle_key:
  assumes ok: "inner_ok (map fst pre @ h # map fst post)" and k: "k \<noteq> []"
    and cs: "cs = pre @ (h, l) # (k, r) # post" "cs = A @ (k', t') # B" and A: "length A = length cs div 2"
  shows "k' \<noteq> []" and "A \<noteq> []" and "hd (map fst A) = []" and "[] \<notin> set (tl (map fst A))" and "[] \<notin> set (map fst B)"
proof -
  let ?ks = "map fst pre @ h # k # map fst post"
  have ks: "map fst A @ k' # map fst B = ?ks" using arg_cong [OF cs(2), of "map fst"] cs(1) by simp
  have "hd ?ks = []" "[] \<notin> set (tl ?ks)" using ok k by (cases pre; auto simp: inner_ok_def)+
  moreover show "A \<noteq> []" using A cs(1) by auto
  ultimately show "k' \<noteq> []" "hd (map fst A) = []" "[] \<notin> set (tl (map fst A))" "[] \<notin> set (map fst B)"
    unfolding ks [symmetric] by (cases A; auto)+
qed

lemma tokens_up:
  "up ctx l k r nx = (t, n, g) \<Longrightarrow> ctx_ok ctx \<Longrightarrow> k \<noteq> []
    \<Longrightarrow> tokens t = ltokens ctx @ tokens l @ (k, False) # tokens r @ rtokens ctx"
proof (induction rule: up_induct)
  case (fits p pre h post ctx l k r nx cs)
  show ?case unfolding fits.hyps(1) using fits.prems(2) by (simp add: tokens_fill)
next
  case (split p pre h post ctx l k r nx cs A k' t' B t n g)
  let ?f = "\<lambda>c. sep (fst c) @ tokens (snd c)"
  have "inner_ok (map fst pre @ h # map fst post)" using split.prems(1) by simp
  then have k': "k' \<noteq> []" by (rule middle_key(1) [OF _ split.prems(2) split.hyps(1,3,4)])
  have "concat (map ?f (pre @ (h, l) # (k, r) # post)) = concat (map ?f (A @ (k', t') # B))" using split.hyps(1,3) by simp
  then have "tokens (GNode p A) @ (k', False) # tokens (GNode nx (([], t') # B))
      = concat (map ?f pre) @ sep h @ tokens l @ (k, False) # tokens r @ concat (map ?f post)"
    using k' split.prems(2) by simp
  then show ?case using split.IH split.prems(1) k' by simp
qed simp

section \<open>Room in the pages\<close>

lemma keys_size_simps [simp]: "keys_size c [] = 11" "keys_size c (k # ks) = c + length k + keys_size c ks"
  by (simp_all add: keys_size_def)

lemma keys_size_append: "keys_size c (ks @ ls) + 11 = keys_size c ks + keys_size c ls"
  by (simp add: keys_size_def)

lemma keys_size_bounds:
  assumes "6 \<le> c" and "c \<le> 8" and "\<forall>k \<in> set ks. length k \<le> MAX_KEY"
  shows "6 * length ks + 11 \<le> keys_size c ks" and "keys_size c ks \<le> 136 * length ks + 11"
  using assms by (induction ks) auto

text \<open>Both halves of an overfull node are below the threshold again.\<close>

lemma halves_fit:
  assumes c: "6 \<le> c" "c \<le> 8" and short: "\<forall>k \<in> set (A @ B). length k \<le> MAX_KEY"
    and big: "7892 < keys_size c (A @ B)" "keys_size c (A @ B) \<le> 8028" and A: "length A = length (A @ B) div 2"
  shows "keys_size c A \<le> 7892" and "keys_size c B \<le> 7892" and "A \<noteq> []" and "B \<noteq> []"
proof -
  define n where "n = length (A @ B)"
  have "7882 \<le> 136 * n" using keys_size_bounds(2) [OF c short] big(1) by (simp add: n_def)
  moreover have "136 * n \<le> 136 * 57" if "n \<le> 57" using that by (rule mult_le_mono2)
  ultimately have "58 \<le> n" by (cases "n \<le> 57") simp_all
  moreover have "length A = n div 2" "length B = n - n div 2" using A by (simp_all add: n_def)
  ultimately have len: "29 \<le> length A" "29 \<le> length B" by presburger+
  have "6 * length A + 11 \<le> keys_size c A" "6 * length B + 11 \<le> keys_size c B"
    using keys_size_bounds(1) [OF c] short by auto
  then show "keys_size c A \<le> 7892" "keys_size c B \<le> 7892"
    using big(2) len keys_size_append [of c A B] by linarith+
  show "A \<noteq> []" "B \<noteq> []" using len by auto
qed

lemma up_ok:
  "up ctx l k r nx = (t, n, g) \<Longrightarrow> ctx_ok ctx \<Longrightarrow> k \<noteq> [] \<Longrightarrow> length k \<le> MAX_KEY \<Longrightarrow> tree_ok l \<Longrightarrow> tree_ok r \<Longrightarrow> tree_ok t"
proof (induction rule: up_induct)
  case (root l k r nx)
  then show ?case by (simp add: inner_ok_def)
next
  case (fits p pre h post ctx l k r nx cs)
  have "inner_ok (map fst cs)"
    using fits by (cases pre) (auto simp: inner_ok_def)
  then show ?case using fits.prems by (simp add: tree_ok_fill) (simp add: fits.hyps(1) ball_Un)
next
  case (split p pre h post ctx l k r nx cs A k' t' B t n g)
  have ok: "inner_ok (map fst pre @ h # map fst post)" using split.prems(1) by simp
  note mid = middle_key [OF ok split.prems(2) split.hyps(1,3,4)]
  have ks: "map fst cs = map fst A @ k' # map fst B" using split.hyps(3) by simp
  have short: "\<forall>x \<in> set (map fst cs). length x \<le> MAX_KEY" using ok split.prems(3) by (auto simp: split.hyps(1) inner_ok_def)
  have "keys_size 6 (map fst cs) = 6 + length k + keys_size 6 (map fst pre @ h # map fst post)"
    using keys_size_append [of 6 "map fst pre" "h # k # map fst post"] keys_size_append [of 6 "map fst pre" "h # map fst post"]
    by (simp add: split.hyps(1))
  then have small: "keys_size 6 (map fst cs) \<le> 8028" using ok split.prems(3) by (simp add: inner_ok_def)
  have len: "length (map fst A) = length (map fst A @ k' # map fst B) div 2" using split.hyps(3,4) by simp
  have "keys_size 6 (map fst A) \<le> 7892" "keys_size 6 (k' # map fst B) \<le> 7892"
    by (rule halves_fit [of 6 "map fst A" "k' # map fst B"]; use short small len split.hyps(2) ks in simp)+
  then have "inner_ok (map fst A)" "inner_ok (map fst (([], t') # B))"
    using mid short ks by (auto simp: inner_ok_def)
  moreover have "\<forall>c \<in> set cs. tree_ok (snd c)" using split.prems split.hyps(1) by auto
  then have "\<forall>c \<in> set A. tree_ok (snd c)" "tree_ok t'" "\<forall>c \<in> set B. tree_ok (snd c)" using split.hyps(3) by auto
  moreover have "length k' \<le> MAX_KEY" using short ks by simp
  ultimately show ?case using split.IH split.prems(1) mid(1) by simp
qed

section \<open>Page numbers\<close>

lemma cinn_pages: "map fst (cinn ctx a) = map fst (cinn ctx b)"
  by (cases "(ctx, a)" rule: cinn.cases) auto

lemma up_pages:
  "up ctx l k r nx = (t, n, g) \<Longrightarrow> mset (map fst (inn t)) =
    mset (map fst (cinn ctx a)) + mset (map fst (inn l)) + mset (map fst (inn r)) + mset (map (\<lambda>i. nx + of_nat i) [0..<n])"
proof (induction arbitrary: a rule: up_induct)
  case (fits p pre h post ctx l k r nx cs)
  have "mset (map fst (inn (fill ctx (GNode p cs)))) = mset (map fst (cinn ctx p)) + mset (map fst (inn (GNode p cs)))"
    using arg_cong [OF inn_fill [of ctx "GNode p cs"], of "image_mset fst"] by simp
  then show ?case by (simp add: fits.hyps(1))
next
  case (split p pre h post ctx l k r nx cs A k' t' B t n g)
  let ?f = "\<lambda>c. inn (snd c)"
  have "concat (map ?f (pre @ (h, l) # (k, r) # post)) = concat (map ?f (A @ (k', t') # B))" using split.hyps(1,3) by simp
  then have "map fst (concat (map ?f pre) @ inn l @ inn r @ concat (map ?f post))
      = map fst (concat (map ?f A) @ inn t' @ concat (map ?f B))" by simp
  from arg_cong [OF this, of mset]
  have all: "mset (map fst (concat (map ?f pre))) + mset (map fst (inn l)) + mset (map fst (inn r)) + mset (map fst (concat (map ?f post)))
      = mset (map fst (concat (map ?f A))) + mset (map fst (inn t')) + mset (map fst (concat (map ?f B)))"
    by (simp add: ac_simps)
  have "[0..<Suc n] = 0 # map Suc [0..<n]" by (simp add: upt_conv_Cons map_Suc_upt del: upt_Suc)
  then have new: "nx # map (\<lambda>i. nx + 1 + of_nat i) [0..<n] = map (\<lambda>i. nx + of_nat i) [0..<Suc n]"
    by (simp add: ac_simps del: upt_Suc)
  show ?case
    using split.IH [of p] all by (simp add: new [symmetric] ac_simps del: upt_Suc)
qed (simp add: ac_simps)

end
