(* ===== verification/BTree_Store.thy ===== *)
theory BTree_Store
  imports BTree BTree_Shape
begin

text \<open>
  Nodes in the file: reading back what was written, growing the file, and the descent to a leaf. The tree of
  \<^verbatim>\<open>BTree_Shape\<close> is stored when every node of its layout is read back from its page; the leaves of the
  layout are chained through their sibling pointers.
\<close>

section \<open>The file as a store of nodes\<close>

definition file_ok :: "disk_file \<Rightarrow> u32 \<Rightarrow> bool" where
  "file_ok f nx \<longleftrightarrow> blocked f \<and> n_blocks f = unat nx"

lemma read_page_block:
  assumes "i < n_blocks f" and "unat pn = i"
  shows "btf_read_page f pn = block f i"
  using length_block [OF assms(1)] assms(2) by (simp add: btf_read_page_def block_def slice_def)

lemma write_page_law:
  assumes f: "file_ok f nx" and pn: "pn < nx" and p: "length p = 8192"
  shows "file_ok (btf_write_page pn p f) nx" and "btf_read_page (btf_write_page pn p f) pn = p"
    and "qn \<noteq> pn \<Longrightarrow> qn < nx \<Longrightarrow> btf_read_page (btf_write_page pn p f) qn = btf_read_page f qn"
proof -
  have b: "blocked f" and lt: "unat pn < n_blocks f" using f pn by (auto simp: file_ok_def word_less_nat_alt)
  note w = write_block [OF b lt p]
  show "file_ok (btf_write_page pn p f) nx" using w f by (simp add: btf_write_page_def file_ok_def)
  show "btf_read_page (btf_write_page pn p f) pn = p"
    using read_page_block [of "unat pn" "btf_write_page pn p f" pn] w lt by (simp add: btf_write_page_def)
  show "btf_read_page (btf_write_page pn p f) qn = btf_read_page f qn" if "qn \<noteq> pn" "qn < nx"
  proof -
    have q: "unat qn < n_blocks f" "unat qn \<noteq> unat pn" using that f by (auto simp: file_ok_def word_less_nat_alt word_unat_eq_iff)
    then show ?thesis
      using read_page_block [of "unat qn" "btf_write_page pn p f" qn] read_page_block [of "unat qn" f qn] w
      by (simp add: btf_write_page_def)
  qed
qed

lemma grow_law:
  assumes f: "file_ok f nx" and nx: "nx \<noteq> - 1"
  obtains f' where "btf_grow nx f = Some f'" and "file_ok f' (nx + 1)"
    and "\<And>pn. pn < nx \<Longrightarrow> btf_read_page f' pn = btf_read_page f pn"
proof -
  let ?f = "f @ replicate 8192 0"
  have b: "blocked f" and n: "n_blocks f = unat nx" using f by (auto simp: file_ok_def)
  note ap = append_block [OF b, of "replicate 8192 0"]
  have succ: "unat (nx + 1) = Suc (unat nx)" using word_less_succ [OF nx] unat_succ_le [of nx] by (simp add: word_less_nat_alt)
  have num: "btf_num_pages f = nx" using n by (simp add: btf_num_pages_def n_blocks_def)
  have "btf_num_pages ?f = of_nat (n_blocks ?f)" by (simp only: btf_num_pages_def n_blocks_def)
  also have "\<dots> = nx + 1" using ap(1) n succ by (simp add: add.commute)
  finally have "btf_num_pages ?f = nx + 1" .
  then have "\<not> btf_num_pages ?f \<le> nx" using word_less_succ [OF nx] by simp
  then have "btf_grow nx f = Some ?f" using num by (simp add: btf_grow.simps [of nx f] btf_grow.simps [of nx ?f] btf_allocate_page_def)
  moreover have "file_ok ?f (nx + 1)" using ap n succ by (simp add: file_ok_def)
  moreover have "btf_read_page ?f pn = btf_read_page f pn" if "pn < nx" for pn
  proof -
    have "unat pn < n_blocks f" using that n by (simp add: word_less_nat_alt)
    then show ?thesis using read_page_block [of "unat pn" f pn] read_page_block [of "unat pn" ?f pn] ap by simp
  qed
  ultimately show ?thesis using that by blast
qed

section \<open>Writing nodes and metadata\<close>

definition wal_room :: "nat \<Rightarrow> wal_writer \<Rightarrow> bool" where
  "wal_room n w \<longleftrightarrow> (\<exists>cs. wal_inv cs w \<and> unat (w_segment w) + n < 2 ^ 64 \<and> length (log_records cs) + n < 2 ^ 64)"

lemma wal_room_append:
  assumes "wal_room (Suc n) w" and "length d = 8192"
  obtains l w' where "wal_append x ty pn d w = (Ok l, w')" and "wal_room n w'"
proof -
  obtain cs where cs: "wal_inv cs w" "unat (w_segment w) + Suc n < 2 ^ 64" "length (log_records cs) + Suc n < 2 ^ 64"
    using assms(1) by (auto simp: wal_room_def)
  have seg: "w_segment w \<noteq> - 1" using cs(2) by (auto simp: unsigned_minus_1_eq_mask mask_eq_exp_minus_1)
  have room: "Suc (length (log_records cs)) < 2 ^ 64" and small: "37 + length d < 2 ^ 32" using cs(3) assms(2) by auto
  obtain cs' w' where "append_inner x ty pn d w = (Ok (w_lsn w + 1), w')" "wal_inv cs' w'"
    "log_records cs' = log_records cs @ [appended w x ty pn d]" "unat (w_segment w') \<le> Suc (unat (w_segment w))"
    by (rule append_law [OF cs(1) seg room small])
  moreover from this have "wal_room n w'" using cs by (auto simp: wal_room_def intro!: exI [of _ cs'])
  ultimately show ?thesis using that by (simp add: wal_append_def)
qed

lemma wal_room_mono: "wal_room n w \<Longrightarrow> k \<le> n \<Longrightarrow> wal_room k w"
  by (auto simp: wal_room_def intro: le_less_trans)

text \<open>The tree between two writes: the file has \<open>nx\<close> pages and the log room for \<open>n\<close> records.\<close>

definition bt_at :: "u32 \<Rightarrow> nat \<Rightarrow> btree \<Rightarrow> bool" where
  "bt_at nx n s \<longleftrightarrow> file_ok (bt_file s) nx \<and> wal_room n (bt_wal s)"

lemma write_node_law:
  assumes s: "bt_at nx (Suc n) s" and pn: "pn < nx" "pn \<noteq> 0" and n: "node_wf nd" "encoded_size nd \<le> 8192"
  obtains s' where "write_node pn nd x s = (Ok (), s')" and "bt_at nx n s'"
    and "read_node (bt_file s') pn = Ok nd" and "\<And>q. q \<noteq> pn \<Longrightarrow> q < nx \<Longrightarrow> read_node (bt_file s') q = read_node (bt_file s) q"
    and "read_meta (bt_file s') = read_meta (bt_file s)"
proof -
  have f: "file_ok (bt_file s) nx" and w: "wal_room (Suc n) (bt_wal s)" using s by (auto simp: bt_at_def)
  obtain b where b: "node_encode nd = Ok b" using encode_eq(1) [OF n(2)] by blast
  have len: "length b = 8192" using b by (rule length_encode)
  note wr = write_page_law [OF f pn(1) len]
  let ?s = "s\<lparr>bt_file := btf_write_page pn b (bt_file s)\<rparr>"
  obtain l w' where a: "wal_append x PageImage (wal_page_no ?s pn) b (bt_wal s) = (Ok l, w')" "wal_room n w'"
    by (rule wal_room_append [OF w len])
  have run: "write_node pn nd x s = (Ok (), ?s\<lparr>bt_wal := w'\<rparr>)"
    using b a(1) by (simp add: write_node_def)
  have "0 < nx" using pn(1) by (metis word_neq_0_conv word_not_simps(1))
  then have "read_meta (btf_write_page pn b (bt_file s)) = read_meta (bt_file s)"
    using wr(3) [of 0] pn(2) by (simp add: read_meta_def)
  then show ?thesis
    using that [OF run] wr a(2) decode_encode [OF n(1) b] by (simp add: bt_at_def read_node_def)
qed

lemma write_meta_law:
  assumes s: "bt_at nx n s" and nx: "0 < nx"
  obtains s' where "write_meta m s = (Ok (), s')" and "bt_at nx n s'" and "read_meta (bt_file s') = Ok m"
    and "\<And>q. q \<noteq> 0 \<Longrightarrow> q < nx \<Longrightarrow> read_node (bt_file s') q = read_node (bt_file s) q"
proof -
  have f: "file_ok (bt_file s) nx" using s by (simp add: bt_at_def)
  let ?p = "zero_page (meta_encode m)"
  have p: "?p = meta_encode m @ replicate 8160 0" by (simp add: zero_page_def patch_def)
  then have len: "length ?p = 8192" by simp
  note wr = write_page_law [OF f nx len]
  have "write_meta m s = (Ok (), s\<lparr>bt_file := btf_write_page 0 ?p (bt_file s)\<rparr>)" by (simp add: write_meta_def)
  moreover have "read_meta (btf_write_page 0 ?p (bt_file s)) = Ok m"
    using wr(2) meta_roundtrip [of m] p by (simp add: read_meta_def)
  ultimately show ?thesis using that s wr by (simp add: bt_at_def read_node_def)
qed

lemma next_free_law:
  assumes s: "bt_at nx n s" and nx: "nx \<noteq> - 1" and m: "next_page meta = nx"
  obtains s' where "next_free meta s = Some (Ok (nx, meta\<lparr>next_page := nx + 1\<rparr>), s')" and "bt_at (nx + 1) n s'"
    and "\<And>q. q < nx \<Longrightarrow> read_node (bt_file s') q = read_node (bt_file s) q"
    and "0 < nx \<Longrightarrow> read_meta (bt_file s') = read_meta (bt_file s)"
proof -
  have f: "file_ok (bt_file s) nx" using s by (simp add: bt_at_def)
  obtain f' where g: "btf_grow nx (bt_file s) = Some f'" "file_ok f' (nx + 1)"
    "\<And>pn. pn < nx \<Longrightarrow> btf_read_page f' pn = btf_read_page (bt_file s) pn"
    using grow_law [OF f nx] by blast
  have run: "next_free meta s = Some (Ok (nx, meta\<lparr>next_page := nx + 1\<rparr>), s\<lparr>bt_file := f'\<rparr>)"
    using g(1) m by (simp add: next_free_def)
  show ?thesis using that [OF run] g s by (simp add: bt_at_def read_node_def read_meta_def)
qed

end
