(* ===== verification/BTree_Insert.thy ===== *)
theory BTree_Insert
  imports BTree_Store
begin

text \<open>
  Insertion: the descent finds the one leaf a key can live in, and putting a split into the parents stores
  exactly the tree \<open>up\<close> computes.
\<close>

section \<open>Layout\<close>

definition mk_leaf :: "u32 \<Rightarrow> u32 \<Rightarrow> leaf_entry list \<Rightarrow> btree_node" where
  "mk_leaf l r es = \<lparr>node_type = Leaf, right_sibling = r, left_sibling = l, internal_entries = [], leaf_entries = es\<rparr>"

definition mk_inner :: "internal_entry list \<Rightarrow> btree_node" where
  "mk_inner es = \<lparr>node_type = Internal, right_sibling = 0, left_sibling = 0, internal_entries = es, leaf_entries = []\<rparr>"

definition inodes :: "(u32 \<times> internal_entry list) list \<Rightarrow> (u32 \<times> btree_node) list" where
  "inodes xs = map (\<lambda>x. (fst x, mk_inner (snd x))) xs"

text \<open>A chain of leaves between the siblings \<open>l\<close> and \<open>r\<close>.\<close>

definition first_page :: "(u32 \<times> leaf_entry list) list \<Rightarrow> u32 \<Rightarrow> u32" where
  "first_page xs r = (case xs of [] \<Rightarrow> r | y # _ \<Rightarrow> fst y)"

definition last_page :: "u32 \<Rightarrow> (u32 \<times> leaf_entry list) list \<Rightarrow> u32" where
  "last_page l xs = (if xs = [] then l else fst (last xs))"

primrec chain :: "u32 \<Rightarrow> (u32 \<times> leaf_entry list) list \<Rightarrow> u32 \<Rightarrow> (u32 \<times> btree_node) list" where
  "chain l [] r = []"
| "chain l (x # xs) r = (fst x, mk_leaf l (first_page xs r) (snd x)) # chain (fst x) xs r"

definition stored :: "disk_file \<Rightarrow> (u32 \<times> btree_node) list \<Rightarrow> bool" where
  "stored f xs \<longleftrightarrow> (\<forall>x \<in> set xs. read_node f (fst x) = Ok (snd x))"

lemma node_simps [simp]:
  "node_type (mk_leaf l r es) = Leaf" "leaf_entries (mk_leaf l r es) = es" "right_sibling (mk_leaf l r es) = r"
  "left_sibling (mk_leaf l r es) = l" "node_type (mk_inner is) = Internal" "internal_entries (mk_inner is) = is"
  "node_wf (mk_leaf l r es)" "node_wf (mk_inner is)"
  by (simp_all add: mk_leaf_def mk_inner_def node_wf_def)

lemma node_sizes:
  "encoded_size (mk_leaf l r es) = keys_size 8 (map le_key es)"
  "encoded_size (mk_inner is) = keys_size 6 (map ie_key is)"
  by (simp_all add: encoded_size_eq keys_size_def comp_def)

lemma inodes_simps [simp]: "inodes [] = []" "inodes (x # xs) = (fst x, mk_inner (snd x)) # inodes xs"
  "inodes (xs @ ys) = inodes xs @ inodes ys" "map fst (inodes xs) = map fst xs" "fst ` set (inodes xs) = fst ` set xs"
  by (simp_all add: inodes_def comp_def image_image)

lemma first_page_simps [simp]: "first_page [] r = r" "first_page (x # xs) r = fst x"
  by (simp_all add: first_page_def)

lemma last_page_simps [simp]: "last_page l [] = l" "last_page l (xs @ [x]) = fst x"
  by (simp_all add: last_page_def)

lemma chain_pages [simp]: "map fst (chain l xs r) = map fst xs" "fst ` set (chain l xs r) = fst ` set xs"
  by (induction xs arbitrary: l) simp_all

lemma chain_append: "chain l (xs @ ys) r = chain l xs (first_page ys r) @ chain (last_page l xs) ys r"
proof (induction xs arbitrary: l)
  case (Cons x xs)
  have "first_page (xs @ ys) r = first_page xs (first_page ys r)" by (cases xs) simp_all
  moreover have "last_page (fst x) xs = last_page l (x # xs)" by (simp add: last_page_def)
  ultimately show ?case using Cons.IH by simp
qed simp

lemma stored_simps [simp]: "stored f []" "stored f (x # xs) \<longleftrightarrow> read_node f (fst x) = Ok (snd x) \<and> stored f xs"
  "stored f (xs @ ys) \<longleftrightarrow> stored f xs \<and> stored f ys"
  by (auto simp: stored_def)

lemma stored_concat: "stored f (concat xss) \<longleftrightarrow> (\<forall>xs \<in> set xss. stored f xs)"
  by (auto simp: stored_def)

lemma inodes_concat: "inodes (concat xss) = concat (map inodes xss)"
  by (induction xss) simp_all

lemma stored_cong: "stored f xs \<Longrightarrow> (\<And>p. p \<in> fst ` set xs \<Longrightarrow> read_node f' p = read_node f p) \<Longrightarrow> stored f' xs"
  by (simp add: stored_def)

lemma stored_mset: "mset xs = mset ys \<Longrightarrow> stored f (inodes xs) \<longleftrightarrow> stored f (inodes ys)"
  unfolding stored_def inodes_def set_map by (drule mset_eq_setD) simp

section \<open>Descent\<close>

lemma fill_append: "fill (c1 @ c2) t = fill c2 (fill c1 t)"
  by (induction c1 t rule: fill.induct) auto

lemma tokens_append: "ltokens (c1 @ c2) = ltokens c2 @ ltokens c1" "rtokens (c1 @ c2) = rtokens c1 @ rtokens c2"
  by (induction c1 rule: ltokens.induct) auto

lemma find_child_law:
  assumes "inner_ok (map fst cs)" and "sorted_wrt (<) (tokens (GNode p cs))"
  obtains pre k t post where "cs = pre @ (k, t) # post" and "find_child (mk_inner (ents cs)) key = Ok (root_of t)"
    and "\<forall>x \<in> set (ltokens [(p, pre, k, post)]). x < (key, True)" and "\<forall>x \<in> set (rtokens [(p, pre, k, post)]). (key, True) < x"
proof -
  obtain pre k t post where c: "cs = pre @ (k, t) # post"
    "partition_point (\<lambda>e. ie_key e \<le> key) (ents cs) = Suc (length pre)"
    "\<forall>x \<in> set (concat (map (\<lambda>c. sep (fst c) @ tokens (snd c)) pre) @ sep k). x < (key, True)"
    "\<forall>x \<in> set (concat (map (\<lambda>c. sep (fst c) @ tokens (snd c)) post)). (key, True) < x"
    by (rule child_split [OF assms(1), of key]) (use assms(2) in simp)
  have "ents cs ! length pre = \<lparr>ie_key = k, child_page = root_of t\<rparr>" by (simp add: c(1) nth_append)
  moreover have "ents cs \<noteq> []" "min (length pre) (length (ents cs) - 1) = length pre" by (simp_all add: c(1))
  ultimately have "find_child (mk_inner (ents cs)) key = Ok (root_of t)"
    by (simp add: find_child_def c(2) Let_def del: ents_simps)
  then show ?thesis using that c(1,3,4) by simp
qed

lemma descend_law:
  assumes "stored f (inodes (inn t))" and "\<forall>x \<in> set (leaves t). \<exists>n. read_node f (fst x) = Ok n \<and> node_type n = Leaf"
    and "tree_ok t" and "sorted_wrt (<) (tokens t)"
  shows "\<exists>ctx p es. t = fill ctx (GLeaf p es) \<and> descend f key (root_of t) = Some (Ok (rev (map fst ctx) @ [p]))
    \<and> (\<forall>x \<in> set (ltokens ctx). x < (key, True)) \<and> (\<forall>x \<in> set (rtokens ctx). (key, True) < x)"
  using assms
proof (induction t)
  case (GLeaf p es)
  then have "descend f key p = Some (Ok [p])" by (auto simp: descend.simps [of f key p])
  then show ?case by (intro exI [of _ "[]"] exI [of _ p] exI [of _ es]) simp
next
  case (GNode p cs)
  have ok: "inner_ok (map fst cs)" using GNode.prems(3) by simp
  obtain pre k t post where c: "cs = pre @ (k, t) # post" "find_child (mk_inner (ents cs)) key = Ok (root_of t)"
    "\<forall>x \<in> set (ltokens [(p, pre, k, post)]). x < (key, True)" "\<forall>x \<in> set (rtokens [(p, pre, k, post)]). (key, True) < x"
    by (rule find_child_law [OF ok GNode.prems(4)])
  have t: "stored f (inodes (inn t))" "\<forall>x \<in> set (leaves t). \<exists>n. read_node f (fst x) = Ok n \<and> node_type n = Leaf"
    "tree_ok t" "sorted_wrt (<) (tokens t)"
    using GNode.prems c(1) by (auto simp: inodes_concat stored_concat sorted_wrt_append)
  have "(k, t) \<in> set cs" "t \<in> Basic_BNFs.snds (k, t)" by (simp_all add: c(1))
  from GNode.IH [OF this t] obtain ctx q es where IH: "t = fill ctx (GLeaf q es)"
    "descend f key (root_of t) = Some (Ok (rev (map fst ctx) @ [q]))"
    "\<forall>x \<in> set (ltokens ctx). x < (key, True)" "\<forall>x \<in> set (rtokens ctx). (key, True) < x"
    by blast
  have "read_node f p = Ok (mk_inner (ents cs))" using GNode.prems(1) by simp
  then have "descend f key p = Some (Ok (p # rev (map fst ctx) @ [q]))"
    using c(2) IH(2) by (simp add: descend.simps [of f key p])
  then show ?case
    using IH(1,3,4) c(1,3,4)
    by (intro exI [of _ "ctx @ [(p, pre, k, post)]"] exI [of _ q] exI [of _ es])
      (simp add: fill_append tokens_append ball_Un del: ltokens.simps rtokens.simps)
qed

section \<open>Into the parents\<close>

lemma insert_inner:
  assumes ok: "inner_ok (map fst pre @ h # map fst post)" and k: "k \<noteq> []"
    and ord: "sorted_wrt (<) (X @ concat (map (\<lambda>c. sep (fst c) @ tokens (snd c)) pre) @ sep h @ tokens l @ (k, False) # tokens r
      @ concat (map (\<lambda>c. sep (fst c) @ tokens (snd c)) post) @ Y)"
  shows "insert_internal_entry \<lparr>ie_key = k, child_page = root_of r\<rparr>
      (mk_inner (ents pre @ \<lparr>ie_key = h, child_page = root_of l\<rparr> # ents post))
    = mk_inner (ents (pre @ (h, l) # (k, r) # post))"
proof -
  let ?P = "\<lambda>x :: internal_entry. ie_key x < k" and ?e = "\<lparr>ie_key = k, child_page = root_of r\<rparr>"
  let ?Tpre = "concat (map (\<lambda>c. sep (fst c) @ tokens (snd c)) pre)" and ?Tpost = "concat (map (\<lambda>c. sep (fst c) @ tokens (snd c)) post)"
  have ord': "sorted_wrt (<) ((X @ ?Tpre @ sep h @ tokens l) @ (k, False) # (tokens r @ ?Tpost @ Y))"
    using ord by (simp only: append_assoc append_Cons)
  note left = sorted_mid(1) [OF ord'] and right = sorted_mid(2) [OF ord']
  have below: "fst c < k" if "c \<in> set (pre @ [(h, l)])" for c
  proof (cases "fst c = []")
    case True
    then show ?thesis using k by (cases k) auto
  next
    case False
    then have "(fst c, False) \<in> set (sep (fst c))" by simp
    then have "(fst c, False) \<in> set (X @ ?Tpre @ sep h @ tokens l)" using that by auto
    from left [OF this] show ?thesis by simp
  qed
  have above: "post = [] \<or> k < fst (hd post)"
  proof (cases post)
    case (Cons c post')
    have "fst c \<noteq> []" using ok Cons by (cases pre) (auto simp: inner_ok_def)
    then have "(fst c, False) \<in> set (tokens r @ ?Tpost @ Y)" using Cons by simp
    from right [OF this] show ?thesis using Cons by simp
  qed simp
  obtain U where U: "ents pre @ [\<lparr>ie_key = h, child_page = root_of l\<rparr>] = \<lparr>ie_key = [], child_page = child_page (hd U)\<rparr> # tl U" "U \<noteq> []"
    "hd U = hd (ents pre @ [\<lparr>ie_key = h, child_page = root_of l\<rparr>])"
    using ok by (cases pre) (auto simp: inner_ok_def intro!: that [of "ents pre @ [\<lparr>ie_key = h, child_page = root_of l\<rparr>]"])
  let ?es = "ents pre @ \<lparr>ie_key = h, child_page = root_of l\<rparr> # ents post"
  let ?hd = "\<lparr>ie_key = [], child_page = child_page (hd U)\<rparr>"
  have es: "?es = ?hd # tl U @ ents post" using U(1) by (metis append.assoc append_Cons append_Nil)
  have P1: "\<forall>x \<in> set (tl U). ?P x"
  proof
    fix x assume "x \<in> set (tl U)"
    then have "x \<in> set (ents (pre @ [(h, l)]))" using U(1) by (simp add: ents_def)
    then obtain c where "c \<in> set (pre @ [(h, l)])" "x = \<lparr>ie_key = fst c, child_page = root_of (snd c)\<rparr>"
      unfolding ents_def set_map by blast
    then show "?P x" using below [of c] by simp
  qed
  have P2: "ents post = [] \<or> \<not> ?P (hd (ents post))" using above by (cases post) auto
  have "partition_point ?P (tl U @ ents post) = length (tl U)"
    using takeWhile_split(1) [OF P1 P2] by (simp add: partition_point_def)
  then have "insert_internal_entry ?e (mk_inner ?es) = mk_inner (vec_insert (Suc (length (tl U))) ?e (?hd # tl U @ ents post))"
    using k unfolding es by (simp add: insert_internal_entry_def mk_inner_def Let_def)
  also have "\<dots> = mk_inner (?hd # tl U @ ?e # ents post)" by (simp add: vec_insert_def)
  also have "?hd # tl U @ ?e # ents post = ents (pre @ (h, l) # (k, r) # post)"
    using U(1) by (simp add: ents_def)
  finally show ?thesis .
qed

text \<open>What is left to do after the loop over the parents.\<close>

definition finish :: "u32 \<Rightarrow> (key \<times> u32) option \<times> btree_meta \<Rightarrow> (btree, btree_error, btree_meta) lop" where
  "finish x um = (case fst um of None \<Rightarrow> ltotal (sret (snd um)) | Some (key, right) \<Rightarrow> grow_root x key right (snd um))"

definition up_pre :: "frame list \<Rightarrow> gt \<Rightarrow> key \<Rightarrow> gt \<Rightarrow> u32 \<Rightarrow> disk_file \<Rightarrow> bool" where
  "up_pre ctx l k r nx f \<longleftrightarrow> ctx_ok ctx \<and> k \<noteq> [] \<and> length k \<le> MAX_KEY
     \<and> sorted_wrt (<) (ltokens ctx @ tokens l @ (k, False) # tokens r @ rtokens ctx)
     \<and> stored f (inodes (cinn ctx (root_of l))) \<and> stored f (inodes (inn l)) \<and> stored f (inodes (inn r))
     \<and> distinct (map fst (cinn ctx (root_of l)) @ map fst (inn l) @ map fst (inn r))
     \<and> (\<forall>p \<in> fst ` set (cinn ctx (root_of l) @ inn l @ inn r). p \<noteq> 0 \<and> p < nx)"

definition up_post :: "frame list \<Rightarrow> gt \<Rightarrow> u32 \<Rightarrow> btree_meta \<Rightarrow> gt \<Rightarrow> nat \<Rightarrow> bool \<Rightarrow> nat \<Rightarrow> btree \<Rightarrow> btree_meta \<Rightarrow> btree \<Rightarrow> bool" where
  "up_post ctx l nx meta t n g c s meta' s' \<longleftrightarrow>
     meta' = meta\<lparr>next_page := nx + of_nat n, root_page := root_of t, height := height meta + of_bool g\<rparr>
     \<and> bt_at (nx + of_nat n) c s' \<and> stored (bt_file s') (inodes (inn t))
     \<and> (\<forall>q. q < nx \<longrightarrow> q \<notin> set (map fst ctx) \<longrightarrow> read_node (bt_file s') q = read_node (bt_file s) q)
     \<and> read_meta (bt_file s') = read_meta (bt_file s)"

lemma grow_root_law:
  assumes s: "bt_at nx (Suc c) s" and m: "next_page meta = nx" "root_page meta = root_of l" and nx: "nx \<noteq> - 1" "0 < nx"
    and pre: "up_pre [] l k r nx (bt_file s)"
  shows "\<exists>meta' s'. grow_root x k (root_of r) meta s = Some (Ok meta', s')
    \<and> up_post [] l nx meta (GNode nx [([], l), (k, r)]) 1 True c s meta' s'"
proof -
  obtain s1 where g: "next_free meta s = Some (Ok (nx, meta\<lparr>next_page := nx + 1\<rparr>), s1)" "bt_at (nx + 1) (Suc c) s1"
    "\<And>q. q < nx \<Longrightarrow> read_node (bt_file s1) q = read_node (bt_file s) q" "read_meta (bt_file s1) = read_meta (bt_file s)"
    using next_free_law [OF s nx(1) m(1)] nx(2) by metis
  let ?n = "mk_inner (ents [([], l), (k, r)])"
  have size: "encoded_size ?n \<le> 8192" using pre by (simp add: node_sizes up_pre_def)
  have lt: "nx < nx + 1" using nx(1) by (rule word_less_succ)
  obtain s2 where w: "write_node nx ?n x s1 = (Ok (), s2)" "bt_at (nx + 1) c s2" "read_node (bt_file s2) nx = Ok ?n"
    "\<And>q. q \<noteq> nx \<Longrightarrow> q < nx + 1 \<Longrightarrow> read_node (bt_file s2) q = read_node (bt_file s1) q"
    "read_meta (bt_file s2) = read_meta (bt_file s1)"
    using write_node_law [OF g(2) lt _ _ size, of x] nx(2) by (metis less_irrefl node_simps(8))
  have same: "read_node (bt_file s2) q = read_node (bt_file s) q" if "q < nx" for q
    using w(4) [of q] g(3) [OF that] that lt by (metis less_irrefl less_trans)
  have "stored (bt_file s2) (inodes (inn l))" "stored (bt_file s2) (inodes (inn r))"
    by (rule stored_cong [of "bt_file s"]; use pre same in \<open>auto simp: up_pre_def\<close>)+
  then have st: "stored (bt_file s2) (inodes (inn (GNode nx [([], l), (k, r)])))" using w(3) by simp
  have "grow_root x k (root_of r) meta s = Some (Ok (meta\<lparr>next_page := nx + 1, root_page := nx, height := height meta + 1\<rparr>), s2)"
    using g(1) w(1) m(2) by (simp add: grow_root_def new_internal_def mk_inner_def)
  then show ?thesis using w(2,5) g(4) st same by (simp add: up_post_def)
qed


text \<open>The node under repair: its children before and after the new entry, and the pages around it.\<close>

lemma up_pre_flat:
  assumes pre: "up_pre ((p, pre, h, post) # ctx) l k r nx f" and cs: "cs = pre @ (h, l) # (k, r) # post"
  shows "inner_ok (map fst pre @ h # map fst post)" and "ctx_ok ctx" and "k \<noteq> []" and "length k \<le> MAX_KEY"
    and "sorted_wrt (<) (ltokens ctx @ concat (map (\<lambda>c. sep (fst c) @ tokens (snd c)) cs) @ rtokens ctx)"
    and "read_node f p = Ok (mk_inner (ents pre @ \<lparr>ie_key = h, child_page = root_of l\<rparr> # ents post))"
    and "stored f (inodes (cinn ctx p))" and "stored f (inodes (concat (map (\<lambda>c. inn (snd c)) cs)))"
    and "distinct (p # map fst (cinn ctx p) @ map fst (concat (map (\<lambda>c. inn (snd c)) cs)))"
    and "\<forall>q \<in> fst ` set (cinn ctx p @ concat (map (\<lambda>c. inn (snd c)) cs)). q < nx \<and> q \<noteq> 0" and "p < nx" and "p \<noteq> 0"
proof -
  show "distinct (p # map fst (cinn ctx p) @ map fst (concat (map (\<lambda>c. inn (snd c)) cs)))"
    using pre unfolding up_pre_def cs by (auto simp del: set_concat)
qed (use pre in \<open>auto simp: up_pre_def cs simp del: set_concat\<close>)

lemma up_pre_split:
  assumes pre: "up_pre ((p, pre, h, post) # ctx) l k r nx f"
    and cs: "cs = pre @ (h, l) # (k, r) # post" "cs = A @ (k', t') # B" and A: "length A = length cs div 2"
    and f': "read_node f' p = Ok (mk_inner (ents A))" "read_node f' nx = Ok (mk_inner (ents (([], t') # B)))"
      "\<And>q. q < nx \<Longrightarrow> q \<noteq> p \<Longrightarrow> read_node f' q = read_node f q"
    and nx: "nx < nx + 1" "nx \<noteq> 0"
  shows "up_pre ctx (GNode p A) k' (GNode nx (([], t') # B)) (nx + 1) f'"
proof -
  note flat = up_pre_flat [OF pre cs(1)]
  have k': "k' \<noteq> []" by (rule middle_key(1) [OF flat(1,3) cs A])
  have "length k' \<le> MAX_KEY"
  proof -
    have "k' \<in> set (map fst cs)" by (simp add: cs(2))
    then show ?thesis using flat(1,4) by (auto simp: cs(1) inner_ok_def)
  qed
  moreover have "sorted_wrt (<) (ltokens ctx @ tokens (GNode p A) @ (k', False) # tokens (GNode nx (([], t') # B)) @ rtokens ctx)"
    using flat(5) k' by (simp add: cs(2))
  moreover have st: "stored f' (inodes xs)" if "stored f (inodes xs)" "\<forall>q \<in> fst ` set xs. q < nx \<and> q \<noteq> p" for xs
    using that(1) by (rule stored_cong) (use that(2) f'(3) in auto)
  have "stored f' (inodes (cinn ctx p))" "stored f' (inodes (concat (map (\<lambda>c. inn (snd c)) cs)))"
    using st [OF flat(7)] st [OF flat(8)] flat(9,10) by (force simp del: set_concat)+
  moreover have "distinct (map fst (cinn ctx p) @ p # map fst (concat (map (\<lambda>c. inn (snd c)) A)) @ nx
      # map fst (inn t' @ concat (map (\<lambda>c. inn (snd c)) B)))"
    using flat(9,10,11) by (auto simp: cs(2) simp del: set_concat)
  moreover have "\<forall>q \<in> fst ` set (cinn ctx p) \<union> fst ` set (concat (map (\<lambda>c. inn (snd c)) cs)) \<union> {p, nx}. q \<noteq> 0 \<and> q < nx + 1"
    using flat(10,11,12) nx by (auto simp del: set_concat intro: less_trans)
  ultimately show ?thesis
    using flat(2) k' f'(1,2) by (simp add: up_pre_def cs(2) ball_Un image_Un del: set_concat)
qed

end
