(* ===== verification/BTree_Up.thy ===== *)
theory BTree_Up
  imports BTree_Insert
begin

text \<open>
  The loop over the parents stores the tree \<open>up\<close> computes: every node that is split goes to its own page and
  a fresh one, and a split root gets a new root above it.
\<close>

lemma bt_at_mono: "bt_at nx n s \<Longrightarrow> k \<le> n \<Longrightarrow> bt_at nx k s"
  by (auto simp: bt_at_def intro: wal_room_mono)

lemma parent_of:
  assumes pre: "up_pre ((p, pre, h, post) # ctx) l k r nx f" and cs: "cs = pre @ (h, l) # (k, r) # post"
  shows "insert_internal_entry \<lparr>ie_key = k, child_page = root_of r\<rparr>
      (mk_inner (ents pre @ \<lparr>ie_key = h, child_page = root_of l\<rparr> # ents post)) = mk_inner (ents cs)"
    and "keys_size 6 (map fst cs) \<le> 8028"
proof -
  note flat = up_pre_flat [OF pre cs]
  show "insert_internal_entry \<lparr>ie_key = k, child_page = root_of r\<rparr>
      (mk_inner (ents pre @ \<lparr>ie_key = h, child_page = root_of l\<rparr> # ents post)) = mk_inner (ents cs)"
    unfolding cs by (rule insert_inner [OF flat(1,3), of "ltokens ctx" _ _ "rtokens ctx"]) (use flat(3,5) in \<open>simp add: cs\<close>)
  have "keys_size 6 (map fst cs) = 6 + length k + keys_size 6 (map fst pre @ h # map fst post)"
    using keys_size_append [of 6 "map fst pre" "h # k # map fst post"] keys_size_append [of 6 "map fst pre" "h # map fst post"]
    by (simp add: cs)
  then show "keys_size 6 (map fst cs) \<le> 8028" using flat(1,4) by (simp add: inner_ok_def)
qed

lemma keys_size_mono: "keys_size c (xs @ ys) \<le> n \<Longrightarrow> keys_size c xs \<le> n" "keys_size c (xs @ ys) \<le> n \<Longrightarrow> keys_size c ys \<le> n"
  by (simp_all add: keys_size_def)

lemma up_fits_law:
  assumes pre: "up_pre ((p, pre, h, post) # ctx) l k r nx (bt_file s)" and cs: "cs = pre @ (h, l) # (k, r) # post"
    and fits: "keys_size 6 (map fst cs) \<le> 7892" and s: "bt_at nx (Suc c) s"
    and m: "next_page meta = nx" "root_page meta = root_of (fill ((p, pre, h, post) # ctx) l)"
  shows "\<exists>meta' s'. lbind (propagate x (map fst ((p, pre, h, post) # ctx)) k (root_of r) meta) (finish x) s = Some (Ok meta', s')
    \<and> up_post ((p, pre, h, post) # ctx) l nx meta (fill ctx (GNode p cs)) 0 False c s meta' s'"
proof -
  note flat = up_pre_flat [OF pre cs] and par = parent_of [OF pre cs]
  have size: "encoded_size (mk_inner (ents cs)) \<le> 8192" using fits by (simp add: node_sizes)
  have notfull: "\<not> is_full (mk_inner (ents cs))" unfolding is_full_iff [OF size] using fits by (simp add: node_sizes)
  obtain s' where w: "write_node p (mk_inner (ents cs)) x s = (Ok (), s')" "bt_at nx c s'"
    "read_node (bt_file s') p = Ok (mk_inner (ents cs))"
    "\<And>q. q \<noteq> p \<Longrightarrow> q < nx \<Longrightarrow> read_node (bt_file s') q = read_node (bt_file s) q"
    "read_meta (bt_file s') = read_meta (bt_file s)"
    using write_node_law [OF s flat(11,12) _ size, of x] by (metis node_simps(8))
  have st: "stored (bt_file s') (inodes xs)" if "stored (bt_file s) (inodes xs)" "\<forall>q \<in> fst ` set xs. q < nx \<and> q \<noteq> p" for xs
    using that(1) by (rule stored_cong) (use that(2) w(4) in auto)
  have "stored (bt_file s') (inodes (cinn ctx p))" "stored (bt_file s') (inodes (concat (map (\<lambda>c. inn (snd c)) cs)))"
    using st [OF flat(7)] st [OF flat(8)] flat(9,10) by (force simp del: set_concat)+
  then have "stored (bt_file s') (inodes (cinn ctx p @ inn (GNode p cs)))" using w(3) by simp
  moreover have "mset (cinn ctx p @ inn (GNode p cs)) = mset (inn (fill ctx (GNode p cs)))" by (simp add: inn_fill)
  ultimately have inn: "stored (bt_file s') (inodes (inn (fill ctx (GNode p cs))))" using stored_mset by blast
  have root: "root_page meta = root_of (fill ctx (GNode p cs))" using m(2) by (simp add: root_of_fill)
  have "lbind (propagate x (map fst ((p, pre, h, post) # ctx)) k (root_of r) meta) (finish x) s = Some (Ok meta, s')"
    using flat(6) par(1) notfull w(1) by (simp add: lbind_assoc Let_def finish_def)
  moreover have "meta\<lparr>next_page := nx, root_page := root_of (fill ctx (GNode p cs)), height := height meta\<rparr> = meta"
    using m(1) root by (simp add: btree_meta.equality)
  ultimately show ?thesis using w inn by (simp add: up_post_def)
qed

lemma split_inner:
  assumes "cs = A @ (k', t') # B" and "length A = length cs div 2"
  shows "split_internal (mk_inner (ents cs))
    = Ok (mk_inner (ents A), mk_inner (ents (([], t') # B)), k', root_of t')"
  using assms by (simp add: split_internal_def Let_def mk_inner_def ents_take)

lemma up_split_law:
  assumes pre: "up_pre ((p, pre, h, post) # ctx) l k r nx (bt_file s)" and cs: "cs = pre @ (h, l) # (k, r) # post"
    "cs = A @ (k', t') # B" and A: "length A = length cs div 2" and big: "7892 < keys_size 6 (map fst cs)"
    and s: "bt_at nx (Suc (Suc c)) s" and m: "next_page meta = nx" and nx: "nx \<noteq> - 1" "0 < nx"
  obtains s' where "lbind (propagate x (map fst ((p, pre, h, post) # ctx)) k (root_of r) meta) F s
      = lbind (propagate x (map fst ctx) k' nx (meta\<lparr>next_page := nx + 1\<rparr>)) F s'"
    and "bt_at (nx + 1) c s'" and "up_pre ctx (GNode p A) k' (GNode nx (([], t') # B)) (nx + 1) (bt_file s')"
    and "\<And>q. q < nx \<Longrightarrow> q \<noteq> p \<Longrightarrow> read_node (bt_file s') q = read_node (bt_file s) q"
    and "read_meta (bt_file s') = read_meta (bt_file s)"
proof -
  note flat = up_pre_flat [OF pre cs(1)] and par = parent_of [OF pre cs(1)]
  have size: "encoded_size (mk_inner (ents cs)) \<le> 8192" using par(2) by (simp add: node_sizes)
  have full: "is_full (mk_inner (ents cs))" unfolding is_full_iff [OF size] using big by (simp add: node_sizes)
  have lt: "nx < nx + 1" using nx(1) by (rule word_less_succ)
  have le: "keys_size 6 (map fst A @ k' # map fst B) \<le> 8192" using par(2) by (simp add: cs(2))
  have sizes: "encoded_size (mk_inner (ents A)) \<le> 8192" "encoded_size (mk_inner (ents (([], t') # B))) \<le> 8192"
    using keys_size_mono [OF le] by (simp_all add: node_sizes)
  obtain s1 where s1: "next_free meta s = Some (Ok (nx, meta\<lparr>next_page := nx + 1\<rparr>), s1)" "bt_at (nx + 1) (Suc (Suc c)) s1"
    "\<And>q. q < nx \<Longrightarrow> read_node (bt_file s1) q = read_node (bt_file s) q" "read_meta (bt_file s1) = read_meta (bt_file s)"
    using next_free_law [OF s nx(1) m] nx(2) by metis
  have p: "p < nx + 1" "p \<noteq> nx" "nx \<noteq> 0" using flat(11) lt nx(2) by auto
  obtain s2 where s2: "write_node p (mk_inner (ents A)) x s1 = (Ok (), s2)" "bt_at (nx + 1) (Suc c) s2"
    "read_node (bt_file s2) p = Ok (mk_inner (ents A))"
    "\<And>q. q \<noteq> p \<Longrightarrow> q < nx + 1 \<Longrightarrow> read_node (bt_file s2) q = read_node (bt_file s1) q"
    "read_meta (bt_file s2) = read_meta (bt_file s1)"
    using write_node_law [OF s1(2) p(1) flat(12) _ sizes(1), of x] by (metis node_simps(8))
  obtain s3 where s3: "write_node nx (mk_inner (ents (([], t') # B))) x s2 = (Ok (), s3)" "bt_at (nx + 1) c s3"
    "read_node (bt_file s3) nx = Ok (mk_inner (ents (([], t') # B)))"
    "\<And>q. q \<noteq> nx \<Longrightarrow> q < nx + 1 \<Longrightarrow> read_node (bt_file s3) q = read_node (bt_file s2) q"
    "read_meta (bt_file s3) = read_meta (bt_file s2)"
    using write_node_law [OF s2(2) lt p(3) _ sizes(2), of x] by (metis node_simps(8))
  have same: "read_node (bt_file s3) q = read_node (bt_file s) q" if "q < nx" "q \<noteq> p" for q
    using s3(4) [of q] s2(4) [of q] s1(3) [of q] that less_trans [OF that(1) lt] by auto
  have P: "read_node (bt_file s3) p = Ok (mk_inner (ents A))" using s3(4) [OF p(2,1)] s2(3) by simp
  have "lbind (propagate x (map fst ((p, pre, h, post) # ctx)) k (root_of r) meta) F s
      = lbind (propagate x (map fst ctx) k' nx (meta\<lparr>next_page := nx + 1\<rparr>)) F s3"
    using flat(6) par(1) full split_inner [OF cs(2) A] s1(1) s2(1) s3(1) by (simp add: lbind_assoc Let_def)
  moreover have "up_pre ctx (GNode p A) k' (GNode nx (([], t') # B)) (nx + 1) (bt_file s3)"
    by (rule up_pre_split [OF pre cs A P s3(3) same lt p(3)])
  ultimately show ?thesis using that s3(2,5) s2(5) s1(4) same by simp
qed

theorem propagate_law:
  "up ctx l k r nx = (t, n, g) \<Longrightarrow> up_pre ctx l k r nx (bt_file s) \<Longrightarrow> bt_at nx (Suc (2 * length ctx + c)) s
    \<Longrightarrow> next_page meta = nx \<Longrightarrow> root_page meta = root_of (fill ctx l) \<Longrightarrow> 0 < nx \<Longrightarrow> unat nx + Suc (length ctx) < 2 ^ 32
    \<Longrightarrow> \<exists>meta' s'. lbind (propagate x (map fst ctx) k (root_of r) meta) (finish x) s = Some (Ok meta', s')
      \<and> up_post ctx l nx meta t n g c s meta' s'"
proof (induction arbitrary: s meta rule: up_induct)
  case (root l k r nx)
  have nx: "nx \<noteq> - 1" using root.prems(6) by (auto simp: unsigned_minus_1_eq_mask mask_eq_exp_minus_1)
  have "bt_at nx (Suc c) s" "root_page meta = root_of l" using root.prems(2,4) by simp_all
  from grow_root_law [OF this(1) root.prems(3) this(2) nx root.prems(5,1)] show ?case
    by (simp add: finish_def)
next
  case (fits p pre h post ctx l k r nx cs)
  have "bt_at nx (Suc c) s" using fits.prems(2) by (rule bt_at_mono) simp
  from up_fits_law [OF fits.prems(1) fits.hyps this fits.prems(3,4)] show ?case .
next
  case (split p pre h post ctx l k r nx cs A k' t' B t n g)
  let ?m = "meta\<lparr>next_page := nx + 1\<rparr>"
  have nx: "nx \<noteq> - 1" using split.prems(6) by (auto simp: unsigned_minus_1_eq_mask mask_eq_exp_minus_1)
  have lt: "nx < nx + 1" using nx by (rule word_less_succ)
  have "bt_at nx (Suc (Suc (Suc (2 * length ctx + c)))) s" using split.prems(2) by simp
  from up_split_law [OF split.prems(1) split.hyps(1,3,4,2) this split.prems(3) nx split.prems(5)]
  obtain s1 where s1: "lbind (propagate x (map fst ((p, pre, h, post) # ctx)) k (root_of r) meta) (finish x) s
      = lbind (propagate x (map fst ctx) k' nx ?m) (finish x) s1" "bt_at (nx + 1) (Suc (2 * length ctx + c)) s1"
    "up_pre ctx (GNode p A) k' (GNode nx (([], t') # B)) (nx + 1) (bt_file s1)"
    "\<And>q. q < nx \<Longrightarrow> q \<noteq> p \<Longrightarrow> read_node (bt_file s1) q = read_node (bt_file s) q"
    "read_meta (bt_file s1) = read_meta (bt_file s)"
    by metis
  have u: "unat (nx + 1) \<le> Suc (unat nx)" by (rule unat_succ_le)
  have "next_page ?m = nx + 1" "root_page ?m = root_of (fill ctx (GNode p A))" "0 < nx + 1"
    "unat (nx + 1) + Suc (length ctx) < 2 ^ 32"
    using split.prems(4,5,6) lt u by (auto simp: root_of_fill)
  from split.IH [OF s1(3,2) this] obtain meta' s' where IH:
    "lbind (propagate x (map fst ctx) k' nx ?m) (finish x) s1 = Some (Ok meta', s')"
    "up_post ctx (GNode p A) (nx + 1) ?m t n g c s1 meta' s'"
    by auto
  have "up_post ((p, pre, h, post) # ctx) l nx meta t (Suc n) g c s meta' s'"
    using IH(2) s1(4,5) lt by (auto simp: up_post_def ac_simps intro: less_trans)
  then show ?case using IH(1) s1(1) by auto
qed

end
