(* ===== verification/BTree_Index.thy ===== *)
theory BTree_Index
  imports BTree_Up
begin

text \<open>
  The index as a whole: the invariant that ties the file of an index to a balanced, ordered tree whose
  leaves are chained, and what insertion does to it.
\<close>

section \<open>Invariant\<close>

definition layout :: "gt \<Rightarrow> (u32 \<times> btree_node) list" where
  "layout t = inodes (inn t) @ chain 0 (leaves t) 0"

definition shape_ok :: "gt \<Rightarrow> u32 \<Rightarrow> bool" where
  "shape_ok t nx \<longleftrightarrow> tree_ok t \<and> ordered t \<and> distinct (map fst (inn t) @ map fst (leaves t))
     \<and> (\<forall>p \<in> set (map fst (inn t) @ map fst (leaves t)). p \<noteq> 0 \<and> p < nx)"

definition meta_of :: "gt \<Rightarrow> nat \<Rightarrow> u32 \<Rightarrow> btree_meta" where
  "meta_of t d nx = \<lparr>root_page = root_of t, height = of_nat d, num_entries = of_nat (length (contents t)), next_page = nx\<rparr>"

definition btree_inv :: "gt \<Rightarrow> nat \<Rightarrow> u32 \<Rightarrow> nat \<Rightarrow> btree \<Rightarrow> bool" where
  "btree_inv t d nx n s \<longleftrightarrow> shape_ok t nx \<and> balanced t d \<and> bt_at nx n s \<and> stored (bt_file s) (layout t)
     \<and> read_meta (bt_file s) = Ok (meta_of t d nx)"

lemma balanced_pos: "balanced t d \<Longrightarrow> 0 < d"
  by (cases t; cases d) simp_all

lemma ctx_of_leaf:
  assumes "balanced (fill ctx (GLeaf p es)) d"
  shows "d = Suc (length ctx)" and "ctx_balanced ctx 1"
proof -
  have deep: "\<not> balanced (fill ctx (GLeaf p es)) e" if "e \<le> length ctx" for e
    using that
  proof (induction ctx arbitrary: e rule: rev_induct)
    case (snoc f ctx)
    obtain q pre k post where "f = (q, pre, k, post)" by (cases f) auto
    then show ?case using snoc.IH [of "e - 1"] snoc.prems by (cases e) (auto simp: fill_append)
  qed (simp add: le_Suc_eq)
  then have "length ctx < d" using assms by (metis not_le)
  then obtain e where e: "d = length ctx + Suc e" using less_iff_Suc_add by auto
  have "ctx_balanced ctx (Suc e)" "balanced (GLeaf p es) (Suc e)" using assms by (simp_all only: e balanced_fill)
  then show "d = Suc (length ctx)" "ctx_balanced ctx 1" using e by simp_all
qed

text \<open>The leaf a key belongs to, with the chain around it.\<close>

lemma locate:
  assumes inv: "btree_inv t d nx n s"
  obtains ctx p es where "t = fill ctx (GLeaf p es)" and "d = Suc (length ctx)"
    and "descend (bt_file s) key (root_of t) = Some (Ok (rev (map fst ctx) @ [p]))"
    and "read_node (bt_file s) p = Ok (mk_leaf (last_page 0 (lleaves ctx)) (first_page (rleaves ctx) 0) es)"
    and "\<forall>x \<in> set (ltokens ctx). x < (key, True)" and "\<forall>x \<in> set (rtokens ctx). (key, True) < x"
proof -
  have ok: "tree_ok t" "sorted_wrt (<) (tokens t)" and st: "stored (bt_file s) (inodes (inn t))" "stored (bt_file s) (chain 0 (leaves t) 0)"
    using inv by (auto simp: btree_inv_def shape_ok_def ordered_def layout_def)
  have "\<exists>n. read_node f (fst x) = Ok n \<and> node_type n = Leaf" if "x \<in> set xs" "stored f (chain l xs r)" for x xs l r f
    using that by (induction xs arbitrary: l) auto
  then have "\<forall>x \<in> set (leaves t). \<exists>n. read_node (bt_file s) (fst x) = Ok n \<and> node_type n = Leaf" using st(2) by blast
  from descend_law [OF st(1) this ok, of key] obtain ctx p es where c: "t = fill ctx (GLeaf p es)"
    "descend (bt_file s) key (root_of t) = Some (Ok (rev (map fst ctx) @ [p]))"
    "\<forall>x \<in> set (ltokens ctx). x < (key, True)" "\<forall>x \<in> set (rtokens ctx). (key, True) < x"
    by blast
  have "read_node (bt_file s) p = Ok (mk_leaf (last_page 0 (lleaves ctx)) (first_page (rleaves ctx) 0) es)"
    using st(2) by (simp add: c(1) leaves_fill chain_append)
  moreover have "d = Suc (length ctx)" using inv ctx_of_leaf(1) [of ctx p es d] by (simp add: btree_inv_def c(1))
  ultimately show ?thesis using that c by blast
qed

lemma first_leaf:
  assumes st: "stored f (inodes (inn t))" "stored f (chain l (leaves t) r)" and ok: "tree_ok t"
  shows "\<exists>es xs. leaves t = es # xs \<and> leftmost f (root_of t) = Some (Ok (fst es))"
  using assms
proof (induction t arbitrary: r)
  case (GLeaf p es)
  then show ?case by (auto simp: leftmost.simps [of f p])
next
  case (GNode p cs)
  obtain t0 cs' where cs: "cs = ([], t0) # cs'" using GNode.prems(3) by (cases cs) (auto simp: inner_ok_def)
  have "stored f (inodes (inn t0))" "stored f (chain l (leaves t0) (first_page (leaves (GNode p cs')) r))" "tree_ok t0"
    using GNode.prems by (simp_all add: cs chain_append)
  then have "\<exists>es xs. leaves t0 = es # xs \<and> leftmost f (root_of t0) = Some (Ok (fst es))"
    by (rule GNode.IH [of "([], t0)", rotated 2]) (simp_all add: cs)
  then obtain es xs where "leaves t0 = es # xs" "leftmost f (root_of t0) = Some (Ok (fst es))" by blast
  moreover have "read_node f p = Ok (mk_inner (ents cs))" using GNode.prems(1) by simp
  ultimately show ?case by (simp add: cs leftmost.simps [of f p])
qed

section \<open>Keys\<close>

definition put :: "leaf_entry \<Rightarrow> leaf_entry list \<Rightarrow> leaf_entry list" where
  "put e es = takeWhile (\<lambda>x. le_key x < le_key e) es @ e # dropWhile (\<lambda>x. le_key x < le_key e) es"

lemma set_put: "set (put e es) = insert e (set es)"
  using set_append [of "takeWhile (\<lambda>x. le_key x < le_key e) es" "dropWhile (\<lambda>x. le_key x < le_key e) es"] by (simp add: put_def)

lemma length_put [simp]: "length (put e es) = Suc (length es)"
  using length_append [of "takeWhile (\<lambda>x. le_key x < le_key e) es" "dropWhile (\<lambda>x. le_key x < le_key e) es"] by (simp add: put_def)

lemma put_size: "keys_size 8 (map le_key (put e es)) = 8 + length (le_key e) + keys_size 8 (map le_key es)"
proof -
  let ?t = "takeWhile (\<lambda>x. le_key x < le_key e) es" and ?d = "dropWhile (\<lambda>x. le_key x < le_key e) es"
  have "keys_size 8 (map le_key (?t @ ?d)) + 11 = keys_size 8 (map le_key ?t) + keys_size 8 (map le_key ?d)"
    unfolding map_append by (rule keys_size_append)
  moreover have "keys_size 8 (map le_key (put e es)) + 11 = keys_size 8 (map le_key ?t) + keys_size 8 (map le_key (e # ?d))"
    unfolding put_def map_append by (rule keys_size_append)
  ultimately show ?thesis by simp
qed

lemma insert_leaf: "insert_leaf_entry e (mk_leaf l r es) = mk_leaf l r (put e es)"
  by (simp add: insert_leaf_entry_def vec_insert_partition put_def mk_leaf_def)

lemma put_mid:
  assumes "\<forall>x \<in> set L. le_key x < le_key e" and "\<forall>x \<in> set R. le_key e < le_key x"
  shows "put e (L @ es @ R) = L @ put e es @ R"
proof -
  have R: "takeWhile (\<lambda>x. le_key x < le_key e) R = []" "dropWhile (\<lambda>x. le_key x < le_key e) R = R" using assms(2) by (cases R; auto)+
  show ?thesis
    using assms(1) R by (cases "\<forall>x \<in> set es. le_key x < le_key e")
      (auto simp: put_def takeWhile_append dropWhile_append simp flip: takeWhile_eq_all_conv)
qed

lemma after:
  assumes "sorted_wrt (<) (map le_key es)" and "key \<notin> le_key ` set es" and "x \<in> set (dropWhile (\<lambda>x. le_key x < key) es)"
  shows "key < le_key x"
  using assms
proof (induction es)
  case (Cons y es)
  then show ?case by (cases "le_key y < key") (auto simp: not_less order_le_less)
qed simp

lemma sorted_put:
  assumes ord: "sorted_wrt (<) (L @ map (\<lambda>x. (le_key x, True)) es @ R)" and new: "le_key e \<notin> le_key ` set es"
    and L: "\<forall>x \<in> set L. x < (le_key e, True)" and R: "\<forall>x \<in> set R. (le_key e, True) < x"
  shows "sorted_wrt (<) (L @ map (\<lambda>x. (le_key x, True)) (put e es) @ R)"
proof -
  let ?f = "\<lambda>x. (le_key x, True)" and ?P = "\<lambda>x. le_key x < le_key e"
  have es: "map ?f es = map ?f (takeWhile ?P es) @ map ?f (dropWhile ?P es)" by (simp flip: map_append)
  have keys: "sorted_wrt (<) (map le_key es)" using ord by (simp add: sorted_wrt_append sorted_wrt_map)
  from after [OF keys new] show ?thesis
    using ord L R unfolding es put_def by (auto simp: sorted_wrt_append dest: set_takeWhileD)
qed

section \<open>A new entry in its leaf\<close>

lemma inn_fill_cong: "root_of a = root_of b \<Longrightarrow> inn a = inn b \<Longrightarrow> inn (fill ctx a) = inn (fill ctx b)"
proof (induction ctx arbitrary: a b)
  case (Cons f ctx)
  obtain q pre k post where "f = (q, pre, k, post)" by (cases f) auto
  then show ?case using Cons.IH [of "GNode q (pre @ (k, a) # post)" "GNode q (pre @ (k, b) # post)"] Cons.prems by simp
qed simp

lemma leaves_ok: "tree_ok t \<Longrightarrow> x \<in> set (leaves t) \<Longrightarrow> leaf_ok (snd x)"
  by (induction t) force+

lemma side_bounds:
  assumes "\<forall>x \<in> set (ltokens ctx). x < (key, True)" and "\<forall>x \<in> set (rtokens ctx). (key, True) < x"
  shows "\<forall>x \<in> set (concat (map snd (lleaves ctx))). le_key x < key" and "\<forall>x \<in> set (concat (map snd (rleaves ctx))). key < le_key x"
proof -
  have tok: "(le_key x, True) \<in> set ts" if "map fst (filter snd ts) = map le_key xs" "x \<in> set xs" for x xs and ts :: "(key \<times> bool) list"
  proof -
    have "le_key x \<in> set (map fst (filter snd ts))" using that by simp
    then show ?thesis by auto
  qed
  show "\<forall>x \<in> set (concat (map snd (lleaves ctx))). le_key x < key" using tok [OF side_keys(1)] assms(1) by fastforce
  show "\<forall>x \<in> set (concat (map snd (rleaves ctx))). key < le_key x" using tok [OF side_keys(2)] assms(2) by fastforce
qed

text \<open>The state in which a new key is put into the leaf it belongs to.\<close>

definition put_at :: "frame list \<Rightarrow> u32 \<Rightarrow> leaf_entry list \<Rightarrow> leaf_entry \<Rightarrow> u32 \<Rightarrow> bool" where
  "put_at ctx p es e nx \<longleftrightarrow> shape_ok (fill ctx (GLeaf p es)) nx \<and> le_key e \<notin> le_key ` set es \<and> length (le_key e) \<le> MAX_KEY
     \<and> (\<forall>x \<in> set (ltokens ctx). x < (le_key e, True)) \<and> (\<forall>x \<in> set (rtokens ctx). (le_key e, True) < x)"

lemma put_at_laws:
  assumes "put_at ctx p es e nx"
  shows "sorted_wrt (<) (([], False) # ltokens ctx @ map (\<lambda>x. (le_key x, True)) (put e es) @ rtokens ctx)"
    and "keys_size 8 (map le_key (put e es)) \<le> 8028" and "\<forall>x \<in> set (put e es). length (le_key x) \<le> MAX_KEY"
    and "put e (contents (fill ctx (GLeaf p es))) = contents (fill ctx (GLeaf p (put e es)))"
proof -
  note a = assms [unfolded put_at_def shape_ok_def ordered_def tokens_fill tree_ok_fill]
  have nil: "([], False) < (le_key e, True)" by (cases "le_key e") auto
  have "sorted_wrt (<) ((([], False) # ltokens ctx) @ map (\<lambda>x. (le_key x, True)) es @ rtokens ctx)" using a by simp
  then have "sorted_wrt (<) ((([], False) # ltokens ctx) @ map (\<lambda>x. (le_key x, True)) (put e es) @ rtokens ctx)"
    by (rule sorted_put) (use a nil in auto)
  then show "sorted_wrt (<) (([], False) # ltokens ctx @ map (\<lambda>x. (le_key x, True)) (put e es) @ rtokens ctx)" by simp
  show "keys_size 8 (map le_key (put e es)) \<le> 8028" using a by (simp add: put_size leaf_ok_def)
  show "\<forall>x \<in> set (put e es). length (le_key x) \<le> MAX_KEY" using a by (simp add: set_put leaf_ok_def)
  show "put e (contents (fill ctx (GLeaf p es))) = contents (fill ctx (GLeaf p (put e es)))"
    unfolding contents_fill contents_simps by (rule put_mid) (use side_bounds [of ctx "le_key e"] a in blast)+
qed

text \<open>A leaf is rewritten in place and the metadata follows; nothing else of the file changes.\<close>

lemma rewrite_leaf:
  assumes inv: "btree_inv (fill ctx (GLeaf p es)) d nx (Suc n) s" and shape: "shape_ok (fill ctx (GLeaf p es')) nx"
  shows "\<exists>s'. sbind (write_node p (mk_leaf (last_page 0 (lleaves ctx)) (first_page (rleaves ctx) 0) es') x)
      (\<lambda>_. write_meta (meta_of (fill ctx (GLeaf p es')) d nx)) s = (Ok (), s')
    \<and> btree_inv (fill ctx (GLeaf p es')) d nx n s'"
proof -
  let ?t = "fill ctx (GLeaf p es)" and ?t' = "fill ctx (GLeaf p es')"
  let ?nd = "mk_leaf (last_page 0 (lleaves ctx)) (first_page (rleaves ctx) 0) es'"
  have inn: "inn ?t' = inn ?t" by (rule inn_fill_cong) simp_all
  have size: "encoded_size ?nd \<le> 8192" using shape by (simp add: node_sizes shape_ok_def tree_ok_fill leaf_ok_def)
  have pp: "p < nx" "p \<noteq> 0"
    "\<forall>q \<in> fst ` set (inn ?t) \<union> fst ` set (lleaves ctx) \<union> fst ` set (rleaves ctx). q \<noteq> 0 \<and> q < nx \<and> q \<noteq> p"
    using shape by (auto simp: shape_ok_def leaves_fill inn)
  have s: "bt_at nx (Suc n) s" using inv by (simp add: btree_inv_def)
  obtain s1 where w: "write_node p ?nd x s = (Ok (), s1)" "bt_at nx n s1" "read_node (bt_file s1) p = Ok ?nd"
    "\<And>q. q \<noteq> p \<Longrightarrow> q < nx \<Longrightarrow> read_node (bt_file s1) q = read_node (bt_file s) q"
    using write_node_law [OF s pp(1,2) _ size, of x] by (metis node_simps(7))
  have "0 < nx" using pp(1) by (metis word_neq_0_conv word_not_simps(1))
  then obtain s2 where m: "write_meta (meta_of ?t' d nx) s1 = (Ok (), s2)" "bt_at nx n s2" "read_meta (bt_file s2) = Ok (meta_of ?t' d nx)"
    "\<And>q. q \<noteq> 0 \<Longrightarrow> q < nx \<Longrightarrow> read_node (bt_file s2) q = read_node (bt_file s1) q"
    using write_meta_law [OF w(2)] by metis
  have same: "stored (bt_file s2) xs" if "stored (bt_file s) xs" "\<forall>q \<in> fst ` set xs. q \<noteq> 0 \<and> q < nx \<and> q \<noteq> p" for xs
    using that(1) by (rule stored_cong) (use that(2) m(4) w(4) in auto)
  have st: "stored (bt_file s) (inodes (inn ?t))" "stored (bt_file s) (chain 0 (lleaves ctx) p)" "stored (bt_file s) (chain p (rleaves ctx) 0)"
    using inv by (simp_all add: btree_inv_def layout_def leaves_fill chain_append)
  then have "stored (bt_file s2) (inodes (inn ?t))" "stored (bt_file s2) (chain 0 (lleaves ctx) p)" "stored (bt_file s2) (chain p (rleaves ctx) 0)"
    using same [OF st(1)] same [OF st(2)] same [OF st(3)] pp(3) by auto
  then have "stored (bt_file s2) (layout ?t')"
    using w(3) m(4) [OF pp(2,1)] by (simp add: layout_def inn leaves_fill chain_append)
  moreover have "balanced ?t' d"
    using inv ctx_of_leaf [of ctx p es d] balanced_fill [of ctx "GLeaf p es'" 1] by (simp add: btree_inv_def)
  ultimately show ?thesis using shape w(1) m by (simp add: btree_inv_def)
qed

lemma put_shape:
  assumes p: "put_at ctx p es e nx" and fits: "keys_size 8 (map le_key (put e es)) \<le> 7892"
  shows "shape_ok (fill ctx (GLeaf p (put e es))) nx"
proof -
  let ?t = "fill ctx (GLeaf p es)" and ?t' = "fill ctx (GLeaf p (put e es))"
  have inn: "inn ?t' = inn ?t" by (rule inn_fill_cong) simp_all
  have pages: "map fst (leaves ?t') = map fst (leaves ?t)" by (simp add: leaves_fill)
  show ?thesis
    using p put_at_laws(1,3) [OF p] fits unfolding shape_ok_def pages inn
    by (simp add: put_at_def shape_ok_def tree_ok_fill ordered_def tokens_fill leaf_ok_def)
qed

section \<open>A leaf is split\<close>

lemma fix_old_right_law:
  assumes s: "bt_at nx (Suc n) s" and ys: "stored (bt_file s) (chain p ys 0)" "distinct (map fst ys)"
    "\<forall>y \<in> set ys. fst y \<noteq> 0 \<and> fst y < nx \<and> leaf_ok (snd y)"
  obtains s' where "fix_old_right x (first_page ys 0) q s = (Ok (), s')" and "bt_at nx n s'" and "stored (bt_file s') (chain q ys 0)"
    and "\<And>r. r < nx \<Longrightarrow> r \<notin> fst ` set ys \<Longrightarrow> read_node (bt_file s') r = read_node (bt_file s) r"
    and "read_meta (bt_file s') = read_meta (bt_file s)"
proof (cases ys)
  case Nil
  have "bt_at nx n s" using s by (rule bt_at_mono) simp
  moreover have "fix_old_right x (first_page ys 0) q s = (Ok (), s)" by (simp add: Nil fix_old_right_def)
  ultimately show ?thesis using that [of s] Nil by simp
next
  case (Cons y zs)
  let ?nd = "mk_leaf q (first_page zs 0) (snd y)"
  have y: "fst y < nx" "fst y \<noteq> 0" "leaf_ok (snd y)" using ys(3) Cons by auto
  have rd: "read_node (bt_file s) (fst y) = Ok (mk_leaf p (first_page zs 0) (snd y))" using ys(1) Cons by simp
  have size: "encoded_size ?nd \<le> 8192" using y(3) by (simp add: node_sizes leaf_ok_def)
  obtain s' where w: "write_node (fst y) ?nd x s = (Ok (), s')" "bt_at nx n s'" "read_node (bt_file s') (fst y) = Ok ?nd"
    "\<And>r. r \<noteq> fst y \<Longrightarrow> r < nx \<Longrightarrow> read_node (bt_file s') r = read_node (bt_file s) r"
    "read_meta (bt_file s') = read_meta (bt_file s)"
    using write_node_law [OF s y(1,2) _ size, of x] by (metis node_simps(7))
  have "\<forall>r \<in> fst ` set zs. r \<noteq> fst y \<and> r < nx" using ys(2,3) unfolding Cons by simp (metis image_eqI)
  then have "\<forall>r \<in> fst ` set (chain (fst y) zs 0). read_node (bt_file s') r = read_node (bt_file s) r" using w(4) by simp
  moreover have "stored (bt_file s) (chain (fst y) zs 0)" using ys(1) Cons by simp
  ultimately have "stored (bt_file s') (chain (fst y) zs 0)" using stored_cong by blast
  moreover have "(mk_leaf p (first_page zs 0) (snd y))\<lparr>left_sibling := q\<rparr> = ?nd" by (simp add: mk_leaf_def)
  then have "fix_old_right x (first_page ys 0) q s = (Ok (), s')" using rd w(1) y(2) by (simp add: Cons fix_old_right_def)
  ultimately show ?thesis using that w Cons by auto
qed

lemma split_leaf_eq:
  assumes "es = A @ b # B" and "length A = length es div 2"
  shows "split_leaf (mk_leaf l r es) = Ok (mk_leaf l r A, mk_leaf 0 r (b # B), le_key b)"
  using assms by (simp add: split_leaf_def Let_def mk_leaf_def)

lemma write_leaf_law:
  assumes s: "bt_at nx (Suc n) s" and p: "p < nx" "p \<noteq> 0" and es: "keys_size 8 (map le_key es) \<le> 7892"
  obtains s' where "write_node p (mk_leaf l r es) x s = (Ok (), s')" and "bt_at nx n s'"
    and "read_node (bt_file s') p = Ok (mk_leaf l r es)"
    and "\<And>q. q \<noteq> p \<Longrightarrow> q < nx \<Longrightarrow> read_node (bt_file s') q = read_node (bt_file s) q"
    and "read_meta (bt_file s') = read_meta (bt_file s)"
proof -
  have "encoded_size (mk_leaf l r es) \<le> 8192" using es by (simp add: node_sizes)
  then show ?thesis using that write_node_law [OF s p node_simps(7), of l r es x] by metis
qed

text \<open>The three leaf writes of a split: the old right neighbour, the left half and the right half.\<close>

lemma leaf_split_law:
  assumes s: "bt_at nx (Suc (Suc (Suc n))) s" and m: "next_page meta = nx" and nx: "nx \<noteq> - 1"
    and es: "es = A @ b # B" "length A = length es div 2" "keys_size 8 (map le_key A) \<le> 7892" "keys_size 8 (map le_key (b # B)) \<le> 7892"
    and p: "p < nx" "p \<noteq> 0" and st: "stored (bt_file s) (chain l ls p)" "stored (bt_file s) (chain p rs 0)"
    and pg: "distinct (map fst ls @ p # map fst rs)" "\<forall>q \<in> fst ` set ls \<union> fst ` set rs. q \<noteq> 0 \<and> q < nx"
    and ok: "\<forall>y \<in> set rs. leaf_ok (snd y)" and path: "path = rev (map fst ctx) @ [p]"
  obtains s' where "insert_split x path (mk_leaf (last_page l ls) (first_page rs 0) es) meta s
      = lbind (lbind (propagate x (map fst ctx) (le_key b) nx (meta\<lparr>next_page := nx + 1\<rparr>)) (finish x)) (\<lambda>m. ltotal (write_meta m)) s'"
    and "bt_at (nx + 1) n s'" and "stored (bt_file s') (chain l (ls @ (p, A) # (nx, b # B) # rs) 0)"
    and "\<And>q. q < nx \<Longrightarrow> q \<noteq> p \<Longrightarrow> q \<notin> fst ` set rs \<Longrightarrow> read_node (bt_file s') q = read_node (bt_file s) q"
    and "read_meta (bt_file s') = read_meta (bt_file s)"
proof -
  let ?L = "last_page l ls" and ?R = "first_page rs 0"
  have lt: "nx < nx + 1" using nx by (rule word_less_succ)
  have "0 < nx" using p(1) by (metis word_neq_0_conv word_not_simps(1))
  then have nx0: "nx \<noteq> 0" by simp
  obtain s1 where s1: "next_free meta s = Some (Ok (nx, meta\<lparr>next_page := nx + 1\<rparr>), s1)" "bt_at (nx + 1) (Suc (Suc (Suc n))) s1"
    "\<And>q. q < nx \<Longrightarrow> read_node (bt_file s1) q = read_node (bt_file s) q" "read_meta (bt_file s1) = read_meta (bt_file s)"
    using next_free_law [OF s nx m] \<open>0 < nx\<close> by metis
  have rs: "stored (bt_file s1) (chain p rs 0)" using st(2) by (rule stored_cong) (use s1(3) pg(2) in auto)
  have rs': "distinct (map fst rs)" "\<forall>y \<in> set rs. fst y \<noteq> 0 \<and> fst y < nx + 1 \<and> leaf_ok (snd y)"
    using pg ok lt by (auto intro: less_trans)
  obtain s2 where s2: "fix_old_right x ?R nx s1 = (Ok (), s2)" "bt_at (nx + 1) (Suc (Suc n)) s2" "stored (bt_file s2) (chain nx rs 0)"
    "\<And>r. r < nx + 1 \<Longrightarrow> r \<notin> fst ` set rs \<Longrightarrow> read_node (bt_file s2) r = read_node (bt_file s1) r"
    "read_meta (bt_file s2) = read_meta (bt_file s1)"
    using fix_old_right_law [OF s1(2) rs rs', of x nx] by metis
  have p': "p < nx + 1" using p(1) lt by (rule less_trans)
  obtain s3 where s3: "write_node p (mk_leaf ?L nx A) x s2 = (Ok (), s3)" "bt_at (nx + 1) (Suc n) s3"
    "read_node (bt_file s3) p = Ok (mk_leaf ?L nx A)"
    "\<And>q. q \<noteq> p \<Longrightarrow> q < nx + 1 \<Longrightarrow> read_node (bt_file s3) q = read_node (bt_file s2) q"
    "read_meta (bt_file s3) = read_meta (bt_file s2)"
    using write_leaf_law [OF s2(2) p' p(2) es(3), of ?L nx x] by metis
  obtain s4 where s4: "write_node nx (mk_leaf p ?R (b # B)) x s3 = (Ok (), s4)" "bt_at (nx + 1) n s4"
    "read_node (bt_file s4) nx = Ok (mk_leaf p ?R (b # B))"
    "\<And>q. q \<noteq> nx \<Longrightarrow> q < nx + 1 \<Longrightarrow> read_node (bt_file s4) q = read_node (bt_file s3) q"
    "read_meta (bt_file s4) = read_meta (bt_file s3)"
    using write_leaf_law [OF s3(2) lt nx0 es(4), of p ?R x] by metis
  have old: "read_node (bt_file s4) q = read_node (bt_file s2) q" if "q < nx" "q \<noteq> p" for q
    using s4(4) [of q] s3(4) [of q] that less_trans [OF that(1) lt] by auto
  have same: "read_node (bt_file s4) q = read_node (bt_file s) q" if "q < nx" "q \<noteq> p" "q \<notin> fst ` set rs" for q
    using old [OF that(1,2)] s2(4) [of q] s1(3) [of q] that less_trans [OF that(1) lt] by auto
  have "stored (bt_file s4) (chain nx rs 0)" using s2(3) by (rule stored_cong) (use old pg in auto)
  moreover have "\<forall>q \<in> fst ` set ls. q < nx \<and> q \<noteq> p \<and> q \<notin> fst ` set rs" using pg by auto
  then have "\<forall>q \<in> fst ` set (chain l ls p). read_node (bt_file s4) q = read_node (bt_file s) q" using same by simp
  then have "stored (bt_file s4) (chain l ls p)" using st(1) stored_cong by blast
  moreover have "read_node (bt_file s4) p = Ok (mk_leaf ?L nx A)" using s4(4) [of p] s3(3) p(1) p' by auto
  ultimately have "stored (bt_file s4) (chain l (ls @ (p, A) # (nx, b # B) # rs) 0)"
    using s4(3) by (simp add: chain_append)
  moreover have sibs: "(mk_leaf 0 ?R (b # B))\<lparr>left_sibling := p, right_sibling := ?R\<rparr> = mk_leaf p ?R (b # B)"
    "(mk_leaf ?L ?R A)\<lparr>right_sibling := nx\<rparr> = mk_leaf ?L nx A" by (simp_all add: mk_leaf_def)
  have "(\<lambda>(up, meta). lbind (case up of None \<Rightarrow> ltotal (sret meta) | Some (key, right) \<Rightarrow> grow_root x key right meta)
      (\<lambda>meta. ltotal (write_meta meta))) = (\<lambda>um. lbind (finish x um) (\<lambda>m. ltotal (write_meta m)))"
    by (auto simp: fun_eq_iff finish_def split: option.splits)
  then have "insert_split x path (mk_leaf ?L ?R es) meta s
      = lbind (lbind (propagate x (map fst ctx) (le_key b) nx (meta\<lparr>next_page := nx + 1\<rparr>)) (finish x)) (\<lambda>m. ltotal (write_meta m)) s4"
    using split_leaf_eq [OF es(1,2), of ?L ?R] s1(1) s2(1) s3(1) s4(1) sibs
    by (simp add: insert_split_def path lbind_assoc Let_def)
  ultimately show ?thesis using that s4(2,5) s3(5) s2(5) s1(4) same by simp
qed

lemma fresh_unat:
  assumes "unat (a :: u32) + i < 2 ^ 32"
  shows "unat (a + of_nat i) = unat a + i"
proof -
  have "i < 2 ^ 32" using assms by linarith
  then have "unat (of_nat i :: u32) = i" by (simp add: unsigned_of_nat take_bit_nat_eq_self)
  then have "unat (a + of_nat i) = (unat a + i) mod 2 ^ 32" by (simp add: unat_word_ariths(1))
  then show ?thesis using assms by (simp only: mod_less)
qed

lemma fresh_pages:
  assumes "unat (a :: u32) + n < 2 ^ 32"
  shows "distinct (map (\<lambda>i. a + of_nat i) [0..<n])" and "\<forall>q \<in> set (map (\<lambda>i. a + of_nat i) [0..<n]). a \<le> q \<and> q < a + of_nat n"
    and "a \<le> a + of_nat n"
proof -
  have u: "unat (a + of_nat i) = unat a + i" if "i \<le> n" for i by (rule fresh_unat) (use that assms in linarith)
  have "inj_on (\<lambda>i. a + of_nat i :: u32) {0..<n}" 
  proof (rule inj_onI)
    fix i j assume ij: "i \<in> {0..<n}" "j \<in> {0..<n}" and eq: "a + of_nat i = a + of_nat j"
    have "unat a + i = unat a + j" using arg_cong [OF eq, of unat] u [of i] u [of j] ij by (metis atLeastLessThan_iff order_less_imp_le)
    then show "i = j" by (rule add_left_imp_eq)
  qed
  then show "distinct (map (\<lambda>i. a + of_nat i) [0..<n])" by (simp add: distinct_map)
  show "\<forall>q \<in> set (map (\<lambda>i. a + of_nat i) [0..<n]). a \<le> q \<and> q < a + of_nat n"
    using u by (simp add: word_le_nat_alt word_less_nat_alt)
  show "a \<le> a + of_nat n" using u [of n] by (simp add: word_le_nat_alt)
qed

lemma ctx_pages: "set (map fst ctx) \<subseteq> fst ` set (cinn ctx r)"
  by (induction ctx r rule: cinn.induct) (auto simp: image_Un)

lemma cinn_leaf: "set (map fst (inn (fill ctx (GLeaf p es)))) = fst ` set (cinn ctx p)"
  "distinct (map fst (inn (fill ctx (GLeaf p es)))) \<longleftrightarrow> distinct (map fst (cinn ctx p))"
proof -
  have eq: "mset (map fst (inn (fill ctx (GLeaf p es)))) = mset (map fst (cinn ctx p))"
    by (simp only: mset_map inn_fill root_of.simps inn.simps(1) mset.simps(1) add_0_right)
  from mset_eq_setD [OF eq] show "set (map fst (inn (fill ctx (GLeaf p es)))) = fst ` set (cinn ctx p)" by simp
  from mset_eq_imp_distinct_iff [OF eq]
  show "distinct (map fst (inn (fill ctx (GLeaf p es)))) \<longleftrightarrow> distinct (map fst (cinn ctx p))" .
qed

text \<open>A leaf with the new entry that is cut in two.\<close>

lemma between: "sorted_wrt (<) (X @ a # b # Y) \<Longrightarrow> a < s \<Longrightarrow> s < b \<Longrightarrow> sorted_wrt (<) (X @ a # s # b # Y)" for s :: "'a::order"
  by (auto simp: sorted_wrt_append intro: less_trans)

lemma cut_leaf:
  assumes p: "put_at ctx p es e nx" and big: "7892 < keys_size 8 (map le_key (put e es))"
  obtains A b B where "put e es = A @ b # B" and "length A = length (put e es) div 2"
    and "leaf_ok A" and "leaf_ok (b # B)" and "le_key b \<noteq> []" and "length (le_key b) \<le> MAX_KEY"
    and "sorted_wrt (<) (([], False) # ltokens ctx @ tokens (GLeaf p A) @ (le_key b, False) # tokens (GLeaf nx (b # B)) @ rtokens ctx)"
proof -
  note put = put_at_laws [OF p]
  let ?f = "\<lambda>x. (le_key x, True)" and ?m = "length (put e es) div 2"
  define A C where "A = take ?m (put e es)" and "C = drop ?m (put e es)"
  have AC: "put e es = A @ C" and len: "length A = ?m" by (simp_all add: A_def C_def)
  have "\<forall>k \<in> set (map le_key A @ map le_key C). length k \<le> MAX_KEY" using put(3) by (auto simp: AC)
  moreover have "7892 < keys_size 8 (map le_key A @ map le_key C)" "keys_size 8 (map le_key A @ map le_key C) \<le> 8028"
    "length (map le_key A) = length (map le_key A @ map le_key C) div 2"
    using put(2) big len unfolding AC by simp_all
  ultimately have "keys_size 8 (map le_key A) \<le> 7892" "keys_size 8 (map le_key C) \<le> 7892" "map le_key A \<noteq> []" "map le_key C \<noteq> []"
    using halves_fit [of 8 "map le_key A" "map le_key C"] by simp_all
  then obtain b B where C: "C = b # B" and sizes: "leaf_ok A" "leaf_ok (b # B)" and "A \<noteq> []"
    using put(3) by (cases C) (auto simp: AC leaf_ok_def)
  then obtain A' a where A: "A = A' @ [a]" by (metis rev_exhaust)
  have ord: "sorted_wrt (<) ((([], False) # ltokens ctx @ map ?f A') @ ?f a # ?f b # map ?f B @ rtokens ctx)"
    using put(1) by (simp add: AC A C)
  have ab: "le_key a < le_key b" using ord by (simp add: sorted_wrt_append)
  then have k: "le_key b \<noteq> []" by (cases "le_key b") auto
  have "sorted_wrt (<) ((([], False) # ltokens ctx @ map ?f A') @ ?f a # (le_key b, False) # ?f b # map ?f B @ rtokens ctx)"
    by (rule between [OF ord]) (use ab in simp_all)
  then show ?thesis using that [of A b B] AC C len sizes k put(3) by (simp add: A)
qed

lemma split_shape:
  assumes p: "put_at ctx p es e nx" and es: "put e es = A @ b # B" "leaf_ok A" "leaf_ok (b # B)" "le_key b \<noteq> []" "length (le_key b) \<le> MAX_KEY"
    and ord: "sorted_wrt (<) (([], False) # ltokens ctx @ tokens (GLeaf p A) @ (le_key b, False) # tokens (GLeaf nx (b # B)) @ rtokens ctx)"
    and u: "up ctx (GLeaf p A) (le_key b) (GLeaf nx (b # B)) (nx + 1) = (t, n, g)" and room: "unat nx + length ctx + 3 < 2 ^ 32"
  shows "shape_ok t (nx + 1 + of_nat n)" and "contents t = put e (contents (fill ctx (GLeaf p es)))"
proof -
  have n: "n \<le> Suc (length ctx)" using u by (rule up_count)
  have nx: "nx \<noteq> - 1" using room by (auto simp: unsigned_minus_1_eq_mask mask_eq_exp_minus_1)
  have lt: "nx < nx + 1" using nx by (rule word_less_succ)
  have "unat (nx + 1) + n < 2 ^ 32" using room n unat_succ_le [of nx] by linarith
  note fresh = fresh_pages [OF this]
  note sh = p [unfolded put_at_def shape_ok_def tree_ok_fill]
  have ok: "ctx_ok ctx" using sh by simp
  have inn: "set (map fst (inn t)) = fst ` set (cinn ctx p) \<union> set (map (\<lambda>i. nx + 1 + of_nat i) [0..<n])"
    "distinct (map fst (inn t)) \<longleftrightarrow> distinct (map fst (cinn ctx p) @ map (\<lambda>i. nx + 1 + of_nat i) [0..<n])"
  proof -
    have eq: "mset (map fst (inn t)) = mset (map fst (cinn ctx p) @ map (\<lambda>i. nx + 1 + of_nat i) [0..<n])"
      using up_pages [OF u, of p] by simp
    from mset_eq_setD [OF eq] mset_eq_imp_distinct_iff [OF eq]
    show "set (map fst (inn t)) = fst ` set (cinn ctx p) \<union> set (map (\<lambda>i. nx + 1 + of_nat i) [0..<n])"
      "distinct (map fst (inn t)) \<longleftrightarrow> distinct (map fst (cinn ctx p) @ map (\<lambda>i. nx + 1 + of_nat i) [0..<n])" by simp_all
  qed
  define I L where "I = map fst (cinn ctx p)" and "L = map fst (lleaves ctx) @ p # map fst (rleaves ctx)"
  define N where "N = map (\<lambda>i. nx + 1 + of_nat i) [0..<n]"
  have old: "distinct (I @ L)" "\<forall>q \<in> set I \<union> set L. q \<noteq> 0 \<and> q < nx" "p \<in> set L"
    using sh cinn_leaf [of ctx p es] unfolding leaves_fill I_def L_def by auto
  have lv: "set (map fst (leaves t)) = insert nx (set L)" "distinct (map fst (leaves t)) \<longleftrightarrow> distinct (nx # L)"
    by (auto simp: leaves_up [OF u] L_def)
  have new: "distinct N" "\<forall>q \<in> set N. nx < q \<and> q < nx + 1 + of_nat n"
    using fresh(1,2) lt unfolding N_def by (auto intro: less_le_trans)
  have lim: "nx < nx + 1 + of_nat n" using lt fresh(3) by (rule less_le_trans)
  have nx0: "nx \<noteq> 0" using old(2,3) by (metis UnI2 word_not_simps(1))
  have inn': "set (map fst (inn t)) = set I \<union> set N" "distinct (map fst (inn t)) \<longleftrightarrow> distinct (I @ N)"
    using inn by (simp_all add: I_def N_def)
  have "set N \<inter> (insert nx (set I \<union> set L)) = {}" "nx \<notin> set I" "nx \<notin> set L" using old(2) new(2) by (auto dest: less_asym)
  then have "distinct (map fst (inn t) @ map fst (leaves t))"
    unfolding distinct_append inn' lv using old(1) new(1) by auto
  moreover have "\<forall>q \<in> set (map fst (inn t) @ map fst (leaves t)). q \<noteq> 0 \<and> q < nx + 1 + of_nat n"
    unfolding set_append inn' lv using old(2) new(2) lim nx0 by (auto intro: less_trans)
  moreover have "tree_ok t" by (rule up_ok [OF u ok es(4,5)]) (use es in simp_all)
  moreover have "ordered t" unfolding ordered_def tokens_up [OF u ok es(4)] using ord by simp
  ultimately show "shape_ok t (nx + 1 + of_nat n)" by (simp add: shape_ok_def)
  show "contents t = put e (contents (fill ctx (GLeaf p es)))"
    unfolding put_at_laws(4) [OF p] unfolding contents_fill by (simp add: contents_def leaves_up [OF u] es(1))
qed

lemma leaf_up_pre:
  assumes p: "put_at ctx p es e nx" and b: "le_key b \<noteq> []" "length (le_key b) \<le> MAX_KEY"
    and ord: "sorted_wrt (<) (([], False) # ltokens ctx @ tokens (GLeaf p A) @ (le_key b, False) # tokens (GLeaf nx (b # B)) @ rtokens ctx)"
    and st: "stored f (inodes (inn (fill ctx (GLeaf p es))))"
    and f': "\<And>q. q < nx \<Longrightarrow> q \<noteq> p \<Longrightarrow> q \<notin> fst ` set (rleaves ctx) \<Longrightarrow> read_node f' q = read_node f q" and lt: "nx < nx + 1"
  shows "up_pre ctx (GLeaf p A) (le_key b) (GLeaf nx (b # B)) (nx + 1) f'"
proof -
  define I where "I = map fst (cinn ctx p)"
  note sh = p [unfolded put_at_def shape_ok_def tree_ok_fill leaves_fill distinct_append cinn_leaf map_append set_append]
  have I: "distinct I" "\<forall>q \<in> set I. q \<noteq> 0 \<and> q < nx" "p \<notin> set I" "set I \<inter> fst ` set (rleaves ctx) = {}"
    using sh unfolding I_def by auto
  have "mset (cinn ctx p) = mset (inn (fill ctx (GLeaf p es)))" by (simp add: inn_fill)
  from stored_mset [OF this, of f] st have "stored f (inodes (cinn ctx p))" by simp
  moreover have "\<forall>q \<in> set I. read_node f' q = read_node f q" using f' I(2,3,4) by blast
  then have "\<forall>q \<in> fst ` set (inodes (cinn ctx p)). read_node f' q = read_node f q" by (simp add: I_def)
  ultimately have "stored f' (inodes (cinn ctx p))" using stored_cong by blast
  moreover have "\<forall>q \<in> set I. q \<noteq> 0 \<and> q < nx + 1" using I(2) lt by (auto intro: less_trans)
  ultimately show ?thesis
    using sh b ord I(1) unfolding up_pre_def I_def by simp
qed

lemma insert_splits:
  assumes p: "put_at ctx p es e nx" and inv: "btree_inv (fill ctx (GLeaf p es)) d nx (2 * d + 2 + c) s"
    and big: "7892 < keys_size 8 (map le_key (put e es))" and room: "unat nx + d + 2 < 2 ^ 32"
  shows "\<exists>s' t' d' nx'. insert_split x (rev (map fst ctx) @ [p]) (mk_leaf (last_page 0 (lleaves ctx)) (first_page (rleaves ctx) 0) (put e es))
        (meta_of (fill ctx (GLeaf p es)) d nx\<lparr>num_entries := of_nat (Suc (length (contents (fill ctx (GLeaf p es)))))\<rparr>) s = Some (Ok (), s')
    \<and> btree_inv t' d' nx' c s' \<and> contents t' = put e (contents (fill ctx (GLeaf p es))) \<and> d' \<le> Suc d \<and> unat nx' \<le> unat nx + Suc d"
proof -
  let ?t = "fill ctx (GLeaf p es)"
  let ?m = "meta_of ?t d nx\<lparr>num_entries := of_nat (Suc (length (contents ?t)))\<rparr>"
  note cut = cut_leaf [OF p big]
  obtain A b B where es: "put e es = A @ b # B" "length A = length (put e es) div 2" "leaf_ok A" "leaf_ok (b # B)" "le_key b \<noteq> []"
    "length (le_key b) \<le> MAX_KEY"
    "sorted_wrt (<) (([], False) # ltokens ctx @ tokens (GLeaf p A) @ (le_key b, False) # tokens (GLeaf nx (b # B)) @ rtokens ctx)"
    by (rule cut)
  obtain t n g where u: "up ctx (GLeaf p A) (le_key b) (GLeaf nx (b # B)) (nx + 1) = (t, n, g)" by (metis surj_pair)
  have d: "d = Suc (length ctx)" and bal: "ctx_balanced ctx 1" using inv ctx_of_leaf [of ctx p es d] by (simp_all add: btree_inv_def)
  have nx: "nx \<noteq> - 1" using room by (auto simp: unsigned_minus_1_eq_mask mask_eq_exp_minus_1)
  have lt: "nx < nx + 1" using nx by (rule word_less_succ)
  have room': "unat nx + length ctx + 3 < 2 ^ 32" using room d by simp
  note shape = split_shape [OF p es(1,3,4,5,6,7) u room']
  have sh: "distinct (map fst (lleaves ctx) @ p # map fst (rleaves ctx))" "p < nx" "p \<noteq> 0"
    "\<forall>q \<in> fst ` set (lleaves ctx) \<union> fst ` set (rleaves ctx). q \<noteq> 0 \<and> q < nx" "tree_ok ?t"
    using p by (auto simp: put_at_def shape_ok_def leaves_fill)
  have rok: "\<forall>y \<in> set (rleaves ctx). leaf_ok (snd y)" using leaves_ok [OF sh(5)] by (simp add: leaves_fill)
  have st: "stored (bt_file s) (inodes (inn ?t))" "stored (bt_file s) (chain 0 (lleaves ctx) p)" "stored (bt_file s) (chain p (rleaves ctx) 0)"
    using inv by (simp_all add: btree_inv_def layout_def leaves_fill chain_append)
  have s: "bt_at nx (Suc (Suc (Suc (Suc (2 * length ctx + c))))) s" using inv by (simp add: btree_inv_def d)
  have m: "next_page ?m = nx" by (simp add: meta_of_def)
  have sizes: "keys_size 8 (map le_key A) \<le> 7892" "keys_size 8 (map le_key (b # B)) \<le> 7892" using es(3,4) by (simp_all add: leaf_ok_def)
  obtain s1 where s1: "insert_split x (rev (map fst ctx) @ [p]) (mk_leaf (last_page 0 (lleaves ctx)) (first_page (rleaves ctx) 0) (put e es)) ?m s
      = lbind (lbind (propagate x (map fst ctx) (le_key b) nx (?m\<lparr>next_page := nx + 1\<rparr>)) (finish x)) (\<lambda>m. ltotal (write_meta m)) s1"
    "bt_at (nx + 1) (Suc (2 * length ctx + c)) s1" "stored (bt_file s1) (chain 0 (lleaves ctx @ (p, A) # (nx, b # B) # rleaves ctx) 0)"
    "\<And>q. q < nx \<Longrightarrow> q \<noteq> p \<Longrightarrow> q \<notin> fst ` set (rleaves ctx) \<Longrightarrow> read_node (bt_file s1) q = read_node (bt_file s) q"
    using leaf_split_law [OF s m nx es(1,2) sizes sh(2,3) st(2,3) sh(1,4) rok refl, of x] by metis
  have pre: "up_pre ctx (GLeaf p A) (le_key b) (GLeaf nx (b # B)) (nx + 1) (bt_file s1)"
    by (rule leaf_up_pre [OF p es(5,6,7) st(1) s1(4) lt])
  have nx1: "0 < nx + 1" "unat (nx + 1) + Suc (length ctx) < 2 ^ 32"
    using word_neq_0_conv [of "nx + 1"] lt room' unat_succ_le [of nx] by (auto simp: word_less_nat_alt)
  have m1: "next_page (?m\<lparr>next_page := nx + 1\<rparr>) = nx + 1" "root_page (?m\<lparr>next_page := nx + 1\<rparr>) = root_of (fill ctx (GLeaf p A))"
    by (simp_all add: meta_of_def root_of_fill)
  obtain m2 s2 where s2: "lbind (propagate x (map fst ctx) (le_key b) nx (?m\<lparr>next_page := nx + 1\<rparr>)) (finish x) s1 = Some (Ok m2, s2)"
    and post: "up_post ctx (GLeaf p A) (nx + 1) (?m\<lparr>next_page := nx + 1\<rparr>) t n g c s1 m2 s2"
    using propagate_law [OF u pre s1(2) m1 nx1, of x] by auto
  let ?nx = "nx + 1 + of_nat n"
  have m2: "m2 = meta_of t (d + of_bool g) ?nx"
    using post shape(2) by (simp add: up_post_def meta_of_def)
  have n: "n \<le> Suc (length ctx)" using u by (rule up_count)
  have fresh: "unat (nx + 1) + n < 2 ^ 32" using nx1(2) n by linarith
  have lim: "nx + 1 \<le> ?nx" using fresh_pages(3) [OF fresh] .
  have pos: "0 < ?nx" using nx1(1) lim by (rule less_le_trans)
  obtain s3 where s3: "write_meta m2 s2 = (Ok (), s3)" "bt_at ?nx c s3" "read_meta (bt_file s3) = Ok m2"
    "\<And>q. q \<noteq> 0 \<Longrightarrow> q < ?nx \<Longrightarrow> read_node (bt_file s3) q = read_node (bt_file s2) q"
    using write_meta_law [of ?nx c s2 m2] post pos by (metis up_post_def)
  have rd3: "\<forall>q \<in> set (map fst (inn t) @ map fst (leaves t)). read_node (bt_file s3) q = read_node (bt_file s2) q"
    using shape(1) s3(4) by (simp add: shape_ok_def)
  define I where "I = fst ` set (cinn ctx p)"
  define L where "L = fst ` set (lleaves ctx) \<union> {p} \<union> fst ` set (rleaves ctx)"
  have IL: "I \<inter> L = {}" "\<forall>q \<in> I \<union> L. q < nx" "set (map fst ctx) \<subseteq> I" "fst ` set (leaves t) = insert nx L"
    using p cinn_leaf(1) [of ctx p es] ctx_pages [of ctx p]
    by (auto simp: I_def L_def leaves_up [OF u] put_at_def shape_ok_def leaves_fill)
  have "\<forall>q \<in> fst ` set (leaves t). q < nx + 1 \<and> q \<notin> set (map fst ctx)"
  proof
    fix q assume "q \<in> fst ` set (leaves t)"
    then have "q = nx \<or> q \<in> L" using IL(4) by blast
    then have "q \<notin> I" "q \<le> nx" using IL(1,2) by (auto dest: less_imp_le)
    then show "q < nx + 1 \<and> q \<notin> set (map fst ctx)" using IL(3) lt by (auto intro: le_less_trans)
  qed
  then have rd2: "\<forall>q \<in> fst ` set (leaves t). read_node (bt_file s2) q = read_node (bt_file s1) q"
    using post by (simp add: up_post_def)
  have "stored (bt_file s1) (chain 0 (leaves t) 0)" using s1(3) by (simp add: leaves_up [OF u])
  then have "stored (bt_file s3) (chain 0 (leaves t) 0)" by (rule stored_cong) (use rd2 rd3 in auto)
  moreover have "stored (bt_file s2) (inodes (inn t))" using post by (simp add: up_post_def)
  then have "stored (bt_file s3) (inodes (inn t))" by (rule stored_cong) (use rd3 in auto)
  moreover have "balanced t (d + of_bool g)" using up_balanced [OF u bal] d by simp
  ultimately have "btree_inv t (d + of_bool g) ?nx c s3"
    using shape(1) s3(2,3) m2 by (simp add: btree_inv_def layout_def)
  moreover have "unat ?nx \<le> unat nx + Suc d"
  proof -
    have "unat ?nx = unat (nx + 1) + n" using fresh_unat [OF fresh] .
    then show ?thesis using n d unat_succ_le [of nx] by linarith
  qed
  ultimately show ?thesis using s1(1) s2 s3(1) shape(2) by (intro exI [of _ s3] exI [of _ t] exI [of _ "d + of_bool g"] exI [of _ ?nx]) simp
qed

end
