(* ===== verification/BTree_Map.thy ===== *)
theory BTree_Map
  imports BTree_Index
begin

text \<open>
  What an index promises: a map from keys to tuple identifiers in key order. The list of its entries says
  what every operation returns and leaves behind; \<open>bt_holds kvs k s\<close> also says that there is room for \<open>k\<close>
  more updates in the page numbers and the log.
\<close>

section \<open>Specification\<close>

definition kv :: "leaf_entry \<Rightarrow> key \<times> tid" where
  "kv e = (le_key e, le_tid e)"

definition kv_insert :: "key \<Rightarrow> tid \<Rightarrow> (key \<times> tid) list \<Rightarrow> (key \<times> tid) list" where
  "kv_insert key t kvs = takeWhile (\<lambda>x. fst x < key) kvs @ (key, t) # dropWhile (\<lambda>x. fst x < key) kvs"

definition kv_delete :: "key \<Rightarrow> (key \<times> tid) list \<Rightarrow> (key \<times> tid) list" where
  "kv_delete key kvs = filter (\<lambda>x. fst x \<noteq> key) kvs"

definition in_range :: "key option \<Rightarrow> key option \<Rightarrow> key \<Rightarrow> bool" where
  "in_range sk ek key \<longleftrightarrow> (case sk of Some k \<Rightarrow> k \<le> key | None \<Rightarrow> True) \<and> (case ek of Some k \<Rightarrow> key \<le> k | None \<Rightarrow> True)"

definition bt_room :: "nat \<Rightarrow> nat \<Rightarrow> u32 \<Rightarrow> bool" where
  "bt_room k d nx \<longleftrightarrow> unat nx + k * (d + k + 1) + 1 < 2 ^ 32"

definition bt_holds :: "(key \<times> tid) list \<Rightarrow> nat \<Rightarrow> btree \<Rightarrow> bool" where
  "bt_holds kvs k s \<longleftrightarrow> (\<exists>t d nx. kvs = map kv (contents t) \<and> btree_inv t d nx (2 * k * (d + k + 1)) s \<and> bt_room k d nx)"

lemma kv_put: "map kv (put e es) = kv_insert (le_key e) (le_tid e) (map kv es)"
  by (simp add: put_def kv_insert_def takeWhile_map dropWhile_map comp_def kv_def)

lemma fst_kv [simp]: "fst (kv e) = le_key e" "fst \<circ> kv = le_key"
  by (auto simp: kv_def)

lemma holds_sorted: "bt_holds kvs k s \<Longrightarrow> sorted_wrt (<) (map fst kvs)"
  using ordered_contents by (auto simp: bt_holds_def btree_inv_def shape_ok_def)

section \<open>Insertion\<close>

lemma leaf_keys_sorted: "shape_ok (fill ctx (GLeaf p es)) nx \<Longrightarrow> sorted_wrt (<) (map le_key es)"
  by (simp add: shape_ok_def ordered_def tokens_fill sorted_wrt_append sorted_wrt_map)

text \<open>The key is in the index if and only if it is in the leaf found for it.\<close>

lemma key_here:
  assumes "\<forall>x \<in> set (ltokens ctx). x < (key, True)" and "\<forall>x \<in> set (rtokens ctx). (key, True) < x"
  shows "key \<in> le_key ` set (contents (fill ctx (GLeaf p es))) \<longleftrightarrow> key \<in> le_key ` set es"
  using only_here [OF assms] unfolding contents_fill set_append image_Un by simp

lemma meta_of_simps [simp]: "root_page (meta_of t d nx) = root_of t" "num_entries (meta_of t d nx) = of_nat (length (contents t))"
  "next_page (meta_of t d nx) = nx" "height (meta_of t d nx) = of_nat d"
  by (simp_all add: meta_of_def)

lemma insert_step:
  assumes inv: "btree_inv t d nx (2 * d + 2 + c) s" and key: "length key \<le> MAX_KEY" and room: "unat nx + d + 2 < 2 ^ 32"
    and new: "key \<notin> le_key ` set (contents t)"
  shows "\<exists>s' t' d' nx'. bt_insert x key tid s = Some (Ok (), s') \<and> btree_inv t' d' nx' c s'
    \<and> contents t' = put \<lparr>le_key = key, le_tid = tid\<rparr> (contents t) \<and> d' \<le> Suc d \<and> unat nx' \<le> unat nx + Suc d"
proof -
  let ?e = "\<lparr>le_key = key, le_tid = tid\<rparr>"
  obtain ctx p es where c: "t = fill ctx (GLeaf p es)" "d = Suc (length ctx)"
    "descend (bt_file s) key (root_of t) = Some (Ok (rev (map fst ctx) @ [p]))"
    "read_node (bt_file s) p = Ok (mk_leaf (last_page 0 (lleaves ctx)) (first_page (rleaves ctx) 0) es)"
    "\<forall>x \<in> set (ltokens ctx). x < (key, True)" "\<forall>x \<in> set (rtokens ctx). (key, True) < x"
    by (rule locate [OF inv])
  let ?nd = "mk_leaf (last_page 0 (lleaves ctx)) (first_page (rleaves ctx) 0)"
  have sh: "shape_ok (fill ctx (GLeaf p es)) nx" using inv by (simp add: btree_inv_def c(1))
  have nk: "key \<notin> le_key ` set es" using new key_here [OF c(5,6), of p es] by (simp add: c(1))
  have p: "put_at ctx p es ?e nx" using sh nk key c(5,6) by (simp add: put_at_def)
  have find: "find_key (?nd es) key = None" using find_key_None [of "?nd es" key] nk leaf_keys_sorted [OF sh] by simp
  have size: "encoded_size (?nd (put ?e es)) \<le> 8192" using put_at_laws(2) [OF p] by (simp add: node_sizes)
  have len: "length (contents (fill ctx (GLeaf p (put ?e es)))) = Suc (length (contents t))"
    using put_at_laws(4) [OF p] by (metis c(1) length_put)
  have run: "bt_insert x key tid s =
      (if keys_size 8 (map le_key (put ?e es)) \<le> 7892
       then ltotal (sbind (write_node p (?nd (put ?e es)) x) (\<lambda>_. write_meta (meta_of (fill ctx (GLeaf p (put ?e es))) d nx))) s
       else insert_split x (rev (map fst ctx) @ [p]) (?nd (put ?e es))
         (meta_of (fill ctx (GLeaf p es)) d nx\<lparr>num_entries := of_nat (Suc (length (contents (fill ctx (GLeaf p es)))))\<rparr>) s)"
  proof -
    have m: "read_meta (bt_file s) = Ok (meta_of t d nx)" using inv by (simp add: btree_inv_def)
    have d: "find_leaf_path (bt_file s) (meta_of t d nx) key = Some (Ok (rev (map fst ctx) @ [p]))"
      using c(3) by (simp add: find_leaf_path_def)
    have f: "is_full (?nd (put ?e es)) \<longleftrightarrow> \<not> keys_size 8 (map le_key (put ?e es)) \<le> 7892"
      unfolding is_full_iff [OF size] by (simp add: node_sizes not_le)
    have mt: "meta_of t d nx\<lparr>num_entries := num_entries (meta_of t d nx) + 1\<rparr>
        = meta_of (fill ctx (GLeaf p (put ?e es))) d nx"
      "meta_of t d nx\<lparr>num_entries := num_entries (meta_of t d nx) + 1\<rparr>
        = meta_of t d nx\<lparr>num_entries := of_nat (Suc (length (contents t)))\<rparr>"
      using len by (simp_all add: meta_of_def c(1) root_of_fill add.commute)
    show ?thesis using m d c(4) find f mt by (simp add: bt_insert_def insert_leaf Let_def add.commute c(1) [symmetric])
  qed
  show ?thesis
  proof (cases "keys_size 8 (map le_key (put ?e es)) \<le> 7892")
    case True
    have "btree_inv (fill ctx (GLeaf p es)) d nx (Suc (2 * d + 1 + c)) s" using inv by (simp add: c(1))
    from rewrite_leaf [OF this put_shape [OF p True], of x] obtain s' where "bt_insert x key tid s = Some (Ok (), s')"
      "btree_inv (fill ctx (GLeaf p (put ?e es))) d nx (2 * d + 1 + c) s'"
      using run True by auto
    moreover from this(2) have "btree_inv (fill ctx (GLeaf p (put ?e es))) d nx c s'"
      by (auto simp: btree_inv_def intro: bt_at_mono)
    ultimately show ?thesis using put_at_laws(4) [OF p]
      by (intro exI [of _ s'] exI [of _ "fill ctx (GLeaf p (put ?e es))"] exI [of _ d] exI [of _ nx]) (simp add: c(1))
  next
    case False
    then have big: "7892 < keys_size 8 (map le_key (put ?e es))" by simp
    have "btree_inv (fill ctx (GLeaf p es)) d nx (2 * d + 2 + c) s" using inv by (simp add: c(1))
    from insert_splits [OF p this big room, of x] show ?thesis unfolding run c(1) using False by simp
  qed
qed

lemma holds_mono: "bt_holds kvs k s \<Longrightarrow> j \<le> k \<Longrightarrow> bt_holds kvs j s"
proof -
  assume "bt_holds kvs k s" and j: "j \<le> k"
  then obtain t d nx where h: "kvs = map kv (contents t)" "btree_inv t d nx (2 * k * (d + k + 1)) s" "bt_room k d nx"
    by (auto simp: bt_holds_def)
  have le: "j * (d + j + 1) \<le> k * (d + k + 1)" using j by (intro mult_le_mono) simp_all
  then have "2 * j * (d + j + 1) \<le> 2 * k * (d + k + 1)" by (simp only: mult.assoc mult_le_mono2)
  then have "btree_inv t d nx (2 * j * (d + j + 1)) s" using h(2) by (auto simp: btree_inv_def intro: bt_at_mono)
  moreover have "bt_room j d nx" using h(3) le unfolding bt_room_def by linarith
  ultimately show ?thesis using h(1) by (auto simp: bt_holds_def)
qed

lemma insert_new:
  assumes h: "bt_holds kvs (Suc k) s" and key: "length key \<le> MAX_KEY" and new: "key \<notin> fst ` set kvs"
  shows "\<exists>s'. bt_insert x key tid s = Some (Ok (), s') \<and> bt_holds (kv_insert key tid kvs) k s'"
proof -
  obtain t d nx where i: "kvs = map kv (contents t)" "btree_inv t d nx (2 * Suc k * (d + Suc k + 1)) s" "bt_room (Suc k) d nx"
    using h by (auto simp: bt_holds_def)
  have eq: "2 * Suc k * (d + Suc k + 1) = 2 * d + 2 + (2 * k * (d + k + 2) + 2 * k + 2)" by (simp add: algebra_simps)
  have r: "unat nx + Suc k * (d + Suc k + 1) + 1 < 2 ^ 32" using i(3) by (simp only: bt_room_def)
  have s: "Suc k * (d + Suc k + 1) = k * (d + k + 2) + (d + k + 2)" by (simp add: algebra_simps)
  have room: "unat nx + d + 2 < 2 ^ 32" using r s by linarith
  have nk: "key \<notin> le_key ` set (contents t)" using new by (simp add: i(1) image_image)
  obtain s' t' d' nx' where st: "bt_insert x key tid s = Some (Ok (), s')" "btree_inv t' d' nx' (2 * k * (d + k + 2) + 2 * k + 2) s'"
    "contents t' = put \<lparr>le_key = key, le_tid = tid\<rparr> (contents t)" "d' \<le> Suc d" "unat nx' \<le> unat nx + Suc d"
    using insert_step [OF i(2) [unfolded eq] key room nk, of x tid] by blast
  have le: "k * (d' + k + 1) \<le> k * (d + k + 2)" using st(4) by (intro mult_le_mono2) simp
  then have "2 * k * (d' + k + 1) \<le> 2 * k * (d + k + 2) + 2 * k + 2" unfolding mult.assoc by linarith
  then have "btree_inv t' d' nx' (2 * k * (d' + k + 1)) s'" using st(2) by (auto simp: btree_inv_def intro: bt_at_mono)
  moreover have "bt_room k d' nx'" unfolding bt_room_def using r s le st(5) by linarith
  moreover have "kv_insert key tid kvs = map kv (contents t')" by (simp add: i(1) st(3) kv_put)
  ultimately show ?thesis using st(1) unfolding bt_holds_def by blast
qed

lemma insert_duplicate:
  assumes h: "bt_holds kvs k s" and old: "key \<in> fst ` set kvs"
  shows "bt_insert x key tid s = Some (Err DuplicateKey, s)"
proof -
  obtain t d nx n where kvs: "kvs = map kv (contents t)" and inv: "btree_inv t d nx n s" using h by (auto simp: bt_holds_def)
  obtain ctx p es where c: "t = fill ctx (GLeaf p es)" "d = Suc (length ctx)"
    "descend (bt_file s) key (root_of t) = Some (Ok (rev (map fst ctx) @ [p]))"
    "read_node (bt_file s) p = Ok (mk_leaf (last_page 0 (lleaves ctx)) (first_page (rleaves ctx) 0) es)"
    "\<forall>x \<in> set (ltokens ctx). x < (key, True)" "\<forall>x \<in> set (rtokens ctx). (key, True) < x"
    by (rule locate [OF inv])
  let ?nd = "mk_leaf (last_page 0 (lleaves ctx)) (first_page (rleaves ctx) 0)"
  have "shape_ok (fill ctx (GLeaf p es)) nx" using inv by (simp add: btree_inv_def c(1))
  moreover have "key \<in> le_key ` set es" using old key_here [OF c(5,6), of p es] by (simp add: kvs c(1) image_image)
  ultimately have find: "find_key (?nd es) key \<noteq> None" using find_key_None [of "?nd es" key] leaf_keys_sorted by simp
  have "read_meta (bt_file s) = Ok (meta_of t d nx)" using inv by (simp add: btree_inv_def)
  then show ?thesis using c(3,4) find by (simp add: bt_insert_def find_leaf_path_def)
qed

section \<open>Search\<close>

lemma map_of_key:
  assumes "distinct (map fst kvs)" and "i < length kvs" and "fst (kvs ! i) = key"
  shows "map_of kvs key = Some (snd (kvs ! i))"
  using assms by (metis map_of_eq_Some_iff nth_mem prod.collapse)

lemma search_law:
  assumes h: "bt_holds kvs k s"
  shows "bt_search key s = Some (case map_of kvs key of Some tid \<Rightarrow> Ok tid | None \<Rightarrow> Err KeyNotFound)"
proof -
  obtain t d nx n where kvs: "kvs = map kv (contents t)" and inv: "btree_inv t d nx n s" using h by (auto simp: bt_holds_def)
  obtain ctx p es where c: "t = fill ctx (GLeaf p es)" "d = Suc (length ctx)"
    "descend (bt_file s) key (root_of t) = Some (Ok (rev (map fst ctx) @ [p]))"
    "read_node (bt_file s) p = Ok (mk_leaf (last_page 0 (lleaves ctx)) (first_page (rleaves ctx) 0) es)"
    "\<forall>x \<in> set (ltokens ctx). x < (key, True)" "\<forall>x \<in> set (rtokens ctx). (key, True) < x"
    by (rule locate [OF inv])
  let ?nd = "mk_leaf (last_page 0 (lleaves ctx)) (first_page (rleaves ctx) 0) es"
  have "shape_ok (fill ctx (GLeaf p es)) nx" using inv by (simp add: btree_inv_def c(1))
  then have sorted: "sorted_wrt (<) (map le_key (leaf_entries ?nd))" using leaf_keys_sorted by simp
  have run: "bt_search key s = Some (case find_key ?nd key of Some i \<Rightarrow> Ok (le_tid (es ! i)) | None \<Rightarrow> Err KeyNotFound)"
    using inv c(3,4) by (simp add: bt_search_def btree_inv_def split: option.split)
  have dist: "distinct (map fst kvs)"
    using holds_sorted [OF h] by (simp add: strict_sorted_iff)
  show ?thesis
  proof (cases "find_key ?nd key")
    case None
    then have "key \<notin> le_key ` set es" using find_key_None [OF sorted] by simp
    then have "key \<notin> fst ` set kvs" using key_here [OF c(5,6), of p es] by (simp add: kvs c(1) image_image)
    then have "map_of kvs key = None" by (metis map_of_eq_None_iff)
    then show ?thesis using run None by simp
  next
    case (Some i)
    then have i: "i < length es" "le_key (es ! i) = key" using find_key_Some [OF sorted] by simp_all
    then have "(key, le_tid (es ! i)) \<in> set kvs" using nth_mem [OF i(1)] by (force simp: kvs c(1) contents_fill kv_def)
    then show ?thesis using run Some dist by simp
  qed
qed

section \<open>Range scan\<close>

lemma scan_entries_law:
  assumes "sorted_wrt (<) (map le_key es)" and "scan_entries sk ek es = (rs, fin)"
  shows "rs = filter (\<lambda>x. in_range sk ek (fst x)) (map kv es)"
    and "fin \<Longrightarrow> \<exists>k e. ek = Some k \<and> e \<in> set es \<and> k < le_key e"
  using assms
proof (induction es arbitrary: rs fin)
  case (Cons e es)
  {
    case 1
    show ?case
    proof (cases "(case sk of Some k \<Rightarrow> le_key e < k | None \<Rightarrow> False)")
      case True
      then show ?thesis using 1 Cons.IH(1) by (auto simp: in_range_def kv_def split: option.splits)
    next
      case low: False
      show ?thesis
      proof (cases "(case ek of Some k \<Rightarrow> k < le_key e | None \<Rightarrow> False)")
        case True
        then have "\<not> in_range sk ek (le_key x)" if "x \<in> set (e # es)" for x
          using that 1(1) by (auto simp: in_range_def split: option.splits dest: less_trans)
        then show ?thesis using 1(2) low True by (auto simp: filter_empty_conv)
      next
        case False
        obtain rs' fin' where "scan_entries sk ek es = (rs', fin')" by (cases "scan_entries sk ek es") auto
        then show ?thesis using 1 low False Cons.IH(1) by (auto simp: in_range_def kv_def not_less split: option.splits)
      qed
    qed
  next
    case 2
    then show ?case using Cons.IH(2) by (auto split: if_splits option.splits prod.splits; fastforce)
  }
qed simp_all

lemma scan_leaves_law:
  assumes "stored f (chain l xs 0)" and "\<forall>x \<in> set xs. fst x \<noteq> 0" and "sorted_wrt (<) (map le_key (concat (map snd xs)))"
  shows "scan_leaves f sk ek (first_page xs 0) = Some (Ok (filter (\<lambda>x. in_range sk ek (fst x)) (map kv (concat (map snd xs)))))"
  using assms
proof (induction xs arbitrary: l)
  case Nil
  then show ?case by (simp add: scan_leaves.simps [of f sk ek 0])
next
  case (Cons x xs)
  obtain rs fin where sc: "scan_entries sk ek (snd x) = (rs, fin)" by (cases "scan_entries sk ek (snd x)") auto
  have so: "sorted_wrt (<) (map le_key (snd x))" using Cons.prems(3) by (simp add: sorted_wrt_append)
  note law = scan_entries_law [OF so sc]
  have IH: "scan_leaves f sk ek (first_page xs 0) = Some (Ok (filter (\<lambda>x. in_range sk ek (fst x)) (map kv (concat (map snd xs)))))"
    by (rule Cons.IH [of "fst x"]) (use Cons.prems in \<open>simp_all add: sorted_wrt_append\<close>)
  have "filter (\<lambda>x. in_range sk ek (fst x)) (map kv (concat (map snd xs))) = []" if fin
  proof -
    obtain k e where k: "ek = Some k" "e \<in> set (snd x)" "k < le_key e" using law(2) \<open>fin\<close> by blast
    have "k < le_key y" if "y \<in> set (concat (map snd xs))" for y
      using Cons.prems(3) k(2,3) that by (fastforce simp: sorted_wrt_append simp del: set_concat)
    then show ?thesis by (auto simp: k(1) in_range_def filter_empty_conv not_le simp del: set_concat)
  qed
  then show ?case
    using Cons.prems(1,2) sc IH law(1) by (simp add: scan_leaves.simps [of f sk ek "fst x"])
qed

lemma range_scan_law:
  assumes h: "bt_holds kvs k s"
  shows "range_scan sk ek s = Some (Ok (filter (\<lambda>x. in_range sk ek (fst x)) kvs))"
proof -
  obtain t d nx n where kvs: "kvs = map kv (contents t)" and inv: "btree_inv t d nx n s" using h by (auto simp: bt_holds_def)
  have m: "read_meta (bt_file s) = Ok (meta_of t d nx)" and st: "stored (bt_file s) (inodes (inn t))" "stored (bt_file s) (chain 0 (leaves t) 0)"
    and ok: "tree_ok t" and pg: "\<forall>x \<in> set (leaves t). fst x \<noteq> 0"
    using inv by (auto simp: btree_inv_def layout_def shape_ok_def)
  have so: "sorted_wrt (<) (map le_key (concat (map snd (leaves t))))"
    using holds_sorted [OF h] by (simp add: kvs contents_def)
  show ?thesis
  proof (cases sk)
    case None
    obtain e xs where lv: "leaves t = e # xs" "leftmost (bt_file s) (root_of t) = Some (Ok (fst e))"
      using first_leaf [OF st ok] by blast
    then have "range_scan sk ek s = scan_leaves (bt_file s) sk ek (first_page (leaves t) 0)"
      using m None by (simp add: range_scan_def)
    then show ?thesis using scan_leaves_law [OF st(2) pg so] by (simp add: kvs contents_def)
  next
    case (Some key)
    obtain ctx p es where c: "t = fill ctx (GLeaf p es)" "d = Suc (length ctx)"
      "descend (bt_file s) key (root_of t) = Some (Ok (rev (map fst ctx) @ [p]))"
      "read_node (bt_file s) p = Ok (mk_leaf (last_page 0 (lleaves ctx)) (first_page (rleaves ctx) 0) es)"
      "\<forall>x \<in> set (ltokens ctx). x < (key, True)" "\<forall>x \<in> set (rtokens ctx). (key, True) < x"
      by (rule locate [OF inv])
    let ?ys = "(p, es) # rleaves ctx"
    have "stored (bt_file s) (chain (last_page 0 (lleaves ctx)) ?ys 0)" "\<forall>x \<in> set ?ys. fst x \<noteq> 0"
      "sorted_wrt (<) (map le_key (concat (map snd ?ys)))"
      using st(2) pg so by (simp_all add: c(1) leaves_fill chain_append sorted_wrt_append)
    from scan_leaves_law [OF this, of sk ek]
    have run: "range_scan sk ek s = Some (Ok (filter (\<lambda>x. in_range sk ek (fst x)) (map kv (concat (map snd ?ys)))))"
      using m Some c(3) by (simp add: range_scan_def)
    have "filter (\<lambda>x. in_range sk ek (fst x)) (map kv (concat (map snd (lleaves ctx)))) = []"
      using side_bounds(1) [OF c(5,6)] by (fastforce simp: Some in_range_def filter_empty_conv simp del: set_concat)
    then show ?thesis unfolding run by (simp add: kvs c(1) contents_fill)
  qed
qed

section \<open>Deletion\<close>

text \<open>The counter of entries never wraps: a leaf has at most two thousand entries.\<close>

lemma few_entries:
  assumes "shape_ok t nx"
  shows "length (contents t) < 2 ^ 64"
proof -
  have few: "length es \<le> 2000" if "leaf_ok es" for es
    using that keys_size_bounds(1) [of 8 "map le_key es"] by (auto simp: leaf_ok_def)
  have ok: "tree_ok t" using assms by (simp add: shape_ok_def)
  have each: "\<forall>x \<in> set (leaves t). length (snd x) \<le> 2000" using few leaves_ok [OF ok] by blast
  have le: "length (concat (map snd xs)) \<le> 2000 * length xs" if "\<forall>x \<in> set xs. length (snd x) \<le> 2000" for xs :: "(u32 \<times> leaf_entry list) list"
    using that by (induction xs) auto
  have "length (leaves t) = card (fst ` set (leaves t))"
    using assms distinct_card [of "map fst (leaves t)"] by (simp add: shape_ok_def)
  also have "\<dots> \<le> card (UNIV :: u32 set)" by (rule card_mono) simp_all
  also have "\<dots> = 2 ^ 32" by (simp add: card_word)
  finally have "2000 * length (leaves t) \<le> 2000 * 2 ^ 32" by (rule mult_le_mono2)
  moreover have "2000 * 2 ^ 32 < (2 :: nat) ^ 64" by simp
  ultimately show ?thesis using le [OF each] unfolding contents_def by linarith
qed

lemma counter_pos: "0 < n \<Longrightarrow> n < 2 ^ 64 \<Longrightarrow> (of_nat n :: u64) \<noteq> 0"
  by (auto simp: word_of_nat_eq_0_iff dest: nat_dvd_not_less)

lemma cut_filter:
  fixes f :: "'a \<Rightarrow> 'b::order"
  assumes "sorted_wrt (<) (map f (X @ y # Y))"
  shows "filter (\<lambda>e. f e \<noteq> f y) (X @ y # Y) = X @ Y"
proof -
  have "\<forall>x \<in> set X. f x < f y" "\<forall>x \<in> set Y. f y < f x" using assms by (auto simp: sorted_wrt_append)
  then have "filter (\<lambda>e. f e \<noteq> f y) X = X" "filter (\<lambda>e. f e \<noteq> f y) Y = Y" by (auto simp: filter_id_conv)
  then show ?thesis by simp
qed

lemma cut_shape:
  assumes sh: "shape_ok (fill ctx (GLeaf p (A @ e # B))) nx"
  shows "shape_ok (fill ctx (GLeaf p (A @ B))) nx"
proof -
  let ?t = "fill ctx (GLeaf p (A @ e # B))" and ?t' = "fill ctx (GLeaf p (A @ B))"
  have inn: "inn ?t' = inn ?t" by (rule inn_fill_cong) simp_all
  have pages: "map fst (leaves ?t') = map fst (leaves ?t)" by (simp add: leaves_fill)
  have "keys_size 8 (map le_key (A @ B)) \<le> 7892"
    using sh by (simp add: shape_ok_def tree_ok_fill leaf_ok_def keys_size_def)
  then show ?thesis
    using sh unfolding shape_ok_def pages inn
    by (simp add: tree_ok_fill ordered_def tokens_fill leaf_ok_def sorted_wrt_append)
qed

lemma delete_found:
  assumes h: "bt_holds kvs (Suc k) s" and key: "key \<in> fst ` set kvs"
  shows "\<exists>s'. bt_delete x key s = Some (Ok (), s') \<and> bt_holds (kv_delete key kvs) k s'"
proof -
  obtain t d nx where kvs: "kvs = map kv (contents t)" and inv: "btree_inv t d nx (2 * Suc k * (d + Suc k + 1)) s" and room: "bt_room (Suc k) d nx"
    using h by (auto simp: bt_holds_def)
  obtain ctx p es where c: "t = fill ctx (GLeaf p es)" "d = Suc (length ctx)"
    "descend (bt_file s) key (root_of t) = Some (Ok (rev (map fst ctx) @ [p]))"
    "read_node (bt_file s) p = Ok (mk_leaf (last_page 0 (lleaves ctx)) (first_page (rleaves ctx) 0) es)"
    "\<forall>x \<in> set (ltokens ctx). x < (key, True)" "\<forall>x \<in> set (rtokens ctx). (key, True) < x"
    by (rule locate [OF inv])
  let ?nd = "mk_leaf (last_page 0 (lleaves ctx)) (first_page (rleaves ctx) 0)"
  have sh: "shape_ok (fill ctx (GLeaf p es)) nx" using inv by (simp add: btree_inv_def c(1))
  then have sorted: "sorted_wrt (<) (map le_key (leaf_entries (?nd es)))" using leaf_keys_sorted by simp
  have "key \<in> le_key ` set es" using key key_here [OF c(5,6), of p es] by (simp add: kvs c(1) image_image)
  then obtain i where fi: "find_key (?nd es) key = Some i" using find_key_None [OF sorted, of key] by auto
  then have i: "i < length es" "le_key (es ! i) = key" using find_key_Some [OF sorted fi] by simp_all
  define A B where "A = take i es" and "B = drop (Suc i) es"
  have es: "es = A @ es ! i # B" and rm: "remove_at i es = A @ B"
    using id_take_nth_drop [OF i(1)] by (simp_all add: A_def B_def remove_at_def)
  let ?t = "fill ctx (GLeaf p (A @ B))"
  have sh': "shape_ok ?t nx" by (rule cut_shape [of _ _ _ "es ! i"]) (use sh es in simp)
  have "2 * Suc k * (d + Suc k + 1) = Suc (2 * k * (d + k + 1) + (2 * d + 4 * k + 3))" by (simp add: algebra_simps)
  then have "btree_inv (fill ctx (GLeaf p es)) d nx (Suc (2 * k * (d + k + 1) + (2 * d + 4 * k + 3))) s" using inv by (simp only: c(1))
  from rewrite_leaf [OF this sh', of x] obtain s' where w: "sbind (write_node p (?nd (A @ B)) x) (\<lambda>_. write_meta (meta_of ?t d nx)) s = (Ok (), s')"
    "btree_inv ?t d nx (2 * k * (d + k + 1) + (2 * d + 4 * k + 3)) s'"
    by blast
  have len: "length (contents t) = Suc (length (contents ?t))" using arg_cong [OF es, of length] by (simp add: c(1) contents_fill)
  have "0 < length (contents t)" "length (contents t) < 2 ^ 64" using few_entries [OF sh] by (simp_all add: len c(1) [symmetric])
  then have "(of_nat (length (contents t)) :: u64) \<noteq> 0" by (rule counter_pos)
  then have mt: "meta_of t d nx\<lparr>num_entries := (if num_entries (meta_of t d nx) = 0 then 0 else num_entries (meta_of t d nx) - 1)\<rparr> = meta_of ?t d nx"
    using len by (simp add: meta_of_def c(1) root_of_fill)
  have nd: "(?nd es)\<lparr>leaf_entries := remove_at i (leaf_entries (?nd es))\<rparr> = ?nd (A @ B)" using rm by (simp add: mk_leaf_def)
  have "read_meta (bt_file s) = Ok (meta_of t d nx)" using inv by (simp add: btree_inv_def)
  then have run: "bt_delete x key s = Some (Ok (), s')"
    using c(3,4) fi mt nd w(1) unfolding bt_delete_def find_leaf_path_def by simp
  have inv': "btree_inv ?t d nx (2 * k * (d + k + 1)) s'" using w(2) by (auto simp: btree_inv_def intro: bt_at_mono)
  have le: "k * (d + k + 1) \<le> Suc k * (d + Suc k + 1)" by (intro mult_le_mono) simp_all
  have room': "bt_room k d nx" using room le unfolding bt_room_def by linarith
  have "kv_delete key kvs = map kv (contents ?t)"
  proof -
    let ?L = "concat (map snd (lleaves ctx))" and ?R = "concat (map snd (rleaves ctx))"
    have ct: "contents t = (?L @ A) @ es ! i # (B @ ?R)"
      unfolding c(1) contents_fill contents_simps by (subst es) (simp only: append_assoc append_Cons)
    have all: "sorted_wrt (<) (map le_key ((?L @ A) @ es ! i # (B @ ?R)))"
      using holds_sorted [OF h] unfolding kvs ct by (simp add: comp_def)
    from cut_filter [OF this] have "filter (\<lambda>e. le_key e \<noteq> key) (contents t) = (?L @ A) @ (B @ ?R)"
      unfolding ct using i(2) by simp
    then show ?thesis by (simp add: kv_delete_def kvs filter_map comp_def contents_fill)
  qed
  then show ?thesis using run inv' room' unfolding bt_holds_def by blast
qed

end
