(* ===== verification/BTree_Client.thy ===== *)
theory BTree_Client
  imports BTree_Map
begin

text \<open>
  Opening an index, and the interface its clients rely on: a sequence of operations on the pages answers as
  the same sequence on a sorted association list does.
\<close>

section \<open>Opening\<close>

lemma delete_missing:
  assumes h: "bt_holds kvs k s" and new: "key \<notin> fst ` set kvs"
  shows "bt_delete x key s = Some (Err KeyNotFound, s)"
proof -
  obtain t d nx n where kvs: "kvs = map kv (contents t)" and inv: "btree_inv t d nx n s" using h by (auto simp: bt_holds_def)
  obtain ctx p es where c: "t = fill ctx (GLeaf p es)" "d = Suc (length ctx)"
    "descend (bt_file s) key (root_of t) = Some (Ok (rev (map fst ctx) @ [p]))"
    "read_node (bt_file s) p = Ok (mk_leaf (last_page 0 (lleaves ctx)) (first_page (rleaves ctx) 0) es)"
    "\<forall>x \<in> set (ltokens ctx). x < (key, True)" "\<forall>x \<in> set (rtokens ctx). (key, True) < x"
    by (rule locate [OF inv])
  let ?nd = "mk_leaf (last_page 0 (lleaves ctx)) (first_page (rleaves ctx) 0)"
  have "shape_ok (fill ctx (GLeaf p es)) nx" using inv by (simp add: btree_inv_def c(1))
  moreover have "key \<notin> le_key ` set es" using new key_here [OF c(5,6), of p es] by (simp add: kvs c(1) image_image)
  ultimately have find: "find_key (?nd es) key = None" using find_key_None [of "?nd es" key] leaf_keys_sorted by simp
  have "read_meta (bt_file s) = Ok (meta_of t d nx)" using inv by (simp add: btree_inv_def)
  then show ?thesis using c(3,4) find by (simp add: bt_delete_def find_leaf_path_def)
qed

lemma count_law:
  assumes h: "bt_holds kvs k s"
  shows "\<exists>n. bt_num_entries s = Ok n \<and> unat n = length kvs"
proof -
  obtain t d nx n where kvs: "kvs = map kv (contents t)" and inv: "btree_inv t d nx n s" using h by (auto simp: bt_holds_def)
  have "length (contents t) < 2 ^ 64" using inv by (intro few_entries [of t nx]) (simp add: btree_inv_def)
  then have "unat (of_nat (length (contents t)) :: u64) = length kvs" by (simp add: kvs unsigned_of_nat take_bit_nat_eq_self)
  then show ?thesis using inv by (simp add: bt_num_entries_def btree_inv_def)
qed

lemma empty_leaf_inv:
  assumes f: "file_ok f 2" "btf_read_page f 0 = zero_page (meta_encode (meta_of (GLeaf 1 []) 1 2))"
    "read_node f 1 = Ok (mk_leaf 0 0 [])" and w: "wal_room n w"
  shows "btree_inv (GLeaf 1 []) 1 2 n \<lparr>bt_file = f, bt_wal = w, index_id = iid\<rparr>"
proof -
  have "zero_page (meta_encode m) = meta_encode m @ replicate 8160 0" for m by (simp add: zero_page_def patch_def)
  then have "read_meta f = Ok (meta_of (GLeaf 1 []) 1 2)" using f(2) meta_roundtrip by (simp add: read_meta_def)
  moreover have "shape_ok (GLeaf 1 []) 2" by (simp add: shape_ok_def ordered_def leaf_ok_def)
  ultimately show ?thesis using f(1,3) w by (simp add: btree_inv_def bt_at_def layout_def)
qed

lemma open_law:
  assumes w: "wal_room (2 * k * (k + 2)) w" and k: "k * (k + 2) + 3 < 2 ^ 32"
  obtains s where "BTree_open [] w iid = Ok s" and "bt_holds [] k s"
proof -
  let ?m = "zero_page (meta_encode (meta_of (GLeaf 1 []) 1 2))"
  have m: "length ?m = 8192" by (simp add: zero_page_def patch_def)
  have leaf: "new_leaf = mk_leaf 0 0 []" by (simp add: new_leaf_def mk_leaf_def)
  have "encoded_size (mk_leaf 0 0 []) \<le> 8192" by (simp add: node_sizes)
  then obtain b where b: "node_encode new_leaf = Ok b" using encode_eq(1) leaf by metis
  have lb: "length b = 8192" using b by (rule length_encode)
  let ?f = "?m @ b"
  have n: "btf_num_pages [] = 0" by (simp add: btf_num_pages_def)
  have w0: "btf_write_page 0 ?m [] = ?m" using file_write_at_end [of "[]" ?m] by (simp add: btf_write_page_def)
  have w1: "btf_write_page 1 b ?m = ?f" using file_write_at_end [of ?m b, unfolded m] by (simp add: btf_write_page_def)
  have meta: "\<lparr>root_page = 1, height = 1, num_entries = 0, next_page = 2\<rparr> = meta_of (GLeaf 1 []) 1 2" by (simp add: meta_of_def)
  have run: "BTree_open [] w iid = Ok \<lparr>bt_file = ?f, bt_wal = w, index_id = iid\<rparr>"
    using n w0 w1 b by (simp add: BTree_open_def meta Let_def)
  have ok: "file_ok ?f 2" using m lb by (simp add: file_ok_def blocked_def n_blocks_def)
  have r0: "btf_read_page ?f 0 = ?m" using m by (simp add: btf_read_page_def)
  have r1: "btf_read_page ?f 1 = b" using m lb by (simp add: btf_read_page_def)
  have rd: "read_node ?f 1 = Ok (mk_leaf 0 0 [])"
    using decode_encode [OF node_simps(7) b [unfolded leaf]] by (simp only: read_node_def r1)
  have "btree_inv (GLeaf 1 []) 1 2 (2 * k * (1 + k + 1)) \<lparr>bt_file = ?f, bt_wal = w, index_id = iid\<rparr>"
    by (rule empty_leaf_inv [OF ok r0 rd]) (use w in simp)
  moreover have "bt_room k 1 2" using k by (simp add: bt_room_def)
  ultimately have "bt_holds [] k \<lparr>bt_file = ?f, bt_wal = w, index_id = iid\<rparr>"
    unfolding bt_holds_def by (intro exI [of _ "GLeaf 1 []"] exI [of _ 1] exI [of _ 2]) simp
  with run show ?thesis by (rule that)
qed

text \<open>The log of a database whose updates are recorded elsewhere: the index needs only room in it.\<close>

lemma reopen_law:
  assumes h: "bt_holds kvs k s" and w: "\<forall>n. wal_room n (bt_wal s) \<longrightarrow> wal_room n w"
  shows "\<exists>s'. BTree_open (bt_file s) w iid = Ok s' \<and> bt_file s' = bt_file s \<and> bt_holds kvs k s'"
proof -
  obtain t d nx where i: "kvs = map kv (contents t)" "btree_inv t d nx (2 * k * (d + k + 1)) s" "bt_room k d nx"
    using h by (auto simp: bt_holds_def)
  have f: "file_ok (bt_file s) nx" "shape_ok t nx" using i(2) by (simp_all add: btree_inv_def bt_at_def)
  have "root_of t \<in> set (map fst (inn t) @ map fst (leaves t))" by (cases t) simp_all
  then have "nx \<noteq> 0" using f(2) by (auto simp: shape_ok_def)
  moreover have "btf_num_pages (bt_file s) = nx" using f(1) by (simp add: btf_num_pages_def file_ok_def n_blocks_def)
  ultimately have run: "BTree_open (bt_file s) w iid = Ok \<lparr>bt_file = bt_file s, bt_wal = w, index_id = iid\<rparr>"
    by (simp add: BTree_open_def)
  have "btree_inv t d nx (2 * k * (d + k + 1)) \<lparr>bt_file = bt_file s, bt_wal = w, index_id = iid\<rparr>"
    using i(2) w by (simp add: btree_inv_def bt_at_def)
  then show ?thesis using run i unfolding bt_holds_def by auto
qed

text \<open>A node larger than its page is not full: the unsigned difference wraps around.\<close>

lemma overfull_wraps:
  assumes "8192 < encoded_size n" and "encoded_size n < 2 ^ 33"
  shows "\<not> is_full n"
proof -
  have u: "unat (of_nat (encoded_size n) :: u64) = encoded_size n"
    using assms(2) by (simp add: unsigned_of_nat take_bit_nat_eq_self)
  then have "unat (of_nat 8192 - of_nat (encoded_size n) :: u64) = 8192 + 2 ^ 64 - encoded_size n"
    using assms(1) unat_sub_if' [of "8192 :: u64" "of_nat (encoded_size n)"] by simp
  then show ?thesis using assms(2) by (simp add: is_full_def word_less_nat_alt)
qed

lemma too_long:
  assumes h: "bt_holds kvs k s" and long: "8173 < length key" "length key < 2 ^ 32" and new: "key \<notin> fst ` set kvs"
  shows "bt_insert x key tid s = Some (Err (InvalidPage 0), s)"
proof -
  let ?e = "\<lparr>le_key = key, le_tid = tid\<rparr>"
  obtain t d nx n where kvs: "kvs = map kv (contents t)" and inv: "btree_inv t d nx n s" using h by (auto simp: bt_holds_def)
  obtain ctx p es where c: "t = fill ctx (GLeaf p es)" "d = Suc (length ctx)"
    "descend (bt_file s) key (root_of t) = Some (Ok (rev (map fst ctx) @ [p]))"
    "read_node (bt_file s) p = Ok (mk_leaf (last_page 0 (lleaves ctx)) (first_page (rleaves ctx) 0) es)"
    "\<forall>x \<in> set (ltokens ctx). x < (key, True)" "\<forall>x \<in> set (rtokens ctx). (key, True) < x"
    by (rule locate [OF inv])
  let ?nd = "mk_leaf (last_page 0 (lleaves ctx)) (first_page (rleaves ctx) 0)"
  have sh: "shape_ok (fill ctx (GLeaf p es)) nx" using inv by (simp add: btree_inv_def c(1))
  moreover have "key \<notin> le_key ` set es" using new key_here [OF c(5,6), of p es] by (simp add: kvs c(1) image_image)
  ultimately have find: "find_key (?nd es) key = None" using find_key_None [of "?nd es" key] leaf_keys_sorted by simp
  have size: "encoded_size (?nd (put ?e es)) = 8 + length key + keys_size 8 (map le_key es)"
    using put_size [of ?e es] by (simp add: node_sizes)
  have es: "11 \<le> keys_size 8 (map le_key es)" "keys_size 8 (map le_key es) \<le> 7892"
    using sh by (simp_all add: shape_ok_def tree_ok_fill leaf_ok_def keys_size_def)
  then have big: "8192 < encoded_size (?nd (put ?e es))" "encoded_size (?nd (put ?e es)) < 2 ^ 33" using long size by simp_all
  have nf: "\<not> is_full (?nd (put ?e es))" using big by (rule overfull_wraps)
  have err: "node_encode (?nd (put ?e es)) = Err (InvalidPage 0)" using big(1) by (simp add: node_encode_def)
  have "read_meta (bt_file s) = Ok (meta_of t d nx)" using inv by (simp add: btree_inv_def)
  then show ?thesis using c(3,4) find nf err by (simp add: bt_insert_def find_leaf_path_def insert_leaf Let_def write_node_def)
qed

section \<open>The interface\<close>

datatype iop = Insert key tid | Delete key | Search key | Scan "key option" "key option" | Count

datatype ires = Done | Found tid | Rows "(key \<times> tid) list" | Entries nat | Failed btree_error

fun kv_exec :: "iop \<Rightarrow> (key \<times> tid) list \<Rightarrow> ires \<times> (key \<times> tid) list" where
  "kv_exec (Insert key t) kvs = (if key \<in> fst ` set kvs then (Failed DuplicateKey, kvs) else (Done, kv_insert key t kvs))"
| "kv_exec (Delete key) kvs = (if key \<in> fst ` set kvs then (Done, kv_delete key kvs) else (Failed KeyNotFound, kvs))"
| "kv_exec (Search key) kvs = (case map_of kvs key of Some t \<Rightarrow> Found t | None \<Rightarrow> Failed KeyNotFound, kvs)"
| "kv_exec (Scan sk ek) kvs = (Rows (filter (\<lambda>x. in_range sk ek (fst x)) kvs), kvs)"
| "kv_exec Count kvs = (Entries (length kvs), kvs)"

text \<open>The same operations on the pages, for the transaction \<open>x\<close>; a panic or a run without end is \<open>None\<close>.\<close>

definition answer :: "('a \<Rightarrow> ires) \<Rightarrow> (btree_error, 'a) outcome \<Rightarrow> ires option" where
  "answer g r = (case r of Ok a \<Rightarrow> Some (g a) | Err e \<Rightarrow> Some (Failed e) | Panic \<Rightarrow> None)"

definition effect :: "((btree_error, unit) outcome \<times> btree) option \<Rightarrow> (ires \<times> btree) option" where
  "effect r = Option.bind r (\<lambda>(a, s). map_option (\<lambda>b. (b, s)) (answer (\<lambda>_. Done) a))"

fun bt_exec :: "u32 \<Rightarrow> iop \<Rightarrow> btree \<Rightarrow> (ires \<times> btree) option" where
  "bt_exec x (Insert key t) s = effect (bt_insert x key t s)"
| "bt_exec x (Delete key) s = effect (bt_delete x key s)"
| "bt_exec x (Search key) s = map_option (\<lambda>b. (b, s)) (Option.bind (bt_search key s) (answer Found))"
| "bt_exec x (Scan sk ek) s = map_option (\<lambda>b. (b, s)) (Option.bind (range_scan sk ek s) (answer Rows))"
| "bt_exec x Count s = map_option (\<lambda>b. (b, s)) (answer (\<lambda>n. Entries (unat n)) (bt_num_entries s))"

fun short :: "iop \<Rightarrow> bool" where
  "short (Insert key t) \<longleftrightarrow> length key \<le> MAX_KEY"
| "short _ \<longleftrightarrow> True"

primrec runs :: "(iop \<Rightarrow> 's \<Rightarrow> (ires \<times> 's) option) \<Rightarrow> iop list \<Rightarrow> 's \<Rightarrow> (ires list \<times> 's) option" where
  "runs f [] s = Some ([], s)"
| "runs f (p # ps) s = Option.bind (f p s) (\<lambda>(r, s1). map_option (\<lambda>(rs, s2). (r # rs, s2)) (runs f ps s1))"

locale ordered_index =
  fixes holds :: "(key \<times> tid) list \<Rightarrow> nat \<Rightarrow> 's \<Rightarrow> bool" and exec :: "iop \<Rightarrow> 's \<Rightarrow> (ires \<times> 's) option"
  assumes step: "holds kvs (Suc k) s \<Longrightarrow> short p
    \<Longrightarrow> \<exists>s'. exec p s = Some (fst (kv_exec p kvs), s') \<and> holds (snd (kv_exec p kvs)) k s'"
begin

lemma simulation:
  assumes "holds kvs (length ps + k) s" and "\<forall>p \<in> set ps. short p"
  shows "\<exists>rs kvs' s'. runs (\<lambda>p kvs. Some (kv_exec p kvs)) ps kvs = Some (rs, kvs') \<and> runs exec ps s = Some (rs, s') \<and> holds kvs' k s'"
  using assms
proof (induction ps arbitrary: kvs s)
  case (Cons p ps)
  have "holds kvs (Suc (length ps + k)) s" "short p" using Cons.prems by simp_all
  from step [OF this] obtain s1 where s1: "exec p s = Some (fst (kv_exec p kvs), s1)" "holds (snd (kv_exec p kvs)) (length ps + k) s1"
    by blast
  have "\<forall>p \<in> set ps. short p" using Cons.prems by simp
  from Cons.IH [OF s1(2) this] obtain rs kvs' s' where "runs (\<lambda>p kvs. Some (kv_exec p kvs)) ps (snd (kv_exec p kvs)) = Some (rs, kvs')"
    "runs exec ps s1 = Some (rs, s')" "holds kvs' k s'" by blast
  then show ?case using s1(1) by (cases "kv_exec p kvs") auto
qed simp

end

lemma exec_step:
  assumes h: "bt_holds kvs (Suc k) s" and p: "short p"
  shows "\<exists>s'. bt_exec x p s = Some (fst (kv_exec p kvs), s') \<and> bt_holds (snd (kv_exec p kvs)) k s'"
proof -
  have less: "bt_holds kvs k s" using h by (rule holds_mono) simp
  show ?thesis
  proof (cases p)
    case (Insert key t)
    then show ?thesis
      using insert_new [OF h, of key x t] insert_duplicate [OF h, of key x t] p less
      by (cases "key \<in> fst ` set kvs") (auto simp: effect_def answer_def)
  next
    case (Delete key)
    then show ?thesis
      using delete_found [OF h, of key x] delete_missing [OF h, of key x] less
      by (cases "key \<in> fst ` set kvs") (auto simp: effect_def answer_def)
  next
    case (Search key)
    then show ?thesis using search_law [OF h, of key] less by (auto simp: answer_def split: option.splits)
  next
    case (Scan sk ek)
    then show ?thesis using range_scan_law [OF h, of sk ek] less by (auto simp: answer_def)
  next
    case Count
    then show ?thesis using count_law [OF h] less by (auto simp: answer_def)
  qed
qed

interpretation index: ordered_index bt_holds "bt_exec x" for x
  by unfold_locales (rule exec_step)


lemma fresh_index:
  obtains w s where "WalWriter_open [] (\<lambda>_. 0) = Ok w" and "BTree_open [] w 7 = Ok s" and "bt_holds [] 100 s"
proof -
  obtain w where w: "WalWriter_open [] (\<lambda>_. 0) = Ok w" "wal_inv [(1, [], [])] w" "w_segment w = 1" by (rule fresh_writer)
  have "wal_room (2 * 100 * (100 + 2)) w"
    unfolding wal_room_def by (rule exI [of _ "[(1, [], [])]"]) (use w in \<open>simp add: chunk_records_def\<close>)
  then obtain s where "BTree_open [] w 7 = Ok s" "bt_holds [] 100 s" by (rule open_law) simp
  with w(1) show ?thesis by (rule that)
qed

section \<open>Properties\<close>

text \<open>
  \<^bold>\<open>C4.\<close> An index answers every sequence of insertions, deletions, searches, range scans and counts exactly as
  a sorted association list does, duplicate and missing keys included, as long as keys have at most 128
  bytes and page numbers and log have room; every operation returns.
\<close>

theorem index_answers_as_a_sorted_list:
  assumes "bt_holds kvs (length ps + k) s" and "\<forall>p \<in> set ps. short p"
  shows "\<exists>rs kvs' s'. runs (\<lambda>p kvs. Some (kv_exec p kvs)) ps kvs = Some (rs, kvs')
    \<and> runs (bt_exec x) ps s = Some (rs, s') \<and> bt_holds kvs' k s'"
  using assms by (rule index.simulation)

theorem index_answers_as_a_sorted_list_witness:
  "\<exists>w s s'. WalWriter_open [] (\<lambda>_. 0) = Ok w \<and> BTree_open [] w 7 = Ok s
    \<and> runs (bt_exec 3) [Insert [2] \<lparr>page_no = 0, slot = 1\<rparr>, Insert [1] \<lparr>page_no = 0, slot = 2\<rparr>, Scan None None, Delete [2], Search [2]] s
      = Some ([Done, Done, Rows [([1], \<lparr>page_no = 0, slot = 2\<rparr>), ([2], \<lparr>page_no = 0, slot = 1\<rparr>)], Done, Failed KeyNotFound], s')"
proof -
  let ?ps = "[Insert [2] \<lparr>page_no = 0, slot = 1\<rparr>, Insert [1] \<lparr>page_no = 0, slot = 2\<rparr>, Scan None None, Delete [2], Search [2]]"
  obtain w s where w: "WalWriter_open [] (\<lambda>_. 0) = Ok w" "BTree_open [] w 7 = Ok s" "bt_holds [] 100 s" by (rule fresh_index)
  have "bt_holds [] (length ?ps + 95) s" using w(3) by simp
  from index_answers_as_a_sorted_list [OF this, of 3] w(1,2) show ?thesis
    by (auto simp: kv_insert_def kv_delete_def in_range_def)
qed

text \<open>
  \<^bold>\<open>C5.\<close> Inserting a new key of at most 128 bytes returns and leaves a well-formed tree whose leaves, read from
  left to right, are the old entries with the new one at its place: nodes within their pages and readable from
  them, separators and keys in order, every leaf at the same depth as the stored height says, sibling
  pointers linking the leaves in order, no page used twice, the counter of entries right. At most one page
  per level and one for a new root are taken.
\<close>

theorem insert_keeps_the_tree:
  assumes "btree_inv t d nx (2 * d + 2 + c) s" and "length key \<le> MAX_KEY" and "unat nx + d + 2 < 2 ^ 32"
    and "key \<notin> le_key ` set (contents t)"
  shows "\<exists>s' t' d' nx'. bt_insert x key tid s = Some (Ok (), s') \<and> btree_inv t' d' nx' c s'
    \<and> contents t' = put \<lparr>le_key = key, le_tid = tid\<rparr> (contents t) \<and> d' \<le> Suc d \<and> unat nx' \<le> unat nx + Suc d"
  using assms by (rule insert_step)

theorem insert_keeps_the_tree_witness:
  "\<exists>w s s'. WalWriter_open [] (\<lambda>_. 0) = Ok w \<and> BTree_open [] w 7 = Ok s \<and> bt_insert 3 [5] \<lparr>page_no = 0, slot = 1\<rparr> s = Some (Ok (), s')"
proof -
  obtain w s where w: "WalWriter_open [] (\<lambda>_. 0) = Ok w" "BTree_open [] w 7 = Ok s" "bt_holds [] 100 s" by (rule fresh_index)
  then obtain t d nx where i: "contents t = []" "btree_inv t d nx (2 * 100 * (d + 100 + 1)) s" "bt_room 100 d nx"
    by (auto simp: bt_holds_def)
  have "btree_inv t d nx (2 * d + 2 + (198 * d + 20198)) s" using i(2) by (simp add: algebra_simps)
  moreover have "unat nx + d + 2 < 2 ^ 32" using i(3) by (simp add: bt_room_def)
  ultimately show ?thesis
    using insert_keeps_the_tree [of t d nx "198 * d + 20198" s "[5]" 3 "\<lparr>page_no = 0, slot = 1\<rparr>"] w(1,2) i(1) by auto
qed

text \<open>
  An index closed and opened again, from the bytes of its file, holds the entries it held.
\<close>

theorem index_survives_reopening:
  assumes "bt_holds kvs k s"
  shows "\<exists>s'. BTree_open (bt_file s) (bt_wal s) iid = Ok s' \<and> bt_file s' = bt_file s \<and> bt_holds kvs k s'"
  using assms by (rule reopen_law) simp

theorem index_survives_reopening_witness:
  "\<exists>w s. WalWriter_open [] (\<lambda>_. 0) = Ok w \<and> BTree_open [] w 7 = Ok s \<and> (\<exists>s'. BTree_open (bt_file s) (bt_wal s) 8 = Ok s')"
proof -
  obtain w s where w: "WalWriter_open [] (\<lambda>_. 0) = Ok w" "BTree_open [] w 7 = Ok s" "bt_holds [] 100 s" by (rule fresh_index)
  from index_survives_reopening [OF w(3), of 8] w(1,2) show ?thesis by blast
qed

text \<open>
  A key too long for a page is refused and changes nothing. The size of the node exceeds the page, the
  unsigned difference in \<^verbatim>\<open>is_full\<close> wraps around, the leaf passes for one with room, and the encoder
  reports the error.
\<close>

theorem oversized_key_is_refused:
  assumes "bt_holds kvs k s" and "8173 < length key" and "length key < 2 ^ 32" and "key \<notin> fst ` set kvs"
  shows "bt_insert x key tid s = Some (Err (InvalidPage 0), s)"
  using assms by (rule too_long)

theorem oversized_key_is_refused_witness:
  "\<exists>w s. WalWriter_open [] (\<lambda>_. 0) = Ok w \<and> BTree_open [] w 7 = Ok s
    \<and> bt_insert 3 (replicate 9000 1) \<lparr>page_no = 0, slot = 1\<rparr> s = Some (Err (InvalidPage 0), s)"
proof -
  obtain w s where w: "WalWriter_open [] (\<lambda>_. 0) = Ok w" "BTree_open [] w 7 = Ok s" "bt_holds [] 100 s" by (rule fresh_index)
  from oversized_key_is_refused [OF w(3), of "replicate 9000 1" 3 "\<lparr>page_no = 0, slot = 1\<rparr>"] w(1,2) show ?thesis by auto
qed

end
