(* ===== verification/Cycle_Check.thy ===== *)
theory Cycle_Check
  imports Txn_Core
begin

text \<open>
  The depth-first search behind the serializability check, \<^verbatim>\<open>has_cycle\<close> and \<^verbatim>\<open>dfs\<close> of
  \<^verbatim>\<open>txn/src/manager.rs\<close>. The visited and path sets are threaded through the recursion as the
  source mutates them. Fuel bounds the depth; one more than the number of nodes is shown to be enough,
  and the answer to be exactly whether a cycle can be reached.
\<close>

section \<open>Definitions\<close>

type_synonym graph = "(xid \<times> xid list) list"

definition neighbors :: "graph \<Rightarrow> xid \<Rightarrow> xid list" where
  "neighbors edges n = (case map_of edges n of Some ns \<Rightarrow> ns | None \<Rightarrow> [])"

fun dfs :: "nat \<Rightarrow> graph \<Rightarrow> xid \<Rightarrow> xid set \<times> xid set \<Rightarrow> (bool \<times> xid set \<times> xid set) option"
  and dfs_list :: "nat \<Rightarrow> graph \<Rightarrow> xid list \<Rightarrow> xid set \<times> xid set \<Rightarrow> (bool \<times> xid set \<times> xid set) option" where
  "dfs 0 edges node s = None"
| "dfs (Suc fuel) edges node (visited, path) =
     (if node \<in> path then Some (True, visited, path)
      else if node \<in> visited then Some (False, visited, path)
      else case dfs_list fuel edges (neighbors edges node) (insert node visited, insert node path) of
        None \<Rightarrow> None
      | Some (True, s) \<Rightarrow> Some (True, s)
      | Some (False, v, p) \<Rightarrow> Some (False, v, p - {node}))"
| "dfs_list fuel edges [] s = Some (False, s)"
| "dfs_list fuel edges (x # xs) s =
     (case dfs fuel edges x s of
        None \<Rightarrow> None
      | Some (True, s') \<Rightarrow> Some (True, s')
      | Some (False, s') \<Rightarrow> dfs_list fuel edges xs s')"

definition nodes :: "xid \<Rightarrow> graph \<Rightarrow> xid list" where
  "nodes start edges = remdups (start # concat (map (\<lambda>(a, bs). a # bs) edges))"

definition has_cycle :: "xid \<Rightarrow> graph \<Rightarrow> bool option" where
  "has_cycle start edges = map_option fst (dfs (Suc (length (nodes start edges))) edges start ({}, {}))"

definition edge :: "graph \<Rightarrow> xid \<Rightarrow> xid \<Rightarrow> bool" where
  "edge edges a b \<longleftrightarrow> b \<in> set (neighbors edges a)"

section \<open>What a finished search leaves behind\<close>

lemma dfs_keeps:
  "dfs fuel edges node s = Some (False, v', p') \<Longrightarrow> p' = snd s \<and> fst s \<subseteq> v'"
  "dfs_list fuel edges xs s = Some (False, v', p') \<Longrightarrow> p' = snd s \<and> fst s \<subseteq> v'"
proof (induction fuel edges node s and fuel edges xs s arbitrary: v' p' and v' p' rule: dfs_dfs_list.induct)
  case (2 fuel edges node visited path)
  then show ?case by (auto split: if_splits option.splits prod.splits bool.splits)
next
  case (4 fuel edges x xs s)
  obtain v1 p1 where d: "dfs fuel edges x s = Some (False, v1, p1)"
    and r: "dfs_list fuel edges xs (v1, p1) = Some (False, v', p')"
    using "4.prems" by (auto split: option.splits prod.splits bool.splits)
  show ?case using "4.IH"(1) [OF d] "4.IH"(2) [OF d refl refl r] by auto
qed auto

text \<open>A set built up node by node, each after all its successors, has no cycle and no way out.\<close>

inductive built :: "graph \<Rightarrow> xid set \<Rightarrow> bool" for edges where
  empty: "built edges {}"
| add: "built edges F \<Longrightarrow> set (neighbors edges n) \<subseteq> F \<Longrightarrow> built edges (insert n F)"

lemma built_acyclic:
  assumes "built edges F" and "x \<in> F" and "(edge edges)\<^sup>*\<^sup>* x y"
  shows "y \<in> F \<and> \<not> (edge edges)\<^sup>+\<^sup>+ y y"
  using assms
proof (induction arbitrary: x y)
  case empty
  then show ?case by simp
next
  case (add F n)
  have from_F: "y \<in> F \<and> \<not> (edge edges)\<^sup>+\<^sup>+ y y" if "z \<in> F" "(edge edges)\<^sup>*\<^sup>* z y" for z y
    using add.IH that by blast
  have succ: "z \<in> F" if "edge edges n z" for z using that add.hyps(2) by (auto simp: edge_def)
  have n_free: "\<not> (edge edges)\<^sup>+\<^sup>+ n n" if "n \<notin> F"
    using that from_F succ by (metis tranclpD)
  consider "x \<in> F" | "x = n" "x \<notin> F" using add.prems(1) by auto
  then show ?case
  proof cases
    case 1
    then show ?thesis using from_F add.prems(2) by blast
  next
    case 2
    then show ?thesis
      using add.prems(2) n_free from_F succ by (metis converse_rtranclpE insertI1 insertI2)
  qed
qed

lemma dfs_builds:
  "dfs fuel edges node s = Some (False, v', p') \<Longrightarrow> snd s \<subseteq> fst s \<Longrightarrow> built edges (fst s - snd s)
    \<Longrightarrow> node \<in> v' - snd s \<and> built edges (v' - snd s)"
  "dfs_list fuel edges xs s = Some (False, v', p') \<Longrightarrow> snd s \<subseteq> fst s \<Longrightarrow> built edges (fst s - snd s)
    \<Longrightarrow> set xs \<subseteq> v' - snd s \<and> built edges (v' - snd s)"
proof (induction fuel edges node s and fuel edges xs s arbitrary: v' p' and v' p' rule: dfs_dfs_list.induct)
  case (2 fuel edges node visited path)
  consider (seen) "node \<notin> path" "node \<in> visited" "v' = visited"
    | (new) "node \<notin> path" "node \<notin> visited"
      "dfs_list fuel edges (neighbors edges node) (insert node visited, insert node path) = Some (False, v', insert node path)"
    using "2.prems"(1) dfs_keeps(2) [of fuel edges "neighbors edges node" "(insert node visited, insert node path)"]
    by (auto split: if_splits option.splits prod.splits bool.splits)
  then show ?case
  proof cases
    case seen
    then show ?thesis using "2.prems" by simp
  next
    case new
    have sub: "snd (insert node visited, insert node path) \<subseteq> fst (insert node visited, insert node path)"
      using "2.prems"(2) by auto
    have "insert node visited - insert node path = visited - path" using new by auto
    then have b: "built edges (fst (insert node visited, insert node path) - snd (insert node visited, insert node path))"
      using "2.prems"(3) by simp
    have l: "set (neighbors edges node) \<subseteq> v' - insert node path" "built edges (v' - insert node path)"
      using "2.IH" [OF new(1,2) new(3) sub b] by auto
    have "node \<in> v'" using dfs_keeps(2) [OF new(3)] by auto
    then have "v' - path = insert node (v' - insert node path)" using new(1) by auto
    with l \<open>node \<in> v'\<close> new(1) show ?thesis by (auto intro: built.add)
  qed
next
  case (4 fuel edges x xs s)
  obtain v1 p1 where d: "dfs fuel edges x s = Some (False, v1, p1)"
    and r: "dfs_list fuel edges xs (v1, p1) = Some (False, v', p')"
    using "4.prems"(1) by (auto split: option.splits prod.splits bool.splits)
  have k: "p1 = snd s" "fst s \<subseteq> v1" "v1 \<subseteq> v'" using dfs_keeps(1) [OF d] dfs_keeps(2) [OF r] by auto
  have "x \<in> v1 - snd s" "built edges (v1 - snd s)"
    using "4.IH"(1) [OF d "4.prems"(2,3)] by auto
  moreover from this have "set xs \<subseteq> v' - snd s" "built edges (v' - snd s)"
    using "4.IH"(2) [OF d refl refl r] k "4.prems"(2) by auto
  ultimately show ?case using k by auto
qed auto

section \<open>A positive answer means a cycle\<close>

lemma dfs_sound:
  "dfs fuel edges node s = Some (True, s') \<Longrightarrow> \<forall>p \<in> snd s. (edge edges)\<^sup>+\<^sup>+ p node
    \<Longrightarrow> \<exists>y. (edge edges)\<^sup>*\<^sup>* node y \<and> (edge edges)\<^sup>+\<^sup>+ y y"
  "dfs_list fuel edges xs s = Some (True, s') \<Longrightarrow> \<forall>p \<in> snd s. \<forall>x \<in> set xs. (edge edges)\<^sup>+\<^sup>+ p x
    \<Longrightarrow> \<exists>x \<in> set xs. \<exists>y. (edge edges)\<^sup>*\<^sup>* x y \<and> (edge edges)\<^sup>+\<^sup>+ y y"
proof (induction fuel edges node s and fuel edges xs s arbitrary: s' and s' rule: dfs_dfs_list.induct)
  case (2 fuel edges node visited path)
  show ?case
  proof (cases "node \<in> path")
    case True
    then show ?thesis using "2.prems"(2) by auto
  next
    case False
    let ?s = "(insert node visited, insert node path)"
    have nv: "node \<notin> visited" and l: "dfs_list fuel edges (neighbors edges node) ?s = Some (True, s')"
      using "2.prems"(1) False by (auto split: if_splits option.splits prod.splits bool.splits)
    have "\<forall>p \<in> snd ?s. \<forall>x \<in> set (neighbors edges node). (edge edges)\<^sup>+\<^sup>+ p x"
    proof (intro ballI)
      fix p x assume "p \<in> snd ?s" "x \<in> set (neighbors edges node)"
      then have "edge edges node x" and "p = node \<or> (edge edges)\<^sup>+\<^sup>+ p node"
        using "2.prems"(2) by (simp add: edge_def, auto)
      then show "(edge edges)\<^sup>+\<^sup>+ p x" by (metis tranclp.r_into_trancl tranclp.trancl_into_trancl)
    qed
    then obtain x y where "x \<in> set (neighbors edges node)" "(edge edges)\<^sup>*\<^sup>* x y" "(edge edges)\<^sup>+\<^sup>+ y y"
      using "2.IH" [OF False nv l] by blast
    then show ?thesis by (meson converse_rtranclp_into_rtranclp edge_def)
  qed
next
  case (4 fuel edges x xs s)
  from "4.prems"(1) consider (here) "dfs fuel edges x s = Some (True, s')"
    | (later) v1 p1 where "dfs fuel edges x s = Some (False, v1, p1)" "dfs_list fuel edges xs (v1, p1) = Some (True, s')"
    by (auto split: option.splits prod.splits bool.splits)
  then show ?case
  proof cases
    case here
    then show ?thesis using "4.IH"(1) [OF here] "4.prems"(2) by auto
  next
    case (later v1 p1)
    then show ?thesis using "4.IH"(2) [OF later(1) refl refl later(2)] "4.prems"(2) dfs_keeps(1) [OF later(1)] by auto
  qed
qed auto

section \<open>Fuel\<close>

lemma dfs_returns:
  "node \<in> N \<Longrightarrow> finite N \<Longrightarrow> (\<forall>a \<in> N. set (neighbors edges a) \<subseteq> N) \<Longrightarrow> card (N - fst s) < fuel
    \<Longrightarrow> dfs fuel edges node s \<noteq> None"
  "set xs \<subseteq> N \<Longrightarrow> finite N \<Longrightarrow> (\<forall>a \<in> N. set (neighbors edges a) \<subseteq> N) \<Longrightarrow> card (N - fst s) < fuel
    \<Longrightarrow> dfs_list fuel edges xs s \<noteq> None"
proof (induction fuel edges node s and fuel edges xs s rule: dfs_dfs_list.induct)
  case (2 fuel edges node visited path)
  show ?case
  proof (cases "node \<in> path \<or> node \<in> visited")
    case True
    then show ?thesis by auto
  next
    case False
    have "N - visited = insert node (N - insert node visited)" using False "2.prems"(1) by auto
    then have "card (N - insert node visited) < fuel"
      using "2.prems"(2,4) by (simp add: card_insert_if)
    then have "dfs_list fuel edges (neighbors edges node) (insert node visited, insert node path) \<noteq> None"
      using "2.IH" False "2.prems" by auto
    then show ?thesis using False by (auto split: option.splits prod.splits bool.splits)
  qed
next
  case (4 fuel edges x xs s)
  have "dfs fuel edges x s \<noteq> None" using 4 by simp
  then obtain b v1 p1 where d: "dfs fuel edges x s = Some (b, v1, p1)" by auto
  show ?case
  proof (cases b)
    case True
    then show ?thesis using d by simp
  next
    case False
    with d have "dfs fuel edges x s = Some (False, v1, p1)" by simp
    then have "fst s \<subseteq> v1" by (simp add: dfs_keeps(1))
    then have "card (N - v1) \<le> card (N - fst s)" using "4.prems"(2) by (intro card_mono) auto
    then have "dfs_list fuel edges xs (v1, p1) \<noteq> None"
      using "4.IH"(2) [OF d] False "4.prems" by auto
    then show ?thesis using d False by simp
  qed
qed auto

lemma set_nodes: "set (nodes start edges) = insert start (\<Union>(a, bs) \<in> set edges. insert a (set bs))"
  unfolding nodes_def set_remdups by auto

lemma nodes_closed: "set (neighbors edges a) \<subseteq> set (nodes start edges)"
  by (cases "map_of edges a") (auto simp: set_nodes neighbors_def dest!: map_of_SomeD)

lemma has_cycle_iff:
  "has_cycle start edges = Some (\<exists>x. (edge edges)\<^sup>*\<^sup>* start x \<and> (edge edges)\<^sup>+\<^sup>+ x x)"
proof -
  let ?N = "set (nodes start edges)"
  have "start \<in> ?N" by (simp add: nodes_def)
  moreover have "card (?N - fst ({}, {})) < Suc (length (nodes start edges))"
    by (simp add: card_length less_Suc_eq_le)
  ultimately have "dfs (Suc (length (nodes start edges))) edges start ({}, {}) \<noteq> None"
    using nodes_closed by (intro dfs_returns(1)) auto
  then obtain b v p where d: "dfs (Suc (length (nodes start edges))) edges start ({}, {}) = Some (b, v, p)" by auto
  have "b \<longleftrightarrow> (\<exists>x. (edge edges)\<^sup>*\<^sup>* start x \<and> (edge edges)\<^sup>+\<^sup>+ x x)"
  proof (cases b)
    case True
    with d have "dfs (Suc (length (nodes start edges))) edges start ({}, {}) = Some (True, v, p)" by simp
    from dfs_sound(1) [OF this] True show ?thesis by simp
  next
    case False
    with d have "dfs (Suc (length (nodes start edges))) edges start ({}, {}) = Some (False, v, p)" by simp
    from dfs_builds(1) [OF this] have "start \<in> v \<and> built edges v" by (simp add: built.empty)
    then show ?thesis using False built_acyclic by blast
  qed
  then show ?thesis using d by (simp add: has_cycle_def)
qed

section \<open>Properties\<close>

text \<open>
  The cycle check always returns, and its answer is exactly whether a cycle can be reached from
  the start.
\<close>

theorem has_cycle_correct:
  "has_cycle start edges = Some (\<exists>x. (edge edges)\<^sup>*\<^sup>* start x \<and> (edge edges)\<^sup>+\<^sup>+ x x)"
  by (rule has_cycle_iff)

end
