(* ===== verification/Heap_File.thy ===== *)
theory Heap_File
  imports Block_File
begin

text \<open>
  The heap file of \<^verbatim>\<open>storage/src/heap.rs\<close>: reading, writing and allocating pages, first-fit
  tuple insertion (immediate, or prepared in memory so that a log record can be written first),
  lookup and physical deletion by tuple identifier. The file is shown to implement the tuple
  store contract over the map from identifiers to tuples.
\<close>

section \<open>Definitions\<close>

type_synonym heap = disk_file

definition num_pages :: "heap \<Rightarrow> u32" where
  "num_pages h = of_nat (length h div PAGE_SIZE)"

definition heap_read_page :: "heap \<Rightarrow> u32 \<Rightarrow> (heap_error, page) outcome" where
  "heap_read_page h pn =
     (if pn \<ge> num_pages h then Err (PageNotFound pn)
      else let page = slice (unat pn * PAGE_SIZE) PAGE_SIZE h in
        if \<not> verify_checksum page then Err (HeapPage ChecksumMismatch) else Ok page)"

definition heap_write_page :: "u32 \<Rightarrow> page \<Rightarrow> (heap, heap_error, unit) sop" where
  "heap_write_page pn p = smod (\<lambda>h. file_write_at h (unat pn * PAGE_SIZE) (update_checksum p))"

definition heap_allocate_page :: "(heap, heap_error, u32) sop" where
  "heap_allocate_page = (\<lambda>h. (Ok (num_pages h), h @ update_checksum Page_new))"

text \<open>The page loop of \<^verbatim>\<open>insert_tuple\<close>: it writes the page it found room in and returns.\<close>

primrec insert_loop :: "byte list \<Rightarrow> nat list \<Rightarrow> (heap, heap_error, tid option) sop" where
  "insert_loop enc [] = sret None"
| "insert_loop enc (i # is) =
     sbind (slift (\<lambda>h. heap_read_page h (of_nat i))) (\<lambda>page.
       if unat (free_space page) \<ge> length enc + ITEM_ID_SIZE
       then sbind (slift (\<lambda>_. map_err HeapPage (page_insert_tuple page enc))) (\<lambda>(page', sl).
            sbind (heap_write_page (of_nat i) page') (\<lambda>_.
            sret (Some (TID_new (of_nat i) sl))))
       else insert_loop enc is)"

definition heap_insert_tuple :: "tuple \<Rightarrow> (heap, heap_error, tid) sop" where
  "heap_insert_tuple t =
     (let enc = Tuple_encode t in
      sbind (\<lambda>h. insert_loop enc [0..<unat (num_pages h)] h) (\<lambda>found.
        case found of
          Some tid \<Rightarrow> sret tid
        | None \<Rightarrow>
            sbind heap_allocate_page (\<lambda>pn.
            sbind (slift (\<lambda>h. heap_read_page h pn)) (\<lambda>page.
            sbind (slift (\<lambda>_. map_err HeapPage (page_insert_tuple page enc))) (\<lambda>(page', sl).
            sbind (heap_write_page pn page') (\<lambda>_.
            sret (TID_new pn sl)))))))"

text \<open>The page loop of \<^verbatim>\<open>find_and_prepare_insert\<close>: nothing is written.\<close>

primrec prepare_loop :: "byte list \<Rightarrow> nat list \<Rightarrow> heap \<Rightarrow> (heap_error, (u32 \<times> page \<times> u16) option) outcome" where
  "prepare_loop enc [] h = Ok None"
| "prepare_loop enc (i # is) h =
     obind (heap_read_page h (of_nat i)) (\<lambda>page.
       if unat (free_space page) \<ge> length enc + ITEM_ID_SIZE
       then obind (map_err HeapPage (page_insert_tuple page enc)) (\<lambda>(page', sl).
            Ok (Some (of_nat i, page', sl)))
       else prepare_loop enc is h)"

definition find_and_prepare_insert :: "byte list \<Rightarrow> (heap, heap_error, u32 \<times> page \<times> u16) sop" where
  "find_and_prepare_insert enc =
     sbind (slift (\<lambda>h. prepare_loop enc [0..<unat (num_pages h)] h)) (\<lambda>found.
       case found of
         Some r \<Rightarrow> sret r
       | None \<Rightarrow>
           sbind heap_allocate_page (\<lambda>pn.
           sbind (slift (\<lambda>h. heap_read_page h pn)) (\<lambda>page.
           sbind (slift (\<lambda>_. map_err HeapPage (page_insert_tuple page enc))) (\<lambda>(page', sl).
           sret (pn, page', sl)))))"

definition heap_get_tuple :: "heap \<Rightarrow> tid \<Rightarrow> (heap_error, tuple) outcome" where
  "heap_get_tuple h t =
     obind (heap_read_page h (page_no t)) (\<lambda>page.
     obind (map_err HeapPage (page_get_tuple page (slot t))) (\<lambda>bytes.
     map_err HeapTuple (Tuple_decode bytes)))"

definition heap_delete_tuple :: "tid \<Rightarrow> (heap, heap_error, unit) sop" where
  "heap_delete_tuple t =
     sbind (slift (\<lambda>h. heap_read_page h (page_no t))) (\<lambda>page.
     sbind (slift (\<lambda>_. map_err HeapPage (page_delete_tuple page (slot t)))) (\<lambda>page'.
     heap_write_page (page_no t) page'))"

section \<open>Invariant and abstraction\<close>

definition heap_wf :: "heap \<Rightarrow> bool" where
  "heap_wf h \<longleftrightarrow> blocked h \<and> n_blocks h < 2 ^ 32
     \<and> (\<forall>i < n_blocks h. page_wf (block h i) \<and> verify_checksum (block h i))"

definition heap_raw :: "heap \<Rightarrow> tid \<Rightarrow> byte list option" where
  "heap_raw h t = (if unat (page_no t) < n_blocks h
     then page_abs (block h (unat (page_no t))) (slot t) else None)"

definition tuples_ok :: "heap \<Rightarrow> bool" where
  "tuples_ok h \<longleftrightarrow> (\<forall>t b. heap_raw h t = Some b \<longrightarrow> is_ok (Tuple_decode b))"

definition heap_inv :: "heap \<Rightarrow> bool" where
  "heap_inv h \<longleftrightarrow> heap_wf h \<and> tuples_ok h"

definition decode_opt :: "byte list \<Rightarrow> tuple option" where
  "decode_opt b = (case Tuple_decode b of Ok t \<Rightarrow> Some t | _ \<Rightarrow> None)"

definition heap_abs :: "heap \<Rightarrow> tid \<Rightarrow> tuple option" where
  "heap_abs h t = Option.bind (heap_raw h t) decode_opt"

text \<open>The page the first-fit search settles on, and the file with that page allocated.\<close>

definition fresh_page :: page where
  "fresh_page = update_checksum Page_new"

definition has_room :: "heap \<Rightarrow> byte list \<Rightarrow> nat \<Rightarrow> bool" where
  "has_room h enc i \<longleftrightarrow> length enc + ITEM_ID_SIZE \<le> unat (free_space (block h i))"

definition target :: "heap \<Rightarrow> byte list \<Rightarrow> nat \<times> heap" where
  "target h enc = (case List.find (has_room h enc) [0..<n_blocks h] of
      Some i \<Rightarrow> (i, h) | None \<Rightarrow> (n_blocks h, h @ fresh_page))"

section \<open>Page level\<close>

lemma fresh_page_facts:
  "page_wf fresh_page" "verify_checksum fresh_page" "length fresh_page = PAGE_SIZE"
  "page_abs fresh_page s = None" "unat (free_space fresh_page) = 8168"
proof -
  note facts = update_checksum_wf [OF Page_new_wf, folded fresh_page_def]
  show "page_wf fresh_page" "verify_checksum fresh_page" "length fresh_page = PAGE_SIZE"
    using facts(1) Page_new_header by (auto simp: fresh_page_def verify_update_checksum)
  show "page_abs fresh_page s = None"
    using facts(3) by (simp add: page_abs_def n_slots_def Page_new_header)
  show "unat (free_space fresh_page) = 8168"
    using facts(4) by (simp add: unat_free_space [OF Page_new_wf] Page_new_header)
qed

lemma unat_num_pages: "heap_wf h \<Longrightarrow> unat (num_pages h) = n_blocks h"
  by (simp add: num_pages_def heap_wf_def n_blocks_def)

lemma heap_read_ok:
  assumes "heap_wf h"
  shows "heap_read_page h pn
    = (if unat pn < n_blocks h then Ok (block h (unat pn)) else Err (PageNotFound pn))"
  using assms unat_num_pages [OF assms]
  by (auto simp: heap_read_page_def heap_wf_def block_def word_le_nat_alt Let_def)

lemma heap_read_nat:
  "heap_wf h \<Longrightarrow> i < n_blocks h \<Longrightarrow> heap_read_page h (of_nat i) = Ok (block h i)"
  by (simp add: heap_read_ok heap_wf_def)

lemma heap_write_wf:
  assumes wf: "heap_wf h" and i: "unat pn < n_blocks h" and p: "page_wf p"
  defines "h' \<equiv> file_write_at h (unat pn * PAGE_SIZE) (update_checksum p)"
  shows "heap_write_page pn p h = (Ok (), h')" and "heap_wf h'" and "n_blocks h' = n_blocks h"
    and "block h' (unat pn) = update_checksum p"
    and "j \<noteq> unat pn \<Longrightarrow> block h' j = block h j"
    and "heap_raw h' t = (if page_no t = pn then page_abs p (slot t) else heap_raw h t)"
proof -
  have b: "blocked h" using wf by (simp add: heap_wf_def)
  have len: "length (update_checksum p) = PAGE_SIZE" using p by auto
  note wb = write_block [OF b i len, folded h'_def]
  show "heap_write_page pn p h = (Ok (), h')" by (simp add: heap_write_page_def h'_def)
  show "n_blocks h' = n_blocks h" "block h' (unat pn) = update_checksum p"
    "j \<noteq> unat pn \<Longrightarrow> block h' j = block h j" using wb by simp_all
  have "page_wf (block h' j) \<and> verify_checksum (block h' j)" if "j < n_blocks h" for j
    using wf that wb(3,4) update_checksum_wf(1) [OF p] verify_update_checksum [of p] p
    by (cases "j = unat pn") (auto simp: heap_wf_def)
  then show "heap_wf h'" using wf wb by (simp add: heap_wf_def)
  have "unat (page_no t) \<noteq> unat pn" if "page_no t \<noteq> pn"
    using that by (metis unsigned_word_eqI)
  then show "heap_raw h' t = (if page_no t = pn then page_abs p (slot t) else heap_raw h t)"
    using wb i update_checksum_wf(3) [OF p] by (auto simp: heap_raw_def)
qed

lemma heap_allocate_wf:
  assumes wf: "heap_wf h" and room: "Suc (n_blocks h) < 2 ^ 32"
  shows "heap_allocate_page h = (Ok (of_nat (n_blocks h)), h @ fresh_page)"
    and "heap_wf (h @ fresh_page)" and "n_blocks (h @ fresh_page) = Suc (n_blocks h)"
    and "block (h @ fresh_page) (n_blocks h) = fresh_page"
    and "i < n_blocks h \<Longrightarrow> block (h @ fresh_page) i = block h i"
    and "heap_raw (h @ fresh_page) = heap_raw h"
proof -
  have b: "blocked h" using wf by (simp add: heap_wf_def)
  note ab = append_block [OF b fresh_page_facts(3)]
  show "heap_allocate_page h = (Ok (of_nat (n_blocks h)), h @ fresh_page)"
    by (simp add: heap_allocate_page_def num_pages_def n_blocks_def fresh_page_def)
  show "n_blocks (h @ fresh_page) = Suc (n_blocks h)" "block (h @ fresh_page) (n_blocks h) = fresh_page"
    "i < n_blocks h \<Longrightarrow> block (h @ fresh_page) i = block h i" using ab by simp_all
  show "heap_wf (h @ fresh_page)"
    using wf room ab fresh_page_facts(1,2) by (auto simp: heap_wf_def less_Suc_eq)
  show "heap_raw (h @ fresh_page) = heap_raw h"
    using ab fresh_page_facts(4) by (auto simp: heap_raw_def fun_eq_iff less_Suc_eq)
qed

section \<open>First-fit insertion\<close>

text \<open>What both page loops hand back when they settle on page \<open>i\<close>.\<close>

definition placed :: "heap \<Rightarrow> byte list \<Rightarrow> nat \<Rightarrow> u32 \<times> page \<times> u16" where
  "placed h enc i = (of_nat i, inserted (block h i) enc, num_slots (block h i))"

definition stored :: "heap \<Rightarrow> byte list \<Rightarrow> nat \<Rightarrow> heap" where
  "stored h enc i = file_write_at h (i * PAGE_SIZE) (update_checksum (inserted (block h i) enc))"

lemma page_insert_room:
  "heap_wf h \<Longrightarrow> i < n_blocks h \<Longrightarrow> has_room h enc i \<Longrightarrow>
    page_insert_tuple (block h i) enc = Ok (inserted (block h i) enc, num_slots (block h i))"
  by (simp add: has_room_def heap_wf_def page_insert_eq add.commute)

lemma prepare_loop_eq:
  assumes "heap_wf h" and "set is \<subseteq> {..<n_blocks h}"
  shows "prepare_loop enc is h = Ok (map_option (placed h enc) (List.find (has_room h enc) is))"
  using assms(2)
proof (induction "is")
  case Nil
  then show ?case by simp
next
  case (Cons i "is")
  then have i: "i < n_blocks h" by simp
  show ?case
    using Cons i page_insert_room [OF assms(1) i, of enc]
    by (auto simp: heap_read_nat [OF assms(1) i] has_room_def placed_def)
qed

lemma insert_loop_eq:
  assumes "heap_wf h" and "set is \<subseteq> {..<n_blocks h}"
  shows "insert_loop enc is h =
    (case List.find (has_room h enc) is of
       None \<Rightarrow> (Ok None, h)
     | Some i \<Rightarrow> (Ok (Some (TID_new (of_nat i) (num_slots (block h i)))), stored h enc i))"
  using assms(2)
proof (induction "is")
  case Nil
  then show ?case by simp
next
  case (Cons i "is")
  then have i: "i < n_blocks h" by simp
  have u: "unat (of_nat i :: u32) = i" using assms(1) i by (simp add: heap_wf_def)
  show ?case
  proof (cases "has_room h enc i")
    case True
    then have "\<not> unat (free_space (block h i)) < length enc + 4" by (simp add: has_room_def)
    with True page_insert_room [OF assms(1) i True] show ?thesis
      by (simp add: heap_read_nat [OF assms(1) i] heap_write_page_def stored_def u)
  next
    case False
    then have "unat (free_space (block h i)) < length enc + 4" by (simp add: has_room_def)
    with False Cons show ?thesis
      by (simp add: heap_read_nat [OF assms(1) i])
  qed
qed

lemma find_Some_lt: "List.find P [0..<n] = Some i \<Longrightarrow> i < n \<and> P i"
  by (auto simp: find_Some_iff)

lemma find_first_fit:
  "List.find P [0..<n] = Some i \<longleftrightarrow> i < n \<and> P i \<and> (\<forall>j<i. \<not> P j)"
  by (auto simp: find_Some_iff)

lemma target_cases:
  assumes wf: "heap_wf h" and room: "Suc (n_blocks h) < 2 ^ 32"
    and fits: "length enc \<le> 8164" and t: "target h enc = (i, h')"
  shows "heap_wf h'" and "i < n_blocks h'" and "has_room h' enc i" and "heap_raw h' = heap_raw h"
    and "n_blocks h' \<le> Suc (n_blocks h)" and "h' = h \<or> h' = h @ fresh_page"
proof -
  note al = heap_allocate_wf [OF wf room]
  have fresh: "has_room (h @ fresh_page) enc (n_blocks h)"
    using fits by (simp add: has_room_def al(4) fresh_page_facts(5))
  show "heap_wf h'" "i < n_blocks h'" "has_room h' enc i" "heap_raw h' = heap_raw h"
    "n_blocks h' \<le> Suc (n_blocks h)" "h' = h \<or> h' = h @ fresh_page"
    using t wf al(2,3,6) fresh
    by (auto simp: target_def split: option.splits dest: find_Some_lt)
qed

lemma prepare_insert_eq:
  assumes wf: "heap_wf h" and room: "Suc (n_blocks h) < 2 ^ 32" and fits: "length enc \<le> 8164"
  shows "find_and_prepare_insert enc h
    = (case target h enc of (i, h') \<Rightarrow> (Ok (placed h' enc i), h'))"
proof -
  note al = heap_allocate_wf [OF wf room]
  have loop: "prepare_loop enc [0..<unat (num_pages h)] h
      = Ok (map_option (placed h enc) (List.find (has_room h enc) [0..<n_blocks h]))"
    using wf by (subst prepare_loop_eq) (auto simp: unat_num_pages)
  show ?thesis
  proof (cases "List.find (has_room h enc) [0..<n_blocks h]")
    case None
    then have t: "target h enc = (n_blocks h, h @ fresh_page)" by (simp add: target_def)
    from target_cases [OF wf room fits t]
    have "page_insert_tuple fresh_page enc = Ok (inserted fresh_page enc, num_slots fresh_page)"
      using page_insert_room [of "h @ fresh_page" "n_blocks h" enc] al(4) by simp
    then show ?thesis
      using None al by (simp add: find_and_prepare_insert_def loop t heap_read_nat placed_def)
  next
    case (Some i)
    then show ?thesis by (simp add: find_and_prepare_insert_def loop target_def)
  qed
qed

lemma insert_tuple_eq:
  assumes wf: "heap_wf h" and room: "Suc (n_blocks h) < 2 ^ 32"
    and fits: "length (Tuple_encode t) \<le> 8164"
  shows "heap_insert_tuple t h = (case target h (Tuple_encode t) of
      (i, h') \<Rightarrow> (Ok (TID_new (of_nat i) (num_slots (block h' i))), stored h' (Tuple_encode t) i))"
proof -
  let ?enc = "Tuple_encode t"
  note al = heap_allocate_wf [OF wf room]
  have loop: "insert_loop ?enc [0..<unat (num_pages h)] h =
    (case List.find (has_room h ?enc) [0..<n_blocks h] of
       None \<Rightarrow> (Ok None, h)
     | Some i \<Rightarrow> (Ok (Some (TID_new (of_nat i) (num_slots (block h i)))), stored h ?enc i))"
    using wf by (subst insert_loop_eq) (auto simp: unat_num_pages)
  show ?thesis
  proof (cases "List.find (has_room h ?enc) [0..<n_blocks h]")
    case None
    then have t: "target h ?enc = (n_blocks h, h @ fresh_page)" by (simp add: target_def)
    from target_cases [OF wf room fits t]
    have "page_insert_tuple fresh_page ?enc = Ok (inserted fresh_page ?enc, num_slots fresh_page)"
      using page_insert_room [of "h @ fresh_page" "n_blocks h" ?enc] al(4) by simp
    moreover have "unat (of_nat (n_blocks h) :: u32) = n_blocks h"
      using room by simp
    ultimately show ?thesis
      using None al
      by (simp add: heap_insert_tuple_def Let_def loop t heap_read_nat heap_write_page_def stored_def)
  next
    case (Some i)
    then show ?thesis by (simp add: heap_insert_tuple_def Let_def loop target_def)
  qed
qed

text \<open>The whole effect of storing bytes on a page with room.\<close>

lemma stored_law:
  assumes wf: "heap_wf h" and i: "i < n_blocks h" and room: "has_room h enc i"
  defines "k \<equiv> TID_new (of_nat i) (num_slots (block h i))"
  shows "heap_wf (stored h enc i)" and "n_blocks (stored h enc i) = n_blocks h"
    and "heap_raw h k = None" and "heap_raw (stored h enc i) = (heap_raw h)(k \<mapsto> enc)"
    and "block (stored h enc i) i = update_checksum (inserted (block h i) enc)"
    and "j \<noteq> i \<Longrightarrow> block (stored h enc i) j = block h j"
proof -
  have pw: "page_wf (block h i)" using wf i by (simp add: heap_wf_def)
  have u: "unat (of_nat i :: u32) = i" using wf i by (simp add: heap_wf_def)
  have fits: "4 + length enc \<le> unat (free_space (block h i))"
    using room by (simp add: has_room_def)
  note ins = page_insert_correct [OF pw fits]
  note wr = heap_write_wf [OF wf _ ins(1), of "of_nat i", unfolded u, OF i]
  have st: "stored h enc i = file_write_at h (i * PAGE_SIZE) (update_checksum (inserted (block h i) enc))"
    by (simp add: stored_def)
  show "heap_wf (stored h enc i)" "n_blocks (stored h enc i) = n_blocks h"
    "block (stored h enc i) i = update_checksum (inserted (block h i) enc)"
    "j \<noteq> i \<Longrightarrow> block (stored h enc i) j = block h j"
    using wr(2-5) by (simp_all add: st)
  show "heap_raw h k = None"
    using i n_slots_num_slots [OF pw] by (simp add: heap_raw_def k_def TID_new_def u page_abs_def)
  show "heap_raw (stored h enc i) = (heap_raw h)(k \<mapsto> enc)"
    using wr(6) ins(3) i
    by (auto simp: st fun_eq_iff k_def TID_new_def heap_raw_def u)
qed

text \<open>Immediate insertion is the prepared insertion followed by the write.\<close>

lemma insert_is_prepare_then_write:
  assumes wf: "heap_wf h" and room: "Suc (n_blocks h) < 2 ^ 32"
    and fits: "length (Tuple_encode t) \<le> 8164"
  shows "heap_insert_tuple t h =
    sbind (find_and_prepare_insert (Tuple_encode t)) (\<lambda>(pn, page, sl).
      sbind (heap_write_page pn page) (\<lambda>_. sret (TID_new pn sl))) h"
proof -
  obtain i h' where t: "target h (Tuple_encode t) = (i, h')" by (cases "target h (Tuple_encode t)")
  have "unat (of_nat i :: u32) = i"
    using target_cases [OF wf room fits t] by (simp add: heap_wf_def)
  then show ?thesis
    by (simp add: insert_tuple_eq [OF assms] prepare_insert_eq [OF assms] t placed_def
        heap_write_page_def stored_def)
qed

text \<open>
  A tuple too large for an empty page: the search fails, a page is appended all the same, and
  the error is reported with the file one page longer.
\<close>

lemma insert_too_large:
  assumes wf: "heap_wf h" and room: "Suc (n_blocks h) < 2 ^ 32"
    and big: "8164 < length (Tuple_encode t)"
  shows "heap_insert_tuple t h
    = (Err (HeapPage (InsufficientSpace (4 + length (Tuple_encode t)) (free_space fresh_page))), h @ fresh_page)"
proof -
  let ?enc = "Tuple_encode t"
  note al = heap_allocate_wf [OF wf room]
  have "\<not> has_room h ?enc i" if "i < n_blocks h" for i
  proof -
    have "page_wf (block h i)" using wf that by (simp add: heap_wf_def)
    then have "unat (free_space (block h i)) \<le> 8168"
      by (auto simp: unat_free_space page_wf_def)
    then show ?thesis using big by (simp add: has_room_def)
  qed
  then have none: "List.find (has_room h ?enc) [0..<n_blocks h] = None"
    by (auto simp: find_None_iff)
  have loop: "insert_loop ?enc [0..<unat (num_pages h)] h = (Ok None, h)"
    using wf by (subst insert_loop_eq) (auto simp: unat_num_pages none)
  have fail: "page_insert_tuple fresh_page ?enc
      = Err (InsufficientSpace (4 + length ?enc) (free_space fresh_page))"
    using big by (intro page_insert_fails) (simp add: fresh_page_facts(5))
  show ?thesis
    using al by (simp add: heap_insert_tuple_def Let_def loop heap_read_nat fail)
qed

section \<open>The heap file implements the tuple store contract\<close>

lemma decode_opt_encode [simp]: "tuple_wf t \<Longrightarrow> decode_opt (Tuple_encode t) = Some t"
  by (simp add: decode_opt_def tuple_decode_encode)

lemma decode_opt_iff: "decode_opt b = Some t \<longleftrightarrow> Tuple_decode b = Ok t"
  by (auto simp: decode_opt_def split: outcome.splits)

lemma heap_get_cases:
  assumes "heap_wf h"
  shows "heap_get_tuple h t = Ok x \<longleftrightarrow> heap_abs h t = Some x"
proof (cases "unat (page_no t) < n_blocks h")
  case True
  then have "page_wf (block h (unat (page_no t)))" using assms by (simp add: heap_wf_def)
  with True page_store.get_law show ?thesis
    by (fastforce simp: heap_get_tuple_def heap_read_ok [OF assms] heap_abs_def heap_raw_def
        outcome_simps bind_eq_Some_conv decode_opt_iff)
next
  case False
  then show ?thesis
    by (simp add: heap_get_tuple_def heap_read_ok [OF assms] heap_abs_def heap_raw_def)
qed

lemma heap_delete_law:
  assumes wf: "heap_wf h" and live: "heap_raw h t = Some b"
  obtains h' where "heap_delete_tuple t h = (Ok (), h')" and "heap_wf h'"
    and "n_blocks h' = n_blocks h" and "heap_raw h' = (heap_raw h)(t := None)"
proof -
  let ?p = "block h (unat (page_no t))"
  from live have i: "unat (page_no t) < n_blocks h" and ab: "page_abs ?p (slot t) = Some b"
    by (auto simp: heap_raw_def split: if_splits)
  have pw: "page_wf ?p" using wf i by (simp add: heap_wf_def)
  obtain p' where p': "page_delete_tuple ?p (slot t) = Ok p'" "page_wf p'"
    "page_abs p' = (page_abs ?p)(slot t := None)"
    using page_store.del_law [OF pw ab] by blast
  note wr = heap_write_wf [OF wf i p'(2)]
  have upd: "heap_raw (file_write_at h (unat (page_no t) * PAGE_SIZE) (update_checksum p'))
      = (heap_raw h)(t := None)"
    using wr(6) p'(3) i by (auto simp: fun_eq_iff heap_raw_def)
  have "heap_delete_tuple t h
      = (Ok (), file_write_at h (unat (page_no t) * PAGE_SIZE) (update_checksum p'))"
    using i p'(1) wr(1) by (simp add: heap_delete_tuple_def heap_read_ok [OF wf])
  then show ?thesis using that wr(2,3) upd by blast
qed

lemma heap_delete_none:
  assumes wf: "heap_wf h" and "heap_raw h t = None"
  shows "\<exists>e. heap_delete_tuple t h = (Err e, h)"
proof (cases "unat (page_no t) < n_blocks h")
  case True
  let ?p = "block h (unat (page_no t))"
  have pw: "page_wf ?p" using wf True by (simp add: heap_wf_def)
  have "page_abs ?p (slot t) = None" using assms(2) True by (simp add: heap_raw_def)
  then have "\<exists>e. page_delete_tuple ?p (slot t) = Err e"
    by (auto simp: page_delete_cases [OF pw] page_abs_def split: option.splits if_splits)
  then show ?thesis using True by (auto simp: heap_delete_tuple_def heap_read_ok [OF wf])
next
  case False
  then show ?thesis by (simp add: heap_delete_tuple_def heap_read_ok [OF wf])
qed

definition small_tuple :: "tuple \<Rightarrow> bool" where
  "small_tuple t \<longleftrightarrow> tuple_wf t \<and> length (Tuple_encode t) \<le> 8164"

text \<open>
  The contract is stated on files that can still grow by a page (\<^verbatim>\<open>num_pages\<close> counts in
  32 bits), so \<open>heap_ins\<close> reports the full file as a failure instead of wrapping.
\<close>

definition heap_ins :: "heap \<Rightarrow> tuple \<Rightarrow> (heap_error, heap \<times> tid) outcome" where
  "heap_ins h t = (if Suc (n_blocks h) < 2 ^ 32 then as_outcome (heap_insert_tuple t h) else Panic)"

definition heap_del :: "heap \<Rightarrow> tid \<Rightarrow> (heap_error, heap) outcome" where
  "heap_del h t = obind (as_outcome (heap_delete_tuple t h)) (\<lambda>(h', _). Ok h')"

lemma heap_insert_law:
  assumes inv: "heap_inv h" and t: "small_tuple t" and room: "Suc (n_blocks h) < 2 ^ 32"
  obtains h' k where "heap_insert_tuple t h = (Ok k, h')" and "heap_inv h'"
    and "heap_abs h k = None" and "heap_abs h' = (heap_abs h)(k \<mapsto> t)"
    and "n_blocks h' \<le> Suc (n_blocks h)" and "heap_raw h' = (heap_raw h)(k \<mapsto> Tuple_encode t)"
proof -
  have wf: "heap_wf h" and ok: "tuples_ok h" using inv by (auto simp: heap_inv_def)
  have fits: "length (Tuple_encode t) \<le> 8164" and twf: "tuple_wf t" using t by (auto simp: small_tuple_def)
  obtain i g where tg: "target h (Tuple_encode t) = (i, g)" by (cases "target h (Tuple_encode t)")
  note tc = target_cases [OF wf room fits tg]
  let ?k = "TID_new (of_nat i) (num_slots (block g i))" and ?h = "stored g (Tuple_encode t) i"
  note st = stored_law [OF tc(1,2,3)]
  have raw: "heap_raw ?h = (heap_raw h)(?k \<mapsto> Tuple_encode t)" using st(4) tc(4) by simp
  have "heap_inv ?h"
    using st(1) raw ok tuple_decode_encode [OF twf]
    by (auto simp: heap_inv_def tuples_ok_def)
  moreover have "heap_abs h ?k = None" using st(3) tc(4) by (simp add: heap_abs_def)
  moreover have "heap_abs ?h = (heap_abs h)(?k \<mapsto> t)"
    using raw twf by (auto simp: heap_abs_def fun_eq_iff)
  moreover have "heap_insert_tuple t h = (Ok ?k, ?h)"
    by (simp add: insert_tuple_eq [OF wf room fits] tg)
  ultimately show ?thesis using that st(2) tc(5) raw by metis
qed

interpretation heap_store: tuple_store heap_inv heap_abs small_tuple heap_ins heap_get_tuple heap_del
proof
  fix h t h' k assume "heap_inv h" "small_tuple t" and ok: "heap_ins h t = Ok (h', k)"
  moreover from ok have room: "Suc (n_blocks h) < 2 ^ 32" and "heap_insert_tuple t h = (Ok k, h')"
    by (auto simp: heap_ins_def outcome_simps split: if_splits)
  ultimately show "heap_inv h' \<and> heap_abs h k = None \<and> heap_abs h' = (heap_abs h)(k \<mapsto> t)"
    by (metis Pair_inject heap_insert_law outcome.inject(1))
next
  fix h k t assume "heap_inv h"
  then show "heap_get_tuple h k = Ok t \<longleftrightarrow> heap_abs h k = Some t"
    by (simp add: heap_inv_def heap_get_cases)
next
  fix h k t assume inv: "heap_inv h" and "heap_abs h k = Some t"
  then obtain b where "heap_raw h k = Some b" by (auto simp: heap_abs_def bind_eq_Some_conv)
  with inv obtain h' where "heap_delete_tuple k h = (Ok (), h')" "heap_wf h'"
    and raw: "heap_raw h' = (heap_raw h)(k := None)"
    by (auto simp: heap_inv_def elim: heap_delete_law)
  moreover have "tuples_ok h'" using inv raw by (auto simp: heap_inv_def tuples_ok_def split: if_splits)
  moreover have "heap_abs h' = (heap_abs h)(k := None)" using raw by (auto simp: heap_abs_def fun_eq_iff)
  ultimately show "\<exists>h'. heap_del h k = Ok h' \<and> heap_inv h' \<and> heap_abs h' = (heap_abs h)(k := None)"
    by (simp add: heap_del_def as_outcome_def heap_inv_def)
next
  fix h k assume inv: "heap_inv h" and "heap_abs h k = None"
  moreover have "heap_raw h k = None"
  proof (rule ccontr)
    assume "heap_raw h k \<noteq> None"
    then obtain b where b: "heap_raw h k = Some b" by auto
    then have "is_ok (Tuple_decode b)" using inv by (auto simp: heap_inv_def tuples_ok_def)
    then show False using b \<open>heap_abs h k = None\<close>
      by (cases "Tuple_decode b") (auto simp: heap_abs_def decode_opt_def)
  qed
  ultimately have "\<exists>e. heap_delete_tuple k h = (Err e, h)"
    by (simp add: heap_inv_def heap_delete_none)
  then show "\<not> is_ok (heap_del h k)"
    by (auto simp: heap_del_def as_outcome_def)
qed

lemma heap_inv_Nil: "heap_inv []"
  by (simp add: heap_inv_def heap_wf_def tuples_ok_def heap_raw_def)

section \<open>Properties\<close>

text \<open>
  Inserting any batch of tuples that fit a page into a consistent heap file, as long as the page
  count stays within 32 bits, yields pairwise distinct identifiers; every tuple of the batch reads back
  unchanged under its identifier, and every tuple that was readable before still is.
\<close>

theorem heap_insert_batch:
  assumes "heap_inv h" and "\<forall>t \<in> set ts. small_tuple t" and "insert_all heap_ins h ts = Ok (h', ks)"
  shows "heap_inv h' \<and> distinct ks \<and> length ks = length ts
    \<and> (\<forall>i < length ts. heap_get_tuple h' (ks ! i) = Ok (ts ! i))
    \<and> (\<forall>k x. heap_get_tuple h k = Ok x \<longrightarrow> heap_get_tuple h' k = Ok x)"
  using heap_store.insert_all_reads_back [OF assms(1) _ assms(3)]
    heap_store.insert_all_law [OF assms(1) _ assms(3)] assms(2) by blast

lemma small_tuple_new: "length d \<le> 8140 \<Longrightarrow> small_tuple (Tuple_new d)"
  using length_Tuple_encode [of "Tuple_new d"]
  by (simp add: small_tuple_def) (simp add: Tuple_new_def TupleHeader_new_def)

lemma two_tuples:
  obtains h ks where "insert_all heap_ins [] [Tuple_new [1], Tuple_new [2, 3]] = Ok (h, ks)"
proof -
  have small: "small_tuple (Tuple_new [1])" "small_tuple (Tuple_new [2, 3])"
    by (simp_all add: small_tuple_new)
  obtain h1 k1 where 1: "heap_insert_tuple (Tuple_new [1]) [] = (Ok k1, h1)" "heap_inv h1" "n_blocks h1 \<le> 1"
    by (rule heap_insert_law [OF heap_inv_Nil small(1)]) auto
  have r1: "Suc (n_blocks h1) < 2 ^ 32" using 1(3) by simp
  obtain h2 k2 where 2: "heap_insert_tuple (Tuple_new [2, 3]) h1 = (Ok k2, h2)"
    using heap_insert_law [OF 1(2) small(2) r1] by blast
  show ?thesis
    using that 1(1) 2 r1 by (simp add: heap_ins_def as_outcome_def)
qed

theorem heap_insert_batch_witness:
  "\<exists>h a b. insert_all heap_ins [] [Tuple_new [1], Tuple_new [2, 3]] = Ok (h, [a, b]) \<and> a \<noteq> b
     \<and> heap_get_tuple h a = Ok (Tuple_new [1]) \<and> heap_get_tuple h b = Ok (Tuple_new [2, 3])"
proof -
  obtain h ks where run: "insert_all heap_ins [] [Tuple_new [1], Tuple_new [2, 3]] = Ok (h, ks)"
    by (rule two_tuples)
  have small: "\<forall>t \<in> set [Tuple_new [1], Tuple_new [2, 3]]. small_tuple t" by (simp add: small_tuple_new)
  note b = heap_insert_batch [OF heap_inv_Nil small run]
  then obtain a b where ks: "ks = [a, b]" by (auto simp: length_Suc_conv)
  with b have "a \<noteq> b" "heap_get_tuple h a = Ok (Tuple_new [1])" "heap_get_tuple h b = Ok (Tuple_new [2, 3])"
    by (auto simp: less_Suc_eq all_conj_distrib)
  with run ks show ?thesis by blast
qed

text \<open>
  The immediate insertion and the write-ahead path agree: for a tuple that fits a page,
  \<open>heap_insert_tuple\<close> has the effect and the result of \<open>find_and_prepare_insert\<close> followed by writing
  the prepared page, and it always succeeds with an identifier that was free before.
\<close>

theorem heap_insert_two_ways:
  assumes "heap_inv h" and "small_tuple t" and "Suc (n_blocks h) < 2 ^ 32"
  shows "\<exists>k h'. heap_insert_tuple t h = (Ok k, h') \<and> heap_inv h' \<and> heap_abs h k = None
      \<and> heap_abs h' = (heap_abs h)(k \<mapsto> t)
      \<and> sbind (find_and_prepare_insert (Tuple_encode t)) (\<lambda>(pn, page, sl).
           sbind (heap_write_page pn page) (\<lambda>_. sret (TID_new pn sl))) h = (Ok k, h')"
proof -
  obtain h' k where "heap_insert_tuple t h = (Ok k, h')" "heap_inv h'" "heap_abs h k = None"
    "heap_abs h' = (heap_abs h)(k \<mapsto> t)"
    using heap_insert_law [OF assms] by blast
  moreover have "heap_wf h" "length (Tuple_encode t) \<le> 8164"
    using assms by (simp_all add: heap_inv_def small_tuple_def)
  note insert_is_prepare_then_write [OF this(1) assms(3) this(2), symmetric]
  ultimately show ?thesis by auto
qed

theorem heap_insert_two_ways_witness:
  "\<exists>k h'. heap_insert_tuple (Tuple_new [5]) [] = (Ok k, h') \<and> heap_abs h' k = Some (Tuple_new [5])"
  using heap_insert_two_ways [OF heap_inv_Nil, of "Tuple_new [5]"] by (auto simp: small_tuple_new)

text \<open>
  A tuple that no empty page can hold is refused, but only after a new page has been appended:
  each such attempt leaves the file one empty page longer.
\<close>

theorem heap_oversize_leaks_page:
  assumes "heap_inv h" and "8164 < length (Tuple_encode t)" and "Suc (n_blocks h) < 2 ^ 32"
  shows "heap_insert_tuple t h
      = (Err (HeapPage (InsufficientSpace (4 + length (Tuple_encode t)) (free_space fresh_page))), h @ fresh_page)
    \<and> n_blocks (h @ fresh_page) = Suc (n_blocks h) \<and> heap_abs (h @ fresh_page) = heap_abs h"
  using insert_too_large [of h t] heap_allocate_wf [of h] assms
  by (simp add: heap_inv_def heap_abs_def fun_eq_iff)

theorem heap_oversize_leaks_page_witness:
  "\<exists>e. heap_insert_tuple (Tuple_new (replicate 8141 0)) [] = (Err e, fresh_page) \<and> n_blocks fresh_page = 1"
  using heap_oversize_leaks_page [OF heap_inv_Nil, of "Tuple_new (replicate 8141 0)"]
    length_Tuple_encode [of "Tuple_new (replicate 8141 0)"]
  by (simp add: Tuple_new_def TupleHeader_new_def)

text \<open>
  Deleting a readable tuple succeeds and makes exactly this identifier unreadable; deleting it
  again fails. Deleting an identifier that is not readable fails and changes nothing.
\<close>

theorem heap_delete_correct:
  assumes "heap_inv h"
  shows "(case heap_abs h k of
      Some t \<Rightarrow> \<exists>h'. heap_delete_tuple k h = (Ok (), h') \<and> heap_inv h' \<and> heap_abs h' = (heap_abs h)(k := None)
        \<and> (\<exists>e. heap_delete_tuple k h' = (Err e, h'))
    | None \<Rightarrow> \<not> is_ok (fst (heap_delete_tuple k h)))"
proof (cases "heap_abs h k")
  case None
  then show ?thesis
    using heap_store.del_dead [OF assms None] by (cases "heap_delete_tuple k h", cases "fst (heap_delete_tuple k h)")
      (auto simp: heap_del_def as_outcome_def)
next
  case (Some t)
  then obtain h' where h': "heap_del h k = Ok h'" "heap_inv h'" "heap_abs h' = (heap_abs h)(k := None)"
    using heap_store.del_law [OF assms] by blast
  then have run: "heap_delete_tuple k h = (Ok (), h')"
    by (auto simp: heap_del_def outcome_simps)
  have wf: "heap_wf h" using assms by (simp add: heap_inv_def)
  obtain b where raw: "heap_raw h k = Some b" using Some by (auto simp: heap_abs_def bind_eq_Some_conv)
  have "heap_raw h' k = None" by (rule heap_delete_law [OF wf raw]) (use run in auto)
  then have "\<exists>e. heap_delete_tuple k h' = (Err e, h')"
    using h'(2) by (simp add: heap_inv_def heap_delete_none)
  with Some run h' show ?thesis by auto
qed

theorem heap_delete_correct_witness:
  "\<not> is_ok (fst (heap_delete_tuple (TID_new 0 0) []))"
  using heap_delete_correct [OF heap_inv_Nil, of "TID_new 0 0"] by (simp add: heap_abs_def heap_raw_def)

end
