(* ===== verification/Buffer_Pool.thy ===== *)
theory Buffer_Pool
  imports Heap_File
begin

text \<open>
  The buffer pool of \<^verbatim>\<open>storage/src/buffer.rs\<close>: a fixed number of frames in front of the heap
  file, pin counts, dirty flags, the page table and clock-sweep replacement. The pool is shown to
  be transparent: pinning, unpinning, sweeping and flushing never change the logical content of
  any page (\<open>pool_view\<close>), and flushing everything makes the disk agree with it.

  Each public method is one atomic step here. The locks of the source are therefore not modelled;
  the sequences of steps, including steps taken while other callers hold pins, are.
\<close>

section \<open>Definitions\<close>

abbreviation (input) MAX_BUFFER_FRAMES :: nat where "MAX_BUFFER_FRAMES \<equiv> 131072"

record buffer_descriptor =
  d_page_no :: "u32 option"
  d_dirty :: bool
  pin_count :: u32
  usage_count :: u8

definition BufferDescriptor_new :: buffer_descriptor where
  "BufferDescriptor_new = \<lparr>d_page_no = None, d_dirty = False, pin_count = 0, usage_count = 0\<rparr>"

record buffer_pool =
  frames :: "page list"
  descriptors :: "buffer_descriptor list"
  clock_hand :: u64
  pool_heap :: heap
  page_table :: "u32 \<Rightarrow> nat option"

definition BufferPool_new :: "heap \<Rightarrow> nat \<Rightarrow> (buffer_error, buffer_pool) outcome" where
  "BufferPool_new h n =
     (let num_frames = min n MAX_BUFFER_FRAMES in
      if num_frames > 0
      then Ok \<lparr>frames = replicate num_frames Page_new,
               descriptors = replicate num_frames BufferDescriptor_new,
               clock_hand = 0, pool_heap = h, page_table = Map.empty\<rparr>
      else Panic)"

definition set_desc :: "nat \<Rightarrow> buffer_descriptor \<Rightarrow> buffer_pool \<Rightarrow> buffer_pool" where
  "set_desc i d s = s\<lparr>descriptors := (descriptors s)[i := d]\<rparr>"

definition pool_write_page :: "u32 \<Rightarrow> page \<Rightarrow> (buffer_pool, buffer_error, unit) sop" where
  "pool_write_page pn p =
     smap_err BufferHeap (szoom pool_heap (\<lambda>h s. s\<lparr>pool_heap := h\<rparr>) (heap_write_page pn p))"

definition flush_frame :: "nat \<Rightarrow> (buffer_pool, buffer_error, unit) sop" where
  "flush_frame i s =
     (if i \<ge> length (descriptors s) then (Panic, s)
      else let d = descriptors s ! i in
        if d_dirty d
        then sbind (case d_page_no d of Some pno \<Rightarrow> pool_write_page pno (frames s ! i) | None \<Rightarrow> sret ())
               (\<lambda>_. smod (set_desc i (d\<lparr>d_dirty := False\<rparr>))) s
        else (Ok (), s))"

text \<open>
  One iteration of the sweep: \<open>None\<close> continues, \<open>Some\<close> is the victim's index. The victim is
  written back if dirty, and leaves the page table.
\<close>

definition evict_tick :: "(buffer_pool, buffer_error, nat option) sop" where
  "evict_tick s =
     (let hand = unat (clock_hand s) mod length (frames s);
          s1 = s\<lparr>clock_hand := clock_hand s + 1\<rparr>;
          d = descriptors s ! hand in
      if pin_count d > 0 then (Ok None, s1)
      else if usage_count d > 0
      then (Ok None, set_desc hand (d\<lparr>usage_count := usage_count d - 1\<rparr>) s1)
      else sbind (case d_page_no d of
                    Some pno \<Rightarrow> if d_dirty d then pool_write_page pno (frames s ! hand) else sret ()
                  | None \<Rightarrow> sret ())
             (\<lambda>_ s2. (Ok (Some hand),
                set_desc hand (d\<lparr>d_page_no := None, d_dirty := False\<rparr>)
                  (case d_page_no d of
                     Some pno \<Rightarrow> s2\<lparr>page_table := (page_table s2)(pno := None)\<rparr>
                   | None \<Rightarrow> s2))) s1)"

primrec evict_loop :: "nat \<Rightarrow> (buffer_pool, buffer_error, nat) sop" where
  "evict_loop 0 = serr AllFramesPinned"
| "evict_loop (Suc k) = sbind evict_tick (\<lambda>r. case r of Some i \<Rightarrow> sret i | None \<Rightarrow> evict_loop k)"

definition evict_frame :: "(buffer_pool, buffer_error, nat) sop" where
  "evict_frame s = evict_loop (length (frames s) * 2) s"

text \<open>
  \<^verbatim>\<open>while heap.num_pages() <= page_no { heap.allocate_page()? }\<close>. For the largest page
  number the condition holds for every file, so the loop need not end: \<open>None\<close>.
\<close>

partial_function (option) alloc_until :: "u32 \<Rightarrow> heap \<Rightarrow> ((heap_error, unit) outcome \<times> heap) option" where
  "alloc_until pn h =
     (if num_pages h \<le> pn
      then case heap_allocate_page h of
             (Ok _, h') \<Rightarrow> alloc_until pn h'
           | (Err e, h') \<Rightarrow> Some (Err e, h')
           | (Panic, h') \<Rightarrow> Some (Panic, h')
      else Some (Ok (), h))"

definition install :: "nat \<Rightarrow> u32 \<Rightarrow> page \<Rightarrow> (buffer_pool, buffer_error, nat) sop" where
  "install i pn p s =
     (Ok i, (set_desc i \<lparr>d_page_no = Some pn, d_dirty = False, pin_count = 1, usage_count = 1\<rparr> s)
        \<lparr>frames := (frames s)[i := p], page_table := (page_table s)(pn \<mapsto> i)\<rparr>)"

definition pin_slow :: "u32 \<Rightarrow> buffer_pool \<Rightarrow> ((buffer_error, nat) outcome \<times> buffer_pool) option" where
  "pin_slow pn s =
     (case evict_frame s of
        (Ok i, s1) \<Rightarrow>
          (case alloc_until pn (pool_heap s1) of
             None \<Rightarrow> None
           | Some (r, h) \<Rightarrow>
               Some (sbind (slift (\<lambda>_. map_err BufferHeap r)) (\<lambda>_.
                     sbind (slift (\<lambda>s. map_err BufferHeap (heap_read_page (pool_heap s) pn))) (\<lambda>p.
                     install i pn p)) (s1\<lparr>pool_heap := h\<rparr>)))
      | (Err e, s1) \<Rightarrow> Some (Err e, s1)
      | (Panic, s1) \<Rightarrow> Some (Panic, s1))"

definition saturating_inc :: "u8 \<Rightarrow> u8" where
  "saturating_inc u = (if u = 255 then 255 else u + 1)"

definition pin_page :: "u32 \<Rightarrow> buffer_pool \<Rightarrow> ((buffer_error, nat) outcome \<times> buffer_pool) option" where
  "pin_page pn s =
     (case page_table s pn of
        Some i \<Rightarrow>
          if i \<ge> length (descriptors s) then Some (Panic, s)
          else let d = descriptors s ! i in
            if d_page_no d = Some pn
            then Some (Ok i, set_desc i (d\<lparr>pin_count := pin_count d + 1,
                                            usage_count := saturating_inc (usage_count d)\<rparr>) s)
            else pin_slow pn s
      | None \<Rightarrow> pin_slow pn s)"

definition unpin_page :: "nat \<Rightarrow> bool \<Rightarrow> (buffer_pool, buffer_error, unit) sop" where
  "unpin_page i dirty s =
     (if i \<ge> length (descriptors s) then (Panic, s)
      else let d = descriptors s ! i;
               d1 = (if pin_count d > 0 then d\<lparr>pin_count := pin_count d - 1\<rparr> else d);
               d2 = (if dirty then d1\<lparr>d_dirty := True\<rparr> else d1) in
        (Ok (), set_desc i d2 s))"

primrec flush_from :: "nat list \<Rightarrow> (buffer_pool, buffer_error, unit) sop" where
  "flush_from [] = sret ()"
| "flush_from (i # is) = sbind (flush_frame i) (\<lambda>_. flush_from is)"

definition flush_all_dirty :: "(buffer_pool, buffer_error, unit) sop" where
  "flush_all_dirty s = flush_from [0..<length (frames s)] s"

definition num_frames :: "buffer_pool \<Rightarrow> nat" where
  "num_frames s = length (frames s)"

definition read_frame :: "nat \<Rightarrow> (page \<Rightarrow> 'r) \<Rightarrow> buffer_pool \<Rightarrow> (buffer_error, 'r) outcome" where
  "read_frame i f s = (if i < length (frames s) then Ok (f (frames s ! i)) else Panic)"

definition write_frame :: "nat \<Rightarrow> (page \<Rightarrow> 'r \<times> page) \<Rightarrow> (buffer_pool, buffer_error, 'r) sop" where
  "write_frame i f s =
     (if i < length (frames s)
      then case f (frames s ! i) of (r, p) \<Rightarrow> (Ok r, s\<lparr>frames := (frames s)[i := p]\<rparr>)
      else (Panic, s))"

section \<open>Invariant and logical content\<close>

text \<open>
  \<open>W\<close> is the set of frames that some caller has written through \<open>write_frame\<close> and not yet
  released with the dirty flag; they are pinned. Every other clean frame agrees with the disk.
\<close>

definition frame_ok :: "nat set \<Rightarrow> buffer_pool \<Rightarrow> nat \<Rightarrow> u32 \<Rightarrow> bool" where
  "frame_ok W s i pn \<longleftrightarrow> unat pn < n_blocks (pool_heap s) \<and> page_wf (frames s ! i)
     \<and> (i \<in> W \<longrightarrow> pin_count (descriptors s ! i) > 0)
     \<and> (i \<notin> W \<and> \<not> d_dirty (descriptors s ! i)
          \<longrightarrow> update_checksum (frames s ! i) = block (pool_heap s) (unat pn))"

definition table_ok :: "buffer_pool \<Rightarrow> bool" where
  "table_ok s \<longleftrightarrow> (\<forall>pn i. page_table s pn = Some i
     \<longleftrightarrow> i < length (descriptors s) \<and> d_page_no (descriptors s ! i) = Some pn)"

definition pool_inv :: "nat set \<Rightarrow> buffer_pool \<Rightarrow> bool" where
  "pool_inv W s \<longleftrightarrow> length (frames s) = length (descriptors s) \<and> 0 < length (frames s)
     \<and> heap_wf (pool_heap s) \<and> table_ok s
     \<and> (\<forall>i pn. page_table s pn = Some i \<longrightarrow> frame_ok W s i pn)"

text \<open>
  The content of a page as the pool's clients see it, in the form it has on disk (with a current
  checksum).
\<close>

definition pool_view :: "buffer_pool \<Rightarrow> u32 \<Rightarrow> page option" where
  "pool_view s pn = (case page_table s pn of
      Some i \<Rightarrow> Some (update_checksum (frames s ! i))
    | None \<Rightarrow> if unat pn < n_blocks (pool_heap s) then Some (block (pool_heap s) (unat pn)) else None)"

definition disk_view :: "heap \<Rightarrow> u32 \<Rightarrow> page option" where
  "disk_view h pn = (if unat pn < n_blocks h then Some (block h (unat pn)) else None)"

section \<open>Single steps keep the invariant and the content\<close>

lemma set_desc_sel [simp]:
  "frames (set_desc i d s) = frames s" "clock_hand (set_desc i d s) = clock_hand s"
  "pool_heap (set_desc i d s) = pool_heap s" "page_table (set_desc i d s) = page_table s"
  "descriptors (set_desc i d s) = (descriptors s)[i := d]"
  by (simp_all add: set_desc_def)

lemma pool_invD:
  assumes "pool_inv W s"
  shows "length (descriptors s) = length (frames s)" "0 < length (frames s)" "heap_wf (pool_heap s)"
    "page_table s pn = Some i \<longleftrightarrow> i < length (descriptors s) \<and> d_page_no (descriptors s ! i) = Some pn"
    "page_table s pn = Some i \<Longrightarrow> frame_ok W s i pn"
  using assms by (auto simp: pool_inv_def table_ok_def)

lemma table_inj:
  "pool_inv W s \<Longrightarrow> page_table s pn = Some i \<Longrightarrow> page_table s qn = Some i \<Longrightarrow> qn = pn"
  by (simp add: pool_invD(4))

lemma set_desc_inv:
  assumes inv: "pool_inv W s" and i: "i < length (descriptors s)"
    and same: "d_page_no d = d_page_no (descriptors s ! i)" and W: "W' - {i} = W - {i}"
    and ok: "\<And>pn. d_page_no d = Some pn \<Longrightarrow> (i \<in> W' \<longrightarrow> pin_count d > 0)
        \<and> (i \<notin> W' \<and> \<not> d_dirty d \<longrightarrow> update_checksum (frames s ! i) = block (pool_heap s) (unat pn))"
  shows "pool_inv W' (set_desc i d s)" and "pool_view (set_desc i d s) = pool_view s"
proof -
  have pn: "d_page_no ((descriptors s)[i := d] ! j) = d_page_no (descriptors s ! j)"
    if "j < length (descriptors s)" for j
    using that i same by (cases "j = i") auto
  then have "table_ok (set_desc i d s)"
    using pool_invD(4) [OF inv] by (auto simp: table_ok_def)
  moreover have "frame_ok W' (set_desc i d s) j qn" if t: "page_table s qn = Some j" for j qn
  proof -
    have j: "frame_ok W s j qn" "d_page_no (descriptors s ! j) = Some qn"
      using t pool_invD(4,5) [OF inv] by auto
    show ?thesis
    proof (cases "j = i")
      case True
      then show ?thesis using j ok i same by (simp add: frame_ok_def)
    next
      case False
      then have "j \<in> W' \<longleftrightarrow> j \<in> W" using W by auto
      then show ?thesis using j False by (simp add: frame_ok_def)
    qed
  qed
  ultimately show "pool_inv W' (set_desc i d s)"
    using pool_invD(1-3) [OF inv] by (simp add: pool_inv_def)
  show "pool_view (set_desc i d s) = pool_view s"
    by (auto simp: pool_view_def fun_eq_iff split: option.splits)
qed

text \<open>The pool with frame \<open>i\<close> written to page \<open>pn\<close> of the file.\<close>

definition written_back :: "nat \<Rightarrow> u32 \<Rightarrow> buffer_pool \<Rightarrow> buffer_pool" where
  "written_back i pn s = s\<lparr>pool_heap :=
     file_write_at (pool_heap s) (unat pn * PAGE_SIZE) (update_checksum (frames s ! i))\<rparr>"

lemma written_back_sel [simp]:
  "frames (written_back i pn s) = frames s" "descriptors (written_back i pn s) = descriptors s"
  "page_table (written_back i pn s) = page_table s" "clock_hand (written_back i pn s) = clock_hand s"
  by (simp_all add: written_back_def)

lemma pool_write_page_run [simp]:
  "pool_write_page pn (frames s ! i) s = (Ok (), written_back i pn s)"
  by (simp add: pool_write_page_def heap_write_page_def szoom_def smap_err_def written_back_def)

lemma written_back_inv:
  assumes inv: "pool_inv W s" and t: "page_table s pn = Some i"
  shows "pool_inv W (written_back i pn s)" and "pool_view (written_back i pn s) = pool_view s"
    and "block (pool_heap (written_back i pn s)) (unat pn) = update_checksum (frames s ! i)"
    and "n_blocks (pool_heap (written_back i pn s)) = n_blocks (pool_heap s)"
proof -
  let ?s = "written_back i pn s"
  have f: "unat pn < n_blocks (pool_heap s)" "page_wf (frames s ! i)"
    using pool_invD(5) [OF inv t] by (simp_all add: frame_ok_def)
  note w = heap_write_wf [OF pool_invD(3) [OF inv] f]
  have hp: "pool_heap ?s
      = file_write_at (pool_heap s) (unat pn * PAGE_SIZE) (update_checksum (frames s ! i))"
    by (simp add: written_back_def)
  note w' = w(2-5) [folded hp]
  show b: "block (pool_heap ?s) (unat pn) = update_checksum (frames s ! i)" by (rule w'(3))
  show n: "n_blocks (pool_heap ?s) = n_blocks (pool_heap s)" by (rule w'(2))
  have other: "block (pool_heap ?s) (unat qn) = block (pool_heap s) (unat qn)" if "qn \<noteq> pn" for qn
    using that w'(4) by (metis unsigned_word_eqI)
  have "frame_ok W ?s j qn" if "page_table s qn = Some j" for j qn
    using pool_invD(5) [OF inv that] b n other [of qn] that t
    by (cases "qn = pn") (auto simp: frame_ok_def)
  then show "pool_inv W ?s"
    using inv w'(1) by (auto simp: pool_inv_def table_ok_def)
  have "pool_view ?s qn = pool_view s qn" for qn
    using t n other [of qn] by (cases "qn = pn") (auto simp: pool_view_def split: option.splits)
  then show "pool_view ?s = pool_view s" ..
qed

lemma flush_frame_law:
  assumes inv: "pool_inv W s" and i: "i < length (frames s)"
  obtains s' where "flush_frame i s = (Ok (), s')" and "pool_inv W s'" and "pool_view s' = pool_view s"
    and "frames s' = frames s" and "page_table s' = page_table s"
    and "descriptors s' = (descriptors s)[i := (descriptors s ! i)\<lparr>d_dirty := False\<rparr>]"
proof (cases "d_dirty (descriptors s ! i)")
  case False
  then have "(descriptors s)[i := (descriptors s ! i)\<lparr>d_dirty := False\<rparr>] = descriptors s"
    by (metis (full_types) buffer_descriptor.surjective buffer_descriptor.update_convs(2) list_update_id)
  with False that inv i show ?thesis
    by (simp add: flush_frame_def pool_invD(1))
next
  case True
  have i': "i < length (descriptors s)" using i inv by (simp add: pool_invD(1))
  let ?d = "(descriptors s ! i)\<lparr>d_dirty := False\<rparr>"
  show ?thesis
  proof (cases "d_page_no (descriptors s ! i)")
    case None
    with True i' have "flush_frame i s = (Ok (), set_desc i ?d s)"
      by (simp add: flush_frame_def)
    then show ?thesis
      using set_desc_inv [OF inv i', of ?d W] None that by simp
  next
    case (Some pn)
    then have t: "page_table s pn = Some i" using pool_invD(4) [OF inv] i' by simp
    note w = written_back_inv [OF inv t]
    have pinned: "i \<in> W \<longrightarrow> pin_count ?d > 0"
      using pool_invD(5) [OF inv t] by (simp add: frame_ok_def)
    have "flush_frame i s = (Ok (), set_desc i ?d (written_back i pn s))"
      using True i' Some by (simp add: flush_frame_def)
    moreover have "pool_inv W (set_desc i ?d (written_back i pn s))"
      "pool_view (set_desc i ?d (written_back i pn s)) = pool_view s"
      using set_desc_inv [OF w(1), of i ?d W] i' Some w(2,3) pinned by simp_all
    ultimately show ?thesis using that by simp
  qed
qed

section \<open>Clock sweep\<close>

text \<open>A frame that agrees with the disk can be forgotten.\<close>

lemma drop_page_law:
  assumes inv: "pool_inv W s" and t: "page_table s pn = Some i" and d: "d_page_no d = None"
    and clean: "block (pool_heap s) (unat pn) = update_checksum (frames s ! i)"
  defines "s' \<equiv> set_desc i d (s\<lparr>page_table := (page_table s)(pn := None)\<rparr>)"
  shows "pool_inv W s'" and "pool_view s' = pool_view s"
proof -
  have i: "i < length (descriptors s)" using t pool_invD(4) [OF inv] by simp
  have tab: "page_table s' qn = Some j \<longleftrightarrow> page_table s qn = Some j \<and> j \<noteq> i" for qn j
  proof (cases "qn = pn")
    case True
    then show ?thesis using t by (simp add: s'_def)
  next
    case False
    then have "page_table s qn \<noteq> Some i" using table_inj [OF inv, of pn i qn] t by auto
    then show ?thesis using False by (auto simp: s'_def)
  qed
  have "table_ok s'"
    using pool_invD(4) [OF inv] i d tab by (auto simp: table_ok_def s'_def nth_list_update)
  moreover have "frame_ok W s' j qn" if "page_table s' qn = Some j" for j qn
    using pool_invD(5) [OF inv, of qn j] that tab by (simp add: frame_ok_def s'_def)
  ultimately show "pool_inv W s'"
    using pool_invD(1-3) [OF inv] by (simp add: pool_inv_def s'_def)
  have "unat pn < n_blocks (pool_heap s)" using pool_invD(5) [OF inv t] by (simp add: frame_ok_def)
  then have "pool_view s' qn = pool_view s qn" for qn
    using t clean by (cases "qn = pn") (auto simp: pool_view_def s'_def split: option.splits)
  then show "pool_view s' = pool_view s" ..
qed

lemma evict_tick_law:
  assumes inv: "pool_inv W s" and run: "evict_tick s = (r, s')"
  shows "pool_inv W s' \<and> pool_view s' = pool_view s \<and> frames s' = frames s
    \<and> n_blocks (pool_heap s') = n_blocks (pool_heap s)
    \<and> (\<forall>pn. page_table s pn = None \<longrightarrow> page_table s' pn = None)
    \<and> (r = Ok None \<or> (\<exists>i < length (frames s). r = Ok (Some i) \<and> d_page_no (descriptors s' ! i) = None))"
proof -
  define i where "i = unat (clock_hand s) mod length (frames s)"
  define d where "d = descriptors s ! i"
  define s1 where "s1 = s\<lparr>clock_hand := clock_hand s + 1\<rparr>"
  have i: "i < length (descriptors s)" "i < length (frames s)"
    using pool_invD(1,2) [OF inv] by (simp_all add: i_def)
  have inv1: "pool_inv W s1"
    using inv unfolding s1_def pool_inv_def table_ok_def frame_ok_def by auto
  have view1: "pool_view s1 = pool_view s"
    by (auto simp: s1_def pool_view_def fun_eq_iff split: option.splits)
  have fld: "descriptors s1 = descriptors s" "frames s1 = frames s" "page_table s1 = page_table s"
    "pool_heap s1 = pool_heap s" by (simp_all add: s1_def)
  have okd: "(i \<in> W \<longrightarrow> pin_count d > 0)
      \<and> (i \<notin> W \<and> \<not> d_dirty d \<longrightarrow> update_checksum (frames s ! i) = block (pool_heap s) (unat pn))"
    if "d_page_no d = Some pn" for pn
    using that pool_invD(4,5) [OF inv] i by (auto simp: d_def frame_ok_def)
  consider (pinned) "pin_count d > 0" | (used) "\<not> pin_count d > 0" "usage_count d > 0"
    | (free) "\<not> pin_count d > 0" "\<not> usage_count d > 0" "d_page_no d = None"
    | (page) pn where "\<not> pin_count d > 0" "\<not> usage_count d > 0" "d_page_no d = Some pn"
    by (cases "d_page_no d") auto
  then show ?thesis
  proof cases
    case pinned
    then have "(r, s') = (Ok None, s1)" using run by (simp add: evict_tick_def s1_def d_def i_def)
    then show ?thesis using inv1 view1 fld by simp
  next
    case used
    let ?d = "d\<lparr>usage_count := usage_count d - 1\<rparr>"
    have "(r, s') = (Ok None, set_desc i ?d s1)"
      using run used by (simp add: evict_tick_def Let_def s1_def d_def i_def)
    then show ?thesis
      using set_desc_inv [OF inv1, of i ?d W] okd view1 i fld by (auto simp: d_def)
  next
    case free
    let ?d = "d\<lparr>d_page_no := None, d_dirty := False\<rparr>"
    have "(r, s') = (Ok (Some i), set_desc i ?d s1)"
      using run free by (simp add: evict_tick_def s1_def d_def i_def Let_def)
    then show ?thesis
      using set_desc_inv [OF inv1, of i ?d W] free view1 i fld by (auto simp: d_def)
  next
    case (page pn)
    let ?d = "d\<lparr>d_page_no := None, d_dirty := False\<rparr>"
    define s2 where "s2 = (if d_dirty d then written_back i pn s1 else s1)"
    have t: "page_table s1 pn = Some i"
      using pool_invD(4) [OF inv1] i page(3) fld by (simp add: d_def)
    note w = written_back_inv [OF inv1 t]
    have s2: "pool_inv W s2" "pool_view s2 = pool_view s" "n_blocks (pool_heap s2) = n_blocks (pool_heap s)"
      "block (pool_heap s2) (unat pn) = update_checksum (frames s ! i)"
      "frames s2 = frames s" "descriptors s2 = descriptors s" "page_table s2 = page_table s"
      using w inv1 view1 fld okd page by (auto simp: s2_def)
    have "(r, s') = (Ok (Some i), set_desc i ?d (s2\<lparr>page_table := (page_table s2)(pn := None)\<rparr>))"
      using run page pool_write_page_run [of pn s1 i]
      by (auto simp: evict_tick_def s2_def s1_def [symmetric] fld d_def [symmetric] i_def [symmetric] Let_def)
    then show ?thesis
      using drop_page_law [OF s2(1), of pn i ?d] t fld s2 i by simp
  qed
qed

lemma evict_loop_law:
  assumes "pool_inv W s" and "evict_loop k s = (r, s')"
  shows "pool_inv W s' \<and> pool_view s' = pool_view s \<and> frames s' = frames s
    \<and> n_blocks (pool_heap s') = n_blocks (pool_heap s)
    \<and> (\<forall>pn. page_table s pn = None \<longrightarrow> page_table s' pn = None)
    \<and> (r = Err AllFramesPinned
        \<or> (\<exists>i < length (frames s). r = Ok i \<and> d_page_no (descriptors s' ! i) = None))"
  using assms
proof (induction k arbitrary: s)
  case 0
  then show ?case by simp
next
  case (Suc k)
  obtain r1 s1 where t: "evict_tick s = (r1, s1)" by (cases "evict_tick s")
  note tick = evict_tick_law [OF Suc.prems(1) t]
  show ?case
  proof (cases "r1 = Ok None")
    case True
    then have "evict_loop k s1 = (r, s')" using Suc.prems(2) t by simp
    with Suc.IH [of s1] tick show ?thesis by auto
  next
    case False
    then show ?thesis using tick Suc.prems(2) t by auto
  qed
qed

lemmas evict_frame_law = evict_loop_law [where k = "length (frames s) * 2" and s = s for s,
    folded evict_frame_def]

text \<open>How often a sweep of \<open>k\<close> ticks that starts at position \<open>h\<close> visits frame \<open>i\<close> of \<open>n\<close>.\<close>

primrec hits :: "nat \<Rightarrow> nat \<Rightarrow> nat \<Rightarrow> nat \<Rightarrow> nat" where
  "hits i n h 0 = 0"
| "hits i n h (Suc k) = (if h mod n = i then 1 else 0) + hits i n (Suc h) k"

lemma hits_add: "hits i n h (j + k) = hits i n h j + hits i n (h + j) k"
  by (induction j arbitrary: h) auto

lemma hits_card: "hits i n h k = card {t. t < k \<and> (h + t) mod n = i}"
proof (induction k)
  case 0
  then show ?case by simp
next
  case (Suc k)
  have "hits i n h (Suc k) = hits i n h k + hits i n (h + k) 1"
    using hits_add [of i n h k 1] by simp
  moreover have "{t. t < Suc k \<and> (h + t) mod n = i}
      = {t. t < k \<and> (h + t) mod n = i} \<union> (if (h + k) mod n = i then {k} else {})"
    by (auto simp: less_Suc_eq)
  ultimately show ?case using Suc by auto
qed

lemma hits_round:
  assumes "i < n"
  shows "hits i n h n = 1"
proof -
  have "{t. t < n \<and> (h + t) mod n = i} = {(i + n - h mod n) mod n}"
  proof (intro set_eqI iffI)
    fix t assume "t \<in> {t. t < n \<and> (h + t) mod n = i}"
    then have t: "t < n" "(h + t) mod n = i" by auto
    have "(i + n - h mod n) mod n = ((h + t) mod n + (n - h mod n)) mod n"
      using assms t by (simp add: less_imp_le)
    also have "\<dots> = (h mod n + t + (n - h mod n)) mod n"
      by (metis mod_add_left_eq)
    also have "\<dots> = t" using assms t by (simp add: less_imp_le)
    finally show "t \<in> {(i + n - h mod n) mod n}" by simp
  next
    fix t assume "t \<in> {(i + n - h mod n) mod n}"
    then have t: "t = (i + n - h mod n) mod n" by simp
    have "(h + t) mod n = (h mod n + (i + n - h mod n)) mod n"
      by (simp add: t mod_simps)
    also have "h mod n + (i + n - h mod n) = i + n"
      using assms by (simp add: trans_le_add2 less_imp_le)
    also have "(i + n) mod n = i" using assms by simp
    finally show "t \<in> {t. t < n \<and> (h + t) mod n = i}" using assms t by simp
  qed
  then show ?thesis by (simp add: hits_card)
qed

lemma hits_two_rounds: "i < n \<Longrightarrow> hits i n h (n * 2) = 2"
  using hits_add [of i n h n n] hits_round [of i n h] hits_round [of i n "h + n"]
  by (simp add: mult_2_right)

text \<open>A frame that survives a sweep of \<open>k\<close> ticks is pinned or was used at least as often as visited.\<close>

definition survives :: "nat \<Rightarrow> buffer_pool \<Rightarrow> nat \<Rightarrow> bool" where
  "survives k s i \<longleftrightarrow> pin_count (descriptors s ! i) > 0
     \<or> hits i (length (frames s)) (unat (clock_hand s)) k \<le> unat (usage_count (descriptors s ! i))"

lemma evict_loop_fails_iff:
  assumes "length (descriptors s) = length (frames s)" and "0 < length (frames s)"
    and "unat (clock_hand s) + k < 2 ^ 64"
  shows "fst (evict_loop k s) = Err AllFramesPinned \<longleftrightarrow> (\<forall>i < length (frames s). survives k s i)"
  using assms
proof (induction k arbitrary: s)
  case 0
  then show ?case by (simp add: survives_def)
next
  case (Suc k)
  define n where "n = length (frames s)"
  define i where "i = unat (clock_hand s) mod n"
  define d where "d = descriptors s ! i"
  define s1 where "s1 = s\<lparr>clock_hand := clock_hand s + 1\<rparr>"
  have i: "i < n" using Suc.prems by (simp add: i_def n_def)
  have hand: "unat (clock_hand s1) = Suc (unat (clock_hand s))"
    using Suc.prems(3) unat_Suc [of "clock_hand s"] by (simp add: s1_def)
  consider (pinned) "pin_count d > 0" | (used) "\<not> pin_count d > 0" "usage_count d > 0"
    | (victim) "\<not> pin_count d > 0" "\<not> usage_count d > 0" by auto
  then show ?case
  proof cases
    case pinned
    then have "evict_loop (Suc k) s = evict_loop k s1"
      by (simp add: evict_tick_def Let_def sbind_def s1_def d_def i_def n_def)
    moreover have "survives (Suc k) s j \<longleftrightarrow> survives k s1 j" if "j < n" for j
      using pinned hand by (auto simp: survives_def s1_def d_def i_def n_def)
    ultimately show ?thesis using Suc.IH [of s1] Suc.prems hand by (simp add: s1_def n_def)
  next
    case used
    define s2 where "s2 = set_desc i (d\<lparr>usage_count := usage_count d - 1\<rparr>) s1"
    have "evict_loop (Suc k) s = evict_loop k s2"
      using used by (simp add: evict_tick_def Let_def sbind_def s1_def s2_def d_def i_def n_def)
    moreover have "survives (Suc k) s j \<longleftrightarrow> survives k s2 j" if j: "j < n" for j
    proof (cases "j = i")
      case True
      have "0 < unat (usage_count d)" using used(2) by (simp add: word_less_nat_alt)
      then show ?thesis
        using True used hand i Suc.prems(1) unat_dec [OF used(2)]
        by (auto simp: survives_def s1_def s2_def d_def [symmetric] n_def [symmetric] i_def [symmetric])
    next
      case False
      then show ?thesis
        using hand by (auto simp: survives_def s1_def s2_def n_def [symmetric] i_def [symmetric])
    qed
    ultimately show ?thesis
      using Suc.IH [of s2] Suc.prems hand by (simp add: s1_def s2_def n_def)
  next
    case victim
    have "\<not> survives (Suc k) s i"
      using victim i by (simp add: survives_def d_def [symmetric] n_def [symmetric] i_def [symmetric]
          word_less_nat_alt unat_eq_0)
    moreover have "fst (evict_loop (Suc k) s) = Ok i"
      using victim pool_write_page_run [of _ s1 i]
      by (auto simp: evict_tick_def Let_def sbind_def s1_def d_def i_def n_def split: option.splits)
    ultimately show ?thesis using i by (auto simp: n_def)
  qed
qed

lemma evict_frame_fails_iff:
  assumes "pool_inv W s" and "unat (clock_hand s) + 2 * length (frames s) < 2 ^ 64"
  shows "fst (evict_frame s) = Err AllFramesPinned \<longleftrightarrow>
    (\<forall>d \<in> set (descriptors s). pin_count d > 0 \<or> 2 \<le> usage_count d)"
proof -
  have "survives (length (frames s) * 2) s i
      \<longleftrightarrow> pin_count (descriptors s ! i) > 0 \<or> 2 \<le> usage_count (descriptors s ! i)"
    if "i < length (frames s)" for i
    using that by (auto simp: survives_def hits_two_rounds word_le_nat_alt)
  then show ?thesis
    using evict_loop_fails_iff [of s "length (frames s) * 2"] assms pool_invD(1,2) [OF assms(1)]
    by (auto simp: evict_frame_def all_set_conv_all_nth mult.commute)
qed

section \<open>Pinning\<close>

lemma alloc_until_law:
  assumes "heap_wf h" and "Suc (unat pn) < 2 ^ 32"
  shows "\<exists>h'. alloc_until pn h = Some (Ok (), h') \<and> heap_wf h'
    \<and> n_blocks h' = max (n_blocks h) (Suc (unat pn))
    \<and> (\<forall>i < n_blocks h. block h' i = block h i)
    \<and> (\<forall>i. n_blocks h \<le> i \<and> i \<le> unat pn \<longrightarrow> block h' i = fresh_page)"
  using assms
proof (induction "Suc (unat pn) - n_blocks h" arbitrary: h)
  case 0
  then have "\<not> num_pages h \<le> pn" by (simp add: word_le_nat_alt unat_num_pages)
  then show ?case using 0 by (auto simp add: alloc_until.simps [of pn h])
next
  case (Suc k)
  have lt: "n_blocks h \<le> unat pn" using Suc.hyps(2) by simp
  then have le: "num_pages h \<le> pn" using Suc.prems by (simp add: word_le_nat_alt unat_num_pages)
  have room: "Suc (n_blocks h) < 2 ^ 32" using lt Suc.prems by simp
  note a = heap_allocate_wf [OF Suc.prems(1) room]
  have "k = Suc (unat pn) - n_blocks (h @ fresh_page)" using Suc.hyps(2) a(3) by simp
  from Suc.hyps(1) [OF this a(2) Suc.prems(2)] obtain h' where
    h': "alloc_until pn (h @ fresh_page) = Some (Ok (), h')" "heap_wf h'"
      "n_blocks h' = max (Suc (n_blocks h)) (Suc (unat pn))"
      "\<forall>i < Suc (n_blocks h). block h' i = block (h @ fresh_page) i"
      "\<forall>i. Suc (n_blocks h) \<le> i \<and> i \<le> unat pn \<longrightarrow> block h' i = fresh_page"
    using a(3) by auto
  have "block h' i = fresh_page" if "n_blocks h \<le> i" "i \<le> unat pn" for i
    using that h'(4,5) a(4) by (cases "i = n_blocks h") auto
  moreover have "alloc_until pn h = Some (Ok (), h')"
    using le a(1) h'(1) by (simp add: alloc_until.simps [of pn h])
  ultimately show ?case
    using h' lt a(5) by (intro exI [of _ h']) auto
qed

text \<open>For the largest page number the allocation loop never ends.\<close>

lemma alloc_until_max: "alloc_until (- 1) h = None"
proof -
  have "pn \<noteq> - 1" if "alloc_until pn h = Some r" for pn h r
    using that
    by (rule alloc_until.raw_induct [where P = "\<lambda>pn h r. pn \<noteq> - 1", rotated])
      (auto simp: heap_allocate_page_def split: if_splits)
  then show ?thesis by (cases "alloc_until (- 1) h") auto
qed

lemma grow_heap:
  assumes inv: "pool_inv W s" and wf: "heap_wf h'" and n: "n_blocks (pool_heap s) \<le> n_blocks h'"
    and same: "\<And>i. i < n_blocks (pool_heap s) \<Longrightarrow> block h' i = block (pool_heap s) i"
  shows "pool_inv W (s\<lparr>pool_heap := h'\<rparr>)"
    and "pool_view (s\<lparr>pool_heap := h'\<rparr>) q = (case pool_view s q of Some p \<Rightarrow> Some p | None \<Rightarrow> disk_view h' q)"
proof -
  have "frame_ok W (s\<lparr>pool_heap := h'\<rparr>) i pn" if "page_table s pn = Some i" for i pn
    using pool_invD(5) [OF inv that] n same by (auto simp: frame_ok_def)
  then show "pool_inv W (s\<lparr>pool_heap := h'\<rparr>)"
    using pool_invD(1,2) [OF inv] inv wf by (simp add: pool_inv_def table_ok_def)
  show "pool_view (s\<lparr>pool_heap := h'\<rparr>) q = (case pool_view s q of Some p \<Rightarrow> Some p | None \<Rightarrow> disk_view h' q)"
    using n same by (auto simp: pool_view_def disk_view_def split: option.splits)
qed

lemma install_law:
  assumes inv: "pool_inv W s" and i: "i < length (frames s)" "d_page_no (descriptors s ! i) = None"
    and pn: "page_table s pn = None" "unat pn < n_blocks (pool_heap s)"
    and run: "install i pn (block (pool_heap s) (unat pn)) s = (r, s')"
  shows "r = Ok i" "pool_inv W s'" "pool_view s' = pool_view s" "page_table s' pn = Some i"
    "pin_count (descriptors s' ! i) > 0"
    "update_checksum (frames s' ! i) = block (pool_heap s) (unat pn)"
proof -
  let ?d = "\<lparr>d_page_no = Some pn, d_dirty = False, pin_count = 1, usage_count = 1\<rparr>"
  let ?p = "block (pool_heap s) (unat pn)"
  have r: "r = Ok i" and s': "s' = (set_desc i ?d s)
      \<lparr>frames := (frames s)[i := ?p], page_table := (page_table s)(pn \<mapsto> i)\<rparr>"
    using run by (simp_all add: install_def)
  have i': "i < length (descriptors s)" using i inv by (simp add: pool_invD(1))
  have p: "page_wf ?p" "update_checksum ?p = ?p"
    using pool_invD(3) [OF inv] pn(2) update_checksum_id [of ?p] by (auto simp: heap_wf_def)
  have no_i: "page_table s qn \<noteq> Some i" for qn using pool_invD(4) [OF inv] i by simp
  show "r = Ok i" by (rule r)
  show "page_table s' pn = Some i" by (simp add: s')
  show "pin_count (descriptors s' ! i) > 0" using i' by (simp add: s')
  show "update_checksum (frames s' ! i) = ?p" using i p by (simp add: s')
  have no_pn: "d_page_no (descriptors s ! j) \<noteq> Some pn" if "j < length (descriptors s)" for j
    using pool_invD(4) [OF inv, of pn j] pn(1) that by simp
  have "table_ok s'"
    using pool_invD(4) [OF inv] i i' no_pn
    by (auto simp: table_ok_def s' nth_list_update split: if_splits)
  moreover have "frame_ok W s' j qn" if "page_table s' qn = Some j" for j qn
    using that pool_invD(5) [OF inv, of qn j] no_i [of qn] i i' p pn(2)
    by (auto simp: frame_ok_def s' split: if_splits)
  ultimately show "pool_inv W s'"
    using pool_invD(1-3) [OF inv] by (simp add: pool_inv_def s')
  show "pool_view s' = pool_view s"
  proof
    fix q
    show "pool_view s' q = pool_view s q"
      using pn i p no_i [of q] by (cases "page_table s q") (auto simp: pool_view_def s')
  qed
qed

text \<open>What a client sees of page \<open>q\<close> after the file was extended up to page \<open>pn\<close>.\<close>

definition extended_view :: "u32 \<Rightarrow> (u32 \<Rightarrow> page option) \<Rightarrow> u32 \<Rightarrow> page option" where
  "extended_view pn v q = (case v q of Some p \<Rightarrow> Some p
     | None \<Rightarrow> if q \<le> pn then Some fresh_page else None)"

lemma pool_view_dom:
  assumes "pool_inv W s"
  shows "pool_view s q = None \<longleftrightarrow> n_blocks (pool_heap s) \<le> unat q"
  using pool_invD(5) [OF assms, of q]
  by (cases "page_table s q") (auto simp: pool_view_def frame_ok_def)

lemma extended_view_id:
  assumes "pool_inv W s" and "pool_view s pn \<noteq> None"
  shows "extended_view pn (pool_view s) = pool_view s"
proof
  fix q
  show "extended_view pn (pool_view s) q = pool_view s q"
    using assms pool_view_dom [OF assms(1), of q] pool_view_dom [OF assms(1), of pn]
    by (auto simp: extended_view_def word_le_nat_alt split: option.splits)
qed

lemma pin_slow_law:
  assumes inv: "pool_inv W s" and pn: "Suc (unat pn) < 2 ^ 32" and miss: "page_table s pn = None"
  obtains (failed) s' where "pin_slow pn s = Some (Err AllFramesPinned, s')" "pool_inv W s'"
      "pool_view s' = pool_view s" "fst (evict_frame s) = Err AllFramesPinned"
  | (pinned) i s' where "pin_slow pn s = Some (Ok i, s')" "pool_inv W s'" "page_table s' pn = Some i"
      "pin_count (descriptors s' ! i) > 0" "pool_view s' = extended_view pn (pool_view s)"
      "fst (evict_frame s) \<noteq> Err AllFramesPinned"
proof -
  obtain r s1 where ev: "evict_frame s = (r, s1)" by (cases "evict_frame s")
  note e = evict_frame_law [OF inv ev]
  from e consider (e) "r = Err AllFramesPinned"
    | (o) i where "i < length (frames s)" "r = Ok i" "d_page_no (descriptors s1 ! i) = None" by blast
  then show ?thesis
  proof cases
    case e
    then show ?thesis using failed ev evict_frame_law [OF inv ev] by (simp add: pin_slow_def)
  next
    case (o i)
    have inv1: "pool_inv W s1" using e by simp
    obtain h where al: "alloc_until pn (pool_heap s1) = Some (Ok (), h)" "heap_wf h"
      "n_blocks h = max (n_blocks (pool_heap s1)) (Suc (unat pn))"
      "\<forall>i < n_blocks (pool_heap s1). block h i = block (pool_heap s1) i"
      "\<forall>i. n_blocks (pool_heap s1) \<le> i \<and> i \<le> unat pn \<longrightarrow> block h i = fresh_page"
      using alloc_until_law [OF pool_invD(3) [OF inv1] pn] by auto
    let ?s2 = "s1\<lparr>pool_heap := h\<rparr>"
    have g: "pool_inv W ?s2"
      "\<And>q. pool_view ?s2 q = (case pool_view s1 q of Some p \<Rightarrow> Some p | None \<Rightarrow> disk_view h q)"
      using grow_heap [OF inv1 al(2)] al(3,4) by simp_all
    have v2: "pool_view ?s2 = extended_view pn (pool_view s)"
    proof
      fix q
      show "pool_view ?s2 q = extended_view pn (pool_view s) q"
        using g(2) [of q] e al(3,5) pool_view_dom [OF inv1, of q]
        by (auto simp: extended_view_def disk_view_def word_le_nat_alt split: option.splits)
    qed
    have pn2: "unat pn < n_blocks h" using al(3) by simp
    obtain r3 s3 where i3: "install i pn (block h (unat pn)) ?s2 = (r3, s3)"
      by (cases "install i pn (block h (unat pn)) ?s2")
    have args: "i < length (frames ?s2)" "d_page_no (descriptors ?s2 ! i) = None"
      "page_table ?s2 pn = None" "unat pn < n_blocks (pool_heap ?s2)"
      "install i pn (block (pool_heap ?s2) (unat pn)) ?s2 = (r3, s3)"
      using o e miss pn2 i3 by simp_all
    note il = install_law [OF g(1) args]
    have "pin_slow pn s = Some (Ok i, s3)"
      using ev o(2) al(1) i3 il(1) pn2 by (simp add: pin_slow_def heap_read_ok [OF al(2)])
    then show ?thesis using pinned [OF _ il(2,4,5)] il(3) v2 ev o(2) by simp
  qed
qed

lemma pin_page_law:
  assumes inv: "pool_inv W s" and pn: "Suc (unat pn) < 2 ^ 32"
    and pins: "\<And>d. d \<in> set (descriptors s) \<Longrightarrow> pin_count d \<noteq> - 1"
  obtains (failed) s' where "pin_page pn s = Some (Err AllFramesPinned, s')" "pool_inv W s'"
      "pool_view s' = pool_view s" "page_table s pn = None" "fst (evict_frame s) = Err AllFramesPinned"
  | (pinned) i s' where "pin_page pn s = Some (Ok i, s')" "pool_inv W s'" "page_table s' pn = Some i"
      "pin_count (descriptors s' ! i) > 0" "pool_view s' = extended_view pn (pool_view s)"
proof (cases "page_table s pn")
  case None
  then have "pin_page pn s = pin_slow pn s" by (simp add: pin_page_def)
  with pin_slow_law [OF inv pn None] None that show ?thesis by metis
next
  case (Some i)
  let ?d = "descriptors s ! i"
  let ?d' = "?d\<lparr>pin_count := pin_count ?d + 1, usage_count := saturating_inc (usage_count ?d)\<rparr>"
  have i: "i < length (descriptors s)" "d_page_no ?d = Some pn"
    using Some pool_invD(4) [OF inv] by auto
  have "pin_count ?d + 1 \<noteq> 0" using pins [of ?d] i by (metis add_eq_0_iff2 nth_mem)
  then have pos: "pin_count ?d' > 0" by (simp add: word_neq_0_conv)
  have run: "pin_page pn s = Some (Ok i, set_desc i ?d' s)"
    using Some i by (simp add: pin_page_def Let_def)
  have ok: "pool_inv W (set_desc i ?d' s)" "pool_view (set_desc i ?d' s) = pool_view s"
    using set_desc_inv [OF inv i(1), of ?d' W] i(2) pool_invD(5) [OF inv Some] pos
    by (simp_all add: frame_ok_def)
  have "pool_view s pn \<noteq> None" using Some by (simp add: pool_view_def)
  with extended_view_id [OF inv] ok(2) have "pool_view (set_desc i ?d' s) = extended_view pn (pool_view s)"
    by simp
  with pinned [OF run ok(1)] Some i(1) pos show ?thesis by simp
qed

section \<open>Writing, unpinning and flushing\<close>

lemma write_frame_law:
  assumes inv: "pool_inv W s" and t: "page_table s pn = Some i"
    and pin: "pin_count (descriptors s ! i) > 0"
    and f: "f (frames s ! i) = (r, p)" and p: "page_wf p"
  obtains s' where "write_frame i f s = (Ok r, s')" and "pool_inv (insert i W) s'"
    and "pool_view s' = (pool_view s)(pn \<mapsto> update_checksum p)"
    and "page_table s' = page_table s" and "descriptors s' = descriptors s" and "frames s' ! i = p"
proof -
  let ?s = "s\<lparr>frames := (frames s)[i := p]\<rparr>"
  have i: "i < length (frames s)" using t pool_invD(1,4) [OF inv] by simp
  have "frame_ok (insert i W) ?s j qn" if "page_table s qn = Some j" for j qn
    using pool_invD(5) [OF inv that] i pin p by (cases "j = i") (auto simp: frame_ok_def)
  then have "pool_inv (insert i W) ?s"
    using pool_invD(1-3) [OF inv] inv by (simp add: pool_inv_def table_ok_def)
  moreover have "pool_view ?s = (pool_view s)(pn \<mapsto> update_checksum p)"
  proof
    fix q
    show "pool_view ?s q = ((pool_view s)(pn \<mapsto> update_checksum p)) q"
      using t i table_inj [OF inv t, of q]
      by (cases "page_table s q") (auto simp: pool_view_def nth_list_update)
  qed
  ultimately show ?thesis using that [of ?s] f i by (simp add: write_frame_def)
qed

lemma unpin_page_law:
  assumes inv: "pool_inv W s" and i: "i < length (frames s)"
    and w: "i \<in> W \<Longrightarrow> dirty"
  obtains s' where "unpin_page i dirty s = (Ok (), s')" and "pool_inv (W - {i}) s'"
    and "pool_view s' = pool_view s"
proof -
  define d where "d = descriptors s ! i"
  define d1 where "d1 = (if pin_count d > 0 then d\<lparr>pin_count := pin_count d - 1\<rparr> else d)"
  define d2 where "d2 = (if dirty then d1\<lparr>d_dirty := True\<rparr> else d1)"
  have i': "i < length (descriptors s)" using i inv by (simp add: pool_invD(1))
  have run: "unpin_page i dirty s = (Ok (), set_desc i d2 s)"
    using i' by (simp add: unpin_page_def d2_def d1_def d_def Let_def)
  have pn: "d_page_no d2 = d_page_no (descriptors s ! i)" "\<not> d_dirty d2 \<longrightarrow> \<not> dirty \<and> \<not> d_dirty d"
    by (auto simp: d2_def d1_def d_def)
  have "update_checksum (frames s ! i) = block (pool_heap s) (unat q)"
    if "d_page_no d2 = Some q" "\<not> d_dirty d2" for q
    using that pn w pool_invD(4,5) [OF inv, of q i] i' by (auto simp: frame_ok_def d_def)
  then show ?thesis
    using that [OF run] set_desc_inv [OF inv i' pn(1), of "W - {i}"] by auto
qed

lemma flush_from_law:
  assumes "pool_inv W s" and "\<And>i. i \<in> set js \<Longrightarrow> i < length (frames s)"
  obtains s' where "flush_from js s = (Ok (), s')" and "pool_inv W s'" and "pool_view s' = pool_view s"
    and "frames s' = frames s" and "page_table s' = page_table s"
    and "\<And>i. i \<in> set js \<Longrightarrow> \<not> d_dirty (descriptors s' ! i)"
    and "\<And>i. i < length (frames s) \<Longrightarrow> \<not> d_dirty (descriptors s ! i) \<Longrightarrow> \<not> d_dirty (descriptors s' ! i)"
  using assms
proof (induction js arbitrary: s thesis)
  case Nil
  then show ?case by simp
next
  case (Cons j js)
  from flush_frame_law [OF Cons.prems(2), of j] Cons.prems(3) obtain s1 where
    s1: "flush_frame j s = (Ok (), s1)" "pool_inv W s1" "pool_view s1 = pool_view s"
      "frames s1 = frames s" "page_table s1 = page_table s"
      "descriptors s1 = (descriptors s)[j := (descriptors s ! j)\<lparr>d_dirty := False\<rparr>]"
    by (metis list.set_intros(1))
  from Cons.IH [OF _ s1(2)] Cons.prems(3) s1(4) obtain s' where
    s': "flush_from js s1 = (Ok (), s')" "pool_inv W s'" "pool_view s' = pool_view s1"
      "frames s' = frames s1" "page_table s' = page_table s1"
      "\<And>i. i \<in> set js \<Longrightarrow> \<not> d_dirty (descriptors s' ! i)"
      "\<And>i. i < length (frames s1) \<Longrightarrow> \<not> d_dirty (descriptors s1 ! i) \<Longrightarrow> \<not> d_dirty (descriptors s' ! i)"
    by (metis list.set_intros(2))
  have len: "length (descriptors s) = length (frames s)" using pool_invD(1) [OF Cons.prems(2)] .
  have j: "\<not> d_dirty (descriptors s' ! j)" using s'(7) [of j] s1(4,6) Cons.prems(3) len by simp
  have keep: "\<not> d_dirty (descriptors s' ! i)"
    if "i < length (frames s)" "\<not> d_dirty (descriptors s ! i)" for i
    using that s'(7) [of i] s1(4,6) len by (cases "i = j") auto
  show ?case
    by (rule Cons.prems(1) [of s']) (use s1 s' j keep in auto)
qed

lemma flush_all_law:
  assumes "pool_inv W s"
  obtains s' where "flush_all_dirty s = (Ok (), s')" and "pool_inv W s'" and "pool_view s' = pool_view s"
    and "W = {} \<Longrightarrow> disk_view (pool_heap s') = pool_view s"
proof -
  obtain s' where s': "flush_all_dirty s = (Ok (), s')" "pool_inv W s'" "pool_view s' = pool_view s"
    "frames s' = frames s" "page_table s' = page_table s"
    "\<And>i. i < length (frames s) \<Longrightarrow> \<not> d_dirty (descriptors s' ! i)"
    using flush_from_law [OF assms, of "[0..<length (frames s)]"] unfolding flush_all_dirty_def
    by (metis atLeastLessThan_iff atLeastLessThan_upt bot_nat_0.extremum)
  have "disk_view (pool_heap s') q = pool_view s' q" if "W = {}" for q
  proof (cases "page_table s' q")
    case None
    then show ?thesis by (simp add: disk_view_def pool_view_def)
  next
    case (Some i)
    then have "i < length (frames s)" using pool_invD(1,4) [OF s'(2)] s'(4) by simp
    then show ?thesis
      using pool_invD(5) [OF s'(2) Some] s'(6) that Some
      by (simp add: disk_view_def pool_view_def frame_ok_def)
  qed
  then show ?thesis using that [OF s'(1-3)] s'(3) by auto
qed

lemma pool_new_inv:
  assumes "heap_wf h" and "BufferPool_new h n = Ok s"
  shows "pool_inv {} s" and "pool_view s = disk_view h" and "num_frames s = min n MAX_BUFFER_FRAMES"
  using assms by (auto simp: BufferPool_new_def Let_def pool_inv_def table_ok_def pool_view_def disk_view_def
      BufferDescriptor_new_def num_frames_def fun_eq_iff split: if_splits)

section \<open>Interleaved clients\<close>

text \<open>
  The steps clients take, in any order. A configuration is the set of frames with unreleased
  writes, the pool, and the page contents the clients believe in: only a write through a pinned
  frame and the allocation of a missing page change the latter.
\<close>

type_synonym pool_conf = "nat set \<times> buffer_pool \<times> (u32 \<Rightarrow> page option)"

inductive pool_step :: "pool_conf \<Rightarrow> pool_conf \<Rightarrow> bool" where
  pin: "pin_page pn s = Some (Ok i, s') \<Longrightarrow> Suc (unat pn) < 2 ^ 32
    \<Longrightarrow> (\<And>d. d \<in> set (descriptors s) \<Longrightarrow> pin_count d \<noteq> - 1)
    \<Longrightarrow> pool_step (W, s, v) (W, s', extended_view pn v)"
| pin_failed: "pin_page pn s = Some (Err e, s') \<Longrightarrow> Suc (unat pn) < 2 ^ 32
    \<Longrightarrow> (\<And>d. d \<in> set (descriptors s) \<Longrightarrow> pin_count d \<noteq> - 1)
    \<Longrightarrow> pool_step (W, s, v) (W, s', v)"
| write_pinned: "page_table s pn = Some i \<Longrightarrow> pin_count (descriptors s ! i) > 0
    \<Longrightarrow> f (frames s ! i) = (r :: unit, p) \<Longrightarrow> page_wf p \<Longrightarrow> write_frame i f s = (Ok r, s')
    \<Longrightarrow> pool_step (W, s, v) (insert i W, s', v(pn \<mapsto> update_checksum p))"
| unpin: "unpin_page i dirty s = (Ok (), s') \<Longrightarrow> (i \<in> W \<Longrightarrow> dirty)
    \<Longrightarrow> pool_step (W, s, v) (W - {i}, s', v)"
| flush: "flush_frame i s = (Ok (), s') \<Longrightarrow> pool_step (W, s, v) (W, s', v)"
| flush_all: "flush_all_dirty s = (Ok (), s') \<Longrightarrow> pool_step (W, s, v) (W, s', v)"
| evict: "evict_frame s = (r, s') \<Longrightarrow> pool_step (W, s, v) (W, s', v)"

lemma pool_step_law:
  assumes "pool_step (W, s, v) (W', s', v')" and "pool_inv W s" and "pool_view s = v"
  shows "pool_inv W' s' \<and> pool_view s' = v'"
  using assms
proof (induction "(W, s, v)" "(W', s', v')" rule: pool_step.induct)
  case (pin pn i)
  show ?case by (rule pin_page_law [OF pin.prems(1) pin.hyps(2,3)]) (use pin in auto)
next
  case (pin_failed pn e)
  show ?case
    by (rule pin_page_law [OF pin_failed.prems(1) pin_failed.hyps(2,3)]) (use pin_failed in auto)
next
  case (write_pinned pn i f r p)
  then show ?case by (metis write_frame_law prod.inject)
next
  case (unpin i dirty)
  then have "i < length (frames s)"
    using pool_invD(1) [OF unpin.prems(1)] by (auto simp: unpin_page_def split: if_splits)
  with unpin show ?case by (metis unpin_page_law prod.inject)
next
  case (flush i)
  then have "i < length (frames s)"
    using pool_invD(1) [OF flush.prems(1)] by (auto simp: flush_frame_def split: if_splits)
  with flush show ?case by (metis flush_frame_law prod.inject)
next
  case flush_all
  then show ?case by (metis flush_all_law prod.inject)
next
  case (evict r)
  then show ?case using evict_frame_law by blast
qed

lemma pool_steps_law:
  assumes "pool_step\<^sup>*\<^sup>* c c'" and "pool_inv (fst c) (fst (snd c))" and "pool_view (fst (snd c)) = snd (snd c)"
  shows "pool_inv (fst c') (fst (snd c')) \<and> pool_view (fst (snd c')) = snd (snd c')"
  using assms
proof (induction rule: rtranclp_induct)
  case base
  then show ?case by simp
next
  case (step c1 c2)
  then show ?case using pool_step_law by (cases c1, cases c2) auto
qed

section \<open>Properties\<close>

text \<open>
  \<^bold>\<open>C10.\<close> Starting from a fresh pool over a well-formed heap file, let clients pin, write through
  pinned frames, unpin, flush and sweep in any order. Then every page still reads as the last content
  written to it, and once no write is left unreleased, \<open>flush_all_dirty\<close> succeeds and leaves exactly
  these contents on disk.
\<close>

theorem pool_transparent_and_durable:
  assumes "heap_wf h" and "BufferPool_new h n = Ok s0"
    and "pool_step\<^sup>*\<^sup>* ({}, s0, disk_view h) (W, s, v)"
  shows "pool_view s = v \<and> (W = {} \<longrightarrow> (\<exists>s'. flush_all_dirty s = (Ok (), s')
           \<and> disk_view (pool_heap s') = v \<and> heap_wf (pool_heap s')))"
proof -
  have inv: "pool_inv W s" "pool_view s = v"
    using pool_steps_law [OF assms(3)] pool_new_inv [OF assms(1,2)] by auto
  obtain s' where "flush_all_dirty s = (Ok (), s')" "pool_inv W s'" "W = {} \<Longrightarrow> disk_view (pool_heap s') = v"
    using flush_all_law [OF inv(1)] inv(2) by metis
  then show ?thesis using inv(2) pool_invD(3) by blast
qed

text \<open>A pool with one frame over the empty file, used by the witnesses.\<close>

definition tiny_pool :: buffer_pool where
  "tiny_pool = \<lparr>frames = [Page_new], descriptors = [BufferDescriptor_new], clock_hand = 0,
     pool_heap = [], page_table = Map.empty\<rparr>"

lemma heap_wf_Nil: "heap_wf []"
  using heap_inv_Nil by (simp add: heap_inv_def)

lemma tiny_pool_new: "BufferPool_new [] 1 = Ok tiny_pool"
  by (simp add: BufferPool_new_def tiny_pool_def)

lemma tiny_pool_facts:
  "pool_inv {} tiny_pool" "pool_view tiny_pool = disk_view []"
  "unat (clock_hand tiny_pool) + 2 * length (frames tiny_pool) < 2 ^ 64"
  "d \<in> set (descriptors tiny_pool) \<Longrightarrow> pin_count d \<noteq> - 1"
  using pool_new_inv [OF heap_wf_Nil tiny_pool_new]
  by (simp_all add: tiny_pool_def BufferDescriptor_new_def)

lemma tiny_pool_evicts: "fst (evict_frame tiny_pool) \<noteq> Err AllFramesPinned"
  using evict_frame_fails_iff [OF tiny_pool_facts(1,3)]
  by (simp add: tiny_pool_def BufferDescriptor_new_def)

lemma tiny_pool_pin:
  obtains i s where "pin_page 0 tiny_pool = Some (Ok i, s)"
    "pool_step ({}, tiny_pool, disk_view []) ({}, s, extended_view 0 (disk_view []))"
proof (rule pin_page_law [OF tiny_pool_facts(1) _ tiny_pool_facts(4), of 0])
  show "Suc (unat (0 :: u32)) < 2 ^ 32" by simp
next
  fix s' assume "fst (evict_frame tiny_pool) = Err AllFramesPinned"
  then show thesis using tiny_pool_evicts by simp
next
  fix i s' assume run: "pin_page 0 tiny_pool = Some (Ok i, s')"
  have "pool_step ({}, tiny_pool, disk_view []) ({}, s', extended_view 0 (disk_view []))"
    by (rule pool_step.pin [OF run]) (simp_all add: tiny_pool_facts(4))
  with run that show thesis by blast
qed

theorem pool_transparent_and_durable_witness:
  "\<exists>s v. pool_step\<^sup>*\<^sup>* ({}, tiny_pool, disk_view []) ({}, s, v) \<and> v 0 = Some fresh_page \<and> pool_view s = v
     \<and> (\<exists>s'. flush_all_dirty s = (Ok (), s') \<and> disk_view (pool_heap s') 0 = Some fresh_page)"
proof -
  obtain i s where st: "pool_step ({}, tiny_pool, disk_view []) ({}, s, extended_view 0 (disk_view []))"
    by (rule tiny_pool_pin)
  have v: "extended_view 0 (disk_view []) 0 = Some fresh_page"
    by (simp add: extended_view_def disk_view_def)
  from st have sts: "pool_step\<^sup>*\<^sup>* ({}, tiny_pool, disk_view []) ({}, s, extended_view 0 (disk_view []))" ..
  show ?thesis
    using pool_transparent_and_durable [OF heap_wf_Nil tiny_pool_new sts] v sts by metis
qed

text \<open>
  Pinning a page of a pool in a consistent state always returns. It either hands out a pinned
  frame that the page table records for this page and that holds the page's content (a fresh page, if the
  file had to be extended), all other contents unchanged; or it reports \<open>AllFramesPinned\<close> and changes no
  content, and then the page was not cached and every frame is pinned or has been used at least twice.
\<close>

theorem pin_page_correct:
  assumes "pool_inv W s" and "Suc (unat pn) < 2 ^ 32" and "\<forall>d \<in> set (descriptors s). pin_count d \<noteq> - 1"
    and "unat (clock_hand s) + 2 * length (frames s) < 2 ^ 64"
  shows "\<exists>r s'. pin_page pn s = Some (r, s') \<and> pool_inv W s' \<and>
    (case r of
       Ok i \<Rightarrow> page_table s' pn = Some i \<and> pin_count (descriptors s' ! i) > 0
         \<and> pool_view s' = extended_view pn (pool_view s)
         \<and> pool_view s' pn = Some (update_checksum (frames s' ! i))
     | Err e \<Rightarrow> e = AllFramesPinned \<and> pool_view s' = pool_view s \<and> page_table s pn = None
         \<and> (\<forall>d \<in> set (descriptors s). pin_count d > 0 \<or> 2 \<le> usage_count d)
     | Panic \<Rightarrow> False)"
proof (rule pin_page_law [OF assms(1,2)])
  show "pin_count d \<noteq> - 1" if "d \<in> set (descriptors s)" for d using assms(3) that by blast
next
  fix i s'
  assume "pin_page pn s = Some (Ok i, s')" "pool_inv W s'" "page_table s' pn = Some i"
    "pin_count (descriptors s' ! i) > 0" "pool_view s' = extended_view pn (pool_view s)"
  moreover have "pool_view s' pn = Some (update_checksum (frames s' ! i))"
    using \<open>page_table s' pn = Some i\<close> by (simp add: pool_view_def)
  ultimately show ?thesis by auto
qed (use evict_frame_fails_iff [OF assms(1,4)] in auto)

theorem pin_page_correct_witness:
  "\<exists>i s'. pin_page 0 tiny_pool = Some (Ok i, s') \<and> pool_view s' 0 = Some (update_checksum (frames s' ! i))
     \<and> extended_view 0 (pool_view tiny_pool) 0 = Some fresh_page"
proof -
  obtain i s where "pin_page 0 tiny_pool = Some (Ok i, s)" by (rule tiny_pool_pin)
  moreover have "Suc (unat (0 :: u32)) < 2 ^ 32" "\<forall>d \<in> set (descriptors tiny_pool). pin_count d \<noteq> - 1"
    using tiny_pool_facts(4) by auto
  ultimately show ?thesis
    using pin_page_correct [OF tiny_pool_facts(1) _ _ tiny_pool_facts(3), of 0]
    by (auto simp: extended_view_def tiny_pool_facts(2) disk_view_def)
qed

text \<open>
  \<^bold>\<open>C34.\<close> The sweep finds no victim exactly when each frame is pinned or its usage count is at least
  two: two rounds take only two from a count that can reach 255. The error name claims more than that,
  for a pool in which nothing is pinned can report it.
\<close>

theorem evict_fails_exactly:
  assumes "pool_inv W s" and "unat (clock_hand s) + 2 * length (frames s) < 2 ^ 64"
  shows "fst (evict_frame s) = Err AllFramesPinned \<longleftrightarrow>
    (\<forall>d \<in> set (descriptors s). pin_count d > 0 \<or> 2 \<le> usage_count d)"
  by (rule evict_frame_fails_iff [OF assms])

definition hot_pool :: buffer_pool where
  "hot_pool = set_desc 0 (BufferDescriptor_new\<lparr>usage_count := 2\<rparr>) tiny_pool"

theorem evict_fails_exactly_witness:
  "fst (evict_frame hot_pool) = Err AllFramesPinned \<and> map pin_count (descriptors hot_pool) = [0]
     \<and> fst (evict_frame tiny_pool) \<noteq> Err AllFramesPinned"
proof -
  have "pool_inv {} hot_pool"
    unfolding hot_pool_def
    by (rule set_desc_inv [OF tiny_pool_facts(1)]) (simp_all add: tiny_pool_def BufferDescriptor_new_def)
  then show ?thesis
    using evict_fails_exactly [of "{}" hot_pool] evict_fails_exactly [OF tiny_pool_facts(1,3)]
    by (simp add: hot_pool_def tiny_pool_def BufferDescriptor_new_def)
qed

end
