(* ===== verification/Wal_Recovery.thy ===== *)
theory Wal_Recovery
  imports Buffer_Pool Wal_Log
begin

text \<open>
  Crash recovery (\<^verbatim>\<open>wal/src/recovery.rs\<close>) and checkpoints (\<^verbatim>\<open>wal/src/checkpoint.rs\<close>).
  Recovery replays page images from the last checkpoint on; it is shown to implement the redo of these
  images on the map from page numbers to pages, and to be idempotent. What a checkpoint makes of that is
  stated as it is: the images it logs lie before the position recovery starts from.
\<close>

section \<open>Definitions\<close>

abbreviation (input) CHECKPOINT_CTL :: string where "CHECKPOINT_CTL \<equiv> ''checkpoint.ctl''"

definition read_checkpoint_lsn :: "dir \<Rightarrow> (wal_error, lsn) outcome" where
  "read_checkpoint_lsn d =
     (case map_of d CHECKPOINT_CTL of
        None \<Rightarrow> Ok INVALID_LSN
      | Some bytes \<Rightarrow> (case read_exact bytes 0 8 of (Some buf, _) \<Rightarrow> Ok (from_le_bytes buf) | (None, _) \<Rightarrow> Err WalIo))"

lemma num_pages_allocate: "num_pages (snd (heap_allocate_page h)) = num_pages h + 1"
proof -
  have "length (update_checksum Page_new) = 8192" using Page_new_wf by auto
  moreover have "(length h + 8192) div 8192 = Suc (length h div 8192)" by simp
  ultimately show ?thesis by (simp add: heap_allocate_page_def num_pages_def del: div_add_self2)
qed

function ensure_pages :: "u32 \<Rightarrow> (heap, wal_error, unit) sop" where
  "ensure_pages required h =
     (if num_pages h < required
      then (case heap_allocate_page h of
              (Ok _, h') \<Rightarrow> ensure_pages required h'
            | (Err e, h') \<Rightarrow> (Err (WalStorage (StorageHeap e)), h')
            | (Panic, h') \<Rightarrow> (Panic, h'))
      else (Ok (), h))"
  by pat_completeness auto
termination
proof (relation "measure (\<lambda>(required, h). unat required - unat (num_pages h))")
  fix required :: u32 and h h' :: heap and r :: "(heap_error, u32) outcome" and pn
  assume lt: "num_pages h < required" and al: "(r, h') = heap_allocate_page h" and "r = Ok pn"
  have "num_pages h' = num_pages h + 1" using num_pages_allocate [of h] al by (metis snd_conv)
  moreover have "num_pages h \<noteq> - 1" using lt by (metis word_order.extremum_strict)
  then have "num_pages h < num_pages h + 1" by (rule word_less_succ)
  ultimately show "((required, h'), required, h) \<in> measure (\<lambda>(required, h). unat required - unat (num_pages h))"
    using lt by (simp add: word_less_nat_alt diff_less_mono2)
qed simp

declare ensure_pages.simps [simp del]

definition recover_step :: "wal_record \<Rightarrow> (heap \<times> lsn, wal_error, unit) sop" where
  "recover_step rec s =
     (let s1 = (fst s, r_lsn rec) in
      case r_type rec of
        PageImage \<Rightarrow>
          if length (r_data rec) \<noteq> PAGE_SIZE
          then (Err (CorruptRecord (r_lsn rec) (PageImageLength (length (r_data rec)))), s1)
          else szoom fst (\<lambda>h s. (h, snd s))
                 (sbind (ensure_pages (r_page_no rec + 1)) (\<lambda>_.
                  smap_err (\<lambda>e. WalStorage (StorageHeap e)) (heap_write_page (r_page_no rec) (r_data rec)))) s1
      | Insert \<Rightarrow> (Ok (), s1)
      | Delete \<Rightarrow> (Ok (), s1)
      | Commit \<Rightarrow> (Ok (), s1)
      | Abort \<Rightarrow> (Ok (), s1)
      | Checkpoint \<Rightarrow> (Ok (), s1)
      | Update \<Rightarrow> (Ok (), s1))"

definition recover :: "dir \<Rightarrow> (heap, wal_error, lsn) sop" where
  "recover d h =
     (case obind (read_checkpoint_lsn d) (WalReader_open d) of
        Err e \<Rightarrow> (Err e, h)
      | Panic \<Rightarrow> (Panic, h)
      | Ok r \<Rightarrow>
          (case replay recover_step r (h, INVALID_LSN) of
             (Ok _, (h', last_lsn)) \<Rightarrow> (Ok last_lsn, h')
           | (Err e, (h', _)) \<Rightarrow> (Err e, h')
           | (Panic, (h', _)) \<Rightarrow> (Panic, h')))"

text \<open>The checkpoint manager shares the writer; the control file lies in the log directory.\<close>

record checkpoint_manager =
  wal_writer_of :: wal_writer
  checkpoint_lsn :: lsn

definition CheckpointManager_new :: "wal_writer \<Rightarrow> (wal_error, checkpoint_manager) outcome" where
  "CheckpointManager_new w =
     obind (read_checkpoint_lsn (w_dir w)) (\<lambda>l. Ok \<lparr>wal_writer_of = w, checkpoint_lsn = l\<rparr>)"

definition last_checkpoint_lsn :: "checkpoint_manager \<Rightarrow> lsn" where
  "last_checkpoint_lsn m = checkpoint_lsn m"

primrec log_dirty_pages :: "(u32 \<times> page) list \<Rightarrow> (wal_writer, wal_error, unit) sop" where
  "log_dirty_pages [] = sret ()"
| "log_dirty_pages (p # ps) =
     (case p of (pn, page) \<Rightarrow>
        if length page \<noteq> PAGE_SIZE then (\<lambda>w. (Panic, w))
        else sbind (wal_append 0 PageImage pn page) (\<lambda>_. log_dirty_pages ps))"

definition perform_checkpoint :: "(u32 \<times> page) list \<Rightarrow> (checkpoint_manager, wal_error, lsn) sop" where
  "perform_checkpoint dirty =
     sbind (szoom wal_writer_of (\<lambda>w m. m\<lparr>wal_writer_of := w\<rparr>)
              (sbind (log_dirty_pages dirty) (\<lambda>_.
               sbind (append_and_flush 0 Checkpoint 0 []) (\<lambda>l.
               sbind (smod (\<lambda>w. w\<lparr>w_dir := AList.update CHECKPOINT_CTL (u64_bytes l) (w_dir w)\<rparr>)) (\<lambda>_.
               sret l))))) (\<lambda>l.
     sbind (smod (\<lambda>m. m\<lparr>checkpoint_lsn := l\<rparr>)) (\<lambda>_. sret l))"

section \<open>Redo\<close>

text \<open>What one record does to the pages, and what the whole log does.\<close>

definition redo :: "(u32 \<Rightarrow> page option) \<Rightarrow> wal_record \<Rightarrow> (u32 \<Rightarrow> page option)" where
  "redo v rec = (if r_type rec = PageImage
     then (extended_view (r_page_no rec) v)(r_page_no rec \<mapsto> update_checksum (r_data rec)) else v)"

definition image_ok :: "wal_record \<Rightarrow> bool" where
  "image_ok rec \<longleftrightarrow> (r_type rec = PageImage \<longrightarrow> page_wf (r_data rec) \<and> r_page_no rec \<noteq> - 1)"

lemma ensure_pages_law:
  assumes "heap_wf h"
  shows "\<exists>h'. ensure_pages required h = (Ok (), h') \<and> heap_wf h' \<and> n_blocks h' = max (n_blocks h) (unat required)
    \<and> (\<forall>i < n_blocks h. block h' i = block h i) \<and> (\<forall>i. n_blocks h \<le> i \<and> i < unat required \<longrightarrow> block h' i = fresh_page)"
  using assms
proof (induction "unat required - n_blocks h" arbitrary: h)
  case 0
  then have "\<not> num_pages h < required" by (simp add: word_less_nat_alt unat_num_pages)
  then show ?case using 0 by (auto simp: ensure_pages.simps [of required h])
next
  case (Suc k)
  have lt: "n_blocks h < unat required" using Suc.hyps(2) by simp
  then have le: "num_pages h < required" using Suc.prems by (simp add: word_less_nat_alt unat_num_pages)
  have room: "Suc (n_blocks h) < 2 ^ 32" using lt unat_u32_bound [of required] by (simp del: unat_u32_bound)
  note a = heap_allocate_wf [OF Suc.prems(1) room]
  have "k = unat required - n_blocks (h @ fresh_page)" using Suc.hyps(2) a(3) by simp
  from Suc.hyps(1) [OF this a(2)] obtain h' where
    h': "ensure_pages required (h @ fresh_page) = (Ok (), h')" "heap_wf h'"
      "n_blocks h' = max (Suc (n_blocks h)) (unat required)"
      "\<forall>i < Suc (n_blocks h). block h' i = block (h @ fresh_page) i"
      "\<forall>i. Suc (n_blocks h) \<le> i \<and> i < unat required \<longrightarrow> block h' i = fresh_page"
    using a(3) by auto
  have "block h' i = fresh_page" if "n_blocks h \<le> i" "i < unat required" for i
    using that h'(4,5) a(4) by (cases "i = n_blocks h") auto
  moreover have "ensure_pages required h = (Ok (), h')"
    using le a(1) h'(1) by (simp add: ensure_pages.simps [of required h])
  ultimately show ?case using h' lt a(5) by (intro exI [of _ h']) auto
qed

lemma recover_step_law:
  assumes wf: "heap_wf h" and ok: "image_ok rec"
  shows "\<exists>h'. recover_step rec (h, l) = (Ok (), (h', r_lsn rec)) \<and> heap_wf h'
    \<and> disk_view h' = redo (disk_view h) rec"
proof (cases "r_type rec = PageImage")
  case False
  then show ?thesis using wf by (cases "r_type rec") (auto simp: recover_step_def redo_def Let_def)
next
  case True
  let ?pn = "r_page_no rec" and ?p = "r_data rec"
  have p: "page_wf ?p" "?pn \<noteq> - 1" using ok True by (auto simp: image_ok_def)
  have succ: "unat (?pn + 1) = Suc (unat ?pn)"
    using word_less_succ [OF p(2)] unat_succ_le [of ?pn] by (simp add: word_less_nat_alt)
  obtain h1 where h1: "ensure_pages (?pn + 1) h = (Ok (), h1)" "heap_wf h1"
    "n_blocks h1 = max (n_blocks h) (Suc (unat ?pn))" "\<forall>i < n_blocks h. block h1 i = block h i"
    "\<forall>i. n_blocks h \<le> i \<and> i < Suc (unat ?pn) \<longrightarrow> block h1 i = fresh_page"
    using ensure_pages_law [OF wf, of "?pn + 1"] succ by auto
  have i: "unat ?pn < n_blocks h1" using h1(3) by simp
  note w = heap_write_wf [OF h1(2) i p(1)]
  let ?h = "file_write_at h1 (unat ?pn * PAGE_SIZE) (update_checksum ?p)"
  have run: "recover_step rec (h, l) = (Ok (), (?h, r_lsn rec))"
    using True page_wf_length [OF p(1)] h1(1) w(1)
    by (simp add: recover_step_def Let_def szoom_def smap_err_def)
  have "disk_view ?h q = redo (disk_view h) rec q" for q
  proof (cases "q = ?pn")
    case True
    then show ?thesis using w(3,4) i \<open>r_type rec = PageImage\<close> by (simp add: disk_view_def redo_def)
  next
    case False
    then have "unat q \<noteq> unat ?pn" by (metis unsigned_word_eqI)
    then show ?thesis
      using False w(3,5) h1(3-5) \<open>r_type rec = PageImage\<close>
      by (auto simp: disk_view_def redo_def extended_view_def word_le_nat_alt less_Suc_eq_le)
  qed
  with run w(2) show ?thesis by blast
qed

lemma recover_steps_law:
  assumes "heap_wf h" and "\<forall>rec \<in> set recs. image_ok rec"
  shows "\<exists>h'. steps recover_step recs (h, l) = (Ok (), (h', if recs = [] then l else r_lsn (last recs)))
    \<and> heap_wf h' \<and> disk_view h' = foldl redo (disk_view h) recs"
  using assms
proof (induction recs arbitrary: h l)
  case Nil
  then show ?case by simp
next
  case (Cons rec recs)
  obtain h1 where h1: "recover_step rec (h, l) = (Ok (), (h1, r_lsn rec))" "heap_wf h1"
    "disk_view h1 = redo (disk_view h) rec"
    using recover_step_law [OF Cons.prems(1), of rec l] Cons.prems(2) by auto
  from Cons.IH [OF h1(2), of "r_lsn rec"] Cons.prems(2) h1(1,3) show ?case by auto
qed

text \<open>The effect of a redo pass, in closed form: the last image of a page wins.\<close>

primrec last_image :: "wal_record list \<Rightarrow> u32 \<Rightarrow> page option" where
  "last_image [] q = None"
| "last_image (rec # recs) q =
     (case last_image recs q of
        Some p \<Rightarrow> Some p
      | None \<Rightarrow> if r_type rec = PageImage \<and> r_page_no rec = q then Some (update_checksum (r_data rec)) else None)"

definition redo_all :: "wal_record list \<Rightarrow> (u32 \<Rightarrow> page option) \<Rightarrow> u32 \<Rightarrow> page option" where
  "redo_all recs v q =
     (case last_image recs q of
        Some p \<Rightarrow> Some p
      | None \<Rightarrow> (case v q of
          Some p \<Rightarrow> Some p
        | None \<Rightarrow> if \<exists>rec \<in> set recs. r_type rec = PageImage \<and> q \<le> r_page_no rec then Some fresh_page else None))"

lemma foldl_redo: "foldl redo v recs = redo_all recs v"
proof (induction recs arbitrary: v)
  case Nil
  then show ?case by (auto simp: redo_all_def fun_eq_iff split: option.splits)
next
  case (Cons rec recs)
  have "redo_all recs (redo v rec) q = redo_all (rec # recs) v q" for q
    by (cases "last_image recs q"; cases "v q") (auto simp: redo_all_def redo_def extended_view_def)
  then show ?case using Cons by (simp add: fun_eq_iff)
qed

lemma redo_all_idem: "redo_all recs (redo_all recs v) = redo_all recs v"
  by (auto simp: redo_all_def fun_eq_iff split: option.splits)

lemma heap_wf_ext:
  assumes "heap_wf h" and "heap_wf h'" and "disk_view h = disk_view h'"
  shows "h = h'"
proof (rule file_eqI)
  show "blocked h" "blocked h'" using assms by (simp_all add: heap_wf_def)
  have dom: "i < n_blocks g \<longleftrightarrow> disk_view g (of_nat i) \<noteq> None" if "i < 2 ^ 32" for i g
    using that by (simp add: disk_view_def)
  have lt: "n_blocks h < 2 ^ 32" "n_blocks h' < 2 ^ 32" using assms by (simp_all add: heap_wf_def)
  show n: "n_blocks h = n_blocks h'"
    using dom [OF lt(1), of h] dom [OF lt(1), of h'] dom [OF lt(2), of h] dom [OF lt(2), of h'] assms(3) by auto
  show "block h i = block h' i" if "i < n_blocks h" for i
    using fun_cong [OF assms(3), of "of_nat i"] that n lt by (simp add: disk_view_def)
qed

section \<open>Recovery and checkpoints\<close>

lemma recover_law:
  assumes log: "holds_log d cs" and asc: "ascending (log_records cs)" and wf: "heap_wf h"
    and ck: "read_checkpoint_lsn d = Ok start"
    and imgs: "\<forall>rec \<in> set (log_records cs). image_ok rec"
  defines "recs \<equiv> filter (\<lambda>x. start \<le> r_lsn x) (log_records cs)"
  shows "\<exists>h'. recover d h = (Ok (if recs = [] then INVALID_LSN else r_lsn (last recs)), h') \<and> heap_wf h'
    \<and> disk_view h' = redo_all recs (disk_view h)"
proof -
  have "\<exists>r. WalReader_open d start = Ok r \<and> (\<forall>f (s :: heap \<times> lsn). replay f r s = steps f recs s)"
  proof (cases "start = INVALID_LSN")
    case True
    then have "recs = log_records cs" by (simp add: recs_def)
    then show ?thesis using reader_from_start [OF log] True by metis
  next
    case False
    then show ?thesis using reader_from_lsn [OF log asc False] unfolding recs_def by metis
  qed
  then obtain r where r: "WalReader_open d start = Ok r" "replay recover_step r (h, 0) = steps recover_step recs (h, 0)"
    by blast
  have "\<forall>rec \<in> set recs. image_ok rec" using imgs by (simp add: recs_def)
  from recover_steps_law [OF wf this, of 0] r ck show ?thesis
    by (auto simp: recover_def foldl_redo)
qed

lemma ctl_not_segment: "seg_number CHECKPOINT_CTL = None"
  by (simp add: seg_number_def suffix_def)

lemma dir_holds_other:
  assumes "dir_holds d segs" and "seg_number name = None"
  shows "dir_holds (AList.update name b d) segs"
proof -
  have "segment_filename n \<noteq> name" for n using assms(2) by auto
  moreover have "list_segments (AList.update name b d) = list_segments d"
    using assms(2) by (simp add: list_segments_keys update_keys map_filter_def)
  ultimately show ?thesis using assms(1) by (auto simp: dir_holds_def update_conv')
qed

lemma log_dirty_pages_eq:
  assumes "\<forall>(pn, page) \<in> set dirty. length page = PAGE_SIZE"
  shows "log_dirty_pages dirty w
    = sbind (append_list (map (\<lambda>(pn, page). (0, PageImage, pn, page)) dirty)) (\<lambda>_. sret ()) w"
  using assms
proof (induction dirty arbitrary: w)
  case Nil
  then show ?case by simp
next
  case (Cons p dirty)
  obtain pn page where p: "p = (pn, page)" by (cases p)
  obtain r w1 where a: "wal_append 0 PageImage pn page w = (r, w1)" by (cases "wal_append 0 PageImage pn page w")
  show ?case
    using Cons p a by (cases r) (simp_all add: sbind_def split: prod.splits outcome.splits)
qed

lemma perform_checkpoint_law:
  assumes inv: "wal_inv cs (wal_writer_of m)" and pages: "\<forall>(pn, page) \<in> set dirty. length page = PAGE_SIZE"
    and seg: "unat (w_segment (wal_writer_of m)) + length dirty < 2 ^ 64 - 2"
    and room: "length (log_records cs) + length dirty < 2 ^ 64 - 1"
  obtains m' cs' imgs ck where "perform_checkpoint dirty m = (Ok (r_lsn ck), m')"
    and "wal_inv cs' (wal_writer_of m')" and "log_records cs' = log_records cs @ imgs @ [ck]"
    and "map entry_of imgs = map (\<lambda>(pn, page). (0, PageImage, pn, page)) dirty" and "entry_of ck = (0, Checkpoint, 0, [])"
    and "read_checkpoint_lsn (w_dir (wal_writer_of m')) = Ok (r_lsn ck)" and "last_checkpoint_lsn m' = r_lsn ck"
proof -
  let ?w = "wal_writer_of m" and ?es = "map (\<lambda>(pn, page). (0 :: u32, PageImage, pn :: u32, page :: page)) dirty"
  have pre: "unat (w_segment ?w) + length ?es < 2 ^ 64 - 1" "length (log_records cs) + length ?es < 2 ^ 64"
    "\<forall>(x, ty, pn, d) \<in> set ?es. 37 + length d < 2 ^ 32"
    using seg room pages by auto
  obtain cs1 w1 imgs where 1: "append_list ?es ?w = (Ok (map r_lsn imgs), w1)" "wal_inv cs1 w1"
    "log_records cs1 = log_records cs @ imgs" "map entry_of imgs = ?es"
    "unat (w_segment w1) \<le> unat (w_segment ?w) + length ?es"
    by (rule append_list_law [OF inv pre])
  have "length imgs = length dirty" using 1(4) by (auto dest: arg_cong [of _ _ length])
  then have pre2: "w_segment w1 \<noteq> - 1" "Suc (length (log_records cs1)) < 2 ^ 64" "37 + length ([] :: byte list) < 2 ^ 32"
    using 1(3,5) seg room by (auto simp: unsigned_minus_1_eq_mask mask_eq_exp_minus_1)
  let ?ck = "appended w1 0 Checkpoint 0 []"
  obtain cs2 w2 where 2: "append_inner 0 Checkpoint 0 [] w1 = (Ok (w_lsn w1 + 1), w2)" "wal_inv cs2 w2"
    "log_records cs2 = log_records cs1 @ [?ck]"
    by (rule append_law [OF 1(2) pre2])
  obtain w3 where fl: "wal_flush w2 = (Ok (), w3)" and w3: "wal_inv cs2 w3"
    using 2(2) by (simp add: wal_flush_def wal_inv_def)
  let ?w4 = "w3\<lparr>w_dir := AList.update CHECKPOINT_CTL (u64_bytes (w_lsn w1 + 1)) (w_dir w3)\<rparr>"
  have w4: "wal_inv cs2 ?w4"
    using w3 dir_holds_other [OF _ ctl_not_segment, of "w_dir w3"] by (simp add: wal_inv_def holds_log_def)
  have "read_checkpoint_lsn (w_dir ?w4) = Ok (w_lsn w1 + 1)"
    by (simp add: read_checkpoint_lsn_def update_conv' read_exact_def slice_def)
  moreover have "log_dirty_pages dirty ?w = (Ok (), w1)"
    by (simp add: log_dirty_pages_eq [OF pages] 1(1))
  then have "perform_checkpoint dirty m
      = (Ok (w_lsn w1 + 1), m\<lparr>wal_writer_of := ?w4, checkpoint_lsn := w_lsn w1 + 1\<rparr>)"
    using 2(1) fl by (simp add: perform_checkpoint_def append_and_flush_def)
  ultimately show ?thesis
    using that [of ?ck "m\<lparr>wal_writer_of := ?w4, checkpoint_lsn := w_lsn w1 + 1\<rparr>" cs2 imgs] w4 2(3) 1(3,4)
    by (simp add: last_checkpoint_lsn_def)
qed

section \<open>Properties\<close>

text \<open>
  Recovery from a log whose page images are well formed always succeeds. It leaves a well-formed
  heap file in which every page reads as its last image at or after the checkpoint, pages without an image
  are untouched, and pages the file had to be extended by are fresh; it reports the last replayed sequence
  number. Recovering again, from the recovered file, changes nothing.
\<close>

theorem recovery_replays_last_images:
  assumes "holds_log d cs" and "ascending (log_records cs)" and "heap_wf h"
    and "read_checkpoint_lsn d = Ok start" and "\<forall>rec \<in> set (log_records cs). image_ok rec"
  shows "\<exists>h' recs. recs = filter (\<lambda>x. start \<le> r_lsn x) (log_records cs)
    \<and> recover d h = (Ok (if recs = [] then INVALID_LSN else r_lsn (last recs)), h') \<and> heap_wf h'
    \<and> disk_view h' = redo_all recs (disk_view h) \<and> snd (recover d h') = h'"
proof -
  let ?recs = "filter (\<lambda>x. start \<le> r_lsn x) (log_records cs)"
  obtain h' where h': "recover d h = (Ok (if ?recs = [] then INVALID_LSN else r_lsn (last ?recs)), h')"
    "heap_wf h'" "disk_view h' = redo_all ?recs (disk_view h)"
    using recover_law [OF assms] by auto
  obtain h'' where h'': "snd (recover d h') = h''" "heap_wf h''" "disk_view h'' = redo_all ?recs (disk_view h')"
    using recover_law [OF assms(1,2) h'(2) assms(4,5)] by auto
  have "h'' = h'" by (rule heap_wf_ext) (use h' h'' in \<open>simp_all add: redo_all_idem\<close>)
  with h' h'' show ?thesis by blast
qed

definition image_record :: wal_record where
  "image_record = \<lparr>r_lsn = 1, r_prev_lsn = 0, r_xid = 1, r_type = PageImage, r_page_no = 0, r_data = Page_new\<rparr>"

definition image_dir :: dir where
  "image_dir = [(segment_filename 1, wal_encode image_record)]"

lemma image_dir_holds:
  "holds_log image_dir [(1, [image_record], [])]" "read_checkpoint_lsn image_dir = Ok 0"
  "ascending (log_records [(1, [image_record], [])])"
  "\<forall>rec \<in> set (log_records [(1, [image_record], [])]). image_ok rec"
proof -
  have len: "length Page_new = 8192" using Page_new_wf by auto
  have "list_segments image_dir = [1]" by (simp add: list_segments_def image_dir_def map_filter_def)
  then show "holds_log image_dir [(1, [image_record], [])]"
    using len by (simp add: holds_log_def dir_holds_def chunk_ok_def chunk_records_def chunk_bytes_def image_dir_def
        record_fits_def image_record_def)
  have "segment_filename 1 \<noteq> CHECKPOINT_CTL" using ctl_not_segment by (metis option.distinct(1) seg_number_name)
  then show "read_checkpoint_lsn image_dir = Ok 0" by (simp add: read_checkpoint_lsn_def image_dir_def)
  show "ascending (log_records [(1, [image_record], [])])" by (simp add: ascending_def chunk_records_def)
  show "\<forall>rec \<in> set (log_records [(1, [image_record], [])]). image_ok rec"
    by (simp add: chunk_records_def image_ok_def image_record_def Page_new_wf)
qed

theorem recovery_replays_last_images_witness:
  "\<exists>h'. recover image_dir [] = (Ok 1, h') \<and> disk_view h' 0 = Some fresh_page \<and> snd (recover image_dir h') = h'"
  using recovery_replays_last_images [OF image_dir_holds(1,3) heap_wf_Nil image_dir_holds(2,4)]
  by (auto simp: chunk_records_def image_record_def redo_all_def fresh_page_def)

text \<open>
  A checkpoint logs the images of the dirty pages before its own record and then stores the
  position of that record as the place to recover from. So recovery right after a checkpoint replays none
  of them: it leaves the heap file exactly as it found it, whether or not the dirty pages ever reached it.
\<close>

theorem checkpoint_images_are_not_replayed:
  assumes "wal_inv cs (wal_writer_of m)" and "\<forall>(pn, page) \<in> set dirty. page_wf page \<and> pn \<noteq> - 1"
    and "unat (w_segment (wal_writer_of m)) + length dirty < 2 ^ 64 - 2"
    and "length (log_records cs) + length dirty < 2 ^ 64 - 1"
    and "\<forall>rec \<in> set (log_records cs). image_ok rec" and "heap_wf h"
  shows "\<exists>ck m'. perform_checkpoint dirty m = (Ok ck, m') \<and> last_checkpoint_lsn m' = ck
    \<and> recover (w_dir (wal_writer_of m')) h = (Ok ck, h)"
proof -
  have pages: "\<forall>(pn, page) \<in> set dirty. length page = PAGE_SIZE" using assms(2) by auto
  obtain m' cs' imgs ck where p: "perform_checkpoint dirty m = (Ok (r_lsn ck), m')"
    "wal_inv cs' (wal_writer_of m')" "log_records cs' = log_records cs @ imgs @ [ck]"
    "map entry_of imgs = map (\<lambda>(pn, page). (0, PageImage, pn, page)) dirty" "entry_of ck = (0, Checkpoint, 0, [])"
    "read_checkpoint_lsn (w_dir (wal_writer_of m')) = Ok (r_lsn ck)" "last_checkpoint_lsn m' = r_lsn ck"
    by (rule perform_checkpoint_law [OF assms(1) pages assms(3,4)])
  let ?d = "w_dir (wal_writer_of m')"
  have log: "holds_log ?d cs'" and asc: "ascending (log_records cs')"
    using p(2) by (simp_all add: wal_inv_def numbered_ascending)
  have ckt: "r_type ck = Checkpoint" using p(5) by (simp add: entry_of_def)
  have "image_ok r" if "r \<in> set imgs" for r
  proof -
    have "entry_of r \<in> set (map (\<lambda>(pn, page). (0 :: u32, PageImage, pn, page)) dirty)"
      unfolding p(4) [symmetric] using that by simp
    then show ?thesis using assms(2) by (auto simp: entry_of_def image_ok_def)
  qed
  moreover have "image_ok ck" using ckt by (simp add: image_ok_def)
  ultimately have imgs: "\<forall>rec \<in> set (log_records cs'). image_ok rec"
    unfolding p(3) using assms(5) by auto
  have "ascending ((log_records cs @ imgs) @ [ck])" using asc p(3) by simp
  then have "\<forall>x \<in> set (log_records cs @ imgs). \<not> r_lsn ck \<le> r_lsn x"
    unfolding ascending_append by (auto simp: linorder_not_le)
  then have "filter (\<lambda>x. r_lsn ck \<le> r_lsn x) (log_records cs @ imgs) = []"
    by (simp only: filter_empty_conv)
  then have flt: "filter (\<lambda>x. r_lsn ck \<le> r_lsn x) (log_records cs') = [ck]"
    by (simp add: p(3))
  obtain h' where h': "recover ?d h = (Ok (r_lsn ck), h')" "heap_wf h'" "disk_view h' = redo_all [ck] (disk_view h)"
    using recover_law [OF log asc assms(6) p(6) imgs] unfolding flt by auto
  have "redo_all [ck] (disk_view h) = disk_view h"
    using ckt by (auto simp: redo_all_def fun_eq_iff split: option.splits)
  with h'(2,3) have "h' = h" by (intro heap_wf_ext) (simp_all add: assms(6))
  with h'(1) p(1,7) show ?thesis by blast
qed

theorem checkpoint_images_are_not_replayed_witness:
  "\<exists>w ck m'. WalWriter_open [] (\<lambda>_. 0) = Ok w
     \<and> perform_checkpoint [(0, inserted Page_new [1, 2, 3])] \<lparr>wal_writer_of = w, checkpoint_lsn = 0\<rparr> = (Ok ck, m')
     \<and> recover (w_dir (wal_writer_of m')) [] = (Ok ck, [])"
proof -
  obtain w where w: "WalWriter_open [] (\<lambda>_. 0) = Ok w" "wal_inv [(1, [], [])] w" "w_segment w = 1"
    by (rule fresh_writer)
  let ?m = "\<lparr>wal_writer_of = w, checkpoint_lsn = 0\<rparr>"
  have "page_wf (inserted Page_new [1, 2, 3])"
    using page_insert_correct(1) [OF Page_new_wf, of "[1, 2, 3]"] unat_free_space [OF Page_new_wf] Page_new_header
    by simp
  then show ?thesis
    using checkpoint_images_are_not_replayed [of "[(1, [], [])]" ?m "[(0, inserted Page_new [1, 2, 3])]" "[]"]
      w heap_wf_Nil by (auto simp: chunk_records_def)
qed

end
