(* ===== verification/Txn_Manager.thy ===== *)
theory Txn_Manager
  imports Cycle_Check Wal_Recovery
begin

text \<open>
  The transaction manager of \<^verbatim>\<open>txn/src/manager.rs\<close>: begin, commit, abort, snapshots, the
  serializability check, versioned insert, delete, update and scan over a heap file, undo for savepoints,
  and the recovery of transaction outcomes from the log. The steps of \<open>begin\<close> and \<open>commit\<close> that run
  under different locks are separate definitions, so that their interleavings can be stated.
\<close>

section \<open>State\<close>

record txn_manager =
  active :: "(xid \<times> transaction) list"
  aborted :: "xid set"
  next_xid :: xid
  committed :: "xid set"
  tm_wal :: wal_writer
  tm_locks :: lock_state
  global_next :: xid

text \<open>\<open>global_next\<close> is the process-wide \<^verbatim>\<open>NEXT_XID\<close>.\<close>

definition TransactionManager_new :: "wal_writer \<Rightarrow> xid \<Rightarrow> txn_manager" where
  "TransactionManager_new w g = \<lparr>active = [], aborted = {}, next_xid = 3, committed = {}, tm_wal = w,
     tm_locks = LockManager_new, global_next = g\<rparr>"

definition TransactionManager_open :: "dir \<Rightarrow> (string \<Rightarrow> nat) \<Rightarrow> xid \<Rightarrow> (txn_error, txn_manager) outcome" where
  "TransactionManager_open d sy g =
     obind (map_err TxnWal (WalWriter_open d sy)) (\<lambda>w. Ok (TransactionManager_new w g))"

section \<open>Snapshots\<close>

definition take_snapshot_inner :: "txn_manager \<Rightarrow> xid \<Rightarrow> snapshot" where
  "take_snapshot_inner m x =
     (let others = filter (\<lambda>y. y \<noteq> x) (map fst (active m)) in
      \<lparr>s_xmin = (if others = [] then next_xid m else Min (set others)),
       s_xmax = next_xid m,
       in_progress = set (map fst (active m))\<rparr>)"

definition current_snapshot :: "txn_manager \<Rightarrow> xid \<Rightarrow> snapshot" where
  "current_snapshot m x =
     (case map_of (active m) x of
        Some t \<Rightarrow>
          if tx_isolation t = RepeatableRead \<or> tx_isolation t = Serializable
          then (case tx_snapshot t of Some s \<Rightarrow> s | None \<Rightarrow> take_snapshot_inner m x)
          else take_snapshot_inner m x
      | None \<Rightarrow> take_snapshot_inner m x)"

section \<open>Begin, commit, abort\<close>

text \<open>\<^verbatim>\<open>begin\<close> takes its number before it takes the lock.\<close>

definition begin_alloc :: "txn_manager \<Rightarrow> xid \<times> txn_manager" where
  "begin_alloc m = (case allocate_xid (global_next m) of (x, g) \<Rightarrow> (x, m\<lparr>global_next := g\<rparr>))"

definition begin_register :: "xid \<Rightarrow> isolation_level \<Rightarrow> txn_manager \<Rightarrow> txn_manager" where
  "begin_register x lvl m =
     (let m1 = m\<lparr>next_xid := x + 1\<rparr>;
          t = Transaction_new x lvl;
          t1 = (if lvl = RepeatableRead \<or> lvl = Serializable
                then t\<lparr>tx_snapshot := Some (take_snapshot_inner m1 x)\<rparr> else t) in
      m1\<lparr>active := AList.update x t1 (active m1)\<rparr>)"

definition txn_begin :: "isolation_level \<Rightarrow> txn_manager \<Rightarrow> xid \<times> txn_manager" where
  "txn_begin lvl m = (case begin_alloc m of (x, m1) \<Rightarrow> (x, begin_register x lvl m1))"

definition check_active :: "xid \<Rightarrow> txn_manager \<Rightarrow> (txn_error, unit) outcome" where
  "check_active x m =
     (case map_of (active m) x of
        None \<Rightarrow> Err (NotFound x)
      | Some t \<Rightarrow> if tx_state t \<noteq> Active then Err (NotActive x) else Ok ())"

text \<open>Edge from \<open>a\<close> to \<open>b\<close>: \<open>b\<close> wrote something \<open>a\<close> read.\<close>

definition conflict_edges :: "(xid \<times> transaction) list \<Rightarrow> graph" where
  "conflict_edges ser =
     filter (\<lambda>e. snd e \<noteq> [])
       (map (\<lambda>(a, ta). (a, map fst (filter (\<lambda>(b, tb). b \<noteq> a \<and> read_set ta \<inter> write_set tb \<noteq> {}) ser))) ser)"

definition check_serializable_conflict :: "xid \<Rightarrow> txn_manager \<Rightarrow> (txn_error, unit) outcome" where
  "check_serializable_conflict x m =
     (case map_of (active m) x of
        None \<Rightarrow> Ok ()
      | Some t \<Rightarrow>
          if tx_isolation t \<noteq> Serializable then Ok ()
          else if write_set t = {} \<or> read_set t = {} then Ok ()
          else let ser = filter (\<lambda>(_, u). tx_isolation u = Serializable) (active m) in
            if has_cycle x (conflict_edges ser) = Some True then Err SerializationFailure else Ok ())"

definition commit_remove :: "xid \<Rightarrow> txn_manager \<Rightarrow> txn_manager" where
  "commit_remove x m = m\<lparr>active := AList.delete x (active m)\<rparr>"

definition commit_publish :: "xid \<Rightarrow> txn_manager \<Rightarrow> txn_manager" where
  "commit_publish x m = m\<lparr>committed := insert x (committed m)\<rparr>"

definition on_wal :: "(wal_writer, wal_error, 'a) sop \<Rightarrow> (txn_manager, txn_error, 'a) sop" where
  "on_wal f = smap_err TxnWal (szoom tm_wal (\<lambda>w m. m\<lparr>tm_wal := w\<rparr>) f)"

definition release_locks :: "xid \<Rightarrow> txn_manager \<Rightarrow> txn_manager" where
  "release_locks x m = m\<lparr>tm_locks := release_all x (tm_locks m)\<rparr>"

definition txn_commit :: "xid \<Rightarrow> (txn_manager, txn_error, unit) sop" where
  "txn_commit x =
     sbind (slift (check_active x)) (\<lambda>_.
     sbind (slift (check_serializable_conflict x)) (\<lambda>_.
     sbind (on_wal (append_and_flush x Commit 0 [])) (\<lambda>_.
     sbind (smod (commit_remove x)) (\<lambda>_.
     sbind (smod (commit_publish x)) (\<lambda>_.
     smod (release_locks x))))))"

definition txn_abort :: "xid \<Rightarrow> (txn_manager, txn_error, unit) sop" where
  "txn_abort x =
     sbind (slift (check_active x)) (\<lambda>_.
     sbind (on_wal (wal_append x Abort 0 [])) (\<lambda>_.
     sbind (smod (\<lambda>m. m\<lparr>active := AList.delete x (active m), aborted := insert x (aborted m)\<rparr>)) (\<lambda>_.
     smod (release_locks x))))"

section \<open>Versioned tuples\<close>

type_synonym db = "txn_manager \<times> heap"

definition on_mgr :: "(txn_manager, 'e, 'a) sop \<Rightarrow> (db, 'e, 'a) sop" where
  "on_mgr f = szoom fst (\<lambda>m s. (m, snd s)) f"

definition on_heap :: "(heap, heap_error, 'a) sop \<Rightarrow> (db, txn_error, 'a) sop" where
  "on_heap f = smap_err (\<lambda>e. TxnStorage (StorageHeap e)) (szoom snd (\<lambda>h s. (fst s, h)) f)"

definition track_write :: "xid \<Rightarrow> tid \<Rightarrow> txn_manager \<Rightarrow> txn_manager" where
  "track_write x t m =
     (case map_of (active m) x of
        Some u \<Rightarrow>
          if tx_isolation u = Serializable
          then m\<lparr>active := AList.update x (u\<lparr>write_set := insert (page_no t, slot t) (write_set u)\<rparr>) (active m)\<rparr>
          else m
      | None \<Rightarrow> m)"

definition txn_insert_tuple :: "xid \<Rightarrow> byte list \<Rightarrow> (db, txn_error, tid) sop" where
  "txn_insert_tuple x d =
     (let tuple = \<lparr>header = TupleHeader_new\<lparr>t_xmin := x, t_xmax := INVALID_XID\<rparr>, tdata = d\<rparr>;
          encoded = Tuple_encode tuple in
      sbind (on_heap (find_and_prepare_insert encoded)) (\<lambda>(pn, page, sl).
      let t = TID_new pn sl in
      sbind (on_mgr (on_wal (wal_append x PageImage pn page))) (\<lambda>_.
      sbind (on_heap (heap_write_page pn page)) (\<lambda>_.
      sbind (on_mgr (smod (track_write x t))) (\<lambda>_.
      sret t)))))"

definition write_tuple_to_page :: "page \<Rightarrow> u16 \<Rightarrow> tuple \<Rightarrow> (page_error, page) outcome" where
  "write_tuple_to_page p sl t =
     (let base = PAGE_HEADER_SIZE + unat sl * ITEM_ID_SIZE in
      obind (get_slice p base 2) (\<lambda>off.
      obind (get_slice p (base + 2) 2) (\<lambda>len.
      let lp_off = unat (from_le_bytes off :: u16); lp_len = unat (from_le_bytes len :: u16);
          encoded = Tuple_encode t in
      if length encoded > lp_len then Err (InsufficientSpace (length encoded) (of_nat lp_len))
      else put_slice p lp_off encoded)))"

text \<open>Read the page, overwrite the tuple, log the page, write the page.\<close>

definition rewrite_tuple :: "xid \<Rightarrow> tid \<Rightarrow> tuple \<Rightarrow> (db, txn_error, unit) sop" where
  "rewrite_tuple x t tup =
     sbind (on_heap (slift (\<lambda>h. heap_read_page h (page_no t)))) (\<lambda>page.
     sbind (slift (\<lambda>_. map_err (\<lambda>e. TxnStorage (StoragePage e)) (write_tuple_to_page page (slot t) tup))) (\<lambda>page'.
     sbind (on_mgr (on_wal (wal_append x PageImage (page_no t) page'))) (\<lambda>_.
     on_heap (heap_write_page (page_no t) page'))))"

definition txn_delete_tuple :: "xid \<Rightarrow> tid \<Rightarrow> db \<Rightarrow> ((txn_error, unit) outcome \<times> db) option" where
  "txn_delete_tuple x t s =
     (case acquire_write_lock x t (tm_locks (fst s)) of
        None \<Rightarrow> None
      | Some (r, locks) \<Rightarrow>
          Some (sbind (slift (\<lambda>_. r)) (\<lambda>_.
                sbind (on_heap (slift (\<lambda>h. heap_get_tuple h t))) (\<lambda>tup.
                sbind (rewrite_tuple x t (tup\<lparr>header := (header tup)\<lparr>t_xmax := x\<rparr>\<rparr>)) (\<lambda>_.
                on_mgr (smod (track_write x t))))) ((fst s)\<lparr>tm_locks := locks\<rparr>, snd s)))"

definition undo_insert :: "xid \<Rightarrow> tid \<Rightarrow> (db, txn_error, unit) sop" where
  "undo_insert x t =
     sbind (on_heap (slift (\<lambda>h. heap_get_tuple h t))) (\<lambda>tup.
     if t_xmin (header tup) \<noteq> x then sret ()
     else rewrite_tuple x t (tup\<lparr>header := (header tup)\<lparr>t_xmax := x\<rparr>\<rparr>))"

definition undo_delete :: "xid \<Rightarrow> tid \<Rightarrow> (db, txn_error, unit) sop" where
  "undo_delete x t =
     sbind (on_heap (slift (\<lambda>h. heap_get_tuple h t))) (\<lambda>tup.
     if t_xmax (header tup) \<noteq> x then sret ()
     else rewrite_tuple x t (tup\<lparr>header := (header tup)\<lparr>t_xmax := INVALID_XID\<rparr>\<rparr>))"

definition txn_update_tuple :: "xid \<Rightarrow> tid \<Rightarrow> byte list \<Rightarrow> db \<Rightarrow> ((txn_error, tid) outcome \<times> db) option" where
  "txn_update_tuple x t d s =
     (case txn_delete_tuple x t s of
        None \<Rightarrow> None
      | Some rs \<Rightarrow> Some (sbind (\<lambda>_. rs) (\<lambda>_. txn_insert_tuple x d) s))"

section \<open>Scans\<close>

definition version_visible :: "xid \<Rightarrow> snapshot \<Rightarrow> xid set \<Rightarrow> tuple_header \<Rightarrow> bool" where
  "version_visible x snap comm h =
     (if t_xmin h = x then t_xmax h \<noteq> x
      else if t_xmax h = x then False
      else is_tuple_visible h snap comm)"

definition scan_slot :: "xid \<Rightarrow> snapshot \<Rightarrow> xid set \<Rightarrow> u32 \<Rightarrow> page \<Rightarrow> nat \<Rightarrow> (tid \<times> tuple) option" where
  "scan_slot x snap comm pn page i =
     (case page_get_tuple page (of_nat i) of
        Ok bytes \<Rightarrow>
          if length bytes < TUPLE_HEADER_SIZE then None
          else (case decode_from bytes of
            Ok h \<Rightarrow>
              if version_visible x snap comm h
              then (case Tuple_decode bytes of Ok tup \<Rightarrow> Some (TID_new pn (of_nat i), tup) | _ \<Rightarrow> None)
              else None
          | _ \<Rightarrow> None)
      | _ \<Rightarrow> None)"

definition scan_page :: "xid \<Rightarrow> snapshot \<Rightarrow> xid set \<Rightarrow> u32 \<Rightarrow> page \<Rightarrow> (tid \<times> tuple) list" where
  "scan_page x snap comm pn page =
     List.map_filter (scan_slot x snap comm pn page) [0..<unat (num_slots page)]"

primrec scan_pages :: "xid \<Rightarrow> snapshot \<Rightarrow> xid set \<Rightarrow> heap \<Rightarrow> nat list \<Rightarrow> (txn_error, (tid \<times> tuple) list) outcome" where
  "scan_pages x snap comm h [] = Ok []"
| "scan_pages x snap comm h (i # is) =
     obind (map_err (\<lambda>e. TxnStorage (StorageHeap e)) (heap_read_page h (of_nat i))) (\<lambda>page.
     obind (scan_pages x snap comm h is) (\<lambda>rest.
     Ok (scan_page x snap comm (of_nat i) page @ rest)))"

definition is_serializable :: "txn_manager \<Rightarrow> xid \<Rightarrow> bool" where
  "is_serializable m x = (case map_of (active m) x of Some t \<Rightarrow> tx_isolation t = Serializable | None \<Rightarrow> False)"

definition track_reads :: "xid \<Rightarrow> tid list \<Rightarrow> txn_manager \<Rightarrow> txn_manager" where
  "track_reads x ts m =
     (case map_of (active m) x of
        Some u \<Rightarrow> m\<lparr>active := AList.update x
                     (u\<lparr>read_set := read_set u \<union> set (map (\<lambda>t. (page_no t, slot t)) ts)\<rparr>) (active m)\<rparr>
      | None \<Rightarrow> m)"

definition scan_visible_tuples :: "xid \<Rightarrow> heap \<Rightarrow> (txn_manager, txn_error, (tid \<times> tuple) list) sop" where
  "scan_visible_tuples x h m =
     (case scan_pages x (current_snapshot m x) (committed m) h [0..<unat (num_pages h)] of
        Ok res \<Rightarrow> (Ok res, if is_serializable m x \<and> res \<noteq> [] then track_reads x (map fst res) m else m)
      | Err e \<Rightarrow> (Err e, m)
      | Panic \<Rightarrow> (Panic, m))"

section \<open>Inspection, isolation level, recovery\<close>

definition committed_set :: "txn_manager \<Rightarrow> xid set" where "committed_set m = committed m"
definition is_committed :: "txn_manager \<Rightarrow> xid \<Rightarrow> bool" where "is_committed m x \<longleftrightarrow> x \<in> committed m"
definition is_aborted :: "txn_manager \<Rightarrow> xid \<Rightarrow> bool" where "is_aborted m x \<longleftrightarrow> x \<in> aborted m"
definition is_active :: "txn_manager \<Rightarrow> xid \<Rightarrow> bool" where "is_active m x \<longleftrightarrow> map_of (active m) x \<noteq> None"

definition set_isolation_level :: "xid \<Rightarrow> isolation_level \<Rightarrow> txn_manager \<Rightarrow> txn_manager" where
  "set_isolation_level x lvl m =
     (case map_of (active m) x of
        None \<Rightarrow> m
      | Some t \<Rightarrow>
          let m1 = m\<lparr>active := AList.update x (t\<lparr>tx_isolation := lvl\<rparr>) (active m)\<rparr> in
          if (lvl = RepeatableRead \<or> lvl = Serializable) \<and> tx_snapshot t = None
          then m1\<lparr>active := AList.update x (t\<lparr>tx_isolation := lvl, tx_snapshot := Some (take_snapshot_inner m1 x)\<rparr>)
                               (active m1)\<rparr>
          else m1)"

definition outcome_step :: "wal_record \<Rightarrow> (txn_manager \<times> xid, wal_error, unit) sop" where
  "outcome_step rec s =
     (let x = r_xid rec;
          m = fst s;
          max_xid = (if x > snd s then x else snd s) in
      (Ok (), ((case r_type rec of
         Commit \<Rightarrow> m\<lparr>committed := insert x (committed m), aborted := aborted m - {x}\<rparr>
       | Abort \<Rightarrow> m\<lparr>aborted := insert x (aborted m)\<rparr>
       | _ \<Rightarrow> m), max_xid)))"

definition new_with_wal_recovery :: "wal_writer \<Rightarrow> dir \<Rightarrow> xid \<Rightarrow> txn_manager" where
  "new_with_wal_recovery w d g =
     (let m0 = TransactionManager_new w g in
      case WalReader_open d INVALID_LSN of
        Ok r \<Rightarrow>
          (case snd (replay outcome_step r (m0, 2)) of
             (m1, max_xid) \<Rightarrow>
               let recovered_next = (if max_xid = - 1 then - 1 else max_xid + 1) in
               m1\<lparr>global_next := advance_next_xid recovered_next (global_next m1),
                  next_xid := (if recovered_next > next_xid m1 then recovered_next else next_xid m1)\<rparr>)
      | _ \<Rightarrow> m0)"

end
