(* ===== verification/Txn_Isolation.thy ===== *)
theory Txn_Isolation
  imports Txn_Manager
begin

text \<open>
  What the transaction manager guarantees when its methods run one after the other, whatever their order:
  the bookkeeping invariant, and that what a repeatable-read transaction sees does not change under it.
  And what it does not guarantee when the steps inside \<open>begin\<close> and \<open>commit\<close> interleave.
\<close>

section \<open>Invariant\<close>

definition snapshot_ok :: "txn_manager \<Rightarrow> xid \<Rightarrow> snapshot \<Rightarrow> bool" where
  "snapshot_ok m x s \<longleftrightarrow> s_xmin s \<le> s_xmax s \<and> s_xmax s \<le> next_xid m
     \<and> (\<forall>y \<in> set (map fst (active m)). y \<noteq> x \<longrightarrow> \<not> xid_is_visible s y)"

definition tm_inv :: "txn_manager \<Rightarrow> bool" where
  "tm_inv m \<longleftrightarrow> distinct (map fst (active m)) \<and> next_xid m \<le> global_next m
     \<and> (\<forall>(x, t) \<in> set (active m). tx_xid t = x \<and> tx_state t = Active \<and> x < next_xid m
          \<and> (\<forall>s. tx_snapshot t = Some s \<longrightarrow> snapshot_ok m x s))
     \<and> (\<forall>x \<in> committed m \<union> aborted m. x < next_xid m)
     \<and> fst ` set (active m) \<inter> (committed m \<union> aborted m) = {}
     \<and> committed m \<inter> aborted m = {}"

lemma xid_visible_bound: "s_xmin s \<le> s_xmax s \<Longrightarrow> xid_is_visible s y \<Longrightarrow> y < s_xmax s"
  by (auto simp: xid_is_visible_def split: if_splits intro: less_le_trans)

lemma tm_invD:
  assumes "tm_inv m" and "map_of (active m) x = Some t"
  shows "tx_xid t = x" "tx_state t = Active" "x < next_xid m" "x \<notin> committed m" "x \<notin> aborted m"
    "tx_snapshot t = Some s \<Longrightarrow> snapshot_ok m x s"
proof -
  have "(x, t) \<in> set (active m)" using assms(2) by (rule map_of_SomeD)
  moreover from this have "x \<in> fst ` set (active m)" by force
  ultimately show "tx_xid t = x" "tx_state t = Active" "x < next_xid m" "x \<notin> committed m" "x \<notin> aborted m"
    "tx_snapshot t = Some s \<Longrightarrow> snapshot_ok m x s"
    using assms(1) unfolding tm_inv_def by fastforce+
qed

lemma snapshot_fresh:
  assumes "\<And>y. y \<in> set (map fst (active m)) \<Longrightarrow> y < next_xid m"
  shows "snapshot_ok m x (take_snapshot_inner m x)"
proof -
  let ?o = "filter (\<lambda>y. y \<noteq> x) (map fst (active m))"
  have "Min (set ?o) < next_xid m" if "?o \<noteq> []"
    using that assms Min_in [of "set ?o"] by (auto simp: filter_empty_conv)
  moreover have "\<not> y < Min (set ?o)" if "y \<in> set (map fst (active m))" "y \<noteq> x" for y
    using that by (simp add: linorder_not_less)
  ultimately show ?thesis
    using assms by (auto simp: snapshot_ok_def take_snapshot_inner_def xid_is_visible_def Let_def
        filter_empty_conv intro: less_imp_le)
qed

text \<open>An active transaction is replaced by one that differs in its level, sets or snapshot.\<close>

lemma replace_inv:
  assumes inv: "tm_inv m" and t: "map_of (active m) x = Some t"
    and t': "tx_xid t' = x" "tx_state t' = Active"
    and snap: "\<And>s. tx_snapshot t' = Some s \<Longrightarrow> snapshot_ok m x s"
  shows "tm_inv (m\<lparr>active := AList.update x t' (active m)\<rparr>)"
proof -
  let ?m = "m\<lparr>active := AList.update x t' (active m)\<rparr>"
  have keys: "map fst (active ?m) = map fst (active m)"
    using t by (simp add: update_keys) (metis domI dom_map_of_conv_image_fst)
  have so: "snapshot_ok ?m y s \<longleftrightarrow> snapshot_ok m y s" for y s
    using keys by (simp add: snapshot_ok_def del: list.map set_map)
  have "\<forall>(y, u) \<in> set (active ?m). tx_xid u = y \<and> tx_state u = Active \<and> y < next_xid m
      \<and> (\<forall>s. tx_snapshot u = Some s \<longrightarrow> snapshot_ok ?m y s)"
  proof (intro ballI, clarify)
    fix y u assume yu: "(y, u) \<in> set (active ?m)"
    have d: "distinct (map fst (active ?m))" using inv keys by (simp add: tm_inv_def)
    then have "map_of (active ?m) y = Some u" using yu by (simp add: map_of_eq_Some_iff)
    then have "(if y = x then u = t' else map_of (active m) y = Some u)"
      by (auto simp: update_conv' split: if_splits)
    then show "tx_xid u = y \<and> tx_state u = Active \<and> y < next_xid m
        \<and> (\<forall>s. tx_snapshot u = Some s \<longrightarrow> snapshot_ok ?m y s)"
      using tm_invD [OF inv] t t' snap so by (auto split: if_splits)
  qed
  moreover have "fst ` set (active ?m) = fst ` set (active m)" using arg_cong [OF keys, of set] by simp
  ultimately show ?thesis
    using inv keys by (simp add: tm_inv_def del: list.map)
qed

lemma begin_inv:
  assumes inv: "tm_inv m" and room: "global_next m \<noteq> - 1" and run: "txn_begin lvl m = (x, m')"
  shows "tm_inv m'" and "x = global_next m" and "map_of (active m) x = None"
    and "\<exists>t. map_of (active m') = (map_of (active m))(x \<mapsto> t) \<and> tx_isolation t = lvl
      \<and> (tx_snapshot t = None \<longleftrightarrow> lvl = ReadCommitted)"
    and "committed m' = committed m" and "aborted m' = aborted m" and "next_xid m' = x + 1"
proof -
  let ?x = "global_next m"
  let ?m1 = "m\<lparr>global_next := ?x + 1, next_xid := ?x + 1\<rparr>"
  define t where "t = (if lvl = RepeatableRead \<or> lvl = Serializable
      then (Transaction_new ?x lvl)\<lparr>tx_snapshot := Some (take_snapshot_inner ?m1 ?x)\<rparr> else Transaction_new ?x lvl)"
  have x: "x = ?x" and m': "m' = ?m1\<lparr>active := AList.update ?x t (active m)\<rparr>"
    using run by (auto simp: txn_begin_def begin_alloc_def allocate_xid_def begin_register_def Let_def t_def)
  have lt: "?x < ?x + 1" using room by (rule word_less_succ)
  have below: "y < ?x" if "y \<in> fst ` set (active m)" for y
    using that inv unfolding tm_inv_def by (force intro: less_le_trans)
  then have fresh: "?x \<notin> fst ` set (active m)" by blast
  then have keys: "map fst (active m') = map fst (active m) @ [?x]" by (simp add: m' update_keys)
  have snap_t: "tx_snapshot t = Some s \<Longrightarrow> snapshot_ok ?m1 ?x s" for s
    using snapshot_fresh [of ?m1 ?x] below lt
    by (auto simp: t_def Transaction_new_def split: if_splits intro: less_trans)
  have ok: "snapshot_ok m' y s" if "snapshot_ok n y s" "s_xmax s \<le> ?x \<or> y = ?x"
      "active n = active m" "next_xid n \<le> ?x + 1" for n y s
  proof -
    have "\<not> xid_is_visible s ?x" if "y \<noteq> ?x"
      using that \<open>s_xmax s \<le> ?x \<or> y = ?x\<close> \<open>snapshot_ok n y s\<close> xid_visible_bound [of s ?x]
      by (auto simp: snapshot_ok_def)
    then show ?thesis
      using that keys by (auto simp: snapshot_ok_def m' intro: order_trans)
  qed
  show "x = global_next m" by (rule x)
  show none: "map_of (active m) x = None" using fresh x by (simp add: map_of_eq_None_iff)
  show "\<exists>t. map_of (active m') = (map_of (active m))(x \<mapsto> t) \<and> tx_isolation t = lvl
      \<and> (tx_snapshot t = None \<longleftrightarrow> lvl = ReadCommitted)"
    by (intro exI [of _ t]) (cases lvl; simp add: x m' update_conv' t_def Transaction_new_def)
  show "committed m' = committed m" "aborted m' = aborted m" "next_xid m' = x + 1" by (simp_all add: m' x)
  have ng: "next_xid m \<le> ?x" using inv by (simp add: tm_inv_def)
  have el: "tx_xid u = y \<and> tx_state u = Active \<and> y < ?x + 1 \<and> (\<forall>s. tx_snapshot u = Some s \<longrightarrow> snapshot_ok m' y s)"
    if yu: "(y, u) \<in> set (active m')" for y u
  proof -
    have "distinct (map fst (active m'))" using inv fresh unfolding keys by (simp add: tm_inv_def)
    then have "map_of (active m') y = Some u" using yu by (simp add: map_of_eq_Some_iff)
    then consider "y = ?x" "u = t" | "y \<noteq> ?x" "map_of (active m) y = Some u"
      by (auto simp: m' update_conv' split: if_splits)
    then show ?thesis
    proof cases
      case 1
      then show ?thesis using ok [of ?m1 ?x] snap_t lt by (auto simp: t_def Transaction_new_def)
    next
      case 2
      have "s_xmax s \<le> ?x" if "tx_snapshot u = Some s" for s
        using tm_invD(6) [OF inv 2(2) that] ng by (auto simp: snapshot_ok_def intro: order_trans)
      then show ?thesis
        using tm_invD(1-3,6) [OF inv 2(2)] ok [of m y] ng lt by (auto intro: less_le_trans less_trans le_less_trans order_trans less_imp_le)
    qed
  qed
  have old: "y < ?x" if "y \<in> committed m \<union> aborted m" for y
    using that inv ng unfolding tm_inv_def by (meson less_le_trans)
  have dis: "distinct (map fst (active m'))" using inv fresh unfolding keys by (simp add: tm_inv_def)
  have keyset: "fst ` set (active m') = insert ?x (fst ` set (active m))"
    using arg_cong [OF keys, of set] by simp
  show "tm_inv m'"
    unfolding tm_inv_def keyset using inv el dis old lt
    by (auto simp: tm_inv_def m' intro: less_trans)
qed

section \<open>Operations that only keep books\<close>

text \<open>
  Reading and writing tuples, logging and locking change neither the outcome of any transaction nor any
  snapshot: they are quiet.
\<close>

definition same_txns :: "txn_manager \<Rightarrow> txn_manager \<Rightarrow> bool" where
  "same_txns m m' \<longleftrightarrow> (tm_inv m \<longrightarrow> tm_inv m') \<and> committed m' = committed m \<and> aborted m' = aborted m
     \<and> next_xid m' = next_xid m \<and> global_next m' = global_next m
     \<and> (\<forall>y. map_option (\<lambda>t. (tx_isolation t, tx_snapshot t)) (map_of (active m') y)
           = map_option (\<lambda>t. (tx_isolation t, tx_snapshot t)) (map_of (active m) y))"

definition quiet :: "(db, 'e, 'a) sop \<Rightarrow> bool" where
  "quiet f \<longleftrightarrow> (\<forall>s r s'. f s = (r, s') \<longrightarrow> same_txns (fst s) (fst s'))"

lemma quietD: "quiet f \<Longrightarrow> f s = (r, s') \<Longrightarrow> same_txns (fst s) (fst s')"
  unfolding quiet_def by blast

named_theorems quiet_intros \<open>closure of quiet operations\<close>

lemma same_txns_refl [simp, intro]: "same_txns m m"
  by (simp add: same_txns_def)

lemma same_txns_trans: "same_txns m m1 \<Longrightarrow> same_txns m1 m2 \<Longrightarrow> same_txns m m2"
  by (simp add: same_txns_def)

lemma same_txns_log: "same_txns m (m\<lparr>tm_wal := w\<rparr>)" "same_txns m (m\<lparr>tm_locks := l\<rparr>)"
  by (simp_all add: same_txns_def tm_inv_def snapshot_ok_def)

lemma same_txns_replace:
  assumes "map_of (active m) x = Some t" and "tx_xid t' = tx_xid t" and "tx_state t' = tx_state t"
    and "tx_isolation t' = tx_isolation t" and "tx_snapshot t' = tx_snapshot t"
  shows "same_txns m (m\<lparr>active := AList.update x t' (active m)\<rparr>)"
proof -
  have "tm_inv (m\<lparr>active := AList.update x t' (active m)\<rparr>)" if "tm_inv m"
    by (rule replace_inv [OF that assms(1)]) (use tm_invD [OF that assms(1)] assms in simp_all)
  then show ?thesis using assms by (simp add: same_txns_def update_conv')
qed

lemma same_txns_track: "same_txns m (track_write x t m)" "same_txns m (track_reads x ts m)"
  by (auto simp: track_write_def track_reads_def intro!: same_txns_replace split: option.splits)

lemma quiet_sbind [quiet_intros]:
  assumes "quiet f" and "\<And>x. quiet (g x)"
  shows "quiet (sbind f g)"
  unfolding quiet_def
proof (intro allI impI)
  fix s r s' assume run: "sbind f g s = (r, s')"
  obtain r1 s1 where f: "f s = (r1, s1)" by (cases "f s")
  then have "same_txns (fst s) (fst s1)" by (rule quietD [OF assms(1)])
  moreover have "same_txns (fst s1) (fst s')"
    using run f quietD [OF assms(2)] by (cases r1) auto
  ultimately show "same_txns (fst s) (fst s')" by (rule same_txns_trans)
qed

lemma quiet_basic [quiet_intros]:
  "quiet (sret x)" "quiet (slift f)" "quiet (on_heap g)" "quiet (on_mgr (on_wal h))"
  "quiet (on_mgr (smod (track_write y t)))"
  by (auto simp: quiet_def on_heap_def on_mgr_def on_wal_def smap_err_def szoom_def same_txns_log same_txns_track
      split: prod.splits)

lemma quiet_if [quiet_intros]: "quiet f \<Longrightarrow> quiet g \<Longrightarrow> quiet (if c then f else g)"
  by simp

lemma quiet_case [quiet_intros]: "(\<And>a b c. quiet (f a b c)) \<Longrightarrow> quiet (case p of (a, b, c) \<Rightarrow> f a b c)"
  by (cases p) auto

lemma quiet_rewrite [quiet_intros]: "quiet (rewrite_tuple x t u)"
  unfolding rewrite_tuple_def by (intro quiet_intros)

lemma quiet_ops:
  "quiet (txn_insert_tuple x d)" "quiet (undo_insert x t)" "quiet (undo_delete x t)"
  unfolding txn_insert_tuple_def undo_insert_def undo_delete_def Let_def by (intro quiet_intros)+

lemma delete_quiet:
  assumes "txn_delete_tuple x t s = Some (r, s')"
  shows "same_txns (fst s) (fst s')"
proof -
  have q: "quiet (sbind (slift (\<lambda>_. r)) (\<lambda>_. sbind (on_heap (slift (\<lambda>h. heap_get_tuple h t))) (\<lambda>tup.
      sbind (rewrite_tuple x t (tup\<lparr>header := (header tup)\<lparr>t_xmax := x\<rparr>\<rparr>)) (\<lambda>_. on_mgr (smod (track_write x t))))))"
    for r :: "(txn_error, unit) outcome"
    by (intro quiet_intros)
  from assms obtain r1 l where "acquire_write_lock x t (tm_locks (fst s)) = Some (r1, l)"
    by (auto simp: txn_delete_tuple_def split: option.splits)
  with assms quietD [OF q [of r1], of "((fst s)\<lparr>tm_locks := l\<rparr>, snd s)" r s']
  have "same_txns ((fst s)\<lparr>tm_locks := l\<rparr>) (fst s')" by (simp add: txn_delete_tuple_def)
  with same_txns_log(2) show ?thesis by (rule same_txns_trans)
qed

lemma update_quiet:
  assumes "txn_update_tuple x t d s = Some (r, s')"
  shows "same_txns (fst s) (fst s')"
proof -
  obtain r1 s1 where d: "txn_delete_tuple x t s = Some (r1, s1)"
    and i: "sbind (\<lambda>_. (r1, s1)) (\<lambda>_. txn_insert_tuple x d) s = (r, s')"
    using assms by (auto simp: txn_update_tuple_def split: option.splits)
  have "same_txns (fst s1) (fst s')"
    using i quietD [OF quiet_ops(1), of x d s1 r s'] by (cases r1) (auto simp: sbind_def)
  with delete_quiet [OF d] show ?thesis by (rule same_txns_trans)
qed

lemma scan_quiet: "scan_visible_tuples x h m = (r, m') \<Longrightarrow> same_txns m m'"
  by (auto simp: scan_visible_tuples_def same_txns_track split: outcome.splits if_splits)

section \<open>Ending a transaction\<close>

lemma ended_inv:
  assumes inv: "tm_inv m" and t: "map_of (active m) x = Some t"
    and c: "c \<union> a = insert x (committed m \<union> aborted m)" "c \<inter> a = {}"
  shows "tm_inv (m\<lparr>active := AList.delete x (active m), committed := c, aborted := a\<rparr>)"
proof -
  let ?F = "AList.delete x (active m)"
  let ?m = "m\<lparr>active := ?F, committed := c, aborted := a\<rparr>"
  have sub: "set ?F \<subseteq> set (active m)" "x \<notin> fst ` set ?F" by (auto simp: AList.delete_eq)
  have so: "snapshot_ok ?m y s" if "snapshot_ok m y s" for y s
    using that sub(1) by (auto simp: snapshot_ok_def)
  have 1: "distinct (map fst ?F)" using inv by (simp add: tm_inv_def distinct_delete)
  have 2: "\<forall>(y, u) \<in> set ?F. tx_xid u = y \<and> tx_state u = Active \<and> y < next_xid m
      \<and> (\<forall>s. tx_snapshot u = Some s \<longrightarrow> snapshot_ok ?m y s)"
    using inv sub(1) so unfolding tm_inv_def by fast
  have 3: "\<forall>y \<in> c \<union> a. y < next_xid m"
    unfolding c(1) using inv tm_invD(3) [OF inv t] by (simp add: tm_inv_def)
  have "fst ` set ?F \<subseteq> fst ` set (active m) - {x}" using sub by blast
  moreover have "fst ` set (active m) \<inter> (committed m \<union> aborted m) = {}" using inv by (simp add: tm_inv_def)
  ultimately have 4: "fst ` set ?F \<inter> (c \<union> a) = {}" unfolding c(1) by blast
  have "next_xid m \<le> global_next m" using inv by (simp add: tm_inv_def)
  with 1 2 3 4 c(2) show ?thesis by (simp add: tm_inv_def)
qed

lemma remove_inv:
  assumes inv: "tm_inv m" and t: "map_of (active m) x = Some t"
  shows "tm_inv (m\<lparr>active := AList.delete x (active m), committed := insert x (committed m)\<rparr>)"
    and "tm_inv (m\<lparr>active := AList.delete x (active m), aborted := insert x (aborted m)\<rparr>)"
proof -
  have "committed m \<inter> aborted m = {}" "x \<notin> committed m" "x \<notin> aborted m"
    using inv tm_invD(4,5) [OF inv t] by (simp_all add: tm_inv_def)
  then show "tm_inv (m\<lparr>active := AList.delete x (active m), committed := insert x (committed m)\<rparr>)"
    "tm_inv (m\<lparr>active := AList.delete x (active m), aborted := insert x (aborted m)\<rparr>)"
    using ended_inv [OF inv t, of "insert x (committed m)" "aborted m"]
      ended_inv [OF inv t, of "committed m" "insert x (aborted m)"] by simp_all
qed

lemma commit_cases:
  assumes "txn_commit x m = (r, m')"
  obtains (succeeded) w t where "r = Ok ()" "map_of (active m) x = Some t" "check_serializable_conflict x m = Ok ()"
      "m' = release_locks x (commit_publish x (commit_remove x (m\<lparr>tm_wal := w\<rparr>)))"
  | (failed) w where "r \<noteq> Ok ()" "m' = m\<lparr>tm_wal := w\<rparr>"
proof -
  have self: "m = m\<lparr>tm_wal := tm_wal m\<rparr>" by simp
  obtain rw w where w: "append_and_flush x Commit 0 [] (tm_wal m) = (rw, w)"
    by (cases "append_and_flush x Commit 0 [] (tm_wal m)")
  show ?thesis
  proof (cases "check_active x m = Ok () \<and> check_serializable_conflict x m = Ok () \<and> is_ok rw")
    case True
    then obtain t l where "map_of (active m) x = Some t" "rw = Ok l"
      by (cases rw) (auto simp: check_active_def split: option.splits)
    with True w assms show ?thesis
      by (intro succeeded [of t w]) (simp_all add: txn_commit_def on_wal_def smap_err_def szoom_def)
  next
    case False
    have "r \<noteq> Ok () \<and> (m' = m \<or> m' = m\<lparr>tm_wal := w\<rparr>)"
    proof (cases "check_active x m = Ok () \<and> check_serializable_conflict x m = Ok ()")
      case True
      then show ?thesis
        using False w assms by (cases rw) (simp_all add: txn_commit_def on_wal_def smap_err_def szoom_def, auto)
    next
      case False
      then show ?thesis
        using assms by (cases "check_active x m"; cases "check_serializable_conflict x m") (simp_all add: txn_commit_def, auto)
    qed
    then show ?thesis using failed self by metis
  qed
qed

lemma abort_cases:
  assumes "txn_abort x m = (r, m')"
  obtains (succeeded) w t where "r = Ok ()" "map_of (active m) x = Some t"
      "m' = release_locks x (m\<lparr>tm_wal := w, active := AList.delete x (active m), aborted := insert x (aborted m)\<rparr>)"
  | (failed) w where "r \<noteq> Ok ()" "m' = m\<lparr>tm_wal := w\<rparr>"
proof -
  have self: "m = m\<lparr>tm_wal := tm_wal m\<rparr>" by simp
  obtain rw w where w: "wal_append x Abort 0 [] (tm_wal m) = (rw, w)"
    by (cases "wal_append x Abort 0 [] (tm_wal m)")
  show ?thesis
  proof (cases "check_active x m = Ok () \<and> is_ok rw")
    case True
    then obtain t l where "map_of (active m) x = Some t" "rw = Ok l"
      by (cases rw) (auto simp: check_active_def split: option.splits)
    with True w assms show ?thesis
      by (intro succeeded [of t w]) (simp_all add: txn_abort_def on_wal_def smap_err_def szoom_def)
  next
    case False
    have "r \<noteq> Ok () \<and> (m' = m \<or> m' = m\<lparr>tm_wal := w\<rparr>)"
      using False w assms
      by (cases "check_active x m"; cases rw) (auto simp: txn_abort_def on_wal_def smap_err_def szoom_def sbind_def)
    then show ?thesis using failed self by metis
  qed
qed

lemma set_level_inv:
  assumes inv: "tm_inv m"
  shows "tm_inv (set_isolation_level x lvl m)"
proof (cases "map_of (active m) x")
  case None
  then show ?thesis using inv by (simp add: set_isolation_level_def)
next
  case (Some t)
  let ?m1 = "m\<lparr>active := AList.update x (t\<lparr>tx_isolation := lvl\<rparr>) (active m)\<rparr>"
  have m1: "tm_inv ?m1"
    by (rule replace_inv [OF inv Some]) (use tm_invD [OF inv Some] in simp_all)
  have in1: "map_of (active ?m1) x = Some (t\<lparr>tx_isolation := lvl\<rparr>)" by (simp add: update_conv')
  have "y < next_xid ?m1" if "y \<in> set (map fst (active ?m1))" for y
    using m1 that unfolding tm_inv_def by force
  then have "snapshot_ok ?m1 x (take_snapshot_inner ?m1 x)" by (rule snapshot_fresh)
  then have "tm_inv (?m1\<lparr>active := AList.update x
      (t\<lparr>tx_isolation := lvl, tx_snapshot := Some (take_snapshot_inner ?m1 x)\<rparr>) (active ?m1)\<rparr>)"
    by (intro replace_inv [OF m1 in1]) (use tm_invD [OF inv Some] in auto)
  with m1 Some show ?thesis by (simp add: set_isolation_level_def Let_def)
qed

section \<open>Sequences of operations\<close>

text \<open>One whole method of the manager; the label is the transaction it runs for.\<close>

inductive tm_step :: "xid \<Rightarrow> txn_manager \<Rightarrow> txn_manager \<Rightarrow> bool" where
  st_begin: "txn_begin lvl m = (x, m') \<Longrightarrow> global_next m \<noteq> - 1 \<Longrightarrow> tm_step x m m'"
| st_commit: "txn_commit x m = (r, m') \<Longrightarrow> tm_step x m m'"
| st_abort: "txn_abort x m = (r, m') \<Longrightarrow> tm_step x m m'"
| st_level: "tm_step x m (set_isolation_level x lvl m)"
| st_scan: "scan_visible_tuples x h m = (rs, m') \<Longrightarrow> tm_step x m m'"
| st_insert: "txn_insert_tuple x d (m, h) = (rt, (m', h')) \<Longrightarrow> tm_step x m m'"
| st_delete: "txn_delete_tuple x t (m, h) = Some (r, (m', h')) \<Longrightarrow> tm_step x m m'"
| st_update: "txn_update_tuple x t d (m, h) = Some (rt, (m', h')) \<Longrightarrow> tm_step x m m'"
| st_undo_insert: "undo_insert x t (m, h) = (r, (m', h')) \<Longrightarrow> tm_step x m m'"
| st_undo_delete: "undo_delete x t (m, h) = (r, (m', h')) \<Longrightarrow> tm_step x m m'"

lemma tm_step_cases:
  assumes "tm_step x m m'" and "tm_inv m"
  obtains (same) "same_txns m m'"
  | (began) lvl where "txn_begin lvl m = (x, m')" "global_next m \<noteq> - 1"
  | (committed) t w l where "map_of (active m) x = Some t"
      "m' = m\<lparr>tm_wal := w, tm_locks := l, active := AList.delete x (active m), committed := insert x (committed m)\<rparr>"
  | (aborted) t w l where "map_of (active m) x = Some t"
      "m' = m\<lparr>tm_wal := w, tm_locks := l, active := AList.delete x (active m), aborted := insert x (aborted m)\<rparr>"
  | (level) lvl where "m' = set_isolation_level x lvl m"
  using assms(1)
proof cases
  case (st_commit r)
  then show ?thesis
  proof (cases rule: commit_cases)
    case (succeeded w t)
    then show ?thesis
      by (intro committed [of t "release_all x (tm_locks m)" w])
        (simp_all add: release_locks_def commit_publish_def commit_remove_def)
  next
    case (failed w)
    then show ?thesis using same same_txns_log by simp
  qed
next
  case (st_abort r)
  then show ?thesis
  proof (cases rule: abort_cases)
    case (succeeded w t)
    then show ?thesis
      by (intro aborted [of t "release_all x (tm_locks m)" w]) (simp_all add: release_locks_def)
  next
    case (failed w)
    then show ?thesis using same same_txns_log by simp
  qed
next
  case (st_scan h rs)
  then show ?thesis using same scan_quiet by blast
next
  case (st_insert d h rt h')
  then show ?thesis using same quietD [OF quiet_ops(1)] by fastforce
next
  case (st_delete t h r h')
  then show ?thesis using same delete_quiet by fastforce
next
  case (st_update t d h rt h')
  then show ?thesis using same update_quiet by fastforce
next
  case (st_undo_insert t h r h')
  then show ?thesis using same quietD [OF quiet_ops(2)] by fastforce
next
  case (st_undo_delete t h r h')
  then show ?thesis using same quietD [OF quiet_ops(3)] by fastforce
qed (use began level in blast)+

lemma tm_step_inv:
  assumes "tm_step x m m'" and "tm_inv m"
  shows "tm_inv m'"
  using assms
proof (cases rule: tm_step_cases)
  case same
  then show ?thesis using assms(2) by (simp add: same_txns_def)
next
  case (began lvl)
  then show ?thesis using begin_inv(1) assms(2) by blast
next
  case (committed t w l)
  then show ?thesis using remove_inv(1) [OF assms(2) committed(1)] by (simp add: tm_inv_def snapshot_ok_def)
next
  case (aborted t w l)
  then show ?thesis using remove_inv(2) [OF assms(2) aborted(1)] by (simp add: tm_inv_def snapshot_ok_def)
next
  case (level lvl)
  then show ?thesis using set_level_inv assms(2) by simp
qed

section \<open>Stable snapshots\<close>

text \<open>
  The transaction \<open>x\<close> runs at a level with a stored snapshot; the steps of everybody else, and its own
  except ending it or changing its level.
\<close>

definition reads_from :: "txn_manager \<Rightarrow> xid \<Rightarrow> snapshot \<Rightarrow> bool" where
  "reads_from m x s \<longleftrightarrow> (\<exists>t. map_of (active m) x = Some t \<and> tx_snapshot t = Some s
     \<and> (tx_isolation t = RepeatableRead \<or> tx_isolation t = Serializable))"

inductive around :: "xid \<Rightarrow> txn_manager \<Rightarrow> txn_manager \<Rightarrow> bool" for x where
  start: "around x m m"
| other: "around x m m1 \<Longrightarrow> tm_step y m1 m2 \<Longrightarrow> y \<noteq> x \<Longrightarrow> around x m m2"
| own: "around x m m1 \<Longrightarrow> tm_step x m1 m2 \<Longrightarrow> same_txns m1 m2 \<Longrightarrow> around x m m2"

lemma reads_from_current: "reads_from m x s \<Longrightarrow> current_snapshot m x = s"
  by (auto simp: reads_from_def current_snapshot_def)

lemma same_txns_reads_from:
  assumes "same_txns m m'" and "reads_from m x s"
  shows "reads_from m' x s"
proof -
  have "map_option (\<lambda>t. (tx_isolation t, tx_snapshot t)) (map_of (active m') x)
      = map_option (\<lambda>t. (tx_isolation t, tx_snapshot t)) (map_of (active m) x)"
    using assms(1) by (simp add: same_txns_def)
  then show ?thesis using assms(2) by (cases "map_of (active m') x") (auto simp: reads_from_def)
qed

lemma other_step_stable:
  assumes st: "tm_step y m m'" and y: "y \<noteq> x" and inv: "tm_inv m" and rd: "reads_from m x s"
  shows "reads_from m' x s \<and> (\<forall>z. xid_is_visible s z \<longrightarrow> (z \<in> committed m' \<longleftrightarrow> z \<in> committed m))"
  using st inv
proof (cases rule: tm_step_cases)
  case same
  then show ?thesis using same_txns_reads_from [OF same rd] by (simp add: same_txns_def)
next
  case (began lvl)
  then show ?thesis
    using begin_inv(4,5) [OF inv began(2,1)] rd y by (auto simp: reads_from_def)
next
  case (committed t w l)
  have "\<not> xid_is_visible s y"
  proof -
    obtain u where u: "map_of (active m) x = Some u" "tx_snapshot u = Some s" using rd by (auto simp: reads_from_def)
    have "y \<in> set (map fst (active m))" using committed(1) by (force dest: map_of_SomeD)
    then show ?thesis using tm_invD(6) [OF inv u] y by (auto simp: snapshot_ok_def)
  qed
  then show ?thesis using committed rd y by (auto simp: reads_from_def delete_conv')
next
  case (aborted t w l)
  then show ?thesis using rd y by (auto simp: reads_from_def delete_conv')
next
  case (level lvl)
  then show ?thesis
    using rd y by (auto simp: reads_from_def set_isolation_level_def update_conv' Let_def split: option.splits)
qed

lemma around_stable:
  assumes "around x m m'" and "tm_inv m" and "reads_from m x s"
  shows "tm_inv m' \<and> reads_from m' x s \<and> (\<forall>z. xid_is_visible s z \<longrightarrow> (z \<in> committed m' \<longleftrightarrow> z \<in> committed m))"
  using assms
proof (induction rule: around.induct)
  case (start m)
  then show ?case by simp
next
  case (other m m1 y m2)
  then have "tm_inv m1" "reads_from m1 x s" by auto
  with other other_step_stable [OF other.hyps(2,3)] tm_step_inv [OF other.hyps(2)] show ?case by simp
next
  case (own m m1 m2)
  then have "tm_inv m1" "reads_from m1 x s" by auto
  with own same_txns_reads_from [OF own.hyps(3)] show ?case by (simp add: same_txns_def)
qed

lemma tuple_visible_cong:
  assumes "\<forall>z. xid_is_visible s z \<longrightarrow> (z \<in> c' \<longleftrightarrow> z \<in> c)"
  shows "is_tuple_visible h s c' \<longleftrightarrow> is_tuple_visible h s c"
  using assms by (auto simp: is_tuple_visible_def)

section \<open>Properties\<close>

text \<open>
  Repeatable read. While a transaction with a stored snapshot is open, whole operations of other
  transactions, in any order and number, and its own reads and writes change neither the snapshot it reads
  from nor, for any tuple version, whether it sees it.
\<close>

theorem repeatable_read_is_stable:
  assumes "tm_inv m" and "reads_from m x s" and "around x m m'"
  shows "current_snapshot m' x = s \<and>
    version_visible x (current_snapshot m' x) (committed m') h
      = version_visible x (current_snapshot m x) (committed m) h"
proof -
  note st = around_stable [OF assms(3,1,2)]
  then show ?thesis
    using reads_from_current [OF assms(2)] reads_from_current [of m' x s]
      tuple_visible_cong [of s "committed m'" "committed m" h]
    by (simp add: version_visible_def)
qed

text \<open>
  \<^bold>\<open>C6.\<close> Every sequence of operations from a fresh manager keeps the bookkeeping consistent: numbers are
  handed out once, a transaction is never both active and ended nor both committed and aborted, and no
  version written by an aborted or another active transaction is visible to anybody (no dirty reads).
\<close>

theorem no_dirty_reads:
  assumes "(\<lambda>m m'. \<exists>x. tm_step x m m')\<^sup>*\<^sup>* (TransactionManager_new w g) m" and "3 \<le> g"
  shows "tm_inv m \<and> (\<forall>x h. version_visible x (current_snapshot m x) (committed m) h \<and> t_xmin h \<noteq> x \<longrightarrow>
      t_xmin h \<in> committed m \<and> t_xmin h \<notin> aborted m \<and> map_of (active m) (t_xmin h) = None)"
proof -
  have "tm_inv (TransactionManager_new w g)"
    using assms(2) by (simp add: tm_inv_def TransactionManager_new_def)
  with assms(1) have inv: "tm_inv m"
    by (induction rule: rtranclp_induct) (auto dest: tm_step_inv)
  have "t_xmin h \<in> committed m \<and> t_xmin h \<notin> aborted m \<and> map_of (active m) (t_xmin h) = None"
    if v: "version_visible x (current_snapshot m x) (committed m) h" "t_xmin h \<noteq> x" for x h
  proof -
    have c: "t_xmin h \<in> committed m" using v by (auto simp: version_visible_def is_tuple_visible_def split: if_splits)
    then have "t_xmin h \<notin> aborted m" "t_xmin h \<notin> fst ` set (active m)" using inv by (auto simp: tm_inv_def)
    then show ?thesis using c by (simp add: map_of_eq_None_iff)
  qed
  then show ?thesis using inv by blast
qed

text \<open>A commit whose log can be extended succeeds, and its record is the last one of the log.\<close>

lemma commit_ok:
  assumes log: "wal_inv cs (tm_wal m)" and seg: "w_segment (tm_wal m) \<noteq> - 1"
    and room: "Suc (length (log_records cs)) < 2 ^ 64"
    and t: "map_of (active m) x = Some t" "tx_state t = Active" and ser: "check_serializable_conflict x m = Ok ()"
  obtains cs' w where "txn_commit x m = (Ok (), release_locks x (commit_publish x (commit_remove x (m\<lparr>tm_wal := w\<rparr>))))"
    and "wal_inv cs' w" and "log_records cs' = log_records cs @ [appended (tm_wal m) x Commit 0 []]"
    and "unat (w_segment w) \<le> Suc (unat (w_segment (tm_wal m)))"
proof -
  have small: "37 + length ([] :: byte list) < 2 ^ 32" by simp
  obtain cs' w' where a: "append_inner x Commit 0 [] (tm_wal m) = (Ok (w_lsn (tm_wal m) + 1), w')" "wal_inv cs' w'"
    "log_records cs' = log_records cs @ [appended (tm_wal m) x Commit 0 []]"
    "unat (w_segment w') \<le> Suc (unat (w_segment (tm_wal m)))"
    by (rule append_law [OF log seg room small])
  obtain w where w: "wal_flush w' = (Ok (), w)" "wal_inv cs' w" "w_segment w = w_segment w'"
    using a(2) by (simp add: wal_flush_def wal_inv_def)
  have "txn_commit x m = (Ok (), release_locks x (commit_publish x (commit_remove x (m\<lparr>tm_wal := w\<rparr>))))"
    using t ser a(1) w(1)
    by (simp add: txn_commit_def check_active_def on_wal_def smap_err_def szoom_def append_and_flush_def)
  with that w a(3,4) show ?thesis by simp
qed

lemma demo_history:
  obtains w m1 m2 m3 where "wal_inv [(1, [], [])] w" "w_segment w = 1"
    "txn_begin ReadCommitted (TransactionManager_new w 3) = (3, m1)" "txn_commit 3 m1 = (Ok (), m2)"
    "txn_begin RepeatableRead m2 = (4, m3)" "committed m3 = {3}" "current_snapshot m3 4 = \<lparr>s_xmin = 5, s_xmax = 5, in_progress = {}\<rparr>"
    "reads_from m3 4 \<lparr>s_xmin = 5, s_xmax = 5, in_progress = {}\<rparr>" "tm_inv m3" "global_next m3 = 5"
    "global_next m2 = 4"
proof -
  obtain w where w: "wal_inv [(1, [], [])] w" "w_segment w = 1" by (rule fresh_writer)
  let ?m0 = "TransactionManager_new w 3"
  let ?m1 = "?m0\<lparr>global_next := 4, next_xid := 4, active := [(3, Transaction_new 3 ReadCommitted)]\<rparr>"
  have b1: "txn_begin ReadCommitted ?m0 = (3, ?m1)"
    by (simp add: txn_begin_def begin_alloc_def allocate_xid_def begin_register_def TransactionManager_new_def Let_def)
  obtain w' where c: "txn_commit 3 ?m1 = (Ok (), release_locks 3 (commit_publish 3 (commit_remove 3 (?m1\<lparr>tm_wal := w'\<rparr>))))"
    by (rule commit_ok [of "[(1, [], [])]" ?m1 3 "Transaction_new 3 ReadCommitted"])
      (use w in \<open>simp_all add: TransactionManager_new_def Transaction_new_def check_serializable_conflict_def chunk_records_def\<close>)
  let ?m2 = "release_locks 3 (commit_publish 3 (commit_remove 3 (?m1\<lparr>tm_wal := w'\<rparr>)))"
  let ?s = "\<lparr>s_xmin = 5, s_xmax = 5, in_progress = {}\<rparr> :: snapshot"
  let ?m3 = "?m2\<lparr>global_next := 5, next_xid := 5,
      active := [(4, (Transaction_new 4 RepeatableRead)\<lparr>tx_snapshot := Some ?s\<rparr>)]\<rparr>"
  have b2: "txn_begin RepeatableRead ?m2 = (4, ?m3)"
    by (simp add: txn_begin_def begin_alloc_def allocate_xid_def begin_register_def TransactionManager_new_def Let_def
        release_locks_def commit_publish_def commit_remove_def take_snapshot_inner_def)
  have "tm_inv ?m0" by (simp add: tm_inv_def TransactionManager_new_def)
  then have "tm_inv ?m1" by (rule begin_inv(1) [OF _ _ b1]) (simp add: TransactionManager_new_def)
  then have "tm_inv ?m2" using tm_step_inv [OF st_commit [OF c]] by simp
  then have inv3: "tm_inv ?m3"
    by (rule begin_inv(1) [OF _ _ b2])
      (simp add: TransactionManager_new_def release_locks_def commit_publish_def commit_remove_def)
  show ?thesis
    by (rule that [OF w b1 c b2 _ _ _ inv3])
      (simp_all add: TransactionManager_new_def release_locks_def commit_publish_def commit_remove_def
        current_snapshot_def reads_from_def Transaction_new_def)
qed

theorem repeatable_read_is_stable_witness:
  "\<exists>m x s m'. tm_inv m \<and> reads_from m x s \<and> around x m m' \<and> x = 4 \<and> map_of (active m') 5 \<noteq> None
     \<and> current_snapshot m' x = s"
proof -
  obtain m3 s where m: "reads_from m3 4 s" "tm_inv m3" "global_next m3 = 5" by (rule demo_history) blast
  obtain x4 m4 where b: "txn_begin ReadCommitted m3 = (x4, m4)" by (cases "txn_begin ReadCommitted m3")
  have "x4 = 5" "map_of (active m4) 5 \<noteq> None"
    using begin_inv(2,4) [OF m(2) _ b] m(3) by auto
  moreover have "around 4 m3 m4"
    by (rule around.other [OF around.start st_begin [OF b]]) (use m(3) \<open>x4 = 5\<close> in simp_all)
  ultimately show ?thesis using repeatable_read_is_stable [OF m(2,1)] m by blast
qed

theorem no_dirty_reads_witness:
  "\<exists>w m. (\<lambda>m m'. \<exists>x. tm_step x m m')\<^sup>*\<^sup>* (TransactionManager_new w 3) m
     \<and> version_visible 4 (current_snapshot m 4) (committed m) (TupleHeader_new\<lparr>t_xmin := 3\<rparr>)
     \<and> 3 \<in> committed m \<and> 3 \<notin> aborted m \<and> tm_inv m"
proof (rule demo_history)
  fix w m1 m2 m3
  assume h: "txn_begin ReadCommitted (TransactionManager_new w 3) = (3, m1)" "txn_commit 3 m1 = (Ok (), m2)"
    "txn_begin RepeatableRead m2 = (4, m3)" "committed m3 = {3}"
    "current_snapshot m3 4 = \<lparr>s_xmin = 5, s_xmax = 5, in_progress = {}\<rparr>" "global_next m2 = 4"
  let ?R = "\<lambda>m m'. \<exists>x. tm_step x m m'"
  have "tm_step 3 (TransactionManager_new w 3) m1"
    by (rule st_begin [OF h(1)]) (simp add: TransactionManager_new_def)
  moreover have "tm_step 3 m1 m2" by (rule st_commit [OF h(2)])
  moreover have "tm_step 4 m2 m3" by (rule st_begin [OF h(3)]) (simp add: h(6))
  ultimately have "?R (TransactionManager_new w 3) m1" "?R m1 m2" "?R m2 m3" by (auto intro: exI)
  then have r: "?R\<^sup>*\<^sup>* (TransactionManager_new w 3) m3"
    by (rule rtranclp.rtrancl_into_rtrancl [OF rtranclp.rtrancl_into_rtrancl [OF r_into_rtranclp]])
  have v: "version_visible 4 (current_snapshot m3 4) (committed m3) (TupleHeader_new\<lparr>t_xmin := 3\<rparr>)"
    by (simp add: version_visible_def h(4,5) is_tuple_visible_def xid_is_visible_def TupleHeader_new_def)
  have g: "3 \<le> (3 :: xid)" by simp
  have n: "t_xmin (TupleHeader_new\<lparr>t_xmin := 3\<rparr>) \<noteq> 4" by simp
  from no_dirty_reads [OF r g] v n have "3 \<in> committed m3 \<and> 3 \<notin> aborted m3 \<and> tm_inv m3"
    by (metis (no_types, lifting) tuple_header.select_convs(1) tuple_header.surjective tuple_header.update_convs(1))
  then show ?thesis using r v by blast
qed

section \<open>Interleavings\<close>

lemma numbers_below:
  assumes "tm_inv m" and "z \<in> fst ` set (active m) \<or> z \<in> committed m \<union> aborted m"
  shows "z < global_next m"
proof -
  have "z < next_xid m"
    using assms tm_invD(3) [OF assms(1)] by (auto simp: tm_inv_def)
  moreover have "next_xid m \<le> global_next m" using assms(1) by (simp add: tm_inv_def)
  ultimately show ?thesis by (rule less_le_trans)
qed

lemma taken_sees:
  assumes "x \<noteq> INVALID_XID" and "x < next_xid m" and "x \<notin> fst ` set (active m)"
  shows "xid_is_visible (take_snapshot_inner m y) x"
  using assms by (auto simp: xid_is_visible_def take_snapshot_inner_def Let_def)

lemma registered_snapshot:
  "lvl \<noteq> ReadCommitted \<Longrightarrow> current_snapshot (begin_register y lvl m) y = take_snapshot_inner (m\<lparr>next_xid := y + 1\<rparr>) y"
  by (cases lvl) (auto simp: current_snapshot_def begin_register_def update_conv' Let_def Transaction_new_def)

lemma fresh_version_visible:
  assumes "xid_is_visible s x" and "x < y"
  shows "version_visible y s c (TupleHeader_new\<lparr>t_xmin := x\<rparr>) \<longleftrightarrow> x \<in> c"
proof -
  have "y \<noteq> 0" "x \<noteq> y" using assms(2) by auto
  then show ?thesis
    using assms by (simp add: version_visible_def is_tuple_visible_def TupleHeader_new_def)
qed

text \<open>
  Finding. \<open>commit\<close> removes the transaction from the active ones under one lock and adds it to the
  committed ones under another. A repeatable-read transaction that begins in between has a snapshot in
  which the committing transaction is over, but sees nothing of it; as soon as the commit goes on, the
  same snapshot shows everything it inserted.
\<close>

theorem commit_race_breaks_repeatable_read:
  assumes "tm_inv m" and "map_of (active m) x = Some t" and "x \<noteq> INVALID_XID" and "global_next m \<noteq> - 1"
    and "txn_begin RepeatableRead (commit_remove x m) = (y, m1)"
  shows "\<not> version_visible y (current_snapshot m1 y) (committed m1) (TupleHeader_new\<lparr>t_xmin := x\<rparr>)
    \<and> current_snapshot (commit_publish x m1) y = current_snapshot m1 y
    \<and> version_visible y (current_snapshot (commit_publish x m1) y) (committed (commit_publish x m1))
        (TupleHeader_new\<lparr>t_xmin := x\<rparr>)"
proof -
  let ?m = "commit_remove x m\<lparr>global_next := y + 1\<rparr>"
  have y: "y = global_next m" and m1: "m1 = begin_register y RepeatableRead ?m"
    using assms(5) by (auto simp: txn_begin_def begin_alloc_def allocate_xid_def commit_remove_def)
  have "x < y" using tm_invD(3) [OF assms(1,2)] assms(1) y by (auto simp: tm_inv_def)
  moreover have "y < y + 1" using assms(4) y by (simp add: word_less_succ)
  ultimately have "xid_is_visible (current_snapshot m1 y) x"
    unfolding m1 using assms(3)
    by (subst registered_snapshot) (auto intro!: taken_sees simp: commit_remove_def AList.delete_eq)
  note vis = fresh_version_visible [OF this \<open>x < y\<close>]
  have "x \<notin> committed m1"
    using tm_invD(4) [OF assms(1,2)] by (simp add: m1 begin_register_def commit_remove_def Let_def)
  moreover have "current_snapshot (commit_publish x m1) y = current_snapshot m1 y"
    by (simp add: current_snapshot_def commit_publish_def take_snapshot_inner_def Let_def split: option.split)
  ultimately show ?thesis by (simp add: vis commit_publish_def)
qed

theorem commit_race_breaks_repeatable_read_witness:
  "\<exists>m y m1. txn_begin RepeatableRead (commit_remove 4 m) = (y, m1)
     \<and> \<not> version_visible y (current_snapshot m1 y) (committed m1) (TupleHeader_new\<lparr>t_xmin := 4\<rparr>)
     \<and> version_visible y (current_snapshot (commit_publish 4 m1) y) (committed (commit_publish 4 m1))
         (TupleHeader_new\<lparr>t_xmin := 4\<rparr>)"
proof -
  obtain m s where m: "reads_from m 4 s" "tm_inv m" "global_next m = 5" by (rule demo_history) blast
  obtain t where t: "map_of (active m) 4 = Some t" using m(1) by (auto simp: reads_from_def)
  obtain y m1 where b: "txn_begin RepeatableRead (commit_remove 4 m) = (y, m1)"
    by (cases "txn_begin RepeatableRead (commit_remove 4 m)")
  show ?thesis using commit_race_breaks_repeatable_read [OF m(2) t _ _ b] b m(3) by auto
qed

text \<open>
  Finding. \<open>begin\<close> takes its number before the lock. When two transactions register in the other
  order, the later number's snapshot takes the earlier one, not yet registered, for finished: when it
  commits, its rows appear in the repeatable-read transaction that was already open. And the manager's
  \<open>next_xid\<close> falls back below a number that is in use, so snapshots taken now treat that transaction's
  rows as written in the future.
\<close>

theorem begin_race_breaks_repeatable_read:
  assumes "tm_inv m" and "INVALID_XID < global_next m" and "global_next m + 1 \<noteq> - 1" and "global_next m \<noteq> - 1"
    and "begin_alloc m = (x, m1)" and "begin_alloc m1 = (y, m2)"
    and "m3 = begin_register y RepeatableRead m2" and "m4 = begin_register x lvl m3"
    and "m5 = commit_publish x (commit_remove x m4)"
  shows "\<not> version_visible y (current_snapshot m4 y) (committed m4) (TupleHeader_new\<lparr>t_xmin := x\<rparr>)
    \<and> version_visible y (current_snapshot m5 y) (committed m5) (TupleHeader_new\<lparr>t_xmin := x\<rparr>)
    \<and> next_xid m4 = y \<and> map_of (active m4) y \<noteq> None \<and> y \<ge> s_xmax (take_snapshot_inner m4 x)"
proof -
  have x: "x = global_next m" and y: "y = x + 1" and m2: "m2 = m\<lparr>global_next := y + 1\<rparr>"
    using assms(5,6) by (auto simp: begin_alloc_def allocate_xid_def)
  have lt: "x < y" "y < y + 1"
    using word_less_succ [OF assms(4)] word_less_succ [OF assms(3)] unfolding x [symmetric] y [symmetric] .
  have neq: "x \<noteq> y" using lt by simp
  have below: "z < x" if "z \<in> fst ` set (active m) \<or> z \<in> committed m" for z
    using that numbers_below [OF assms(1)] x by auto
  have fresh: "x \<notin> fst ` set (active m)" "x \<notin> committed m" using below by blast+
  define t where "t = (Transaction_new y RepeatableRead)\<lparr>tx_snapshot := Some (take_snapshot_inner (m2\<lparr>next_xid := y + 1\<rparr>) y)\<rparr>"
  have t: "tx_snapshot t = Some (take_snapshot_inner (m2\<lparr>next_xid := y + 1\<rparr>) y)" "tx_isolation t = RepeatableRead"
    and m3: "active m3 = AList.update y t (active m)" "committed m3 = committed m"
    by (simp_all add: t_def assms(7) begin_register_def Let_def m2 Transaction_new_def)
  have vis: "xid_is_visible (take_snapshot_inner (m2\<lparr>next_xid := y + 1\<rparr>) y) x"
    by (rule taken_sees) (use fresh(1) less_trans [OF lt] assms(2) in \<open>simp_all add: m2 x [symmetric]\<close>)
  have act4: "map_of (active m4) y = Some t" and c4: "committed m4 = committed m"
    using neq m3 by (auto simp: assms(8) begin_register_def Let_def update_conv')
  have act5: "map_of (active m5) y = Some t"
    using act4 neq by (simp add: assms(9) commit_publish_def commit_remove_def delete_conv')
  have "committed m5 = insert x (committed m)"
    by (simp add: assms(9) commit_publish_def commit_remove_def c4)
  moreover have "current_snapshot m4 y = take_snapshot_inner (m2\<lparr>next_xid := y + 1\<rparr>) y"
    "current_snapshot m5 y = take_snapshot_inner (m2\<lparr>next_xid := y + 1\<rparr>) y"
    using act4 act5 t by (simp_all add: current_snapshot_def)
  moreover have "next_xid m4 = y" by (simp add: assms(8) begin_register_def Let_def y)
  ultimately show ?thesis
    using fresh_version_visible [OF vis lt(1)] fresh(2) c4 act4 by (simp add: take_snapshot_inner_def Let_def)
qed

theorem begin_race_breaks_repeatable_read_witness:
  "\<exists>m4 m5. map_of (active m4) 4 \<noteq> None \<and> map_of (active m5) 4 \<noteq> None \<and> next_xid m4 = 4
     \<and> \<not> version_visible 4 (current_snapshot m4 4) (committed m4) (TupleHeader_new\<lparr>t_xmin := 3\<rparr>)
     \<and> version_visible 4 (current_snapshot m5 4) (committed m5) (TupleHeader_new\<lparr>t_xmin := 3\<rparr>)"
proof -
  fix w
  define m where "m = TransactionManager_new w 3"
  define m4 where "m4 = begin_register 3 ReadCommitted (begin_register 4 RepeatableRead (m\<lparr>global_next := 5\<rparr>))"
  define m5 where "m5 = commit_publish 3 (commit_remove 3 m4)"
  have "tm_inv m" "global_next m = 3" by (simp_all add: m_def tm_inv_def TransactionManager_new_def)
  then have "\<not> version_visible 4 (current_snapshot m4 4) (committed m4) (TupleHeader_new\<lparr>t_xmin := 3\<rparr>)
    \<and> version_visible 4 (current_snapshot m5 4) (committed m5) (TupleHeader_new\<lparr>t_xmin := 3\<rparr>)
    \<and> next_xid m4 = 4 \<and> map_of (active m4) 4 \<noteq> None \<and> 4 \<ge> s_xmax (take_snapshot_inner m4 3)"
    by (intro begin_race_breaks_repeatable_read 
        [of m 3 "m\<lparr>global_next := 4\<rparr>" 4 "m\<lparr>global_next := 5\<rparr>" _ _ ReadCommitted])
      (simp_all add: m4_def m5_def begin_alloc_def allocate_xid_def)
  moreover from this have "map_of (active m5) 4 \<noteq> None"
    by (simp add: m5_def commit_publish_def commit_remove_def delete_conv')
  ultimately show ?thesis by blast
qed

end
