(* ===== verification/Txn_Heap.thy ===== *)
theory Txn_Heap
  imports Txn_Isolation
begin

text \<open>
  The versioned tuple operations of the transaction manager over a heap file: what insert, delete, update
  and the savepoint undo operations do to the map from tuple identifiers to tuples, what a scan returns,
  and that the pages they log are the pages they write.
\<close>

section \<open>Rewriting a tuple in place\<close>

lemma write_tuple_law:
  assumes wf: "page_wf p" and b: "page_abs p s = Some b" and len: "length (Tuple_encode t) = length b"
  shows "\<exists>q. write_tuple_to_page p s t = Ok q \<and> page_wf q \<and> page_abs q = (page_abs p)(s \<mapsto> Tuple_encode t)"
proof -
  let ?i = "unat s"
  have i: "?i < n_slots p" and live: "item_live p ?i" and bytes: "b = slice (item_off p ?i) (item_len p ?i) p"
    using b by (auto simp: page_abs_def slot_bytes_def split: if_splits)
  have in_page: "item_off p ?i + item_len p ?i \<le> 8192" "24 + ?i * 4 + 4 \<le> 8192" "length p = 8192"
    using wf i live by (auto simp: page_wf_def items_ok_def)
  then have item: "length b = item_len p ?i" by (simp add: bytes)
  let ?q = "patch (item_off p ?i) (Tuple_encode t) p"
  note ov = slot_overwrite [OF wf i live, of "Tuple_encode t"]
  have fits: "length (Tuple_encode t) \<le> item_len p ?i" using len item by simp
  have run: "write_tuple_to_page p s t = Ok ?q"
    using in_page fits by (simp add: write_tuple_to_page_def item_off_def item_len_def)
  have "page_abs ?q = (page_abs p)(s \<mapsto> Tuple_encode t)"
  proof
    fix u
    show "page_abs ?q u = ((page_abs p)(s \<mapsto> Tuple_encode t)) u"
    proof (cases "u = s")
      case True
      then show ?thesis using ov(2,3) [OF fits] i len item in_page by (simp add: page_abs_def)
    next
      case False
      then have "unat u \<noteq> ?i" by (simp add: word_unat_eq_iff)
      then show ?thesis using False ov(2,4) [OF fits] by (simp add: page_abs_def)
    qed
  qed
  with run ov(1) [OF fits] show ?thesis by blast
qed

text \<open>
  The tuples of a table all have their data behind the header; the log and the file agree: no checkpoint
  has been taken, and redoing the whole log on the file \<open>base\<close>, which may have missed any number of page
  writes, gives the file. Records name a page but no file, so this holds of a log that serves one file only; with
  \<open>None\<close> for \<open>base\<close> the log is well-formed and nothing is said about redoing it.
\<close>

definition table_inv :: "heap \<Rightarrow> bool" where
  "table_inv h \<longleftrightarrow> heap_inv h \<and> (\<forall>k t. heap_abs h k = Some t \<longrightarrow> tuple_wf t)"

definition logged :: "heap option \<Rightarrow> chunk list \<Rightarrow> db \<Rightarrow> bool" where
  "logged base cs s \<longleftrightarrow> wal_inv cs (tm_wal (fst s)) \<and> table_inv (snd s)
     \<and> (\<forall>rec \<in> set (log_records cs). image_ok rec)
     \<and> read_checkpoint_lsn (w_dir (tm_wal (fst s))) = Ok INVALID_LSN
     \<and> (\<forall>b. base = Some b \<longrightarrow> heap_wf b \<and> disk_view (snd s) = redo_all (log_records cs) (disk_view b))"

text \<open>Room for \<open>n\<close> more records and \<open>n\<close> more pages.\<close>

definition room :: "nat \<Rightarrow> chunk list \<Rightarrow> db \<Rightarrow> bool" where
  "room n cs s \<longleftrightarrow> unat (w_segment (tm_wal (fst s))) + n < 2 ^ 64 \<and> length (log_records cs) + n < 2 ^ 64
     \<and> n_blocks (snd s) + n < 2 ^ 32"

lemma table_invD: "table_inv h \<Longrightarrow> heap_inv h" "table_inv h \<Longrightarrow> heap_wf h"
  "table_inv h \<Longrightarrow> heap_abs h k = Some t \<Longrightarrow> tuple_wf t"
  by (auto simp: table_inv_def heap_inv_def)

lemma heap_abs_raw:
  assumes "heap_raw h' = (heap_raw h)(k \<mapsto> Tuple_encode t)" and "tuple_wf t"
  shows "heap_abs h' = (heap_abs h)(k \<mapsto> t)"
  using assms by (auto simp: heap_abs_def fun_eq_iff)

lemma table_inv_upd:
  assumes inv: "table_inv h" and wf: "heap_wf h'" and raw: "heap_raw h' = (heap_raw h)(k \<mapsto> Tuple_encode t)"
    and t: "tuple_wf t"
  shows "table_inv h'" and "heap_abs h' = (heap_abs h)(k \<mapsto> t)"
proof -
  show abs: "heap_abs h' = (heap_abs h)(k \<mapsto> t)" by (rule heap_abs_raw [OF raw t])
  have "is_ok (Tuple_decode b)" if "heap_raw h' j = Some b" for j b
    using that raw inv t tuple_decode_encode [OF t]
    by (auto simp: table_inv_def heap_inv_def tuples_ok_def split: if_splits)
  then show "table_inv h'"
    using inv wf abs t by (auto simp: table_inv_def heap_inv_def tuples_ok_def split: if_splits)
qed

lemma disk_view_write:
  assumes "heap_wf h" and "unat pn < n_blocks h" and "page_wf p" and "heap_write_page pn p h = (Ok (), h')"
  shows "disk_view h' = (disk_view h)(pn \<mapsto> update_checksum p)"
  using heap_write_wf [OF assms(1-3)] assms(2,4) by (auto simp: disk_view_def fun_eq_iff word_unat_eq_iff)

lemma append_keeps_ctl:
  assumes "wal_inv cs w" and "append_inner x ty pn d w = (r, w')"
  shows "read_checkpoint_lsn (w_dir w') = read_checkpoint_lsn (w_dir w)"
proof -
  have seg: "segment_filename n \<noteq> CHECKPOINT_CTL" "CHECKPOINT_CTL \<noteq> segment_filename n" for n
    using ctl_not_segment by (metis option.distinct(1) seg_number_name)+
  have "w_file w = segment_filename (w_segment w)" using assms(1) by (simp add: wal_inv_def)
  with assms(2) seg have "map_of (w_dir w') CHECKPOINT_CTL = map_of (w_dir w) CHECKPOINT_CTL"
    by (auto simp: append_inner_def rotate_segment_if_needed_def wal_write_all_def dir_create_def sbind_def smod_def sret_def
        update_conv' Let_def split: if_splits option.splits)
  then show ?thesis by (simp add: read_checkpoint_lsn_def)
qed

text \<open>Log a page, then write it.\<close>

lemma log_then_write:
  assumes log: "wal_inv cs (tm_wal m)" and room: "w_segment (tm_wal m) \<noteq> - 1" "Suc (length (log_records cs)) < 2 ^ 64"
    and wf: "heap_wf h" and pn: "unat pn < n_blocks h" and p: "page_wf p"
  obtains cs' w h' rec where
    "sbind (on_mgr (on_wal (wal_append x PageImage pn p))) (\<lambda>_. on_heap (heap_write_page pn p)) (m, h)
       = (Ok (), (m\<lparr>tm_wal := w\<rparr>, h'))"
    and "wal_inv cs' w" and "log_records cs' = log_records cs @ [rec]" and "heap_write_page pn p h = (Ok (), h')"
    and "r_type rec = PageImage" and "r_page_no rec = pn" and "r_data rec = p" and "r_xid rec = x" and "image_ok rec"
    and "unat (w_segment w) \<le> Suc (unat (w_segment (tm_wal m)))"
    and "read_checkpoint_lsn (w_dir w) = read_checkpoint_lsn (w_dir (tm_wal m))"
proof -
  have small: "37 + length p < 2 ^ 32" using p by auto
  obtain cs' w where a: "append_inner x PageImage pn p (tm_wal m) = (Ok (w_lsn (tm_wal m) + 1), w)" "wal_inv cs' w"
    "log_records cs' = log_records cs @ [appended (tm_wal m) x PageImage pn p]"
    "unat (w_segment w) \<le> Suc (unat (w_segment (tm_wal m)))"
    by (rule append_law [OF log room small])
  obtain h' where h': "heap_write_page pn p h = (Ok (), h')" using heap_write_wf(1) [OF wf pn p] by blast
  have "sbind (on_mgr (on_wal (wal_append x PageImage pn p))) (\<lambda>_. on_heap (heap_write_page pn p)) (m, h)
       = (Ok (), (m\<lparr>tm_wal := w\<rparr>, h'))"
    using a(1) h' by (simp add: wal_append_def on_mgr_def on_wal_def on_heap_def smap_err_def szoom_def sbind_def)
  moreover have "pn \<noteq> - 1"
    using pn wf by (auto simp: heap_wf_def unsigned_minus_1_eq_mask mask_eq_exp_minus_1)
  ultimately show ?thesis
    using that a append_keeps_ctl [OF log a(1)] h' p by (simp add: appended_def image_ok_def)
qed

lemma extended_view_in:
  assumes "unat pn < n_blocks h"
  shows "extended_view pn (disk_view h) = disk_view h"
  using assms by (auto simp: extended_view_def disk_view_def word_le_nat_alt fun_eq_iff)

lemma redo_all_snoc: "redo_all (recs @ [rec]) v = redo (redo_all recs v) rec"
  by (simp add: foldl_redo [symmetric])

lemma roomD:
  assumes "room (Suc n) cs (m, h)"
  shows "w_segment (tm_wal m) \<noteq> - 1" and "Suc (length (log_records cs)) < 2 ^ 64" and "Suc (n_blocks h) < 2 ^ 32"
  using assms by (auto simp: room_def unsigned_minus_1_eq_mask mask_eq_exp_minus_1)

text \<open>
  A page of the file is replaced by one that differs in one tuple, after it was logged: the step every
  tuple operation ends with. The file before may have just grown by an empty page.
\<close>

lemma logged_write:
  assumes inv: "logged base cs (m, h0)" and room: "room (Suc n) cs (m, h0)"
    and grown: "heap_wf h" "n_blocks h \<le> Suc (n_blocks h0)" "heap_raw h = heap_raw h0"
      "disk_view h = extended_view pn (disk_view h0)"
    and pn: "unat pn < n_blocks h" and p: "page_wf p" and t: "tuple_wf t"
    and raw: "\<And>h'. heap_write_page pn p h = (Ok (), h') \<Longrightarrow> heap_raw h' = (heap_raw h)(k \<mapsto> Tuple_encode t)"
  obtains cs' w h' where
    "sbind (on_mgr (on_wal (wal_append x PageImage pn p))) (\<lambda>_. on_heap (heap_write_page pn p)) (m, h)
       = (Ok (), (m\<lparr>tm_wal := w\<rparr>, h'))"
    and "logged base cs' (m\<lparr>tm_wal := w\<rparr>, h')" and "room n cs' (m\<lparr>tm_wal := w\<rparr>, h')"
    and "heap_abs h' = (heap_abs h0)(k \<mapsto> t)"
proof -
  have log: "wal_inv cs (tm_wal m)" and tab: "table_inv h0" using inv by (auto simp: logged_def)
  obtain cs' w h' rec where r:
    "sbind (on_mgr (on_wal (wal_append x PageImage pn p))) (\<lambda>_. on_heap (heap_write_page pn p)) (m, h)
       = (Ok (), (m\<lparr>tm_wal := w\<rparr>, h'))"
    "wal_inv cs' w" "log_records cs' = log_records cs @ [rec]" "heap_write_page pn p h = (Ok (), h')"
    "r_type rec = PageImage" "r_page_no rec = pn" "r_data rec = p" "image_ok rec"
    "unat (w_segment w) \<le> Suc (unat (w_segment (tm_wal m)))"
    "read_checkpoint_lsn (w_dir w) = read_checkpoint_lsn (w_dir (tm_wal m))"
    by (rule log_then_write [OF log roomD(1,2) [OF room] grown(1) pn p])
  note wr = heap_write_wf [OF grown(1) pn p]
  have wf': "heap_wf h'" and n': "n_blocks h' = n_blocks h" using wr r(4) by auto
  have "heap_raw h' = (heap_raw h0)(k \<mapsto> Tuple_encode t)" using raw [OF r(4)] grown(3) by simp
  note tab' = table_inv_upd [OF tab wf' this t]
  have "disk_view h' = redo (disk_view h0) rec"
    using disk_view_write [OF grown(1) pn p r(4)] r(5-7) by (simp add: redo_def grown(4))
  then have "logged base cs' (m\<lparr>tm_wal := w\<rparr>, h')"
    using inv r tab' by (auto simp: logged_def redo_all_snoc)
  moreover have "room n cs' (m\<lparr>tm_wal := w\<rparr>, h')"
    using room r(3,9) n' grown(2) by (auto simp: room_def)
  ultimately show ?thesis using that r(1) tab'(2) by blast
qed

lemma rewrite_law:
  assumes inv: "logged base cs (m, h)" and room: "room (Suc n) cs (m, h)" and old: "heap_abs h k = Some u"
    and t: "tuple_wf t" and len: "length (Tuple_encode t) = length (Tuple_encode u)"
  obtains cs' w h' where "rewrite_tuple x k t (m, h) = (Ok (), (m\<lparr>tm_wal := w\<rparr>, h'))"
    and "logged base cs' (m\<lparr>tm_wal := w\<rparr>, h')" and "room n cs' (m\<lparr>tm_wal := w\<rparr>, h')"
    and "heap_abs h' = (heap_abs h)(k \<mapsto> t)"
proof -
  let ?p = "block h (unat (page_no k))"
  have tab: "table_inv h" using inv by (simp add: logged_def)
  note wf = table_invD(2) [OF tab]
  obtain b where b: "heap_raw h k = Some b" "Tuple_decode b = Ok u"
    using old by (auto simp: heap_abs_def decode_opt_iff bind_eq_Some_conv)
  have pn: "unat (page_no k) < n_blocks h" and ab: "page_abs ?p (slot k) = Some b"
    using b(1) by (auto simp: heap_raw_def split: if_splits)
  have pw: "page_wf ?p" using wf pn by (simp add: heap_wf_def)
  have "length (Tuple_encode t) = length b"
    using tuple_decode_wf_encode [OF b(2)] tuple_decode_wf_encode [OF tuple_decode_encode [OF table_invD(3) [OF tab old]]] len
    by simp
  then obtain q where q: "write_tuple_to_page ?p (slot k) t = Ok q" "page_wf q"
    "page_abs q = (page_abs ?p)(slot k \<mapsto> Tuple_encode t)"
    using write_tuple_law [OF pw ab] by blast
  have raw: "heap_raw h' = (heap_raw h)(k \<mapsto> Tuple_encode t)" if "heap_write_page (page_no k) q h = (Ok (), h')" for h'
  proof
    fix j
    have "heap_raw h' j = (if page_no j = page_no k then page_abs q (slot j) else heap_raw h j)"
      using heap_write_wf(1,6) [OF wf pn q(2)] that by auto
    then show "heap_raw h' j = ((heap_raw h)(k \<mapsto> Tuple_encode t)) j"
      using q(3) pn by (auto simp: heap_raw_def)
  qed
  have rd: "rewrite_tuple x k t (m, h)
      = sbind (on_mgr (on_wal (wal_append x PageImage (page_no k) q))) (\<lambda>_. on_heap (heap_write_page (page_no k) q)) (m, h)"
    using pn q(1) by (simp add: rewrite_tuple_def on_heap_def heap_read_ok [OF wf] smap_err_def szoom_def)
  show ?thesis
    by (rule logged_write [OF inv room wf _ refl _ pn q(2) t raw, where x = x])
      (use pn that rd in \<open>auto simp: extended_view_in\<close>)
qed

section \<open>The operations\<close>

definition new_version :: "xid \<Rightarrow> byte list \<Rightarrow> tuple" where
  "new_version x d = \<lparr>header = TupleHeader_new\<lparr>t_xmin := x, t_xmax := INVALID_XID\<rparr>, tdata = d\<rparr>"

abbreviation set_xmax :: "tuple \<Rightarrow> xid \<Rightarrow> tuple" where
  "set_xmax t x \<equiv> t\<lparr>header := (header t)\<lparr>t_xmax := x\<rparr>\<rparr>"

lemma new_version_facts [simp]: "tuple_wf (new_version x d)" "length (Tuple_encode (new_version x d)) = 24 + length d"
  using length_Tuple_encode [of "new_version x d"]
  by (simp_all add: tuple_wf_def new_version_def TupleHeader_new_def)

lemma set_xmax_facts [simp]: "tuple_wf (set_xmax t x) = tuple_wf t"
  "length (Tuple_encode (set_xmax t x)) = length (Tuple_encode t)"
  by (simp_all add: tuple_wf_def length_Tuple_encode)

lemma track_write_sel [simp]: "tm_wal (track_write x k m) = tm_wal m" "tm_locks (track_write x k m) = tm_locks m"
  by (simp_all add: track_write_def split: option.splits)

lemma logged_mgr: "tm_wal m' = tm_wal m \<Longrightarrow> logged base cs (m', h) \<longleftrightarrow> logged base cs (m, h)"
  "tm_wal m' = tm_wal m \<Longrightarrow> room n cs (m', h) \<longleftrightarrow> room n cs (m, h)"
  by (simp_all add: logged_def room_def)

lemma disk_view_grown:
  assumes wf: "heap_wf h" and room: "Suc (n_blocks h) < 2 ^ 32" and t: "target h enc = (i, h')" and i: "i < n_blocks h'"
  shows "disk_view h' = extended_view (of_nat i) (disk_view h)"
proof (cases "h' = h")
  case True
  then show ?thesis using i wf by (simp add: extended_view_in heap_wf_def)
next
  case False
  then have h': "h' = h @ fresh_page" "i = n_blocks h" using t by (auto simp: target_def split: option.splits)
  note al = heap_allocate_wf [OF wf room]
  have "disk_view h' q = extended_view (of_nat i) (disk_view h) q" for q
  proof -
    have "unat (of_nat i :: u32) = n_blocks h" using room h' by simp
    then show ?thesis
      using al(3-5) h' room by (auto simp: disk_view_def extended_view_def word_le_nat_alt less_Suc_eq)
  qed
  then show ?thesis by blast
qed

lemma insert_law:
  assumes inv: "logged base cs (m, h)" and room: "room (Suc n) cs (m, h)" and d: "length d \<le> 8140"
  obtains k cs' m' h' w where "txn_insert_tuple x d (m, h) = (Ok k, (m', h'))"
    and "m' = track_write x k (m\<lparr>tm_wal := w\<rparr>)"
    and "logged base cs' (m', h')" and "room n cs' (m', h')"
    and "heap_abs h k = None" and "heap_abs h' = (heap_abs h)(k \<mapsto> new_version x d)"
proof -
  let ?enc = "Tuple_encode (new_version x d)"
  have tab: "table_inv h" using inv by (simp add: logged_def)
  note wf = table_invD(2) [OF tab] and nr = roomD(3) [OF room]
  have fits: "length ?enc \<le> 8164" using d by simp
  obtain i h1 where tg: "target h ?enc = (i, h1)" by (cases "target h ?enc")
  note g = target_cases [OF wf nr fits tg]
  define k where "k = TID_new (of_nat i) (num_slots (block h1 i))"
  have prep: "find_and_prepare_insert ?enc h = (Ok (of_nat i, inserted (block h1 i) ?enc, num_slots (block h1 i)), h1)"
    using prepare_insert_eq [OF wf nr fits] tg by (simp add: placed_def)
  have pn: "unat (of_nat i :: u32) = i" using g(1,2) by (simp add: heap_wf_def)
  have fit: "4 + length ?enc \<le> unat (free_space (block h1 i))" using g(3) by (simp add: has_room_def add.commute)
  have pw: "page_wf (inserted (block h1 i) ?enc)"
    using page_insert_correct(1) [OF _ fit] g(1,2) by (simp add: heap_wf_def)
  note st = stored_law [OF g(1-3), folded k_def]
  have raw: "heap_raw h' = (heap_raw h1)(k \<mapsto> ?enc)"
    if "heap_write_page (of_nat i) (inserted (block h1 i) ?enc) h1 = (Ok (), h')" for h'
    using that st(4) pn by (simp add: heap_write_page_def stored_def)
  obtain cs' w h' where w:
    "sbind (on_mgr (on_wal (wal_append x PageImage (of_nat i) (inserted (block h1 i) ?enc))))
       (\<lambda>_. on_heap (heap_write_page (of_nat i) (inserted (block h1 i) ?enc))) (m, h1) = (Ok (), (m\<lparr>tm_wal := w\<rparr>, h'))"
    "logged base cs' (m\<lparr>tm_wal := w\<rparr>, h')" "room n cs' (m\<lparr>tm_wal := w\<rparr>, h')"
    "heap_abs h' = (heap_abs h)(k \<mapsto> new_version x d)"
    by (rule logged_write [OF inv room g(1,5,4) disk_view_grown [OF wf nr tg g(2)] _ pw new_version_facts(1) raw, where x = x])
      (use g(2) pn in auto)
  let ?m = "m\<lparr>tm_wal := w\<rparr>"
  have "txn_insert_tuple x d (m, h) = (Ok k, (track_write x k ?m, h'))"
  proof -
    have "txn_insert_tuple x d (m, h)
        = sbind (sbind (on_mgr (on_wal (wal_append x PageImage (of_nat i) (inserted (block h1 i) ?enc))))
            (\<lambda>_. on_heap (heap_write_page (of_nat i) (inserted (block h1 i) ?enc))))
            (\<lambda>_. sbind (on_mgr (smod (track_write x k))) (\<lambda>_. sret k)) (m, h1)"
      using prep by (simp add: txn_insert_tuple_def new_version_def Let_def on_heap_def smap_err_def szoom_def sbind_assoc k_def)
    then show ?thesis using w(1) by (simp add: on_mgr_def szoom_def)
  qed
  moreover have "logged base cs' (track_write x k ?m, h')" "room n cs' (track_write x k ?m, h')"
    using w(2,3) logged_mgr [of "track_write x k ?m" ?m] by simp_all
  moreover have "heap_abs h k = None" using st(3) g(4) by (simp add: heap_abs_def)
  ultimately show ?thesis using that w(4) by blast
qed

lemma get_ok: "table_inv h \<Longrightarrow> heap_abs h k = Some u \<Longrightarrow> heap_get_tuple h k = Ok u"
  by (simp add: heap_get_cases table_invD(2))

definition lock_of :: "txn_manager \<Rightarrow> tid \<Rightarrow> xid option" where
  "lock_of m k = map_of (write_locks (tm_locks m)) (page_no k, slot k)"

lemma delete_law:
  assumes inv: "logged base cs (m, h)" and room: "room (Suc n) cs (m, h)" and locks: "locks_inv (tm_locks m)"
    and free: "lock_of m k = None \<or> lock_of m k = Some x" and old: "heap_abs h k = Some u"
  obtains cs' m' h' w l where "txn_delete_tuple x k (m, h) = Some (Ok (), (m', h'))"
    and "m' = track_write x k (m\<lparr>tm_locks := l, tm_wal := w\<rparr>)" and "locks_inv (tm_locks m')" and "lock_of m' k = Some x"
    and "logged base cs' (m', h')" and "room n cs' (m', h')" and "heap_abs h' = (heap_abs h)(k \<mapsto> set_xmax u x)"
    and "\<forall>j. lock_of m' j = (if j = k then Some x else lock_of m j)"
proof -
  have tab: "table_inv h" using inv by (simp add: logged_def)
  define l where "l = (tm_locks m)\<lparr>write_locks := AList.update (page_no k, slot k) x (write_locks (tm_locks m))\<rparr>"
  have acq: "acquire_write_lock x k (tm_locks m) = Some (Ok (), l)"
    using free by (auto simp: acquire_law [OF locks] lock_of_def l_def split: option.splits)
  let ?m = "m\<lparr>tm_locks := l\<rparr>"
  have inv': "logged base cs (?m, h)" and room': "room (Suc n) cs (?m, h)"
    using inv room logged_mgr [of ?m m] by simp_all
  obtain cs' w h' where w: "rewrite_tuple x k (set_xmax u x) (?m, h) = (Ok (), (?m\<lparr>tm_wal := w\<rparr>, h'))"
    "logged base cs' (?m\<lparr>tm_wal := w\<rparr>, h')" "room n cs' (?m\<lparr>tm_wal := w\<rparr>, h')"
    "heap_abs h' = (heap_abs h)(k \<mapsto> set_xmax u x)"
    by (rule rewrite_law [OF inv' room' old, where x = x and t = "set_xmax u x"])
      (use table_invD(3) [OF tab old] in simp_all)
  let ?m' = "track_write x k (?m\<lparr>tm_wal := w\<rparr>)"
  have "txn_delete_tuple x k (m, h) = Some (Ok (), (?m', h'))"
    using acq w(1) get_ok [OF tab old]
    by (simp add: txn_delete_tuple_def on_heap_def on_mgr_def smap_err_def szoom_def)
  moreover have "locks_inv (tm_locks ?m')" using acquire_inv [OF locks acq] by simp
  moreover have "\<forall>j. lock_of ?m' j = (if j = k then Some x else lock_of m j)"
    by (auto simp: lock_of_def l_def update_conv' intro: tid.equality)
  moreover from this have "lock_of ?m' k = Some x" by simp
  moreover have "logged base cs' (?m', h')" "room n cs' (?m', h')"
    using w(2,3) logged_mgr [of ?m' "?m\<lparr>tm_wal := w\<rparr>"] by simp_all
  ultimately show ?thesis using that w(4) by blast
qed

lemma delete_blocked:
  assumes "locks_inv (tm_locks m)" and "lock_of m k = Some y" and "y \<noteq> x"
  shows "txn_delete_tuple x k (m, h) = Some (Err (WriteWriteConflict y), (m, h))"
  using assms by (simp add: txn_delete_tuple_def acquire_law lock_of_def)

lemma update_law:
  assumes inv: "logged base cs (m, h)" and room: "room (Suc (Suc n)) cs (m, h)" and locks: "locks_inv (tm_locks m)"
    and free: "lock_of m k = None \<or> lock_of m k = Some x" and old: "heap_abs h k = Some u" and d: "length d \<le> 8140"
  obtains k' cs' m' h' where "txn_update_tuple x k d (m, h) = Some (Ok k', (m', h'))"
    and "logged base cs' (m', h')" and "room n cs' (m', h')" and "heap_abs h k' = None"
    and "heap_abs h' = (heap_abs h)(k \<mapsto> set_xmax u x, k' \<mapsto> new_version x d)"
    and "locks_inv (tm_locks m')" and "\<forall>j. lock_of m' j = (if j = k then Some x else lock_of m j)"
proof -
  obtain cs1 m1 h1 where 1: "txn_delete_tuple x k (m, h) = Some (Ok (), (m1, h1))" "logged base cs1 (m1, h1)"
    "room (Suc n) cs1 (m1, h1)" "heap_abs h1 = (heap_abs h)(k \<mapsto> set_xmax u x)" "locks_inv (tm_locks m1)"
    "\<forall>j. lock_of m1 j = (if j = k then Some x else lock_of m j)"
    by (rule delete_law [OF inv room locks free old])
  obtain k' cs' m' h' w where 2: "txn_insert_tuple x d (m1, h1) = (Ok k', (m', h'))" "logged base cs' (m', h')"
    "room n cs' (m', h')" "heap_abs h1 k' = None" "heap_abs h' = (heap_abs h1)(k' \<mapsto> new_version x d)"
    "m' = track_write x k' (m1\<lparr>tm_wal := w\<rparr>)"
    by (rule insert_law [OF 1(2,3) d])
  have "txn_update_tuple x k d (m, h) = Some (Ok k', (m', h'))"
    using 1(1) 2(1) by (simp add: txn_update_tuple_def)
  moreover have "tm_locks m' = tm_locks m1" using 2(6) by simp
  then have "locks_inv (tm_locks m')" "\<forall>j. lock_of m' j = (if j = k then Some x else lock_of m j)"
    using 1(5,6) by (simp_all add: lock_of_def)
  moreover have "heap_abs h k' = None" using 1(4) 2(4) by (auto split: if_splits)
  ultimately show ?thesis using that 1(4) 2(2,3,5) by simp
qed

lemma undo_eq:
  assumes "heap_get_tuple h k = Ok u"
  shows "undo_insert x k (m, h) = (if t_xmin (header u) \<noteq> x then (Ok (), (m, h)) else rewrite_tuple x k (set_xmax u x) (m, h))"
    and "undo_delete x k (m, h) = (if t_xmax (header u) \<noteq> x then (Ok (), (m, h)) else rewrite_tuple x k (set_xmax u INVALID_XID) (m, h))"
  using assms by (simp_all add: undo_insert_def undo_delete_def on_heap_def smap_err_def szoom_def)

lemma undo_law:
  assumes inv: "logged base cs (m, h)" and room: "room (Suc n) cs (m, h)" and old: "heap_abs h k = Some u"
  shows "t_xmin (header u) = x \<Longrightarrow> \<exists>cs' w h'. undo_insert x k (m, h) = (Ok (), (m\<lparr>tm_wal := w\<rparr>, h'))
      \<and> logged base cs' (m\<lparr>tm_wal := w\<rparr>, h') \<and> heap_abs h' = (heap_abs h)(k \<mapsto> set_xmax u x)"
    and "t_xmin (header u) \<noteq> x \<Longrightarrow> undo_insert x k (m, h) = (Ok (), (m, h))"
    and "t_xmax (header u) = x \<Longrightarrow> \<exists>cs' w h'. undo_delete x k (m, h) = (Ok (), (m\<lparr>tm_wal := w\<rparr>, h'))
      \<and> logged base cs' (m\<lparr>tm_wal := w\<rparr>, h') \<and> heap_abs h' = (heap_abs h)(k \<mapsto> set_xmax u INVALID_XID)"
    and "t_xmax (header u) \<noteq> x \<Longrightarrow> undo_delete x k (m, h) = (Ok (), (m, h))"
proof -
  have tab: "table_inv h" using inv by (simp add: logged_def)
  note get = get_ok [OF tab old]
  have rw: "\<exists>cs' w h'. rewrite_tuple x k (set_xmax u y) (m, h) = (Ok (), (m\<lparr>tm_wal := w\<rparr>, h'))
      \<and> logged base cs' (m\<lparr>tm_wal := w\<rparr>, h') \<and> heap_abs h' = (heap_abs h)(k \<mapsto> set_xmax u y)" for y
    by (rule rewrite_law [OF inv room old, where x = x and t = "set_xmax u y"])
      (use table_invD(3) [OF tab old] in \<open>simp_all, blast\<close>)
  note un = undo_eq [OF get, of x m]
  show "t_xmin (header u) = x \<Longrightarrow> \<exists>cs' w h'. undo_insert x k (m, h) = (Ok (), (m\<lparr>tm_wal := w\<rparr>, h'))
      \<and> logged base cs' (m\<lparr>tm_wal := w\<rparr>, h') \<and> heap_abs h' = (heap_abs h)(k \<mapsto> set_xmax u x)"
    using rw [of x] un(1) by simp
  show "t_xmin (header u) \<noteq> x \<Longrightarrow> undo_insert x k (m, h) = (Ok (), (m, h))" using un(1) by simp
  show "t_xmax (header u) = x \<Longrightarrow> \<exists>cs' w h'. undo_delete x k (m, h) = (Ok (), (m\<lparr>tm_wal := w\<rparr>, h'))
      \<and> logged base cs' (m\<lparr>tm_wal := w\<rparr>, h') \<and> heap_abs h' = (heap_abs h)(k \<mapsto> set_xmax u INVALID_XID)"
    using rw [of INVALID_XID] un(2) by simp
  show "t_xmax (header u) \<noteq> x \<Longrightarrow> undo_delete x k (m, h) = (Ok (), (m, h))" using un(2) by simp
qed

section \<open>Scans\<close>

text \<open>
  A scan picks the tuples whose header satisfies a condition; scans of transactions ask for visibility, scans of
  the catalog for tuples nobody deleted.
\<close>

definition pick_slot :: "(tuple_header \<Rightarrow> bool) \<Rightarrow> u32 \<Rightarrow> page \<Rightarrow> nat \<Rightarrow> (tid \<times> tuple) option" where
  "pick_slot P pn page i =
     (case page_get_tuple page (of_nat i) of
        Ok bytes \<Rightarrow> (case Tuple_decode bytes of
          Ok tup \<Rightarrow> if P (header tup) then Some (TID_new pn (of_nat i), tup) else None
        | _ \<Rightarrow> None)
      | _ \<Rightarrow> None)"

definition pick_page :: "(tuple_header \<Rightarrow> bool) \<Rightarrow> u32 \<Rightarrow> page \<Rightarrow> (tid \<times> tuple) list" where
  "pick_page P pn page = List.map_filter (pick_slot P pn page) [0..<unat (num_slots page)]"

primrec pick_pages :: "(tuple_header \<Rightarrow> bool) \<Rightarrow> heap \<Rightarrow> nat list \<Rightarrow> (heap_error, (tid \<times> tuple) list) outcome" where
  "pick_pages P h [] = Ok []"
| "pick_pages P h (i # is) =
     obind (heap_read_page h (of_nat i)) (\<lambda>page.
     obind (pick_pages P h is) (\<lambda>rest.
     Ok (pick_page P (of_nat i) page @ rest)))"

lemma scan_slot_pick: "scan_slot x s c pn p i = pick_slot (version_visible x s c) pn p i"
  by (auto simp: scan_slot_def pick_slot_def Tuple_decode_def decode_from_def Let_def split: outcome.splits)

lemma scan_pages_pick:
  "scan_pages x s c h is = map_err (\<lambda>e. TxnStorage (StorageHeap e)) (pick_pages (version_visible x s c) h is)"
proof (induction "is")
  case (Cons i "is")
  have "scan_page x s c (of_nat i) p = pick_page (version_visible x s c) (of_nat i) p" for p
    by (simp add: scan_page_def pick_page_def scan_slot_pick [abs_def])
  then show ?case
    using Cons by (cases "heap_read_page h (of_nat i)"; cases "pick_pages (version_visible x s c) h is") simp_all
qed simp

lemma pick_slot_iff:
  assumes "page_wf p" and "i < n_slots p"
  shows "pick_slot P pn p i = Some (k, t) \<longleftrightarrow>
    k = TID_new pn (of_nat i) \<and> Option.bind (page_abs p (of_nat i)) decode_opt = Some t \<and> P (header t)"
proof -
  have "unat (of_nat i :: u16) = i" using assms n_slots_num_slots [OF assms(1)] by simp
  then have get: "page_get_tuple p (of_nat i) = (case page_abs p (of_nat i) of None \<Rightarrow> Err (SlotDead (of_nat i)) | Some b \<Rightarrow> Ok b)"
    using page_get_cases [OF assms(1), of "of_nat i"] assms(2) by (simp add: page_abs_def)
  show ?thesis
    by (cases "page_abs p (of_nat i)")
      (auto simp: pick_slot_def get decode_opt_def split: outcome.splits)
qed

lemma set_pick_page:
  assumes wf: "page_wf p"
  shows "(k, t) \<in> set (pick_page P pn p) \<longleftrightarrow>
    page_no k = pn \<and> Option.bind (page_abs p (slot k)) decode_opt = Some t \<and> P (header t)"
proof -
  have "(k, t) \<in> set (pick_page P pn p) \<longleftrightarrow> (\<exists>i < n_slots p. pick_slot P pn p i = Some (k, t))"
    by (auto simp: pick_page_def map_filter_def n_slots_num_slots [OF wf] image_iff)
  also have "\<dots> \<longleftrightarrow> (\<exists>i < n_slots p. k = TID_new pn (of_nat i)
      \<and> Option.bind (page_abs p (of_nat i)) decode_opt = Some t \<and> P (header t))"
    using pick_slot_iff [OF wf] by blast
  also have "\<dots> \<longleftrightarrow> page_no k = pn \<and> Option.bind (page_abs p (slot k)) decode_opt = Some t \<and> P (header t)"
  proof -
    have "unat (slot k) < n_slots p" if "Option.bind (page_abs p (slot k)) decode_opt = Some t"
      using that by (auto simp: page_abs_def bind_eq_Some_conv split: if_splits)
    then show ?thesis by (cases k) (force simp: TID_new_def)
  qed
  finally show ?thesis .
qed

lemma pick_page_distinct:
  assumes wf: "page_wf p"
  shows "distinct (map fst (pick_page P pn p))"
proof -
  have "distinct (map fst (List.map_filter (pick_slot P pn p) is))"
    if "distinct is" "set is \<subseteq> {..<n_slots p}" for "is"
    using that
  proof (induction "is")
    case Nil
    then show ?case by (simp add: map_filter_def)
  next
    case (Cons i js)
    have un: "unat (of_nat j :: u16) = j" if "j < n_slots p" for j
      using that n_slots_num_slots(2) [OF wf] by simp
    have inj: "i = j" if "(of_nat i :: u16) = of_nat j" "j < n_slots p" for j
    proof -
      have "i < n_slots p" using Cons.prems(2) by simp
      from un [OF this] have "i = unat (of_nat i :: u16)" by (rule sym)
      also have "\<dots> = unat (of_nat j :: u16)" unfolding that(1) by (rule refl)
      also have "\<dots> = j" by (rule un [OF that(2)])
      finally show ?thesis .
    qed
    have "fst kt \<notin> fst ` set (List.map_filter (pick_slot P pn p) js)" if "pick_slot P pn p i = Some kt" for kt
    proof
      obtain k t where kt: "kt = (k, t)" by (cases kt)
      assume "fst kt \<in> fst ` set (List.map_filter (pick_slot P pn p) js)"
      then obtain j t' where j: "j \<in> set js" "pick_slot P pn p j = Some (k, t')"
        using kt by (auto simp: map_filter_def)
      then have "j < n_slots p" using Cons.prems by auto
      with j(2) that kt Cons.prems(2) have "(of_nat i :: u16) = of_nat j"
        using pick_slot_iff [OF wf, of i] pick_slot_iff [OF wf, of j] by (auto simp: TID_new_def)
      then show False using inj \<open>j < n_slots p\<close> j(1) Cons.prems(1) by auto
    qed
    then show ?case using Cons by (cases "pick_slot P pn p i") (simp_all add: map_filter_simps)
  qed
  from this [of "[0..<n_slots p]"] show ?thesis
    by (simp add: pick_page_def n_slots_num_slots [OF wf] lessThan_atLeast0)
qed

lemma pick_pages_law:
  assumes wf: "heap_wf h" and "distinct is" and "set is \<subseteq> {..<n_blocks h}"
  shows "\<exists>res. pick_pages P h is = Ok res \<and> distinct (map fst res)
    \<and> (\<forall>k t. (k, t) \<in> set res \<longleftrightarrow> unat (page_no k) \<in> set is \<and> heap_abs h k = Some t \<and> P (header t))"
  using assms(2,3)
proof (induction "is")
  case Nil
  then show ?case by simp
next
  case (Cons i js)
  then obtain rest where rest: "pick_pages P h js = Ok rest" "distinct (map fst rest)"
    "\<And>k t. (k, t) \<in> set rest \<longleftrightarrow> unat (page_no k) \<in> set js \<and> heap_abs h k = Some t \<and> P (header t)"
    by auto
  have i: "i < n_blocks h" "i < 2 ^ 32" using Cons.prems wf by (auto simp: heap_wf_def)
  have pw: "page_wf (block h i)" using wf i by (simp add: heap_wf_def)
  let ?here = "pick_page P (of_nat i) (block h i)"
  have here: "(k, t) \<in> set ?here \<longleftrightarrow> unat (page_no k) = i \<and> heap_abs h k = Some t \<and> P (header t)" for k t
  proof -
    have "page_no k = of_nat i \<longleftrightarrow> unat (page_no k) = i" using i by (auto simp: word_unat_eq_iff)
    then show ?thesis using i by (auto simp: set_pick_page [OF pw] heap_abs_def heap_raw_def)
  qed
  have "fst ` set ?here \<inter> fst ` set rest = {}" using here rest(3) Cons.prems(1) by auto
  then have "distinct (map fst (?here @ rest))" using rest(2) pick_page_distinct [OF pw] by simp
  moreover have "pick_pages P h (i # js) = Ok (?here @ rest)"
    using rest(1) heap_read_nat [OF wf i(1)] by simp
  moreover have "(k, t) \<in> set (?here @ rest) \<longleftrightarrow>
      unat (page_no k) \<in> set (i # js) \<and> heap_abs h k = Some t \<and> P (header t)" for k t
    using here [of k t] rest(3) [of k t] by auto
  ultimately show ?case by blast
qed

lemma scan_law:
  assumes "heap_wf h"
  obtains res where "scan_visible_tuples x h m =
      (Ok res, if is_serializable m x \<and> res \<noteq> [] then track_reads x (map fst res) m else m)"
    and "distinct (map fst res)"
    and "\<forall>k t. (k, t) \<in> set res \<longleftrightarrow>
      heap_abs h k = Some t \<and> version_visible x (current_snapshot m x) (committed m) (header t)"
proof -
  obtain res where res: "scan_pages x (current_snapshot m x) (committed m) h [0..<unat (num_pages h)] = Ok res"
    "distinct (map fst res)"
    "\<And>k t. (k, t) \<in> set res \<longleftrightarrow> unat (page_no k) < n_blocks h \<and> heap_abs h k = Some t
        \<and> version_visible x (current_snapshot m x) (committed m) (header t)"
    using pick_pages_law [OF assms, of "[0..<n_blocks h]" "version_visible x (current_snapshot m x) (committed m)"]
    by (auto simp: unat_num_pages [OF assms] lessThan_atLeast0 scan_pages_pick)
  have "unat (page_no k) < n_blocks h" if "heap_abs h k = Some t" for k t
    using that by (auto simp: heap_abs_def heap_raw_def split: if_splits)
  then show ?thesis using that [of res] res by (auto simp: scan_visible_tuples_def)
qed

lemma take_snapshot_cong:
  assumes "fst ` set (active m') = fst ` set (active m)" and "next_xid m' = next_xid m"
  shows "take_snapshot_inner m' x = take_snapshot_inner m x"
proof -
  let ?o = "\<lambda>n :: txn_manager. filter (\<lambda>y. y \<noteq> x) (map fst (active n))"
  have eq: "set (?o m') = set (?o m)" using assms(1) by auto
  then have "?o m' = [] \<longleftrightarrow> ?o m = []" unfolding set_empty [symmetric] by (rule arg_cong)
  with eq assms show ?thesis by (simp only: take_snapshot_inner_def Let_def set_map)
qed

lemma same_txns_none:
  assumes "same_txns m m'"
  shows "map_of (active m') y = None \<longleftrightarrow> map_of (active m) y = None"
proof -
  have "map_option (\<lambda>t. (tx_isolation t, tx_snapshot t)) (map_of (active m') y)
      = map_option (\<lambda>t. (tx_isolation t, tx_snapshot t)) (map_of (active m) y)"
    using assms by (simp add: same_txns_def)
  then show ?thesis by (cases "map_of (active m') y"; cases "map_of (active m) y") simp_all
qed

lemma same_txns_snapshot:
  assumes "same_txns m m'"
  shows "current_snapshot m' x = current_snapshot m x"
proof -
  have eq: "map_option (\<lambda>t. (tx_isolation t, tx_snapshot t)) (map_of (active m') y)
      = map_option (\<lambda>t. (tx_isolation t, tx_snapshot t)) (map_of (active m) y)" for y
    using assms by (simp add: same_txns_def)
  have "dom (map_of (active m')) = dom (map_of (active m))"
    using same_txns_none [OF assms] by (simp add: dom_def)
  then have "take_snapshot_inner m' x = take_snapshot_inner m x"
    using assms by (intro take_snapshot_cong) (simp_all add: dom_map_of_conv_image_fst same_txns_def)
  then show ?thesis
    using eq [of x] by (cases "map_of (active m) x"; cases "map_of (active m') x") (auto simp: current_snapshot_def split: option.split)
qed

section \<open>Histories\<close>

text \<open>
  Whole operations of any transactions, successful or not, on one table. Rows too long for a page are left
  out: refusing one still grows the file by a page no log record mentions.
\<close>

inductive db_step :: "db \<Rightarrow> db \<Rightarrow> bool" where
  db_insert: "length d \<le> 8140 \<Longrightarrow> txn_insert_tuple x d s = (rt, s') \<Longrightarrow> db_step s s'"
| db_delete: "txn_delete_tuple x k s = Some (r, s') \<Longrightarrow> db_step s s'"
| db_update: "length d \<le> 8140 \<Longrightarrow> txn_update_tuple x k d s = Some (rt, s') \<Longrightarrow> db_step s s'"
| db_undo_insert: "undo_insert x k s = (r, s') \<Longrightarrow> db_step s s'"
| db_undo_delete: "undo_delete x k s = (r, s') \<Longrightarrow> db_step s s'"
| db_begin: "txn_begin lvl m = (x, m') \<Longrightarrow> db_step (m, h) (m', h)"
| db_commit: "txn_commit x m = (r, m') \<Longrightarrow> db_step (m, h) (m', h)"
| db_abort: "txn_abort x m = (r, m') \<Longrightarrow> db_step (m, h) (m', h)"
| db_level: "db_step (m, h) (set_isolation_level x lvl m, h)"
| db_scan: "scan_visible_tuples x h m = (res, m') \<Longrightarrow> db_step (m, h) (m', h)"

definition db_inv :: "heap option \<Rightarrow> nat \<Rightarrow> db \<Rightarrow> bool" where
  "db_inv base n s \<longleftrightarrow> (\<exists>cs. logged base cs s \<and> room n cs s) \<and> locks_inv (tm_locks (fst s))"

lemma db_inv_same:
  assumes "db_inv base n (m, h)" and "tm_wal m' = tm_wal m" and "locks_inv (tm_locks m')"
  shows "db_inv base n (m', h)"
  using assms logged_mgr [of m' m] by (auto simp: db_inv_def)

lemma db_inv_keep:
  "db_inv base n (m, h) \<Longrightarrow> tm_wal m' = tm_wal m \<Longrightarrow> tm_locks m' = tm_locks m \<Longrightarrow> db_inv base n (m', h)"
  using db_inv_same [of base n m h m'] by (simp add: db_inv_def)

lemma db_inv_mono:
  assumes "db_inv base n s" and "k \<le> n"
  shows "db_inv base k s"
proof -
  obtain cs where "logged base cs s" "room n cs s" and l: "locks_inv (tm_locks (fst s))" using assms(1) by (auto simp: db_inv_def)
  moreover from this have "room k cs s" using assms(2) by (simp add: room_def)
  ultimately show ?thesis by (auto simp: db_inv_def)
qed

lemma get_cases:
  assumes "table_inv h"
  obtains u where "heap_get_tuple h k = Ok u" and "heap_abs h k = Some u" | "\<not> is_ok (heap_get_tuple h k)"
  using heap_get_cases [OF table_invD(2) [OF assms]] by (cases "heap_get_tuple h k") auto

lemma delete_inv:
  assumes inv: "db_inv base (Suc n) s" and run: "txn_delete_tuple x k s = Some (r, s')"
  shows "db_inv base n s'"
proof -
  obtain m h where s: "s = (m, h)" by (cases s)
  obtain cs where lg: "logged base cs (m, h)" and rm: "room (Suc n) cs (m, h)" and lk: "locks_inv (tm_locks m)"
    using inv s by (auto simp: db_inv_def)
  have tab: "table_inv h" using lg by (simp add: logged_def)
  have weak: "db_inv base n (m, h)" using db_inv_mono [OF inv] s by simp
  show ?thesis
  proof (cases "lock_of m k = None \<or> lock_of m k = Some x")
    case False
    then obtain y where "lock_of m k = Some y" "y \<noteq> x" by auto
    then show ?thesis using delete_blocked [OF lk] run s weak by fastforce
  next
    case True
    show ?thesis
    proof (rule get_cases [OF tab, of k])
      fix u assume "heap_abs h k = Some u"
      then show ?thesis
        by (rule delete_law [OF lg rm lk True]) (use run s in \<open>auto simp: db_inv_def\<close>)
    next
      assume "\<not> is_ok (heap_get_tuple h k)"
      moreover obtain l where l: "acquire_write_lock x k (tm_locks m) = Some (Ok (), l)"
        using True acquire_law [OF lk, of x k] by (auto simp: lock_of_def split: option.splits)
      ultimately have "s' = (m\<lparr>tm_locks := l\<rparr>, h)"
        using run s by (cases "heap_get_tuple h k") (auto simp: txn_delete_tuple_def on_heap_def smap_err_def szoom_def)
      then show ?thesis using db_inv_same [OF weak, of "m\<lparr>tm_locks := l\<rparr>"] acquire_inv [OF lk l] by simp
    qed
  qed
qed

lemma insert_inv:
  assumes inv: "db_inv base (Suc n) s" and d: "length d \<le> 8140" and run: "txn_insert_tuple x d s = (r, s')"
  shows "db_inv base n s'"
proof -
  obtain m h where s: "s = (m, h)" by (cases s)
  obtain cs where lg: "logged base cs (m, h)" and rm: "room (Suc n) cs (m, h)" and lk: "locks_inv (tm_locks m)"
    using inv s by (auto simp: db_inv_def)
  show ?thesis
    by (rule insert_law [OF lg rm d, where x = x]) (use run s lk in \<open>auto simp: db_inv_def\<close>)
qed

lemma undo_inv:
  assumes inv: "db_inv base (Suc n) s" and run: "undo_insert x k s = (r, s') \<or> undo_delete x k s = (r, s')"
  shows "db_inv base n s'"
proof -
  obtain m h where s: "s = (m, h)" by (cases s)
  obtain cs where lg: "logged base cs (m, h)" and rm: "room (Suc n) cs (m, h)" and lk: "locks_inv (tm_locks m)"
    using inv s by (auto simp: db_inv_def)
  have tab: "table_inv h" using lg by (simp add: logged_def)
  have weak: "db_inv base n (m, h)" using db_inv_mono [OF inv] s by simp
  show ?thesis
  proof (rule get_cases [OF tab, of k])
    fix u assume u: "heap_get_tuple h k = Ok u" "heap_abs h k = Some u"
    consider "s' = (m, h)" | y where "rewrite_tuple x k (set_xmax u y) (m, h) = (r, s')"
      using run s undo_eq [OF u(1), of x m] by (auto split: if_splits)
    then show ?thesis
    proof cases
      case (2 y)
      show ?thesis
        by (rule rewrite_law [OF lg rm u(2), where x = x and t = "set_xmax u y"])
          (use 2 lk table_invD(3) [OF tab u(2)] in \<open>auto simp: db_inv_def\<close>)
    qed (simp add: weak)
  next
    assume "\<not> is_ok (heap_get_tuple h k)"
    then have "s' = (m, h)"
      using run s by (cases "heap_get_tuple h k")
        (auto simp: undo_insert_def undo_delete_def on_heap_def smap_err_def szoom_def)
    then show ?thesis using weak by simp
  qed
qed

text \<open>Records that are no page images move neither the file nor its redo.\<close>

lemma log_outcome:
  assumes inv: "logged base cs (m, h)" and room: "room (Suc n) cs (m, h)" and ty: "ty \<noteq> PageImage"
  obtains cs' w where "append_inner x ty 0 [] (tm_wal m) = (Ok (w_lsn (tm_wal m) + 1), w)"
    and "logged base cs' (m\<lparr>tm_wal := w\<rparr>, h)" and "room n cs' (m\<lparr>tm_wal := w\<rparr>, h)"
proof -
  have log: "wal_inv cs (tm_wal m)" using inv by (simp add: logged_def)
  have small: "37 + length ([] :: byte list) < 2 ^ 32" by simp
  obtain cs' w where a: "append_inner x ty 0 [] (tm_wal m) = (Ok (w_lsn (tm_wal m) + 1), w)" "wal_inv cs' w"
    "log_records cs' = log_records cs @ [appended (tm_wal m) x ty 0 []]"
    "unat (w_segment w) \<le> Suc (unat (w_segment (tm_wal m)))"
    by (rule append_law [OF log roomD(1,2) [OF room] small])
  have "logged base cs' (m\<lparr>tm_wal := w\<rparr>, h)"
    using inv a append_keeps_ctl [OF log a(1)] ty
    by (auto simp: logged_def redo_all_snoc redo_def appended_def image_ok_def)
  moreover have "room n cs' (m\<lparr>tm_wal := w\<rparr>, h)" using room a(3,4) by (auto simp: room_def)
  ultimately show ?thesis using that a(1) by blast
qed

lemma outcome_inv:
  assumes inv: "db_inv base (Suc n) (m, h)"
  shows "txn_commit x m = (r, m') \<Longrightarrow> db_inv base n (m', h)" and "txn_abort x m = (r, m') \<Longrightarrow> db_inv base n (m', h)"
proof -
  obtain cs where lg: "logged base cs (m, h)" and rm: "room (Suc n) cs (m, h)" and lk: "locks_inv (tm_locks m)"
    using inv by (auto simp: db_inv_def)
  have weak: "db_inv base n (m, h)" using db_inv_mono [OF inv] by simp
  show "db_inv base n (m', h)" if run: "txn_commit x m = (r, m')"
  proof (cases "check_active x m = Ok () \<and> check_serializable_conflict x m = Ok ()")
    case True
    obtain cs' w where w: "append_inner x Commit 0 [] (tm_wal m) = (Ok (w_lsn (tm_wal m) + 1), w)"
      "logged base cs' (m\<lparr>tm_wal := w\<rparr>, h)" "room n cs' (m\<lparr>tm_wal := w\<rparr>, h)"
      by (rule log_outcome [OF lg rm, of Commit x]) auto
    obtain w2 where w2: "wal_flush w = (Ok (), w2)" by (simp add: wal_flush_def)
    have "m' = release_locks x (commit_publish x (commit_remove x (m\<lparr>tm_wal := w2\<rparr>)))"
      using run True w(1) w2 by (auto simp: txn_commit_def on_wal_def smap_err_def szoom_def append_and_flush_def)
    moreover have "logged base cs' (m\<lparr>tm_wal := w2\<rparr>, h)" "room n cs' (m\<lparr>tm_wal := w2\<rparr>, h)"
      using w(2,3) w2 by (auto simp: logged_def room_def wal_flush_def wal_inv_def)
    ultimately show ?thesis
      using release_inv [OF lk] logged_mgr [of m' "m\<lparr>tm_wal := w2\<rparr>"]
      by (auto simp: db_inv_def release_locks_def commit_publish_def commit_remove_def)
  next
    case False
    then have "m' = m"
      using run by (cases "check_active x m"; cases "check_serializable_conflict x m") (auto simp: txn_commit_def)
    then show ?thesis using weak by simp
  qed
  show "db_inv base n (m', h)" if run: "txn_abort x m = (r, m')"
  proof (cases "check_active x m = Ok ()")
    case True
    obtain cs' w where w: "append_inner x Abort 0 [] (tm_wal m) = (Ok (w_lsn (tm_wal m) + 1), w)"
      "logged base cs' (m\<lparr>tm_wal := w\<rparr>, h)" "room n cs' (m\<lparr>tm_wal := w\<rparr>, h)"
      by (rule log_outcome [OF lg rm, of Abort x]) auto
    have "m' = release_locks x (m\<lparr>tm_wal := w, active := AList.delete x (active m), aborted := insert x (aborted m)\<rparr>)"
      using run True w(1) by (auto simp: txn_abort_def on_wal_def smap_err_def szoom_def wal_append_def)
    then show ?thesis
      using w(2,3) release_inv [OF lk] logged_mgr [of m' "m\<lparr>tm_wal := w\<rparr>"] by (auto simp: db_inv_def release_locks_def)
  next
    case False
    then have "m' = m" using run by (cases "check_active x m") (auto simp: txn_abort_def)
    then show ?thesis using weak by simp
  qed
qed

lemma db_step_inv:
  assumes "db_step s s'" and "db_inv base (Suc (Suc n)) s"
  shows "db_inv base n s'"
proof -
  have one: "db_inv base (Suc n) s" and none: "db_inv base n s" using db_inv_mono [OF assms(2)] by simp_all
  from assms(1) show ?thesis
  proof cases
    case (db_update d x k rt)
    then obtain r1 s1 where d: "txn_delete_tuple x k s = Some (r1, s1)"
      and i: "sbind (\<lambda>_. (r1, s1)) (\<lambda>_. txn_insert_tuple x d) s = (rt, s')"
      by (auto simp: txn_update_tuple_def split: option.splits)
    have "db_inv base (Suc n) s1" by (rule delete_inv [OF assms(2) d])
    then show ?thesis
      using i insert_inv [OF _ db_update(1)] db_inv_mono [of base "Suc n" s1 n] by (cases r1) (auto simp: sbind_def)
  next
    case (db_begin lvl m x m' h)
    then have "tm_wal m' = tm_wal m" "tm_locks m' = tm_locks m"
      by (auto simp: txn_begin_def begin_alloc_def allocate_xid_def begin_register_def Let_def)
    then show ?thesis using none db_begin db_inv_keep by simp
  next
    case (db_level m h x lvl)
    moreover have "tm_wal (set_isolation_level x lvl m) = tm_wal m" "tm_locks (set_isolation_level x lvl m) = tm_locks m"
      by (auto simp: set_isolation_level_def Let_def split: option.splits)
    ultimately show ?thesis using none db_inv_keep by simp
  next
    case (db_scan x h m res m')
    then have "tm_wal m' = tm_wal m" "tm_locks m' = tm_locks m"
      by (auto simp: scan_visible_tuples_def track_reads_def split: outcome.splits if_splits option.splits)
    then show ?thesis using none db_scan db_inv_keep by simp
  next
    case (db_undo_insert x k r)
    then show ?thesis by (intro undo_inv [OF one, of x k r] disjI1)
  next
    case (db_undo_delete x k r)
    then show ?thesis by (intro undo_inv [OF one, of x k r] disjI2)
  next
    case (db_commit x m r m' h)
    then show ?thesis using one by (auto intro: outcome_inv(1))
  next
    case (db_abort x m r m' h)
    then show ?thesis using one by (auto intro: outcome_inv(2))
  qed (use one delete_inv insert_inv in blast)+
qed

section \<open>Properties\<close>

text \<open>
  \<^bold>\<open>C8.\<close> A scan of a consistent heap file always succeeds and returns exactly the stored versions that
  are visible to the transaction, each once and with its identifier; a serializable transaction's read set
  grows by exactly the identifiers returned.
\<close>

theorem scan_returns_exactly_the_visible:
  assumes "heap_wf h"
  shows "\<exists>res m'. scan_visible_tuples x h m = (Ok res, m') \<and> distinct (map fst res)
    \<and> (\<forall>k t. (k, t) \<in> set res \<longleftrightarrow> heap_get_tuple h k = Ok t
          \<and> version_visible x (current_snapshot m x) (committed m) (header t))
    \<and> committed m' = committed m \<and> current_snapshot m' x = current_snapshot m x
    \<and> (\<forall>u. map_of (active m) x = Some u \<longrightarrow> tx_isolation u = Serializable \<longrightarrow>
          (\<exists>u'. map_of (active m') x = Some u' \<and> write_set u' = write_set u
             \<and> read_set u' = read_set u \<union> (\<lambda>k. (page_no k, slot k)) ` fst ` set res))"
proof -
  obtain res where run: "scan_visible_tuples x h m =
      (Ok res, if is_serializable m x \<and> res \<noteq> [] then track_reads x (map fst res) m else m)"
    and res: "distinct (map fst res)" "\<forall>k t. (k, t) \<in> set res \<longleftrightarrow>
      heap_abs h k = Some t \<and> version_visible x (current_snapshot m x) (committed m) (header t)"
    by (rule scan_law [OF assms(1), of x m])
  let ?m = "if is_serializable m x \<and> res \<noteq> [] then track_reads x (map fst res) m else m"
  have m': "committed ?m = committed m" "\<forall>u. map_of (active m) x = Some u \<longrightarrow> tx_isolation u = Serializable \<longrightarrow>
      (\<exists>u'. map_of (active ?m) x = Some u' \<and> write_set u' = write_set u
         \<and> read_set u' = read_set u \<union> (\<lambda>k. (page_no k, slot k)) ` fst ` set res)"
    by (auto simp: track_reads_def is_serializable_def update_conv' split: option.splits)
  have "current_snapshot ?m x = current_snapshot m x"
    using same_txns_snapshot [OF scan_quiet [OF run]] by simp
  then show ?thesis using run res m' by (auto simp: heap_get_cases [OF assms(1)])
qed

text \<open>
  \<^bold>\<open>C1.\<close> Redo. Starting from a table whose log reproduces it from an older copy of the file, run any
  operations of any transactions: begin, insert, delete, update, undo, scan, change of level, commit and abort on one
  heap file, with rows of at most 8140 bytes, without checkpoints and VACUUM. Then crash, losing every page write since that copy: replaying the log
  on the copy always succeeds and gives the file, byte for byte, as the operations left it.
\<close>

theorem log_reproduces_the_table:
  assumes "db_inv (Some base) (2 * n) s" and "(db_step ^^ n) s s'"
  shows "\<exists>l. recover (w_dir (tm_wal (fst s'))) base = (Ok l, snd s') \<and> table_inv (snd s')"
proof -
  have inv: "db_inv (Some base) 0 s'"
    using assms
  proof (induction n arbitrary: s)
    case 0
    then show ?case by simp
  next
    case (Suc n)
    then obtain s1 where s1: "db_step s s1" "(db_step ^^ n) s1 s'" by (metis relpowp_Suc_E2)
    have "db_inv (Some base) (2 * n) s1" by (rule db_step_inv [OF s1(1)]) (use Suc.prems(1) in simp)
    then show ?case using Suc.IH s1(2) by blast
  qed
  then obtain cs where lg: "logged (Some base) cs s'" by (auto simp: db_inv_def)
  then have log: "wal_inv cs (tm_wal (fst s'))" and tab: "table_inv (snd s')" and base: "heap_wf base"
    and ck: "read_checkpoint_lsn (w_dir (tm_wal (fst s'))) = Ok INVALID_LSN"
    and imgs: "\<forall>rec \<in> set (log_records cs). image_ok rec"
    and view: "disk_view (snd s') = redo_all (log_records cs) (disk_view base)"
    by (auto simp: logged_def)
  have "holds_log (w_dir (tm_wal (fst s'))) cs" "ascending (log_records cs)"
    using log numbered_ascending by (auto simp: wal_inv_def)
  from recover_law [OF this base ck imgs] obtain l h' where
    "recover (w_dir (tm_wal (fst s'))) base = (Ok l, h')" "heap_wf h'"
    "disk_view h' = redo_all (log_records cs) (disk_view base)"
    by auto
  moreover from this have "h' = snd s'" using heap_wf_ext [of h' "snd s'"] table_invD(2) [OF tab] view by simp
  ultimately show ?thesis using tab by auto
qed

lemma fresh_db:
  obtains w where "WalWriter_open [] (\<lambda>_. 0) = Ok w" and "wal_inv [(1, [], [])] w" and "w_segment w = 1"
    and "db_inv (Some []) 1000 (TransactionManager_new w 3, [])"
proof -
  obtain w where w: "WalWriter_open [] (\<lambda>_. 0) = Ok w" "wal_inv [(1, [], [])] w" "w_segment w = 1"
    by (rule fresh_writer)
  have "segment_filename 1 \<noteq> CHECKPOINT_CTL" using ctl_not_segment by (metis option.distinct(1) seg_number_name)
  moreover have "w_dir w = [(segment_filename 1, [])]"
    using w(1) by (auto simp: WalWriter_open_def list_segments_def map_filter_def dir_create_def Let_def)
  ultimately have "read_checkpoint_lsn (w_dir w) = Ok INVALID_LSN" by (simp add: read_checkpoint_lsn_def)
  moreover have "heap_wf []" "table_inv []" using heap_inv_Nil by (simp_all add: table_inv_def heap_inv_def heap_abs_def heap_raw_def)
  ultimately have "logged (Some []) [(1, [], [])] (TransactionManager_new w 3, [])"
    using w(2) by (auto simp: logged_def TransactionManager_new_def chunk_records_def redo_all_def fun_eq_iff split: option.split)
  moreover have "room 1000 [(1, [], [])] (TransactionManager_new w 3, [])"
    using w(3) by (simp add: room_def TransactionManager_new_def chunk_records_def)
  ultimately have "db_inv (Some []) 1000 (TransactionManager_new w 3, [])"
    by (auto simp: db_inv_def TransactionManager_new_def LockManager_new_def locks_inv_def)
  with that w show ?thesis by blast
qed

text \<open>One transaction, one row.\<close>

lemma one_stored_row:
  assumes "length d \<le> 8140"
  obtains w s1 s2 k where "db_inv (Some []) 998 s1" and "fst s1 = snd (txn_begin ReadCommitted (TransactionManager_new w 3))"
    and "txn_insert_tuple 3 d s1 = (Ok k, s2)" and "snd s1 = []" and "heap_abs (snd s2) = [k \<mapsto> new_version 3 d]"
    and "db_inv (Some []) 1000 (TransactionManager_new w 3, [])" and "db_step (TransactionManager_new w 3, []) s1" and "db_step s1 s2"
    and "db_inv (Some []) 996 s2" and "tm_locks (fst s2) = LockManager_new" and "committed (fst s2) = {}"
    and "next_xid (fst s2) = 4" and "map_of (active (fst s2)) 9 = None"
proof -
  obtain w where w: "db_inv (Some []) 1000 (TransactionManager_new w 3, [])" by (rule fresh_db) blast
  obtain x m1 where b: "txn_begin ReadCommitted (TransactionManager_new w 3) = (x, m1)"
    by (cases "txn_begin ReadCommitted (TransactionManager_new w 3)")
  have st: "db_step (TransactionManager_new w 3, []) (m1, [])" by (rule db_begin [OF b])
  have i1: "db_inv (Some []) 998 (m1, [])" by (rule db_step_inv [OF st]) (use w in \<open>simp add: eval_nat_numeral\<close>)
  then obtain cs where cs: "logged (Some []) cs (m1, [])" "room (Suc 0) cs (m1, [])"
    using db_inv_mono [OF i1, of "Suc 0"] by (auto simp: db_inv_def)
  obtain k cs' m2 h2 w2 where ins: "txn_insert_tuple 3 d (m1, []) = (Ok k, (m2, h2))"
    "m2 = track_write 3 k (m1\<lparr>tm_wal := w2\<rparr>)" "heap_abs h2 = (heap_abs [])(k \<mapsto> new_version 3 d)"
    by (rule insert_law [OF cs assms, of 3]) auto
  have st2: "db_step (m1, []) (m2, h2)" by (rule db_insert [OF assms ins(1)])
  have i2: "db_inv (Some []) 996 (m2, h2)" by (rule db_step_inv [OF st2]) (use i1 in \<open>simp add: eval_nat_numeral\<close>)
  have m1: "tm_locks m1 = LockManager_new" "committed m1 = {}" "next_xid m1 = 4" "map_of (active m1) 9 = None"
    using b by (auto simp: txn_begin_def begin_alloc_def allocate_xid_def begin_register_def TransactionManager_new_def Let_def)
  have same: "same_txns m1 m2" using quietD [OF quiet_ops(1) ins(1)] by simp
  then have "committed m2 = {}" "next_xid m2 = 4" using m1 by (simp_all add: same_txns_def)
  moreover have "map_of (active m2) 9 = None" using same_txns_none [OF same] m1(4) by simp
  moreover have "tm_locks m2 = LockManager_new" using ins(2) m1(1) by simp
  moreover have "heap_abs [] = Map.empty" by (simp add: heap_abs_def heap_raw_def fun_eq_iff)
  ultimately show ?thesis using that [of "(m1, [])" w k "(m2, h2)"] i1 i2 b ins w st st2 by simp
qed

lemma one_row:
  obtains w s1 s2 k where "db_inv (Some []) 998 s1" and "fst s1 = snd (txn_begin ReadCommitted (TransactionManager_new w 3))"
    and "txn_insert_tuple 3 [7] s1 = (Ok k, s2)" and "snd s1 = []" and "heap_abs (snd s2) k = Some (new_version 3 [7])"
    and "db_inv (Some []) 1000 (TransactionManager_new w 3, [])" and "db_step (TransactionManager_new w 3, []) s1" and "db_step s1 s2"
    and "db_inv (Some []) 996 s2" and "tm_locks (fst s2) = LockManager_new" and "committed (fst s2) = {}"
    and "next_xid (fst s2) = 4" and "map_of (active (fst s2)) 9 = None"
  by (rule one_stored_row [of "[7]"]) (use that in auto)

theorem log_reproduces_the_table_witness:
  "\<exists>w s k l. (db_step ^^ 2) (TransactionManager_new w 3, []) s \<and> heap_abs (snd s) k = Some (new_version 3 [7])
     \<and> recover (w_dir (tm_wal (fst s))) [] = (Ok l, snd s)"
proof (rule one_row)
  fix w s1 s2 k
  assume h: "heap_abs (snd s2) k = Some (new_version 3 [7])" "db_inv (Some []) 1000 (TransactionManager_new w 3, [])"
    "db_step (TransactionManager_new w 3, []) s1" "db_step s1 s2"
  have steps: "(db_step ^^ 2) (TransactionManager_new w 3, []) s2"
    using h(3,4) by (cases s1) (auto simp: numeral_2_eq_2 relcompp_apply)
  have "db_inv (Some []) (2 * 2) (TransactionManager_new w 3, [])" using db_inv_mono [OF h(2)] by simp
  from log_reproduces_the_table [OF this steps] steps h(1) show ?thesis by blast
qed

text \<open>The rows a transaction sees, as its scan returns them.\<close>

definition rows :: "xid \<Rightarrow> db \<Rightarrow> (tid \<times> tuple) set" where
  "rows x s = (case fst (scan_visible_tuples x (snd s) (fst s)) of Ok res \<Rightarrow> set res | _ \<Rightarrow> {})"

lemma rows_iff:
  assumes "heap_wf h"
  shows "(k, t) \<in> rows x (m, h) \<longleftrightarrow>
    heap_abs h k = Some t \<and> version_visible x (current_snapshot m x) (committed m) (header t)"
  by (rule scan_law [OF assms, of x m]) (simp add: rows_def)

lemma logged_wf: "logged base cs (m, h) \<Longrightarrow> heap_wf h"
  by (simp add: logged_def table_inv_def heap_inv_def)

lemma same_txns_visible:
  assumes "same_txns m m'"
  shows "version_visible x (current_snapshot m' x) (committed m') vh
    = version_visible x (current_snapshot m x) (committed m) vh"
  using assms same_txns_snapshot [OF assms] by (simp add: same_txns_def)

text \<open>
  \<^bold>\<open>C3.\<close> Updating a row that nobody has deleted and whose write lock is free always succeeds. The
  transaction itself then sees the new version in place of the old one, and otherwise what it saw before;
  every other transaction, whatever its isolation level, sees exactly the rows it saw before, the old
  version now carrying the updater's mark.
\<close>

theorem update_is_atomic_and_private:
  assumes "logged base cs (m, h)" and "room 2 cs (m, h)" and "locks_inv (tm_locks m)"
    and "lock_of m k = None \<or> lock_of m k = Some x" and "length d \<le> 8140"
    and "heap_abs h k = Some u" and "t_xmax (header u) = INVALID_XID"
    and "x \<notin> committed m" and "x \<noteq> INVALID_XID"
  shows "\<exists>k' s'. txn_update_tuple x k d (m, h) = Some (Ok k', s') \<and> heap_abs h k' = None
    \<and> rows x s' = insert (k', new_version x d) (rows x (m, h) - {(k, u)})
    \<and> (\<forall>y. y \<noteq> x \<longrightarrow> y \<noteq> INVALID_XID \<longrightarrow>
          rows y s' = (\<lambda>(j, t). (j, if j = k then set_xmax t x else t)) ` rows y (m, h))"
proof -
  have room: "room (Suc (Suc 0)) cs (m, h)" using assms(2) by (simp add: numeral_2_eq_2)
  obtain k' cs' m' h' where r: "txn_update_tuple x k d (m, h) = Some (Ok k', (m', h'))"
    "logged base cs' (m', h')" "heap_abs h k' = None"
    "heap_abs h' = (heap_abs h)(k \<mapsto> set_xmax u x, k' \<mapsto> new_version x d)"
    by (rule update_law [OF assms(1) room assms(3,4,6,5)])
  have "same_txns m m'" using update_quiet [OF r(1)] by simp
  note vis = same_txns_visible [OF this]
  have neq: "k' \<noteq> k" using r(3) assms(6) by auto
  note it = rows_iff [OF logged_wf [OF r(2)]] rows_iff [OF logged_wf [OF assms(1)]]
  have own: "version_visible x s c (header (new_version x d))" "\<not> version_visible x s c (header (set_xmax u x))" for s c
    using assms(9) by (simp_all add: version_visible_def new_version_def)
  have changed: "set_xmax u x \<noteq> u"
  proof
    assume "set_xmax u x = u"
    then have "t_xmax (header (set_xmax u x)) = t_xmax (header u)" by simp
    then show False using assms(7,9) by simp
  qed
  have "(j, t) \<in> rows x (m', h') \<longleftrightarrow> (j, t) \<in> insert (k', new_version x d) (rows x (m, h) - {(k, u)})" for j t
    using own neq r(3) assms(6) changed by (auto simp: it r(4) vis)
  then have mine: "rows x (m', h') = insert (k', new_version x d) (rows x (m, h) - {(k, u)})" by auto
  have theirs: "rows y (m', h') = (\<lambda>(j, t). (j, if j = k then set_xmax t x else t)) ` rows y (m, h)" (is "_ = ?f ` _")
    if y: "y \<noteq> x" "y \<noteq> INVALID_XID" for y
  proof -
    let ?v = "version_visible y (current_snapshot m y) (committed m)"
    have old: "?v (header (set_xmax u x)) \<longleftrightarrow> ?v (header u)"
      using y assms(7,8) by (auto simp: version_visible_def is_tuple_visible_def)
    have new: "\<not> ?v (header (new_version x d))"
      using y assms(8) by (auto simp: version_visible_def is_tuple_visible_def new_version_def)
    have mem: "(j, t) \<in> rows y (m', h') \<longleftrightarrow>
        (if j = k then t = set_xmax u x \<and> (k, u) \<in> rows y (m, h) else (j, t) \<in> rows y (m, h))" for j t
      using neq r(3) assms(6) old new by (auto simp: it r(4) vis)
    have only: "t = u" if "(k, t) \<in> rows y (m, h)" for t using that it(2) assms(6) by simp
    have "(j, t) \<in> rows y (m', h') \<longleftrightarrow> (j, t) \<in> ?f ` rows y (m, h)" for j t
      unfolding in_image_snd mem using only by (cases "j = k") metis+
    then show ?thesis unfolding set_eq_iff split_paired_All by blast
  qed
  show ?thesis using r(1,3) mine theirs by blast
qed

theorem update_is_atomic_and_private_witness:
  "\<exists>s k k' s'. (k, new_version 3 [7]) \<in> rows 3 s \<and> txn_update_tuple 3 k [8] s = Some (Ok k', s')
     \<and> (k', new_version 3 [8]) \<in> rows 3 s' \<and> k \<noteq> k'"
proof (rule one_row)
  fix w s1 s2 k
  assume a: "heap_abs (snd s2) k = Some (new_version 3 [7])" "db_inv (Some []) 996 s2"
    "tm_locks (fst s2) = LockManager_new" "committed (fst s2) = {}"
  obtain m h where s2: "s2 = (m, h)" by (cases s2)
  obtain cs where cs: "logged (Some []) cs (m, h)" "room 2 cs (m, h)" "locks_inv (tm_locks m)"
    using db_inv_mono [OF a(2), of 2] s2 by (auto simp: db_inv_def)
  have free: "lock_of m k = None \<or> lock_of m k = Some 3" using a(3) s2 by (simp add: lock_of_def LockManager_new_def)
  have hk: "heap_abs h k = Some (new_version 3 [7])" using a(1) s2 by simp
  have ver: "t_xmax (header (new_version 3 [7])) = 0" by (simp add: new_version_def)
  have small: "length [8 :: byte] \<le> 8140" and nc: "3 \<notin> committed m" using a(4) s2 by simp_all
  obtain k' s' where u: "txn_update_tuple 3 k [8] (m, h) = Some (Ok k', s')" "heap_abs h k' = None"
    "rows 3 s' = insert (k', new_version 3 [8]) (rows 3 (m, h) - {(k, new_version 3 [7])})"
    using update_is_atomic_and_private [OF cs free small hk ver nc] by auto
  have "(k, new_version 3 [7]) \<in> rows 3 (m, h)"
    by (simp add: rows_iff [OF logged_wf [OF cs(1)]] hk version_visible_def new_version_def)
  moreover have "k \<noteq> k'" using u(2) hk by auto
  ultimately show ?thesis using u by blast
qed

theorem scan_returns_exactly_the_visible_witness:
  "\<exists>h m k res m'. heap_get_tuple h k = Ok (new_version 3 [7]) \<and> scan_visible_tuples 3 h m = (Ok res, m')
     \<and> (k, new_version 3 [7]) \<in> set res"
proof (rule one_row)
  fix w s1 s2 k
  assume a: "heap_abs (snd s2) k = Some (new_version 3 [7])" "db_inv (Some []) 996 s2"
  obtain m h where s2: "s2 = (m, h)" by (cases s2)
  have wf: "heap_wf h" using a(2) s2 logged_wf by (auto simp: db_inv_def)
  then have get: "heap_get_tuple h k = Ok (new_version 3 [7])" using heap_get_cases a(1) s2 by simp
  have "version_visible 3 (current_snapshot m 3) (committed m) (header (new_version 3 [7]))"
    by (simp add: version_visible_def new_version_def)
  with scan_returns_exactly_the_visible [OF wf, of 3 m] get show ?thesis by blast
qed

text \<open>
  \<^bold>\<open>C39.\<close> Finding. \<open>delete_tuple\<close> looks at the lock and not at the version: a row whose deletion is committed
  can be deleted again, and the second deletion overwrites the mark of the first. While the second
  transaction is open (and for good if it aborts) the row is back for everyone who had seen it go.
\<close>

theorem second_delete_resurrects:
  assumes "logged base cs (m, h)" and "room 1 cs (m, h)" and "locks_inv (tm_locks m)"
    and "lock_of m k = None" and "heap_abs h k = Some u"
    and "t_xmin (header u) \<in> committed m" and "xid_is_visible (current_snapshot m y) (t_xmin (header u))"
    and "t_xmax (header u) \<in> committed m" and "xid_is_visible (current_snapshot m y) (t_xmax (header u))"
    and "x \<notin> committed m" and "y \<notin> committed m" and "x \<noteq> y" and "y \<noteq> INVALID_XID"
  shows "k \<notin> fst ` rows y (m, h)
    \<and> (\<exists>s'. txn_delete_tuple x k (m, h) = Some (Ok (), s') \<and> (k, set_xmax u x) \<in> rows y s')"
proof -
  have room: "room (Suc 0) cs (m, h)" using assms(2) by simp
  obtain cs' m' h' where r: "txn_delete_tuple x k (m, h) = Some (Ok (), (m', h'))" "logged base cs' (m', h')"
    "heap_abs h' = (heap_abs h)(k \<mapsto> set_xmax u x)"
    by (rule delete_law [OF assms(1) room assms(3) _ assms(5)]) (use assms(4) in auto)
  have "same_txns m m'" using delete_quiet [OF r(1)] by simp
  note vis = same_txns_visible [OF this]
  have own: "t_xmin (header u) \<noteq> y" "t_xmax (header u) \<noteq> y" using assms(6,8,11) by auto
  have "t_xmax (header u) \<noteq> INVALID_XID" using assms(9) by (auto simp: xid_is_visible_def)
  then have "\<not> version_visible y (current_snapshot m y) (committed m) (header u)"
    using own assms(6-9) by (simp add: version_visible_def is_tuple_visible_def)
  then have "k \<notin> fst ` rows y (m, h)"
    using assms(5) rows_iff [OF logged_wf [OF assms(1)]] by force
  moreover have "version_visible y (current_snapshot m y) (committed m) (header (set_xmax u x))"
    using own assms(6,7,10,12) by (simp add: version_visible_def is_tuple_visible_def)
  then have "(k, set_xmax u x) \<in> rows y (m', h')"
    using rows_iff [OF logged_wf [OF r(2)], of k _ y m'] vis r(3) by simp
  ultimately show ?thesis using r(1) by blast
qed

theorem second_delete_resurrects_witness:
  "\<exists>s k s' t. k \<notin> fst ` rows 9 s \<and> txn_delete_tuple 8 k s = Some (Ok (), s') \<and> (k, t) \<in> rows 9 s'"
proof (rule one_row)
  fix w s1 s2 k
  assume a: "heap_abs (snd s2) k = Some (new_version 3 [7])" "db_inv (Some []) 996 s2"
    "tm_locks (fst s2) = LockManager_new" "next_xid (fst s2) = 4" "map_of (active (fst s2)) 9 = None"
    "committed (fst s2) = {}"
  obtain m h where s2: "s2 = (m, h)" by (cases s2)
  obtain cs where cs: "logged (Some []) cs (m, h)" "room (Suc (Suc 0)) cs (m, h)" "locks_inv (tm_locks m)"
    using db_inv_mono [OF a(2), of "Suc (Suc 0)"] s2 by (auto simp: db_inv_def)
  have free: "lock_of m k = None \<or> lock_of m k = Some 3" using a(3) s2 by (simp add: lock_of_def LockManager_new_def)
  obtain cs' m1 h1 where d: "txn_delete_tuple 3 k (m, h) = Some (Ok (), (m1, h1))" "locks_inv (tm_locks m1)"
    "lock_of m1 k = Some 3" "logged (Some []) cs' (m1, h1)" "room (Suc 0) cs' (m1, h1)"
    "heap_abs h1 = (heap_abs h)(k \<mapsto> set_xmax (new_version 3 [7]) 3)"
    by (rule delete_law [OF cs(1-3) free]) (use a(1) s2 in auto)
  have same: "same_txns m m1" using delete_quiet [OF d(1)] by simp
  define m2 where "m2 = release_locks 3 (commit_publish 3 (commit_remove 3 m1))"
  let ?u = "set_xmax (new_version 3 [7]) 3"
  have lg: "logged (Some []) cs' (m2, h1)" "room 1 cs' (m2, h1)"
    using d(4,5) logged_mgr [of m2 m1] by (simp_all add: m2_def release_locks_def commit_publish_def commit_remove_def)
  have lk: "locks_inv (tm_locks m2)" "lock_of m2 k = None"
    using release_inv [OF d(2)] release_law [OF d(2)] d(3) by (simp_all add: m2_def release_locks_def lock_of_def commit_publish_def commit_remove_def)
  have c2: "committed m2 = {3}" "map_of (active m2) 9 = None"
    using same_txns_none [OF same] same a(5,6) s2
    by (simp_all add: m2_def release_locks_def commit_publish_def commit_remove_def same_txns_def delete_conv')
  have "xid_is_visible (take_snapshot_inner m2 9) 3"
    by (rule taken_sees) (use same a(4) s2 in \<open>auto simp: same_txns_def m2_def release_locks_def commit_publish_def
        commit_remove_def AList.delete_eq\<close>)
  then have vis: "xid_is_visible (current_snapshot m2 9) 3" using c2 by (simp add: current_snapshot_def)
  have u: "heap_abs h1 k = Some ?u" "t_xmin (header ?u) = 3" "t_xmax (header ?u) = 3" using d(6) by (simp_all add: new_version_def)
  have "k \<notin> fst ` rows 9 (m2, h1)
      \<and> (\<exists>s'. txn_delete_tuple 8 k (m2, h1) = Some (Ok (), s') \<and> (k, set_xmax ?u 8) \<in> rows 9 s')"
    by (rule second_delete_resurrects [OF lg lk u(1)]) (use u vis c2 in simp_all)
  then show ?thesis by blast
qed

end
