(* ===== verification/Sql_Index.thy ===== *)
theory Sql_Index
  imports Sql_Algebra Sql_Row BTree_Client Txn_Heap
begin

text \<open>
  Tables and their indexes: \<^verbatim>\<open>exec_table_scan\<close>, \<^verbatim>\<open>maintain_indexes_on_insert\<close>, \<^verbatim>\<open>exec_create_index\<close>
  and \<^verbatim>\<open>exec_index_scan\<close> of \<^verbatim>\<open>sql/src/executor.rs\<close>, over the transaction manager, the heap and the B+
  tree. An index is its opened tree: opening a file again gives the same entries. A call that does not return is \<open>None\<close>.
\<close>

section \<open>Operations\<close>

definition exec_table_scan ::
  "'p eval_env \<Rightarrow> array_codec \<Rightarrow> xid \<Rightarrow> heap \<Rightarrow> rstring \<Rightarrow> rstring option \<Rightarrow> table_schema \<Rightarrow> 'p expr option
    \<Rightarrow> (txn_manager, sql_error, row list) sop" where
  "exec_table_scan E J x h table_name alias schema filter_expr m =
     (if table_name = lit ''__dual__'' then (Ok [\<lparr>row_values = [], row_schema = []\<rparr>], m)
      else case scan_visible_tuples x h m of (r, m') \<Rightarrow>
        (obind (map_err SqlTxn r) (\<lambda>visible.
         obind (omap (\<lambda>(t, tuple). obind (payload_row J (tdata tuple) schema) (\<lambda>row. Ok (qualify_row_schema row alias))) visible) (\<lambda>rows.
         case filter_expr of Some pred \<Rightarrow> exec_filter E rows pred | None \<Rightarrow> Ok rows)), m'))"

text \<open>The first column of an index on several.\<close>

definition leading_col :: "rstring \<Rightarrow> rstring" where
  "leading_col spec = trim (takeWhile (\<lambda>b. b \<noteq> 44) spec)"

text \<open>An insertion whose result is ignored.\<close>

definition index_add :: "xid \<Rightarrow> key \<Rightarrow> tid \<Rightarrow> btree \<Rightarrow> btree option" where
  "index_add x key t s =
     (case bt_insert x key t s of Some (Ok _, s') \<Rightarrow> Some s' | Some (Err _, s') \<Rightarrow> Some s' | _ \<Rightarrow> None)"

definition index_row :: "float_lib \<Rightarrow> xid \<Rightarrow> row \<Rightarrow> nat \<Rightarrow> tid \<Rightarrow> btree \<Rightarrow> btree option" where
  "index_row F x r i t s =
     (case row_get_by_idx r i of
        Some v \<Rightarrow> if v = VNull then Some s else index_add x (encode_sort_key F v) t s
      | None \<Rightarrow> Some s)"

primrec maintain_indexes_on_insert ::
  "float_lib \<Rightarrow> xid \<Rightarrow> u32 \<Rightarrow> table_schema \<Rightarrow> row \<Rightarrow> tid \<Rightarrow> (u32 \<times> rstring \<times> btree) list \<Rightarrow> (u32 \<times> rstring \<times> btree) list option" where
  "maintain_indexes_on_insert F x table_oid schema r t [] = Some []"
| "maintain_indexes_on_insert F x table_oid schema r t (ix # ixs) =
     (case ix of (oid, spec, s) \<Rightarrow>
      case (if oid \<noteq> table_oid then Some s
            else case position (\<lambda>c. col_name c = leading_col spec) (columns schema) of
              None \<Rightarrow> Some s | Some i \<Rightarrow> index_row F x r i t s) of
        None \<Rightarrow> None
      | Some s' \<Rightarrow> map_option (\<lambda>rest. (oid, spec, s') # rest) (maintain_indexes_on_insert F x table_oid schema r t ixs))"

primrec build_index ::
  "float_lib \<Rightarrow> array_codec \<Rightarrow> xid \<Rightarrow> table_schema \<Rightarrow> nat \<Rightarrow> (tid \<times> tuple) list \<Rightarrow> (btree, sql_error, unit) lop" where
  "build_index F J x schema i [] s = Some (Ok (), s)"
| "build_index F J x schema i (v # visible) s =
     (case payload_row J (tdata (snd v)) schema of
        Ok r \<Rightarrow> (case index_row F x r i (fst v) s of None \<Rightarrow> None | Some s' \<Rightarrow> build_index F J x schema i visible s')
      | Err e \<Rightarrow> Some (Err e, s)
      | Panic \<Rightarrow> Some (Panic, s))"

text \<open>\<open>s\<close> is the tree opened at the path the catalog gives the new entry.\<close>

definition exec_create_index ::
  "float_lib \<Rightarrow> array_codec \<Rightarrow> xid \<Rightarrow> heap \<Rightarrow> table_schema \<Rightarrow> rstring \<Rightarrow> txn_manager \<Rightarrow> btree
    \<Rightarrow> ((sql_error, unit) outcome \<times> txn_manager \<times> btree) option" where
  "exec_create_index F J x h schema spec m s =
     (case column_by_name schema (leading_col spec) of
        None \<Rightarrow> Some (Err (SqlColumnNotFound (leading_col spec)), m, s)
      | Some c \<Rightarrow>
          (case scan_visible_tuples x h m of
             (Ok visible, m') \<Rightarrow> map_option (\<lambda>(r, s'). (r, m', s')) (build_index F J x schema (unat (col_attnum c) - 1) visible s)
           | (Err e, m') \<Rightarrow> Some (Err (SqlTxn e), m', s)
           | (Panic, m') \<Rightarrow> Some (Panic, m', s)))"

text \<open>The visibility test of an index scan.\<close>

definition index_visible :: "txn_manager \<Rightarrow> xid \<Rightarrow> tuple_header \<Rightarrow> bool" where
  "index_visible m x h =
     (if t_xmin h = x then t_xmax h \<noteq> x
      else is_committed m (t_xmin h) \<and> (t_xmax h = 0 \<or> \<not> is_committed m (t_xmax h)))"

definition index_tids :: "float_lib \<Rightarrow> val option \<Rightarrow> val option \<Rightarrow> val option \<Rightarrow> btree \<Rightarrow> (sql_error, tid list) outcome option" where
  "index_tids F eq_value range_start range_end s =
     map_option (\<lambda>r. map_err (\<lambda>_. Execution) (obind r (\<lambda>es. Ok (map snd es))))
       (case eq_value of
          Some v \<Rightarrow> range_scan (Some (encode_sort_key F v)) (Some (encode_sort_key F v)) s
        | None \<Rightarrow> range_scan (map_option (encode_sort_key F) range_start) (map_option (encode_sort_key F) range_end) s)"

definition index_fetch ::
  "'p eval_env \<Rightarrow> array_codec \<Rightarrow> txn_manager \<Rightarrow> xid \<Rightarrow> heap \<Rightarrow> table_schema \<Rightarrow> 'p expr option \<Rightarrow> tid \<Rightarrow> (sql_error, row list) outcome" where
  "index_fetch E J m x h schema filter_expr t =
     (case heap_get_tuple h t of
        Ok tuple \<Rightarrow>
          if \<not> index_visible m x (header tuple) then Ok []
          else obind (payload_row J (tdata tuple) schema) (\<lambda>r.
            case filter_expr of
              Some pred \<Rightarrow> obind (holds E pred r) (\<lambda>b. Ok (if b then [r] else []))
            | None \<Rightarrow> Ok [r])
      | Err _ \<Rightarrow> Ok []
      | Panic \<Rightarrow> Panic)"

definition exec_index_scan ::
  "'p eval_env \<Rightarrow> array_codec \<Rightarrow> txn_manager \<Rightarrow> xid \<Rightarrow> heap \<Rightarrow> table_schema \<Rightarrow> val option \<Rightarrow> val option \<Rightarrow> val option
    \<Rightarrow> 'p expr option \<Rightarrow> btree \<Rightarrow> (sql_error, row list) outcome option" where
  "exec_index_scan E J m x h schema eq_value range_start range_end filter_expr s =
     map_option (\<lambda>r. obind r (ocollect (index_fetch E J m x h schema filter_expr)))
       (index_tids (floats E) eq_value range_start range_end s)"

section \<open>Building an index\<close>

lemma map_of_kv_insert:
  assumes "key \<notin> fst ` set kvs"
  shows "map_of (kv_insert key t kvs) = map_of (kvs @ [(key, t)])"
proof
  fix k
  have "map_of kvs = map_of (takeWhile (\<lambda>x. fst x < key) kvs @ dropWhile (\<lambda>x. fst x < key) kvs)" by simp
  also have "\<dots> = map_of (dropWhile (\<lambda>x. fst x < key) kvs) ++ map_of (takeWhile (\<lambda>x. fst x < key) kvs)" by (rule map_of_append)
  finally have split: "map_of kvs = map_of (dropWhile (\<lambda>x. fst x < key) kvs) ++ map_of (takeWhile (\<lambda>x. fst x < key) kvs)" .
  have none: "map_of kvs key = None" using assms by (simp add: map_of_eq_None_iff)
  have "map_of (takeWhile (\<lambda>x. fst x < key) kvs) key = None"
    using assms by (auto simp: map_of_eq_None_iff dest: set_takeWhileD)
  then show "map_of (kv_insert key t kvs) k = map_of (kvs @ [(key, t)]) k"
    using none split by (cases "k = key") (auto simp: kv_insert_def map_add_def split: option.splits)
qed

lemma index_add_law:
  assumes "bt_holds kvs (Suc k) s" "length key \<le> MAX_KEY"
  shows "\<exists>s' kvs'. index_add x key t s = Some s' \<and> bt_holds kvs' k s' \<and> map_of kvs' = map_of (kvs @ [(key, t)])"
proof (cases "key \<in> fst ` set kvs")
  case True
  then have "map_of (kvs @ [(key, t)]) = map_of kvs"
    by (auto simp: map_add_def fun_eq_iff dest!: weak_map_of_SomeI split: option.splits)
  then show ?thesis using insert_duplicate [OF assms(1) True, of x t] holds_mono [OF assms(1), of k]
    by (auto simp: index_add_def)
next
  case False
  then show ?thesis using insert_new [OF assms False, of x t] map_of_kv_insert [OF False, of t] by (auto simp: index_add_def)
qed

text \<open>The entries the visible rows ask for, in the order of the scan.\<close>

definition index_entry :: "float_lib \<Rightarrow> array_codec \<Rightarrow> table_schema \<Rightarrow> nat \<Rightarrow> tid \<times> tuple \<Rightarrow> (key \<times> tid) list" where
  "index_entry F J schema i v =
     (case payload_row J (tdata (snd v)) schema of
        Ok r \<Rightarrow> (case row_get_by_idx r i of
            Some w \<Rightarrow> if w = VNull then [] else [(encode_sort_key F w, fst v)]
          | None \<Rightarrow> [])
      | _ \<Rightarrow> [])"

definition indexable :: "float_lib \<Rightarrow> array_codec \<Rightarrow> table_schema \<Rightarrow> nat \<Rightarrow> (tid \<times> tuple) list \<Rightarrow> bool" where
  "indexable F J schema i visible \<longleftrightarrow>
     list_all (\<lambda>v. is_ok (payload_row J (tdata (snd v)) schema)) visible
     \<and> list_all (\<lambda>e. length (fst e) \<le> MAX_KEY) (concat (map (index_entry F J schema i) visible))"

lemma build_index_law:
  assumes "bt_holds kvs (length visible + k) s" "indexable F J schema i visible"
  shows "\<exists>s' kvs'. build_index F J x schema i visible s = Some (Ok (), s') \<and> bt_holds kvs' k s'
    \<and> map_of kvs' = map_of (kvs @ concat (map (index_entry F J schema i) visible))"
  using assms
proof (induction visible arbitrary: kvs s)
  case (Cons v visible)
  obtain r where r: "payload_row J (tdata (snd v)) schema = Ok r"
    using Cons.prems(2) by (cases "payload_row J (tdata (snd v)) schema") (auto simp: indexable_def)
  have "\<exists>s1 kvs1. index_row F x r i (fst v) s = Some s1 \<and> bt_holds kvs1 (length visible + k) s1
      \<and> map_of kvs1 = map_of (kvs @ index_entry F J schema i v)"
  proof (cases "index_entry F J schema i v")
    case Nil
    then have "index_row F x r i (fst v) s = Some s" using r by (auto simp: index_entry_def index_row_def split: option.splits if_splits)
    then show ?thesis using Nil holds_mono [OF Cons.prems(1), of "length visible + k"] by auto
  next
    case (Cons e es)
    then obtain w where w: "row_get_by_idx r i = Some w" "w \<noteq> VNull" "index_entry F J schema i v = [(encode_sort_key F w, fst v)]"
      using r by (auto simp: index_entry_def split: option.splits if_splits)
    then have "length (encode_sort_key F w) \<le> MAX_KEY" using Cons.prems(2) by (simp add: indexable_def)
    then show ?thesis using index_add_law [of kvs "length visible + k" s "encode_sort_key F w" x "fst v"] Cons.prems(1) w
      by (simp add: index_row_def)
  qed
  then obtain s1 kvs1 where s1: "index_row F x r i (fst v) s = Some s1" "bt_holds kvs1 (length visible + k) s1"
    "map_of kvs1 = map_of (kvs @ index_entry F J schema i v)" by blast
  have "indexable F J schema i visible" using Cons.prems(2) by (simp add: indexable_def)
  then show ?case using Cons.IH [OF s1(2)] s1 r by (auto simp: map_of_append)
qed auto

section \<open>Looking up a value\<close>

lemma filter_key:
  "distinct (map fst kvs) \<Longrightarrow> filter (\<lambda>x. fst x = k) kvs = (case map_of kvs k of Some t \<Rightarrow> [(k, t)] | None \<Rightarrow> [])"
  by (induction kvs) (auto simp: filter_empty_conv image_iff map_of_eq_None_iff split: option.splits)

lemma index_tids_eq:
  assumes "bt_holds kvs k s"
  shows "index_tids F (Some v) a b s = Some (Ok (case map_of kvs (encode_sort_key F v) of Some t \<Rightarrow> [t] | None \<Rightarrow> []))"
proof -
  have d: "distinct (map fst kvs)" using holds_sorted [OF assms] by (simp add: strict_sorted_iff)
  have "in_range (Some key) (Some key) = (\<lambda>x. x = key)" for key by (auto simp: in_range_def fun_eq_iff)
  then show ?thesis using range_scan_law [OF assms] filter_key [OF d] by (simp add: index_tids_def split: option.splits)
qed

text \<open>
  Creating an index makes it deliver, for every value, the first visible row of the scan whose key is that of the
  value, and no other row with the same key.
\<close>

theorem created_index_finds_first_row:
  assumes "column_by_name schema (leading_col spec) = Some c" "scan_visible_tuples x h m = (Ok visible, m')"
    and "indexable F J schema (unat (col_attnum c) - 1) visible" "bt_holds [] (length visible + k) s"
  shows "\<exists>s'. exec_create_index F J x h schema spec m s = Some (Ok (), m', s')
    \<and> (\<forall>v. index_tids F (Some v) None None s' = Some (Ok
        (case map_of (concat (map (index_entry F J schema (unat (col_attnum c) - 1)) visible)) (encode_sort_key F v) of
           Some t \<Rightarrow> [t] | None \<Rightarrow> [])))"
  using build_index_law [OF assms(4,3), of x] assms(1,2) index_tids_eq by (fastforce simp: exec_create_index_def)

section \<open>Index scan and table scan\<close>

text \<open>The two scans test visibility differently: the index scan forgets the snapshot and deletions of its own
  transaction.\<close>

theorem index_scan_visibility:
  "index_visible m x h \<and> \<not> version_visible x snap (committed m) h \<longleftrightarrow>
     t_xmin h \<noteq> x \<and> t_xmin h \<in> committed m \<and> (t_xmax h = 0 \<or> t_xmax h \<notin> committed m)
     \<and> (t_xmax h = x \<or> \<not> xid_is_visible snap (t_xmin h))"
  by (auto simp: index_visible_def version_visible_def is_tuple_visible_def is_committed_def)

text \<open>A comparison with a sortable value of the same type decides whether the keys agree.\<close>

lemma eq_by_key:
  assumes "sortable w" "sortable v" "value_type w = value_type v" "w \<noteq> VNull" "v \<noteq> VNull"
  shows "eval_binary_op F J w OpEq v = Ok (VBool (encode_sort_key F w = encode_sort_key F v))"
proof -
  have k: "val_cmp F w v = Some OEqual \<longleftrightarrow> encode_sort_key F w = encode_sort_key F v"
    using sort_key_order [of w v F] assms by (auto simp: cmp_def)
  moreover have "val_eq w v \<Longrightarrow> val_cmp F w v = Some OEqual"
    using assms by (cases w; cases v) (auto simp: val_eq.simps val_cmp.simps cmp_def)
  ultimately show ?thesis using assms coerce_same [OF assms(3)] by (auto simp: eval_binary_op_def)
qed

text \<open>
  The hypotheses under which the optimizer may replace a filter by an index scan: the index holds the entries of the
  visible rows, no key occurs twice, both scans see the same versions, and the column holds values of the type of the
  literal and resolves to the indexed position.
\<close>

definition index_agrees ::
  "'p eval_env \<Rightarrow> array_codec \<Rightarrow> txn_manager \<Rightarrow> xid \<Rightarrow> heap \<Rightarrow> table_schema \<Rightarrow> nat \<Rightarrow> (tid \<times> tuple) list \<Rightarrow> bool" where
  "index_agrees E J m x h schema i visible \<longleftrightarrow>
     distinct (map fst (concat (map (index_entry (floats E) J schema i) visible)))
     \<and> list_all (\<lambda>v. heap_get_tuple h (fst v) = Ok (snd v) \<and> index_visible m x (header (snd v))) visible"

definition column_typed ::
  "'p eval_env \<Rightarrow> array_codec \<Rightarrow> table_schema \<Rightarrow> rstring option \<Rightarrow> 'p expr \<Rightarrow> nat \<Rightarrow> val \<Rightarrow> (tid \<times> tuple) list \<Rightarrow> bool" where
  "column_typed E J schema alias col i v visible \<longleftrightarrow> sortable v \<and> v \<noteq> VNull \<and>
     list_all (\<lambda>u. case payload_row J (tdata (snd u)) schema of
        Ok r \<Rightarrow> (case row_get_by_idx r i of
            Some w \<Rightarrow> (w = VNull \<or> sortable w \<and> value_type w = value_type v)
              \<and> eval_expr E col (qualify_row_schema r alias) = Ok w
          | None \<Rightarrow> False)
      | _ \<Rightarrow> False) visible"

lemma entry_cases:
  "index_entry F J schema i u = [] \<or> (\<exists>key. index_entry F J schema i u = [(key, fst u)])"
  by (auto simp: index_entry_def split: outcome.splits option.splits)

lemma entries_filter:
  "filter (\<lambda>e. fst e = key) (concat (map (index_entry F J schema i) visible))
    = map (\<lambda>u. (key, fst u)) (filter (\<lambda>u. index_entry F J schema i u = [(key, fst u)]) visible)"
proof (induction visible)
  case (Cons u visible)
  then show ?case using entry_cases [of F J schema i u] by auto
qed simp

lemma ocollect_map: "ocollect f (map g xs) = ocollect (f \<circ> g) xs"
proof -
  have "omap f (map g xs) = omap (f \<circ> g) xs" by (induction xs) simp_all
  then show ?thesis by (simp add: ocollect_def)
qed

lemma okfilter_map:
  assumes "\<And>u. u \<in> set us \<Longrightarrow> p (q u) = Ok (c u)"
  shows "okfilter p (map q us) = Ok (map q (filter c us))"
proof -
  have "okfilter p (map q us) = Ok (concat (map (\<lambda>u. if c u then [q u] else []) us))"
    unfolding okfilter_def ocollect_map by (rule ocollect_Ok) (simp add: assms)
  moreover have "concat (map (\<lambda>u. if c u then [q u] else []) us) = map q (filter c us)" by (induction us) simp_all
  ultimately show ?thesis by simp
qed

text \<open>The row a tuple holds.\<close>

definition row_of :: "array_codec \<Rightarrow> table_schema \<Rightarrow> tid \<times> tuple \<Rightarrow> row" where
  "row_of J schema u = (case payload_row J (tdata (snd u)) schema of Ok r \<Rightarrow> r | _ \<Rightarrow> \<lparr>row_values = [], row_schema = []\<rparr>)"

lemma column_typedD:
  assumes "column_typed E J schema alias col i v visible" "u \<in> set visible"
  shows "payload_row J (tdata (snd u)) schema = Ok (row_of J schema u)"
    and "holds E (EBinaryOp col OpEq (ELiteral v)) (qualify_row_schema (row_of J schema u) alias)
      = Ok (index_entry (floats E) J schema i u = [(encode_sort_key (floats E) v, fst u)])"
proof -
  obtain r w where r: "payload_row J (tdata (snd u)) schema = Ok r" "row_get_by_idx r i = Some w"
    "w = VNull \<or> sortable w \<and> value_type w = value_type v" "eval_expr E col (qualify_row_schema r alias) = Ok w"
    and v: "sortable v" "v \<noteq> VNull"
    using assms
    by (cases "payload_row J (tdata (snd u)) schema") (auto 4 4 simp: column_typed_def list_all_iff split: outcome.splits option.splits)
  show p: "payload_row J (tdata (snd u)) schema = Ok (row_of J schema u)" using r(1) by (simp add: row_of_def)
  have "holds E (EBinaryOp col OpEq (ELiteral v)) (qualify_row_schema r alias)
      = Ok (w \<noteq> VNull \<and> encode_sort_key (floats E) w = encode_sort_key (floats E) v)"
  proof (cases "w = VNull")
    case True
    then show ?thesis using r(4) by (simp add: holds_def eval_binary_op_def)
  next
    case False
    then show ?thesis using r(3,4) v eq_by_key [of w v "floats E" "json_of E"] by (auto simp: holds_def)
  qed
  then show "holds E (EBinaryOp col OpEq (ELiteral v)) (qualify_row_schema (row_of J schema u) alias)
      = Ok (index_entry (floats E) J schema i u = [(encode_sort_key (floats E) v, fst u)])"
    using r(1,2) by (simp add: row_of_def index_entry_def)
qed

text \<open>
  Under these hypotheses an index scan for a value delivers the rows of the table whose column equals it, in the same
  order; a table scan delivers them with the qualified columns besides.
\<close>

lemma index_scan_equals_filtered_table_scan:
  assumes scan: "scan_visible_tuples x h m = (Ok visible, m')" and name: "table_name \<noteq> lit ''__dual__''"
    and index: "bt_holds kvs k s" "map_of kvs = map_of (concat (map (index_entry (floats E) J schema i) visible))"
    and agrees: "index_agrees E J m x h schema i visible" and typed: "column_typed E J schema alias col i v visible"
  shows "\<exists>rows. exec_index_scan E J m x h schema (Some v) None None None s = Some (Ok rows)
    \<and> fst (exec_table_scan E J x h table_name alias schema (Some (EBinaryOp col OpEq (ELiteral v))) m)
      = Ok (map (\<lambda>r. qualify_row_schema r alias) rows)"
proof -
  let ?key = "encode_sort_key (floats E) v"
  define hits where "hits = filter (\<lambda>u. index_entry (floats E) J schema i u = [(?key, fst u)]) visible"
  have "index_tids (floats E) (Some v) None None s = Some (Ok (map snd (filter (\<lambda>e. fst e = ?key)
      (concat (map (index_entry (floats E) J schema i) visible)))))"
    using index_tids_eq [OF index(1), of "floats E" v None None] index(2) agrees filter_key [of "concat (map (index_entry (floats E) J schema i) visible)" ?key]
    by (simp add: index_agrees_def split: option.splits)
  then have tids: "index_tids (floats E) (Some v) None None s = Some (Ok (map fst hits))"
    by (simp add: entries_filter hits_def comp_def)
  have sub: "u \<in> set visible" if "u \<in> set hits" for u using that by (simp add: hits_def)
  have "ocollect (index_fetch E J m x h schema None) (map fst hits) = Ok (concat (map (\<lambda>u. [row_of J schema u]) hits))"
    unfolding ocollect_map
  proof (rule ocollect_Ok)
    fix u assume "u \<in> set hits"
    then show "(index_fetch E J m x h schema None \<circ> fst) u = Ok [row_of J schema u]"
      using agrees column_typedD(1) [OF typed sub] sub by (auto simp: index_fetch_def index_agrees_def list_all_iff)
  qed
  then have left: "exec_index_scan E J m x h schema (Some v) None None None s = Some (Ok (map (row_of J schema) hits))"
    using tids by (simp add: exec_index_scan_def)
  define q where "q u = qualify_row_schema (row_of J schema u) alias" for u
  have "omap (\<lambda>(t, tuple). obind (payload_row J (tdata tuple) schema) (\<lambda>row. Ok (qualify_row_schema row alias))) visible
      = Ok (map q visible)"
    by (rule omap_Ok) (use column_typedD(1) [OF typed] in \<open>auto simp: q_def\<close>)
  moreover have "exec_filter E (map q visible) (EBinaryOp col OpEq (ELiteral v)) = Ok (map q hits)"
    unfolding hits_def exec_filter_def using column_typedD(2) [OF typed] by (intro okfilter_map) (simp add: q_def)
  ultimately have right: "fst (exec_table_scan E J x h table_name alias schema (Some (EBinaryOp col OpEq (ELiteral v))) m) = Ok (map q hits)"
    using scan name by (simp add: exec_table_scan_def)
  show ?thesis using left right by (simp add: q_def comp_def)
qed

section \<open>A stored row\<close>

text \<open>A table with one integer column, in which transaction 3 has stored the number 5, and its index.\<close>

abbreviation (input) five :: row where "five \<equiv> \<lparr>row_values = [VInt4 5], row_schema = [([97], TInt4)]\<rparr>"

lemma one_indexable_row:
  obtains m m' h k s where
    "scan_visible_tuples 3 h m = (Ok [(k, new_version 3 (row_payload no_arrays five))], m')"
    and "heap_get_tuple h k = Ok (new_version 3 (row_payload no_arrays five))" and "bt_holds [] 100 s"
proof -
  let ?d = "row_payload no_arrays five"
  have "length ?d \<le> 8140" by (simp add: row_payload_def encode_row_def)
  then show ?thesis
  proof (rule one_stored_row)
    fix w s1 s2 k
    assume a: "heap_abs (snd s2) = [k \<mapsto> new_version 3 ?d]" "db_inv (Some []) 996 s2"
      "fst s1 = snd (txn_begin ReadCommitted (TransactionManager_new w 3))" "txn_insert_tuple 3 ?d s1 = (Ok k, s2)"
    obtain m h where s2: "s2 = (m, h)" by (cases s2)
    have wf: "heap_wf h" using a(2) s2 logged_wf by (auto simp: db_inv_def)
    obtain res where res: "scan_visible_tuples 3 h m =
        (Ok res, if is_serializable m 3 \<and> res \<noteq> [] then track_reads 3 (map fst res) m else m)" "distinct (map fst res)"
        "\<forall>k t. (k, t) \<in> set res \<longleftrightarrow> heap_abs h k = Some t \<and> version_visible 3 (current_snapshot m 3) (committed m) (header t)"
      by (rule scan_law [OF wf, of 3 m])
    have "version_visible 3 (current_snapshot m 3) (committed m) (header (new_version 3 ?d))"
      by (simp add: version_visible_def new_version_def)
    then have "set res = {(k, new_version 3 ?d)}" using res(3) a(1) s2 by (auto split: if_splits) metis
    moreover have "distinct res" using res(2) by (simp add: distinct_map)
    ultimately have one: "res = [(k, new_version 3 ?d)]" by (cases res; cases "tl res") auto
    obtain m' where "scan_visible_tuples 3 h m = (Ok [(k, new_version 3 ?d)], m')" using res(1) one by auto
    moreover have "heap_get_tuple h k = Ok (new_version 3 ?d)" using heap_get_cases [OF wf] a(1) s2 by simp
    ultimately show ?thesis using fresh_index that by metis
  qed
qed

lemma five_stored: "payload_row no_arrays (row_payload no_arrays five) (int_table 1) = Ok five"
  by (rule payload_roundtrip) (simp_all add: fits_def int_table_def int_column_def storable_def upt_rec)

lemma five_key: "encode_sort_key F (VInt4 5) = [2, 128, 0, 0, 5]"
proof -
  have "u32_be 2147483653 = [128, 0, 0, 5]" by code_simp
  then show ?thesis by simp
qed

lemma five_entry: "index_entry F no_arrays (int_table 1) 0 (k, new_version 3 (row_payload no_arrays five)) = [([2, 128, 0, 0, 5], k)]"
  by (simp add: index_entry_def new_version_def five_stored row_get_by_idx_def five_key del: One_nat_def encode_sort_key.simps)

theorem created_index_finds_first_row_witness:
  "\<forall>F. \<exists>m h m' s k s'. exec_create_index F no_arrays 3 h (int_table 1) [97] m s = Some (Ok (), m', s')
    \<and> index_tids F (Some (VInt4 5)) None None s' = Some (Ok [k])"
proof
  fix F
  show "\<exists>m h m' s k s'. exec_create_index F no_arrays 3 h (int_table 1) [97] m s = Some (Ok (), m', s')
    \<and> index_tids F (Some (VInt4 5)) None None s' = Some (Ok [k])"
  proof (rule one_indexable_row)
    fix m m' h s and k :: tid
    let ?u = "(k, new_version 3 (row_payload no_arrays five))"
    assume a: "scan_visible_tuples 3 h m = (Ok [?u], m')" "bt_holds [] 100 s"
    have "leading_col [97] = [97]" by code_simp
    moreover have "column_by_name (int_table 1) [97] = Some (int_column [97] 1)" by (simp add: column_by_name_def int_table_def int_column_def)
    ultimately have c: "column_by_name (int_table 1) (leading_col [97]) = Some (int_column [97] 1)" by simp
    have i: "unat (col_attnum (int_column [97] 1)) - 1 = 0" by (simp add: int_column_def)
    have "indexable F no_arrays (int_table 1) 0 [?u]"
      using five_entry [of F k] by (simp add: indexable_def five_stored new_version_def del: One_nat_def)
    then obtain s' where "exec_create_index F no_arrays 3 h (int_table 1) [97] m s = Some (Ok (), m', s')"
      "index_tids F (Some (VInt4 5)) None None s' = Some (Ok (case map_of (index_entry F no_arrays (int_table 1) 0 ?u)
         (encode_sort_key F (VInt4 5)) of Some t \<Rightarrow> [t] | None \<Rightarrow> []))"
      using created_index_finds_first_row [OF c a(1), of F no_arrays 99 s] a(2) i by fastforce
    moreover from this(2) have "index_tids F (Some (VInt4 5)) None None s' = Some (Ok [k])" by (simp only: five_entry five_key) simp
    ultimately show ?thesis by blast
  qed
qed

text \<open>
  An index on a column of 64-bit integers finds nothing for a literal of 32 bits, though the comparison of the
  literal with an equal number holds: the keys of the two types begin with different bytes.
\<close>

theorem bigint_index_misses_integer_literals:
  assumes "bt_holds kvs k s" "map_of kvs = map_of (concat (map (index_entry (floats E) J schema i) visible))"
    and "\<forall>u \<in> set visible. \<forall>r w. payload_row J (tdata (snd u)) schema = Ok r \<longrightarrow> row_get_by_idx r i = Some w \<longrightarrow>
      w = VNull \<or> (\<exists>j. w = VInt8 j)"
  shows "exec_index_scan E J m x h schema (Some (VInt4 n)) None None None s = Some (Ok [])
    \<and> eval_binary_op (floats E) (json_of E) (VInt8 (scast n)) OpEq (VInt4 n) = Ok (VBool True)"
proof -
  have "encode_sort_key (floats E) (VInt4 n) \<notin> fst ` set (concat (map (index_entry (floats E) J schema i) visible))"
    using assms(3) by (force simp: index_entry_def split: outcome.splits option.splits if_splits)
  then have "map_of kvs (encode_sort_key (floats E) (VInt4 n)) = None" by (simp add: assms(2) map_of_eq_None_iff)
  then have "exec_index_scan E J m x h schema (Some (VInt4 n)) None None None s = Some (Ok [])"
    using index_tids_eq [OF assms(1), of "floats E" "VInt4 n" None None] by (simp add: exec_index_scan_def ocollect_def)
  then show ?thesis
    by (simp add: eval_binary_op_def coerce_def val_cmp.simps cmp_def sint_up_scast is_up)
qed

definition bigint_table :: table_schema where
  "bigint_table = (int_table 1)\<lparr>columns := [(int_column [97] 1)\<lparr>col_type := TInt8\<rparr>]\<rparr>"

abbreviation (input) big_five :: row where "big_five \<equiv> \<lparr>row_values = [VInt8 5], row_schema = [([97], TInt8)]\<rparr>"

theorem bigint_index_misses_integer_literals_witness:
  "\<forall>E :: unit eval_env. \<forall>m h. \<exists>s. index_tids (floats E) (Some (VInt8 5)) None None s = Some (Ok [\<lparr>page_no = 0, slot = 1\<rparr>])
     \<and> exec_index_scan E no_arrays m 3 h bigint_table (Some (VInt4 5)) None None None s = Some (Ok [])"
proof (intro allI)
  fix E :: "unit eval_env" and m h
  let ?u = "(\<lparr>page_no = 0, slot = 1\<rparr>, new_version 3 (row_payload no_arrays big_five))"
  have stored: "payload_row no_arrays (row_payload no_arrays big_five) bigint_table = Ok big_five"
    by (rule payload_roundtrip) (simp_all add: fits_def bigint_table_def int_table_def int_column_def storable_def upt_rec)
  have entry: "index_entry (floats E) no_arrays bigint_table 0 ?u = [(encode_sort_key (floats E) (VInt8 5), \<lparr>page_no = 0, slot = 1\<rparr>)]"
    by (simp add: index_entry_def new_version_def stored row_get_by_idx_def)
  obtain s where s: "bt_holds [] 100 s" by (rule fresh_index)
  have "length (encode_sort_key (floats E) (VInt8 5)) \<le> MAX_KEY" by (simp add: u64_be_def)
  then have "indexable (floats E) no_arrays bigint_table 0 [?u]"
    using entry by (simp add: indexable_def new_version_def stored)
  then obtain s' kvs where s': "bt_holds kvs 99 s'"
    "map_of kvs = map_of (concat (map (index_entry (floats E) no_arrays bigint_table 0) [?u]))"
    using build_index_law [of "[]" "[?u]" 99 s "floats E" no_arrays bigint_table 0 3] s by auto
  have "\<forall>u \<in> set [?u]. \<forall>r w. payload_row no_arrays (tdata (snd u)) bigint_table = Ok r \<longrightarrow> row_get_by_idx r 0 = Some w \<longrightarrow>
      w = VNull \<or> (\<exists>j. w = VInt8 j)"
    using stored by (auto simp: new_version_def row_get_by_idx_def)
  from bigint_index_misses_integer_literals [OF s' this, of m 3 h 5]
  show "\<exists>s. index_tids (floats E) (Some (VInt8 5)) None None s = Some (Ok [\<lparr>page_no = 0, slot = 1\<rparr>])
     \<and> exec_index_scan E no_arrays m 3 h bigint_table (Some (VInt4 5)) None None None s = Some (Ok [])"
    using index_tids_eq [OF s'(1), of "floats E" "VInt8 5" None None] s'(2) entry by (intro exI [of _ s']) simp
qed

end
