(* ===== verification/Catalog_Manager.thy ===== *)
theory Catalog_Manager
  imports Sql_Value Sql_Text Catalog_Rows "HOL-Library.AList"
begin

text \<open>
  The registries of \<^verbatim>\<open>catalog/src/manager.rs\<close>: privileges, sequences, unique, foreign key and check constraints,
  indexes, functions and statistics. A hash map that the code iterates over is an association list in the order of the
  iteration, every other one a map. A file of privileges is the value it holds; a file of a sequence is its text.
  Errors of the file system are left out.
\<close>

section \<open>State\<close>

datatype acl_privilege = AclSelect | AclInsert | AclUpdate | AclDelete | AclAll

record acl_entry =
  grantee :: rstring
  privileges :: "acl_privilege list"
  col_grants :: "rstring \<rightharpoonup> acl_privilege list"

type_synonym table_acl = "acl_entry list"

record unique_constraints =
  unique_columns :: "rstring list"
  primary_key :: "rstring option"

record column_stats =
  null_frac :: u64
  n_distinct :: u64
  most_common_vals :: "rstring list"
  most_common_freqs :: "u64 list"

record function_def =
  fn_name :: rstring
  fn_schema :: rstring
  fn_params :: "(rstring \<times> data_type) list"
  fn_return :: data_type
  fn_body :: rstring
  fn_language :: rstring

record catalog =
  unique_registry :: "u32 \<rightharpoonup> unique_constraints"
  sequences :: "rstring \<rightharpoonup> u64"
  seq_files :: "rstring \<rightharpoonup> rstring"
  fk_registry :: "(u32 \<times> table_foreign_key list) list"
  check_registry :: "u32 \<rightharpoonup> check_constraint list"
  table_acls :: "rstring \<rightharpoonup> table_acl"
  acl_files :: "(rstring \<times> table_acl) list"
  index_registry :: "((u32 \<times> rstring) \<times> rstring) list"
  schema_cache :: "u32 \<rightharpoonup> table_schema"
  fn_registry :: "(rstring \<times> function_def) list"
  table_stats :: "rstring \<rightharpoonup> (rstring \<rightharpoonup> column_stats)"

section \<open>Indexes, constraints, statistics\<close>

definition create_index_entry :: "rstring \<Rightarrow> u32 \<Rightarrow> rstring \<Rightarrow> catalog \<Rightarrow> rstring \<times> catalog" where
  "create_index_entry data_dir table_oid column c =
     (let path = data_dir @ lit ''/idx_'' @ fmt_int 0 (uint table_oid) @ lit ''_'' @ column @ lit ''.btree'' in
      (path, c\<lparr>index_registry := AList.update (table_oid, column) path (index_registry c)\<rparr>))"

definition get_index_path :: "catalog \<Rightarrow> u32 \<Rightarrow> rstring \<Rightarrow> rstring option" where
  "get_index_path c table_oid column = map_of (index_registry c) (table_oid, column)"

definition list_indexes :: "catalog \<Rightarrow> (u32 \<times> rstring \<times> rstring) list" where
  "list_indexes c = map (\<lambda>((oid, col), path). (oid, col, path)) (index_registry c)"

definition has_index_on_column :: "catalog \<Rightarrow> u32 \<Rightarrow> rstring \<Rightarrow> bool" where
  "has_index_on_column c table_oid col \<longleftrightarrow> map_of (index_registry c) (table_oid, col) \<noteq> None"

definition set_unique_constraints :: "u32 \<Rightarrow> rstring list \<Rightarrow> rstring option \<Rightarrow> catalog \<Rightarrow> catalog" where
  "set_unique_constraints table_oid cols pk c =
     c\<lparr>unique_registry := (unique_registry c)(table_oid \<mapsto> \<lparr>unique_columns = cols, primary_key = pk\<rparr>)\<rparr>"

definition get_unique_constraints :: "catalog \<Rightarrow> u32 \<Rightarrow> unique_constraints option" where
  "get_unique_constraints c table_oid = unique_registry c table_oid"

definition set_foreign_keys :: "u32 \<Rightarrow> table_foreign_key list \<Rightarrow> catalog \<Rightarrow> catalog" where
  "set_foreign_keys table_oid fks c = c\<lparr>fk_registry := AList.update table_oid fks (fk_registry c)\<rparr>"

definition get_foreign_keys :: "catalog \<Rightarrow> u32 \<Rightarrow> table_foreign_key list" where
  "get_foreign_keys c table_oid = (case map_of (fk_registry c) table_oid of Some fks \<Rightarrow> fks | None \<Rightarrow> [])"

definition find_referencing_tables :: "catalog \<Rightarrow> rstring \<Rightarrow> rstring \<Rightarrow> (rstring \<times> table_foreign_key) list" where
  "find_referencing_tables c tbl col =
     concat (map (\<lambda>(oid, fks). concat (map (\<lambda>fk.
       if tfk_table fk = tbl \<and> tfk_col fk = col
       then (case schema_cache c oid of Some s \<Rightarrow> [(ts_name s, fk)] | None \<Rightarrow> []) else []) fks)) (fk_registry c))"

definition set_check_constraints :: "u32 \<Rightarrow> check_constraint list \<Rightarrow> catalog \<Rightarrow> catalog" where
  "set_check_constraints table_oid checks c = c\<lparr>check_registry := (check_registry c)(table_oid \<mapsto> checks)\<rparr>"

definition get_check_constraints :: "catalog \<Rightarrow> u32 \<Rightarrow> check_constraint list" where
  "get_check_constraints c table_oid = (case check_registry c table_oid of Some cs \<Rightarrow> cs | None \<Rightarrow> [])"

definition add_check_constraint :: "u32 \<Rightarrow> rstring option \<Rightarrow> rstring \<Rightarrow> catalog \<Rightarrow> catalog" where
  "add_check_constraint table_oid name e c =
     set_check_constraints table_oid (get_check_constraints c table_oid @ [\<lparr>check_name = name, check_expr = e\<rparr>]) c"

definition drop_constraint :: "u32 \<Rightarrow> rstring \<Rightarrow> catalog \<Rightarrow> bool \<times> catalog" where
  "drop_constraint table_oid name c =
     (case check_registry c table_oid of
        Some cs \<Rightarrow> (let kept = filter (\<lambda>k. check_name k \<noteq> Some name) cs in
          (length kept < length cs, set_check_constraints table_oid kept c))
      | None \<Rightarrow> (False, c))"

definition store_table_stats :: "rstring \<Rightarrow> (rstring \<rightharpoonup> column_stats) \<Rightarrow> catalog \<Rightarrow> catalog" where
  "store_table_stats table_name stats c = c\<lparr>table_stats := (table_stats c)(table_name \<mapsto> stats)\<rparr>"

definition get_column_stats :: "catalog \<Rightarrow> rstring \<Rightarrow> rstring \<Rightarrow> column_stats option" where
  "get_column_stats c table_name col = (case table_stats c table_name of Some t \<Rightarrow> t col | None \<Rightarrow> None)"

section \<open>Functions\<close>

definition dotted :: "rstring \<Rightarrow> rstring \<Rightarrow> rstring" where
  "dotted schema name = schema @ [46] @ name"

definition create_function :: "function_def \<Rightarrow> catalog \<Rightarrow> catalog" where
  "create_function f c = c\<lparr>fn_registry := AList.update (dotted (fn_schema f) (fn_name f)) f (fn_registry c)\<rparr>"

definition get_function :: "catalog \<Rightarrow> rstring \<Rightarrow> rstring \<Rightarrow> function_def option" where
  "get_function c schema name = map_of (fn_registry c) (dotted schema name)"

definition drop_function :: "rstring \<Rightarrow> rstring \<Rightarrow> catalog \<Rightarrow> (catalog_error, unit) outcome \<times> catalog" where
  "drop_function schema name c =
     (case map_of (fn_registry c) (dotted schema name) of
        Some _ \<Rightarrow> (Ok (), c\<lparr>fn_registry := AList.delete (dotted schema name) (fn_registry c)\<rparr>)
      | None \<Rightarrow> (Err (CatTableNotFound (lit ''function '' @ dotted schema name)), c))"

definition list_functions :: "catalog \<Rightarrow> rstring \<Rightarrow> function_def list" where
  "list_functions c schema =
     filter (\<lambda>f. fn_schema f = schema \<or> take (length schema + 1) (dotted (fn_schema f) (fn_name f)) = schema @ [46])
       (map snd (fn_registry c))"

section \<open>Sequences\<close>

definition sequence_key :: "rstring \<Rightarrow> rstring \<Rightarrow> rstring \<Rightarrow> rstring" where
  "sequence_key schema table col = schema @ [95] @ table @ [95] @ col"

definition standalone_sequence_key :: "rstring \<Rightarrow> rstring \<Rightarrow> rstring" where
  "standalone_sequence_key schema name = lit ''seq:'' @ schema @ [46] @ name"

text \<open>Storing the next value in memory and in the file of the sequence.\<close>

definition put_sequence :: "rstring \<Rightarrow> u64 \<Rightarrow> catalog \<Rightarrow> catalog" where
  "put_sequence key v c =
     c\<lparr>sequences := (sequences c)(key \<mapsto> v), seq_files := (seq_files c)(key \<mapsto> fmt_int 0 (sint v))\<rparr>"

definition create_sequence :: "rstring \<Rightarrow> rstring \<Rightarrow> rstring \<Rightarrow> u64 \<Rightarrow> catalog \<Rightarrow> catalog" where
  "create_sequence schema table col start c = put_sequence (sequence_key schema table col) start c"

definition sequence_exists :: "catalog \<Rightarrow> rstring \<Rightarrow> rstring \<Rightarrow> rstring \<Rightarrow> bool" where
  "sequence_exists c schema table col \<longleftrightarrow> sequences c (sequence_key schema table col) \<noteq> None"

definition next_sequence_val :: "rstring \<Rightarrow> rstring \<Rightarrow> rstring \<Rightarrow> catalog \<Rightarrow> u64 \<times> catalog" where
  "next_sequence_val schema table col c =
     (let key = sequence_key schema table col;
          v = (case sequences c key of Some v \<Rightarrow> v | None \<Rightarrow> 1) in
      (v, put_sequence key (v + 1) c))"

definition create_standalone_sequence :: "rstring \<Rightarrow> rstring \<Rightarrow> u64 \<Rightarrow> catalog \<Rightarrow> catalog" where
  "create_standalone_sequence schema name start c = put_sequence (standalone_sequence_key schema name) start c"

definition nextval_standalone :: "rstring \<Rightarrow> rstring \<Rightarrow> catalog \<Rightarrow> u64 option \<times> catalog" where
  "nextval_standalone schema name c =
     (case sequences c (standalone_sequence_key schema name) of
        Some v \<Rightarrow> (Some v, put_sequence (standalone_sequence_key schema name) (v + 1) c)
      | None \<Rightarrow> (None, c))"

definition currval_standalone :: "catalog \<Rightarrow> rstring \<Rightarrow> rstring \<Rightarrow> u64 option" where
  "currval_standalone c schema name = map_option (\<lambda>v. v - 1) (sequences c (standalone_sequence_key schema name))"

definition setval_standalone :: "rstring \<Rightarrow> rstring \<Rightarrow> u64 \<Rightarrow> catalog \<Rightarrow> catalog" where
  "setval_standalone schema name v c = put_sequence (standalone_sequence_key schema name) v c"

definition drop_standalone_sequence :: "rstring \<Rightarrow> rstring \<Rightarrow> catalog \<Rightarrow> catalog" where
  "drop_standalone_sequence schema name c =
     (let key = standalone_sequence_key schema name in
      c\<lparr>sequences := (sequences c)(key := None), seq_files := (seq_files c)(key := None)\<rparr>)"

definition load_sequences_from_disk :: "(rstring \<rightharpoonup> rstring) \<Rightarrow> (rstring \<rightharpoonup> u64)" where
  "load_sequences_from_disk files key =
     (case files key of Some content \<Rightarrow> map_option word_of_int (parse_i64 (trim content)) | None \<Rightarrow> None)"

section \<open>Privileges\<close>

definition persist_acl :: "rstring \<Rightarrow> rstring \<Rightarrow> table_acl \<Rightarrow> catalog \<Rightarrow> catalog" where
  "persist_acl schema table acl c = c\<lparr>acl_files := AList.update (schema @ [95] @ table) acl (acl_files c)\<rparr>"

definition set_acl :: "rstring \<Rightarrow> rstring \<Rightarrow> table_acl \<Rightarrow> catalog \<Rightarrow> catalog" where
  "set_acl schema table acl c =
     persist_acl schema table acl (c\<lparr>table_acls := (table_acls c)(dotted schema table \<mapsto> acl)\<rparr>)"

definition push_new :: "acl_privilege list \<Rightarrow> acl_privilege list \<Rightarrow> acl_privilege list" where
  "push_new ps new = foldl (\<lambda>ps p. if p \<in> set ps then ps else ps @ [p]) ps new"

text \<open>Changing the first entry of a grantee.\<close>

fun on_entry :: "rstring \<Rightarrow> (acl_entry \<Rightarrow> acl_entry) \<Rightarrow> table_acl \<Rightarrow> table_acl" where
  "on_entry g f [] = []"
| "on_entry g f (e # es) = (if grantee e = g then f e # es else e # on_entry g f es)"

definition acl_of :: "catalog \<Rightarrow> rstring \<Rightarrow> rstring \<Rightarrow> table_acl" where
  "acl_of c schema table = (case table_acls c (dotted schema table) of Some acl \<Rightarrow> acl | None \<Rightarrow> [])"

definition grant_table :: "rstring \<Rightarrow> rstring \<Rightarrow> rstring \<Rightarrow> acl_privilege list \<Rightarrow> catalog \<Rightarrow> catalog" where
  "grant_table schema table g privs c =
     (let acl = acl_of c schema table in
      set_acl schema table
        (if list_ex (\<lambda>e. grantee e = g) acl
         then on_entry g (\<lambda>e. e\<lparr>privileges := push_new (privileges e) privs\<rparr>) acl
         else acl @ [\<lparr>grantee = g, privileges = privs, col_grants = Map.empty\<rparr>]) c)"

definition revoke_table :: "rstring \<Rightarrow> rstring \<Rightarrow> rstring \<Rightarrow> acl_privilege list \<Rightarrow> catalog \<Rightarrow> catalog" where
  "revoke_table schema table g privs c =
     (case table_acls c (dotted schema table) of
        Some acl \<Rightarrow> set_acl schema table
          (on_entry g (\<lambda>e. e\<lparr>privileges := filter (\<lambda>p. p \<notin> set privs) (privileges e)\<rparr>) acl) c
      | None \<Rightarrow> c)"

definition check_table_privilege :: "catalog \<Rightarrow> rstring \<Rightarrow> rstring \<Rightarrow> rstring \<Rightarrow> acl_privilege \<Rightarrow> bool" where
  "check_table_privilege c schema table role p =
     (case table_acls c (dotted schema table) of
        Some acl \<Rightarrow> list_ex (\<lambda>e. (grantee e = role \<or> grantee e = lit ''*'')
            \<and> (AclAll \<in> set (privileges e) \<or> p \<in> set (privileges e))) acl
      | None \<Rightarrow> False)"

definition grant_column_privileges ::
  "rstring \<Rightarrow> rstring \<Rightarrow> rstring \<Rightarrow> rstring list \<Rightarrow> acl_privilege list \<Rightarrow> catalog \<Rightarrow> catalog" where
  "grant_column_privileges schema table g cols privs c =
     (let acl0 = acl_of c schema table;
          acl = (if list_ex (\<lambda>e. grantee e = g) acl0 then acl0
                 else acl0 @ [\<lparr>grantee = g, privileges = [], col_grants = Map.empty\<rparr>]) in
      set_acl schema table (on_entry g (\<lambda>e. e\<lparr>col_grants := foldl (\<lambda>m col.
          m(col \<mapsto> push_new (case m col of Some ps \<Rightarrow> ps | None \<Rightarrow> []) privs)) (col_grants e) cols\<rparr>) acl) c)"

definition revoke_column_privileges ::
  "rstring \<Rightarrow> rstring \<Rightarrow> rstring \<Rightarrow> rstring list \<Rightarrow> acl_privilege list \<Rightarrow> catalog \<Rightarrow> catalog" where
  "revoke_column_privileges schema table g cols privs c =
     (case table_acls c (dotted schema table) of
        Some acl \<Rightarrow> set_acl schema table (on_entry g (\<lambda>e. e\<lparr>col_grants := foldl (\<lambda>m col.
            case m col of Some ps \<Rightarrow> m(col \<mapsto> filter (\<lambda>p. p \<notin> set privs) ps) | None \<Rightarrow> m) (col_grants e) cols\<rparr>) acl) c
      | None \<Rightarrow> c)"

definition check_column_privilege :: "catalog \<Rightarrow> rstring \<Rightarrow> rstring \<Rightarrow> rstring \<Rightarrow> rstring \<Rightarrow> acl_privilege \<Rightarrow> bool" where
  "check_column_privilege c schema table col g p =
     (check_table_privilege c schema table g p \<or>
      (case table_acls c (dotted schema table) of
         Some acl \<Rightarrow> list_ex (\<lambda>e. (grantee e = g \<or> grantee e = lit ''*'')
             \<and> (case col_grants e col of Some ps \<Rightarrow> AclAll \<in> set ps \<or> p \<in> set ps | None \<Rightarrow> False)) acl
       | None \<Rightarrow> False))"

text \<open>\<^verbatim>\<open>replacen('_', ".", 1)\<close> on the name of the file gives the key.\<close>

definition replace_underscore :: "rstring \<Rightarrow> rstring" where
  "replace_underscore s =
     (case split_once 95 s of Some (a, b) \<Rightarrow> a @ [46] @ b | None \<Rightarrow> s)"

definition load_acls_from_disk :: "(rstring \<times> table_acl) list \<Rightarrow> (rstring \<rightharpoonup> table_acl)" where
  "load_acls_from_disk files = foldl (\<lambda>m (stem, acl). m(replace_underscore stem \<mapsto> acl)) Map.empty files"

section \<open>Privileges as a relation\<close>

text \<open>The privileges a grantee holds on a table, and the invariant that no grantee has two entries.\<close>

primrec held :: "table_acl \<Rightarrow> rstring \<Rightarrow> acl_privilege set" where
  "held [] g = {}"
| "held (e # es) g = (if grantee e = g then set (privileges e) \<union> held es g else held es g)"

definition granted :: "catalog \<Rightarrow> rstring \<Rightarrow> rstring \<Rightarrow> rstring \<Rightarrow> acl_privilege set" where
  "granted c schema table g = held (acl_of c schema table) g"

definition acl_wf :: "catalog \<Rightarrow> bool" where
  "acl_wf c \<longleftrightarrow> (\<forall>key acl. table_acls c key = Some acl \<longrightarrow> distinct (map grantee acl))"

lemma push_new_set [simp]: "set (push_new ps new) = set ps \<union> set new"
  unfolding push_new_def by (induction new arbitrary: ps) auto

lemma on_entry_grantees [simp]:
  assumes "\<And>e. grantee (f e) = grantee e"
  shows "map grantee (on_entry g f acl) = map grantee acl"
  using assms by (induction acl) simp_all

lemma held_none: "g \<notin> grantee ` set acl \<Longrightarrow> held acl g = {}"
  by (induction acl) auto

lemma held_append [simp]: "held (as @ bs) g = held as g \<union> held bs g"
  by (induction as) auto

lemma held_on_entry:
  assumes "distinct (map grantee acl)" "\<And>e. grantee (f e) = grantee e" "\<And>e. set (privileges (f e)) = h (set (privileges e))"
  shows "held (on_entry g f acl) r = (if r = g \<and> g \<in> grantee ` set acl then h (held acl g) else held acl r)"
  using assms(1)
proof (induction acl)
  case (Cons e acl)
  then show ?case using held_none [of g acl] assms(2,3) by (cases "grantee e = g"; cases "r = g") (auto simp: image_iff)
qed simp

lemma set_acl_run [simp]:
  "table_acls (set_acl schema table acl c) = (table_acls c)(dotted schema table \<mapsto> acl)"
  by (simp add: set_acl_def persist_acl_def)

lemma acl_of_set [simp]:
  "acl_of (set_acl schema table acl c) s t = (if dotted s t = dotted schema table then acl else acl_of c s t)"
  by (simp add: acl_of_def)

lemma acl_of_wf: "acl_wf c \<Longrightarrow> distinct (map grantee (acl_of c s t))"
  by (auto simp: acl_wf_def acl_of_def split: option.splits)

lemma set_acl_wf: "acl_wf c \<Longrightarrow> distinct (map grantee acl) \<Longrightarrow> acl_wf (set_acl s t acl c)"
  by (auto simp: acl_wf_def)

lemma grant_law:
  assumes "acl_wf c"
  shows "acl_wf (grant_table schema table g privs c)"
    and "granted (grant_table schema table g privs c) s t r =
      granted c s t r \<union> (if dotted s t = dotted schema table \<and> r = g then set privs else {})"
proof -
  let ?acl = "acl_of c schema table" and ?f = "\<lambda>e. e\<lparr>privileges := push_new (privileges e) privs\<rparr>"
  note d = acl_of_wf [OF assms, of schema table]
  have "distinct (map grantee (if list_ex (\<lambda>e. grantee e = g) ?acl then on_entry g ?f ?acl
      else ?acl @ [\<lparr>grantee = g, privileges = privs, col_grants = Map.empty\<rparr>]))"
    using d by (auto simp: list_ex_iff)
  then show "acl_wf (grant_table schema table g privs c)" unfolding grant_table_def Let_def by (rule set_acl_wf [OF assms])
  show "granted (grant_table schema table g privs c) s t r =
      granted c s t r \<union> (if dotted s t = dotted schema table \<and> r = g then set privs else {})"
  proof (cases "dotted s t = dotted schema table")
    case True
    then have acl: "acl_of c s t = ?acl" by (simp add: acl_of_def)
    have "g \<in> grantee ` set ?acl \<longleftrightarrow> list_ex (\<lambda>e. grantee e = g) ?acl" by (auto simp: list_ex_iff image_iff)
    then show ?thesis using True acl held_on_entry [OF d, of ?f "\<lambda>ps. ps \<union> set privs" g r] held_none [of g ?acl]
      by (auto simp: granted_def grant_table_def Let_def)
  next
    case False
    then show ?thesis by (simp add: granted_def grant_table_def Let_def)
  qed
qed

lemma revoke_law:
  assumes "acl_wf c"
  shows "acl_wf (revoke_table schema table g privs c)"
    and "granted (revoke_table schema table g privs c) s t r =
      granted c s t r - (if dotted s t = dotted schema table \<and> r = g then set privs else {})"
proof -
  let ?acl = "acl_of c schema table" and ?f = "\<lambda>e. e\<lparr>privileges := filter (\<lambda>p. p \<notin> set privs) (privileges e)\<rparr>"
  note d = acl_of_wf [OF assms, of schema table]
  have run: "revoke_table schema table g privs c =
      (if table_acls c (dotted schema table) = None then c else set_acl schema table (on_entry g ?f ?acl) c)"
    by (auto simp: revoke_table_def acl_of_def split: option.splits)
  show "acl_wf (revoke_table schema table g privs c)"
    unfolding run using assms set_acl_wf [OF assms, of "on_entry g ?f ?acl"] d by simp
  show "granted (revoke_table schema table g privs c) s t r =
      granted c s t r - (if dotted s t = dotted schema table \<and> r = g then set privs else {})"
  proof (cases "dotted s t = dotted schema table \<and> table_acls c (dotted schema table) \<noteq> None")
    case True
    then have acl: "acl_of c s t = ?acl" by (simp add: acl_of_def)
    have "held (on_entry g ?f ?acl) r = (if r = g \<and> g \<in> grantee ` set ?acl then held ?acl g - set privs else held ?acl r)"
      by (rule held_on_entry [OF d]) auto
    then have "held (on_entry g ?f ?acl) r = held ?acl r - (if r = g then set privs else {})"
      using held_none [of g ?acl] by (cases "g \<in> grantee ` set ?acl") simp_all
    then show ?thesis using True acl unfolding run by (clarsimp simp: granted_def)
  next
    case False
    then show ?thesis unfolding run by (auto simp: granted_def acl_of_def)
  qed
qed

lemma acl_check_law:
  "check_table_privilege c schema table role p \<longleftrightarrow>
     (\<exists>g \<in> {role, lit ''*''}. AclAll \<in> granted c schema table g \<or> p \<in> granted c schema table g)"
proof -
  have "p \<in> held acl g \<longleftrightarrow> (\<exists>e \<in> set acl. grantee e = g \<and> p \<in> set (privileges e))" for p acl g by (induction acl) auto
  then show ?thesis by (auto simp: check_table_privilege_def granted_def acl_of_def list_ex_iff split: option.splits)
qed

text \<open>
  Granting adds the privileges to those of the grantee on this table and revoking takes them away, no other grantee
  or table is affected, the check passes exactly when the role or the public holds the privilege or all of them, and
  no grantee ever has two entries. In particular a role that was granted all privileges keeps every single one
  when that one is revoked.
\<close>

theorem privileges_are_a_relation:
  assumes "acl_wf c"
  shows "acl_wf (grant_table schema table g privs c) \<and> acl_wf (revoke_table schema table g privs c)
    \<and> granted (grant_table schema table g privs c) s t r =
        granted c s t r \<union> (if dotted s t = dotted schema table \<and> r = g then set privs else {})
    \<and> granted (revoke_table schema table g privs c) s t r =
        granted c s t r - (if dotted s t = dotted schema table \<and> r = g then set privs else {})
    \<and> (check_table_privilege c s t r p \<longleftrightarrow>
        (\<exists>u \<in> {r, lit ''*''}. AclAll \<in> granted c s t u \<or> p \<in> granted c s t u))"
  using grant_law [OF assms] revoke_law [OF assms] acl_check_law by simp

definition new_catalog :: catalog where
  "new_catalog = \<lparr>unique_registry = Map.empty, sequences = Map.empty, seq_files = Map.empty, fk_registry = [],
     check_registry = Map.empty, table_acls = Map.empty, acl_files = [], index_registry = [], schema_cache = Map.empty,
     fn_registry = [], table_stats = Map.empty\<rparr>"

theorem privileges_are_a_relation_witness:
  "granted (grant_table (lit ''public'') (lit ''t'') (lit ''bob'') [AclAll] new_catalog) (lit ''public'') (lit ''t'') (lit ''bob'') = {AclAll}"
proof -
  have "acl_wf new_catalog" by (simp add: acl_wf_def new_catalog_def)
  from privileges_are_a_relation [OF this, of "lit ''public''" "lit ''t''" "lit ''bob''" "[AclAll]" "lit ''public''" "lit ''t''" "lit ''bob''"]
  show ?thesis by (simp add: granted_def acl_of_def new_catalog_def)
qed

text \<open>
  Finding. Privileges are stored in a file named by schema and table with an underscore between them, and read back by
  turning the first underscore into a dot: they are found again exactly when the schema has none in its name.
\<close>

theorem privileges_are_lost_for_schemas_with_underscore:
  "load_acls_from_disk [(schema @ [95] @ table, acl)] (dotted schema table) = (if 95 \<in> set schema then None else Some acl)"
proof (cases "95 \<in> set schema")
  case True
  then obtain a b where s: "schema = a @ 95 # b" "95 \<notin> set a" by (meson split_list_first)
  then have "replace_underscore (schema @ [95] @ table) = a @ [46] @ b @ [95] @ table"
    using split_once_append [of 95 a "b @ 95 # table"] by (simp add: replace_underscore_def)
  moreover have "a @ [46] @ b @ [95] @ table \<noteq> a @ 95 # b @ [46] @ table" by simp
  ultimately show ?thesis using True s by (simp add: load_acls_from_disk_def dotted_def)
next
  case False
  then show ?thesis
    using split_once_append [OF False, of table] by (simp add: load_acls_from_disk_def dotted_def replace_underscore_def)
qed

section \<open>Sequences across restarts\<close>

text \<open>The files hold what is in memory.\<close>

definition seq_inv :: "catalog \<Rightarrow> bool" where
  "seq_inv c \<longleftrightarrow> seq_files c = (\<lambda>key. map_option (\<lambda>v. fmt_int 0 (sint v)) (sequences c key))"

lemma seq_inv_put: "seq_inv c \<Longrightarrow> seq_inv (put_sequence key v c)"
  by (auto simp: seq_inv_def put_sequence_def fun_eq_iff)

lemma parse_i64_text: "parse_i64 (trim (fmt_int 0 (sint v))) = Some (sint v)" for v :: u64
proof -
  have r: "- 9223372036854775808 \<le> sint v" "sint v \<le> 9223372036854775807" using sint_ge [of v] sint_lt [of v] by simp_all
  show ?thesis
  proof (cases "0 \<le> sint v")
    case True
    have "trim (fmt_int 0 (sint v)) = fmt_int 0 (sint v)"
      by (rule trim_id) (use fmt_int_digits(2) [OF True] fmt_int_ends [OF True] in auto)
    then show ?thesis using parse_fmt_int [OF True] r by simp
  next
    case False
    let ?d = "dec (nat \<bar>sint v\<bar>)"
    have f: "fmt_int 0 (sint v) = 45 # ?d" using False by (simp add: fmt_int_def)
    have "plain (last ?d)" using dec_digits [of "nat \<bar>sint v\<bar>"] digit_plain by (simp add: list_all_iff)
    then have "trim (45 # ?d) = 45 # ?d" using dec_digits(2) by (intro trim_id) (simp_all add: plain_def)
    then show ?thesis using False r dec_digits [of "nat \<bar>sint v\<bar>"] by (simp add: f parse_int_def digits_val_dec)
  qed
qed

lemma load_sequences: "seq_inv c \<Longrightarrow> load_sequences_from_disk (seq_files c) = sequences c"
  by (auto simp: seq_inv_def load_sequences_from_disk_def parse_i64_text fun_eq_iff split: option.splits)

inductive seq_step :: "catalog \<Rightarrow> catalog \<Rightarrow> bool" where
  seq_create: "seq_step c (create_sequence s t col start c)"
| seq_next: "seq_step c (snd (next_sequence_val s t col c))"
| seq_create_alone: "seq_step c (create_standalone_sequence s n start c)"
| seq_nextval: "seq_step c (snd (nextval_standalone s n c))"
| seq_setval: "seq_step c (setval_standalone s n v c)"
| seq_drop: "seq_step c (drop_standalone_sequence s n c)"

lemma seq_step_inv: "seq_step c c' \<Longrightarrow> seq_inv c \<Longrightarrow> seq_inv c'"
proof (induction rule: seq_step.induct)
  case (seq_drop c s n)
  then show ?case by (auto simp: seq_inv_def drop_standalone_sequence_def Let_def fun_eq_iff)
qed (auto simp: create_sequence_def next_sequence_val_def create_standalone_sequence_def nextval_standalone_def
    setval_standalone_def Let_def seq_inv_put split: option.splits)

text \<open>
  \<^bold>\<open>C31.\<close> After any operations on sequences a restart reads every sequence back from its file as it was in memory, and
  the next call for a serial column continues with the value behind the last one, wrapping around at 64 bits.
\<close>

theorem sequences_survive_restart:
  assumes "seq_inv c" and "seq_step\<^sup>*\<^sup>* c c'"
  shows "load_sequences_from_disk (seq_files c') = sequences c'
    \<and> (let (v, c1) = next_sequence_val s t col c' in
       fst (next_sequence_val s t col (c1\<lparr>sequences := load_sequences_from_disk (seq_files c1)\<rparr>)) = v + 1)"
proof -
  have "seq_inv c'" using assms(2,1) by (induction rule: rtranclp_induct) (auto dest: seq_step_inv)
  moreover obtain v c1 where n: "next_sequence_val s t col c' = (v, c1)" by (cases "next_sequence_val s t col c'")
  have "seq_inv c1" using seq_step_inv [OF seq_next [of c' s t col] \<open>seq_inv c'\<close>] n by simp
  then have "c1\<lparr>sequences := load_sequences_from_disk (seq_files c1)\<rparr> = c1" by (simp add: load_sequences)
  moreover have "sequences c1 (sequence_key s t col) = Some (v + 1)"
    using n by (auto simp: next_sequence_val_def put_sequence_def Let_def)
  then have "fst (next_sequence_val s t col c1) = v + 1" by (simp add: next_sequence_val_def Let_def)
  ultimately show ?thesis using n load_sequences by simp
qed

theorem sequences_survive_restart_witness:
  "load_sequences_from_disk (seq_files (create_sequence [112] [116] [97] 5 new_catalog))
     = sequences (create_sequence [112] [116] [97] 5 new_catalog)"
proof -
  have "seq_inv new_catalog" by (simp add: seq_inv_def new_catalog_def)
  moreover have "seq_step\<^sup>*\<^sup>* new_catalog (create_sequence [112] [116] [97] 5 new_catalog)"
    using seq_create by (rule r_into_rtranclp)
  ultimately show ?thesis using sequences_survive_restart by blast
qed

end
