(* ===== verification/Txn_Tables.thy ===== *)
theory Txn_Tables
  imports Txn_Heap "HOL-Library.Multiset"
begin

text \<open>
  Several heap files behind one transaction manager: the tuple operations of \<open>Txn_Heap\<close> as laws over \<open>db_inv\<close>,
  in the form that clients with many tables use. Operating on one file keeps what is known of every other file.
\<close>

lemma db_inv_facts:
  assumes "db_inv base n (m, h)"
  shows "table_inv h" and "n_blocks h + n < 2 ^ 32" and "locks_inv (tm_locks m)"
  using assms by (auto simp: db_inv_def logged_def room_def)

lemma db_inv_other:
  assumes "db_inv base n (m, h)" and "table_inv h2" and "n_blocks h2 + n < 2 ^ 32"
  shows "db_inv None n (m, h2)"
  using assms by (auto simp: db_inv_def logged_def room_def)

lemma db_inv_None: "db_inv base n s \<Longrightarrow> db_inv None n s"
  by (auto simp: db_inv_def logged_def)

lemma db_invI: "logged base cs s \<Longrightarrow> room n cs s \<Longrightarrow> locks_inv (tm_locks (fst s)) \<Longrightarrow> db_inv base n s"
  by (auto simp: db_inv_def)

text \<open>Another file keeps its invariant when the manager moves from \<open>m\<close> to \<open>m'\<close>.\<close>

lemma db_inv_move:
  assumes "db_inv None n (m', h')" and "db_inv None (n + j) (m, h2)"
  shows "db_inv None n (m', h2)"
  using assms db_inv_facts [OF assms(2)] by (intro db_inv_other [OF assms(1)]) simp_all

lemma insert_run:
  assumes inv: "db_inv None (Suc n) (m, h)" and d: "length d \<le> 8140"
  obtains k m' h' where "txn_insert_tuple x d (m, h) = (Ok k, (m', h'))" and "db_inv None n (m', h')"
    and "heap_abs h k = None" and "heap_abs h' = (heap_abs h)(k \<mapsto> new_version x d)"
    and "same_txns m m'" and "\<forall>j. lock_of m' j = lock_of m j"
proof -
  obtain cs where cs: "logged None cs (m, h)" "room (Suc n) cs (m, h)" "locks_inv (tm_locks m)"
    using inv by (auto simp: db_inv_def)
  obtain k cs' m' h' w where i: "txn_insert_tuple x d (m, h) = (Ok k, (m', h'))" "m' = track_write x k (m\<lparr>tm_wal := w\<rparr>)"
    "logged None cs' (m', h')" "room n cs' (m', h')" "heap_abs h k = None" "heap_abs h' = (heap_abs h)(k \<mapsto> new_version x d)"
    by (rule insert_law [OF cs(1,2) d])
  have "tm_locks m' = tm_locks m" using i(2) by simp
  moreover have "same_txns m m'" using quietD [OF quiet_ops(1) i(1)] by simp
  ultimately show ?thesis using that i cs(3) db_invI [OF i(3,4)] by (simp add: lock_of_def)
qed

lemma delete_run:
  assumes inv: "db_inv None (Suc n) (m, h)" and free: "lock_of m k = None \<or> lock_of m k = Some x" and old: "heap_abs h k = Some u"
  obtains m' h' where "txn_delete_tuple x k (m, h) = Some (Ok (), (m', h'))" and "db_inv None n (m', h')"
    and "heap_abs h' = (heap_abs h)(k \<mapsto> set_xmax u x)" and "same_txns m m'"
    and "\<forall>j. lock_of m' j = (if j = k then Some x else lock_of m j)"
proof -
  obtain cs where cs: "logged None cs (m, h)" "room (Suc n) cs (m, h)" "locks_inv (tm_locks m)"
    using inv by (auto simp: db_inv_def)
  obtain cs' m' h' where i: "txn_delete_tuple x k (m, h) = Some (Ok (), (m', h'))" "locks_inv (tm_locks m')"
    "logged None cs' (m', h')" "room n cs' (m', h')" "heap_abs h' = (heap_abs h)(k \<mapsto> set_xmax u x)"
    "\<forall>j. lock_of m' j = (if j = k then Some x else lock_of m j)"
    by (rule delete_law [OF cs free old])
  show ?thesis using that i db_invI [OF i(3,4)] delete_quiet [OF i(1)] by simp
qed

lemma update_run:
  assumes inv: "db_inv None (Suc (Suc n)) (m, h)" and free: "lock_of m k = None \<or> lock_of m k = Some x"
    and old: "heap_abs h k = Some u" and d: "length d \<le> 8140"
  obtains k' m' h' where "txn_update_tuple x k d (m, h) = Some (Ok k', (m', h'))" and "db_inv None n (m', h')"
    and "heap_abs h k' = None" and "heap_abs h' = (heap_abs h)(k \<mapsto> set_xmax u x, k' \<mapsto> new_version x d)"
    and "same_txns m m'" and "\<forall>j. lock_of m' j = (if j = k then Some x else lock_of m j)"
proof -
  obtain cs where cs: "logged None cs (m, h)" "room (Suc (Suc n)) cs (m, h)" "locks_inv (tm_locks m)"
    using inv by (auto simp: db_inv_def)
  obtain k' cs' m' h' where i: "txn_update_tuple x k d (m, h) = Some (Ok k', (m', h'))"
    "logged None cs' (m', h')" "room n cs' (m', h')" "heap_abs h k' = None"
    "heap_abs h' = (heap_abs h)(k \<mapsto> set_xmax u x, k' \<mapsto> new_version x d)" "locks_inv (tm_locks m')"
    "\<forall>j. lock_of m' j = (if j = k then Some x else lock_of m j)"
    by (rule update_law [OF cs free old d])
  show ?thesis using that i db_invI [OF i(2,3)] update_quiet [OF i(1)] by simp
qed

text \<open>Undoing changes nothing but the deleter of one tuple, and only of a tuple that is the transaction's own.\<close>

lemma undo_insert_run:
  assumes inv: "db_inv None (Suc n) (m, h)" and old: "heap_abs h k = Some u" and own: "t_xmin (header u) = x"
  obtains m' h' where "undo_insert x k (m, h) = (Ok (), (m', h'))" and "db_inv None n (m', h')"
    and "heap_abs h' = (heap_abs h)(k \<mapsto> set_xmax u x)" and "same_txns m m'" and "\<forall>j. lock_of m' j = lock_of m j"
proof -
  obtain cs where cs: "logged None cs (m, h)" "room (Suc n) cs (m, h)" using inv by (auto simp: db_inv_def)
  obtain w h' where r: "undo_insert x k (m, h) = (Ok (), (m\<lparr>tm_wal := w\<rparr>, h'))" "heap_abs h' = (heap_abs h)(k \<mapsto> set_xmax u x)"
    using undo_law(1) [OF cs old own] by blast
  show ?thesis
    using that r undo_inv [OF inv, of x k "Ok ()"] quietD [OF quiet_ops(2) r(1)] by (simp add: lock_of_def)
qed

lemma undo_delete_run:
  assumes inv: "db_inv None (Suc n) (m, h)" and old: "heap_abs h k = Some u" and own: "t_xmax (header u) = x"
  obtains m' h' where "undo_delete x k (m, h) = (Ok (), (m', h'))" and "db_inv None n (m', h')"
    and "heap_abs h' = (heap_abs h)(k \<mapsto> set_xmax u INVALID_XID)" and "same_txns m m'" and "\<forall>j. lock_of m' j = lock_of m j"
proof -
  obtain cs where cs: "logged None cs (m, h)" "room (Suc n) cs (m, h)" using inv by (auto simp: db_inv_def)
  obtain w h' where r: "undo_delete x k (m, h) = (Ok (), (m\<lparr>tm_wal := w\<rparr>, h'))"
    "heap_abs h' = (heap_abs h)(k \<mapsto> set_xmax u INVALID_XID)"
    using undo_law(3) [OF cs old own] by blast
  show ?thesis
    using that r undo_inv [OF inv, of x k "Ok ()"] quietD [OF quiet_ops(3) r(1)] by (simp add: lock_of_def)
qed

section \<open>What is stored\<close>

text \<open>The data of the tuples nobody deleted, as a map and as a multiset.\<close>

definition live :: "heap \<Rightarrow> tid \<rightharpoonup> byte list" where
  "live h k = (case heap_abs h k of Some t \<Rightarrow> if t_xmax (header t) = 0 then Some (tdata t) else None | None \<Rightarrow> None)"

definition live_data :: "heap \<Rightarrow> byte list multiset" where
  "live_data h = image_mset snd (mset_set {(k, d). live h k = Some d})"

lemma live_pick:
  assumes "heap_wf h"
  obtains res where "pick_pages (\<lambda>hd. t_xmax hd = 0) h [0..<unat (num_pages h)] = Ok res" and "distinct (map fst res)"
    and "\<forall>k d. (k, d) \<in> set (map (apsnd tdata) res) \<longleftrightarrow> live h k = Some d"
proof -
  obtain res where res: "pick_pages (\<lambda>hd. t_xmax hd = 0) h [0..<n_blocks h] = Ok res" "distinct (map fst res)"
    "\<forall>k t. (k, t) \<in> set res \<longleftrightarrow> unat (page_no k) < n_blocks h \<and> heap_abs h k = Some t \<and> t_xmax (header t) = 0"
    using pick_pages_law [OF assms, of "[0..<n_blocks h]" "\<lambda>hd. t_xmax hd = 0"] by (auto simp: lessThan_atLeast0)
  have "unat (page_no k) < n_blocks h" if "heap_abs h k = Some t" for k t
    using that by (auto simp: heap_abs_def heap_raw_def split: if_splits)
  then have "(k, d) \<in> set (map (apsnd tdata) res) \<longleftrightarrow> live h k = Some d" for k d
    using res(3) by (force simp: live_def split: option.splits)
  then show ?thesis using that [of res] res(1,2) by (simp add: unat_num_pages [OF assms])
qed

lemma live_finite:
  assumes "heap_wf h"
  shows "finite {(k, d). live h k = Some d}"
proof (rule live_pick [OF assms])
  fix res
  assume "\<forall>k d. (k, d) \<in> set (map (apsnd tdata) res) \<longleftrightarrow> live h k = Some d"
  then have "{(k, d). live h k = Some d} = set (map (apsnd tdata) res)" by auto
  then show ?thesis by (simp only: finite_set)
qed

lemma live_data_list:
  assumes "distinct (map fst res)" and "\<forall>k d. (k, d) \<in> set (map (apsnd tdata) res) \<longleftrightarrow> live h k = Some d"
  shows "mset (map (tdata \<circ> snd) res) = live_data h"
proof -
  let ?raw = "map (apsnd tdata) res"
  have "distinct ?raw" using assms(1) by (auto simp: distinct_map inj_on_def; fastforce)
  moreover have "set ?raw = {(k, d). live h k = Some d}" using assms(2) by auto
  ultimately have "mset ?raw = mset_set {(k, d). live h k = Some d}" by (metis mset_set_set)
  then have "image_mset snd (mset ?raw) = live_data h" by (simp add: live_data_def)
  then show ?thesis by (simp add: comp_def flip: mset_map)
qed

lemma live_data_new:
  assumes wf: "heap_wf h" and none: "live h k = None" and new: "live h' = (live h)(k \<mapsto> d)"
  shows "live_data h' = add_mset d (live_data h)"
proof -
  have "{(j, e). live h' j = Some e} = insert (k, d) {(j, e). live h j = Some e}"
    using none new by (auto split: if_splits)
  then show ?thesis using live_finite [OF wf] none by (simp add: live_data_def)
qed

lemma live_new_version: "heap_abs h' = (heap_abs h)(k \<mapsto> new_version x d) \<Longrightarrow> live h' = (live h)(k \<mapsto> d)"
  by (auto simp: live_def new_version_def fun_eq_iff)

end
