(* ===== verification/Catalog_Tables.thy ===== *)
theory Catalog_Tables
  imports Catalog_Manager Txn_Tables
begin

text \<open>
  The tables of the catalog and the operations of \<^verbatim>\<open>catalog/src/manager.rs\<close> that read and write them: namespaces,
  tables, columns and roles are rows of four heap files, written through the transaction manager and read by scans that
  ask for no transaction. Lookups go through caches in memory. An operation that takes write locks may fail to return,
  hence \<open>lop\<close>.
\<close>

section \<open>State\<close>

record catalog_db =
  registries :: catalog
  name_cache :: "u32 \<times> rstring \<rightharpoonup> u32"
  ns_cache :: "rstring \<rightharpoonup> u32"
  next_oid :: u32
  pg_class_heap :: heap
  pg_attribute_heap :: heap
  pg_authid_heap :: heap
  pg_namespace_heap :: heap

type_synonym cat_state = "txn_manager \<times> catalog_db"
type_synonym 'a cat_op = "(cat_state, catalog_error, 'a) sop"
type_synonym 'a cat_lop = "(cat_state, catalog_error, 'a) lop"

abbreviation "USER_OID_START \<equiv> 1000 :: u32"
abbreviation "OID_NS_PUBLIC \<equiv> 100 :: u32"
abbreviation "OID_NS_PG_CATALOG \<equiv> 101 :: u32"
abbreviation "OID_ROLE_SUPERUSER \<equiv> 10 :: u32"

text \<open>An operation of the transaction manager on one of the four files.\<close>

definition on_cat :: "(catalog_db \<Rightarrow> heap) \<Rightarrow> ((heap \<Rightarrow> heap) \<Rightarrow> catalog_db \<Rightarrow> catalog_db) \<Rightarrow> (db, txn_error, 'a) lop \<Rightarrow> 'a cat_lop" where
  "on_cat g u f s =
     (case f (fst s, g (snd s)) of
        None \<Rightarrow> None
      | Some (r, (m, h)) \<Rightarrow> Some (map_err (\<lambda>_. CatTxn) r, (m, u (\<lambda>_. h) (snd s))))"

abbreviation "on_class \<equiv> on_cat pg_class_heap pg_class_heap_update"
abbreviation "on_attribute \<equiv> on_cat pg_attribute_heap pg_attribute_heap_update"
abbreviation "on_authid \<equiv> on_cat pg_authid_heap pg_authid_heap_update"
abbreviation "on_namespace \<equiv> on_cat pg_namespace_heap pg_namespace_heap_update"

abbreviation cat_mod :: "(catalog_db \<Rightarrow> catalog_db) \<Rightarrow> unit cat_lop" where
  "cat_mod f \<equiv> ltotal (\<lambda>s. (Ok (), apsnd f s))"

abbreviation cat_get :: "(catalog_db \<Rightarrow> (catalog_error, 'a) outcome) \<Rightarrow> 'a cat_lop" where
  "cat_get f \<equiv> ltotal (slift (\<lambda>s. f (snd s)))"

section \<open>Rows\<close>

definition allocate_oid :: "u32 cat_lop" where
  "allocate_oid s = Some (Ok (next_oid (snd s)), (fst s, (snd s)\<lparr>next_oid := next_oid (snd s) + 1\<rparr>))"

definition insert_pg_class_row :: "xid \<Rightarrow> pg_class_row \<Rightarrow> unit cat_lop" where
  "insert_pg_class_row x r = lbind (on_class (ltotal (txn_insert_tuple x (pg_class_encode r)))) (\<lambda>_. ltotal (sret ()))"

definition insert_pg_attribute_row :: "xid \<Rightarrow> pg_attribute_row \<Rightarrow> unit cat_lop" where
  "insert_pg_attribute_row x r = lbind (on_attribute (ltotal (txn_insert_tuple x (pg_attribute_encode r)))) (\<lambda>_. ltotal (sret ()))"

definition insert_pg_authid_row :: "xid \<Rightarrow> pg_authid_row \<Rightarrow> unit cat_lop" where
  "insert_pg_authid_row x r = lbind (on_authid (ltotal (txn_insert_tuple x (pg_authid_encode r)))) (\<lambda>_. ltotal (sret ()))"

definition insert_namespace_row :: "xid \<Rightarrow> pg_namespace_row \<Rightarrow> unit cat_lop" where
  "insert_namespace_row x r = lbind (on_namespace (ltotal (txn_insert_tuple x (pg_namespace_encode r)))) (\<lambda>_. ltotal (sret ()))"

primrec lseq :: "('s, 'e, unit) lop list \<Rightarrow> ('s, 'e, unit) lop" where
  "lseq [] = ltotal (sret ())"
| "lseq (f # fs) = lbind f (\<lambda>_. lseq fs)"

definition raw_slot :: "u32 \<Rightarrow> page \<Rightarrow> nat \<Rightarrow> (tid \<times> byte list) option" where
  "raw_slot pn page i =
     (case page_get_tuple page (of_nat i) of
        Ok bytes \<Rightarrow>
          if length bytes < TUPLE_HEADER_SIZE then None
          else (case decode_from bytes of
            Ok h \<Rightarrow>
              if t_xmax h \<noteq> 0 then None
              else if length bytes < unat (t_hoff h) then None
              else Some (TID_new pn (of_nat i), drop (unat (t_hoff h)) bytes)
          | _ \<Rightarrow> None)
      | _ \<Rightarrow> None)"

primrec raw_pages :: "heap \<Rightarrow> nat list \<Rightarrow> (catalog_error, (tid \<times> byte list) list) outcome" where
  "raw_pages h [] = Ok []"
| "raw_pages h (i # is) =
     obind (map_err (\<lambda>_. CatHeap) (heap_read_page h (of_nat i))) (\<lambda>page.
     obind (raw_pages h is) (\<lambda>rest.
     Ok (List.map_filter (raw_slot (of_nat i) page) [0..<unat (num_slots page)] @ rest)))"

definition scan_raw_catalog_tuples :: "heap \<Rightarrow> (catalog_error, (tid \<times> byte list) list) outcome" where
  "scan_raw_catalog_tuples h = raw_pages h [0..<unat (num_pages h)]"

primrec decode_all :: "(byte list \<Rightarrow> ('e, 'a) outcome) \<Rightarrow> byte list list \<Rightarrow> ('e, 'a list) outcome" where
  "decode_all f [] = Ok []"
| "decode_all f (d # ds) = obind (f d) (\<lambda>r. obind (decode_all f ds) (\<lambda>rs. Ok (r # rs)))"

definition scan_all :: "(byte list \<Rightarrow> (catalog_error, 'a) outcome) \<Rightarrow> heap \<Rightarrow> (catalog_error, 'a list) outcome" where
  "scan_all f h = obind (scan_raw_catalog_tuples h) (\<lambda>raw. decode_all f (map snd raw))"

definition scan_all_pg_class_rows :: "catalog_db \<Rightarrow> (catalog_error, pg_class_row list) outcome" where
  "scan_all_pg_class_rows c = scan_all pg_class_decode (pg_class_heap c)"

definition scan_all_pg_attribute_rows :: "catalog_db \<Rightarrow> (catalog_error, pg_attribute_row list) outcome" where
  "scan_all_pg_attribute_rows c = scan_all pg_attribute_decode (pg_attribute_heap c)"

definition scan_all_namespace_rows :: "catalog_db \<Rightarrow> (catalog_error, pg_namespace_row list) outcome" where
  "scan_all_namespace_rows c = scan_all pg_namespace_decode (pg_namespace_heap c)"

definition scan_all_authid_rows :: "catalog_db \<Rightarrow> (catalog_error, pg_authid_row list) outcome" where
  "scan_all_authid_rows c = scan_all pg_authid_decode (pg_authid_heap c)"

section \<open>Namespaces and tables\<close>

definition cache_namespaces :: "pg_namespace_row list \<Rightarrow> (rstring \<rightharpoonup> u32) \<Rightarrow> (rstring \<rightharpoonup> u32)" where
  "cache_namespaces nss nc = foldl (\<lambda>nc r. nc(nspname r \<mapsto> ns_oid r)) nc nss"

definition resolve_namespace :: "rstring \<Rightarrow> u32 cat_lop" where
  "resolve_namespace schema_name =
     lbind (cat_get (\<lambda>c. Ok (ns_cache c schema_name))) (\<lambda>cached.
     case cached of
       Some oid \<Rightarrow> ltotal (sret oid)
     | None \<Rightarrow>
         lbind (cat_get scan_all_namespace_rows) (\<lambda>rows.
         lbind (cat_mod (\<lambda>c. c\<lparr>ns_cache := cache_namespaces rows (ns_cache c)\<rparr>)) (\<lambda>_.
         cat_get (\<lambda>c. ok_or (SchemaNotFound schema_name) (ns_cache c schema_name)))))"

definition class_row :: "u32 \<Rightarrow> rstring \<Rightarrow> u32 \<Rightarrow> u16 \<Rightarrow> pg_class_row" where
  "class_row oid name ns natts = \<lparr>cl_oid = oid, relname = name, relnamespace = ns, reltype = 0, relkind = 114,
     relnatts = natts, relpages = 0, reltuples = 0\<rparr>"

definition attribute_row :: "u32 \<Rightarrow> column_def \<Rightarrow> pg_attribute_row" where
  "attribute_row oid c = \<lparr>attrelid = oid, attname = col_name c, atttypid = type_oid (col_type c),
     atttypmod = typmod (col_type c), attnum = col_attnum c, attnotnull = not_null c, atthasdef = has_default c,
     attisdropped = False\<rparr>"

definition number_columns :: "column_def list \<Rightarrow> column_def list" where
  "number_columns cols = map (\<lambda>(i, c). c\<lparr>col_attnum := of_nat (i + 1)\<rparr>) (enumerate 0 cols)"

abbreviation cache_schema :: "(table_schema \<Rightarrow> table_schema) \<Rightarrow> u32 \<Rightarrow> catalog_db \<Rightarrow> catalog_db" where
  "cache_schema f oid c \<equiv> c\<lparr>registries := (registries c)\<lparr>schema_cache :=
     (case schema_cache (registries c) oid of
        None \<Rightarrow> schema_cache (registries c)
      | Some s \<Rightarrow> (schema_cache (registries c))(oid \<mapsto> f s))\<rparr>\<rparr>"

definition put_schema :: "table_schema \<Rightarrow> catalog_db \<Rightarrow> catalog_db" where
  "put_schema s c = c\<lparr>registries := (registries c)\<lparr>schema_cache := (schema_cache (registries c))(ts_oid s \<mapsto> s)\<rparr>\<rparr>"

definition create_table :: "xid \<Rightarrow> rstring \<Rightarrow> rstring \<Rightarrow> column_def list \<Rightarrow> u32 cat_lop" where
  "create_table x schema_name table_name cols =
     lbind (resolve_namespace schema_name) (\<lambda>ns.
     lbind (cat_get (\<lambda>c. if name_cache c (ns, table_name) \<noteq> None then Err (DuplicateTable table_name) else Ok ())) (\<lambda>_.
     lbind allocate_oid (\<lambda>oid.
     lbind (insert_pg_class_row x (class_row oid table_name ns (of_nat (length cols)))) (\<lambda>_.
     let numbered = number_columns cols in
     lbind (lseq (map (\<lambda>c. insert_pg_attribute_row x (attribute_row oid c)) numbered)) (\<lambda>_.
     lbind (cat_mod (put_schema \<lparr>ts_oid = oid, ts_name = table_name, namespace_oid = ns, columns = numbered,
       foreign_keys = [], check_constraints = []\<rparr>)) (\<lambda>_.
     lbind (cat_mod (\<lambda>c. c\<lparr>name_cache := (name_cache c)((ns, table_name) \<mapsto> oid)\<rparr>)) (\<lambda>_.
     ltotal (sret oid))))))))"

text \<open>Deleting the rows a condition selects.\<close>

definition matching :: "(byte list \<Rightarrow> ('e, 'a) outcome) \<Rightarrow> ('a \<Rightarrow> bool) \<Rightarrow> byte list \<Rightarrow> bool" where
  "matching f P d \<longleftrightarrow> (case f d of Ok r \<Rightarrow> P r | _ \<Rightarrow> False)"

definition delete_rows ::
  "(catalog_db \<Rightarrow> heap) \<Rightarrow> ((heap \<Rightarrow> heap) \<Rightarrow> catalog_db \<Rightarrow> catalog_db) \<Rightarrow> (byte list \<Rightarrow> bool) \<Rightarrow> xid \<Rightarrow> unit cat_lop" where
  "delete_rows g u P x =
     lbind (cat_get (\<lambda>c. scan_raw_catalog_tuples (g c))) (\<lambda>raw.
     lseq (map (\<lambda>(t, _). on_cat g u (txn_delete_tuple x t)) (filter (\<lambda>(_, d). P d) raw)))"

definition delete_pg_class_rows_for :: "xid \<Rightarrow> u32 \<Rightarrow> unit cat_lop" where
  "delete_pg_class_rows_for x oid =
     delete_rows pg_class_heap pg_class_heap_update (matching pg_class_decode (\<lambda>r. cl_oid r = oid)) x"

definition delete_pg_attribute_rows_for :: "xid \<Rightarrow> u32 \<Rightarrow> unit cat_lop" where
  "delete_pg_attribute_rows_for x oid =
     delete_rows pg_attribute_heap pg_attribute_heap_update (matching pg_attribute_decode (\<lambda>r. attrelid r = oid)) x"

definition named_table :: "rstring \<Rightarrow> rstring \<Rightarrow> (u32 \<times> u32) cat_lop" where
  "named_table schema_name table_name =
     lbind (resolve_namespace schema_name) (\<lambda>ns.
     cat_get (\<lambda>c. obind (ok_or (CatTableNotFound table_name) (name_cache c (ns, table_name))) (\<lambda>oid. Ok (ns, oid))))"

definition drop_table :: "xid \<Rightarrow> rstring \<Rightarrow> rstring \<Rightarrow> unit cat_lop" where
  "drop_table x schema_name table_name =
     lbind (named_table schema_name table_name) (\<lambda>(ns, oid).
     lbind (delete_pg_class_rows_for x oid) (\<lambda>_.
     lbind (delete_pg_attribute_rows_for x oid) (\<lambda>_.
     cat_mod (\<lambda>c. c\<lparr>registries := (registries c)\<lparr>schema_cache := (schema_cache (registries c))(oid := None),
                       check_registry := (check_registry (registries c))(oid := None)\<rparr>,
                    name_cache := (name_cache c)((ns, table_name) := None)\<rparr>))))"

definition stored_column :: "catalog \<Rightarrow> rstring \<Rightarrow> rstring \<Rightarrow> pg_attribute_row \<Rightarrow> (catalog_error, column_def) outcome" where
  "stored_column reg schema_name table_name a =
     (case from_oid (atttypid a) (atttypmod a) of
        None \<Rightarrow> Err CorruptCatalog
      | Some ty \<Rightarrow>
          let ser = sequences reg (sequence_key schema_name table_name (attname a)) \<noteq> None in
          Ok \<lparr>col_name = attname a, col_type = ty, not_null = attnotnull a, has_default = atthasdef a \<or> ser,
              default_expr = None, col_attnum = attnum a, serial = ser, references = None\<rparr>)"

primrec stored_columns :: "catalog \<Rightarrow> rstring \<Rightarrow> rstring \<Rightarrow> pg_attribute_row list \<Rightarrow> (catalog_error, column_def list) outcome" where
  "stored_columns reg sn tn [] = Ok []"
| "stored_columns reg sn tn (a # as) =
     obind (stored_column reg sn tn a) (\<lambda>c. obind (stored_columns reg sn tn as) (\<lambda>cs. Ok (c # cs)))"

text \<open>The part of \<^verbatim>\<open>get_table\<close> that reads the files.\<close>

definition table_on_disk :: "rstring \<Rightarrow> rstring \<Rightarrow> u32 \<Rightarrow> catalog_db \<Rightarrow> (catalog_error, table_schema) outcome" where
  "table_on_disk schema_name table_name ns c =
     obind (scan_all_pg_class_rows c) (\<lambda>classes.
     obind (scan_all_pg_attribute_rows c) (\<lambda>attrs.
     obind (ok_or (CatTableNotFound table_name) (find (\<lambda>r. relnamespace r = ns \<and> relname r = table_name) classes)) (\<lambda>cls.
     obind (stored_columns (registries c) schema_name table_name
       (sort_key (\<lambda>a. sint (attnum a)) (filter (\<lambda>a. attrelid a = cl_oid cls \<and> \<not> attisdropped a) attrs))) (\<lambda>cols.
     Ok \<lparr>ts_oid = cl_oid cls, ts_name = relname cls, namespace_oid = ns, columns = cols, foreign_keys = [],
         check_constraints = []\<rparr>))))"

definition get_table :: "rstring \<Rightarrow> rstring \<Rightarrow> table_schema cat_lop" where
  "get_table schema_name table_name =
     lbind (resolve_namespace schema_name) (\<lambda>ns.
     lbind (cat_get (\<lambda>c. Ok (Option.bind (name_cache c (ns, table_name)) (schema_cache (registries c))))) (\<lambda>cached.
     case cached of
       Some s \<Rightarrow> ltotal (sret s)
     | None \<Rightarrow>
         lbind (cat_get (table_on_disk schema_name table_name ns)) (\<lambda>s.
         lbind (cat_mod (put_schema s)) (\<lambda>_.
         lbind (cat_mod (\<lambda>c. c\<lparr>name_cache := (name_cache c)((ns, table_name) \<mapsto> ts_oid s)\<rparr>)) (\<lambda>_.
         ltotal (sret s))))))"

definition list_tables :: "rstring \<Rightarrow> rstring list cat_lop" where
  "list_tables schema_name =
     lbind (resolve_namespace schema_name) (\<lambda>ns.
     cat_get (\<lambda>c. obind (scan_all_pg_class_rows c) (\<lambda>rows.
       Ok (map relname (filter (\<lambda>r. relnamespace r = ns \<and> relkind r = 114) rows)))))"

definition get_table_oid :: "rstring \<Rightarrow> rstring \<Rightarrow> u32 cat_lop" where
  "get_table_oid schema_name table_name = lbind (named_table schema_name table_name) (\<lambda>(ns, oid). ltotal (sret oid))"

section \<open>Roles\<close>

definition create_role :: "xid \<Rightarrow> rstring \<Rightarrow> bool \<Rightarrow> bool \<Rightarrow> rstring option \<Rightarrow> u32 cat_lop" where
  "create_role x name super canlogin verifier =
     lbind (cat_get scan_all_authid_rows) (\<lambda>existing.
     if \<exists>r \<in> set existing. rolname r = name then ltotal (serr (DuplicateRole name))
     else
       lbind allocate_oid (\<lambda>oid.
       lbind (insert_pg_authid_row x \<lparr>ro_oid = oid, rolname = name, rolsuper = super, rolinherit = False,
         rolcreaterole = super, rolcreatedb = super, rolcanlogin = canlogin, rolbypassrls = False, rolpassword = verifier\<rparr>) (\<lambda>_.
       ltotal (sret oid))))"

definition get_role :: "catalog_db \<Rightarrow> rstring \<Rightarrow> (catalog_error, pg_authid_row) outcome" where
  "get_role c name =
     obind (scan_all_authid_rows c) (\<lambda>rows. ok_or (RoleNotFound name) (find (\<lambda>r. rolname r = name) rows))"

definition authenticate :: "catalog_db \<Rightarrow> rstring \<Rightarrow> rstring \<Rightarrow> (catalog_error, bool) outcome" where
  "authenticate c name password =
     obind (get_role c name) (\<lambda>role. Ok (case rolpassword role of Some verifier \<Rightarrow> verifier = password | None \<Rightarrow> False))"

definition create_namespace :: "rstring \<Rightarrow> bool \<Rightarrow> unit cat_lop" where
  "create_namespace name if_not_exists =
     lbind (cat_get (\<lambda>c. Ok (ns_cache c name \<noteq> None))) (\<lambda>known.
     if known then ltotal (if if_not_exists then sret () else serr (AlreadyExists (lit ''schema '' @ name)))
     else
       lbind (ltotal (\<lambda>s. case txn_begin ReadCommitted (fst s) of (x, m) \<Rightarrow> (Ok x, (m, snd s)))) (\<lambda>x.
       lbind allocate_oid (\<lambda>oid.
       lbind (insert_namespace_row x \<lparr>ns_oid = oid, nspname = name, nspowner = 0\<rparr>) (\<lambda>_.
       lbind (ltotal (smap_err (\<lambda>_. CatTxn) (szoom fst (\<lambda>m s. (m, snd s)) (txn_commit x)))) (\<lambda>_.
       cat_mod (\<lambda>c. c\<lparr>ns_cache := (ns_cache c)(name \<mapsto> oid)\<rparr>))))))"

section \<open>Changing tables\<close>

text \<open>The first row of a file that is selected is replaced by a changed version.\<close>

definition update_first ::
  "(catalog_db \<Rightarrow> heap) \<Rightarrow> ((heap \<Rightarrow> heap) \<Rightarrow> catalog_db \<Rightarrow> catalog_db) \<Rightarrow> (byte list \<Rightarrow> (catalog_error, 'r) outcome)
    \<Rightarrow> ('r \<Rightarrow> byte list) \<Rightarrow> ('r \<Rightarrow> bool) \<Rightarrow> ('r \<Rightarrow> 'r) \<Rightarrow> xid \<Rightarrow> unit cat_lop" where
  "update_first g u rd wr P f x =
     lbind (cat_get (\<lambda>c. scan_raw_catalog_tuples (g c))) (\<lambda>raw.
     case find (\<lambda>(t, d). matching rd P d) raw of
       None \<Rightarrow> ltotal (sret ())
     | Some (t, d) \<Rightarrow>
         (case rd d of
            Ok r \<Rightarrow> lbind (on_cat g u (txn_update_tuple x t (wr (f r)))) (\<lambda>_. ltotal (sret ()))
          | _ \<Rightarrow> ltotal (sret ())))"

definition update_attribute :: "u32 \<Rightarrow> rstring \<Rightarrow> (pg_attribute_row \<Rightarrow> pg_attribute_row) \<Rightarrow> xid \<Rightarrow> unit cat_lop" where
  "update_attribute oid col f x =
     update_first pg_attribute_heap pg_attribute_heap_update pg_attribute_decode pg_attribute_encode
       (\<lambda>a. attrelid a = oid \<and> attname a = col) f x"

text \<open>An error that is thrown away.\<close>

definition lignore :: "('s, 'e, unit) lop \<Rightarrow> ('s, 'e, unit) lop" where
  "lignore f s = (case f s of Some (Err e, s') \<Rightarrow> Some (Ok (), s') | r \<Rightarrow> r)"

primrec on_column :: "rstring \<Rightarrow> (column_def \<Rightarrow> column_def) \<Rightarrow> column_def list \<Rightarrow> column_def list" where
  "on_column col f [] = []"
| "on_column col f (c # cs) = (if col_name c = col then f c # cs else c # on_column col f cs)"

definition alter_table_add_column :: "xid \<Rightarrow> rstring \<Rightarrow> rstring \<Rightarrow> rstring \<Rightarrow> unit cat_lop" where
  "alter_table_add_column x schema_name table_name col =
     lbind (named_table schema_name table_name) (\<lambda>(ns, oid).
     lbind (cat_get (\<lambda>c. ok_or (CatTableNotFound table_name) (schema_cache (registries c) oid))) (\<lambda>s.
     let new = \<lparr>col_name = col, col_type = TText, not_null = False, has_default = False, default_expr = None,
                col_attnum = of_nat (length (columns s) + 1), serial = False, references = None\<rparr> in
     lbind (insert_pg_attribute_row x (attribute_row oid new)) (\<lambda>_.
     cat_mod (put_schema (s\<lparr>ts_oid := oid, columns := columns s @ [new]\<rparr>)))))"

definition alter_table_drop_column :: "xid \<Rightarrow> rstring \<Rightarrow> rstring \<Rightarrow> rstring \<Rightarrow> unit cat_lop" where
  "alter_table_drop_column x schema_name table_name col =
     lbind (named_table schema_name table_name) (\<lambda>(ns, oid).
     lbind (update_attribute oid col (\<lambda>a. a\<lparr>attisdropped := True\<rparr>) x) (\<lambda>_.
     cat_mod (cache_schema (\<lambda>s. s\<lparr>columns := filter (\<lambda>c. col_name c \<noteq> col) (columns s)\<rparr>) oid)))"

definition alter_table_rename_column :: "xid \<Rightarrow> rstring \<Rightarrow> rstring \<Rightarrow> rstring \<Rightarrow> rstring \<Rightarrow> unit cat_lop" where
  "alter_table_rename_column x schema_name table_name old new =
     lbind (named_table schema_name table_name) (\<lambda>(ns, oid).
     lbind (update_attribute oid old (\<lambda>a. a\<lparr>attname := new\<rparr>) x) (\<lambda>_.
     cat_mod (cache_schema (\<lambda>s. s\<lparr>columns := on_column old (\<lambda>c. c\<lparr>col_name := new\<rparr>) (columns s)\<rparr>) oid)))"

text \<open>The next two run as transaction number 0 and ignore the error.\<close>

definition alter_column_type :: "rstring \<Rightarrow> rstring \<Rightarrow> rstring \<Rightarrow> data_type \<Rightarrow> unit cat_lop" where
  "alter_column_type schema_name table_name col ty =
     lbind (named_table schema_name table_name) (\<lambda>(ns, oid).
     lbind (cat_get (\<lambda>c. scan_raw_catalog_tuples (pg_attribute_heap c))) (\<lambda>_.
     lbind (lignore (update_attribute oid col (\<lambda>a. a\<lparr>atttypid := type_oid ty, atttypmod := typmod ty\<rparr>) 0)) (\<lambda>_.
     cat_mod (cache_schema (\<lambda>s. s\<lparr>columns := on_column col (\<lambda>c. c\<lparr>col_type := ty\<rparr>) (columns s)\<rparr>) oid))))"

definition alter_column_not_null :: "rstring \<Rightarrow> rstring \<Rightarrow> rstring \<Rightarrow> bool \<Rightarrow> unit cat_lop" where
  "alter_column_not_null schema_name table_name col nn =
     lbind (named_table schema_name table_name) (\<lambda>(ns, oid).
     lbind (cat_get (\<lambda>c. scan_raw_catalog_tuples (pg_attribute_heap c))) (\<lambda>_.
     lbind (lignore (update_attribute oid col (\<lambda>a. a\<lparr>attnotnull := nn\<rparr>) 0)) (\<lambda>_.
     cat_mod (cache_schema (\<lambda>s. s\<lparr>columns := on_column col (\<lambda>c. c\<lparr>not_null := nn\<rparr>) (columns s)\<rparr>) oid))))"

definition alter_column_default :: "rstring \<Rightarrow> rstring \<Rightarrow> rstring \<Rightarrow> rstring option \<Rightarrow> unit cat_lop" where
  "alter_column_default schema_name table_name col dflt =
     lbind (named_table schema_name table_name) (\<lambda>(ns, oid).
     cat_mod (cache_schema (\<lambda>s. s\<lparr>columns :=
       on_column col (\<lambda>c. c\<lparr>has_default := (dflt \<noteq> None), default_expr := dflt\<rparr>) (columns s)\<rparr>) oid))"

definition alter_table_rename_table :: "xid \<Rightarrow> rstring \<Rightarrow> rstring \<Rightarrow> rstring \<Rightarrow> unit cat_lop" where
  "alter_table_rename_table x schema_name old new =
     lbind (named_table schema_name old) (\<lambda>(ns, oid).
     lbind (update_first pg_class_heap pg_class_heap_update pg_class_decode pg_class_encode
       (\<lambda>r. cl_oid r = oid) (\<lambda>r. r\<lparr>relname := new\<rparr>) x) (\<lambda>_.
     lbind (cat_mod (\<lambda>c. c\<lparr>name_cache := ((name_cache c)((ns, old) := None))((ns, new) \<mapsto> oid)\<rparr>)) (\<lambda>_.
     cat_mod (cache_schema (\<lambda>s. s\<lparr>ts_name := new\<rparr>) oid))))"

section \<open>Opening the catalog\<close>

definition next_free_oid :: "u32 \<Rightarrow> u32 list \<Rightarrow> u32" where
  "next_free_oid start oids = foldl (\<lambda>mx oid. if mx \<le> oid then oid + 1 else mx) start oids"

definition load_table :: "pg_attribute_row list \<Rightarrow> catalog_db \<Rightarrow> pg_class_row \<Rightarrow> (catalog_error, catalog_db) outcome" where
  "load_table attrs c cls =
     (if cl_oid cls < USER_OID_START then Ok c
      else
        let schema_name = (if relnamespace cls = OID_NS_PUBLIC then lit ''public'' else lit ''pg_catalog'') in
        obind (stored_columns (registries c) schema_name (relname cls)
          (filter (\<lambda>a. \<not> attisdropped a) (sort_key (\<lambda>a. sint (attnum a)) (filter (\<lambda>a. attrelid a = cl_oid cls) attrs)))) (\<lambda>cols.
        Ok ((put_schema \<lparr>ts_oid = cl_oid cls, ts_name = relname cls, namespace_oid = relnamespace cls, columns = cols,
              foreign_keys = get_foreign_keys (registries c) (cl_oid cls), check_constraints = []\<rparr> c)
            \<lparr>name_cache := (name_cache c)((relnamespace cls, relname cls) \<mapsto> cl_oid cls)\<rparr>)))"

primrec load_tables :: "pg_attribute_row list \<Rightarrow> pg_class_row list \<Rightarrow> catalog_db \<Rightarrow> (catalog_error, catalog_db) outcome" where
  "load_tables attrs [] c = Ok c"
| "load_tables attrs (r # rs) c = obind (load_table attrs c r) (load_tables attrs rs)"

definition load_from_disk :: "catalog_db \<Rightarrow> (catalog_error, catalog_db) outcome" where
  "load_from_disk c =
     obind (scan_all_namespace_rows c) (\<lambda>nss.
     obind (scan_all_pg_class_rows c) (\<lambda>classes.
     obind (scan_all_pg_attribute_rows c) (\<lambda>attrs.
     obind (load_tables attrs classes (c\<lparr>ns_cache := cache_namespaces nss (ns_cache c)\<rparr>)) (\<lambda>c'.
     Ok (c'\<lparr>next_oid := next_free_oid USER_OID_START (map cl_oid classes)\<rparr>)))))"

text \<open>The caches of a manager before anything is loaded.\<close>

definition empty_caches :: "catalog_db \<Rightarrow> catalog_db" where
  "empty_caches c = c\<lparr>name_cache := Map.empty, ns_cache := Map.empty, next_oid := USER_OID_START,
     registries := (registries c)\<lparr>schema_cache := Map.empty, unique_registry := Map.empty, check_registry := Map.empty,
       index_registry := [], fn_registry := [], sequences := load_sequences_from_disk (seq_files (registries c)),
       table_acls := load_acls_from_disk (acl_files (registries c))\<rparr>\<rparr>"

definition system_columns :: "u32 \<Rightarrow> bool \<Rightarrow> (string \<times> u32) list \<Rightarrow> pg_attribute_row list" where
  "system_columns oid nn cols =
     map (\<lambda>(i, name, ty). \<lparr>attrelid = oid, attname = lit name, atttypid = ty, atttypmod = - 1, attnum = of_nat (i + 1),
       attnotnull = nn, atthasdef = False, attisdropped = False\<rparr>) (enumerate 0 cols)"

definition bootstrap_attributes :: "pg_attribute_row list" where
  "bootstrap_attributes =
     system_columns 1 True
       [(''oid'', OID_TYPE_INT4), (''relname'', OID_TYPE_TEXT), (''relnamespace'', OID_TYPE_INT4), (''reltype'', OID_TYPE_INT4),
        (''relkind'', OID_TYPE_INT4), (''relnatts'', OID_TYPE_INT4), (''relpages'', OID_TYPE_INT4), (''reltuples'', OID_TYPE_FLOAT8)]
     @ system_columns 2 True
       [(''attrelid'', OID_TYPE_INT4), (''attname'', OID_TYPE_TEXT), (''atttypid'', OID_TYPE_INT4), (''atttypmod'', OID_TYPE_INT4),
        (''attnum'', OID_TYPE_INT4), (''attnotnull'', OID_TYPE_BOOL), (''atthasdef'', OID_TYPE_BOOL), (''attisdropped'', OID_TYPE_BOOL)]
     @ system_columns 3 False
       [(''oid'', OID_TYPE_INT4), (''rolname'', OID_TYPE_TEXT), (''rolsuper'', OID_TYPE_BOOL), (''rolinherit'', OID_TYPE_BOOL),
        (''rolcreaterole'', OID_TYPE_BOOL), (''rolcreatedb'', OID_TYPE_BOOL), (''rolcanlogin'', OID_TYPE_BOOL),
        (''rolbypassrls'', OID_TYPE_BOOL), (''rolpassword'', OID_TYPE_TEXT)]
     @ system_columns 4 True
       [(''oid'', OID_TYPE_INT4), (''nspname'', OID_TYPE_TEXT), (''nspowner'', OID_TYPE_INT4)]"

definition bootstrap :: "unit cat_lop" where
  "bootstrap =
     lbind (ltotal (\<lambda>s. case txn_begin ReadCommitted (fst s) of (x, m) \<Rightarrow> (Ok x, (m, snd s)))) (\<lambda>x.
     lbind (insert_namespace_row x \<lparr>ns_oid = OID_NS_PUBLIC, nspname = lit ''public'', nspowner = OID_ROLE_SUPERUSER\<rparr>) (\<lambda>_.
     lbind (insert_namespace_row x \<lparr>ns_oid = OID_NS_PG_CATALOG, nspname = lit ''pg_catalog'', nspowner = OID_ROLE_SUPERUSER\<rparr>) (\<lambda>_.
     lbind (lseq (map (\<lambda>(name, oid, natts). insert_pg_class_row x (class_row oid (lit name) OID_NS_PG_CATALOG natts))
       [(''pg_class'', 1, 8), (''pg_attribute'', 2, 8), (''pg_authid'', 3, 9), (''pg_namespace'', 4, 3)])) (\<lambda>_.
     lbind (lseq (map (insert_pg_attribute_row x) bootstrap_attributes)) (\<lambda>_.
     lbind (insert_pg_authid_row x \<lparr>ro_oid = OID_ROLE_SUPERUSER, rolname = lit ''icedb'', rolsuper = True, rolinherit = True,
       rolcreaterole = True, rolcreatedb = True, rolcanlogin = True, rolbypassrls = True, rolpassword = None\<rparr>) (\<lambda>_.
     lbind (ltotal (smap_err (\<lambda>_. CatTxn) (szoom fst (\<lambda>m s. (m, snd s)) (txn_commit x)))) (\<lambda>_.
     cat_mod (\<lambda>c. c\<lparr>ns_cache := (ns_cache c)(lit ''public'' \<mapsto> OID_NS_PUBLIC, lit ''pg_catalog'' \<mapsto> OID_NS_PG_CATALOG)\<rparr>))))))))"

text \<open>Opening the catalog: \<open>exists\<close> tells whether the file of \<^verbatim>\<open>pg_class\<close> was there.\<close>

definition open_catalog :: "bool \<Rightarrow> unit cat_lop" where
  "open_catalog exists =
     lbind (cat_mod empty_caches) (\<lambda>_.
     if exists then ltotal (\<lambda>s. case load_from_disk (snd s) of
         Ok c \<Rightarrow> (Ok (), (fst s, c)) | Err e \<Rightarrow> (Err e, s) | Panic \<Rightarrow> (Panic, s))
     else bootstrap)"

section \<open>Reading the files\<close>

lemma raw_slot_pick: "raw_slot pn p i = map_option (apsnd tdata) (pick_slot (\<lambda>h. t_xmax h = 0) pn p i)"
  by (auto simp: raw_slot_def pick_slot_def Tuple_decode_def decode_from_def Let_def split: outcome.splits)

lemma map_filter_map_option: "List.map_filter (\<lambda>x. map_option f (g x)) xs = map f (List.map_filter g xs)"
  by (induction xs) (auto simp: map_filter_simps split: option.splits)

lemma raw_pages_pick:
  "raw_pages h is = map_err (\<lambda>_. CatHeap) (obind (pick_pages (\<lambda>h. t_xmax h = 0) h is) (\<lambda>ts. Ok (map (apsnd tdata) ts)))"
proof (induction "is")
  case (Cons i "is")
  have "List.map_filter (raw_slot (of_nat i) p) [0..<unat (num_slots p)] = map (apsnd tdata) (pick_page (\<lambda>h. t_xmax h = 0) (of_nat i) p)" for p
    by (simp add: raw_slot_pick [abs_def] map_filter_map_option pick_page_def)
  then show ?case
    using Cons by (cases "heap_read_page h (of_nat i)"; cases "pick_pages (\<lambda>h. t_xmax h = 0) h is") simp_all
qed simp

lemma raw_law:
  assumes "heap_wf h"
  obtains raw where "scan_raw_catalog_tuples h = Ok raw" and "mset (map snd raw) = live_data h"
    and "distinct (map fst raw)" and "\<forall>k d. (k, d) \<in> set raw \<longleftrightarrow> live h k = Some d"
proof (rule live_pick [OF assms])
  fix res
  assume res: "pick_pages (\<lambda>hd. t_xmax hd = 0) h [0..<unat (num_pages h)] = Ok res" "distinct (map fst res)"
    "\<forall>k d. (k, d) \<in> set (map (apsnd tdata) res) \<longleftrightarrow> live h k = Some d"
  show ?thesis
    using that [of "map (apsnd tdata) res"] res live_data_list [OF res(2,3)]
    by (simp add: scan_raw_catalog_tuples_def raw_pages_pick comp_def)
qed

lemma decode_all_Ok: "\<forall>d \<in> set ds. f d = Ok (g d) \<Longrightarrow> decode_all f ds = Ok (map g ds)"
  by (induction ds) simp_all

lemma scan_all_law:
  assumes "heap_wf h" and "\<forall>d \<in># live_data h. f d = Ok (g d)"
  obtains rs where "scan_all f h = Ok rs" and "mset rs = image_mset g (live_data h)"
proof (rule raw_law [OF assms(1)])
  fix raw
  assume raw: "scan_raw_catalog_tuples h = Ok raw" "mset (map snd raw) = live_data h"
  have "\<forall>d \<in> set (map snd raw). f d = Ok (g d)" using assms(2) raw(2) by (metis set_mset_mset)
  then have "scan_all f h = Ok (map g (map snd raw))" using raw(1) decode_all_Ok [of "map snd raw" f g] by (simp add: scan_all_def)
  then show ?thesis using that raw(2) by (metis mset_map)
qed

lemma sort_key_unique:
  assumes "mset xs = mset ys" and "sorted (map f ys)" and "distinct (map f ys)"
  shows "sort_key f xs = ys"
proof (rule properties_for_sort_key)
  show "mset ys = mset xs" using assms(1) by simp
  show "filter (\<lambda>x. f k = f x) ys = filter (\<lambda>x. f k = f x) xs" if "k \<in> set ys" for k
  proof -
    have "filter (\<lambda>x. f k = f x) ys = filter ((=) k) ys"
      by (rule filter_cong) (use assms(3) that in \<open>auto simp: distinct_map inj_on_def\<close>)
    moreover have "distinct ys" using assms(3) by (simp add: distinct_map)
    then have "filter ((=) k) ys = [k]" using that by (induction ys) (auto simp: filter_empty_conv)
    ultimately have one: "filter (\<lambda>x. f k = f x) ys = [k]" by simp
    have "mset (filter (\<lambda>x. f k = f x) xs) = mset (filter (\<lambda>x. f k = f x) ys)" using assms(1) by simp
    then have "filter (\<lambda>x. f k = f x) xs = [k]" unfolding one by (metis mset_single_iff mset.simps)
    then show ?thesis using one by simp
  qed
qed (rule assms(2))

definition decoded :: "(byte list \<Rightarrow> ('e, 'a) outcome) \<Rightarrow> byte list \<Rightarrow> 'a" where
  "decoded f d = (case f d of Ok r \<Rightarrow> r)"

lemma find_the:
  assumes "r \<in> set xs" and "P r" and "\<And>y. y \<in> set xs \<Longrightarrow> P y \<Longrightarrow> y = r"
  shows "find P xs = Some r"
proof (cases "find P xs")
  case None
  then show ?thesis using assms(1,2) by (simp add: find_None_iff)
next
  case (Some y)
  then have "y \<in> set xs" "P y" using nth_mem by (auto simp: find_Some_iff)
  from assms(3) [OF this] show ?thesis using Some by simp
qed

section \<open>Writing the files\<close>

text \<open>
  Inserting a row in one of the files; \<open>g\<close> and \<open>u\<close> read and write it.
\<close>

lemma on_cat_insert:
  assumes inv: "db_inv None (Suc n) (m, g c)" and d: "length d \<le> 8140"
  obtains k m' h' where "on_cat g u (ltotal (txn_insert_tuple x d)) (m, c) = Some (Ok k, (m', u (\<lambda>_. h') c))"
    and "db_inv None n (m', h')" and "live_data h' = add_mset d (live_data (g c))"
    and "\<forall>h2 j. db_inv None (n + j) (m, h2) \<longrightarrow> db_inv None n (m', h2)" and "same_txns m m'"
proof -
  obtain k m' h' where i: "txn_insert_tuple x d (m, g c) = (Ok k, (m', h'))" "db_inv None n (m', h')"
    "heap_abs (g c) k = None" "heap_abs h' = (heap_abs (g c))(k \<mapsto> new_version x d)" "same_txns m m'"
    by (rule insert_run [OF inv d])
  have "live_data h' = add_mset d (live_data (g c))"
    using live_data_new [OF _ _ live_new_version [OF i(4)]] table_invD(2) [OF db_inv_facts(1) [OF inv]] i(3)
    by (simp add: live_def)
  then show ?thesis using that i db_inv_move [OF i(2)] by (simp add: on_cat_def) blast
qed

lemma row_lengths [simp]:
  "length (pg_class_encode r) = 29 + length (relname r)" "length (pg_attribute_encode a) = 19 + length (attname a)"
  by (simp_all add: pg_class_encode_def pg_attribute_encode_def row_defs)

lemma insert_attributes:
  assumes "db_inv None (n + length cols) (m, pg_attribute_heap c)" and "\<forall>col \<in> set cols. length (col_name col) \<le> 8000"
  shows "\<exists>m' h'. lseq (map (\<lambda>col. insert_pg_attribute_row x (attribute_row oid col)) cols) (m, c)
      = Some (Ok (), (m', c\<lparr>pg_attribute_heap := h'\<rparr>))
    \<and> db_inv None n (m', h') \<and> live_data h' = image_mset (\<lambda>col. pg_attribute_encode (attribute_row oid col)) (mset cols) + live_data (pg_attribute_heap c)
    \<and> (\<forall>h2 j. db_inv None (n + length cols + j) (m, h2) \<longrightarrow> db_inv None n (m', h2)) \<and> same_txns m m'"
  using assms
proof (induction cols arbitrary: m c)
  case Nil
  then show ?case using db_inv_mono [of None _ "(m, h2)" n for h2] by (auto intro!: exI [of _ "pg_attribute_heap c"] simp: sret_def)
next
  case (Cons col cols)
  let ?d = "pg_attribute_encode (attribute_row oid col)"
  have d: "length ?d \<le> 8140" using Cons.prems(2) by (simp add: attribute_row_def)
  have inv: "db_inv None (Suc (n + length cols)) (m, pg_attribute_heap c)" using Cons.prems(1) by simp
  obtain k m1 h1 where 1: "on_attribute (ltotal (txn_insert_tuple x ?d)) (m, c) = Some (Ok k, (m1, c\<lparr>pg_attribute_heap := h1\<rparr>))"
    "db_inv None (n + length cols) (m1, h1)" "live_data h1 = add_mset ?d (live_data (pg_attribute_heap c))"
    "\<forall>h2 j. db_inv None (n + length cols + j) (m, h2) \<longrightarrow> db_inv None (n + length cols) (m1, h2)" "same_txns m m1"
    by (rule on_cat_insert [where g = pg_attribute_heap and u = pg_attribute_heap_update and c = c and x = x, OF inv d])
  have inv1: "db_inv None (n + length cols) (m1, pg_attribute_heap (c\<lparr>pg_attribute_heap := h1\<rparr>))" using 1(2) by simp
  have len: "\<forall>col \<in> set cols. length (col_name col) \<le> 8000" using Cons.prems(2) by simp
  obtain m' h' where 2: "lseq (map (\<lambda>col. insert_pg_attribute_row x (attribute_row oid col)) cols) (m1, c\<lparr>pg_attribute_heap := h1\<rparr>)
      = Some (Ok (), (m', c\<lparr>pg_attribute_heap := h'\<rparr>))"
    "db_inv None n (m', h')" "live_data h' = image_mset (\<lambda>col. pg_attribute_encode (attribute_row oid col)) (mset cols) + live_data h1"
    "\<forall>h2 j. db_inv None (n + length cols + j) (m1, h2) \<longrightarrow> db_inv None n (m', h2)" "same_txns m1 m'"
    using Cons.IH [OF inv1 len] by auto
  have "db_inv None n (m', h2)" if "db_inv None (n + length (col # cols) + j) (m, h2)" for h2 j
    using 1(4) [rule_format, of "Suc j" h2] 2(4) [rule_format, of 0 h2] that by simp
  moreover have "insert_pg_attribute_row x (attribute_row oid col) (m, c) = Some (Ok (), (m1, c\<lparr>pg_attribute_heap := h1\<rparr>))"
    using 1(1) by (simp add: insert_pg_attribute_row_def sret_def)
  ultimately show ?case using 1(3) 2 same_txns_trans [OF 1(5) 2(5)] by auto
qed

text \<open>What the files keep of a column: the default expression and the reference are lost.\<close>

definition restored :: "catalog \<Rightarrow> rstring \<Rightarrow> rstring \<Rightarrow> column_def \<Rightarrow> column_def" where
  "restored reg sn tn c =
     (let ser = sequences reg (sequence_key sn tn (col_name c)) \<noteq> None in
      c\<lparr>has_default := has_default c \<or> ser, default_expr := None, serial := ser, references := None\<rparr>)"

lemma stored_columns_restored:
  "\<forall>c \<in> set cols. restorable (col_type c) \<Longrightarrow>
    stored_columns reg sn tn (map (attribute_row oid) cols) = Ok (map (restored reg sn tn) cols)"
  by (induction cols) (auto simp: stored_column_def attribute_row_def restored_def column_type_restored Let_def)

lemma number_columns_nth:
  "length (number_columns cols) = length cols"
  "i < length cols \<Longrightarrow> number_columns cols ! i = (cols ! i)\<lparr>col_attnum := of_nat (Suc i)\<rparr>"
  by (simp_all add: number_columns_def nth_enumerate_eq)

lemma number_columns_set:
  "col \<in> set (number_columns cols) \<Longrightarrow> \<exists>c \<in> set cols. col_name col = col_name c \<and> col_type col = col_type c"
  by (force simp: in_set_conv_nth number_columns_nth)

lemma column_order:
  assumes "length cols < 2 ^ 15"
  shows "map (\<lambda>a. sint (attnum a)) (map (attribute_row oid) (number_columns cols)) = map (\<lambda>i. int (Suc i)) [0..<length cols]"
proof (rule nth_equalityI)
  fix i
  assume "i < length (map (\<lambda>a. sint (attnum a)) (map (attribute_row oid) (number_columns cols)))"
  then have i: "i < length cols" by (simp add: number_columns_nth)
  then have "sint (word_of_nat (Suc i) :: u16) = int (Suc i)"
    using assms by (subst signed_of_nat) (simp add: signed_take_bit_int_eq_self)
  then show "map (\<lambda>a. sint (attnum a)) (map (attribute_row oid) (number_columns cols)) ! i = map (\<lambda>i. int (Suc i)) [0..<length cols] ! i"
    using i by (simp add: number_columns_nth attribute_row_def)
qed (simp add: number_columns_nth)

lemma create_table_run:
  assumes "ns_cache c sn = Some ns" and "name_cache c (ns, tn) = None"
    and class_inv: "db_inv None (Suc n + length cols) (m, pg_class_heap c)"
    and attr_inv: "db_inv None (Suc n + length cols) (m, pg_attribute_heap c)"
    and names: "length tn \<le> 8000" "\<forall>col \<in> set cols. length (col_name col) \<le> 8000"
  defines "oid \<equiv> next_oid c"
  obtains m' c' where "create_table x sn tn cols (m, c) = Some (Ok oid, (m', c'))"
    and "live_data (pg_class_heap c') = add_mset (pg_class_encode (class_row oid tn ns (of_nat (length cols)))) (live_data (pg_class_heap c))"
    and "live_data (pg_attribute_heap c') =
      image_mset (\<lambda>col. pg_attribute_encode (attribute_row oid col)) (mset (number_columns cols)) + live_data (pg_attribute_heap c)"
    and "db_inv None n (m', pg_class_heap c')" and "db_inv None n (m', pg_attribute_heap c')" and "same_txns m m'"
    and "next_oid c' = oid + 1" and "pg_namespace_heap c' = pg_namespace_heap c"
proof -
  let ?d = "pg_class_encode (class_row oid tn ns (of_nat (length cols)))"
  let ?c0 = "c\<lparr>next_oid := oid + 1\<rparr>"
  have d: "length ?d \<le> 8140" using names(1) by (simp add: class_row_def)
  have inv: "db_inv None (Suc (n + length cols)) (m, pg_class_heap ?c0)" using class_inv by simp
  obtain k m1 h1 where 1: "on_class (ltotal (txn_insert_tuple x ?d)) (m, ?c0) = Some (Ok k, (m1, ?c0\<lparr>pg_class_heap := h1\<rparr>))"
    "db_inv None (n + length cols) (m1, h1)" "live_data h1 = add_mset ?d (live_data (pg_class_heap ?c0))"
    "\<forall>h2 j. db_inv None (n + length cols + j) (m, h2) \<longrightarrow> db_inv None (n + length cols) (m1, h2)" "same_txns m m1"
    by (rule on_cat_insert [where g = pg_class_heap and u = pg_class_heap_update and c = ?c0 and x = x, OF inv d])
  let ?c1 = "?c0\<lparr>pg_class_heap := h1\<rparr>" and ?cols = "number_columns cols"
  have inv1: "db_inv None (n + length ?cols) (m1, pg_attribute_heap ?c1)"
    using 1(4) [rule_format, of 1 "pg_attribute_heap c"] attr_inv by (simp add: number_columns_nth)
  have len: "\<forall>col \<in> set ?cols. length (col_name col) \<le> 8000" using names(2) number_columns_set by fastforce
  obtain m' h' where 2: "lseq (map (\<lambda>col. insert_pg_attribute_row x (attribute_row oid col)) ?cols) (m1, ?c1)
      = Some (Ok (), (m', ?c1\<lparr>pg_attribute_heap := h'\<rparr>))" "db_inv None n (m', h')"
    "live_data h' = image_mset (\<lambda>col. pg_attribute_encode (attribute_row oid col)) (mset ?cols) + live_data (pg_attribute_heap ?c1)"
    "\<forall>h2 j. db_inv None (n + length ?cols + j) (m1, h2) \<longrightarrow> db_inv None n (m', h2)" "same_txns m1 m'"
    using insert_attributes [OF inv1 len, of x oid] by blast
  have keep: "db_inv None n (m', h1)" using 2(4) [rule_format, of 0 h1] 1(2) by (simp add: number_columns_nth)
  have "insert_pg_class_row x (class_row oid tn ns (of_nat (length cols))) (m, ?c0) = Some (Ok (), (m1, ?c1))"
    using 1(1) by (simp add: insert_pg_class_row_def sret_def)
  then show ?thesis
    using that [OF _ _ _ _ _ same_txns_trans [OF 1(5) 2(5)]] 1(3) 2(1-3) keep assms(1,2)
    by (simp add: create_table_def resolve_namespace_def allocate_oid_def oid_def put_schema_def slift_def sret_def Let_def)
qed

text \<open>
  \<^bold>\<open>C23.\<close> A created table is found again from the files alone, by a manager whose caches are empty, whatever has become of the
  transaction that created it: with its number, name and namespace and its columns in order, each with its name, type and null
  constraint. Default expressions and references are lost and serial columns are recognised by their sequence
  (\<open>restored\<close>). Columns of JSON and array types are left out, which the code cannot reload. The hypotheses say that
  the new table is new in the files too.
\<close>

theorem created_table_is_found_on_disk:
  assumes "ns_cache c sn = Some ns" and "name_cache c (ns, tn) = None"
    and "db_inv None (Suc (length cols)) (m, pg_class_heap c)" and "db_inv None (Suc (length cols)) (m, pg_attribute_heap c)"
    and "name_ok tn" "length tn \<le> 8000" and "length cols < 2 ^ 15"
    and cols: "\<forall>col \<in> set cols. name_ok (col_name col) \<and> length (col_name col) \<le> 8000 \<and> restorable (col_type col)"
    and old_classes: "\<forall>d \<in># live_data (pg_class_heap c). pg_class_decode d = Ok (cls d) \<and> (relnamespace (cls d), relname (cls d)) \<noteq> (ns, tn)"
    and old_attrs: "\<forall>d \<in># live_data (pg_attribute_heap c). pg_attribute_decode d = Ok (att d) \<and> attrelid (att d) \<noteq> next_oid c"
  shows "\<exists>m' c'. create_table x sn tn cols (m, c) = Some (Ok (next_oid c), (m', c'))
    \<and> (\<forall>c2. pg_class_heap c2 = pg_class_heap c' \<and> pg_attribute_heap c2 = pg_attribute_heap c' \<longrightarrow>
        table_on_disk sn tn ns c2 = Ok \<lparr>ts_oid = next_oid c, ts_name = tn, namespace_oid = ns,
          columns = map (restored (registries c2) sn tn) (number_columns cols), foreign_keys = [], check_constraints = []\<rparr>)"
proof -
  let ?oid = "next_oid c" and ?cols = "number_columns cols"
  let ?row = "class_row ?oid tn ns (of_nat (length cols))"
  obtain m' c' where run: "create_table x sn tn cols (m, c) = Some (Ok ?oid, (m', c'))"
    and cl: "live_data (pg_class_heap c') = add_mset (pg_class_encode ?row) (live_data (pg_class_heap c))"
    and at: "live_data (pg_attribute_heap c') =
      image_mset (\<lambda>col. pg_attribute_encode (attribute_row ?oid col)) (mset ?cols) + live_data (pg_attribute_heap c)"
    and inv: "db_inv None 0 (m', pg_class_heap c')" "db_inv None 0 (m', pg_attribute_heap c')"
    by (rule create_table_run [where n = 0 and m = m and c = c and sn = sn and ns = ns and tn = tn and cols = cols and x = x])
      (use assms(1-4,6) cols in auto)
  have "table_on_disk sn tn ns c2 = Ok \<lparr>ts_oid = ?oid, ts_name = tn, namespace_oid = ns,
          columns = map (restored (registries c2) sn tn) ?cols, foreign_keys = [], check_constraints = []\<rparr>"
    if c2: "pg_class_heap c2 = pg_class_heap c'" "pg_attribute_heap c2 = pg_attribute_heap c'" for c2
  proof -
    let ?cls = "decoded pg_class_decode" and ?att = "decoded pg_attribute_decode"
    have new: "pg_class_decode (pg_class_encode ?row) = Ok ?row"
      using class_roundtrip [of ?row] assms(5) by (simp add: class_row_def)
    have new_attr: "pg_attribute_decode (pg_attribute_encode (attribute_row ?oid col)) = Ok (attribute_row ?oid col)" if "col \<in> set ?cols" for col
      using attribute_roundtrip [of "attribute_row ?oid col"] number_columns_set [OF that] cols by (auto simp: attribute_row_def)
    have "\<forall>d \<in># live_data (pg_class_heap c'). pg_class_decode d = Ok (?cls d)"
      using cl old_classes new by (auto simp: decoded_def)
    from scan_all_law [OF table_invD(2) [OF db_inv_facts(1) [OF inv(1)]] this]
    obtain classes where classes: "scan_all_pg_class_rows c2 = Ok classes" "mset classes = image_mset ?cls (live_data (pg_class_heap c'))"
      using c2(1) by (auto simp: scan_all_pg_class_rows_def)
    have "set classes = insert ?row (cls ` set_mset (live_data (pg_class_heap c)))"
      using arg_cong [OF classes(2), of set_mset] cl new old_classes by (auto simp: decoded_def image_iff)
    then have found: "find (\<lambda>r. relnamespace r = ns \<and> relname r = tn) classes = Some ?row"
      using old_classes by (intro find_the) (auto simp: class_row_def)
    have "\<forall>d \<in># live_data (pg_attribute_heap c'). pg_attribute_decode d = Ok (?att d)"
      using at old_attrs new_attr by (auto simp: decoded_def)
    from scan_all_law [OF table_invD(2) [OF db_inv_facts(1) [OF inv(2)]] this]
    obtain attrs where attrs: "scan_all_pg_attribute_rows c2 = Ok attrs" "mset attrs = image_mset ?att (live_data (pg_attribute_heap c'))"
      using c2(2) by (auto simp: scan_all_pg_attribute_rows_def)
    have "image_mset ?att (live_data (pg_attribute_heap c')) = image_mset (attribute_row ?oid) (mset ?cols) + image_mset att (live_data (pg_attribute_heap c))"
      using new_attr old_attrs by (auto simp: at decoded_def image_mset.compositionality comp_def intro!: arg_cong2 [of _ _ _ _ "(+)"] image_mset_cong)
    moreover have "filter_mset (\<lambda>a. attrelid a = ?oid \<and> \<not> attisdropped a) (image_mset (attribute_row ?oid) (mset ?cols)) = image_mset (attribute_row ?oid) (mset ?cols)"
      by (simp add: filter_mset_image_mset attribute_row_def)
    moreover have "filter_mset (\<lambda>a. attrelid a = ?oid \<and> \<not> attisdropped a) (image_mset att (live_data (pg_attribute_heap c))) = {#}"
      using old_attrs by auto
    ultimately have "mset (filter (\<lambda>a. attrelid a = ?oid \<and> \<not> attisdropped a) attrs) = mset (map (attribute_row ?oid) ?cols)"
      using attrs(2) by simp
    then have sorted: "sort_key (\<lambda>a. sint (attnum a)) (filter (\<lambda>a. attrelid a = ?oid \<and> \<not> attisdropped a) attrs) = map (attribute_row ?oid) ?cols"
      by (rule sort_key_unique) (simp_all only: column_order [OF assms(7)], simp_all add: sorted_iff_nth_mono distinct_map inj_on_def)
    have "\<forall>col \<in> set ?cols. restorable (col_type col)" using number_columns_set cols by fastforce
    then show ?thesis
      using found classes(1) attrs(1) sorted stored_columns_restored
      by (simp add: table_on_disk_def class_row_def)
  qed
  then show ?thesis using run by blast
qed

definition fresh_catalog :: catalog_db where
  "fresh_catalog = \<lparr>registries = new_catalog, name_cache = Map.empty, ns_cache = [lit ''public'' \<mapsto> OID_NS_PUBLIC], next_oid = USER_OID_START,
     pg_class_heap = [], pg_attribute_heap = [], pg_authid_heap = [], pg_namespace_heap = []\<rparr>"

definition plain_column :: "string \<Rightarrow> data_type \<Rightarrow> column_def" where
  "plain_column name ty = \<lparr>col_name = lit name, col_type = ty, not_null = False, has_default = False, default_expr = None,
     col_attnum = 0, serial = False, references = None\<rparr>"

lemma live_data_Nil [simp]: "live_data [] = {#}"
  by (simp add: live_data_def live_def heap_abs_def heap_raw_def)

theorem created_table_is_found_on_disk_witness:
  "\<exists>w m' c'. create_table 3 (lit ''public'') (lit ''t'') [plain_column ''a'' TInt4, plain_column ''b'' (TVarChar 20)]
      (TransactionManager_new w 3, fresh_catalog) = Some (Ok 1000, (m', c'))
    \<and> table_on_disk (lit ''public'') (lit ''t'') 100 (empty_caches c') = Ok \<lparr>ts_oid = 1000, ts_name = lit ''t'', namespace_oid = 100,
        columns = map (restored (registries (empty_caches c')) (lit ''public'') (lit ''t''))
          (number_columns [plain_column ''a'' TInt4, plain_column ''b'' (TVarChar 20)]),
        foreign_keys = [], check_constraints = []\<rparr>"
proof -
  let ?cols = "[plain_column ''a'' TInt4, plain_column ''b'' (TVarChar 20)]"
  obtain w where w: "db_inv (Some []) 1000 (TransactionManager_new w 3, [])" by (rule fresh_db) blast
  have inv: "db_inv None (Suc (length ?cols)) (TransactionManager_new w 3, [])"
    using db_inv_None [OF db_inv_mono [OF w, of "Suc (length ?cols)"]] by simp
  have ok: "name_ok (lit ''t'')" "name_ok (lit ''a'')" "name_ok (lit ''b'')"
    by (simp_all add: name_ok_def lit_def utf8_ascii)
  have heaps: "pg_class_heap fresh_catalog = []" "pg_attribute_heap fresh_catalog = []" "next_oid fresh_catalog = 1000"
    "ns_cache fresh_catalog (lit ''public'') = Some 100" "name_cache fresh_catalog (100, lit ''t'') = None"
    by (simp_all add: fresh_catalog_def)
  have "\<exists>m' c'. create_table 3 (lit ''public'') (lit ''t'') ?cols (TransactionManager_new w 3, fresh_catalog) = Some (Ok (next_oid fresh_catalog), (m', c'))
    \<and> (\<forall>c2. pg_class_heap c2 = pg_class_heap c' \<and> pg_attribute_heap c2 = pg_attribute_heap c' \<longrightarrow>
        table_on_disk (lit ''public'') (lit ''t'') 100 c2 = Ok \<lparr>ts_oid = next_oid fresh_catalog, ts_name = lit ''t'', namespace_oid = 100,
          columns = map (restored (registries c2) (lit ''public'') (lit ''t'')) (number_columns ?cols), foreign_keys = [], check_constraints = []\<rparr>)"
    by (rule created_table_is_found_on_disk)
      (use heaps inv ok in \<open>simp_all add: plain_column_def lit_def\<close>)
  then show ?thesis using heaps(3) by (auto simp: empty_caches_def intro!: exI [of _ w])
qed

text \<open>
  Finding. Changing the type of a column runs as transaction 0, and 0 in the deleter field of a tuple means that nobody
  has deleted it: the old row stays beside the new one, so that a restart finds the column twice. The write lock that
  transaction 0 takes is never released, and since locks name a page and a slot but no table, no transaction can delete or
  update the tuple at this place of any table again.
\<close>

theorem alter_column_type_keeps_the_old_row:
  assumes "ns_cache c sn = Some ns" and "name_cache c (ns, tn) = Some oid" and inv: "db_inv None 2 (m, pg_attribute_heap c)"
    and row: "live (pg_attribute_heap c) k = Some d" "pg_attribute_decode d = Ok r" "attrelid r = oid" "attname r = col"
    and only: "\<And>j e q. live (pg_attribute_heap c) j = Some e \<Longrightarrow> pg_attribute_decode e = Ok q \<Longrightarrow>
      attrelid q = oid \<Longrightarrow> attname q = col \<Longrightarrow> j = k"
    and free: "lock_of m k = None" and name: "length col \<le> 8000"
  shows "\<exists>m' c'. alter_column_type sn tn col ty (m, c) = Some (Ok (), (m', c'))
    \<and> live_data (pg_attribute_heap c') =
        add_mset (pg_attribute_encode (r\<lparr>atttypid := type_oid ty, atttypmod := typmod ty\<rparr>)) (live_data (pg_attribute_heap c))
    \<and> (\<forall>y h. y \<noteq> 0 \<longrightarrow> txn_delete_tuple y k (m', h) = Some (Err (WriteWriteConflict 0), (m', h)))"
proof -
  let ?h = "pg_attribute_heap c" and ?f = "\<lambda>a. a\<lparr>atttypid := type_oid ty, atttypmod := typmod ty\<rparr>"
  let ?P = "\<lambda>a. attrelid a = oid \<and> attname a = col"
  note wf = table_invD(2) [OF db_inv_facts(1) [OF inv]]
  obtain raw where raw: "scan_raw_catalog_tuples ?h = Ok raw" "\<forall>k d. (k, d) \<in> set raw \<longleftrightarrow> live ?h k = Some d"
    by (rule raw_law [OF wf])
  have found: "find (\<lambda>(t, d). matching pg_attribute_decode ?P d) raw = Some (k, d)"
  proof (rule find_the)
    show "(k, d) \<in> set raw" using raw(2) row(1) by blast
    show "case (k, d) of (t, d) \<Rightarrow> matching pg_attribute_decode ?P d" using row by (simp add: matching_def)
    fix y
    assume "y \<in> set raw" "case y of (t, d) \<Rightarrow> matching pg_attribute_decode ?P d"
    moreover obtain j e where y: "y = (j, e)" by (cases y)
    ultimately have "live ?h j = Some e" "matching pg_attribute_decode ?P e" using raw(2) by auto
    then have "j = k" using only by (auto simp: matching_def split: outcome.splits)
    then show "y = (k, d)" using y row(1) \<open>live ?h j = Some e\<close> by simp
  qed
  obtain u where u: "heap_abs ?h k = Some u" "t_xmax (header u) = 0"
    using row(1) by (auto simp: live_def split: option.splits if_splits)
  let ?d = "pg_attribute_encode (?f r)"
  have d: "length ?d \<le> 8140" using name row(4) by simp
  have inv': "db_inv None (Suc (Suc 0)) (m, ?h)" using inv by (simp add: numeral_2_eq_2)
  obtain k' m' h' where up: "txn_update_tuple 0 k ?d (m, ?h) = Some (Ok k', (m', h'))" "db_inv None 0 (m', h')" "heap_abs ?h k' = None"
    "heap_abs h' = (heap_abs ?h)(k \<mapsto> set_xmax u 0, k' \<mapsto> new_version 0 ?d)"
    "\<forall>j. lock_of m' j = (if j = k then Some 0 else lock_of m j)"
    by (rule update_run [OF inv' _ u(1) d, where x = 0]) (use free in auto)
  have "set_xmax u 0 = u" using u(2) by (simp add: tuple.equality tuple_header.equality)
  then have "heap_abs h' = (heap_abs ?h)(k' \<mapsto> new_version 0 ?d)" using up(4) u(1) by (simp add: fun_upd_idem)
  from live_data_new [OF wf _ live_new_version [OF this]] up(3)
  have data: "live_data h' = add_mset ?d (live_data ?h)" by (simp add: live_def)
  have "update_attribute oid col ?f 0 (m, c) = Some (Ok (), (m', c\<lparr>pg_attribute_heap := h'\<rparr>))"
    using raw(1) found row(2) up(1) by (simp add: update_attribute_def update_first_def on_cat_def slift_def sret_def)
  then have "\<exists>c'. alter_column_type sn tn col ty (m, c) = Some (Ok (), (m', c')) \<and> pg_attribute_heap c' = h'"
    using assms(1,2) raw(1)
    by (simp add: alter_column_type_def named_table_def resolve_namespace_def lignore_def slift_def sret_def split: option.splits)
  moreover have "txn_delete_tuple y k (m', h) = Some (Err (WriteWriteConflict 0), (m', h))" if "y \<noteq> 0" for y h
    using delete_blocked [OF db_inv_facts(3) [OF up(2)], of k 0 y] up(5) that by simp
  ultimately show ?thesis using data by auto
qed

theorem alter_column_type_keeps_the_old_row_witness:
  "\<exists>m c m' c'. alter_column_type (lit ''public'') (lit ''t'') (lit ''a'') TInt8 (m, c) = Some (Ok (), (m', c'))
    \<and> size (live_data (pg_attribute_heap c)) = 1 \<and> size (live_data (pg_attribute_heap c')) = 2"
proof -
  let ?r = "attribute_row 1000 (plain_column ''a'' TInt4)"
  let ?d = "pg_attribute_encode ?r"
  have "length ?d \<le> 8140" by (simp add: attribute_row_def plain_column_def lit_def)
  then show ?thesis
  proof (rule one_stored_row)
    fix w s1 s2 k
    assume s2: "heap_abs (snd s2) = [k \<mapsto> new_version 3 ?d]" "db_inv (Some []) 996 s2" "tm_locks (fst s2) = LockManager_new"
    obtain m h where mh: "s2 = (m, h)" by (cases s2)
    let ?c = "fresh_catalog\<lparr>name_cache := [(100, lit ''t'') \<mapsto> 1000], pg_attribute_heap := h\<rparr>"
    have inv: "db_inv None 2 (m, pg_attribute_heap ?c)" using db_inv_None [OF db_inv_mono [OF s2(2), of 2]] mh by simp
    have live: "live h = [k \<mapsto> ?d]" using s2(1) mh by (auto simp: live_def new_version_def fun_eq_iff)
    have "{(j, e). live h j = Some e} = {(k, ?d)}" by (auto simp: live split: if_splits)
    then have data: "live_data h = {#?d#}" by (simp add: live_data_def)
    have dec: "pg_attribute_decode ?d = Ok ?r"
      by (rule attribute_roundtrip) (simp add: attribute_row_def plain_column_def name_ok_def lit_def utf8_ascii)
    have lock: "lock_of m k = None" using s2(3) mh by (simp add: lock_of_def LockManager_new_def)
    have "\<exists>m' c'. alter_column_type (lit ''public'') (lit ''t'') (lit ''a'') TInt8 (m, ?c) = Some (Ok (), (m', c'))
      \<and> live_data (pg_attribute_heap c') =
          add_mset (pg_attribute_encode (?r\<lparr>atttypid := type_oid TInt8, atttypmod := typmod TInt8\<rparr>)) (live_data (pg_attribute_heap ?c))
      \<and> (\<forall>y h. y \<noteq> 0 \<longrightarrow> txn_delete_tuple y k (m', h) = Some (Err (WriteWriteConflict 0), (m', h)))"
      by (rule alter_column_type_keeps_the_old_row [where ns = 100 and oid = 1000 and d = ?d])
        (use inv live dec lock in \<open>auto simp: fresh_catalog_def attribute_row_def plain_column_def lit_def split: if_splits\<close>)
    then show ?thesis using data by fastforce
  qed
qed

end
