(* ===== verification/Sql_Store.thy ===== *)
theory Sql_Store
  imports Sql_Index Catalog_Tables
begin

text \<open>
  What a statement works on: the transaction manager, the catalog, the files of the tables, the indexes and the undo log
  of the session (\<^verbatim>\<open>ExecutionContext\<close> of \<^verbatim>\<open>sql/src/executor.rs\<close>, \<^verbatim>\<open>sql/src/subtxn.rs\<close>), the recorded writes,
  and \<^verbatim>\<open>apply_undo_entries\<close> of \<^verbatim>\<open>sql/src/engine.rs\<close>. A file that does not exist is empty: opening creates it.
\<close>

section \<open>State and writes\<close>

datatype undo_entry = UndoInsert u32 tid | UndoDelete u32 tid

record exec_state =
  x_mgr :: txn_manager
  x_cat :: catalog_db
  x_heaps :: "u32 \<Rightarrow> heap"
  x_indexes :: "(u32 \<times> rstring \<times> btree) list"
  x_undo :: "undo_entry list option"

type_synonym 'a xop = "(exec_state, sql_error, 'a) lop"

definition record_undo :: "undo_entry \<Rightarrow> unit xop" where
  "record_undo e s = Some (Ok (), s\<lparr>x_undo := map_option (\<lambda>l. l @ [e]) (x_undo s)\<rparr>)"

definition on_table :: "u32 \<Rightarrow> (db, txn_error, 'a) lop \<Rightarrow> 'a xop" where
  "on_table oid f s =
     (case f (x_mgr s, x_heaps s oid) of
        None \<Rightarrow> None
      | Some (r, (m, h)) \<Rightarrow> Some (map_err SqlTxn r, s\<lparr>x_mgr := m, x_heaps := (x_heaps s)(oid := h)\<rparr>))"

definition write_insert :: "xid \<Rightarrow> u32 \<Rightarrow> byte list \<Rightarrow> tid xop" where
  "write_insert x oid d =
     lbind (on_table oid (ltotal (txn_insert_tuple x d))) (\<lambda>t.
     lbind (record_undo (UndoInsert oid t)) (\<lambda>_. ltotal (sret t)))"

definition write_delete :: "xid \<Rightarrow> u32 \<Rightarrow> tid \<Rightarrow> unit xop" where
  "write_delete x oid t =
     lbind (on_table oid (txn_delete_tuple x t)) (\<lambda>_. record_undo (UndoDelete oid t))"

definition write_update :: "xid \<Rightarrow> u32 \<Rightarrow> tid \<Rightarrow> byte list \<Rightarrow> tid xop" where
  "write_update x oid t d =
     lbind (on_table oid (txn_update_tuple x t d)) (\<lambda>t'.
     lbind (record_undo (UndoDelete oid t)) (\<lambda>_.
     lbind (record_undo (UndoInsert oid t')) (\<lambda>_. ltotal (sret t'))))"

definition undo_one :: "xid \<Rightarrow> undo_entry \<Rightarrow> unit xop" where
  "undo_one x e =
     (case e of
        UndoInsert oid t \<Rightarrow> on_table oid (ltotal (undo_insert x t))
      | UndoDelete oid t \<Rightarrow> on_table oid (ltotal (undo_delete x t)))"

definition apply_undo_entries :: "xid \<Rightarrow> undo_entry list \<Rightarrow> unit xop" where
  "apply_undo_entries x entries = lseq (map (undo_one x) (rev entries))"

section \<open>Undoing writes\<close>

text \<open>The state has room for \<open>n\<close> more page writes in every table.\<close>

definition store_inv :: "nat \<Rightarrow> exec_state \<Rightarrow> bool" where
  "store_inv n s \<longleftrightarrow> (\<forall>oid. db_inv None n (x_mgr s, x_heaps s oid))"

abbreviation stored_at :: "exec_state \<Rightarrow> u32 \<Rightarrow> tid \<Rightarrow> tuple option" where
  "stored_at s oid k \<equiv> heap_abs (x_heaps s oid) k"

text \<open>A version its own creator has deleted: nobody ever sees it.\<close>

definition void :: "xid \<Rightarrow> tuple \<Rightarrow> bool" where
  "void x t \<longleftrightarrow> t_xmin (header t) = x \<and> t_xmax (header t) = x"

definition still :: "xid \<Rightarrow> tuple option \<Rightarrow> tuple option \<Rightarrow> bool" where
  "still x a b \<longleftrightarrow> (case a of Some u \<Rightarrow> b = Some u | None \<Rightarrow> (\<forall>u. b = Some u \<longrightarrow> void x u))"

definition covers :: "xid \<Rightarrow> (u32 \<Rightarrow> tid \<Rightarrow> tuple option) \<Rightarrow> (u32 \<Rightarrow> tid \<Rightarrow> tuple option) \<Rightarrow> bool" where
  "covers x A B \<longleftrightarrow> (\<forall>oid k. still x (A oid k) (B oid k))"

abbreviation put_at :: "(u32 \<Rightarrow> tid \<Rightarrow> tuple option) \<Rightarrow> u32 \<Rightarrow> tid \<Rightarrow> tuple \<Rightarrow> u32 \<Rightarrow> tid \<Rightarrow> tuple option" where
  "put_at A oid k t \<equiv> A(oid := (A oid)(k \<mapsto> t))"

lemma still_simps [simp]: "still x a a" "still x (Some u) b \<longleftrightarrow> b = Some u" "still x None (Some u) \<longleftrightarrow> void x u"
  by (auto simp: still_def split: option.splits)

lemma covers_refl [simp, intro]: "covers x A A"
  by (simp add: covers_def)

lemma coversD: "covers x A B \<Longrightarrow> A oid k = Some u \<Longrightarrow> B oid k = Some u"
  unfolding covers_def by (metis still_simps(2))

lemma covers_back:
  assumes "covers x (put_at A oid k v) T" and "still x (A oid k) w" and "\<forall>o2 j. T' o2 j = (if o2 = oid \<and> j = k then w else T o2 j)"
  shows "covers x A T'"
  unfolding covers_def
proof (intro allI)
  fix o2 j
  have "still x (put_at A oid k v o2 j) (T o2 j)" using assms(1) by (simp add: covers_def)
  then show "still x (A o2 j) (T' o2 j)" using assms(2,3) by (cases "o2 = oid \<and> j = k") (auto split: if_splits)
qed

lemma void_invisible: "void x t \<Longrightarrow> x \<noteq> INVALID_XID \<Longrightarrow> \<not> version_visible y snap comm (header t)"
  by (auto simp: void_def version_visible_def is_tuple_visible_def Let_def)

lemma covers_rows:
  assumes cov: "covers x (stored_at s) (stored_at s')" and same: "same_txns (x_mgr s) (x_mgr s')"
    and wf: "heap_wf (x_heaps s oid)" "heap_wf (x_heaps s' oid)" and x: "x \<noteq> INVALID_XID"
  shows "rows y (x_mgr s', x_heaps s' oid) = rows y (x_mgr s, x_heaps s oid)"
proof -
  have "(k, t) \<in> rows y (x_mgr s', x_heaps s' oid) \<longleftrightarrow> (k, t) \<in> rows y (x_mgr s, x_heaps s oid)" for k t
  proof -
    have "case stored_at s oid k of Some u \<Rightarrow> stored_at s' oid k = Some u
      | None \<Rightarrow> (\<forall>u. stored_at s' oid k = Some u \<longrightarrow> void x u)"
      using cov by (simp add: covers_def still_def)
    then show ?thesis
      using void_invisible [OF _ x, of t y] same_txns_visible [OF same, of y "header t"]
      by (auto simp: rows_iff [OF wf(1)] rows_iff [OF wf(2)] split: option.splits)
  qed
  then show ?thesis by auto
qed

lemma store_inv_step:
  assumes inv: "store_inv (n + j) s" and here: "db_inv None n (m, h)"
  shows "store_inv n (s\<lparr>x_mgr := m, x_heaps := (x_heaps s)(oid := h)\<rparr>)"
  using inv db_inv_move [OF here] here by (auto simp: store_inv_def)

lemma undo_insert_step:
  assumes inv: "store_inv (Suc n) s" and old: "stored_at s oid k = Some u" and own: "t_xmin (header u) = x"
  obtains s' where "undo_one x (UndoInsert oid k) s = Some (Ok (), s')" and "store_inv n s'" and "same_txns (x_mgr s) (x_mgr s')"
    and "\<forall>o2 j. stored_at s' o2 j = (if o2 = oid \<and> j = k then Some (set_xmax u x) else stored_at s o2 j)"
proof -
  have here: "db_inv None (Suc n) (x_mgr s, x_heaps s oid)" using inv by (simp add: store_inv_def)
  obtain m h where r: "undo_insert x k (x_mgr s, x_heaps s oid) = (Ok (), (m, h))" "db_inv None n (m, h)"
    "heap_abs h = (heap_abs (x_heaps s oid))(k \<mapsto> set_xmax u x)" "same_txns (x_mgr s) m"
    by (rule undo_insert_run [OF here old own])
  show ?thesis
    by (rule that [of "s\<lparr>x_mgr := m, x_heaps := (x_heaps s)(oid := h)\<rparr>"])
      (use r store_inv_step [of n 1 s m h oid] inv in \<open>auto simp: undo_one_def on_table_def\<close>)
qed

lemma undo_delete_step:
  assumes inv: "store_inv (Suc n) s" and old: "stored_at s oid k = Some u" and own: "t_xmax (header u) = x"
  obtains s' where "undo_one x (UndoDelete oid k) s = Some (Ok (), s')" and "store_inv n s'" and "same_txns (x_mgr s) (x_mgr s')"
    and "\<forall>o2 j. stored_at s' o2 j = (if o2 = oid \<and> j = k then Some (set_xmax u INVALID_XID) else stored_at s o2 j)"
proof -
  have here: "db_inv None (Suc n) (x_mgr s, x_heaps s oid)" using inv by (simp add: store_inv_def)
  obtain m h where r: "undo_delete x k (x_mgr s, x_heaps s oid) = (Ok (), (m, h))" "db_inv None n (m, h)"
    "heap_abs h = (heap_abs (x_heaps s oid))(k \<mapsto> set_xmax u INVALID_XID)" "same_txns (x_mgr s) m"
    by (rule undo_delete_run [OF here old own])
  show ?thesis
    by (rule that [of "s\<lparr>x_mgr := m, x_heaps := (x_heaps s)(oid := h)\<rparr>"])
      (use r store_inv_step [of n 1 s m h oid] inv in \<open>auto simp: undo_one_def on_table_def\<close>)
qed

text \<open>
  A transaction writes: the versions it deletes or updates are versions nobody has deleted. Writes are those the executor
  records; a statement that fails takes its whole transaction with it and needs no undo log.
\<close>

inductive write_step :: "xid \<Rightarrow> exec_state \<Rightarrow> exec_state \<Rightarrow> bool" for x where
  ws_insert: "length d \<le> 8140 \<Longrightarrow> write_insert x oid d s = Some (Ok k, s') \<Longrightarrow> write_step x s s'"
| ws_delete: "stored_at s oid k = Some u \<Longrightarrow> t_xmax (header u) = INVALID_XID \<Longrightarrow>
    write_delete x oid k s = Some (Ok (), s') \<Longrightarrow> write_step x s s'"
| ws_update: "stored_at s oid k = Some u \<Longrightarrow> t_xmax (header u) = INVALID_XID \<Longrightarrow> length d \<le> 8140 \<Longrightarrow>
    write_update x oid k d s = Some (Ok k', s') \<Longrightarrow> write_step x s s'"

text \<open>The effect of a recorded write on what is stored, and that undoing the entry takes it back.\<close>

inductive effect :: "xid \<Rightarrow> (u32 \<Rightarrow> tid \<Rightarrow> tuple option) \<Rightarrow> undo_entry \<Rightarrow> (u32 \<Rightarrow> tid \<Rightarrow> tuple option) \<Rightarrow> bool" for x A where
  eff_insert: "A oid k = None \<Longrightarrow> effect x A (UndoInsert oid k) (put_at A oid k (new_version x d))"
| eff_delete: "A oid k = Some u \<Longrightarrow> t_xmax (header u) = INVALID_XID \<Longrightarrow> effect x A (UndoDelete oid k) (put_at A oid k (set_xmax u x))"

primrec effects :: "xid \<Rightarrow> undo_entry list \<Rightarrow> (u32 \<Rightarrow> tid \<Rightarrow> tuple option) \<Rightarrow> (u32 \<Rightarrow> tid \<Rightarrow> tuple option) \<Rightarrow> bool" where
  "effects x [] A B \<longleftrightarrow> A = B"
| "effects x (e # es) A B \<longleftrightarrow> (\<exists>C. effect x A e C \<and> effects x es C B)"

lemma effects_append: "effects x (es @ fs) A B \<longleftrightarrow> (\<exists>C. effects x es A C \<and> effects x fs C B)"
  by (induction es arbitrary: A) auto

lemma lseq_append: "lseq (fs @ gs) = lbind (lseq fs) (\<lambda>_. lseq gs)"
proof (induction fs)
  case Nil
  show ?case by (simp add: fun_eq_iff sret_def)
qed (simp add: lbind_assoc)

lemma undo_effect:
  assumes "effect x A e B" and cov: "covers x B (stored_at t)" and inv: "store_inv (Suc n) t"
  shows "\<exists>t'. undo_one x e t = Some (Ok (), t') \<and> store_inv n t' \<and> same_txns (x_mgr t) (x_mgr t') \<and> covers x A (stored_at t')"
  using assms(1)
proof cases
  case (eff_insert oid k d)
  have "stored_at t oid k = Some (new_version x d)" using coversD [OF cov, of oid k] eff_insert by simp
  then show ?thesis
  proof (rule undo_insert_step [OF inv])
    fix t'
    assume t': "undo_one x (UndoInsert oid k) t = Some (Ok (), t')" "store_inv n t'" "same_txns (x_mgr t) (x_mgr t')"
      "\<forall>o2 j. stored_at t' o2 j = (if o2 = oid \<and> j = k then Some (set_xmax (new_version x d) x) else stored_at t o2 j)"
    have "void x (set_xmax (new_version x d) x)" by (simp add: void_def new_version_def)
    then have "covers x A (stored_at t')"
      using covers_back [OF cov [unfolded eff_insert(2)] _ t'(4)] eff_insert(3) by simp
    then show ?thesis using t'(1-3) eff_insert(1) by blast
  qed (simp add: new_version_def)
next
  case (eff_delete oid k u)
  have "stored_at t oid k = Some (set_xmax u x)" using coversD [OF cov, of oid k] eff_delete by simp
  then show ?thesis
  proof (rule undo_delete_step [OF inv])
    fix t'
    assume t': "undo_one x (UndoDelete oid k) t = Some (Ok (), t')" "store_inv n t'" "same_txns (x_mgr t) (x_mgr t')"
      "\<forall>o2 j. stored_at t' o2 j = (if o2 = oid \<and> j = k then Some (set_xmax (set_xmax u x) INVALID_XID) else stored_at t o2 j)"
    have "set_xmax (set_xmax u x) INVALID_XID = u" using eff_delete by (simp add: tuple.equality tuple_header.equality)
    then have "covers x A (stored_at t')"
      using covers_back [OF cov [unfolded eff_delete(2)] _ t'(4)] eff_delete(3) by simp
    then show ?thesis using t'(1-3) eff_delete(1) by blast
  qed simp
qed

lemma undo_effects:
  assumes "effects x es A B" and "covers x B (stored_at t)" and "store_inv (n + length es) t"
  shows "\<exists>t'. apply_undo_entries x es t = Some (Ok (), t') \<and> store_inv n t' \<and> same_txns (x_mgr t) (x_mgr t') \<and> covers x A (stored_at t')"
  using assms
proof (induction es arbitrary: A n)
  case Nil
  then show ?case by (simp add: apply_undo_entries_def sret_def)
next
  case (Cons e es)
  then obtain C where C: "effect x A e C" "effects x es C B" by auto
  obtain t1 where t1: "apply_undo_entries x es t = Some (Ok (), t1)" "store_inv (Suc n) t1" "same_txns (x_mgr t) (x_mgr t1)"
    "covers x C (stored_at t1)"
    using Cons.IH [OF C(2) Cons.prems(2), of "Suc n"] Cons.prems(3) by auto
  obtain t2 where t2: "undo_one x e t1 = Some (Ok (), t2)" "store_inv n t2" "same_txns (x_mgr t1) (x_mgr t2)" "covers x A (stored_at t2)"
    using undo_effect [OF C(1) t1(4,2)] by blast
  show ?case using t1 t2 same_txns_trans by (fastforce simp: apply_undo_entries_def lseq_append sret_def)
qed

lemma undo_log_kept: "lseq (map (undo_one x) es) s = Some (r, s') \<Longrightarrow> x_undo s' = x_undo s"
proof (induction es arbitrary: s)
  case (Cons e es)
  have one: "x_undo s1 = x_undo s" if "undo_one x e s = Some (r1, s1)" for r1 s1
    using that by (auto simp: undo_one_def on_table_def split: undo_entry.splits prod.splits)
  show ?case
  proof (cases "undo_one x e s")
    case (Some rs)
    then show ?thesis using Cons one by (cases rs; cases "fst rs") auto
  qed (use Cons.prems in simp)
qed (simp add: sret_def)

lemma lock_cases:
  assumes "db_inv base n (m, h)"
  shows "lock_of m k = None \<or> lock_of m k = Some x \<or> (\<exists>y. txn_delete_tuple x k (m, h) = Some (Err (WriteWriteConflict y), (m, h)))"
  using delete_blocked [OF db_inv_facts(3) [OF assms]] by (cases "lock_of m k") auto

lemma store_inv_wf: "store_inv n s \<Longrightarrow> heap_wf (x_heaps s oid)"
  using table_invD(2) [OF db_inv_facts(1)] unfolding store_inv_def by blast

lemma lift_run:
  assumes "store_inv (n + j) s" and "db_inv None n (m, h)" and "same_txns (x_mgr s) m"
    and "heap_abs h = (heap_abs (x_heaps s oid))(k \<mapsto> t)"
  defines "s' \<equiv> s\<lparr>x_mgr := m, x_heaps := (x_heaps s)(oid := h)\<rparr>"
  shows "store_inv n s'" and "stored_at s' = put_at (stored_at s) oid k t"
  using assms(4) store_inv_step [OF assms(1,2)] by (auto simp: s'_def fun_eq_iff)

text \<open>Every write has the effects its undo entries tell.\<close>

lemma write_step_effects:
  assumes "write_step x s s'" and inv: "store_inv (Suc (Suc n)) s" and undo: "x_undo s = Some l"
  shows "\<exists>es. x_undo s' = Some (l @ es) \<and> length es \<le> 2 \<and> effects x es (stored_at s) (stored_at s')
    \<and> store_inv n s' \<and> same_txns (x_mgr s) (x_mgr s')"
  using assms(1)
proof cases
  case (ws_insert d oid k)
  have here: "db_inv None (Suc n) (x_mgr s, x_heaps s oid)" using inv db_inv_mono [of None "Suc (Suc n)" _ "Suc n"] by (simp add: store_inv_def)
  obtain k' m h where r: "txn_insert_tuple x d (x_mgr s, x_heaps s oid) = (Ok k', (m, h))" "db_inv None n (m, h)"
    "stored_at s oid k' = None" "heap_abs h = (heap_abs (x_heaps s oid))(k' \<mapsto> new_version x d)" "same_txns (x_mgr s) m"
    by (rule insert_run [OF here ws_insert(1)])
  have s': "s' = (s\<lparr>x_mgr := m, x_heaps := (x_heaps s)(oid := h)\<rparr>)\<lparr>x_undo := Some (l @ [UndoInsert oid k'])\<rparr>"
    using ws_insert(2) r(1) undo by (auto simp: write_insert_def on_table_def record_undo_def sret_def)
  note lift = lift_run [of n 2 s m h oid k' "new_version x d", OF _ r(2,5,4)]
  have "effects x [UndoInsert oid k'] (stored_at s) (stored_at s')"
    using eff_insert [of "stored_at s" oid k' x d] r(3) lift(2) inv s' by simp
  moreover have "store_inv n s'" using lift(1) inv s' by (simp add: store_inv_def)
  ultimately show ?thesis using s' r(5) by auto
next
  case (ws_delete oid k u)
  have here: "db_inv None (Suc n) (x_mgr s, x_heaps s oid)" using inv db_inv_mono [of None "Suc (Suc n)" _ "Suc n"] by (simp add: store_inv_def)
  have free: "lock_of (x_mgr s) k = None \<or> lock_of (x_mgr s) k = Some x"
    using lock_cases [OF here, of k x] ws_delete(3) by (auto simp: write_delete_def on_table_def)
  obtain m h where r: "txn_delete_tuple x k (x_mgr s, x_heaps s oid) = Some (Ok (), (m, h))" "db_inv None n (m, h)"
    "heap_abs h = (heap_abs (x_heaps s oid))(k \<mapsto> set_xmax u x)" "same_txns (x_mgr s) m"
    by (rule delete_run [OF here free ws_delete(1)])
  have s': "s' = (s\<lparr>x_mgr := m, x_heaps := (x_heaps s)(oid := h)\<rparr>)\<lparr>x_undo := Some (l @ [UndoDelete oid k])\<rparr>"
    using ws_delete(3) r(1) undo by (auto simp: write_delete_def on_table_def record_undo_def)
  note lift = lift_run [of n 2 s m h oid k "set_xmax u x", OF _ r(2,4,3)]
  have "effects x [UndoDelete oid k] (stored_at s) (stored_at s')"
    using eff_delete [of "stored_at s" oid k u x] ws_delete(1,2) lift(2) inv s' by simp
  moreover have "store_inv n s'" using lift(1) inv s' by (simp add: store_inv_def)
  ultimately show ?thesis using s' r(4) by auto
next
  case (ws_update oid k u d k')
  have here: "db_inv None (Suc (Suc n)) (x_mgr s, x_heaps s oid)" using inv by (simp add: store_inv_def)
  have free: "lock_of (x_mgr s) k = None \<or> lock_of (x_mgr s) k = Some x"
    using lock_cases [OF here, of k x] ws_update(4) by (auto simp: write_update_def on_table_def txn_update_tuple_def sbind_def)
  obtain j m h where r: "txn_update_tuple x k d (x_mgr s, x_heaps s oid) = Some (Ok j, (m, h))" "db_inv None n (m, h)"
    "stored_at s oid j = None" "heap_abs h = (heap_abs (x_heaps s oid))(k \<mapsto> set_xmax u x, j \<mapsto> new_version x d)" "same_txns (x_mgr s) m"
    by (rule update_run [OF here free ws_update(1,3)])
  have s': "s' = (s\<lparr>x_mgr := m, x_heaps := (x_heaps s)(oid := h)\<rparr>)\<lparr>x_undo := Some (l @ [UndoDelete oid k, UndoInsert oid j])\<rparr>"
    using ws_update(4) r(1) undo by (auto simp: write_update_def on_table_def record_undo_def sret_def)
  let ?A = "put_at (stored_at s) oid k (set_xmax u x)"
  have "j \<noteq> k" using r(3) ws_update(1) by auto
  then have "effect x ?A (UndoInsert oid j) (put_at ?A oid j (new_version x d))" using r(3) by (intro eff_insert) simp
  moreover have "put_at ?A oid j (new_version x d) = stored_at s'" using r(4) s' by (auto simp: fun_eq_iff)
  moreover have "effect x (stored_at s) (UndoDelete oid k) ?A"
    using eff_delete [of "stored_at s" oid k u x] ws_update(1,2) by simp
  ultimately have "effects x [UndoDelete oid k, UndoInsert oid j] (stored_at s) (stored_at s')" by auto
  moreover have "store_inv n s'" using store_inv_step [of n 2 s m h oid] inv r(2) s' by (simp add: store_inv_def)
  ultimately show ?thesis using s' r(5) by auto
qed

lemma write_steps_effects:
  assumes "(write_step x ^^ n) s s'" and "store_inv (2 * n + j) s" and "x_undo s = Some l"
  shows "\<exists>es. x_undo s' = Some (l @ es) \<and> length es \<le> 2 * n \<and> effects x es (stored_at s) (stored_at s')
    \<and> store_inv j s' \<and> same_txns (x_mgr s) (x_mgr s')"
  using assms
proof (induction n arbitrary: s l)
  case (Suc n)
  then obtain s1 where s1: "write_step x s s1" "(write_step x ^^ n) s1 s'" by (metis relpowp_Suc_E2)
  obtain es where es: "x_undo s1 = Some (l @ es)" "length es \<le> 2" "effects x es (stored_at s) (stored_at s1)"
    "store_inv (2 * n + j) s1" "same_txns (x_mgr s) (x_mgr s1)"
    using write_step_effects [OF s1(1), of "2 * n + j" l] Suc.prems by auto
  obtain fs where fs: "x_undo s' = Some ((l @ es) @ fs)" "length fs \<le> 2 * n" "effects x fs (stored_at s1) (stored_at s')"
    "store_inv j s'" "same_txns (x_mgr s1) (x_mgr s')"
    using Suc.IH [OF s1(2) es(4,1)] by auto
  show ?case
    by (rule exI [of _ "es @ fs"]) (use es fs same_txns_trans in \<open>auto simp: effects_append\<close>)
qed simp

lemma undo_restores:
  assumes "(write_step x ^^ n) s s'" and "store_inv (4 * n) s" and "x_undo s = Some l" and "x \<noteq> INVALID_XID"
  shows "\<exists>es s2. x_undo s' = Some (l @ es) \<and> apply_undo_entries x es s' = Some (Ok (), s2) \<and> x_undo s2 = x_undo s'
    \<and> (\<forall>y oid. rows y (x_mgr s2, x_heaps s2 oid) = rows y (x_mgr s, x_heaps s oid))"
proof -
  have "2 * n + 2 * n = 4 * n" by simp
  then obtain es where es: "x_undo s' = Some (l @ es)" "length es \<le> 2 * n" "effects x es (stored_at s) (stored_at s')"
    "store_inv (2 * n) s'" "same_txns (x_mgr s) (x_mgr s')"
    using write_steps_effects [OF assms(1), of "2 * n" l] assms(2,3) by auto
  have "store_inv (0 + length es) s'" using es(2,4) db_inv_mono [of None "2 * n" _ "length es"] by (auto simp: store_inv_def)
  from undo_effects [OF es(3) covers_refl this]
  obtain s2 where s2: "apply_undo_entries x es s' = Some (Ok (), s2)" "store_inv 0 s2" "same_txns (x_mgr s') (x_mgr s2)"
    "covers x (stored_at s) (stored_at s2)" by blast
  have "x_undo s2 = x_undo s'" using s2(1) undo_log_kept by (auto simp: apply_undo_entries_def)
  then show ?thesis using es(1) s2(1) covers_rows [OF s2(4) same_txns_trans [OF es(5) s2(3)] store_inv_wf [OF assms(2)] store_inv_wf [OF s2(2)] assms(4)] by blast
qed

end
