(* ===== verification/Sql_Optimizer.thy ===== *)
theory Sql_Optimizer
  imports Sql_Index Catalog_Manager
begin

text \<open>
  The optimizer: \<^verbatim>\<open>sql/src/optimizer.rs\<close>. It asks the catalog for table numbers, indexes and column statistics;
  these answers are the record \<open>catalog_view\<close>. A fraction is a double, given by its bits.
\<close>

section \<open>Rewriting\<close>

record catalog_view =
  table_oid_of :: "rstring \<Rightarrow> u32 option"
  has_index :: "u32 \<Rightarrow> rstring \<Rightarrow> bool"
  stats_of :: "rstring \<Rightarrow> rstring \<Rightarrow> column_stats option"

definition extract_eq_predicate :: "'p expr \<Rightarrow> (rstring \<times> val) option" where
  "extract_eq_predicate e =
     (case e of
        EBinaryOp left op right \<Rightarrow>
          if op = OpEq
          then (case left of
                  EColumn _ name \<Rightarrow> (case right of ELiteral v \<Rightarrow> Some (name, v) | _ \<Rightarrow> None)
                | ELiteral v \<Rightarrow> (case right of EColumn _ name \<Rightarrow> Some (name, v) | _ \<Rightarrow> None)
                | _ \<Rightarrow> None)
          else None
      | _ \<Rightarrow> None)"

definition extract_range_predicate :: "'p expr \<Rightarrow> (rstring \<times> val option \<times> val option) option" where
  "extract_range_predicate e =
     (case e of
        EBinaryOp left op right \<Rightarrow>
         (case left of
            EColumn _ name \<Rightarrow>
              (case right of
                 ELiteral v \<Rightarrow>
                   if op = OpGt \<or> op = OpGe then Some (name, Some v, None)
                   else if op = OpLt \<or> op = OpLe then Some (name, None, Some v) else None
               | _ \<Rightarrow> None)
          | ELiteral v \<Rightarrow>
              (case right of
                 EColumn _ name \<Rightarrow>
                   if op = OpLt \<or> op = OpLe then Some (name, Some v, None)
                   else if op = OpGt \<or> op = OpGe then Some (name, None, Some v) else None
               | _ \<Rightarrow> None)
          | _ \<Rightarrow> None)
      | _ \<Rightarrow> None)"

abbreviation (input) half :: u64 where "half \<equiv> 0x3FE0000000000000"
abbreviation (input) three_tenths :: u64 where "three_tenths \<equiv> 0x3FD3333333333333"
abbreviation (input) one_fifth :: u64 where "one_fifth \<equiv> 0x3FC999999999999A"
abbreviation (input) one_f64 :: u64 where "one_f64 \<equiv> 0x3FF0000000000000"

text \<open>\<^verbatim>\<open>f64::max\<close>: the other operand when one is not a number.\<close>

definition f64_max :: "u64 \<Rightarrow> u64 \<Rightarrow> u64" where
  "f64_max a b = (if f64_nan a then b else if f64_nan b then a else if f64_rank a < f64_rank b then b else a)"

fun column_name :: "'p expr \<Rightarrow> rstring option" where
  "column_name (EColumn _ name) = Some name"
| "column_name _ = None"

fun literal_value :: "'p expr \<Rightarrow> val option" where
  "literal_value (ELiteral v) = Some v"
| "literal_value _ = None"

definition estimate_selectivity :: "float_lib \<Rightarrow> catalog_view \<Rightarrow> rstring \<Rightarrow> 'p expr \<Rightarrow> u64" where
  "estimate_selectivity F C table_name predicate =
     (case predicate of
        EBinaryOp left op right \<Rightarrow>
         (case (case column_name left of Some n \<Rightarrow> Some n | None \<Rightarrow> column_name right) of
            None \<Rightarrow> half
          | Some col \<Rightarrow>
             (case stats_of C table_name col of
                None \<Rightarrow> half
              | Some stats \<Rightarrow>
                  let uniform = f_div F one_f64 (f64_max (n_distinct stats) one_f64) in
                  if op = OpEq
                  then (case (case literal_value right of Some v \<Rightarrow> Some v | None \<Rightarrow> literal_value left) of
                          None \<Rightarrow> uniform
                        | Some v \<Rightarrow>
                            (case find (\<lambda>(s, f). s = show_val F v) (zip (most_common_vals stats) (most_common_freqs stats)) of
                               Some (_, freq) \<Rightarrow> freq | None \<Rightarrow> uniform))
                  else if op = OpLt \<or> op = OpLe \<or> op = OpGt \<or> op = OpGe then three_tenths
                  else half))
      | _ \<Rightarrow> half)"

definition try_index_scan ::
  "float_lib \<Rightarrow> catalog_view \<Rightarrow> logical_plan \<Rightarrow> logical_plan expr \<Rightarrow> logical_plan option" where
  "try_index_scan F C plan predicate =
     (case plan of
        PTableScan table_name _ schema existing_filter \<Rightarrow>
         (case table_oid_of C table_name of
            None \<Rightarrow> None
          | Some table_oid \<Rightarrow>
             (case (case extract_eq_predicate predicate of
                      Some (col, v) \<Rightarrow>
                        if has_index C table_oid col
                        then Some (PIndexScan table_name schema col (Some v) None None existing_filter) else None
                    | None \<Rightarrow> None) of
                Some p \<Rightarrow> Some p
              | None \<Rightarrow>
                 (case extract_range_predicate predicate of
                    Some (col, range_start, range_end) \<Rightarrow>
                      if has_index C table_oid col
                         \<and> f64_cmp (estimate_selectivity F C table_name predicate) one_fifth = Some OLess
                      then Some (PIndexScan table_name schema col None range_start range_end existing_filter)
                      else None
                  | None \<Rightarrow> None)))
      | _ \<Rightarrow> None)"

fun optimize :: "float_lib \<Rightarrow> catalog_view \<Rightarrow> logical_plan \<Rightarrow> logical_plan" where
  "optimize F C (PFilter input predicate) =
     (let i = optimize F C input in
      case try_index_scan F C i predicate of Some p \<Rightarrow> p | None \<Rightarrow> PFilter i predicate)"
| "optimize F C (PProject input cols dist) = PProject (optimize F C input) cols dist"
| "optimize F C (PSort input keys) = PSort (optimize F C input) keys"
| "optimize F C (PLimit input limit offset) = PLimit (optimize F C input) limit offset"
| "optimize F C (PAggregate input group_by aggs having sets) = PAggregate (optimize F C input) group_by aggs having sets"
| "optimize F C (PJoin left right jt cond us alg) = PJoin (optimize F C left) (optimize F C right) jt cond us alg"
| "optimize F C (PSetOp op all left right) = PSetOp op all (optimize F C left) (optimize F C right)"
| "optimize F C (PCte ctes inner) = PCte (map (\<lambda>(name, p). (name, optimize F C p)) ctes) (optimize F C inner)"
| "optimize F C (PWindow input exprs) = PWindow (optimize F C input) exprs"
| "optimize F C (PRecursiveCte name aliases base rec_q a b c d e) =
     PRecursiveCte name aliases (optimize F C base) (optimize F C rec_q) a b c d e"
| "optimize F C p = p"

section \<open>When an index is used\<close>

text \<open>A predicate on a range is estimated at three tenths, or at one half without statistics.\<close>

lemma range_estimate:
  assumes "extract_range_predicate e = Some r"
  shows "estimate_selectivity F C t e = half \<or> estimate_selectivity F C t e = three_tenths"
proof -
  obtain left op right where e: "e = EBinaryOp left op right" "op = OpGt \<or> op = OpGe \<or> op = OpLt \<or> op = OpLe"
    using assms by (auto simp: extract_range_predicate_def split: expr.splits if_splits)
  then show ?thesis by (auto simp: estimate_selectivity_def Let_def split: option.splits)
qed

lemma not_selective: "f64_cmp half one_fifth \<noteq> Some OLess" "f64_cmp three_tenths one_fifth \<noteq> Some OLess"
  by code_simp+

text \<open>
  The optimizer replaces a filter by an index scan exactly when it stands on the scan of a known table, compares an
  indexed column with a literal for equality; a range is never selective enough.
\<close>

theorem index_scan_only_for_equality:
  "try_index_scan F C plan predicate = Some q \<longleftrightarrow>
     (\<exists>table_name alias schema existing col v oid.
        plan = PTableScan table_name alias schema existing \<and> table_oid_of C table_name = Some oid
        \<and> extract_eq_predicate predicate = Some (col, v) \<and> has_index C oid col
        \<and> q = PIndexScan table_name schema col (Some v) None None existing)"
proof -
  have "f64_cmp (estimate_selectivity F C t predicate) one_fifth \<noteq> Some OLess" if "extract_range_predicate predicate = Some r" for r t
    using range_estimate [OF that, of F C t] not_selective by auto
  then show ?thesis
    by (cases plan) (auto simp: try_index_scan_def split: option.splits if_splits)
qed

text \<open>
  \<^bold>\<open>C11.\<close> An equality on an indexed column becomes a lookup in the index. When the index holds the entries of the rows, no
  key occurs twice, both scans see the same versions, and the literal has the type of the column, the lookup delivers
  the rows that scanning the table and filtering delivers, in the same order (less the columns qualified by an alias).
\<close>

theorem optimized_lookup_is_the_filtered_scan:
  fixes E :: "logical_plan eval_env"
  assumes catalog: "table_oid_of C table_name = Some oid" "has_index C oid col"
    and scan: "scan_visible_tuples x h m = (Ok visible, m')" and name: "table_name \<noteq> lit ''__dual__''"
    and index: "bt_holds kvs k s" "map_of kvs = map_of (concat (map (index_entry (floats E) J schema i) visible))"
    and agrees: "index_agrees E J m x h schema i visible"
    and typed: "column_typed E J schema alias (EColumn qualifier col) i v visible"
  shows "optimize F C (PFilter (PTableScan table_name alias schema None) (EBinaryOp (EColumn qualifier col) OpEq (ELiteral v)))
      = PIndexScan table_name schema col (Some v) None None None
    \<and> (\<exists>rows. exec_index_scan E J m x h schema (Some v) None None None s = Some (Ok rows)
        \<and> obind (fst (exec_table_scan E J x h table_name alias schema None m)) (\<lambda>rs. exec_filter E rs (EBinaryOp (EColumn qualifier col) OpEq (ELiteral v)))
          = Ok (map (\<lambda>r. qualify_row_schema r alias) rows))"
proof -
  have "optimize F C (PFilter (PTableScan table_name alias schema None) (EBinaryOp (EColumn qualifier col) OpEq (ELiteral v)))
      = PIndexScan table_name schema col (Some v) None None None"
    using catalog by (simp add: try_index_scan_def extract_eq_predicate_def)
  moreover have "obind (fst (exec_table_scan E J x h table_name alias schema None m)) (\<lambda>rs. exec_filter E rs (EBinaryOp (EColumn qualifier col) OpEq (ELiteral v)))
      = fst (exec_table_scan E J x h table_name alias schema (Some (EBinaryOp (EColumn qualifier col) OpEq (ELiteral v))) m)"
    using scan name by (simp add: exec_table_scan_def obind_assoc)
  ultimately show ?thesis
    using index_scan_equals_filtered_table_scan [OF scan name index agrees typed] by simp
qed

definition indexed_catalog :: catalog_view where
  "indexed_catalog = \<lparr>table_oid_of = (\<lambda>_. Some 1000), has_index = (\<lambda>_ _. True), stats_of = (\<lambda>_ _. None)\<rparr>"

theorem optimized_lookup_is_the_filtered_scan_witness:
  "\<forall>F (E :: logical_plan eval_env). \<exists>m h s.
     optimize F indexed_catalog (PFilter (PTableScan [116] None (int_table 1) None)
         (EBinaryOp (EColumn None [97]) OpEq (ELiteral (VInt4 5))))
       = PIndexScan [116] (int_table 1) [97] (Some (VInt4 5)) None None None
     \<and> index_tids (floats E) (Some (VInt4 5)) None None s \<noteq> Some (Ok [])
     \<and> (\<exists>rows. exec_index_scan E no_arrays m 3 h (int_table 1) (Some (VInt4 5)) None None None s = Some (Ok rows))"
proof (intro allI, rule one_indexable_row)
  fix F :: float_lib and E :: "logical_plan eval_env" and m m' h s and k :: tid
  let ?u = "(k, new_version 3 (row_payload no_arrays five))"
  assume a: "scan_visible_tuples 3 h m = (Ok [?u], m')" "heap_get_tuple h k = Ok (new_version 3 (row_payload no_arrays five))" "bt_holds [] 100 s"
  have "indexable (floats E) no_arrays (int_table 1) 0 [?u]"
    using five_entry [of "floats E" k] by (simp add: indexable_def five_stored new_version_def del: One_nat_def)
  then obtain s' kvs where s': "bt_holds kvs 99 s'"
    "map_of kvs = map_of (concat (map (index_entry (floats E) no_arrays (int_table 1) 0) [?u]))"
    using build_index_law [of "[]" "[?u]" 99 s "floats E" no_arrays "int_table 1" 0 3] a(3) by auto
  have agrees: "index_agrees E no_arrays m 3 h (int_table 1) 0 [?u]"
    using a(2) five_entry [of "floats E" k] by (simp add: index_agrees_def index_visible_def new_version_def del: One_nat_def)
  have typed: "column_typed E no_arrays (int_table 1) None (EColumn None [97]) 0 (VInt4 5) [?u]"
    by (simp add: column_typed_def new_version_def five_stored row_get_by_idx_def qualify_row_schema_def eval_column_def
        row_get_def position_def del: One_nat_def)
  have found: "index_tids (floats E) (Some (VInt4 5)) None None s' \<noteq> Some (Ok [])"
    using index_tids_eq [OF s'(1), of "floats E" "VInt4 5" None None] s'(2) five_entry [of "floats E" k] five_key [of "floats E"]
    by (simp del: One_nat_def encode_sort_key.simps)
  have c: "table_oid_of indexed_catalog [116] = Some 1000" "has_index indexed_catalog 1000 [97]"
    by (simp_all add: indexed_catalog_def)
  have "[116] \<noteq> lit ''__dual__''" by code_simp
  from optimized_lookup_is_the_filtered_scan [OF c a(1) this s' agrees typed, of F] found
  show "\<exists>m h s. optimize F indexed_catalog (PFilter (PTableScan [116] None (int_table 1) None)
         (EBinaryOp (EColumn None [97]) OpEq (ELiteral (VInt4 5))))
       = PIndexScan [116] (int_table 1) [97] (Some (VInt4 5)) None None None
     \<and> index_tids (floats E) (Some (VInt4 5)) None None s \<noteq> Some (Ok [])
     \<and> (\<exists>rows. exec_index_scan E no_arrays m 3 h (int_table 1) (Some (VInt4 5)) None None None s = Some (Ok rows))"
    by blast
qed

end
