(* ===== verification/Txn_Outcome.thy ===== *)
theory Txn_Outcome
  imports Txn_Heap
begin

text \<open>
  What becomes of transactions: when a serializable commit is refused, and how outcomes are restored from
  the log after a restart (\<^verbatim>\<open>check_serializable_conflict\<close> and \<^verbatim>\<open>new_with_wal_recovery\<close> of
  \<^verbatim>\<open>txn/src/manager.rs\<close>).
\<close>

section \<open>The conflict graph\<close>

text \<open>Active serializable transactions \<open>a\<close> and \<open>b\<close>, and \<open>b\<close> wrote something \<open>a\<close> read.\<close>

definition conflicts :: "txn_manager \<Rightarrow> xid \<Rightarrow> xid \<Rightarrow> bool" where
  "conflicts m a b \<longleftrightarrow> a \<noteq> b \<and> (\<exists>ta tb. map_of (active m) a = Some ta \<and> map_of (active m) b = Some tb
     \<and> tx_isolation ta = Serializable \<and> tx_isolation tb = Serializable \<and> read_set ta \<inter> write_set tb \<noteq> {})"

lemma map_of_filter_snd:
  assumes "distinct (map fst xs)"
  shows "map_of (filter (\<lambda>(_, u). P u) xs) a = (case map_of xs a of Some t \<Rightarrow> if P t then Some t else None | None \<Rightarrow> None)"
  using assms
proof (induction xs)
  case (Cons x xs)
  have "map_of xs (fst x) = None" using Cons.prems by (simp add: map_of_eq_None_iff)
  with Cons show ?case by (cases x) (auto split: option.splits)
qed simp

lemma edge_conflict_edges:
  assumes "distinct (map fst ser)"
  shows "edge (conflict_edges ser) a b \<longleftrightarrow> a \<noteq> b \<and> (\<exists>ta tb. map_of ser a = Some ta \<and> map_of ser b = Some tb
     \<and> read_set ta \<inter> write_set tb \<noteq> {})"
proof -
  let ?succ = "\<lambda>a ta. map fst (filter (\<lambda>(b, tb). b \<noteq> a \<and> read_set ta \<inter> write_set tb \<noteq> {}) ser)"
  have map_part: "map_of (map (\<lambda>(a, ta). (a, ?succ a ta)) xs) a = map_option (?succ a) (map_of xs a)" for xs
    by (induction xs) auto
  have dist: "distinct (map fst (map (\<lambda>(a, ta). (a, ?succ a ta)) ser))"
    using assms by (simp add: comp_def case_prod_unfold)
  have eq: "(\<lambda>e. snd e \<noteq> []) = (\<lambda>(x :: xid, ns :: xid list). ns \<noteq> [])" by auto
  have "map_of (conflict_edges ser) a = (case map_option (?succ a) (map_of ser a) of
      Some ns \<Rightarrow> if ns \<noteq> [] then Some ns else None | None \<Rightarrow> None)"
    unfolding conflict_edges_def eq map_of_filter_snd [OF dist] map_part ..
  then have "neighbors (conflict_edges ser) a = (case map_of ser a of Some ta \<Rightarrow> ?succ a ta | None \<Rightarrow> [])"
    by (auto simp: neighbors_def split: option.splits)
  moreover have mem: "b \<in> set (?succ a ta) \<longleftrightarrow> a \<noteq> b \<and> (\<exists>tb. map_of ser b = Some tb \<and> read_set ta \<inter> write_set tb \<noteq> {})" for ta
    using assms by (auto simp: image_iff map_of_eq_Some_iff)
  ultimately show ?thesis by (cases "map_of ser a") (simp_all add: edge_def mem del: set_map set_filter)
qed

lemma check_law:
  assumes "distinct (map fst (active m))" and "map_of (active m) x = Some t"
  shows "check_serializable_conflict x m =
    (if tx_isolation t = Serializable \<and> write_set t \<noteq> {} \<and> read_set t \<noteq> {}
        \<and> (\<exists>z. (conflicts m)\<^sup>*\<^sup>* x z \<and> (conflicts m)\<^sup>+\<^sup>+ z z)
     then Err SerializationFailure else Ok ())"
proof -
  let ?ser = "filter (\<lambda>(_, u). tx_isolation u = Serializable) (active m)"
  have dist: "distinct (map fst ?ser)" using assms(1) by (rule distinct_map_filter)
  have "edge (conflict_edges ?ser) a b \<longleftrightarrow> conflicts m a b" for a b
    unfolding edge_conflict_edges [OF dist] map_of_filter_snd [OF assms(1)] conflicts_def
    by (auto split: option.splits if_splits)
  then have "edge (conflict_edges ?ser) = conflicts m" by blast
  then show ?thesis
    using assms(2) by (auto simp: check_serializable_conflict_def has_cycle_iff Let_def)
qed

section \<open>Outcomes in the log\<close>

definition commits :: "wal_record list \<Rightarrow> xid set" where
  "commits recs = {r_xid r | r. r \<in> set recs \<and> r_type r = Commit}"

definition aborts :: "wal_record list \<Rightarrow> xid set" where
  "aborts recs = {r_xid r | r. r \<in> set recs \<and> r_type r = Abort}"

lemma outcome_Cons:
  "commits (rec # recs) = (if r_type rec = Commit then {r_xid rec} else {}) \<union> commits recs"
  "aborts (rec # recs) = (if r_type rec = Abort then {r_xid rec} else {}) \<union> aborts recs"
  by (auto simp: commits_def aborts_def)

lemma commits_append: "commits (recs @ recs') = commits recs \<union> commits recs'"
  by (auto simp: commits_def)

lemma outcome_steps:
  assumes "steps outcome_step recs (m, x) = (r, (m', x'))"
  shows "r = Ok () \<and> committed m' = committed m \<union> commits recs \<and> aborted m' \<subseteq> aborted m \<union> aborts recs
    \<and> x \<le> x' \<and> (\<forall>rec \<in> set recs. r_xid rec \<le> x') \<and> next_xid m' = next_xid m \<and> global_next m' = global_next m
    \<and> active m' = active m \<and> tm_wal m' = tm_wal m"
  using assms
proof (induction recs arbitrary: m x)
  case Nil
  then show ?case by (auto simp: commits_def)
next
  case (Cons rec recs)
  define m1 where "m1 = (case r_type rec of
         Commit \<Rightarrow> m\<lparr>committed := insert (r_xid rec) (committed m), aborted := aborted m - {r_xid rec}\<rparr>
       | Abort \<Rightarrow> m\<lparr>aborted := insert (r_xid rec) (aborted m)\<rparr>
       | _ \<Rightarrow> m)"
  define x1 where "x1 = (if r_xid rec > x then r_xid rec else x)"
  have "outcome_step rec (m, x) = (Ok (), (m1, x1))"
    by (cases "r_type rec") (simp_all add: outcome_step_def Let_def m1_def x1_def)
  then have "steps outcome_step recs (m1, x1) = (r, (m', x'))" using Cons.prems by simp
  note IH = Cons.IH [OF this]
  have "x \<le> x1" "r_xid rec \<le> x1" by (auto simp: x1_def)
  then have "x \<le> x'" "r_xid rec \<le> x'" using IH order_trans by blast+
  moreover have "committed m1 = committed m \<union> (if r_type rec = Commit then {r_xid rec} else {})"
    "aborted m1 \<subseteq> aborted m \<union> (if r_type rec = Abort then {r_xid rec} else {})"
    "next_xid m1 = next_xid m" "global_next m1 = global_next m" "active m1 = active m" "tm_wal m1 = tm_wal m"
    by (auto simp: m1_def split: wal_record_type.splits)
  ultimately show ?case using IH by (auto simp: outcome_Cons split: if_splits)
qed

lemma restart_law:
  assumes log: "holds_log d cs" and R_def: "R = new_with_wal_recovery w d g"
  shows "committed R = commits (log_records cs)" and "aborted R \<subseteq> aborts (log_records cs)"
    and "active R = []" and "tm_wal R = w" and "next_xid R \<le> global_next R \<or> next_xid R = 3"
    and "rec \<in> set (log_records cs) \<Longrightarrow> r_xid rec \<noteq> - 1 \<Longrightarrow> r_xid rec < next_xid R"
    and "rec \<in> set (log_records cs) \<Longrightarrow> r_xid rec \<noteq> - 1 \<Longrightarrow> r_xid rec < global_next R"
proof -
  let ?m0 = "TransactionManager_new w g"
  obtain r where r: "WalReader_open d INVALID_LSN = Ok r"
    "replay outcome_step r (?m0, 2) = steps outcome_step (log_records cs) (?m0, 2)"
  proof (rule reader_from_start [OF log])
    fix r assume "WalReader_open d INVALID_LSN = Ok r"
      and "\<And>f (s :: txn_manager \<times> xid). replay f r s = steps f (log_records cs) s"
    then show thesis by (intro that)
  qed
  obtain res m1 x where run: "steps outcome_step (log_records cs) (?m0, 2) = (res, (m1, x))"
    by (metis surj_pair)
  note st = outcome_steps [OF run]
  define nxt where "nxt = (if x = - 1 then - 1 else x + 1)"
  have R: "R = m1\<lparr>global_next := advance_next_xid nxt (global_next m1),
      next_xid := (if nxt > next_xid m1 then nxt else next_xid m1)\<rparr>"
    unfolding R_def new_with_wal_recovery_def using r run by (simp add: nxt_def Let_def)
  show "committed R = commits (log_records cs)" "aborted R \<subseteq> aborts (log_records cs)" "active R = []" "tm_wal R = w"
    using st by (auto simp: R TransactionManager_new_def)
  have adv: "nxt \<le> global_next R" by (simp add: R advance_next_xid_def)
  then show "next_xid R \<le> global_next R \<or> next_xid R = 3" using st by (auto simp: R TransactionManager_new_def)
  have below: "r_xid rec < nxt" if "rec \<in> set (log_records cs)" "r_xid rec \<noteq> - 1"
  proof (cases "x = - 1")
    case True
    then show ?thesis using that(2) by (simp add: nxt_def order.not_eq_order_implies_strict)
  next
    case False
    then have "x < nxt" by (simp add: nxt_def word_less_succ)
    moreover have "r_xid rec \<le> x" using st that(1) by blast
    ultimately show ?thesis by (rule order.strict_trans1 [rotated])
  qed
  have "nxt \<le> next_xid R" by (auto simp: R)
  with below show "rec \<in> set (log_records cs) \<Longrightarrow> r_xid rec \<noteq> - 1 \<Longrightarrow> r_xid rec < next_xid R"
    by (meson less_le_trans)
  from below adv show "rec \<in> set (log_records cs) \<Longrightarrow> r_xid rec \<noteq> - 1 \<Longrightarrow> r_xid rec < global_next R"
    by (meson less_le_trans)
qed

section \<open>Properties\<close>

text \<open>
  \<^bold>\<open>C9.\<close> The commit check of a serializable transaction refuses exactly when the transaction has read and
  written something and a cycle of read-write conflicts among the transactions active right now can be
  reached from it; then the transaction stays active and nothing is logged.
\<close>

theorem serializable_commit_refused_exactly:
  assumes "tm_inv m" and "map_of (active m) x = Some t"
  shows "(check_serializable_conflict x m = Err SerializationFailure \<longleftrightarrow>
      tx_isolation t = Serializable \<and> write_set t \<noteq> {} \<and> read_set t \<noteq> {}
      \<and> (\<exists>z. (conflicts m)\<^sup>*\<^sup>* x z \<and> (conflicts m)\<^sup>+\<^sup>+ z z))
    \<and> (check_serializable_conflict x m = Err SerializationFailure \<longrightarrow> txn_commit x m = (Err SerializationFailure, m))"
proof -
  have "distinct (map fst (active m))" using assms(1) by (simp add: tm_inv_def)
  note law = check_law [OF this assms(2)]
  have "txn_commit x m = (Err SerializationFailure, m)" if "check_serializable_conflict x m = Err SerializationFailure"
    using assms(2) tm_invD(2) [OF assms] that by (simp add: txn_commit_def check_active_def)
  with law show ?thesis by simp
qed

text \<open>Two transactions that have each read what the other is about to write.\<close>

definition idle_writer :: wal_writer where
  "idle_writer = \<lparr>w_dir = [], w_file = [], w_pos = 0, w_lsn = 0, w_prev = 0, w_segment = 1, w_segment_size = 0,
     w_synced = (\<lambda>_. 0)\<rparr>"

definition skewed :: txn_manager where
  "skewed = (TransactionManager_new idle_writer 5)\<lparr>next_xid := 5,
     active := [(3, (Transaction_new 3 Serializable)\<lparr>read_set := {(0, 0), (0, 1)}, write_set := {(0, 0)}\<rparr>),
                (4, (Transaction_new 4 Serializable)\<lparr>read_set := {(0, 0), (0, 1)}, write_set := {(0, 1)}\<rparr>)]\<rparr>"

lemma skewed_inv: "tm_inv skewed"
  by (simp add: tm_inv_def skewed_def TransactionManager_new_def Transaction_new_def)

lemma skewed_conflict: "check_serializable_conflict 3 skewed = Err SerializationFailure"
proof -
  obtain t where t: "map_of (active skewed) 3 = Some t" "tx_isolation t = Serializable" "write_set t \<noteq> {}" "read_set t \<noteq> {}"
    by (simp add: skewed_def Transaction_new_def)
  have "conflicts skewed 3 4" "conflicts skewed 4 3" by (simp_all add: conflicts_def skewed_def Transaction_new_def)
  then have "(conflicts skewed)\<^sup>+\<^sup>+ 3 3" by (rule tranclp.trancl_into_trancl [OF tranclp.r_into_trancl])
  moreover have "distinct (map fst (active skewed))" by (simp add: skewed_def)
  ultimately show ?thesis using check_law [OF _ t(1)] t(2-4) by (auto intro: exI [of _ 3])
qed

theorem serializable_commit_refused_exactly_witness:
  "check_serializable_conflict 3 skewed = Err SerializationFailure \<and> txn_commit 3 skewed = (Err SerializationFailure, skewed)"
proof -
  obtain t where t: "map_of (active skewed) 3 = Some t" "tx_isolation t = Serializable" "write_set t \<noteq> {}" "read_set t \<noteq> {}"
    by (simp add: skewed_def Transaction_new_def)
  have "conflicts skewed 3 4" "conflicts skewed 4 3" by (simp_all add: conflicts_def skewed_def Transaction_new_def)
  then have "(conflicts skewed)\<^sup>+\<^sup>+ 3 3" by (rule tranclp.trancl_into_trancl [OF tranclp.r_into_trancl])
  then show ?thesis using serializable_commit_refused_exactly [OF skewed_inv t(1)] t(2-4) by blast
qed

text \<open>
  \<^bold>\<open>C40.\<close> Finding. The check knows active transactions only. If \<open>y\<close>, which wrote what \<open>x\<close> has read, commits
  before \<open>x\<close> writes what \<open>y\<close> has read, both commits pass, although the two cannot be put in any serial order
  (write skew).
\<close>

theorem write_skew_passes:
  assumes "active m = [(x, tx), (y, ty)]" and "x \<noteq> y" and "tx_isolation tx = Serializable" and "tx_isolation ty = Serializable"
    and "read_set tx \<inter> write_set ty \<noteq> {}" and "write_set tx = {}" and "(page_no k, slot k) \<in> read_set ty"
  shows "conflicts m x y \<and> conflicts (track_write x k m) y x
    \<and> check_serializable_conflict y m = Ok ()
    \<and> check_serializable_conflict x (track_write x k (commit_publish y (commit_remove y m))) = Ok ()"
proof -
  let ?tx = "tx\<lparr>write_set := {(page_no k, slot k)}\<rparr>"
  have xy: "conflicts m x y" "conflicts (track_write x k m) y x"
    using assms by (auto simp: conflicts_def track_write_def)
  have no_y: "\<not> conflicts m y z" for z using assms by (auto simp: conflicts_def split: if_splits)
  have "\<not> (\<exists>z. (conflicts m)\<^sup>*\<^sup>* y z \<and> (conflicts m)\<^sup>+\<^sup>+ z z)"
  proof
    assume "\<exists>z. (conflicts m)\<^sup>*\<^sup>* y z \<and> (conflicts m)\<^sup>+\<^sup>+ z z"
    then obtain z where z: "(conflicts m)\<^sup>*\<^sup>* y z" "(conflicts m)\<^sup>+\<^sup>+ z z" by blast
    from z(1) no_y have "z = y" by (metis converse_rtranclpE)
    with z(2) no_y show False by (metis tranclpD)
  qed
  then have 1: "check_serializable_conflict y m = Ok ()"
    using check_law [of m y ty] assms(1,2) by simp
  let ?m = "track_write x k (commit_publish y (commit_remove y m))"
  have act: "active ?m = [(x, ?tx)]"
    using assms(1-3,6) by (simp add: track_write_def commit_publish_def commit_remove_def)
  have "\<not> conflicts ?m a b" for a b by (auto simp: conflicts_def act split: if_splits)
  then have "\<not> (conflicts ?m)\<^sup>+\<^sup>+ z z" for z by (metis tranclpD)
  then have "check_serializable_conflict x ?m = Ok ()" using check_law [of ?m x ?tx] by (simp add: act)
  with xy 1 show ?thesis by blast
qed

definition before_skew :: txn_manager where
  "before_skew = skewed\<lparr>
     active := [(3, (Transaction_new 3 Serializable)\<lparr>read_set := {(0, 0), (0, 1)}\<rparr>),
                (4, (Transaction_new 4 Serializable)\<lparr>read_set := {(0, 0), (0, 1)}, write_set := {(0, 1)}\<rparr>)]\<rparr>"

theorem write_skew_passes_witness:
  "check_serializable_conflict 4 before_skew = Ok ()
     \<and> check_serializable_conflict 3 (track_write 3 (TID_new 0 0) (commit_publish 4 (commit_remove 4 before_skew))) = Ok ()"
  using write_skew_passes [of before_skew 3 "(Transaction_new 3 Serializable)\<lparr>read_set := {(0, 0), (0, 1)}\<rparr>" 4
      "(Transaction_new 4 Serializable)\<lparr>read_set := {(0, 0), (0, 1)}, write_set := {(0, 1)}\<rparr>" "TID_new 0 0"]
  by (simp add: before_skew_def Transaction_new_def TID_new_def)

text \<open>
  \<^bold>\<open>C7.\<close> A committed transaction stays committed. When \<open>commit\<close> has returned, a manager restarted from the
  log directory has exactly the transactions committed that the log recorded before, and this one; none is
  active; and every number it will hand out is above every number in the log.
\<close>

theorem commit_survives_restart:
  assumes "wal_inv cs (tm_wal m)" and "w_segment (tm_wal m) \<noteq> - 1" and "Suc (length (log_records cs)) < 2 ^ 64"
    and "txn_commit x m = (Ok (), m')" and "R = new_with_wal_recovery w (w_dir (tm_wal m')) g" and "x \<noteq> - 1"
  shows "committed R = insert x (commits (log_records cs)) \<and> active R = [] \<and> x < next_xid R
    \<and> (\<forall>rec \<in> set (log_records cs). r_xid rec \<noteq> - 1 \<longrightarrow> r_xid rec < next_xid R \<and> r_xid rec < global_next R)"
proof -
  have t: "check_active x m = Ok ()" "check_serializable_conflict x m = Ok ()"
    using assms(4) by (auto simp: txn_commit_def outcome_simps)
  then obtain t where "map_of (active m) x = Some t" "tx_state t = Active"
    by (auto simp: check_active_def split: option.splits if_splits)
  then obtain cs' w' where c: "txn_commit x m = (Ok (), release_locks x (commit_publish x (commit_remove x (m\<lparr>tm_wal := w'\<rparr>))))"
    "wal_inv cs' w'" "log_records cs' = log_records cs @ [appended (tm_wal m) x Commit 0 []]"
    by (rule commit_ok [OF assms(1-3) _ _ t(2)])
  have "tm_wal m' = w'" using c(1) assms(4) by (auto simp: release_locks_def commit_publish_def commit_remove_def)
  then have log: "holds_log (w_dir (tm_wal m')) cs'" using c(2) by (simp add: wal_inv_def)
  note law = restart_law [OF log assms(5)]
  have "commits (log_records cs') = insert x (commits (log_records cs))"
    by (simp add: c(3) commits_append appended_def outcome_Cons) (simp add: commits_def)
  moreover have "x < next_xid R"
    using law(6) [of "appended (tm_wal m) x Commit 0 []"] assms(6) by (simp add: c(3) appended_def)
  ultimately show ?thesis using law(1,3,6,7) c(3) by simp
qed

theorem commit_survives_restart_witness:
  "\<exists>w m'. txn_commit 3 (snd (txn_begin ReadCommitted (TransactionManager_new w 3))) = (Ok (), m')
     \<and> committed (new_with_wal_recovery w (w_dir (tm_wal m')) 3) = {3}"
proof (rule demo_history)
  fix w m1 m2
  assume a: "wal_inv [(1, [], [])] w" "w_segment w = 1"
    "txn_begin ReadCommitted (TransactionManager_new w 3) = (3, m1)" "txn_commit 3 m1 = (Ok (), m2)"
  have m1: "tm_wal m1 = w"
    using a(3) by (auto simp: txn_begin_def begin_alloc_def allocate_xid_def begin_register_def TransactionManager_new_def Let_def)
  have "committed (new_with_wal_recovery w (w_dir (tm_wal m2)) 3) = insert 3 (commits (log_records [(1, [], [])]))"
    using commit_survives_restart [OF _ _ _ a(4) refl, of "[(1, [], [])]" w 3] a(1,2) m1 by (simp add: chunk_records_def)
  then have "committed (new_with_wal_recovery w (w_dir (tm_wal m2)) 3) = {3}" by (simp add: commits_def chunk_records_def)
  then show ?thesis using a(3,4) by (intro exI [of _ w] exI [of _ m2]) simp
qed

end
