(* ===== verification/Sql_Engine.thy ===== *)
theory Sql_Engine
  imports Sql_Store Sql_Optimizer Txn_Outcome
begin

text \<open>
  The query engine: \<^verbatim>\<open>sql/src/engine.rs\<close> with the savepoints of \<^verbatim>\<open>sql/src/subtxn.rs\<close>. Sessions open, commit and
  roll back transactions, set savepoints and run statements. Parsing, planning and the execution of a plan are the fields of
  \<open>engine_lib\<close>; everything between the text of a request and these three is modelled. A run that does not return
  is \<open>None\<close>. Subscribers of channels are not part of the state.
\<close>

section \<open>Text\<close>

definition ascii_upper :: "rstring \<Rightarrow> rstring" where
  "ascii_upper s = map (\<lambda>b. if 97 \<le> b \<and> b \<le> 122 then b - 32 else b) s"

definition starts_with :: "rstring \<Rightarrow> rstring \<Rightarrow> bool" where
  "starts_with s p \<longleftrightarrow> take (length p) s = p"

definition strip_prefix :: "rstring \<Rightarrow> rstring \<Rightarrow> rstring option" where
  "strip_prefix s p = (if starts_with s p then Some (drop (length p) s) else None)"

definition trim_byte :: "byte \<Rightarrow> rstring \<Rightarrow> rstring" where
  "trim_byte c s = trim_end_byte c (dropWhile (\<lambda>b. b = c) s)"

function replace_all :: "rstring \<Rightarrow> rstring \<Rightarrow> rstring \<Rightarrow> rstring" where
  "replace_all p w [] = (if p = [] then w else [])"
| "replace_all p w (b # s) =
     (if p = [] then w @ b # replace_all p w s
      else if starts_with (b # s) p then w @ replace_all p w (drop (length p) (b # s))
      else b # replace_all p w s)"
  by pat_completeness auto
termination
  by (relation "measure (\<lambda>(p, w, s). length s)") auto

lemma comment_shorter: "length (dropWhile P (tl s)) - Suc 0 < Suc (length s)"
  using length_dropWhile_le [of P "tl s"] by (simp add: le_imp_less_Suc)

function split_loop :: "rstring \<Rightarrow> rstring \<Rightarrow> bool \<Rightarrow> rstring list" where
  "split_loop [] cur q = (let t = trim cur in if t \<noteq> [] then [t] else [])"
| "split_loop (ch # rest) cur q =
     (if ch = 45 \<and> \<not> q \<and> rest \<noteq> [] \<and> hd rest = 45
      then split_loop (tl (dropWhile (\<lambda>b. b \<noteq> 10) (tl rest))) cur q
      else if ch = 39 then split_loop rest (cur @ [ch]) (\<not> q)
      else if ch = 59 \<and> \<not> q
      then (let t = trim cur in if t \<noteq> [] then t # split_loop rest [] q else split_loop rest [] q)
      else split_loop rest (cur @ [ch]) q)"
  by pat_completeness auto
termination
  by (relation "measure (\<lambda>(s, cur, q). length s)") (auto simp: comment_shorter)

definition split_sql_statements :: "rstring \<Rightarrow> rstring list" where
  "split_sql_statements sql = split_loop sql [] False"

definition parse_isolation_level :: "rstring \<Rightarrow> isolation_level option" where
  "parse_isolation_level s =
     (let u = ascii_upper (trim s) in
      if u = lit ''READ COMMITTED'' \<or> u = lit ''READ UNCOMMITTED'' then Some ReadCommitted
      else if u = lit ''REPEATABLE READ'' then Some RepeatableRead
      else if u = lit ''SERIALIZABLE'' then Some Serializable
      else None)"

definition extract_isolation_level :: "rstring \<Rightarrow> isolation_level option" where
  "extract_isolation_level upper =
     (case strip_prefix upper (lit ''SET TRANSACTION ISOLATION LEVEL '') of
        Some rest \<Rightarrow> parse_isolation_level (trim rest)
      | None \<Rightarrow>
          (case strip_prefix upper (lit ''SET SESSION CHARACTERISTICS AS TRANSACTION ISOLATION LEVEL '') of
             Some rest \<Rightarrow> parse_isolation_level (trim rest)
           | None \<Rightarrow> None))"

definition value_to_sql_literal :: "float_lib \<Rightarrow> val \<Rightarrow> rstring" where
  "value_to_sql_literal F v =
     (let quoted = (\<lambda>s. [39] @ s @ [39]); escaped = replace_all [39] [39, 39] in
      case v of
        VNull \<Rightarrow> lit ''NULL''
      | VBool b \<Rightarrow> if b then lit ''TRUE'' else lit ''FALSE''
      | VInt4 n \<Rightarrow> fmt_int 0 (sint n)
      | VInt8 n \<Rightarrow> fmt_int 0 (sint n)
      | VFloat8 f \<Rightarrow> f_show F f
      | VText s \<Rightarrow> quoted (escaped s)
      | VNumeric s \<Rightarrow> s
      | VUuid s \<Rightarrow> quoted s
      | VDate d \<Rightarrow> quoted (fmt_int 0 (sint d))
      | VTimestamp t \<Rightarrow> quoted (fmt_int 0 (sint t))
      | VBytes b \<Rightarrow> lit ''NULL''
      | VArray vs \<Rightarrow> quoted (escaped (show_val F v))
      | VJson s \<Rightarrow> quoted (escaped s))"

text \<open>The values of a prepared statement, put in one after the other.\<close>

definition substitute_params :: "float_lib \<Rightarrow> rstring \<Rightarrow> val list \<Rightarrow> rstring" where
  "substitute_params F sql params =
     foldl (\<lambda>s (i, v). replace_all (36 # fmt_int 0 (int i + 1)) (value_to_sql_literal F v) s) sql (enumerate 0 params)"

section \<open>State\<close>

record savepoint_frame =
  sp_name :: rstring
  undo_log_start :: nat

record session_state =
  ss_xid :: xid
  savepoints :: "savepoint_frame list"
  undo_log :: "undo_entry list"
  ss_isolation :: isolation_level

definition SessionState_with_isolation :: "xid \<Rightarrow> isolation_level \<Rightarrow> session_state" where
  "SessionState_with_isolation x level = \<lparr>ss_xid = x, savepoints = [], undo_log = [], ss_isolation = level\<rparr>"

definition SessionState_new :: "xid \<Rightarrow> session_state" where
  "SessionState_new x = SessionState_with_isolation x ReadCommitted"

record query_engine =
  q_db :: exec_state
  prepared_statements :: "rstring \<rightharpoonup> rstring"
  session_states :: "rstring \<rightharpoonup> session_state"
  session_isolation :: "rstring \<rightharpoonup> isolation_level"

record execution_result =
  er_rows :: "row list"
  rows_affected :: u64
  command :: rstring
  col_names :: "rstring list"
  col_types :: "data_type list"

definition done_with :: "string \<Rightarrow> execution_result" where
  "done_with c = \<lparr>er_rows = [], rows_affected = 0, command = lit c, col_names = [], col_types = []\<rparr>"

datatype 's parse_result =
    PrVacuum "rstring option" bool
  | PrListen rstring
  | PrUnlisten "rstring option"
  | PrNotify rstring "rstring option"
  | PrDropFunction rstring bool
  | PrStatements "'s list"

text \<open>Parser, planner, executor and what else a request needs: the role, the arithmetic of doubles, Unicode upper case.\<close>

record 's engine_lib =
  parse_with_vacuum :: "rstring \<Rightarrow> (sql_error, 's parse_result) outcome"
  plan_statement :: "'s \<Rightarrow> exec_state \<Rightarrow> (sql_error, logical_plan) outcome"
  catalog_answers :: "exec_state \<Rightarrow> catalog_view"
  execute_plan :: "xid \<Rightarrow> logical_plan \<Rightarrow> execution_result xop"
  current_role :: "rstring option"
  doubles :: float_lib
  to_uppercase :: "rstring \<Rightarrow> rstring"

type_synonym 'a eop = "(query_engine, sql_error, 'a) lop"

definition on_db :: "'a xop \<Rightarrow> 'a eop" where
  "on_db f e = map_option (\<lambda>(r, s). (r, e\<lparr>q_db := s\<rparr>)) (f (q_db e))"

definition on_txn :: "(txn_manager, txn_error, 'a) sop \<Rightarrow> 'a eop" where
  "on_txn f = on_db (\<lambda>s. case f (x_mgr s) of (r, m) \<Rightarrow> Some (map_err SqlTxn r, s\<lparr>x_mgr := m\<rparr>))"

definition begin_txn :: "isolation_level \<Rightarrow> xid eop" where
  "begin_txn level = on_txn (\<lambda>m. case txn_begin level m of (x, m') \<Rightarrow> (Ok x, m'))"

definition end_session :: "rstring \<Rightarrow> query_engine \<Rightarrow> query_engine" where
  "end_session sid e = e\<lparr>session_states := (session_states e)(sid := None)\<rparr>"

text \<open>\<^verbatim>\<open>let _ = f\<close>: the result is thrown away, the effect stays.\<close>

definition quietly :: "'a eop \<Rightarrow> unit eop" where
  "quietly f e = (case f e of Some (Panic, e') \<Rightarrow> Some (Panic, e') | Some (r, e') \<Rightarrow> Some (Ok (), e') | None \<Rightarrow> None)"

section \<open>Privileges\<close>

definition require :: "bool \<Rightarrow> (sql_error, unit) outcome" where
  "require b = (if b then Ok () else Err Execution)"

definition check_privileges :: "rstring option \<Rightarrow> catalog_db \<Rightarrow> logical_plan \<Rightarrow> (sql_error, unit) outcome" where
  "check_privileges current c plan =
     (case current of
        None \<Rightarrow> Ok ()
      | Some name \<Rightarrow>
          obind (map_err (\<lambda>_. Execution) (get_role c name)) (\<lambda>role.
          if rolsuper role then Ok ()
          else
            let table = (\<lambda>t p. obind (require (rolcanlogin role)) (\<lambda>_.
                  require (check_table_privilege (registries c) (lit ''public'') t name p))) in
            case plan of
              PCreateTable sn tn cols b pk uq fks chk \<Rightarrow> require (rolcreatedb role)
            | PDropTable sn tn b \<Rightarrow> require (rolcreatedb role)
            | PCreateIndex n t c m \<Rightarrow> require (rolcreatedb role)
            | PCreateRole n b1 b2 p \<Rightarrow> require (rolcreaterole role)
            | PTableScan t a s f \<Rightarrow> table t AclSelect
            | PIndexScan t s col ev rs re f \<Rightarrow> table t AclSelect
            | PInsert t s cols src ret oc \<Rightarrow> table t AclInsert
            | PUpdate t s asg f ret frm \<Rightarrow> table t AclUpdate
            | PDelete t s f ret us \<Rightarrow> table t AclDelete
            | _ \<Rightarrow> require (rolcanlogin role)))"

section \<open>Statements\<close>

definition checked_execute :: "'s engine_lib \<Rightarrow> xid \<Rightarrow> logical_plan \<Rightarrow> execution_result eop" where
  "checked_execute L x plan =
     lbind (ltotal (slift (\<lambda>e. check_privileges (current_role L) (x_cat (q_db e)) plan))) (\<lambda>_.
     on_db (execute_plan L x plan))"

text \<open>\<open>inner\<close> runs the text of a prepared statement; such a run has no undo log.\<close>

definition run_statement :: "'s engine_lib \<Rightarrow> (rstring \<Rightarrow> execution_result eop) \<Rightarrow> xid \<Rightarrow> 's \<Rightarrow> execution_result eop" where
  "run_statement L inner x stmt =
     lbind (ltotal (slift (\<lambda>e. plan_statement L stmt (q_db e)))) (\<lambda>raw.
     lbind (ltotal (slift (\<lambda>e. Ok (optimize (doubles L) (catalog_answers L (q_db e)) raw)))) (\<lambda>plan.
     case plan of
       PPrepare name sql \<Rightarrow> ltotal (\<lambda>e. (Ok (done_with ''PREPARE''), e\<lparr>prepared_statements := (prepared_statements e)(name \<mapsto> sql)\<rparr>))
     | PExecutePrepared name params \<Rightarrow>
         lbind (ltotal (slift (\<lambda>e. ok_or Execution (prepared_statements e name)))) (\<lambda>sql e.
           let log = x_undo (q_db e) in
           map_option (\<lambda>(r, e'). (r, e'\<lparr>q_db := (q_db e')\<lparr>x_undo := log\<rparr>\<rparr>))
             (inner (substitute_params (doubles L) sql params) (e\<lparr>q_db := (q_db e)\<lparr>x_undo := None\<rparr>\<rparr>)))
     | PDeallocate name \<Rightarrow>
         ltotal (\<lambda>e. (Ok (done_with ''DEALLOCATE''), e\<lparr>prepared_statements :=
           (if to_uppercase L name = lit ''*'' \<or> to_uppercase L name = lit ''ALL'' then Map.empty
            else (prepared_statements e)(name := None))\<rparr>))
     | _ \<Rightarrow> checked_execute L x plan))"

primrec run_statements :: "('s \<Rightarrow> execution_result eop) \<Rightarrow> execution_result \<Rightarrow> 's list \<Rightarrow> execution_result eop" where
  "run_statements f r0 [] = ltotal (sret r0)"
| "run_statements f r0 (s # ss) = lbind (f s) (\<lambda>r. run_statements f r ss)"

text \<open>
  \<open>n\<close> bounds how deep prepared statements execute prepared statements; the code has no bound, and a statement that executes
  itself overflows the stack.
\<close>

primrec execute_in_txn_inner :: "nat \<Rightarrow> 's engine_lib \<Rightarrow> xid \<Rightarrow> rstring \<Rightarrow> execution_result eop" where
  "execute_in_txn_inner 0 L x sql = (\<lambda>e. None)"
| "execute_in_txn_inner (Suc n) L x sql =
     lbind (ltotal (slift (\<lambda>e. parse_with_vacuum L sql))) (\<lambda>p.
     case p of
       PrVacuum table analyze \<Rightarrow> checked_execute L x (PVacuum table (lit ''public'') analyze)
     | PrListen channel \<Rightarrow> ltotal (sret (done_with ''LISTEN''))
     | PrUnlisten channel \<Rightarrow> ltotal (sret (done_with ''UNLISTEN''))
     | PrNotify channel payload \<Rightarrow> ltotal (sret (done_with ''NOTIFY''))
     | PrDropFunction name if_exists \<Rightarrow> on_db (execute_plan L x (PDropFunction (lit ''public'') name if_exists))
     | PrStatements stmts \<Rightarrow>
         run_statements (run_statement L (execute_in_txn_inner n L x) x) (done_with ''EMPTY'') stmts)"

definition execute :: "nat \<Rightarrow> 's engine_lib \<Rightarrow> rstring \<Rightarrow> execution_result eop" where
  "execute n L sql =
     lbind (begin_txn ReadCommitted) (\<lambda>x e.
     case execute_in_txn_inner n L x sql e of
       None \<Rightarrow> None
     | Some (Ok r, e') \<Rightarrow> lbind (on_txn (txn_commit x)) (\<lambda>_. ltotal (sret r)) e'
     | Some (Err er, e') \<Rightarrow> lbind (quietly (on_txn (txn_abort x))) (\<lambda>_. ltotal (serr er)) e'
     | Some (Panic, e') \<Rightarrow> Some (Panic, e'))"

section \<open>Sessions\<close>

definition inline_level :: "rstring \<Rightarrow> isolation_level option" where
  "inline_level upper =
     (let rest = (if starts_with upper (lit ''BEGIN '') then Some (drop 6 upper)
                  else if starts_with upper (lit ''START TRANSACTION '') then Some (drop 18 upper)
                  else None) in
      Option.bind rest (\<lambda>r. Option.bind (strip_prefix (trim r) (lit ''ISOLATION LEVEL '')) parse_isolation_level))"

definition session_begin :: "rstring \<Rightarrow> rstring \<Rightarrow> execution_result eop" where
  "session_begin sid upper e =
     (if session_states e sid \<noteq> None then Some (Ok (done_with ''BEGIN''), e)
      else
        let level = (case inline_level upper of
              Some l \<Rightarrow> l
            | None \<Rightarrow> (case session_isolation e sid of Some l \<Rightarrow> l | None \<Rightarrow> ReadCommitted)) in
        lbind (begin_txn level) (\<lambda>x.
        ltotal (\<lambda>e. (Ok (done_with ''BEGIN''), e\<lparr>session_states := (session_states e)(sid \<mapsto> SessionState_with_isolation x level)\<rparr>))) e)"

definition session_commit :: "rstring \<Rightarrow> execution_result eop" where
  "session_commit sid e =
     (case session_states e sid of
        None \<Rightarrow> Some (Ok (done_with ''COMMIT''), e)
      | Some st \<Rightarrow> lbind (on_txn (txn_commit (ss_xid st))) (\<lambda>_. ltotal (sret (done_with ''COMMIT''))) (end_session sid e))"

definition session_rollback :: "rstring \<Rightarrow> execution_result eop" where
  "session_rollback sid e =
     (case session_states e sid of
        None \<Rightarrow> Some (Ok (done_with ''ROLLBACK''), e)
      | Some st \<Rightarrow> lbind (quietly (on_txn (txn_abort (ss_xid st)))) (\<lambda>_. ltotal (sret (done_with ''ROLLBACK''))) (end_session sid e))"

definition session_savepoint :: "rstring \<Rightarrow> rstring \<Rightarrow> execution_result eop" where
  "session_savepoint sid name =
     lbind (\<lambda>e. case session_states e sid of
         Some st \<Rightarrow> Some (Ok st, e)
       | None \<Rightarrow> lbind (begin_txn ReadCommitted) (\<lambda>x. ltotal (sret (SessionState_new x))) e) (\<lambda>st.
     ltotal (\<lambda>e. (Ok (done_with ''SAVEPOINT''), e\<lparr>session_states := (session_states e)(sid \<mapsto>
       st\<lparr>savepoints := savepoints st @ [\<lparr>sp_name = name, undo_log_start = length (undo_log st)\<rparr>]\<rparr>)\<rparr>)))"

text \<open>\<^verbatim>\<open>rposition\<close>: the last position that satisfies a condition.\<close>

definition rposition :: "('a \<Rightarrow> bool) \<Rightarrow> 'a list \<Rightarrow> nat option" where
  "rposition P xs = find (\<lambda>i. P (xs ! i)) (rev [0..<length xs])"

text \<open>\<^verbatim>\<open>drain(start..)\<close> panics behind the end of the log.\<close>

definition session_rollback_to :: "rstring \<Rightarrow> rstring \<Rightarrow> execution_result eop" where
  "session_rollback_to sid name e =
     (case session_states e sid of
        None \<Rightarrow> Some (Err Execution, e)
      | Some st \<Rightarrow>
          (case rposition (\<lambda>f. sp_name f = name) (savepoints st) of
             None \<Rightarrow> Some (Err Execution, e)
           | Some pos \<Rightarrow>
               let start = undo_log_start (savepoints st ! pos) in
               if length (undo_log st) < start then Some (Panic, e)
               else
                 lbind (on_db (apply_undo_entries (ss_xid st) (drop start (undo_log st)))) (\<lambda>_. ltotal (sret (done_with ''ROLLBACK'')))
                   (e\<lparr>session_states := (session_states e)(sid \<mapsto>
                      st\<lparr>undo_log := take start (undo_log st), savepoints := take (pos + 1) (savepoints st)\<rparr>)\<rparr>)))"

definition session_release :: "rstring \<Rightarrow> rstring \<Rightarrow> execution_result eop" where
  "session_release sid name e =
     (case session_states e sid of
        None \<Rightarrow> Some (Err Execution, e)
      | Some st \<Rightarrow>
          (case rposition (\<lambda>f. sp_name f = name) (savepoints st) of
             None \<Rightarrow> Some (Err Execution, e)
           | Some pos \<Rightarrow> Some (Ok (done_with ''RELEASE''), e\<lparr>session_states := (session_states e)(sid \<mapsto>
               st\<lparr>savepoints := take pos (savepoints st) @ drop (pos + 1) (savepoints st)\<rparr>)\<rparr>)))"

definition session_set :: "rstring \<Rightarrow> rstring \<Rightarrow> execution_result eop" where
  "session_set sid upper e =
     (case extract_isolation_level upper of
        None \<Rightarrow> Some (Ok (done_with ''SET''), e)
      | Some level \<Rightarrow>
          let s = q_db e;
              e1 = (case session_states e sid of
                      Some st \<Rightarrow> e\<lparr>q_db := s\<lparr>x_mgr := set_isolation_level (ss_xid st) level (x_mgr s)\<rparr>\<rparr>
                    | None \<Rightarrow> e) in
          Some (Ok (done_with ''SET''), e1\<lparr>session_isolation := (session_isolation e1)(sid \<mapsto> level)\<rparr>))"

definition session_statement :: "nat \<Rightarrow> 's engine_lib \<Rightarrow> rstring \<Rightarrow> rstring \<Rightarrow> execution_result eop" where
  "session_statement n L sid sql e =
     (case session_states e sid of
        None \<Rightarrow> execute n L sql e
      | Some st \<Rightarrow>
          (case execute_in_txn_inner n L (ss_xid st) sql (e\<lparr>q_db := (q_db e)\<lparr>x_undo := Some (undo_log st)\<rparr>\<rparr>) of
             None \<Rightarrow> None
           | Some (r, e1) \<Rightarrow>
               let log = (case x_undo (q_db e1) of Some l \<Rightarrow> l | None \<Rightarrow> undo_log st);
                   e2 = e1\<lparr>q_db := (q_db e1)\<lparr>x_undo := None\<rparr>,
                           session_states := (session_states e1)(sid \<mapsto> st\<lparr>undo_log := log\<rparr>)\<rparr> in
               (case r of
                  Ok res \<Rightarrow> Some (Ok res, e2)
                | Err er \<Rightarrow> lbind (quietly (on_txn (txn_abort (ss_xid st)))) (\<lambda>_. ltotal (serr er)) (end_session sid e2)
                | Panic \<Rightarrow> Some (Panic, e2))))"

definition savepoint_name :: "rstring \<Rightarrow> rstring" where
  "savepoint_name rest =
     trim_byte 34 (trim (case strip_prefix rest (lit ''SAVEPOINT '') of Some r \<Rightarrow> r | None \<Rightarrow> rest))"

definition execute_session_single :: "nat \<Rightarrow> 's engine_lib \<Rightarrow> rstring \<Rightarrow> rstring \<Rightarrow> execution_result eop" where
  "execute_session_single n L sid sql =
     (let t = trim (trim_end_byte 59 (trim sql)); u = ascii_upper t in
      if u = lit ''BEGIN'' \<or> starts_with u (lit ''BEGIN '') \<or> starts_with u (lit ''START TRANSACTION'') then session_begin sid u
      else if u = lit ''COMMIT'' \<or> starts_with u (lit ''COMMIT '') \<or> u = lit ''END'' \<or> starts_with u (lit ''END '') then session_commit sid
      else if u = lit ''ROLLBACK'' \<or> u = lit ''ABORT''
        \<or> starts_with u (lit ''ROLLBACK '') \<and> \<not> starts_with u (lit ''ROLLBACK TO'') \<or> starts_with u (lit ''ABORT '') then session_rollback sid
      else if starts_with u (lit ''SAVEPOINT '') then session_savepoint sid (trim_byte 34 (trim (drop 10 t)))
      else if starts_with u (lit ''ROLLBACK TO '') then session_rollback_to sid (savepoint_name (trim (drop 12 t)))
      else if starts_with u (lit ''RELEASE '') then session_release sid (savepoint_name (trim (drop 8 t)))
      else if starts_with u (lit ''SET TRANSACTION '') \<or> starts_with u (lit ''SET SESSION CHARACTERISTICS AS TRANSACTION '')
        then session_set sid u
      else session_statement n L sid sql)"

primrec run_session :: "nat \<Rightarrow> 's engine_lib \<Rightarrow> rstring \<Rightarrow> execution_result list \<Rightarrow> rstring list \<Rightarrow> execution_result list eop" where
  "run_session n L sid acc [] = ltotal (sret acc)"
| "run_session n L sid acc (s # ss) =
     (if trim s \<noteq> [] then lbind (execute_session_single n L sid (trim s)) (\<lambda>r. run_session n L sid (acc @ [r]) ss)
      else run_session n L sid acc ss)"

definition execute_session_multi :: "nat \<Rightarrow> 's engine_lib \<Rightarrow> rstring \<Rightarrow> rstring \<Rightarrow> execution_result list eop" where
  "execute_session_multi n L sid sql =
     (let stmts = split_sql_statements sql in
      if stmts = [] then ltotal (sret [done_with ''EMPTY''])
      else lbind (run_session n L sid [] stmts) (\<lambda>rs. ltotal (sret (if rs = [] then [done_with ''EMPTY''] else rs))))"

definition execute_session :: "nat \<Rightarrow> 's engine_lib \<Rightarrow> rstring \<Rightarrow> rstring \<Rightarrow> execution_result eop" where
  "execute_session n L sid sql =
     (let stmts = split_sql_statements sql in
      if length stmts > 1
      then lbind (run_session n L sid [] stmts) (\<lambda>rs. ltotal (sret (last (done_with ''EMPTY'' # rs))))
      else execute_session_single n L sid (trim sql))"

definition abort_session :: "rstring \<Rightarrow> unit eop" where
  "abort_session sid e =
     (case session_states e sid of
        None \<Rightarrow> Some (Ok (), e)
      | Some st \<Rightarrow> quietly (on_txn (txn_abort (ss_xid st))) (end_session sid e))"

section \<open>Savepoints\<close>

text \<open>
  What a session does behind a savepoint \<open>name\<close>: a recorded write by a statement, or another savepoint of a different name.
\<close>

definition after_write :: "rstring \<Rightarrow> exec_state \<Rightarrow> query_engine \<Rightarrow> query_engine" where
  "after_write sid s e = e\<lparr>q_db := s\<lparr>x_undo := None\<rparr>, session_states :=
     (session_states e)(sid := map_option (\<lambda>st. st\<lparr>undo_log := the (x_undo s)\<rparr>) (session_states e sid))\<rparr>"

inductive session_step :: "rstring \<Rightarrow> rstring \<Rightarrow> query_engine \<Rightarrow> query_engine \<Rightarrow> bool" for sid name where
  step_write: "session_states e sid = Some st \<Longrightarrow> write_step (ss_xid st) ((q_db e)\<lparr>x_undo := Some (undo_log st)\<rparr>) s \<Longrightarrow>
    session_step sid name e (after_write sid s e)"
| step_savepoint: "session_states e sid = Some st \<Longrightarrow> inner \<noteq> name \<Longrightarrow> session_savepoint sid inner e = Some (Ok res, e') \<Longrightarrow>
    session_step sid name e e'"

lemma find_append: "find P (xs @ ys) = (case find P xs of None \<Rightarrow> find P ys | Some x \<Rightarrow> Some x)"
  by (induction xs) auto

lemma rposition_last:
  assumes "P (xs ! i)" and "i < length xs" and "\<And>j. i < j \<Longrightarrow> j < length xs \<Longrightarrow> \<not> P (xs ! j)"
  shows "rposition P xs = Some i"
proof -
  have split: "[0..<length xs] = [0..<i] @ i # [Suc i..<length xs]"
    using assms(2) by (metis append_Cons append_Nil append_assoc less_imp_le_nat upt_add_eq_append upt_conv_Cons le_add_diff_inverse zero_le)
  have "find (\<lambda>j. P (xs ! j)) (rev [Suc i..<length xs]) = None" using assms(3) by (auto simp: find_None_iff)
  then show ?thesis using assms(1) unfolding rposition_def split by (simp add: find_append)
qed

lemma store_inv_undo [simp]: "store_inv n (s\<lparr>x_undo := l\<rparr>) = store_inv n s"
  by (simp add: store_inv_def)

lemma savepoint_run:
  assumes "session_states e sid = Some st"
  shows "session_savepoint sid name e = Some (Ok (done_with ''SAVEPOINT''), e\<lparr>session_states := (session_states e)(sid \<mapsto>
    st\<lparr>savepoints := savepoints st @ [\<lparr>sp_name = name, undo_log_start = length (undo_log st)\<rparr>]\<rparr>)\<rparr>)"
  using assms by (simp add: session_savepoint_def)

lemma session_step_law:
  assumes "session_step sid name e e'" and st: "session_states e sid = Some st" and inv: "store_inv (Suc (Suc n)) (q_db e)"
  shows "\<exists>es frames. session_states e' sid = Some (st\<lparr>undo_log := undo_log st @ es, savepoints := savepoints st @ frames\<rparr>)
    \<and> (\<forall>f \<in> set frames. sp_name f \<noteq> name) \<and> length es \<le> 2 \<and> effects (ss_xid st) es (stored_at (q_db e)) (stored_at (q_db e'))
    \<and> store_inv n (q_db e') \<and> same_txns (x_mgr (q_db e)) (x_mgr (q_db e'))"
  using assms(1)
proof cases
  case (step_write st' s)
  then have w: "write_step (ss_xid st) ((q_db e)\<lparr>x_undo := Some (undo_log st)\<rparr>) s" using st by simp
  obtain es where es: "x_undo s = Some (undo_log st @ es)" "length es \<le> 2" "effects (ss_xid st) es (stored_at (q_db e)) (stored_at s)"
    "store_inv n s" "same_txns (x_mgr (q_db e)) (x_mgr s)"
    using write_step_effects [OF w, of n "undo_log st"] inv by auto
  show ?thesis
    by (rule exI [of _ es], rule exI [of _ "[]"]) (use es step_write(1) st in \<open>simp add: after_write_def\<close>)
next
  case (step_savepoint st' inner res)
  have e': "e' = e\<lparr>session_states := (session_states e)(sid \<mapsto>
      st\<lparr>savepoints := savepoints st @ [\<lparr>sp_name = inner, undo_log_start = length (undo_log st)\<rparr>]\<rparr>)\<rparr>"
    using step_savepoint(3) savepoint_run [OF st] by simp
  show ?thesis
    by (rule exI [of _ "[]"], rule exI [of _ "[\<lparr>sp_name = inner, undo_log_start = length (undo_log st)\<rparr>]"])
      (use e' step_savepoint(2) inv db_inv_mono [of None "Suc (Suc n)" _ n] in \<open>simp add: store_inv_def\<close>)
qed

lemma session_steps_law:
  assumes "(session_step sid name ^^ n) e e'" and "session_states e sid = Some st" and "store_inv (2 * n + j) (q_db e)"
  shows "\<exists>es frames. session_states e' sid = Some (st\<lparr>undo_log := undo_log st @ es, savepoints := savepoints st @ frames\<rparr>)
    \<and> (\<forall>f \<in> set frames. sp_name f \<noteq> name) \<and> length es \<le> 2 * n \<and> effects (ss_xid st) es (stored_at (q_db e)) (stored_at (q_db e'))
    \<and> store_inv j (q_db e') \<and> same_txns (x_mgr (q_db e)) (x_mgr (q_db e'))"
  using assms
proof (induction n arbitrary: e st)
  case 0
  then show ?case by (intro exI [of _ "[]"]) simp
next
  case (Suc n)
  then obtain e1 where e1: "session_step sid name e e1" "(session_step sid name ^^ n) e1 e'" by (metis relpowp_Suc_E2)
  obtain es fr where 1: "session_states e1 sid = Some (st\<lparr>undo_log := undo_log st @ es, savepoints := savepoints st @ fr\<rparr>)"
    "\<forall>f \<in> set fr. sp_name f \<noteq> name" "length es \<le> 2" "effects (ss_xid st) es (stored_at (q_db e)) (stored_at (q_db e1))"
    "store_inv (2 * n + j) (q_db e1)" "same_txns (x_mgr (q_db e)) (x_mgr (q_db e1))"
    using session_step_law [OF e1(1), of st "2 * n + j"] Suc.prems by auto
  obtain fs gr where 2: "session_states e' sid = Some (st\<lparr>undo_log := (undo_log st @ es) @ fs, savepoints := (savepoints st @ fr) @ gr\<rparr>)"
    "\<forall>f \<in> set gr. sp_name f \<noteq> name" "length fs \<le> 2 * n" "effects (ss_xid st) fs (stored_at (q_db e1)) (stored_at (q_db e'))"
    "store_inv j (q_db e')" "same_txns (x_mgr (q_db e1)) (x_mgr (q_db e'))"
    using Suc.IH [OF e1(2) 1(1,5)] by auto
  show ?case
    by (rule exI [of _ "es @ fs"], rule exI [of _ "fr @ gr"]) (use 1 2 same_txns_trans in \<open>auto simp: effects_append\<close>)
qed

text \<open>
  \<^bold>\<open>C22.\<close> Rolling back to a savepoint succeeds, leaves the session as it was when the savepoint had been set, and everybody sees
  in every table exactly what was seen before, whatever rows the session inserted, deleted and updated through its undo log and whatever further savepoints, of other
  names, it set in between. (Statements run by EXECUTE write past the undo log and are not among these steps.)
\<close>

theorem rollback_to_savepoint_restores:
  assumes "session_states e sid = Some st" and "ss_xid st \<noteq> INVALID_XID" and inv: "store_inv (4 * n) (q_db e)"
    and "session_savepoint sid name e = Some (Ok res, e1)" and steps: "(session_step sid name ^^ n) e1 e2"
  shows "\<exists>e3. session_rollback_to sid name e2 = Some (Ok (done_with ''ROLLBACK''), e3)
    \<and> session_states e3 sid = session_states e1 sid
    \<and> (\<forall>y oid. rows y (x_mgr (q_db e3), x_heaps (q_db e3) oid) = rows y (x_mgr (q_db e), x_heaps (q_db e) oid))"
proof -
  let ?frame = "\<lparr>sp_name = name, undo_log_start = length (undo_log st)\<rparr>"
  let ?st1 = "st\<lparr>savepoints := savepoints st @ [?frame]\<rparr>" and ?x = "ss_xid st"
  have e1: "session_states e1 sid = Some ?st1" "q_db e1 = q_db e"
    using assms(4) savepoint_run [OF assms(1), of name] by auto
  obtain es fr where s2: "session_states e2 sid = Some (st\<lparr>undo_log := undo_log st @ es, savepoints := savepoints st @ ?frame # fr\<rparr>)"
    "\<forall>f \<in> set fr. sp_name f \<noteq> name" "length es \<le> 2 * n" "effects ?x es (stored_at (q_db e)) (stored_at (q_db e2))"
    "store_inv (2 * n) (q_db e2)" "same_txns (x_mgr (q_db e)) (x_mgr (q_db e2))"
    using session_steps_law [OF steps e1(1), of "2 * n"] inv e1(2) by auto
  have pos: "rposition (\<lambda>f. sp_name f = name) (savepoints st @ ?frame # fr) = Some (length (savepoints st))"
    by (rule rposition_last) (use s2(2) in \<open>auto simp: nth_append\<close>)
  have "store_inv (0 + length es) (q_db e2)" using s2(3,5) db_inv_mono [of None "2 * n" _ "length es"] by (auto simp: store_inv_def)
  from undo_effects [OF s2(4) covers_refl this]
  obtain s where s: "apply_undo_entries ?x es (q_db e2) = Some (Ok (), s)" "store_inv 0 s" "same_txns (x_mgr (q_db e2)) (x_mgr s)"
    "covers ?x (stored_at (q_db e)) (stored_at s)" by blast
  have "rows y (x_mgr s, x_heaps s oid) = rows y (x_mgr (q_db e), x_heaps (q_db e) oid)" for y oid
    by (rule covers_rows [OF s(4) same_txns_trans [OF s2(6) s(3)] store_inv_wf [OF inv] store_inv_wf [OF s(2)] assms(2)])
  moreover have "session_rollback_to sid name e2 = Some (Ok (done_with ''ROLLBACK''),
      e2\<lparr>session_states := (session_states e2)(sid \<mapsto> ?st1), q_db := s\<rparr>)"
    using s2(1) pos s(1) by (simp add: session_rollback_to_def on_db_def sret_def nth_append)
  ultimately show ?thesis using e1 by simp
qed

definition idle_engine :: "txn_manager \<Rightarrow> xid \<Rightarrow> query_engine" where
  "idle_engine m x = \<lparr>q_db = \<lparr>x_mgr = m, x_cat = fresh_catalog, x_heaps = (\<lambda>_. []), x_indexes = [], x_undo = None\<rparr>,
     prepared_statements = Map.empty, session_states = [lit ''s'' \<mapsto> SessionState_new x], session_isolation = Map.empty\<rparr>"

theorem rollback_to_savepoint_restores_witness:
  "\<exists>m e1 e2 e3. session_savepoint (lit ''s'') (lit ''a'') (idle_engine m 3) = Some (Ok (done_with ''SAVEPOINT''), e1)
    \<and> session_step (lit ''s'') (lit ''a'') e1 e2 \<and> q_db e2 \<noteq> q_db e1
    \<and> session_rollback_to (lit ''s'') (lit ''a'') e2 = Some (Ok (done_with ''ROLLBACK''), e3)
    \<and> (\<forall>y. rows y (x_mgr (q_db e3), x_heaps (q_db e3) 1000) = rows y (m, []))"
proof (rule one_row)
  fix w s1 s2 k
  assume a: "db_inv (Some []) 998 s1" "txn_insert_tuple 3 [7] s1 = (Ok k, s2)" "snd s1 = []" "heap_abs (snd s2) k = Some (new_version 3 [7])"
  obtain m m2 h2 where m: "s1 = (m, [])" "s2 = (m2, h2)" using a(3) by (cases s1; cases s2) auto
  let ?e = "idle_engine m 3"
  have st: "session_states ?e (lit ''s'') = Some (SessionState_new 3)" by (simp add: idle_engine_def)
  obtain e1 where e1: "session_savepoint (lit ''s'') (lit ''a'') ?e = Some (Ok (done_with ''SAVEPOINT''), e1)" "q_db e1 = q_db ?e"
    "session_states e1 (lit ''s'') = Some ((SessionState_new 3)\<lparr>savepoints := [\<lparr>sp_name = lit ''a'', undo_log_start = 0\<rparr>]\<rparr>)"
    using savepoint_run [OF st] by (simp add: SessionState_new_def SessionState_with_isolation_def)
  have inv: "store_inv (4 * 1) (q_db ?e)"
    using db_inv_None [OF db_inv_mono [OF a(1), of 4]] m by (simp add: store_inv_def idle_engine_def)
  let ?st1 = "(SessionState_new 3)\<lparr>savepoints := [\<lparr>sp_name = lit ''a'', undo_log_start = 0\<rparr>]\<rparr>"
  let ?s = "(q_db e1)\<lparr>x_undo := Some (undo_log ?st1)\<rparr>"
  obtain s' where w: "write_insert 3 1000 [7] ?s = Some (Ok k, s')" and h: "x_heaps s' 1000 = h2"
    using a(2) m e1(2) by (simp add: write_insert_def on_table_def record_undo_def idle_engine_def)
  have xs: "ss_xid ?st1 = 3" by (simp add: SessionState_new_def SessionState_with_isolation_def)
  have "write_step (ss_xid ?st1) ?s s'" using ws_insert [OF _ w] xs by simp
  from step_write [OF e1(3) this] have step: "session_step (lit ''s'') (lit ''a'') e1 (after_write (lit ''s'') s' e1)" .
  then have steps: "(session_step (lit ''s'') (lit ''a'') ^^ 1) e1 (after_write (lit ''s'') s' e1)" by (simp only: relpowp_1)
  have "x_heaps (q_db (after_write (lit ''s'') s' e1)) 1000 = h2" using h by (simp add: after_write_def)
  moreover have "x_heaps (q_db e1) 1000 = []" using e1(2) by (simp add: idle_engine_def)
  moreover have "h2 \<noteq> []" using a(4) m by (auto simp: heap_abs_def heap_raw_def)
  ultimately have diff: "q_db (after_write (lit ''s'') s' e1) \<noteq> q_db e1" by auto
  have nz: "ss_xid (SessionState_new 3) \<noteq> INVALID_XID" by (simp add: SessionState_new_def SessionState_with_isolation_def)
  obtain e3 where e3: "session_rollback_to (lit ''s'') (lit ''a'') (after_write (lit ''s'') s' e1) = Some (Ok (done_with ''ROLLBACK''), e3)"
    "\<forall>y oid. rows y (x_mgr (q_db e3), x_heaps (q_db e3) oid) = rows y (x_mgr (q_db ?e), x_heaps (q_db ?e) oid)"
    using rollback_to_savepoint_restores [OF st nz inv e1(1) steps] by blast
  moreover have "x_mgr (q_db ?e) = m" "x_heaps (q_db ?e) 1000 = []" by (simp_all add: idle_engine_def)
  ultimately show ?thesis using e1(1) step diff e3 by metis
qed

section \<open>Failing statements and commits\<close>

lemma abort_run:
  assumes inv: "db_inv base (Suc k) (m, h)" and act: "check_active x m = Ok ()"
  obtains m' where "txn_abort x m = (Ok (), m')" and "x \<in> aborted m'" and "map_of (active m') x = None"
    and "\<forall>j. lock_of m' j \<noteq> Some x" and "committed m' = committed m"
proof -
  obtain cs where cs: "logged base cs (m, h)" "room (Suc k) cs (m, h)" and lk: "locks_inv (tm_locks m)"
    using inv by (auto simp: db_inv_def)
  obtain cs' w where w: "append_inner x Abort 0 [] (tm_wal m) = (Ok (w_lsn (tm_wal m) + 1), w)"
    by (rule log_outcome [OF cs, of Abort x]) auto
  let ?m = "m\<lparr>tm_wal := w, active := AList.delete x (active m), aborted := insert x (aborted m)\<rparr>"
  have run: "txn_abort x m = (Ok (), release_locks x ?m)"
    using act w by (simp add: txn_abort_def on_wal_def smap_err_def szoom_def wal_append_def)
  show ?thesis
    by (rule that [OF run]) (use release_law [OF lk] in \<open>auto simp: release_locks_def lock_of_def delete_conv' split: option.splits if_splits\<close>)
qed

text \<open>
  \<^bold>\<open>C24.\<close> When a statement of an open transaction fails, the session loses the transaction: it is aborted, no longer active, and
  holds no write lock; the session can start another one. The hypotheses say that the statement itself has not ended the
  transaction and that the log has room for one record.
\<close>

theorem failed_statement_rolls_back:
  assumes st: "session_states e sid = Some st"
    and run: "execute_in_txn_inner n L (ss_xid st) sql (e\<lparr>q_db := (q_db e)\<lparr>x_undo := Some (undo_log st)\<rparr>\<rparr>) = Some (Err er, e1)"
    and act: "check_active (ss_xid st) (x_mgr (q_db e1)) = Ok ()" and log: "db_inv base (Suc k) (x_mgr (q_db e1), h)"
  shows "\<exists>e'. session_statement n L sid sql e = Some (Err er, e') \<and> session_states e' sid = None
    \<and> ss_xid st \<in> aborted (x_mgr (q_db e')) \<and> map_of (active (x_mgr (q_db e'))) (ss_xid st) = None
    \<and> (\<forall>j. lock_of (x_mgr (q_db e')) j \<noteq> Some (ss_xid st))"
proof (rule abort_run [OF log act])
  fix m'
  assume m': "txn_abort (ss_xid st) (x_mgr (q_db e1)) = (Ok (), m')" "ss_xid st \<in> aborted m'" "map_of (active m') (ss_xid st) = None"
    "\<forall>j. lock_of m' j \<noteq> Some (ss_xid st)"
  then show ?thesis
    using st run by (simp add: session_statement_def end_session_def quietly_def on_txn_def on_db_def serr_def Let_def)
qed

definition no_floats :: float_lib where
  "no_floats = \<lparr>f_add = (\<lambda>_ _. 0), f_sub = (\<lambda>_ _. 0), f_mul = (\<lambda>_ _. 0), f_div = (\<lambda>_ _. 0), f_sum = (\<lambda>_. 0), f_square = (\<lambda>_. 0),
     f_sqrt = (\<lambda>_. 0), f_parse = (\<lambda>_. None), f_show = (\<lambda>_. []), f_fixed10 = (\<lambda>_. [])\<rparr>"

definition deaf_lib :: "unit engine_lib" where
  "deaf_lib = \<lparr>parse_with_vacuum = (\<lambda>_. Err ParseError), plan_statement = (\<lambda>_ _. Err NotImplemented),
     catalog_answers = (\<lambda>_. \<lparr>table_oid_of = (\<lambda>_. None), has_index = (\<lambda>_ _. False), stats_of = (\<lambda>_ _. None)\<rparr>),
     execute_plan = (\<lambda>_ _ s. Some (Err NotImplemented, s)), current_role = None, doubles = no_floats, to_uppercase = (\<lambda>s. s)\<rparr>"

theorem failed_statement_rolls_back_witness:
  "\<exists>m e'. session_statement 1 deaf_lib (lit ''s'') (lit ''x'') (idle_engine m 3) = Some (Err ParseError, e') \<and> 3 \<in> aborted (x_mgr (q_db e'))"
proof (rule one_row)
  fix w s1 s2 k
  assume a: "db_inv (Some []) 998 s1" "fst s1 = snd (txn_begin ReadCommitted (TransactionManager_new w 3))"
  let ?m = "fst s1"
  let ?e = "idle_engine ?m 3" and ?st = "SessionState_new 3"
  let ?e1 = "?e\<lparr>q_db := (q_db ?e)\<lparr>x_undo := Some (undo_log ?st)\<rparr>\<rparr>"
  have st: "session_states ?e (lit ''s'') = Some ?st" and x: "ss_xid ?st = 3"
    by (simp_all add: idle_engine_def SessionState_new_def SessionState_with_isolation_def)
  have run: "execute_in_txn_inner 1 deaf_lib (ss_xid ?st) (lit ''x'') ?e1 = Some (Err ParseError, ?e1)"
    by (simp add: deaf_lib_def slift_def)
  have act: "check_active (ss_xid ?st) (x_mgr (q_db ?e1)) = Ok ()"
    using a(2) x by (simp add: check_active_def idle_engine_def txn_begin_def begin_alloc_def allocate_xid_def begin_register_def
        TransactionManager_new_def Transaction_new_def Let_def)
  have log: "db_inv (Some []) (Suc 997) (x_mgr (q_db ?e1), snd s1)" using a(1) by (simp add: idle_engine_def)
  from failed_statement_rolls_back [OF st run act log] x show ?thesis by auto
qed

text \<open>
  \<^bold>\<open>C25.\<close> Finding. A commit that the serialization check refuses removes the session's transaction without aborting it: the
  transaction stays active with its write locks, and the session that could end it has forgotten it.
\<close>

theorem refused_commit_leaves_the_transaction_open:
  assumes "session_states e sid = Some st" and "check_active (ss_xid st) (x_mgr (q_db e)) = Ok ()"
    and "check_serializable_conflict (ss_xid st) (x_mgr (q_db e)) = Err SerializationFailure"
  shows "\<exists>e'. session_commit sid e = Some (Err (SqlTxn SerializationFailure), e') \<and> q_db e' = q_db e
    \<and> session_rollback sid e' = Some (Ok (done_with ''ROLLBACK''), e')"
proof -
  have "txn_commit (ss_xid st) (x_mgr (q_db e)) = (Err SerializationFailure, x_mgr (q_db e))"
    using assms(2,3) by (simp add: txn_commit_def)
  then have "session_commit sid e = Some (Err (SqlTxn SerializationFailure), end_session sid e)"
    using assms(1) by (simp add: session_commit_def on_txn_def on_db_def end_session_def)
  then show ?thesis by (auto simp: end_session_def session_rollback_def)
qed

theorem refused_commit_leaves_the_transaction_open_witness:
  "\<exists>e'. session_commit (lit ''s'') (idle_engine skewed 3) = Some (Err (SqlTxn SerializationFailure), e') \<and> map_of (active (x_mgr (q_db e'))) 3 \<noteq> None"
proof -
  have c: "check_serializable_conflict 3 skewed = Err SerializationFailure" by (rule skewed_conflict)
  have a: "check_active 3 skewed = Ok ()" by (simp add: check_active_def skewed_def Transaction_new_def)
  have "session_states (idle_engine skewed 3) (lit ''s'') = Some (SessionState_new 3)" "x_mgr (q_db (idle_engine skewed 3)) = skewed"
    "ss_xid (SessionState_new 3) = 3"
    by (simp_all add: idle_engine_def SessionState_new_def SessionState_with_isolation_def)
  from refused_commit_leaves_the_transaction_open [OF this(1)] this c a
  show ?thesis by (auto simp: skewed_def)
qed

section \<open>Privileges and texts\<close>

text \<open>
  Finding. Only the topmost node of a plan is checked: a query with a select list, a filter, an order or a limit is
  executed for every role that may log in, whatever the privileges on its tables say.
\<close>

theorem queries_need_no_select_privilege:
  assumes "get_role c name = Ok role" and "rolcanlogin role"
  shows "check_privileges (Some name) c (PProject (PTableScan t a s f) cols d) = Ok ()
    \<and> check_privileges (Some name) c (PFilter (PTableScan t a s f) e) = Ok ()
    \<and> check_privileges (Some name) c (PSort (PTableScan t a s f) keys) = Ok ()
    \<and> check_privileges (Some name) c (PLimit (PTableScan t a s f) n m) = Ok ()
    \<and> (\<not> rolsuper role \<and> \<not> check_table_privilege (registries c) (lit ''public'') t name AclSelect \<longrightarrow>
        check_privileges (Some name) c (PTableScan t a s f) = Err Execution)"
  using assms by (simp add: check_privileges_def require_def Let_def)

definition plain_schema :: table_schema where
  "plain_schema = \<lparr>ts_oid = 1001, ts_name = lit ''t'', namespace_oid = 100, columns = [plain_column ''a'' TInt4], foreign_keys = [], check_constraints = []\<rparr>"

definition eve :: pg_authid_row where
  "eve = \<lparr>ro_oid = 1000, rolname = lit ''eve'', rolsuper = False, rolinherit = False, rolcreaterole = False, rolcreatedb = False,
     rolcanlogin = True, rolbypassrls = False, rolpassword = None\<rparr>"

theorem queries_need_no_select_privilege_witness:
  "\<exists>c. check_privileges (Some (lit ''eve'')) c (PProject (PTableScan (lit ''t'') None plain_schema None) [] False) = Ok ()
    \<and> check_privileges (Some (lit ''eve'')) c (PTableScan (lit ''t'') None plain_schema None) = Err Execution"
proof -
  let ?d = "pg_authid_encode eve"
  have "length ?d \<le> 8140" by (simp add: pg_authid_encode_def eve_def row_defs lit_def)
  then show ?thesis
  proof (rule one_stored_row)
    fix w s1 s2 k
    assume s2: "heap_abs (snd s2) = [k \<mapsto> new_version 3 ?d]" "db_inv (Some []) 996 s2"
    obtain m h where mh: "s2 = (m, h)" by (cases s2)
    let ?c = "fresh_catalog\<lparr>pg_authid_heap := h\<rparr>"
    have wf: "heap_wf h" using db_inv_facts(1) [of "Some []" 996 m h] s2(2) mh by (simp add: table_inv_def heap_inv_def)
    have dec: "pg_authid_decode ?d = Ok eve" by (rule authid_roundtrip) (simp_all add: eve_def name_ok_def lit_def utf8_ascii)
    have "live h = [k \<mapsto> ?d]" using s2(1) mh by (auto simp: live_def new_version_def fun_eq_iff)
    then have "{(j, e). live h j = Some e} = {(k, ?d)}" by (auto split: if_splits)
    then have data: "live_data h = {#?d#}" by (simp add: live_data_def)
    obtain rs where rs: "scan_all pg_authid_decode h = Ok rs" "mset rs = image_mset (\<lambda>_. eve) (live_data h)"
      using scan_all_law [OF wf, of pg_authid_decode "\<lambda>_. eve"] dec data by auto
    then have "get_role ?c (lit ''eve'') = Ok eve"
      using data by (simp add: get_role_def scan_all_authid_rows_def eve_def)
    from queries_need_no_select_privilege [OF this, of "lit ''t''" None plain_schema None "[]" False]
    show ?thesis
      by (intro exI [of _ ?c]) (simp add: eve_def fresh_catalog_def new_catalog_def check_table_privilege_def)
  qed
qed

text \<open>
  Finding. The values of a prepared statement are put into its text one after the other, and a value that looks like a
  later placeholder is replaced again: the text of the second value escapes its quotes and is executed.
\<close>

theorem prepared_statement_injection:
  "substitute_params no_floats (lit ''SELECT * FROM t WHERE a = $1 AND b = $2'') [VText (lit ''$2''), VText (lit '' OR TRUE --'')]
     = lit ''SELECT * FROM t WHERE a = '' @ [39, 39] @ lit '' OR TRUE --'' @ [39, 39] @ lit '' AND b = '' @ [39] @ lit '' OR TRUE --'' @ [39]"
  by code_simp

end
