(* ===== verification/Sql_Dml.thy ===== *)
theory Sql_Dml
  imports Sql_Store
begin

text \<open>
  The statements that write: \<^verbatim>\<open>exec_insert\<close>, \<^verbatim>\<open>exec_update\<close> and \<^verbatim>\<open>exec_delete\<close> of \<^verbatim>\<open>sql/src/executor.rs\<close> with
  defaults, serial columns, constraints, foreign key actions, \<^verbatim>\<open>ON CONFLICT\<close> and \<^verbatim>\<open>RETURNING\<close>, over the
  transaction manager, the catalog, the tables, their indexes and the undo log. Expressions are evaluated in an environment
  that may depend on the state, where subqueries also see the rows of the enclosing \<^verbatim>\<open>WITH\<close>; the execution of queries, the parser of expressions, the clock and the source of random
  identifiers are parameters. Numbers of rows are natural numbers.
\<close>

section \<open>State and parameters\<close>

record dml_lib =
  number_lib :: float_lib
  json_texts :: json_lib
  unicode_lower :: "rstring \<Rightarrow> rstring"
  functions_in :: "exec_state \<Rightarrow> rstring \<Rightarrow> logical_plan expr list \<Rightarrow> row \<Rightarrow> (sql_error, val) outcome"
  cte_context :: "rstring \<rightharpoonup> row list"
  subqueries_in :: "(rstring \<rightharpoonup> row list) \<Rightarrow> exec_state \<Rightarrow> logical_plan \<Rightarrow> row \<Rightarrow> (sql_error, row list) outcome"
  arrays :: array_codec
  run_plan :: "xid \<Rightarrow> logical_plan \<Rightarrow> row list xop"
  expr_from_str :: "rstring \<Rightarrow> (sql_error, logical_plan expr) outcome"
  now_micros :: u64
  today :: u32
  new_uuid :: rstring
  unicode_upper :: "rstring \<Rightarrow> rstring"

definition eval_in :: "dml_lib \<Rightarrow> exec_state \<Rightarrow> logical_plan eval_env" where
  "eval_in L s = \<lparr>floats = number_lib L, json_of = json_texts L, to_lowercase = unicode_lower L,
     eval_function = functions_in L s, run_subquery = subqueries_in L (cte_context L) s\<rparr>"

abbreviation xret :: "'a \<Rightarrow> 'a xop" where
  "xret v \<equiv> ltotal (sret v)"

abbreviation xerr :: "sql_error \<Rightarrow> 'a xop" where
  "xerr e \<equiv> ltotal (serr e)"

abbreviation xread :: "(exec_state \<Rightarrow> (sql_error, 'a) outcome) \<Rightarrow> 'a xop" where
  "xread f \<equiv> ltotal (slift f)"

definition xeval :: "dml_lib \<Rightarrow> logical_plan expr \<Rightarrow> row \<Rightarrow> val xop" where
  "xeval L e r = xread (\<lambda>s. eval_expr (eval_in L s) e r)"

definition xcast :: "dml_lib \<Rightarrow> val \<Rightarrow> data_type \<Rightarrow> val xop" where
  "xcast L v ty = xread (\<lambda>s. if v = VNull then Ok v else cast_to (number_lib L) (json_texts L) v ty)"

text \<open>\<^verbatim>\<open>partial_cmp(..) == Some(Equal)\<close>.\<close>

definition same_value :: "dml_lib \<Rightarrow> val \<Rightarrow> val \<Rightarrow> bool" where
  "same_value L v w \<longleftrightarrow> val_cmp (number_lib L) v w = Some OEqual"

text \<open>\<^verbatim>\<open>if let Ok(v) = f\<close>: the error is dropped, the effect stays.\<close>

definition lattempt :: "('s, 'e, 'a) lop \<Rightarrow> ('s, 'f, 'a option) lop" where
  "lattempt f s =
     (case f s of
        None \<Rightarrow> None
      | Some (Ok v, s') \<Rightarrow> Some (Ok (Some v), s') | Some (Err e, s') \<Rightarrow> Some (Ok None, s') | Some (Panic, s') \<Rightarrow> Some (Panic, s'))"

primrec lmap :: "('a \<Rightarrow> ('s, 'e, 'b) lop) \<Rightarrow> 'a list \<Rightarrow> ('s, 'e, 'b list) lop" where
  "lmap f [] = ltotal (sret [])"
| "lmap f (a # as) = lbind (f a) (\<lambda>b. lbind (lmap f as) (\<lambda>bs. ltotal (sret (b # bs))))"

definition on_catalog :: "'a cat_lop \<Rightarrow> 'a xop" where
  "on_catalog f s =
     (case f (x_mgr s, x_cat s) of
        None \<Rightarrow> None
      | Some (r, (m, c)) \<Rightarrow> Some (map_err SqlCatalog r, s\<lparr>x_mgr := m, x_cat := c\<rparr>))"

definition visible_tuples :: "xid \<Rightarrow> u32 \<Rightarrow> (tid \<times> tuple) list xop" where
  "visible_tuples x oid = on_table oid (ltotal (\<lambda>(m, h). case scan_visible_tuples x h m of (r, m') \<Rightarrow> (r, (m', h))))"

definition scan_rows :: "dml_lib \<Rightarrow> xid \<Rightarrow> rstring \<Rightarrow> table_schema \<Rightarrow> row list xop" where
  "scan_rows L x name schema s =
     (case exec_table_scan (eval_in L s) (arrays L) x (x_heaps s (ts_oid schema)) name None schema None (x_mgr s) of
        (r, m) \<Rightarrow> Some (r, s\<lparr>x_mgr := m\<rparr>))"

definition maintain_indexes :: "dml_lib \<Rightarrow> xid \<Rightarrow> table_schema \<Rightarrow> row \<Rightarrow> tid \<Rightarrow> unit xop" where
  "maintain_indexes L x schema r t s =
     map_option (\<lambda>ixs. (Ok (), s\<lparr>x_indexes := ixs\<rparr>))
       (maintain_indexes_on_insert (number_lib L) x (ts_oid schema) schema r t (x_indexes s))"

abbreviation column_at :: "table_schema \<Rightarrow> rstring \<Rightarrow> nat option" where
  "column_at schema name \<equiv> position (\<lambda>c. col_name c = name) (columns schema)"

abbreviation schema_of :: "table_schema \<Rightarrow> (rstring \<times> data_type) list" where
  "schema_of schema \<equiv> map (\<lambda>c. (col_name c, col_type c)) (columns schema)"

section \<open>Constraints and RETURNING\<close>

definition build_returning_row :: "dml_lib \<Rightarrow> row \<Rightarrow> (rstring \<times> logical_plan expr) list \<Rightarrow> row xop" where
  "build_returning_row L r returning =
     lbind (lmap (\<lambda>(name, e). xeval L e r) returning) (\<lambda>vs.
     xread (\<lambda>s. Ok \<lparr>row_values = vs,
       row_schema = map (\<lambda>(name, e). (name, infer_expr_type (unicode_lower L) e (row_schema r))) returning\<rparr>))"

definition returned :: "dml_lib \<Rightarrow> row \<Rightarrow> (rstring \<times> logical_plan expr) list \<Rightarrow> row list xop" where
  "returned L r returning =
     (if returning = [] then xret [] else lbind (build_returning_row L r returning) (\<lambda>o_row. xret [o_row]))"

definition eval_check_constraint :: "dml_lib \<Rightarrow> rstring \<Rightarrow> row \<Rightarrow> bool xop" where
  "eval_check_constraint L e r =
     lbind (xread (\<lambda>s. expr_from_str L e)) (\<lambda>ex.
     lbind (xeval L ex r) (\<lambda>v. xret (v \<noteq> VBool False)))"

definition check_checks :: "dml_lib \<Rightarrow> table_schema \<Rightarrow> row \<Rightarrow> unit xop" where
  "check_checks L schema r =
     lbind (xread (\<lambda>s. Ok (get_check_constraints (registries (x_cat s)) (ts_oid schema)))) (\<lambda>checks.
     lseq (map (\<lambda>c. lbind (eval_check_constraint L (check_expr c) r) (\<lambda>b. if b then xret () else xerr ConstraintViolation)) checks))"

text \<open>The referenced row exists.\<close>

definition check_foreign_key :: "dml_lib \<Rightarrow> xid \<Rightarrow> table_schema \<Rightarrow> val list \<Rightarrow> table_foreign_key \<Rightarrow> unit xop" where
  "check_foreign_key L x schema vs fk =
     (case column_at schema (local_col fk) of
        None \<Rightarrow> xret ()
      | Some i \<Rightarrow>
          if vs ! i = VNull then xret ()
          else lbind (lattempt (on_catalog (get_table (lit ''public'') (tfk_table fk)))) (\<lambda>t.
            case t of
              None \<Rightarrow> xret ()
            | Some ref \<Rightarrow>
                lbind (scan_rows L x (tfk_table fk) ref) (\<lambda>rs.
                if list_ex (\<lambda>r. case column_at ref (tfk_col fk) of
                    Some p \<Rightarrow> (case row_get_by_idx r p of Some w \<Rightarrow> same_value L w (vs ! i) | None \<Rightarrow> False)
                  | None \<Rightarrow> False) rs
                then xret () else xerr ConstraintViolation)))"

definition check_foreign_keys :: "dml_lib \<Rightarrow> xid \<Rightarrow> table_schema \<Rightarrow> val list \<Rightarrow> unit xop" where
  "check_foreign_keys L x schema vs =
     lbind (xread (\<lambda>s. Ok (get_foreign_keys (registries (x_cat s)) (ts_oid schema)))) (\<lambda>fks.
     lseq (map (check_foreign_key L x schema vs) fks))"

section \<open>INSERT\<close>

text \<open>A default is a text that is recognised, not parsed.\<close>

definition eval_default_expr :: "dml_lib \<Rightarrow> rstring \<Rightarrow> data_type \<Rightarrow> val xop" where
  "eval_default_expr L expr_str ty =
     xread (\<lambda>s.
       let F = number_lib L;
           t = trim expr_str; u = unicode_upper L t;
           cast_or = (\<lambda>v. case cast_to F (json_texts L) v ty of Ok w \<Rightarrow> Ok w | Err e \<Rightarrow> Ok v | Panic \<Rightarrow> Panic) in
       if u = lit ''NOW()'' \<or> u = lit ''CURRENT_TIMESTAMP'' \<or> u = lit ''NOW'' then Ok (VTimestamp (now_micros L))
       else if u = lit ''CURRENT_DATE'' then Ok (VDate (today L))
       else if take 15 u = lit ''GEN_RANDOM_UUID'' \<or> take 13 u = lit ''UUID_GENERATE'' then Ok (VUuid (new_uuid L))
       else if t \<noteq> [] \<and> hd t = 39 \<and> last t = 39 \<and> 2 \<le> length t then cast_or (VText (butlast (tl t)))
       else case parse_i64 t of
         Some i \<Rightarrow> cast_or (VInt8 (word_of_int i))
       | None \<Rightarrow>
           (case f_parse F t of
              Some f \<Rightarrow> cast_or (VFloat8 f)
            | None \<Rightarrow>
                if ascii_lower t = lit ''true'' then Ok (VBool True)
                else if ascii_lower t = lit ''false'' then Ok (VBool False)
                else Ok VNull))"

text \<open>The values given, and which columns they are for.\<close>

primrec place_values ::
  "dml_lib \<Rightarrow> table_schema \<Rightarrow> (rstring \<times> logical_plan expr) list \<Rightarrow> val list \<Rightarrow> bool list \<Rightarrow> (val list \<times> bool list) xop" where
  "place_values L schema [] vs ps = xret (vs, ps)"
| "place_values L schema (ne # rest) vs ps =
     lbind (xeval L (snd ne) \<lparr>row_values = [], row_schema = []\<rparr>) (\<lambda>v.
     case column_at schema (fst ne) of
       None \<Rightarrow> xerr (SqlColumnNotFound (fst ne))
     | Some i \<Rightarrow> lbind (xcast L v (col_type (columns schema ! i))) (\<lambda>w. place_values L schema rest (vs[i := w]) (ps[i := True])))"

definition next_serial :: "rstring \<Rightarrow> rstring \<Rightarrow> u64 xop" where
  "next_serial table col s =
     (case next_sequence_val (lit ''public'') table col (registries (x_cat s)) of
        (v, c) \<Rightarrow> Some (Ok v, s\<lparr>x_cat := (x_cat s)\<lparr>registries := c\<rparr>\<rparr>))"

definition missing_value :: "dml_lib \<Rightarrow> table_schema \<Rightarrow> column_def \<Rightarrow> val \<Rightarrow> val xop" where
  "missing_value L schema c v =
     (if serial c then lbind (next_serial (ts_name schema) (col_name c)) (\<lambda>n.
        xret (case col_type c of TInt8 \<Rightarrow> VInt8 n | _ \<Rightarrow> VInt4 (ucast n)))
      else case default_expr c of
        Some d \<Rightarrow> eval_default_expr L d (col_type c)
      | None \<Rightarrow> xret v)"

text \<open>The row a list of expressions stands for, complete and without forbidden nulls.\<close>

definition insert_values :: "dml_lib \<Rightarrow> table_schema \<Rightarrow> rstring list \<Rightarrow> logical_plan expr list \<Rightarrow> val list xop" where
  "insert_values L schema cols exprs =
     (let names = (if cols = [] then map col_name (columns schema) else cols); n = length (columns schema) in
      if length names \<noteq> length exprs then xerr Execution
      else
        lbind (place_values L schema (zip names exprs) (replicate n VNull) (replicate n False)) (\<lambda>(vs, ps).
        lbind (lmap (\<lambda>(c, v, p). if p then xret v else missing_value L schema c v) (zip (columns schema) (zip vs ps))) (\<lambda>ws.
        if list_ex (\<lambda>(c, w). not_null c \<and> w = VNull) (zip (columns schema) ws) then xerr ConstraintViolation else xret ws)))"

text \<open>\<^verbatim>\<open>ON CONFLICT DO UPDATE\<close>: the conflicting row is found again by its values and updated.\<close>

primrec assign_excluded :: "dml_lib \<Rightarrow> table_schema \<Rightarrow> row \<Rightarrow> (rstring \<times> logical_plan expr) list \<Rightarrow> row \<Rightarrow> row xop" where
  "assign_excluded L schema eval_row [] r = xret r"
| "assign_excluded L schema eval_row (a # as) r =
     lbind (xeval L (snd a) eval_row) (\<lambda>v.
     assign_excluded L schema eval_row as
       (case column_at schema (fst a) of Some i \<Rightarrow> r\<lparr>row_values := (row_values r)[i := v]\<rparr> | None \<Rightarrow> r))"

definition has_values :: "dml_lib \<Rightarrow> table_schema \<Rightarrow> val list \<Rightarrow> tid \<times> tuple \<Rightarrow> bool" where
  "has_values L schema vs v =
     (case payload_row (arrays L) (tdata (snd v)) schema of Ok r \<Rightarrow> vals_eq (row_values r) vs | _ \<Rightarrow> False)"

definition conflict_update ::
  "dml_lib \<Rightarrow> xid \<Rightarrow> table_schema \<Rightarrow> (rstring \<times> logical_plan expr) list \<Rightarrow> (rstring \<times> logical_plan expr) list \<Rightarrow> val list \<Rightarrow> row
    \<Rightarrow> (nat \<times> row list) xop" where
  "conflict_update L x schema assignments returning vs r =
     (let excluded = map (\<lambda>c. (lit ''excluded.'' @ col_name c, col_type c)) (columns schema) in
      lbind (assign_excluded L schema \<lparr>row_values = row_values r @ vs, row_schema = schema_of schema @ excluded\<rparr> assignments r) (\<lambda>r'.
      lbind (visible_tuples x (ts_oid schema)) (\<lambda>visible.
      case find (has_values L schema (row_values r)) visible of
        None \<Rightarrow> xret (0, [])
      | Some (t, _) \<Rightarrow>
          lbind (write_update x (ts_oid schema) t (row_payload (arrays L) r')) (\<lambda>_.
          lbind (returned L r' returning) (\<lambda>out. xret (1, out))))))"

text \<open>The loop over the unique columns: \<open>None\<close> when the row may be inserted, otherwise what was done instead.\<close>

definition find_conflict :: "dml_lib \<Rightarrow> nat \<Rightarrow> val \<Rightarrow> row list \<Rightarrow> row option" where
  "find_conflict L i v rs =
     find (\<lambda>r. case row_get_by_idx r i of Some w \<Rightarrow> w \<noteq> VNull \<and> same_value L w v | None \<Rightarrow> False) rs"

primrec check_unique ::
  "dml_lib \<Rightarrow> xid \<Rightarrow> table_schema \<Rightarrow> logical_plan on_conflict option \<Rightarrow> (rstring \<times> logical_plan expr) list \<Rightarrow> val list
    \<Rightarrow> rstring list \<Rightarrow> (nat \<times> row list) option xop" where
  "check_unique L x schema oc returning vs [] = xret None"
| "check_unique L x schema oc returning vs (name # names) =
     (case column_at schema name of
        None \<Rightarrow> check_unique L x schema oc returning vs names
      | Some i \<Rightarrow>
          if vs ! i = VNull then check_unique L x schema oc returning vs names
          else
            lbind (scan_rows L x (ts_name schema) schema) (\<lambda>rs.
            case find_conflict L i (vs ! i) rs of
              None \<Rightarrow> check_unique L x schema oc returning vs names
            | Some r \<Rightarrow>
                (case oc of
                   None \<Rightarrow> xerr UniqueViolation
                 | Some (OnConflict cols DoNothing) \<Rightarrow> xret (Some (0, []))
                 | Some (OnConflict cols (DoUpdate assignments)) \<Rightarrow>
                     lbind (conflict_update L x schema assignments returning vs r) (\<lambda>done. xret (Some done)))))"

definition unique_columns_of :: "table_schema \<Rightarrow> exec_state \<Rightarrow> rstring list" where
  "unique_columns_of schema s =
     (case get_unique_constraints (registries (x_cat s)) (ts_oid schema) of Some u \<Rightarrow> unique_columns u | None \<Rightarrow> [])"

definition store_row :: "dml_lib \<Rightarrow> xid \<Rightarrow> table_schema \<Rightarrow> (rstring \<times> logical_plan expr) list \<Rightarrow> row \<Rightarrow> (nat \<times> row list) xop" where
  "store_row L x schema returning r =
     lbind (write_insert x (ts_oid schema) (row_payload (arrays L) r)) (\<lambda>t.
     lbind (maintain_indexes L x schema r t) (\<lambda>_.
     lbind (returned L r returning) (\<lambda>out. xret (1, out))))"

definition insert_row_values ::
  "dml_lib \<Rightarrow> xid \<Rightarrow> table_schema \<Rightarrow> rstring list \<Rightarrow> (rstring \<times> logical_plan expr) list \<Rightarrow> logical_plan on_conflict option
    \<Rightarrow> logical_plan expr list \<Rightarrow> (nat \<times> row list) xop" where
  "insert_row_values L x schema cols returning oc exprs =
     lbind (insert_values L schema cols exprs) (\<lambda>vs.
     lbind (check_foreign_keys L x schema vs) (\<lambda>_.
     let r = \<lparr>row_values = vs, row_schema = schema_of schema\<rparr> in
     lbind (check_checks L schema r) (\<lambda>_.
     lbind (xread (\<lambda>s. Ok (unique_columns_of schema s))) (\<lambda>names.
     lbind (check_unique L x schema oc returning vs names) (\<lambda>handled.
     case handled of Some done \<Rightarrow> xret done | None \<Rightarrow> store_row L x schema returning r)))))"

primrec insert_all :: "('a \<Rightarrow> (nat \<times> row list) xop) \<Rightarrow> nat \<times> row list \<Rightarrow> 'a list \<Rightarrow> (nat \<times> row list) xop" where
  "insert_all f acc [] = xret acc"
| "insert_all f acc (a # as) = lbind (f a) (\<lambda>done. insert_all f (fst acc + fst done, snd acc @ snd done) as)"

definition exec_insert ::
  "dml_lib \<Rightarrow> xid \<Rightarrow> table_schema \<Rightarrow> rstring list \<Rightarrow> logical_plan insert_source \<Rightarrow> (rstring \<times> logical_plan expr) list
    \<Rightarrow> logical_plan on_conflict option \<Rightarrow> (nat \<times> row list) xop" where
  "exec_insert L x schema cols source returning oc =
     lbind (case source of
         SourceValues vss \<Rightarrow> xret vss
       | SourceQuery plan \<Rightarrow> lbind (run_plan L x plan) (\<lambda>rs. xret (map (\<lambda>r. map ELiteral (row_values r)) rs)))
     (insert_all (insert_row_values L x schema cols returning oc) (0, []))"

section \<open>UPDATE\<close>

text \<open>Does a row qualify: alone, or together with some row of the other tables.\<close>

primrec any_match :: "('a \<Rightarrow> bool xop) \<Rightarrow> 'a list \<Rightarrow> bool xop" where
  "any_match f [] = xret False"
| "any_match f (a # as) = lbind (f a) (\<lambda>b. if b then xret True else any_match f as)"

definition qualifies :: "dml_lib \<Rightarrow> logical_plan expr option \<Rightarrow> row list option \<Rightarrow> row \<Rightarrow> bool xop" where
  "qualifies L cond others r =
     (let test = (\<lambda>q. case cond of Some e \<Rightarrow> lbind (xeval L e q) (\<lambda>v. xret (v = VBool True)) | None \<Rightarrow> xret True) in
      case others of
        Some rs \<Rightarrow> any_match (\<lambda>o_row. test (merge_rows r o_row)) rs
      | None \<Rightarrow> test r)"

definition target_rows ::
  "dml_lib \<Rightarrow> xid \<Rightarrow> table_schema \<Rightarrow> logical_plan expr option \<Rightarrow> logical_plan option \<Rightarrow> (tid \<times> row) list xop" where
  "target_rows L x schema cond other_plan =
     lbind (visible_tuples x (ts_oid schema)) (\<lambda>visible.
     lbind (case other_plan of Some p \<Rightarrow> lbind (run_plan L x p) (\<lambda>rs. xret (Some rs)) | None \<Rightarrow> xret None) (\<lambda>others.
     lbind (lmap (\<lambda>(t, tuple).
       lbind (xread (\<lambda>s. payload_row (arrays L) (tdata tuple) schema)) (\<lambda>r.
       lbind (qualifies L cond others r) (\<lambda>b. xret (if b then [(t, r)] else [])))) visible) (\<lambda>parts.
     xret (concat parts))))"

primrec assign :: "dml_lib \<Rightarrow> table_schema \<Rightarrow> (rstring \<times> logical_plan expr) list \<Rightarrow> row \<Rightarrow> row xop" where
  "assign L schema [] r = xret r"
| "assign L schema (a # as) r =
     lbind (xeval L (snd a) r) (\<lambda>v.
     case column_at schema (fst a) of
       None \<Rightarrow> xerr (SqlColumnNotFound (fst a))
     | Some i \<Rightarrow> lbind (xcast L v (col_type (columns schema ! i))) (\<lambda>w. assign L schema as (r\<lparr>row_values := (row_values r)[i := w]\<rparr>)))"

text \<open>The update of a child row whose failure is ignored.\<close>

definition set_child :: "dml_lib \<Rightarrow> xid \<Rightarrow> table_schema \<Rightarrow> tid \<Rightarrow> row \<Rightarrow> nat \<Rightarrow> val \<Rightarrow> unit xop" where
  "set_child L x child t r i v =
     lbind (lattempt (write_update x (ts_oid child) t (row_payload (arrays L) (r\<lparr>row_values := (row_values r)[i := v]\<rparr>)))) (\<lambda>_. xret ())"

definition update_child ::
  "dml_lib \<Rightarrow> xid \<Rightarrow> table_schema \<Rightarrow> table_foreign_key \<Rightarrow> val \<Rightarrow> val \<Rightarrow> tid \<times> tuple \<Rightarrow> unit xop" where
  "update_child L x child fk old_pk new_pk v =
     (case payload_row (arrays L) (tdata (snd v)) child of
        Ok r \<Rightarrow>
          (case column_at child (local_col fk) of
             None \<Rightarrow> xret ()
           | Some i \<Rightarrow>
               (case row_get_by_idx r i of
                  None \<Rightarrow> xret ()
                | Some w \<Rightarrow>
                    if w = VNull \<or> \<not> same_value L w old_pk then xret ()
                    else case tfk_on_update fk of
                      Cascade \<Rightarrow> set_child L x child (fst v) r i new_pk
                    | SetNull \<Rightarrow> set_child L x child (fst v) r i VNull
                    | SetDefault \<Rightarrow> set_child L x child (fst v) r i VNull
                    | _ \<Rightarrow> xerr ConstraintViolation))
      | Err e \<Rightarrow> xret ()
      | Panic \<Rightarrow> ltotal (\<lambda>s. (Panic, s)))"

definition cascade_update :: "dml_lib \<Rightarrow> xid \<Rightarrow> table_schema \<Rightarrow> row \<Rightarrow> row \<Rightarrow> unit xop" where
  "cascade_update L x schema old_row r =
     lbind (xread (\<lambda>s. Ok (Option.bind (get_unique_constraints (registries (x_cat s)) (ts_oid schema)) primary_key))) (\<lambda>pk.
     case pk of
       None \<Rightarrow> xret ()
     | Some name \<Rightarrow>
         (case column_at schema name of
            None \<Rightarrow> xret ()
          | Some i \<Rightarrow>
              let old_pk = (case row_get_by_idx old_row i of Some v \<Rightarrow> v | None \<Rightarrow> VNull); new_pk = row_values r ! i in
              lbind (xread (\<lambda>s. Ok (if same_value L old_pk new_pk then []
                  else find_referencing_tables (registries (x_cat s)) (ts_name schema) name))) (\<lambda>children.
              lseq (map (\<lambda>(child_name, fk).
                lbind (lattempt (on_catalog (get_table (lit ''public'') child_name))) (\<lambda>t.
                case t of
                  None \<Rightarrow> xret ()
                | Some child \<Rightarrow>
                    lbind (visible_tuples x (ts_oid child)) (\<lambda>visible.
                    lseq (map (update_child L x child fk old_pk new_pk) visible)))) children))))"

definition update_one ::
  "dml_lib \<Rightarrow> xid \<Rightarrow> table_schema \<Rightarrow> (rstring \<times> logical_plan expr) list \<Rightarrow> (rstring \<times> logical_plan expr) list \<Rightarrow> tid \<times> row
    \<Rightarrow> (nat \<times> row list) xop" where
  "update_one L x schema assignments returning tgt =
     lbind (assign L schema assignments (snd tgt)) (\<lambda>r.
     lbind (check_checks L schema r) (\<lambda>_.
     lbind (check_foreign_keys L x schema (row_values r)) (\<lambda>_.
     lbind (cascade_update L x schema (snd tgt) r) (\<lambda>_.
     lbind (write_update x (ts_oid schema) (fst tgt) (row_payload (arrays L) r)) (\<lambda>t.
     lbind (maintain_indexes L x schema r t) (\<lambda>_.
     lbind (returned L r returning) (\<lambda>out. xret (1, out))))))))"

definition exec_update ::
  "dml_lib \<Rightarrow> xid \<Rightarrow> table_schema \<Rightarrow> (rstring \<times> logical_plan expr) list \<Rightarrow> logical_plan expr option
    \<Rightarrow> (rstring \<times> logical_plan expr) list \<Rightarrow> logical_plan option \<Rightarrow> (nat \<times> row list) xop" where
  "exec_update L x schema assignments cond returning from_plan =
     lbind (target_rows L x schema cond from_plan) (insert_all (update_one L x schema assignments returning) (0, []))"

section \<open>DELETE\<close>

definition delete_child ::
  "dml_lib \<Rightarrow> xid \<Rightarrow> table_schema \<Rightarrow> table_foreign_key \<Rightarrow> row \<Rightarrow> unit xop" where
  "delete_child L x child fk child_row =
     (case tfk_on_delete fk of
        Cascade \<Rightarrow>
          lbind (visible_tuples x (ts_oid child)) (\<lambda>visible.
          lseq (map (\<lambda>(t, _). lbind (lattempt (write_delete x (ts_oid child) t)) (\<lambda>_. xret ()))
            (filter (has_values L child (row_values child_row)) visible)))
      | NoAction \<Rightarrow> xerr ConstraintViolation
      | Restrict \<Rightarrow> xerr ConstraintViolation
      | _ \<Rightarrow>
          lbind (visible_tuples x (ts_oid child)) (\<lambda>visible.
          lseq (map (\<lambda>(t, tuple).
            case (payload_row (arrays L) (tdata tuple) child, column_at child (local_col fk)) of
              (Ok r, Some i) \<Rightarrow> set_child L x child t r i VNull
            | _ \<Rightarrow> xret ()) (filter (has_values L child (row_values child_row)) visible))))"

definition delete_children :: "dml_lib \<Rightarrow> xid \<Rightarrow> table_schema \<Rightarrow> row \<Rightarrow> unit xop" where
  "delete_children L x schema r =
     lbind (xread (\<lambda>s. Ok (Option.bind (get_unique_constraints (registries (x_cat s)) (ts_oid schema)) primary_key))) (\<lambda>pk.
     case pk of
       None \<Rightarrow> xret ()
     | Some name \<Rightarrow>
         lbind (xread (\<lambda>s. Ok (find_referencing_tables (registries (x_cat s)) (ts_name schema) name))) (\<lambda>children.
         lseq (map (\<lambda>(child_name, fk).
           lbind (lattempt (on_catalog (get_table (lit ''public'') child_name))) (\<lambda>t.
           case (t, column_at schema name) of
             (Some child, Some i) \<Rightarrow>
               lbind (scan_rows L x child_name child) (\<lambda>child_rows.
               (case column_at child (local_col fk) of
                  None \<Rightarrow> xret ()
                | Some j \<Rightarrow>
                    lseq (map (\<lambda>c.
                      case row_get_by_idx c j of
                        Some w \<Rightarrow> if w \<noteq> VNull \<and> same_value L w (row_values r ! i) then delete_child L x child fk c else xret ()
                      | None \<Rightarrow> xret ()) child_rows)))
           | _ \<Rightarrow> xret ())) children)))"

definition delete_one ::
  "dml_lib \<Rightarrow> xid \<Rightarrow> table_schema \<Rightarrow> (rstring \<times> logical_plan expr) list \<Rightarrow> tid \<times> row \<Rightarrow> (nat \<times> row list) xop" where
  "delete_one L x schema returning tgt =
     lbind (delete_children L x schema (snd tgt)) (\<lambda>_.
     lbind (write_delete x (ts_oid schema) (fst tgt)) (\<lambda>_.
     lbind (returned L (snd tgt) returning) (\<lambda>out. xret (1, out))))"

definition exec_delete ::
  "dml_lib \<Rightarrow> xid \<Rightarrow> table_schema \<Rightarrow> logical_plan expr option \<Rightarrow> (rstring \<times> logical_plan expr) list \<Rightarrow> logical_plan option
    \<Rightarrow> (nat \<times> row list) xop" where
  "exec_delete L x schema cond returning using_plan =
     lbind (target_rows L x schema cond using_plan) (insert_all (delete_one L x schema returning) (0, []))"

section \<open>Steps that write no rows\<close>

text \<open>
  The checks of a statement read: they fill caches, advance sequences and remember what was read, but leave every table, the
  log, the locks, the undo log and the unique constraints as they are.
\<close>

definition kept :: "exec_state \<Rightarrow> exec_state \<Rightarrow> bool" where
  "kept s s' \<longleftrightarrow> x_heaps s' = x_heaps s \<and> same_txns (x_mgr s) (x_mgr s') \<and> tm_wal (x_mgr s') = tm_wal (x_mgr s)
     \<and> tm_locks (x_mgr s') = tm_locks (x_mgr s) \<and> x_undo s' = x_undo s
     \<and> unique_registry (registries (x_cat s')) = unique_registry (registries (x_cat s))"

definition calm :: "'a xop \<Rightarrow> bool" where
  "calm f \<longleftrightarrow> (\<forall>s r s'. f s = Some (r, s') \<longrightarrow> kept s s')"

named_theorems calm_intros \<open>closure of operations that write no rows\<close>

lemma kept_refl [simp, intro]: "kept s s"
  by (simp add: kept_def)

lemma kept_trans: "kept s s1 \<Longrightarrow> kept s1 s2 \<Longrightarrow> kept s s2"
  using same_txns_trans by (auto simp: kept_def)

lemma calmD: "calm f \<Longrightarrow> f s = Some (r, s') \<Longrightarrow> kept s s'"
  unfolding calm_def by blast

lemma calm_lbind [calm_intros]: "calm f \<Longrightarrow> (\<And>v. calm (g v)) \<Longrightarrow> calm (lbind f g)"
  unfolding calm_def lbind_def by (auto split: option.splits prod.splits outcome.splits) (meson kept_trans)+

lemma calm_basic [calm_intros]: "calm (xret v)" "calm (xerr e)" "calm (xread q)" "calm (ltotal (\<lambda>s. (Panic, s)))"
  by (auto simp: calm_def sret_def serr_def slift_def)

lemma calm_if [calm_intros]: "(c \<Longrightarrow> calm f) \<Longrightarrow> (\<not> c \<Longrightarrow> calm g) \<Longrightarrow> calm (if c then f else g)"
  by simp

lemma calm_option [calm_intros]:
  "(z = None \<Longrightarrow> calm f) \<Longrightarrow> (\<And>v. z = Some v \<Longrightarrow> calm (g v)) \<Longrightarrow> calm (case z of None \<Rightarrow> f | Some v \<Rightarrow> g v)"
  by (simp split: option.split)

lemma calm_prod [calm_intros]: "(\<And>a b. calm (f a b)) \<Longrightarrow> calm (case p of (a, b) \<Rightarrow> f a b)"
  by (simp split: prod.split)

lemma calm_lseq [calm_intros]: "(\<And>f. f \<in> set fs \<Longrightarrow> calm f) \<Longrightarrow> calm (lseq fs)"
  by (induction fs) (auto intro: calm_intros)

lemma calm_lmap [calm_intros]: "(\<And>a. calm (f a)) \<Longrightarrow> calm (lmap f as)"
  by (induction as) (auto intro!: calm_intros)

lemma calm_lattempt [calm_intros]: "calm f \<Longrightarrow> calm (lattempt f)"
  by (fastforce simp: calm_def lattempt_def split: option.splits prod.splits outcome.splits)

lemma calm_eval [calm_intros]: "calm (xeval L e r)" "calm (xcast L v ty)"
  unfolding xeval_def xcast_def by (intro calm_intros)+

lemma calm_serial [calm_intros]: "calm (next_serial table col)"
  by (auto simp: calm_def next_serial_def next_sequence_val_def put_sequence_def kept_def Let_def)

lemma scan_keeps: "scan_visible_tuples x h m = (r, m') \<Longrightarrow> tm_wal m' = tm_wal m \<and> tm_locks m' = tm_locks m \<and> same_txns m m'"
  using scan_quiet [of x h m r m'] by (auto simp: scan_visible_tuples_def track_reads_def split: outcome.splits if_splits option.splits)

lemma calm_scan [calm_intros]: "calm (scan_rows L x name schema)"
  by (auto simp: calm_def scan_rows_def exec_table_scan_def kept_def split: prod.splits if_splits dest: scan_keeps)

lemma calm_visible [calm_intros]: "calm (visible_tuples x oid)"
  by (auto simp: calm_def visible_tuples_def on_table_def kept_def split: prod.splits dest: scan_keeps)

lemma get_table_keeps:
  "get_table sn tn (m, c) = Some (r, (m', c')) \<Longrightarrow> m' = m \<and> unique_registry (registries c') = unique_registry (registries c)"
  by (auto simp: get_table_def resolve_namespace_def lbind_def ltotal_def slift_def smod_def sret_def put_schema_def
      split: option.splits prod.splits outcome.splits)

lemma calm_get_table [calm_intros]: "calm (on_catalog (get_table sn tn))"
  by (auto simp: calm_def on_catalog_def kept_def split: option.splits prod.splits dest: get_table_keeps)

lemma calm_default [calm_intros]: "calm (eval_default_expr L d ty)"
  unfolding eval_default_expr_def by (intro calm_intros)

lemma calm_place [calm_intros]: "calm (place_values L schema nes vs ps)"
  by (induction nes arbitrary: vs ps) (auto intro!: calm_intros)

lemma calm_missing [calm_intros]: "calm (missing_value L schema c v)"
  unfolding missing_value_def by (intro calm_intros)

lemma calm_insert_values [calm_intros]: "calm (insert_values L schema cols exprs)"
  unfolding insert_values_def Let_def by (intro calm_intros)

lemma calm_foreign_keys [calm_intros]: "calm (check_foreign_keys L x schema vs)"
  unfolding check_foreign_keys_def check_foreign_key_def by (intro calm_intros) (auto intro!: calm_intros)

lemma calm_checks [calm_intros]: "calm (check_checks L schema r)"
  unfolding check_checks_def eval_check_constraint_def by (intro calm_intros) (auto intro!: calm_intros)

lemma calm_returned [calm_intros]: "calm (returned L r returning)"
  unfolding returned_def build_returning_row_def by (intro calm_intros)

lemma calm_indexes [calm_intros]: "calm (maintain_indexes L x schema r t)"
  by (auto simp: calm_def maintain_indexes_def kept_def)

lemma calm_unique [calm_intros]: "calm (check_unique L x schema None returning vs names)"
  by (induction names; simp only: check_unique.simps option.case) (assumption | rule calm_intros)+

section \<open>Unique columns\<close>

lemma f64_equal: "f64_cmp a b = Some OEqual \<longleftrightarrow> \<not> f64_nan a \<and> \<not> f64_nan b \<and> f64_rank a = f64_rank b"
  by (auto simp: f64_cmp_def cmp_def)

lemma cmp_equal: "cmp a b = OEqual \<longleftrightarrow> a = b"
  by (simp add: cmp_def)

lemma float_pair_sym: "float_pair F v w = Some OEqual \<Longrightarrow> float_pair F w v = Some OEqual"
  by (auto simp: float_pair_def f64_equal split: option.splits)

lemma val_cmp_sym:
  "val_cmp F v w = Some OEqual \<Longrightarrow> val_cmp F w v = Some OEqual"
  "vals_cmp F vs ws = Some OEqual \<Longrightarrow> vals_cmp F ws vs = Some OEqual"
proof (induction F v w and F vs ws rule: val_cmp_vals_cmp.induct)
  case (1 F a b)
  show ?case
  proof (cases "\<exists>xs ys. a = VArray xs \<and> b = VArray ys")
    case True
    then show ?thesis using 1 by (auto simp: val_cmp.simps)
  next
    case False
    then show ?thesis
      using 1(2) by (cases a; cases b) (simp_all add: val_cmp.simps cmp_equal f64_equal float_pair_sym split: option.splits prod.splits)
  qed
next
  case (3 F x xs ys)
  then show ?case by (auto split: list.splits option.splits ordering.splits)
qed (auto split: if_splits)

text \<open>The value of column \<open>i\<close> in a stored tuple.\<close>

definition stored_value :: "dml_lib \<Rightarrow> table_schema \<Rightarrow> nat \<Rightarrow> tuple \<Rightarrow> val option" where
  "stored_value L schema i t =
     (case payload_row (arrays L) (tdata t) schema of Ok r \<Rightarrow> row_get_by_idx r i | _ \<Rightarrow> None)"

abbreviation seen :: "xid \<Rightarrow> table_schema \<Rightarrow> exec_state \<Rightarrow> (tid \<times> tuple) set" where
  "seen x schema s \<equiv> rows x (x_mgr s, x_heaps s (ts_oid schema))"

definition clash :: "dml_lib \<Rightarrow> table_schema \<Rightarrow> nat \<Rightarrow> val \<Rightarrow> tuple \<Rightarrow> bool" where
  "clash L schema i v t \<longleftrightarrow> (\<exists>w. stored_value L schema i t = Some w \<and> w \<noteq> VNull \<and> same_value L w v)"

text \<open>No two rows the transaction sees have equal values in column \<open>i\<close>; nulls are not equal to anything.\<close>

definition unique_in :: "dml_lib \<Rightarrow> xid \<Rightarrow> table_schema \<Rightarrow> nat \<Rightarrow> exec_state \<Rightarrow> bool" where
  "unique_in L x schema i s \<longleftrightarrow>
     (\<forall>k t j u. (k, t) \<in> seen x schema s \<longrightarrow> (j, u) \<in> seen x schema s \<longrightarrow>
        k \<noteq> j \<longrightarrow> (\<forall>v. stored_value L schema i t = Some v \<longrightarrow> v \<noteq> VNull \<longrightarrow> \<not> clash L schema i v u))"

lemma kept_inv: "kept s s' \<Longrightarrow> store_inv n s \<Longrightarrow> store_inv n s'"
  using db_inv_keep unfolding store_inv_def kept_def by metis

lemma kept_seen: "kept s s' \<Longrightarrow> store_inv n s \<Longrightarrow> seen x schema s' = seen x schema s"
  using rows_iff [OF store_inv_wf [of n s "ts_oid schema"], of _ _ x] same_txns_visible [of "x_mgr s" "x_mgr s'" x]
  by (auto simp: kept_def)

lemma scan_rows_seen:
  assumes "scan_rows L x name schema s = Some (Ok rs, s')" and "name \<noteq> lit ''__dual__''" and "(k, t) \<in> seen x schema s"
  shows "\<exists>r \<in> set rs. \<exists>q. payload_row (arrays L) (tdata t) schema = Ok q \<and> row_values r = row_values q"
proof -
  obtain visible m where v: "scan_visible_tuples x (x_heaps s (ts_oid schema)) (x_mgr s) = (Ok visible, m)"
    "omap (\<lambda>(t, tuple). obind (payload_row (arrays L) (tdata tuple) schema) (\<lambda>row. Ok (qualify_row_schema row None))) visible = Ok rs"
    using assms(1,2) by (auto simp: scan_rows_def exec_table_scan_def obind_eq_Ok map_err_eq_Ok split: prod.splits)
  have "(k, t) \<in> set visible" using assms(3) v(1) by (simp add: rows_def)
  with v(2) show ?thesis
    by (induction visible arbitrary: rs) (auto simp: obind_eq_Ok qualify_row_schema_def split: prod.splits)
qed

lemma check_unique_None:
  assumes "check_unique L x schema None returning vs names s = Some (Ok h, s')" and "store_inv n s"
    and "ts_name schema \<noteq> lit ''__dual__''"
  shows "h = None \<and> (\<forall>name \<in> set names. \<forall>i k t. column_at schema name = Some i \<longrightarrow> vs ! i \<noteq> VNull \<longrightarrow>
    (k, t) \<in> seen x schema s \<longrightarrow> \<not> clash L schema i (vs ! i) t)"
  using assms(1,2)
proof (induction names arbitrary: s)
  case Nil
  then show ?case by (simp add: sret_def)
next
  case (Cons name names)
  show ?case
  proof (cases "\<exists>i. column_at schema name = Some i \<and> vs ! i \<noteq> VNull")
    case False
    then have "check_unique L x schema None returning vs names s = Some (Ok h, s')"
      using Cons.prems(1) by (auto split: option.splits if_splits)
    with Cons.IH [OF this Cons.prems(2)] False show ?thesis by auto
  next
    case True
    then obtain i where i: "column_at schema name = Some i" "vs ! i \<noteq> VNull" by blast
    obtain rs s1 where s1: "scan_rows L x (ts_name schema) schema s = Some (Ok rs, s1)" "find_conflict L i (vs ! i) rs = None"
      "check_unique L x schema None returning vs names s1 = Some (Ok h, s')"
      using Cons.prems(1) i by (auto simp: lbind_def split: option.splits outcome.splits prod.splits)
    have "\<not> clash L schema i (vs ! i) t" if t: "(k, t) \<in> seen x schema s" for k t
    proof -
      obtain r q where "r \<in> set rs" "payload_row (arrays L) (tdata t) schema = Ok q" "row_values r = row_values q"
        using scan_rows_seen [OF s1(1) assms(3) t] by blast
      then show ?thesis
        using s1(2) by (auto simp: clash_def stored_value_def find_conflict_def find_None_iff row_get_by_idx_def split: if_splits)
    qed
    moreover have k: "kept s s1" using calmD [OF calm_scan s1(1)] .
    ultimately show ?thesis
      using Cons.IH [OF s1(3) kept_inv [OF k Cons.prems(2)]] i kept_seen [OF k Cons.prems(2), of x schema] by auto
  qed
qed

lemma lbind_OkE:
  assumes "lbind f g s = Some (Ok v, s')"
  obtains u s1 where "f s = Some (Ok u, s1)" and "g u s1 = Some (Ok v, s')"
  using assms by (auto simp: lbind_def split: option.splits prod.splits outcome.splits)

lemma write_insert_law:
  assumes run: "write_insert x oid d s = Some (Ok k, s')" and inv: "store_inv (Suc n) s" and d: "length d \<le> 8140"
  shows "store_inv n s'" and "stored_at s oid k = None" and "stored_at s' = put_at (stored_at s) oid k (new_version x d)"
    and "same_txns (x_mgr s) (x_mgr s')" and "x_cat s' = x_cat s"
proof -
  have here: "db_inv None (Suc n) (x_mgr s, x_heaps s oid)" using inv by (simp add: store_inv_def)
  obtain j m h where r: "txn_insert_tuple x d (x_mgr s, x_heaps s oid) = (Ok j, (m, h))" "db_inv None n (m, h)"
    "stored_at s oid j = None" "heap_abs h = (heap_abs (x_heaps s oid))(j \<mapsto> new_version x d)" "same_txns (x_mgr s) m"
    by (rule insert_run [OF here d])
  note lift = lift_run [of n 1 s m h oid j "new_version x d", OF _ r(2,5,4)]
  have s': "k = j" "x_mgr s' = m" "x_heaps s' = (x_heaps s)(oid := h)" "x_cat s' = x_cat s"
    using run r(1) by (auto simp: write_insert_def on_table_def record_undo_def sret_def)
  show "store_inv n s'" using lift(1) inv s' by (simp add: store_inv_def)
  show "stored_at s' = put_at (stored_at s) oid k (new_version x d)" using lift(2) inv s' by simp
  show "stored_at s oid k = None" "same_txns (x_mgr s) (x_mgr s')" "x_cat s' = x_cat s" using r(3,5) s' by simp_all
qed

abbreviation full_row :: "table_schema \<Rightarrow> val list \<Rightarrow> row" where
  "full_row schema vs \<equiv> \<lparr>row_values = vs, row_schema = schema_of schema\<rparr>"

definition good_row :: "dml_lib \<Rightarrow> table_schema \<Rightarrow> val list \<Rightarrow> bool" where
  "good_row L schema vs \<longleftrightarrow>
     fits (arrays L) (full_row schema vs) schema \<and> length (row_payload (arrays L) (full_row schema vs)) \<le> 8140"

lemma store_row_law:
  assumes run: "store_row L x schema returning r s = Some (Ok res, s')" and inv: "store_inv (Suc n) s"
    and l: "length (row_payload (arrays L) r) \<le> 8140" and x: "x \<noteq> INVALID_XID"
  obtains k where "fst res = 1" and "store_inv n s'" and "k \<notin> fst ` seen x schema s"
    and "seen x schema s' = insert (k, new_version x (row_payload (arrays L) r)) (seen x schema s)"
    and "unique_columns_of schema s' = unique_columns_of schema s"
proof -
  let ?oid = "ts_oid schema" and ?d = "row_payload (arrays L) r"
  obtain k s1 s2 out where w: "write_insert x ?oid ?d s = Some (Ok k, s1)"
    and m: "maintain_indexes L x schema r k s1 = Some (Ok (), s2)" "returned L r returning s2 = Some (Ok out, s')" and res: "res = (1, out)"
    using run by (auto simp: store_row_def sret_def elim!: lbind_OkE simp del: One_nat_def)
  note law = write_insert_law [OF w inv l]
  have k: "kept s1 s'" using kept_trans [OF calmD [OF calm_indexes m(1)] calmD [OF calm_returned m(2)]] .
  have wf: "heap_wf (x_heaps s ?oid)" and wf1: "heap_wf (x_heaps s1 ?oid)" using store_inv_wf inv law(1) by blast+
  have vis: "version_visible x snap comm (header (new_version x ?d))" for snap comm
    using x by (simp add: version_visible_def new_version_def)
  have "(j, t) \<in> seen x schema s1 \<longleftrightarrow> (j, t) \<in> insert (k, new_version x ?d) (seen x schema s)" for j t
    using law(2) vis fun_cong [OF fun_cong [OF law(3), of ?oid], of j]
    by (auto simp: rows_iff [OF wf1] rows_iff [OF wf] same_txns_visible [OF law(4)] split: if_splits)
  then have seen1: "seen x schema s1 = insert (k, new_version x ?d) (seen x schema s)" by auto
  show ?thesis
  proof (rule that)
    show "store_inv n s'" by (rule kept_inv [OF k law(1)])
    show "seen x schema s' = insert (k, new_version x ?d) (seen x schema s)" using kept_seen [OF k law(1)] seen1 by simp
    show "k \<notin> fst ` seen x schema s" using law(2) by (auto simp: rows_iff [OF wf])
    show "unique_columns_of schema s' = unique_columns_of schema s"
      using k law(5) by (simp add: unique_columns_of_def get_unique_constraints_def kept_def)
  qed (use res in simp)
qed

lemma insert_row_law:
  assumes run: "insert_row_values L x schema cols returning None exprs s = Some (Ok res, s')" and inv: "store_inv (Suc n) s"
    and dual: "ts_name schema \<noteq> lit ''__dual__''" and x: "x \<noteq> INVALID_XID"
    and good: "\<And>s vs s'. insert_values L schema cols exprs s = Some (Ok vs, s') \<Longrightarrow> good_row L schema vs"
  obtains vs k where "good_row L schema vs" and "fst res = 1" and "store_inv n s'"
    and "seen x schema s' = insert (k, new_version x (row_payload (arrays L) (full_row schema vs))) (seen x schema s)"
    and "k \<notin> fst ` seen x schema s"
    and "\<forall>name \<in> set (unique_columns_of schema s). \<forall>i j t. column_at schema name = Some i \<longrightarrow> vs ! i \<noteq> VNull \<longrightarrow>
      (j, t) \<in> seen x schema s \<longrightarrow> \<not> clash L schema i (vs ! i) t"
    and "unique_columns_of schema s' = unique_columns_of schema s"
proof -
  obtain vs s1 s2 s3 h s4 where vs: "insert_values L schema cols exprs s = Some (Ok vs, s1)"
    and s2: "check_foreign_keys L x schema vs s1 = Some (Ok (), s2)" "check_checks L schema (full_row schema vs) s2 = Some (Ok (), s3)"
    "check_unique L x schema None returning vs (unique_columns_of schema s3) s3 = Some (Ok h, s4)"
    and rest: "(case h of Some res \<Rightarrow> xret res | None \<Rightarrow> store_row L x schema returning (full_row schema vs)) s4 = Some (Ok res, s')"
    using run by (auto simp: insert_row_values_def Let_def slift_def elim!: lbind_OkE)
  have k3: "kept s s3"
    using kept_trans calmD [OF calm_insert_values vs] calmD [OF calm_foreign_keys s2(1)] calmD [OF calm_checks s2(2)] by blast
  then have k4: "kept s s4" using kept_trans calmD [OF calm_unique s2(3)] by blast
  have names: "unique_columns_of schema s3 = unique_columns_of schema s" "unique_columns_of schema s4 = unique_columns_of schema s"
    using k3 k4 by (simp_all add: unique_columns_of_def get_unique_constraints_def kept_def)
  note no = check_unique_None [OF s2(3) kept_inv [OF k3 inv] dual, unfolded names(1) kept_seen [OF k3 inv, of x schema]]
  have st: "store_row L x schema returning (full_row schema vs) s4 = Some (Ok res, s')" using rest no by simp
  have g: "good_row L schema vs" by (rule good [OF vs])
  show ?thesis
    by (rule store_row_law [OF st kept_inv [OF k4 inv] _ x])
      (use that [OF g] g no names(2) kept_seen [OF k4 inv, of x schema] in \<open>auto simp: good_row_def\<close>)
qed

definition good_rows :: "dml_lib \<Rightarrow> table_schema \<Rightarrow> rstring list \<Rightarrow> logical_plan expr list list \<Rightarrow> bool" where
  "good_rows L schema cols vss \<longleftrightarrow>
     (\<forall>exprs \<in> set vss. \<forall>s vs s'. insert_values L schema cols exprs s = Some (Ok vs, s') \<longrightarrow> good_row L schema vs)"

lemma stored_value_new:
  assumes "good_row L schema vs" and "length (columns schema) \<le> 32" and "i < length (columns schema)"
  shows "stored_value L schema i (new_version x (row_payload (arrays L) (full_row schema vs))) = Some (vs ! i)"
proof -
  have f: "fits (arrays L) (full_row schema vs) schema" using assms(1) by (simp add: good_row_def)
  then have "length vs = length (columns schema)" by (auto simp: fits_def dest: list_all2_lengthD)
  then show ?thesis
    using payload_roundtrip [OF f assms(2)] assms(3) by (simp add: stored_value_def new_version_def Tuple_new_def row_get_by_idx_def)
qed

lemma unique_insert:
  assumes u: "unique_in L x schema i s" and s': "seen x schema s' = insert (k, t) (seen x schema s)" and v: "stored_value L schema i t = Some v"
    and no: "\<And>j u. v \<noteq> VNull \<Longrightarrow> (j, u) \<in> seen x schema s \<Longrightarrow> \<not> clash L schema i v u"
  shows "unique_in L x schema i s'"
proof -
  have conv: "\<not> clash L schema i w t" if "(j, u) \<in> seen x schema s" "stored_value L schema i u = Some w" "w \<noteq> VNull" for j u w
    using no [OF _ that(1)] that(2,3) v val_cmp_sym(1) by (auto simp: clash_def same_value_def)
  show ?thesis
    unfolding unique_in_def s' using u no conv v by (auto simp: unique_in_def)
qed

lemma insert_rows_law:
  assumes "insert_all (insert_row_values L x schema cols returning None) acc vss s = Some (Ok res, s')"
    and "store_inv (length vss) s" and dual: "ts_name schema \<noteq> lit ''__dual__''" and x: "x \<noteq> INVALID_XID"
    and few: "length (columns schema) \<le> 32"
    and "good_rows L schema cols vss"
    and "name \<in> set (unique_columns_of schema s)" and col: "column_at schema name = Some i" and "unique_in L x schema i s"
  shows "unique_in L x schema i s' \<and> fst res = fst acc + length vss
    \<and> (\<exists>N. seen x schema s' = N \<union> seen x schema s \<and> N \<inter> seen x schema s = {} \<and> finite N \<and> card N = length vss)"
  using assms(1,2,6,7,9)
proof (induction vss arbitrary: acc s)
  case Nil
  then have "s' = s" "res = acc" by (simp_all add: sret_def)
  then show ?case using Nil.prems(5) by (intro conjI exI [of _ "{}"]) simp_all
next
  case (Cons exprs vss)
  have i: "i < length (columns schema)" using col by (auto simp: position_def find_Some_iff)
  obtain r s1 where s1: "insert_row_values L x schema cols returning None exprs s = Some (Ok r, s1)"
    and rest: "insert_all (insert_row_values L x schema cols returning None) (fst acc + fst r, snd acc @ snd r) vss s1 = Some (Ok res, s')"
    using Cons.prems(1) by (auto elim: lbind_OkE)
  have good: "\<And>s vs s'. insert_values L schema cols exprs s = Some (Ok vs, s') \<Longrightarrow> good_row L schema vs"
    using Cons.prems(3) by (auto simp: good_rows_def)
  have inv: "store_inv (Suc (length vss)) s" using Cons.prems(2) by simp
  obtain vs k where l: "good_row L schema vs" "fst r = 1" "store_inv (length vss) s1"
    "seen x schema s1 = insert (k, new_version x (row_payload (arrays L) (full_row schema vs))) (seen x schema s)"
    "k \<notin> fst ` seen x schema s" "unique_columns_of schema s1 = unique_columns_of schema s"
    and no: "\<forall>name \<in> set (unique_columns_of schema s). \<forall>i j t. column_at schema name = Some i \<longrightarrow> vs ! i \<noteq> VNull \<longrightarrow>
      (j, t) \<in> seen x schema s \<longrightarrow> \<not> clash L schema i (vs ! i) t"
    by (rule insert_row_law [OF s1 inv dual x good])
  have "unique_in L x schema i s1"
    by (rule unique_insert [OF Cons.prems(5) l(4) stored_value_new [OF l(1) few i]]) (use no Cons.prems(4) col in blast)
  then obtain N where IH: "unique_in L x schema i s'" "fst res = fst acc + fst r + length vss"
    "seen x schema s' = N \<union> seen x schema s1" "N \<inter> seen x schema s1 = {}" "finite N" "card N = length vss"
    using Cons.IH [OF rest l(3)] Cons.prems(3,4) l(6) by (auto simp: good_rows_def)
  have "(k, new_version x (row_payload (arrays L) (full_row schema vs))) \<notin> seen x schema s" using l(5) by force
  then show ?case
    using IH l(2,4) by (intro conjI exI [of _ "insert (k, new_version x (row_payload (arrays L) (full_row schema vs))) N"]) auto
qed

text \<open>
  \<^bold>\<open>C16.\<close> INSERT of lists of values, without ON CONFLICT, into a table of at most 32 columns. When the statement
  succeeds, it has added exactly one row per list of values to what its transaction sees, all other rows are still there,
  and if no two rows had equal values in a unique column before, none have afterwards. The rows stored have values of the
  types of their columns and fit a page. (ON CONFLICT DO UPDATE assigns to unique columns without a check.)
\<close>

theorem insert_keeps_unique:
  assumes "exec_insert L x schema cols (SourceValues vss) returning None s = Some (Ok (n, out), s')"
    and "store_inv (length vss) s" and "ts_name schema \<noteq> lit ''__dual__''" and "x \<noteq> INVALID_XID" and "length (columns schema) \<le> 32"
    and "good_rows L schema cols vss"
    and "name \<in> set (unique_columns_of schema s)" and "column_at schema name = Some i" and "unique_in L x schema i s"
  shows "unique_in L x schema i s' \<and> n = length vss
    \<and> (\<exists>N. seen x schema s' = N \<union> seen x schema s \<and> N \<inter> seen x schema s = {} \<and> card N = length vss)"
proof -
  have run: "insert_all (insert_row_values L x schema cols returning None) (0, []) vss s = Some (Ok (n, out), s')"
    using assms(1) by (simp add: exec_insert_def)
  obtain N where N: "seen x schema s' = N \<union> seen x schema s" "N \<inter> seen x schema s = {}" "card N = length vss"
    and u: "unique_in L x schema i s'" "n = length vss"
    using insert_rows_law [OF run assms(2-9)] by fastforce
  show ?thesis by (intro conjI exI [of _ N]) (fact u N)+
qed

definition plain_numbers :: float_lib where
  "plain_numbers = \<lparr>f_add = (\<lambda>_ _. 0), f_sub = (\<lambda>_ _. 0), f_mul = (\<lambda>_ _. 0), f_div = (\<lambda>_ _. 0), f_sum = (\<lambda>_. 0), f_square = (\<lambda>_. 0),
     f_sqrt = (\<lambda>_. 0), f_parse = (\<lambda>_. None), f_show = (\<lambda>_. []), f_fixed10 = (\<lambda>_. [])\<rparr>"

definition plain_lib :: dml_lib where
  "plain_lib = \<lparr>number_lib = plain_numbers, json_texts = \<lparr>j_parse = (\<lambda>_. None), j_text = (\<lambda>_. [])\<rparr>,
     unicode_lower = (\<lambda>s. s), functions_in = (\<lambda>_ _ _ _. Err NotImplemented), cte_context = Map.empty, subqueries_in = (\<lambda>_ _ _ _. Err NotImplemented),
     arrays = no_arrays, run_plan = (\<lambda>_ _ s. Some (Err NotImplemented, s)), expr_from_str = (\<lambda>_. Err ParseError), now_micros = 0,
     today = 0, new_uuid = [], unicode_upper = (\<lambda>s. s)\<rparr>"

definition key_table :: table_schema where
  "key_table = \<lparr>ts_oid = 1000, ts_name = lit ''t'', namespace_oid = 100, columns = [plain_column ''a'' TInt4], foreign_keys = [], check_constraints = []\<rparr>"

definition key_store :: "txn_manager \<Rightarrow> exec_state" where
  "key_store m = \<lparr>x_mgr = m,
     x_cat = fresh_catalog\<lparr>registries := set_unique_constraints 1000 [lit ''a''] (Some (lit ''a'')) new_catalog\<rparr>,
     x_heaps = (\<lambda>_. []), x_indexes = [], x_undo = None\<rparr>"

lemma five_values: "insert_values plain_lib key_table [] [ELiteral (VInt4 5)] s = Some (Ok [VInt4 5], s)"
  by (simp add: insert_values_def xeval_def xcast_def slift_def sret_def key_table_def plain_column_def position_def cast_to_def Let_def)

lemma five_good_row: "good_row plain_lib key_table [VInt4 5]"
  by (simp add: good_row_def fits_def storable_def key_table_def plain_column_def plain_lib_def no_arrays_def row_payload_def encode_row_def)

lemma five_good: "good_rows plain_lib key_table [] [[ELiteral (VInt4 5)]]"
  by (simp add: good_rows_def five_values five_good_row)

lemma empty_scan: "scan_visible_tuples x [] m = (Ok [], m)"
  by (simp add: scan_visible_tuples_def num_pages_def)

theorem insert_keeps_unique_witness:
  "\<exists>m s'. exec_insert plain_lib 3 key_table [] (SourceValues [[ELiteral (VInt4 5)]]) [] None (key_store m) = Some (Ok (1, []), s')
    \<and> unique_in plain_lib 3 key_table 0 s' \<and> card (seen 3 key_table s') = 1"
proof (rule one_row)
  fix w s1 s2 k
  assume a: "db_inv (Some []) 998 s1" "snd s1 = []"
  let ?m = "fst s1"
  let ?s = "key_store ?m" and ?d = "row_payload no_arrays (full_row key_table [VInt4 5])"
  have inv: "db_inv None (Suc 997) (?m, [])" using db_inv_None [OF a(1)] a(2) by (cases s1) simp
  then have st: "store_inv 1 ?s" using db_inv_mono [of None "Suc 997" _ 1] by (simp add: store_inv_def key_store_def)
  have oid: "ts_oid key_table = 1000" "ts_name key_table = lit ''t''" and ar: "arrays plain_lib = no_arrays" by (simp_all add: key_table_def plain_lib_def)
  have col: "column_at key_table (lit ''a'') = Some 0" by (simp add: key_table_def plain_column_def position_def)
  have uq: "unique_columns_of key_table ?s = [lit ''a'']"
    by (simp add: unique_columns_of_def get_unique_constraints_def set_unique_constraints_def key_store_def oid)
  have scan: "scan_rows plain_lib 3 (lit ''t'') key_table ?s = Some (Ok [], ?s)"
    by (simp add: scan_rows_def exec_table_scan_def key_store_def empty_scan lit_def)
  have l: "length ?d \<le> 8140" using five_good_row by (simp add: good_row_def ar)
  obtain j m h where r: "txn_insert_tuple 3 ?d (?m, []) = (Ok j, (m, h))" by (rule insert_run [OF inv l, of 3])
  have fk: "check_foreign_keys plain_lib 3 key_table [VInt4 5] ?s = Some (Ok (), ?s)"
    and ck: "check_checks plain_lib key_table (full_row key_table [VInt4 5]) ?s = Some (Ok (), ?s)"
    by (simp_all add: check_foreign_keys_def check_checks_def get_foreign_keys_def get_check_constraints_def key_store_def slift_def sret_def
        new_catalog_def set_unique_constraints_def)
  obtain s' where w: "store_row plain_lib 3 key_table [] (full_row key_table [VInt4 5]) ?s = Some (Ok (1, []), s')"
    using r by (simp add: store_row_def write_insert_def on_table_def record_undo_def maintain_indexes_def returned_def sret_def oid ar key_store_def)
  have run: "exec_insert plain_lib 3 key_table [] (SourceValues [[ELiteral (VInt4 5)]]) [] None ?s = Some (Ok (1, []), s')"
    using w fk ck scan uq col by (simp add: exec_insert_def insert_row_values_def five_values slift_def sret_def find_conflict_def oid Let_def)
  have none: "seen 3 key_table ?s = {}" by (simp add: rows_def key_store_def empty_scan)
  have "unique_in plain_lib 3 key_table 0 s' \<and> (1 :: nat) = length [[ELiteral (VInt4 5) :: logical_plan expr]]
    \<and> (\<exists>N. seen 3 key_table s' = N \<union> seen 3 key_table ?s \<and> N \<inter> seen 3 key_table ?s = {} \<and> card N = length [[ELiteral (VInt4 5) :: logical_plan expr]])"
    by (rule insert_keeps_unique [OF run _ _ _ _ five_good, of "lit ''a''"])
      (use st uq col none in \<open>simp_all add: unique_in_def oid lit_def key_table_def\<close>)
  then show ?thesis using run none by auto
qed

section \<open>Updates are not checked\<close>

lemma write_update_run:
  assumes inv: "store_inv 2 s" and old: "stored_at s oid k = Some u" and free: "lock_of (x_mgr s) k = None \<or> lock_of (x_mgr s) k = Some x"
    and d: "length d \<le> 8140"
  obtains j s' where "write_update x oid k d s = Some (Ok j, s')" and "store_inv 0 s'" and "stored_at s oid j = None"
    and "stored_at s' oid = (stored_at s oid)(k \<mapsto> set_xmax u x, j \<mapsto> new_version x d)" and "same_txns (x_mgr s) (x_mgr s')"
    and "x_indexes s' = x_indexes s"
proof -
  have here: "db_inv None (Suc (Suc 0)) (x_mgr s, x_heaps s oid)" using inv by (simp add: store_inv_def numeral_2_eq_2)
  obtain j m h where r: "txn_update_tuple x k d (x_mgr s, x_heaps s oid) = Some (Ok j, (m, h))" "db_inv None 0 (m, h)"
    "stored_at s oid j = None" "heap_abs h = (heap_abs (x_heaps s oid))(k \<mapsto> set_xmax u x, j \<mapsto> new_version x d)" "same_txns (x_mgr s) m"
    by (rule update_run [OF here free old d])
  let ?s = "s\<lparr>x_mgr := m, x_heaps := (x_heaps s)(oid := h)\<rparr>"
  let ?s' = "?s\<lparr>x_undo := map_option (\<lambda>l. l @ [UndoDelete oid k, UndoInsert oid j]) (x_undo s)\<rparr>"
  have "write_update x oid k d s = Some (Ok j, ?s')"
    using r(1) by (simp add: write_update_def on_table_def record_undo_def sret_def option.map_comp comp_def)
  moreover have "store_inv 0 ?s'" using store_inv_step [of 0 2 s m h oid] inv r(2) by (simp add: store_inv_def numeral_2_eq_2)
  ultimately show ?thesis by (rule that) (use r(3-5) in \<open>simp_all add: fun_eq_iff\<close>)
qed

text \<open>
  \<^bold>\<open>C17.\<close> Finding. UPDATE looks at check constraints and foreign keys only. On a table without them every assignment of a value of the
  right type is carried out, whatever the column forbids: a null goes into a column that is not null, and a value another row
  has goes into a unique column.
\<close>

theorem update_checks_neither_null_nor_unique:
  assumes inv: "store_inv 2 s" and t: "(k, u) \<in> seen x schema s" "payload_row (arrays L) (tdata u) schema = Ok r"
    and free: "lock_of (x_mgr s) k = None \<or> lock_of (x_mgr s) k = Some x" and x: "x \<noteq> INVALID_XID"
    and col: "column_at schema name = Some i" and few: "length (columns schema) \<le> 32"
    and v: "v = VNull \<or> cast_to (number_lib L) (json_texts L) v (col_type (columns schema ! i)) = Ok v"
    and good: "good_row L schema ((row_values r)[i := v])" and plain: "get_check_constraints (registries (x_cat s)) (ts_oid schema) = []"
      "get_foreign_keys (registries (x_cat s)) (ts_oid schema) = []" "x_indexes s = []"
      "Option.bind (get_unique_constraints (registries (x_cat s)) (ts_oid schema)) primary_key = None"
  shows "\<exists>s'. update_one L x schema [(name, ELiteral v)] [] (k, r) s = Some (Ok (1, []), s')
    \<and> (\<exists>j w. (j, w) \<in> seen x schema s' \<and> stored_value L schema i w = Some v)
    \<and> ((\<exists>j w. (j, w) \<in> seen x schema s \<and> j \<noteq> k \<and> v \<noteq> VNull \<and> clash L schema i v w) \<longrightarrow> \<not> unique_in L x schema i s')"
proof -
  let ?r = "r\<lparr>row_values := (row_values r)[i := v]\<rparr>" and ?oid = "ts_oid schema"
  have wf: "heap_wf (x_heaps s ?oid)" by (rule store_inv_wf [OF inv])
  have r: "?r = full_row schema ((row_values r)[i := v])" using t(2) by (auto simp: payload_row_def decode_row_def obind_eq_Ok Let_def)
  have old: "stored_at s ?oid k = Some u" using t(1) by (simp add: rows_iff [OF wf])
  have l: "length (row_payload (arrays L) ?r) \<le> 8140" using good r by (simp add: good_row_def)
  obtain j s' where w: "write_update x ?oid k (row_payload (arrays L) ?r) s = Some (Ok j, s')" "store_inv 0 s'" "stored_at s ?oid j = None"
    "stored_at s' ?oid = (stored_at s ?oid)(k \<mapsto> set_xmax u x, j \<mapsto> new_version x (row_payload (arrays L) ?r))"
    "same_txns (x_mgr s) (x_mgr s')" "x_indexes s' = x_indexes s"
    by (rule write_update_run [OF inv old free l])
  have steps: "assign L schema [(name, ELiteral v)] r s = Some (Ok ?r, s)" "check_checks L schema ?r s = Some (Ok (), s)"
    "check_foreign_keys L x schema (row_values ?r) s = Some (Ok (), s)" "cascade_update L x schema r ?r s = Some (Ok (), s)"
    using col v plain by (auto simp: xeval_def xcast_def slift_def sret_def check_checks_def check_foreign_keys_def cascade_update_def)
  have run: "update_one L x schema [(name, ELiteral v)] [] (k, r) s = Some (Ok (1, []), s')"
    unfolding update_one_def using steps w(1,6) plain(3) by (simp add: maintain_indexes_def returned_def sret_def)
  have i: "i < length (columns schema)" using col by (auto simp: position_def find_Some_iff)
  have wf': "heap_wf (x_heaps s' ?oid)" by (rule store_inv_wf [OF w(2)])
  have new: "(j, new_version x (row_payload (arrays L) ?r)) \<in> seen x schema s'"
    using w(4) x by (simp add: rows_iff [OF wf'] version_visible_def new_version_def)
  have val: "stored_value L schema i (new_version x (row_payload (arrays L) ?r)) = Some v"
    using stored_value_new [OF good few i, of x] r i good by (auto simp: good_row_def fits_def dest: list_all2_lengthD)
  have "(o_key, y) \<in> seen x schema s' \<and> o_key \<noteq> j" if "(o_key, y) \<in> seen x schema s" "o_key \<noteq> k" for o_key y
    using that w(3,4) by (auto simp: rows_iff [OF wf] rows_iff [OF wf'] same_txns_visible [OF w(5)])
  then show ?thesis using run new val by (auto simp: unique_in_def intro!: exI [of _ s']) blast
qed

definition strict_table :: table_schema where
  "strict_table = key_table\<lparr>columns := [(plain_column ''a'' TInt4)\<lparr>not_null := True\<rparr>]\<rparr>"

theorem update_checks_neither_null_nor_unique_witness:
  "\<exists>s s' k u. (k, u) \<in> seen 3 strict_table s \<and> stored_value plain_lib strict_table 0 u = Some (VInt4 5)
    \<and> update_one plain_lib 3 strict_table [(lit ''a'', ELiteral VNull)] [] (k, full_row strict_table [VInt4 5]) s = Some (Ok (1, []), s')
    \<and> (\<exists>j w. (j, w) \<in> seen 3 strict_table s' \<and> stored_value plain_lib strict_table 0 w = Some VNull)"
proof -
  let ?d = "row_payload no_arrays (full_row strict_table [VInt4 5])"
  have five: "good_row plain_lib strict_table [VInt4 5]" and null: "good_row plain_lib strict_table [VNull]"
    by (simp_all add: good_row_def fits_def storable_def strict_table_def key_table_def plain_column_def plain_lib_def no_arrays_def
        row_payload_def encode_row_def)
  have ar: "arrays plain_lib = no_arrays" and cols: "length (columns strict_table) = 1"
    by (simp_all add: plain_lib_def strict_table_def)
  have dec: "payload_row no_arrays ?d strict_table = Ok (full_row strict_table [VInt4 5])"
    using payload_roundtrip [of no_arrays "full_row strict_table [VInt4 5]" strict_table] five cols by (simp add: good_row_def ar)
  have "length ?d \<le> 8140" using five by (simp add: good_row_def ar)
  then show ?thesis
  proof (rule one_stored_row)
    fix w s1 s2 k
    assume s2: "heap_abs (snd s2) = [k \<mapsto> new_version 3 ?d]" "db_inv (Some []) 996 s2" "tm_locks (fst s2) = LockManager_new"
    let ?s = "\<lparr>x_mgr = fst s2, x_cat = fresh_catalog, x_heaps = (\<lambda>_. snd s2), x_indexes = [], x_undo = None\<rparr>"
    have inv: "store_inv 2 ?s" using db_inv_None [OF db_inv_mono [OF s2(2), of 2]] by (cases s2) (simp add: store_inv_def)
    have t: "(k, new_version 3 ?d) \<in> seen 3 strict_table ?s"
      using s2(1) store_inv_wf [OF inv, of 1000] rows_iff [of "snd s2" k "new_version 3 ?d" 3 "fst s2"]
      by (simp add: version_visible_def new_version_def)
    have td: "tdata (new_version 3 ?d) = ?d" by (simp add: new_version_def Tuple_new_def)
    have lock: "lock_of (x_mgr ?s) k = None" using s2(3) by (simp add: lock_of_def LockManager_new_def)
    have col: "column_at strict_table (lit ''a'') = Some 0" by (simp add: strict_table_def plain_column_def position_def)
    have "\<exists>s'. update_one plain_lib 3 strict_table [(lit ''a'', ELiteral VNull)] [] (k, full_row strict_table [VInt4 5]) ?s = Some (Ok (1, []), s')
      \<and> (\<exists>j w. (j, w) \<in> seen 3 strict_table s' \<and> stored_value plain_lib strict_table 0 w = Some VNull)
      \<and> ((\<exists>j w. (j, w) \<in> seen 3 strict_table ?s \<and> j \<noteq> k \<and> VNull \<noteq> VNull \<and> clash plain_lib strict_table 0 VNull w)
           \<longrightarrow> \<not> unique_in plain_lib 3 strict_table 0 s')"
      by (rule update_checks_neither_null_nor_unique [OF inv t])
        (use dec td lock col null cols in \<open>simp_all add: ar fresh_catalog_def new_catalog_def get_check_constraints_def
          get_foreign_keys_def get_unique_constraints_def\<close>)
    moreover have "stored_value plain_lib strict_table 0 (new_version 3 ?d) = Some (VInt4 5)"
      using dec td by (simp add: stored_value_def ar row_get_by_idx_def)
    ultimately show ?thesis using t by blast
  qed
qed

end
