(* ===== verification/Sql_Sort.thy ===== *)
theory Sql_Sort
  imports Sql_Algebra
begin

text \<open>
  \<^verbatim>\<open>ORDER BY\<close>: \<^verbatim>\<open>exec_sort\<close> of \<^verbatim>\<open>sql/src/executor.rs\<close>. \<^verbatim>\<open>sort_by\<close> is stable; up to
  twenty elements the standard library inserts one after the other from the left, which is the algorithm here. The
  closure keeps the first error of an evaluation and the sort is refused with it: that is the early return of the
  model. For comparisons that are a total preorder every stable sort gives the same list.
\<close>

section \<open>Operations\<close>

definition key_order :: "float_lib \<Rightarrow> bool \<Rightarrow> bool \<Rightarrow> val \<Rightarrow> val \<Rightarrow> ordering" where
  "key_order F asc nulls_first va vb =
     (let ord = (if va = VNull \<and> vb = VNull then OEqual
                 else if va = VNull then (if nulls_first then OLess else OGreater)
                 else if vb = VNull then (if nulls_first then OGreater else OLess)
                 else case val_cmp F va vb of Some c \<Rightarrow> c | None \<Rightarrow> OEqual) in
      if asc then ord else reverse ord)"

primrec sort_cmp :: "'p eval_env \<Rightarrow> 'p sort_key list \<Rightarrow> row \<Rightarrow> row \<Rightarrow> (sql_error, ordering) outcome" where
  "sort_cmp E [] a b = Ok OEqual"
| "sort_cmp E (k # ks) a b =
     obind (eval_expr E (sk_expr k) a) (\<lambda>va.
     obind (eval_expr E (sk_expr k) b) (\<lambda>vb.
     case key_order (floats E) (sk_ascending k) (sk_nulls_first k) va vb of
       OEqual \<Rightarrow> sort_cmp E ks a b | c \<Rightarrow> Ok c))"

text \<open>The sorted part is kept with its last element in front.\<close>

primrec insert_row :: "('a \<Rightarrow> 'a \<Rightarrow> ('e, ordering) outcome) \<Rightarrow> 'a \<Rightarrow> 'a list \<Rightarrow> ('e, 'a list) outcome" where
  "insert_row c x [] = Ok [x]"
| "insert_row c x (y # ys) =
     obind (c x y) (\<lambda>ord. if ord = OLess then obind (insert_row c x ys) (\<lambda>zs. Ok (y # zs)) else Ok (x # y # ys))"

primrec sort_loop :: "('a \<Rightarrow> 'a \<Rightarrow> ('e, ordering) outcome) \<Rightarrow> 'a list \<Rightarrow> 'a list \<Rightarrow> ('e, 'a list) outcome" where
  "sort_loop c done_rev [] = Ok done_rev"
| "sort_loop c done_rev (x # xs) = obind (insert_row c x done_rev) (\<lambda>ys. sort_loop c ys xs)"

definition exec_sort :: "'p eval_env \<Rightarrow> row list \<Rightarrow> 'p sort_key list \<Rightarrow> (sql_error, row list) outcome" where
  "exec_sort E rs keys = obind (sort_loop (sort_cmp E keys) [] rs) (\<lambda>ys. Ok (rev ys))"

section \<open>Sorting by a total preorder\<close>

lemma reverse_simps [simp]: "reverse (reverse c) = c" "reverse c = OEqual \<longleftrightarrow> c = OEqual"
  "reverse c = OLess \<longleftrightarrow> c = OGreater" "reverse c = OGreater \<longleftrightarrow> c = OLess"
  by (cases c; simp)+

text \<open>What a comparison promises on the elements it is used for.\<close>

locale preorder_cmp =
  fixes A :: "'a set" and c :: "'a \<Rightarrow> 'a \<Rightarrow> ordering"
  assumes anti: "x \<in> A \<Longrightarrow> y \<in> A \<Longrightarrow> c y x = reverse (c x y)"
    and trans: "x \<in> A \<Longrightarrow> y \<in> A \<Longrightarrow> z \<in> A \<Longrightarrow> c x y \<noteq> OGreater \<Longrightarrow> c y z \<noteq> OGreater \<Longrightarrow> c x z \<noteq> OGreater"
begin

definition ins :: "'a \<Rightarrow> 'a list \<Rightarrow> 'a list" where
  "ins x ys = takeWhile (\<lambda>y. c x y = OLess) ys @ x # dropWhile (\<lambda>y. c x y = OLess) ys"

lemma eq_trans: "x \<in> A \<Longrightarrow> y \<in> A \<Longrightarrow> z \<in> A \<Longrightarrow> c x y = OEqual \<Longrightarrow> c x z = OEqual \<Longrightarrow> c y z = OEqual"
  using trans [of y x z] trans [of z x y] anti [of x y] anti [of x z] anti [of y z] by (cases "c y z") auto

lemma ins_run:
  assumes "\<And>a b. a \<in> A \<Longrightarrow> b \<in> A \<Longrightarrow> f a b = Ok (c a b)" "x \<in> A" "set ys \<subseteq> A"
  shows "insert_row f x ys = Ok (ins x ys)"
  using assms(3) by (induction ys) (auto simp: ins_def assms(1,2))

lemma mset_ins [simp]: "mset (ins x ys) = add_mset x (mset ys)"
proof -
  have "mset (takeWhile P ys) + mset (dropWhile P ys) = mset ys" for P
    by (metis mset_append takeWhile_dropWhile_id)
  then show ?thesis by (simp add: ins_def)
qed

lemma set_ins [simp]: "set (ins x ys) = insert x (set ys)"
  using mset_ins [of x ys] by (metis set_mset_add_mset_insert set_mset_mset)

lemma sorted_ins:
  assumes "sorted_wrt (\<lambda>a b. c b a \<noteq> OGreater) ys" "x \<in> A" "set ys \<subseteq> A"
  shows "sorted_wrt (\<lambda>a b. c b a \<noteq> OGreater) (ins x ys)"
  using assms(1,3)
proof (induction ys)
  case (Cons y ys)
  have y: "y \<in> A" using Cons.prems(2) by simp
  show ?case
  proof (cases "c x y = OLess")
    case True
    then have "c z y \<noteq> OGreater" if "z \<in> insert x (set ys)" for z using that Cons.prems by auto
    moreover have "sorted_wrt (\<lambda>a b. c b a \<noteq> OGreater) (ins x ys)" using Cons by simp
    moreover have "ins x (y # ys) = y # ins x ys" using True by (simp add: ins_def)
    ultimately show ?thesis by simp
  next
    case False
    then have le: "c y x \<noteq> OGreater" using anti [OF assms(2) y] by simp
    have "c z x \<noteq> OGreater" if "z \<in> set ys" for z
      using that Cons.prems trans [of z y x] le y assms(2) by auto
    then show ?thesis using False le Cons.prems by (simp add: ins_def)
  qed
qed (simp add: ins_def)

lemma stable_ins:
  assumes "a \<in> A" "x \<in> A" "set ys \<subseteq> A"
  shows "filter (\<lambda>r. c a r = OEqual) (ins x ys) = filter (\<lambda>r. c a r = OEqual) (x # ys)"
proof (cases "c a x = OEqual")
  case True
  have "filter (\<lambda>r. c a r = OEqual) (takeWhile (\<lambda>y. c x y = OLess) ys) = []"
    using eq_trans [OF assms(1,2)] True assms(3) by (auto simp: filter_empty_conv dest!: set_takeWhileD)
  moreover from this have "filter (\<lambda>r. c a r = OEqual) (dropWhile (\<lambda>y. c x y = OLess) ys) = filter (\<lambda>r. c a r = OEqual) ys"
    by (metis append_Nil filter_append takeWhile_dropWhile_id)
  ultimately show ?thesis using True by (simp add: ins_def)
next
  case False
  have "filter P (takeWhile Q ys) @ filter P (dropWhile Q ys) = filter P ys" for P Q
    by (simp flip: filter_append)
  then show ?thesis using False by (simp add: ins_def)
qed

lemma sort_run:
  assumes "\<And>a b. a \<in> A \<Longrightarrow> b \<in> A \<Longrightarrow> f a b = Ok (c a b)" "set xs \<subseteq> A" "set ys \<subseteq> A"
    and "sorted_wrt (\<lambda>a b. c b a \<noteq> OGreater) ys"
  shows "\<exists>zs. sort_loop f ys xs = Ok zs \<and> mset zs = mset ys + mset xs \<and> sorted_wrt (\<lambda>a b. c b a \<noteq> OGreater) zs
    \<and> (\<forall>a \<in> A. filter (\<lambda>r. c a r = OEqual) zs = filter (\<lambda>r. c a r = OEqual) (rev xs @ ys))"
  using assms(2-4)
proof (induction xs arbitrary: ys)
  case (Cons x xs)
  have x: "x \<in> A" using Cons.prems(1) by simp
  have "sorted_wrt (\<lambda>a b. c b a \<noteq> OGreater) (ins x ys)" "set (ins x ys) \<subseteq> A"
    using sorted_ins [OF Cons.prems(3) x Cons.prems(2)] Cons.prems by simp_all
  then obtain zs where "sort_loop f (ins x ys) xs = Ok zs" "mset zs = mset (ins x ys) + mset xs"
    "sorted_wrt (\<lambda>a b. c b a \<noteq> OGreater) zs"
    "\<forall>a \<in> A. filter (\<lambda>r. c a r = OEqual) zs = filter (\<lambda>r. c a r = OEqual) (rev xs @ ins x ys)"
    using Cons.IH [of "ins x ys"] Cons.prems(1) by auto
  then show ?case using ins_run [OF assms(1) x Cons.prems(2)] stable_ins [OF _ x Cons.prems(2)] by simp
qed simp

end

text \<open>The lexicographic combination of two comparisons.\<close>

definition then_cmp :: "('a \<Rightarrow> 'a \<Rightarrow> ordering) \<Rightarrow> ('a \<Rightarrow> 'a \<Rightarrow> ordering) \<Rightarrow> 'a \<Rightarrow> 'a \<Rightarrow> ordering" where
  "then_cmp c d x y = (if c x y = OEqual then d x y else c x y)"

lemma preorder_then:
  assumes c: "preorder_cmp A c" and d: "preorder_cmp A d"
  shows "preorder_cmp A (then_cmp c d)"
proof (unfold_locales, goal_cases)
  case (1 x y)
  then show ?case using preorder_cmp.anti [OF c, of x y] preorder_cmp.anti [OF d, of x y] by (simp add: then_cmp_def)
next
  case (2 x y z)
  note c2 = preorder_cmp.trans [OF c] preorder_cmp.anti [OF c] preorder_cmp.eq_trans [OF c]
  have le: "c x y \<noteq> OGreater" "c y z \<noteq> OGreater" using 2 by (auto simp: then_cmp_def split: if_splits)
  then have xz: "c x z \<noteq> OGreater" using c2(1) [of x y z] 2 by simp
  show ?case
  proof (cases "c x z = OEqual")
    case True
    then have "c z x \<noteq> OGreater" using c2(2) [of x z] 2 by simp
    then have "c y x \<noteq> OGreater" "c z y \<noteq> OGreater" using c2(1) [of y z x] c2(1) [of z x y] le 2 by simp_all
    then have "c x y = OEqual" "c y z = OEqual" using c2(2) [of x y] c2(2) [of y z] le 2 by (cases "c x y"; cases "c y z"; simp)+
    then show ?thesis using 2 True preorder_cmp.trans [OF d, of x y z] by (simp add: then_cmp_def)
  qed (use xz in \<open>simp add: then_cmp_def\<close>)
qed

lemma preorder_pull:
  assumes "preorder_cmp A c" and "\<And>x. x \<in> B \<Longrightarrow> f x \<in> A"
  shows "preorder_cmp B (\<lambda>x y. c (f x) (f y))"
  using preorder_cmp.anti [OF assms(1)] preorder_cmp.trans [OF assms(1)] assms(2) by unfold_locales blast+

text \<open>The values of a column that can be ordered: nulls and sortable values of one type.\<close>

definition typed_values :: "data_type option \<Rightarrow> val set" where
  "typed_values t = {v. v = VNull \<or> sortable v \<and> value_type v = t}"

lemma cmp_simps [simp]: "cmp a b = OEqual \<longleftrightarrow> a = b" "cmp a b = OLess \<longleftrightarrow> a < b" "cmp a b = OGreater \<longleftrightarrow> b < a"
  and reverse_cmp: "reverse (cmp a b) = cmp b a" for a b :: "'a::linorder"
  by (auto simp: cmp_def)

lemma key_order_values:
  assumes "v \<in> typed_values t" "w \<in> typed_values t" "v \<noteq> VNull" "w \<noteq> VNull"
  shows "key_order F asc nulls_first v w =
    (if asc then cmp (encode_sort_key F v) (encode_sort_key F w) else cmp (encode_sort_key F w) (encode_sort_key F v))"
  using assms sort_key_order [of v w F] by (auto simp: typed_values_def key_order_def reverse_cmp)

lemma key_order_null:
  "key_order F asc nulls_first VNull VNull = OEqual"
  "v \<noteq> VNull \<Longrightarrow> key_order F asc nulls_first VNull v = (if asc = nulls_first then OLess else OGreater)"
  "v \<noteq> VNull \<Longrightarrow> key_order F asc nulls_first v VNull = (if asc = nulls_first then OGreater else OLess)"
  by (auto simp: key_order_def)

interpretation column_order: preorder_cmp "typed_values t" "key_order F asc nulls_first" for t F asc nulls_first
proof (unfold_locales, goal_cases)
  case (1 x y)
  then show ?case
    by (cases "x = VNull"; cases "y = VNull") (simp_all add: key_order_null key_order_values reverse_cmp)
next
  case (2 x y z)
  then show ?case
    by (cases "x = VNull"; cases "y = VNull"; cases "z = VNull") (auto simp: key_order_null key_order_values split: if_splits)
qed

section \<open>Properties\<close>

text \<open>The rows on which every key evaluates, to a value of the type \<open>ty\<close> gives the key.\<close>

definition orderable :: "'p eval_env \<Rightarrow> ('p sort_key \<Rightarrow> data_type option) \<Rightarrow> 'p sort_key list \<Rightarrow> row \<Rightarrow> bool" where
  "orderable E ty keys r \<longleftrightarrow>
     list_all (\<lambda>k. case eval_expr E (sk_expr k) r of Ok v \<Rightarrow> v = VNull \<or> sortable v \<and> value_type v = ty k | _ \<Rightarrow> False) keys"

definition key_value :: "'p eval_env \<Rightarrow> 'p sort_key \<Rightarrow> row \<Rightarrow> val" where
  "key_value E k r = (case eval_expr E (sk_expr k) r of Ok v \<Rightarrow> v | _ \<Rightarrow> VNull)"

primrec row_order :: "'p eval_env \<Rightarrow> 'p sort_key list \<Rightarrow> row \<Rightarrow> row \<Rightarrow> ordering" where
  "row_order E [] = (\<lambda>a b. OEqual)"
| "row_order E (k # ks) = then_cmp
     (\<lambda>a b. key_order (floats E) (sk_ascending k) (sk_nulls_first k) (key_value E k a) (key_value E k b)) (row_order E ks)"

lemma row_order_preorder: "preorder_cmp {r. orderable E ty keys r} (row_order E keys)"
proof (induction keys)
  case Nil
  show ?case by unfold_locales simp_all
next
  case (Cons k ks)
  have "preorder_cmp {r. orderable E ty (k # ks) r}
      (\<lambda>a b. key_order (floats E) (sk_ascending k) (sk_nulls_first k) (key_value E k a) (key_value E k b))"
    by (rule preorder_pull [OF column_order.preorder_cmp_axioms [of "ty k"]])
      (auto simp: orderable_def key_value_def typed_values_def split: outcome.splits)
  moreover have "preorder_cmp {r. orderable E ty (k # ks) r} (row_order E ks)"
    using preorder_pull [OF Cons.IH, of "{r. orderable E ty (k # ks) r}" "\<lambda>r. r"] by (simp add: orderable_def)
  ultimately show ?case unfolding row_order.simps by (rule preorder_then)
qed

lemma sort_cmp_run:
  "orderable E ty keys a \<Longrightarrow> orderable E ty keys b \<Longrightarrow> sort_cmp E keys a b = Ok (row_order E keys a b)"
  by (induction keys) (auto simp: orderable_def key_value_def then_cmp_def split: outcome.splits ordering.splits)

lemma exec_sort_run:
  assumes "\<And>r. r \<in> set rs \<Longrightarrow> orderable E ty keys r"
  shows "\<exists>res. exec_sort E rs keys = Ok res \<and> mset res = mset rs
    \<and> sorted_wrt (\<lambda>a b. row_order E keys a b \<noteq> OGreater) res
    \<and> (\<forall>a. orderable E ty keys a \<longrightarrow>
        filter (\<lambda>r. row_order E keys a r = OEqual) res = filter (\<lambda>r. row_order E keys a r = OEqual) rs)"
proof -
  obtain zs where z: "sort_loop (sort_cmp E keys) [] rs = Ok zs" "mset zs = mset rs"
    "sorted_wrt (\<lambda>a b. row_order E keys b a \<noteq> OGreater) zs"
    "\<forall>a. orderable E ty keys a \<longrightarrow> filter (\<lambda>r. row_order E keys a r = OEqual) zs = filter (\<lambda>r. row_order E keys a r = OEqual) (rev rs)"
    using preorder_cmp.sort_run [OF row_order_preorder, of E ty keys "sort_cmp E keys" rs "[]"] assms sort_cmp_run [of E ty keys]
    by (auto simp: subset_iff)
  show ?thesis
    by (rule exI [of _ "rev zs"]) (use z in \<open>simp add: exec_sort_def sorted_wrt_rev flip: rev_filter\<close>)
qed

text \<open>
  The order a query asks for. Values of one type have their natural order: false below true, numbers, dates and timestamps
  by their value, texts, bytes and identifiers by their bytes. A key puts smaller values first, or larger ones when it is
  descending, and the nulls in front of the values exactly when it is ascending with nulls first or descending with nulls
  last. A row comes before another when the first key on which they differ says so.
\<close>

definition value_less :: "val \<Rightarrow> val \<Rightarrow> bool" where
  "value_less v w \<longleftrightarrow>
     (case v of
        VBool a \<Rightarrow> (case w of VBool b \<Rightarrow> \<not> a \<and> b | _ \<Rightarrow> False)
      | VInt4 a \<Rightarrow> (case w of VInt4 b \<Rightarrow> sint a < sint b | _ \<Rightarrow> False)
      | VInt8 a \<Rightarrow> (case w of VInt8 b \<Rightarrow> sint a < sint b | _ \<Rightarrow> False)
      | VFloat8 a \<Rightarrow> (case w of VFloat8 b \<Rightarrow> f64_rank a < f64_rank b | _ \<Rightarrow> False)
      | VText a \<Rightarrow> (case w of VText b \<Rightarrow> a < b | _ \<Rightarrow> False)
      | VBytes a \<Rightarrow> (case w of VBytes b \<Rightarrow> a < b | _ \<Rightarrow> False)
      | VDate a \<Rightarrow> (case w of VDate b \<Rightarrow> sint a < sint b | _ \<Rightarrow> False)
      | VTimestamp a \<Rightarrow> (case w of VTimestamp b \<Rightarrow> sint a < sint b | _ \<Rightarrow> False)
      | VUuid a \<Rightarrow> (case w of VUuid b \<Rightarrow> a < b | _ \<Rightarrow> False)
      | _ \<Rightarrow> False)"

definition key_before :: "bool \<Rightarrow> bool \<Rightarrow> val \<Rightarrow> val \<Rightarrow> bool" where
  "key_before asc nulls_first v w \<longleftrightarrow>
     (if v = VNull then w \<noteq> VNull \<and> asc = nulls_first
      else if w = VNull then asc \<noteq> nulls_first
      else if asc then value_less v w else value_less w v)"

definition row_before :: "'p eval_env \<Rightarrow> 'p sort_key list \<Rightarrow> row \<Rightarrow> row \<Rightarrow> bool" where
  "row_before E keys a b \<longleftrightarrow> (\<exists>i < length keys.
     (\<forall>j < i. key_value E (keys ! j) a = key_value E (keys ! j) b)
     \<and> key_before (sk_ascending (keys ! i)) (sk_nulls_first (keys ! i)) (key_value E (keys ! i) a) (key_value E (keys ! i) b))"

lemma val_cmp_less:
  assumes "sortable v" "sortable w" "value_type v = value_type w" "v \<noteq> VNull" "w \<noteq> VNull"
  shows "val_cmp F v w = Some OLess \<longleftrightarrow> value_less v w" and "val_cmp F v w = Some OGreater \<longleftrightarrow> value_less w v"
    and "val_cmp F v w = Some OEqual \<longleftrightarrow> v = w"
proof -
  have "f = g" if "f64_rank f = f64_rank g" "sortable (VFloat8 f)" "sortable (VFloat8 g)" for f g
    using rank_inj that by auto
  then show "val_cmp F v w = Some OLess \<longleftrightarrow> value_less v w" "val_cmp F v w = Some OGreater \<longleftrightarrow> value_less w v"
      "val_cmp F v w = Some OEqual \<longleftrightarrow> v = w"
    using assms by (cases v; cases w; force simp: value_less_def val_cmp.simps f64_cmp_def less_bool_def dest: sint_inj)+
qed

lemma key_order_before:
  assumes "v \<in> typed_values t" "w \<in> typed_values t"
  shows "key_order F asc nulls_first v w = OLess \<longleftrightarrow> key_before asc nulls_first v w"
    and "key_order F asc nulls_first v w = OEqual \<longleftrightarrow> v = w"
proof -
  have "(key_order F asc nulls_first v w = OLess \<longleftrightarrow> key_before asc nulls_first v w) \<and> (key_order F asc nulls_first v w = OEqual \<longleftrightarrow> v = w)"
  proof (cases "v = VNull \<or> w = VNull")
    case True
    then show ?thesis by (cases "v = VNull"; cases "w = VNull") (auto simp: key_order_null key_before_def)
  next
    case False
    then have "sortable v" "sortable w" "value_type v = value_type w" using assms by (auto simp: typed_values_def)
    note vc = val_cmp_less [OF this, of F] sort_key_order [OF this(1,2), of F] this(3)
    obtain c where c: "val_cmp F v w = Some c" using vc(4,5) by blast
    have k: "key_order F asc nulls_first v w = (if asc then c else reverse c)" using c False by (simp add: key_order_def)
    show ?thesis unfolding k using vc(1-3) c False by (cases c) (auto simp: key_before_def)
  qed
  then show "key_order F asc nulls_first v w = OLess \<longleftrightarrow> key_before asc nulls_first v w" "key_order F asc nulls_first v w = OEqual \<longleftrightarrow> v = w"
    by simp_all
qed

lemma row_before_Cons:
  "row_before E (k # ks) a b \<longleftrightarrow> key_before (sk_ascending k) (sk_nulls_first k) (key_value E k a) (key_value E k b)
     \<or> key_value E k a = key_value E k b \<and> row_before E ks a b"
proof
  assume "row_before E (k # ks) a b"
  then obtain i where i: "i < Suc (length ks)" "\<forall>j < i. key_value E ((k # ks) ! j) a = key_value E ((k # ks) ! j) b"
    "key_before (sk_ascending ((k # ks) ! i)) (sk_nulls_first ((k # ks) ! i)) (key_value E ((k # ks) ! i) a) (key_value E ((k # ks) ! i) b)"
    by (auto simp: row_before_def)
  show "key_before (sk_ascending k) (sk_nulls_first k) (key_value E k a) (key_value E k b)
     \<or> key_value E k a = key_value E k b \<and> row_before E ks a b"
  proof (cases i)
    case (Suc n)
    have "\<forall>j < n. key_value E (ks ! j) a = key_value E (ks ! j) b" using i(2) Suc by (metis Suc_less_eq nth_Cons_Suc)
    then show ?thesis using i Suc by (auto simp: row_before_def)
  qed (use i in simp)
next
  assume "key_before (sk_ascending k) (sk_nulls_first k) (key_value E k a) (key_value E k b)
     \<or> key_value E k a = key_value E k b \<and> row_before E ks a b"
  then show "row_before E (k # ks) a b"
  proof
    assume "key_value E k a = key_value E k b \<and> row_before E ks a b"
    then obtain i where "key_value E k a = key_value E k b" "i < length ks" "\<forall>j < i. key_value E (ks ! j) a = key_value E (ks ! j) b"
      "key_before (sk_ascending (ks ! i)) (sk_nulls_first (ks ! i)) (key_value E (ks ! i) a) (key_value E (ks ! i) b)"
      by (auto simp: row_before_def)
    then show ?thesis by (auto simp: row_before_def nth_Cons' intro!: exI [of _ "Suc i"])
  qed (auto simp: row_before_def intro!: exI [of _ 0])
qed

lemma row_order_before:
  assumes "orderable E ty keys a" "orderable E ty keys b"
  shows "row_order E keys a b = OLess \<longleftrightarrow> row_before E keys a b"
    and "row_order E keys a b = OEqual \<longleftrightarrow> (\<forall>k \<in> set keys. key_value E k a = key_value E k b)"
proof -
  have "(row_order E keys a b = OLess \<longleftrightarrow> row_before E keys a b)
    \<and> (row_order E keys a b = OEqual \<longleftrightarrow> (\<forall>k \<in> set keys. key_value E k a = key_value E k b))"
    using assms
  proof (induction keys)
    case (Cons k ks)
    have "key_value E k a \<in> typed_values (ty k)" "key_value E k b \<in> typed_values (ty k)"
      using Cons.prems by (auto simp: orderable_def key_value_def typed_values_def split: outcome.splits)
    note kb = key_order_before [OF this, of "floats E" "sk_ascending k" "sk_nulls_first k"]
    have irrefl: "\<not> key_before asc nf v v" for asc nf v by (cases v) (simp_all add: key_before_def value_less_def)
    show ?case using Cons kb by (auto simp: row_before_Cons then_cmp_def orderable_def irrefl)
  qed (simp add: row_before_def)
  then show "row_order E keys a b = OLess \<longleftrightarrow> row_before E keys a b"
    "row_order E keys a b = OEqual \<longleftrightarrow> (\<forall>k \<in> set keys. key_value E k a = key_value E k b)" by simp_all
qed

text \<open>
  \<^bold>\<open>C27.\<close> When every key evaluates on every row to a null or to a sortable value of one type, sorting succeeds: the result
  holds the same rows, no row stands behind one it comes before in the lexicographic order of the keys, each ascending or
  descending by the order of its type, and rows with equal keys keep their order. Under DESC the nulls stand at the end
  opposite to the one NULLS FIRST or LAST names (\<open>key_before\<close>), because the code reverses their place too.
\<close>

theorem sort_is_stable:
  assumes "\<forall>r \<in> set rs. orderable E ty keys r"
  shows "\<exists>res. exec_sort E rs keys = Ok res \<and> mset res = mset rs
    \<and> (\<forall>i j. i < j \<and> j < length res \<longrightarrow> \<not> row_before E keys (res ! j) (res ! i))
    \<and> (\<forall>a \<in> set rs. filter (\<lambda>r. \<forall>k \<in> set keys. key_value E k r = key_value E k a) res
        = filter (\<lambda>r. \<forall>k \<in> set keys. key_value E k r = key_value E k a) rs)"
proof -
  obtain res where res: "exec_sort E rs keys = Ok res" "mset res = mset rs"
    "sorted_wrt (\<lambda>a b. row_order E keys a b \<noteq> OGreater) res"
    "\<forall>a. orderable E ty keys a \<longrightarrow> filter (\<lambda>r. row_order E keys a r = OEqual) res = filter (\<lambda>r. row_order E keys a r = OEqual) rs"
    using exec_sort_run [of rs E ty keys] assms by blast
  have ok: "orderable E ty keys r" if "r \<in> set res" for r using res(2) assms that by (metis set_mset_mset)
  have "\<not> row_before E keys (res ! j) (res ! i)" if "i < j" "j < length res" for i j
  proof -
    have o: "orderable E ty keys (res ! i)" "orderable E ty keys (res ! j)" using ok that by simp_all
    have "row_order E keys (res ! i) (res ! j) \<noteq> OGreater" using sorted_wrt_nth_less [OF res(3)] that by simp
    then have "row_order E keys (res ! j) (res ! i) \<noteq> OLess"
      using preorder_cmp.anti [OF row_order_preorder, of "res ! i" E ty keys "res ! j"] o by simp
    then show ?thesis using row_order_before(1) [OF o(2,1)] by simp
  qed
  moreover have "filter (\<lambda>r. \<forall>k \<in> set keys. key_value E k r = key_value E k a) res
      = filter (\<lambda>r. \<forall>k \<in> set keys. key_value E k r = key_value E k a) rs" if "a \<in> set rs" for a
  proof -
    have "filter (\<lambda>r. \<forall>k \<in> set keys. key_value E k r = key_value E k a) xs = filter (\<lambda>r. row_order E keys a r = OEqual) xs"
      if "\<forall>r \<in> set xs. orderable E ty keys r" for xs
      using that row_order_before(2) [of E ty keys a] assms \<open>a \<in> set rs\<close> by (intro filter_cong) auto
    then show ?thesis using res(4) assms that ok by simp
  qed
  ultimately show ?thesis using res(1,2) by blast
qed

definition x_column :: "unit expr" where
  "x_column = EColumn None (lit ''x'')"

theorem sort_is_stable_witness:
  "\<exists>res. exec_sort bare_env (map (one_column ''x'') [VInt4 2, VNull, VInt4 1]) [SortKey x_column True False] = Ok res
    \<and> \<not> row_before bare_env [SortKey x_column True False] (res ! 2) (res ! 0) \<and> length res = 3"
proof -
  let ?rs = "map (one_column ''x'') [VInt4 2, VNull, VInt4 1]"
  have "list_all (orderable bare_env (\<lambda>_. Some TInt4) [SortKey x_column True False]) ?rs" by code_simp
  from sort_is_stable [OF this [unfolded list_all_iff]] obtain res where
    res: "exec_sort bare_env ?rs [SortKey x_column True False] = Ok res" "mset res = mset ?rs"
      "\<forall>i j. i < j \<and> j < length res \<longrightarrow> \<not> row_before bare_env [SortKey x_column True False] (res ! j) (res ! i)" by blast
  have "length res = 3" using res(2) by (metis length_map mset_eq_length numeral_3_eq_3 list.size(3) list.size(4) add_0 add_Suc_right add.right_neutral One_nat_def)
  then show ?thesis using res(1,3) by (intro exI [of _ res]) simp
qed

text \<open>
  Finding. A descending key turns the place of the nulls around as well: sorting in descending order with nulls
  first, which is also the default, delivers the nulls last.
\<close>

theorem descending_nulls_first_puts_nulls_last:
  assumes "\<forall>r \<in> set rs. orderable E ty [SortKey e False True] r"
  shows "\<exists>res. exec_sort E rs [SortKey e False True] = Ok res \<and> mset res = mset rs
    \<and> sorted_wrt (\<lambda>a b. eval_expr E e a = Ok VNull \<longrightarrow> eval_expr E e b = Ok VNull) res"
proof -
  let ?k = "SortKey e False True"
  obtain res where res: "exec_sort E rs [?k] = Ok res" "mset res = mset rs"
    "sorted_wrt (\<lambda>a b. row_order E [?k] a b \<noteq> OGreater) res"
    using exec_sort_run [of rs E ty "[?k]"] assms by blast
  have set: "set res = set rs" using res(2) by (metis set_mset_mset)
  have "eval_expr E e b = Ok VNull" if "a \<in> set rs" "b \<in> set rs" "row_order E [?k] a b \<noteq> OGreater" "eval_expr E e a = Ok VNull" for a b
    using that assms key_order_null(2) [of "key_value E ?k b" "floats E" False True]
    by (auto simp: then_cmp_def key_value_def orderable_def split: outcome.splits if_splits)
  then have "sorted_wrt (\<lambda>a b. eval_expr E e a = Ok VNull \<longrightarrow> eval_expr E e b = Ok VNull) res"
    by (intro sorted_wrt_mono_rel [OF _ res(3)]) (auto simp: set)
  then show ?thesis using res by blast
qed

theorem descending_nulls_first_puts_nulls_last_witness:
  "\<exists>res. exec_sort bare_env (map (one_column ''x'') [VNull, VInt4 2, VInt4 3]) [SortKey x_column False True] = Ok res
    \<and> sorted_wrt (\<lambda>a b. eval_expr bare_env x_column a = Ok VNull \<longrightarrow> eval_expr bare_env x_column b = Ok VNull) res"
proof -
  have "list_all (orderable bare_env (\<lambda>_. Some TInt4) [SortKey x_column False True]) (map (one_column ''x'') [VNull, VInt4 2, VInt4 3])"
    by code_simp
  from descending_nulls_first_puts_nulls_last [OF this [unfolded list_all_iff]] show ?thesis by blast
qed

end
