(* ===== verification/Sql_Group.thy ===== *)
theory Sql_Group
  imports Sql_Sort
begin

text \<open>
  \<^verbatim>\<open>GROUP BY\<close> and aggregate functions: \<^verbatim>\<open>compute_aggregates\<close>, \<^verbatim>\<open>exec_aggregate\<close>,
  \<^verbatim>\<open>exec_aggregate_grouping_sets\<close> and \<^verbatim>\<open>OrderableValue\<close> of \<^verbatim>\<open>sql/src/executor.rs\<close>. The hash
  tables compare two keys when their hashes meet: \<open>H\<close> says whether they do, given what is fed to the hasher, and is a
  parameter; equal input always meets.
\<close>

section \<open>Operations\<close>

type_synonym hash_input = "nat \<times> rstring list"

definition hash_input :: "float_lib \<Rightarrow> val \<Rightarrow> hash_input" where
  "hash_input F v =
     (case v of
        VNull \<Rightarrow> (0, [])
      | VBool b \<Rightarrow> (1, [[if b then 1 else 0]])
      | VInt4 i \<Rightarrow> (2, [u32_be i])
      | VInt8 i \<Rightarrow> (3, [u64_be i])
      | VFloat8 f \<Rightarrow> (4, [u64_be f])
      | VText s \<Rightarrow> (5, [s])
      | VBytes b \<Rightarrow> (6, [b])
      | VDate d \<Rightarrow> (7, [u32_be d])
      | VTimestamp t \<Rightarrow> (8, [u64_be t])
      | VNumeric s \<Rightarrow> (9, [s])
      | VUuid s \<Rightarrow> (9, [s])
      | VArray vs \<Rightarrow> (10, map (show_val F) vs)
      | VJson s \<Rightarrow> (11, [s]))"

definition same_key :: "float_lib \<Rightarrow> (hash_input list \<Rightarrow> hash_input list \<Rightarrow> bool) \<Rightarrow> val list \<Rightarrow> val list \<Rightarrow> bool" where
  "same_key F H vs ws \<longleftrightarrow>
     H (map (hash_input F) vs) (map (hash_input F) ws) \<and> list_all2 (\<lambda>v w. val_cmp F v w = Some OEqual) vs ws"

primrec ofold :: "('s \<Rightarrow> 'a \<Rightarrow> ('e, 's) outcome) \<Rightarrow> 's \<Rightarrow> 'a list \<Rightarrow> ('e, 's) outcome" where
  "ofold f s [] = Ok s"
| "ofold f s (x # xs) = obind (f s x) (\<lambda>s'. ofold f s' xs)"

text \<open>A loop over the rows that evaluates the argument of the aggregate on each.\<close>

definition agg_fold ::
  "'p eval_env \<Rightarrow> 'p expr \<Rightarrow> ('s \<Rightarrow> val \<Rightarrow> (sql_error, 's) outcome) \<Rightarrow> 's \<Rightarrow> row list \<Rightarrow> (sql_error, 's) outcome" where
  "agg_fold E e f s rs = ofold (\<lambda>s r. obind (eval_expr E e r) (f s)) s rs"

primrec count_values :: "'p eval_env \<Rightarrow> 'p expr \<Rightarrow> row list \<Rightarrow> (sql_error, nat) outcome" where
  "count_values E e [] = Ok 0"
| "count_values E e (r # rs) =
     (case eval_expr E e r of
        Ok v \<Rightarrow> obind (count_values E e rs) (\<lambda>n. Ok (if v = VNull then n else Suc n))
      | Err _ \<Rightarrow> count_values E e rs
      | Panic \<Rightarrow> Panic)"

definition collect_values :: "'p eval_env \<Rightarrow> 'p expr \<Rightarrow> (val \<Rightarrow> 'a option) \<Rightarrow> row list \<Rightarrow> (sql_error, 'a list) outcome" where
  "collect_values E e f rs =
     agg_fold E e (\<lambda>xs v. Ok (case f v of Some x \<Rightarrow> xs @ [x] | None \<Rightarrow> xs)) [] rs"

definition avg_number :: "val \<Rightarrow> u64 option" where
  "avg_number v = (case v of VInt4 i \<Rightarrow> Some (f64_of_int (sint i)) | VInt8 i \<Rightarrow> Some (f64_of_int (sint i)) | VFloat8 f \<Rightarrow> Some f | _ \<Rightarrow> None)"

definition non_null :: "val \<Rightarrow> val option" where
  "non_null v = (if v = VNull then None else Some v)"

definition best :: "float_lib \<Rightarrow> ordering \<Rightarrow> val option \<Rightarrow> val \<Rightarrow> (sql_error, val option) outcome" where
  "best F c acc v =
     Ok (if v = VNull then acc
         else case acc of None \<Rightarrow> Some v | Some a \<Rightarrow> Some (if val_cmp F v a = Some c then v else a))"

definition or_null :: "val option \<Rightarrow> val" where
  "or_null x = (case x of Some v \<Rightarrow> v | None \<Rightarrow> VNull)"

text \<open>The sum of the squared distances from the mean.\<close>

definition spread :: "float_lib \<Rightarrow> u64 list \<Rightarrow> u64" where
  "spread F fs = (let mean = f_div F (f_sum F fs) (f64_of_int (int (length fs))) in
     f_sum F (map (\<lambda>f. f_square F (f_sub F f mean)) fs))"

definition distinct_count :: "float_lib \<Rightarrow> (hash_input list \<Rightarrow> hash_input list \<Rightarrow> bool) \<Rightarrow> val list \<Rightarrow> val list" where
  "distinct_count F H vs =
     foldl (\<lambda>seen v. if list_ex (\<lambda>w. same_key F H [w] [v]) seen then seen else seen @ [v]) [] vs"

definition agg_value ::
  "'p eval_env \<Rightarrow> (hash_input list \<Rightarrow> hash_input list \<Rightarrow> bool) \<Rightarrow> row list \<Rightarrow> agg_func \<Rightarrow> 'p expr \<Rightarrow> (sql_error, val) outcome" where
  "agg_value E H rs func e =
     (case func of
        AggCount \<Rightarrow>
          if (case e of ELiteral v \<Rightarrow> v = VInt4 1 | _ \<Rightarrow> False) then Ok (VInt8 (of_nat (length rs)))
          else obind (count_values E e rs) (\<lambda>n. Ok (VInt8 (of_nat n)))
      | AggCountDistinct \<Rightarrow>
          obind (collect_values E e non_null rs) (\<lambda>vs. Ok (VInt8 (of_nat (length (distinct_count (floats E) H vs)))))
      | AggSum \<Rightarrow>
          obind (agg_fold E e (\<lambda>acc v. if v = VNull then Ok acc
              else case acc of None \<Rightarrow> Ok (Some v)
                | Some a \<Rightarrow> obind (eval_binary_op (floats E) (json_of E) a OpAdd v) (\<lambda>s. Ok (Some s))) None rs) (\<lambda>s. Ok (or_null s))
      | AggMin \<Rightarrow> obind (agg_fold E e (best (floats E) OLess) None rs) (\<lambda>s. Ok (or_null s))
      | AggMax \<Rightarrow> obind (agg_fold E e (best (floats E) OGreater) None rs) (\<lambda>s. Ok (or_null s))
      | AggAvg \<Rightarrow>
          obind (collect_values E e avg_number rs) (\<lambda>fs.
            Ok (if fs = [] then VNull
                else VFloat8 (f_div (floats E) (foldl (f_add (floats E)) 0 fs) (f64_of_int (int (length fs))))))
      | AggStddev \<Rightarrow>
          obind (collect_values E e avg_number rs) (\<lambda>fs.
            Ok (if length fs < 2 then VNull
                else VFloat8 (f_sqrt (floats E) (f_div (floats E) (spread (floats E) fs) (f64_of_int (int (length fs - 1)))))))
      | AggStddevPop \<Rightarrow>
          obind (collect_values E e avg_number rs) (\<lambda>fs.
            Ok (if fs = [] then VNull
                else VFloat8 (f_sqrt (floats E) (f_div (floats E) (spread (floats E) fs) (f64_of_int (int (length fs)))))))
      | AggVariance \<Rightarrow>
          obind (collect_values E e avg_number rs) (\<lambda>fs.
            Ok (if length fs < 2 then VNull
                else VFloat8 (f_div (floats E) (spread (floats E) fs) (f64_of_int (int (length fs - 1))))))
      | AggVarPop \<Rightarrow>
          obind (collect_values E e avg_number rs) (\<lambda>fs.
            Ok (if fs = [] then VNull
                else VFloat8 (f_div (floats E) (spread (floats E) fs) (f64_of_int (int (length fs))))))
      | AggStringAgg delimiter \<Rightarrow>
          obind (collect_values E e (\<lambda>v. map_option (show_val (floats E)) (non_null v)) rs) (\<lambda>parts.
            Ok (if parts = [] then VNull else VText (join_text delimiter parts)))
      | AggBoolAnd \<Rightarrow>
          obind (collect_values E e (\<lambda>v. case v of VBool b \<Rightarrow> Some b | _ \<Rightarrow> None) rs) (\<lambda>bs.
            Ok (if bs = [] then VNull else VBool (list_all (\<lambda>b. b) bs)))
      | AggBoolOr \<Rightarrow>
          obind (collect_values E e (\<lambda>v. case v of VBool b \<Rightarrow> Some b | _ \<Rightarrow> None) rs) (\<lambda>bs.
            Ok (if bs = [] then VNull else VBool (list_ex (\<lambda>b. b) bs)))
      | AggArrayAgg \<Rightarrow> obind (collect_values E e non_null rs) (\<lambda>vs. Ok (VArray vs)))"

definition agg_type :: "'p eval_env \<Rightarrow> row list \<Rightarrow> agg_func \<Rightarrow> 'p expr \<Rightarrow> data_type" where
  "agg_type E rs func e =
     (if func = AggCount \<or> func = AggCountDistinct then TInt8
      else if func = AggBoolAnd \<or> func = AggBoolOr then TBoolean
      else if func \<in> {AggAvg, AggStddev, AggStddevPop, AggVariance, AggVarPop} then TFloat8
      else if (case func of AggStringAgg _ \<Rightarrow> True | _ \<Rightarrow> False) then TText
      else if func = AggArrayAgg then TArray (infer_expr_type (to_lowercase E) e (first_schema rs))
      else infer_expr_type (to_lowercase E) e (first_schema rs))"

definition compute_aggregates ::
  "'p eval_env \<Rightarrow> (hash_input list \<Rightarrow> hash_input list \<Rightarrow> bool) \<Rightarrow> row list \<Rightarrow> (rstring \<times> agg_func \<times> 'p expr) list
    \<Rightarrow> (sql_error, row) outcome" where
  "compute_aggregates E H rs aggregates =
     obind (omap (\<lambda>(name, func, e). agg_value E H rs func e) aggregates) (\<lambda>vs.
       Ok \<lparr>row_values = vs, row_schema = map (\<lambda>(name, func, e). (name, agg_type E rs func e)) aggregates\<rparr>)"

text \<open>A row joins the first group whose key is the same, or starts a new one.\<close>

fun add_to_group :: "(val list \<Rightarrow> val list \<Rightarrow> bool) \<Rightarrow> val list \<Rightarrow> row \<Rightarrow> (val list \<times> row list) list \<Rightarrow> (val list \<times> row list) list" where
  "add_to_group same key r [] = [(key, [r])]"
| "add_to_group same key r ((k, rs) # gs) = (if same k key then (k, rs @ [r]) # gs else (k, rs) # add_to_group same key r gs)"

definition group_rows ::
  "'p eval_env \<Rightarrow> (hash_input list \<Rightarrow> hash_input list \<Rightarrow> bool) \<Rightarrow> 'p expr list \<Rightarrow> row list \<Rightarrow> (sql_error, (val list \<times> row list) list) outcome" where
  "group_rows E H group_by rs =
     ofold (\<lambda>gs r. obind (omap (\<lambda>e. eval_expr E e r) group_by) (\<lambda>key. Ok (add_to_group (same_key (floats E) H) key r gs))) [] rs"

definition group_name :: "nat \<Rightarrow> 'p expr \<Rightarrow> rstring" where
  "group_name i e = (case e of EColumn _ name \<Rightarrow> name | _ \<Rightarrow> lit ''group_'' @ fmt_int 0 (int i))"

definition group_row :: "'p eval_env \<Rightarrow> 'p expr list \<Rightarrow> val list \<Rightarrow> row list \<Rightarrow> row \<Rightarrow> row" where
  "group_row E group_by key g agg_row =
     \<lparr>row_values = key @ row_values agg_row,
      row_schema = map (\<lambda>(i, e). (group_name i e, infer_expr_type (to_lowercase E) e (first_schema g))) (enumerate 0 group_by)
        @ row_schema agg_row\<rparr>"

definition exec_aggregate ::
  "'p eval_env \<Rightarrow> (hash_input list \<Rightarrow> hash_input list \<Rightarrow> bool) \<Rightarrow> row list \<Rightarrow> 'p expr list \<Rightarrow> (rstring \<times> agg_func \<times> 'p expr) list
    \<Rightarrow> 'p expr option \<Rightarrow> (sql_error, row list) outcome" where
  "exec_aggregate E H rs group_by aggregates having =
     obind (if group_by = [] then obind (compute_aggregates E H rs aggregates) (\<lambda>r. Ok [r])
            else obind (group_rows E H group_by rs)
              (omap (\<lambda>(key, g). obind (compute_aggregates E H g aggregates) (\<lambda>a. Ok (group_row E group_by key g a))))) (\<lambda>res.
     case having of Some pred \<Rightarrow> exec_filter E res pred | None \<Rightarrow> Ok res)"

definition expand_set :: "'p expr list \<Rightarrow> nat \<Rightarrow> row \<Rightarrow> (sql_error, row) outcome" where
  "expand_set all_group_by set_len r =
     (if length (row_values r) < set_len \<or> length (row_schema r) < set_len then Panic
      else Ok \<lparr>row_values = map (\<lambda>i. if i < set_len then row_values r ! i else VNull) [0..<length all_group_by]
                 @ drop set_len (row_values r),
               row_schema = map (\<lambda>(i, e). (group_name i e, TText)) (enumerate 0 all_group_by) @ drop set_len (row_schema r)\<rparr>)"

definition exec_aggregate_grouping_sets ::
  "'p eval_env \<Rightarrow> (hash_input list \<Rightarrow> hash_input list \<Rightarrow> bool) \<Rightarrow> row list \<Rightarrow> 'p expr list \<Rightarrow> 'p expr list list
    \<Rightarrow> (rstring \<times> agg_func \<times> 'p expr) list \<Rightarrow> 'p expr option \<Rightarrow> (sql_error, row list) outcome" where
  "exec_aggregate_grouping_sets E H rs all_group_by grouping_sets aggregates having =
     ocollect (\<lambda>set. obind (exec_aggregate E H rs set aggregates having) (omap (expand_set all_group_by (length set)))) grouping_sets"

section \<open>Groups\<close>

lemma omap_map: "omap f (map g xs) = omap (f \<circ> g) xs"
  by (induction xs) simp_all

lemma ofold_append [simp]: "ofold f s (xs @ ys) = obind (ofold f s xs) (\<lambda>s'. ofold f s' ys)"
  by (induction xs arbitrary: s) simp_all

lemma group_rank_inj:
  assumes "sortable (VFloat8 a)" "sortable (VFloat8 b)" "f64_rank a = f64_rank b"
  shows "a = b"
proof -
  have n: "f64_rank x < 0" if "bit x 63" "x \<noteq> 0x8000000000000000" for x
    using that top_bit [of x] negative_rank [of x] by (simp add: word_uint_eq_iff)
  have p: "f64_rank x = uint x" "0 \<le> f64_rank x" if "\<not> bit x 63" for x using that by (simp_all add: f64_rank_def)
  have "bit a 63 \<longleftrightarrow> bit b 63" using assms n [of a] n [of b] p(2) [of a] p(2) [of b]
    by (cases "bit a 63"; cases "bit b 63") auto
  then have "uint a = uint b" using assms(3) p(1) negative_rank [of a] negative_rank [of b] by (cases "bit a 63") simp_all
  then show ?thesis by (simp add: word_uint_eq_iff)
qed

lemma typed_eq:
  assumes "v \<in> typed_values t" "w \<in> typed_values t"
  shows "val_cmp F v w = Some OEqual \<longleftrightarrow> v = w"
proof (cases "v = VNull \<or> w = VNull")
  case True
  then show ?thesis by (cases v; cases w) (simp_all add: val_cmp.simps)
next
  case False
  then have s: "sortable v" "sortable w" "value_type v = value_type w" using assms by (auto simp: typed_values_def)
  have int: "sint a = sint b \<longleftrightarrow> a = b" for a b :: "'w::len word" by (rule signed_word_eqI [THEN iffI]) simp_all
  have float: "f64_rank a = f64_rank b \<longleftrightarrow> a = b" if "sortable (VFloat8 a)" "sortable (VFloat8 b)" for a b
    using that group_rank_inj [of a b] by blast
  show ?thesis using s False by (cases v; cases w) (simp_all add: val_cmp.simps f64_cmp_def int float)
qed

text \<open>The keys of the groups, in the order in which they occur first.\<close>

definition first_keys :: "'k list \<Rightarrow> 'k list" where
  "first_keys ks = rev (remdups (rev ks))"

lemma first_keys_snoc: "first_keys (ks @ [k]) = (if k \<in> set ks then first_keys ks else first_keys ks @ [k])"
  by (simp add: first_keys_def)

lemma first_keys_set [simp]: "set (first_keys ks) = set ks" "distinct (first_keys ks)"
  by (simp_all add: first_keys_def)

lemma add_to_group_new: "\<forall>g \<in> set gs. \<not> same (fst g) key \<Longrightarrow> add_to_group same key r gs = gs @ [(key, [r])]"
  by (induction gs) auto

lemma add_to_group_old:
  assumes "\<forall>k \<in> set ks. same k key \<longleftrightarrow> k = key" "key \<in> set ks" "distinct ks"
  shows "add_to_group same key r (map (\<lambda>k. (k, f k)) ks) = map (\<lambda>k. (k, if k = key then f k @ [r] else f k)) ks"
  using assms by (induction ks) auto

definition group_key :: "'p eval_env \<Rightarrow> 'p expr list \<Rightarrow> row \<Rightarrow> val list" where
  "group_key E group_by r = map (\<lambda>e. case eval_expr E e r of Ok v \<Rightarrow> v | _ \<Rightarrow> VNull) group_by"

definition groupable :: "'p eval_env \<Rightarrow> ('p expr \<Rightarrow> data_type option) \<Rightarrow> 'p expr list \<Rightarrow> row \<Rightarrow> bool" where
  "groupable E ty group_by r \<longleftrightarrow>
     list_all (\<lambda>e. case eval_expr E e r of Ok v \<Rightarrow> v = VNull \<or> sortable v \<and> value_type v = ty e | _ \<Rightarrow> False) group_by"

lemma groupable_key:
  assumes "groupable E ty group_by r"
  shows "omap (\<lambda>e. eval_expr E e r) group_by = Ok (group_key E group_by r)"
    and "list_all2 (\<lambda>v e. v \<in> typed_values (ty e)) (group_key E group_by r) group_by"
  using assms by (induction group_by)
    (auto simp: groupable_def group_key_def typed_values_def split: outcome.splits)

lemma same_key_eq:
  assumes "\<And>k. H k k" "list_all2 (\<lambda>v e. v \<in> typed_values (ty e)) vs es" "list_all2 (\<lambda>v e. v \<in> typed_values (ty e)) ws es"
  shows "same_key F H vs ws \<longleftrightarrow> vs = ws"
proof -
  have "list_all2 (\<lambda>v w. val_cmp F v w = Some OEqual) vs ws \<longleftrightarrow> vs = ws"
    using assms(2,3)
  proof (induction es arbitrary: vs ws rule: list.induct)
    case (Cons e es)
    then show ?case using typed_eq [of _ "ty e"] by (cases vs; cases ws) fastforce+
  qed simp
  then show ?thesis using assms(1) by (auto simp: same_key_def)
qed

lemma group_rows_run:
  assumes "\<And>k. H k k" "\<And>r. r \<in> set rs \<Longrightarrow> groupable E ty group_by r"
  shows "group_rows E H group_by rs = Ok (map (\<lambda>k. (k, filter (\<lambda>r. group_key E group_by r = k) rs)) (first_keys (map (group_key E group_by) rs)))"
  using assms(2)
proof (induction rs rule: rev_induct)
  case (snoc r rs)
  let ?K = "group_key E group_by"
  have same: "same_key (floats E) H (?K a) (?K b) \<longleftrightarrow> ?K a = ?K b" if "a \<in> set (rs @ [r])" "b \<in> set (rs @ [r])" for a b
    by (rule same_key_eq [OF assms(1) groupable_key(2) [OF snoc.prems] groupable_key(2) [OF snoc.prems]]) (use that in auto)
  have "group_rows E H group_by (rs @ [r]) = Ok (add_to_group (same_key (floats E) H) (?K r) r
      (map (\<lambda>k. (k, filter (\<lambda>r. ?K r = k) rs)) (first_keys (map ?K rs))))"
    using snoc groupable_key(1) [OF snoc.prems, of r] by (simp add: group_rows_def)
  also have "\<dots> = Ok (map (\<lambda>k. (k, filter (\<lambda>r. ?K r = k) (rs @ [r]))) (first_keys (map ?K (rs @ [r]))))"
  proof (cases "?K r \<in> ?K ` set rs")
    case True
    have "\<forall>k \<in> set (first_keys (map ?K rs)). same_key (floats E) H k (?K r) \<longleftrightarrow> k = ?K r" using same by auto
    then show ?thesis
      using True add_to_group_old [of "first_keys (map ?K rs)" "same_key (floats E) H" "?K r" r "\<lambda>k. filter (\<lambda>r. ?K r = k) rs"]
      by (auto simp: first_keys_snoc)
  next
    case False
    then have "filter (\<lambda>a. ?K a = ?K r) rs = []" unfolding filter_empty_conv by (metis imageI)
    moreover have "\<forall>g \<in> set (map (\<lambda>k. (k, filter (\<lambda>r. ?K r = k) rs)) (first_keys (map ?K rs))). \<not> same_key (floats E) H (fst g) (?K r)"
      using same False by (force simp: image_iff)
    ultimately show ?thesis using False by (auto simp: first_keys_snoc add_to_group_new)
  qed
  finally show ?case .
qed (simp add: group_rows_def first_keys_def)

text \<open>
  \<^bold>\<open>C28.\<close> When the keys evaluate on every row to a null or a sortable value of one type, grouping makes one group per key, in
  the order of the first occurrence, of exactly the rows with this key in their order; nulls are one key.
\<close>

theorem group_by_partitions_the_rows:
  assumes "\<forall>k. H k k" "group_by \<noteq> []" "\<forall>r \<in> set rs. groupable E ty group_by r"
  shows "exec_aggregate E H rs group_by aggregates having =
    obind (omap (\<lambda>key. let g = filter (\<lambda>r. group_key E group_by r = key) rs in
        obind (compute_aggregates E H g aggregates) (\<lambda>a. Ok (group_row E group_by key g a)))
      (first_keys (map (group_key E group_by) rs))) (\<lambda>res.
    case having of Some pred \<Rightarrow> exec_filter E res pred | None \<Rightarrow> Ok res)"
  using group_rows_run [of H rs E ty group_by] assms by (simp add: exec_aggregate_def omap_map comp_def Let_def)

text \<open>
  Finding. Two texts of one NUMERIC value compare as equal and are hashed as different texts: whether they are one group is
  up to the hash function.
\<close>

theorem numeric_groups_depend_on_the_hash:
  assumes "f_parse F (lit ''1.0'') = Some 0x3FF0000000000000" and "f_parse F (lit ''1.00'') = Some 0x3FF0000000000000"
  shows "same_key F (\<lambda>_ _. True) [VNumeric (lit ''1.0'')] [VNumeric (lit ''1.00'')]
    \<and> \<not> same_key F (=) [VNumeric (lit ''1.0'')] [VNumeric (lit ''1.00'')]"
proof -
  have "f64_cmp 0x3FF0000000000000 0x3FF0000000000000 = Some OEqual" by code_simp
  then show ?thesis using assms by (simp add: same_key_def val_cmp.simps hash_input_def lit_def)
qed

definition two_columns :: "val \<Rightarrow> val \<Rightarrow> row" where
  "two_columns v w = \<lparr>row_values = [v, w], row_schema = [(lit ''a'', TInt4), (lit ''b'', TInt4)]\<rparr>"

abbreviation (input) "a_column \<equiv> EColumn None (lit ''a'')"
abbreviation (input) "b_column \<equiv> EColumn None (lit ''b'')"

theorem group_by_partitions_the_rows_witness:
  "exec_aggregate bare_env (\<lambda>_ _. True) [two_columns (VInt4 1) (VInt4 2), two_columns VNull (VInt4 3), two_columns (VInt4 1) (VInt4 4)]
       [a_column] [] None
     = Ok [group_row bare_env [a_column] [VInt4 1] [two_columns (VInt4 1) (VInt4 2), two_columns (VInt4 1) (VInt4 4)] \<lparr>row_values = [], row_schema = []\<rparr>,
           group_row bare_env [a_column] [VNull] [two_columns VNull (VInt4 3)] \<lparr>row_values = [], row_schema = []\<rparr>]"
proof -
  let ?rs = "[two_columns (VInt4 1) (VInt4 2), two_columns VNull (VInt4 3), two_columns (VInt4 1) (VInt4 4)]"
  have "list_all (groupable bare_env (\<lambda>_. Some TInt4) [a_column]) ?rs" by code_simp
  then have g: "\<forall>r \<in> set ?rs. groupable bare_env (\<lambda>_. Some TInt4) [a_column] r" by (simp only: list_all_iff)
  have "group_key bare_env [a_column] (two_columns v w) = [v]" for v w
    by (simp add: group_key_def two_columns_def eval_column_def row_get_def position_def row_get_by_idx_def)
  then show ?thesis
    using group_by_partitions_the_rows [of "\<lambda>_ _. True" "[a_column]" ?rs, OF _ _ g, of "[]" None]
    by (simp add: first_keys_def compute_aggregates_def Let_def)
qed

section \<open>Aggregates of integers\<close>

lemma agg_fold_values:
  "(\<And>r. r \<in> set rs \<Longrightarrow> eval_expr E e r = Ok (g r)) \<Longrightarrow> agg_fold E e f s rs = ofold f s (map g rs)"
  unfolding agg_fold_def by (induction rs arbitrary: s) simp_all

definition int_or_null :: "u32 option \<Rightarrow> val" where
  "int_or_null i = (case i of Some x \<Rightarrow> VInt4 x | None \<Rightarrow> VNull)"

lemma ofold_present:
  assumes "\<And>s. f s VNull = Ok s"
  shows "ofold f s (map (\<lambda>r. int_or_null (n r)) rs) = ofold (\<lambda>s i. f s (VInt4 i)) s (List.map_filter n rs)"
proof (induction rs arbitrary: s)
  case (Cons r rs)
  then show ?case using assms by (cases "n r") (simp_all add: int_or_null_def map_filter_simps)
qed (simp add: map_filter_simps)

lemma add_i32:
  "eval_binary_op F J (VInt4 a) OpAdd (VInt4 b) =
    (if checked 32 (sint a + sint b) = None then Err NumericOverflow else Ok (VInt4 (word_of_int (sint a + sint b))))"
  by (auto simp: eval_binary_op_def coerce_def checked_numeric_op_def ok_or_def checked_def split: if_splits)

lemma sum_fold:
  "ofold (\<lambda>acc i. case acc of None \<Rightarrow> Ok (Some (VInt4 i))
      | Some a \<Rightarrow> obind (eval_binary_op F J a OpAdd (VInt4 i)) (\<lambda>s. Ok (Some s))) (Some (VInt4 a)) is =
    (if \<forall>k \<le> length is. checked 32 (sint a + sum_list (map sint (take k is))) \<noteq> None
     then Ok (Some (VInt4 (word_of_int (sint a + sum_list (map sint is))))) else Err NumericOverflow)"
proof (induction "is" arbitrary: a)
  case Nil
  have "checked 32 (sint a) \<noteq> None" for a :: u32 using sint_ge [of a] sint_lt [of a] by (simp add: checked_def)
  then show ?case by simp
next
  case (Cons i "is")
  have all: "(\<forall>k \<le> length (i # is). P k) \<longleftrightarrow> P 0 \<and> (\<forall>k \<le> length is. P (Suc k))" for P
    by (auto simp: less_Suc_eq_0_disj le_Suc_eq less_Suc_eq_le [symmetric])
  have "checked 32 (sint a) \<noteq> None" using sint_ge [of a] sint_lt [of a] by (simp add: checked_def)
  show ?case
  proof (cases "checked 32 (sint a + sint i)")
    case None
    then show ?thesis by (auto simp: add_i32 all)
  next
    case (Some z)
    then have "sint (word_of_int (sint a + sint i) :: u32) = sint a + sint i" using checked_fits(1) by blast
    then show ?thesis using Cons.IH [of "word_of_int (sint a + sint i)"] Some \<open>checked 32 (sint a) \<noteq> None\<close>
      unfolding all by (simp add: add_i32 add.assoc)
  qed
qed

lemma best_fold:
  assumes "c = OLess \<or> c = OGreater"
  shows "\<exists>m \<in> insert a (set is). ofold (\<lambda>acc i. best F c acc (VInt4 i)) (Some (VInt4 a)) is = Ok (Some (VInt4 m))
    \<and> (\<forall>i \<in> insert a (set is). cmp (sint i) (sint m) \<noteq> c)"
proof (induction "is" arbitrary: a)
  case (Cons i "is")
  define b where "b = (if cmp (sint i) (sint a) = c then i else a)"
  have run: "ofold (\<lambda>acc i. best F c acc (VInt4 i)) (Some (VInt4 a)) (i # is) = ofold (\<lambda>acc i. best F c acc (VInt4 i)) (Some (VInt4 b)) is"
    by (simp add: best_def b_def val_cmp.simps)
  obtain m where m: "m \<in> insert b (set is)" "ofold (\<lambda>acc i. best F c acc (VInt4 i)) (Some (VInt4 b)) is = Ok (Some (VInt4 m))"
    "\<forall>i \<in> insert b (set is). cmp (sint i) (sint m) \<noteq> c"
    using Cons.IH by blast
  have "cmp (sint a) (sint m) \<noteq> c \<and> cmp (sint i) (sint m) \<noteq> c"
    using m(3) assms by (auto simp: b_def split: if_splits)
  then show ?case using m run by (intro bexI [of _ m]) (auto simp: b_def split: if_splits)
qed (use assms in \<open>auto simp: cmp_def\<close>)

lemma count_run:
  "(\<And>r. r \<in> set rs \<Longrightarrow> eval_expr E e r = Ok (int_or_null (n r))) \<Longrightarrow> count_values E e rs = Ok (length (List.map_filter n rs))"
proof (induction rs)
  case (Cons r rs)
  then show ?case by (cases "n r") (simp_all add: int_or_null_def map_filter_simps)
qed (simp add: map_filter_simps)

text \<open>
  \<^bold>\<open>C29.\<close> The aggregates of a column of integers and nulls: the count of the integers; their exact sum, or the overflow
  error when a partial sum leaves the 32 bits; the least and the greatest. Without integers all but the count are null.
\<close>

theorem integer_aggregates_are_exact:
  assumes "\<forall>r \<in> set rs. eval_expr E e r = Ok (int_or_null (n r))"
  defines "present \<equiv> List.map_filter n rs"
  shows "agg_value E H rs AggCount e = Ok (VInt8 (of_nat (length present)))
    \<and> agg_value E H rs AggSum e =
        (if present = [] then Ok VNull
         else if \<forall>k \<le> length present. checked 32 (sum_list (map sint (take k present))) \<noteq> None
         then Ok (VInt4 (word_of_int (sum_list (map sint present)))) else Err NumericOverflow)
    \<and> (if present = [] then agg_value E H rs AggMin e = Ok VNull \<and> agg_value E H rs AggMax e = Ok VNull
       else (\<exists>m \<in> set present. agg_value E H rs AggMin e = Ok (VInt4 m) \<and> (\<forall>i \<in> set present. sint m \<le> sint i))
         \<and> (\<exists>m \<in> set present. agg_value E H rs AggMax e = Ok (VInt4 m) \<and> (\<forall>i \<in> set present. sint i \<le> sint m)))"
proof -
  have fold: "agg_fold E e f s rs = ofold (\<lambda>s i. f s (VInt4 i)) s present" if "\<And>s. f s VNull = Ok s" for f s
    using agg_fold_values [of rs E e "\<lambda>r. int_or_null (n r)" f s] ofold_present [of f, OF that] assms by simp
  have count: "agg_value E H rs AggCount e = Ok (VInt8 (of_nat (length present)))"
  proof (cases "\<exists>v. e = ELiteral v \<and> v = VInt4 1")
    case True
    then have "n r = Some 1" if "r \<in> set rs" for r using assms(1) that by (auto simp: int_or_null_def split: option.splits)
    then have "length present = length rs" unfolding present_def by (induction rs) (simp_all add: map_filter_simps)
    then show ?thesis using True by (auto simp: agg_value_def)
  next
    case False
    then show ?thesis using count_run [of rs E e n] assms by (auto simp: agg_value_def split: expr.splits)
  qed
  show ?thesis
  proof (cases present)
    case Nil
    then show ?thesis using count by (simp add: agg_value_def fold best_def or_null_def)
  next
    case (Cons i "is")
    have all: "(\<forall>k \<le> length (i # is). P k) \<longleftrightarrow> P 0 \<and> (\<forall>k \<le> length is. P (Suc k))" for P
      by (auto simp: less_Suc_eq_0_disj le_Suc_eq less_Suc_eq_le [symmetric])
    have "agg_value E H rs AggSum e = (if \<forall>k \<le> length is. checked 32 (sint i + sum_list (map sint (take k is))) \<noteq> None
         then Ok (VInt4 (word_of_int (sum_list (map sint present)))) else Err NumericOverflow)"
      using sum_fold [of "floats E" "json_of E" i "is"] Cons by (simp add: agg_value_def fold or_null_def)
    moreover have "(\<forall>k \<le> length present. checked 32 (sum_list (map sint (take k present))) \<noteq> None)
        \<longleftrightarrow> (\<forall>k \<le> length is. checked 32 (sint i + sum_list (map sint (take k is))) \<noteq> None)"
      unfolding Cons all by (simp add: checked_def)
    moreover have "\<exists>m \<in> set present. agg_value E H rs AggMin e = Ok (VInt4 m) \<and> (\<forall>i \<in> set present. sint m \<le> sint i)"
      using best_fold [of OLess i "is" "floats E"] Cons by (auto simp: agg_value_def fold best_def or_null_def not_less)
    moreover have "\<exists>m \<in> set present. agg_value E H rs AggMax e = Ok (VInt4 m) \<and> (\<forall>i \<in> set present. sint i \<le> sint m)"
      using best_fold [of OGreater i "is" "floats E"] Cons by (auto simp: agg_value_def fold best_def or_null_def not_less)
    ultimately show ?thesis using count Cons by simp
  qed
qed

theorem integer_aggregates_are_exact_witness:
  "\<forall>H. agg_value bare_env H [two_columns (VInt4 0x7FFFFFFF) VNull, two_columns VNull VNull, two_columns (VInt4 1) VNull] AggSum a_column
     = Err NumericOverflow"
proof
  fix H
  let ?rs = "[two_columns (VInt4 0x7FFFFFFF) VNull, two_columns VNull VNull, two_columns (VInt4 1) VNull]"
  let ?n = "\<lambda>r. case hd (row_values r) of VInt4 i \<Rightarrow> Some i | _ \<Rightarrow> None"
  have "list_all (\<lambda>r. eval_expr bare_env a_column r = Ok (int_or_null (?n r))) ?rs" by code_simp
  then have "\<forall>r \<in> set ?rs. eval_expr bare_env a_column r = Ok (int_or_null (?n r))" by (simp only: list_all_iff)
  from integer_aggregates_are_exact [OF this, of H]
  show "agg_value bare_env H ?rs AggSum a_column = Err NumericOverflow"
    by (simp add: two_columns_def map_filter_simps checked_def) (auto intro!: exI [of _ 2] simp: numeral_2_eq_2)
qed

text \<open>
  Finding. A grouping set is padded by position: the values of the set stand in the first columns, whichever columns
  they belong to. Grouping by the second of two columns delivers its value in the first column and a null in the second.
\<close>

theorem grouping_sets_misplace_values:
  "exec_aggregate_grouping_sets bare_env H [two_columns v w] [a_column, b_column] [[b_column]] [] None
     = Ok [\<lparr>row_values = [w, VNull], row_schema = [(lit ''a'', TText), (lit ''b'', TText)]\<rparr>]"
proof -
  have "eval_expr bare_env b_column (two_columns v w) = Ok w"
    by (simp add: two_columns_def eval_column_def row_get_def position_def row_get_by_idx_def lit_def upt_rec)
  then show ?thesis
    by (simp add: exec_aggregate_grouping_sets_def ocollect_def exec_aggregate_def group_rows_def compute_aggregates_def
        group_row_def expand_set_def group_name_def enumerate_eq_zip upt_rec del: eval_expr.simps)
qed

end
