(* ===== verification/Sql_Window.thy ===== *)
theory Sql_Window
  imports Sql_Group Sql_Sort
begin

text \<open>
  Window functions: \<^verbatim>\<open>exec_window\<close> and \<^verbatim>\<open>apply_window_expr\<close> of \<^verbatim>\<open>sql/src/executor.rs\<close>. The rows are
  partitioned by their keys, each partition is sorted, and every row gets the value of the function at its place, in a
  new last column. Rows are named by their index, as in the code.
\<close>

section \<open>Operations\<close>

fun add_to_partition :: "(val list \<Rightarrow> val list \<Rightarrow> bool) \<Rightarrow> val list \<Rightarrow> nat \<Rightarrow> (val list \<times> nat list) list \<Rightarrow> (val list \<times> nat list) list" where
  "add_to_partition same key i [] = [(key, [i])]"
| "add_to_partition same key i ((k, js) # gs) =
     (if same k key then (k, js @ [i]) # gs else (k, js) # add_to_partition same key i gs)"

definition partition_rows ::
  "'p eval_env \<Rightarrow> (hash_input list \<Rightarrow> hash_input list \<Rightarrow> bool) \<Rightarrow> 'p expr list \<Rightarrow> row list \<Rightarrow> (sql_error, (val list \<times> nat list) list) outcome" where
  "partition_rows E H partition_by rs =
     ofold (\<lambda>gs i. obind (omap (\<lambda>e. eval_expr E e (rs ! i)) partition_by) (\<lambda>key.
       Ok (add_to_partition (same_key (floats E) H) key i gs))) [] [0..<length rs]"

text \<open>Nulls are the least values, whatever the key says of them.\<close>

definition window_keys :: "'p sort_key list \<Rightarrow> 'p sort_key list" where
  "window_keys keys = map (\<lambda>k. SortKey (sk_expr k) (sk_ascending k) True) keys"

definition sort_partition :: "'p eval_env \<Rightarrow> 'p sort_key list \<Rightarrow> row list \<Rightarrow> nat list \<Rightarrow> (sql_error, nat list) outcome" where
  "sort_partition E keys rs idx =
     (if keys = [] then Ok idx
      else obind (sort_loop (\<lambda>i j. sort_cmp E (window_keys keys) (rs ! i) (rs ! j)) [] idx) (\<lambda>ys. Ok (rev ys)))"

text \<open>\<^verbatim>\<open>RANK\<close> and \<^verbatim>\<open>DENSE_RANK\<close>, from the values of the keys in order.\<close>

primrec rank_loop :: "u64 \<Rightarrow> val list option \<Rightarrow> u64 \<Rightarrow> val list list \<Rightarrow> val list" where
  "rank_loop rank prev next_rank [] = []"
| "rank_loop rank prev next_rank (cur # rest) =
     (case prev of
        Some p \<Rightarrow>
          if vals_eq cur p then VInt8 rank # rank_loop rank prev (next_rank + 1) rest
          else VInt8 next_rank # rank_loop next_rank (Some cur) (next_rank + 1) rest
      | None \<Rightarrow> VInt8 rank # rank_loop rank (Some cur) (next_rank + 1) rest)"

primrec dense_rank_loop :: "u64 \<Rightarrow> val list option \<Rightarrow> val list list \<Rightarrow> val list" where
  "dense_rank_loop rank prev [] = []"
| "dense_rank_loop rank prev (cur # rest) =
     (case prev of
        Some p \<Rightarrow>
          if vals_eq cur p then VInt8 rank # dense_rank_loop rank prev rest
          else VInt8 (rank + 1) # dense_rank_loop (rank + 1) (Some cur) rest
      | None \<Rightarrow> VInt8 rank # dense_rank_loop rank (Some cur) rest)"

text \<open>The rows an aggregate at place \<open>pos\<close> is over: without frame and order the whole partition.\<close>

definition frame_rows :: "window_frame option \<Rightarrow> 'p sort_key list \<Rightarrow> row list \<Rightarrow> nat \<Rightarrow> row list" where
  "frame_rows frame order_by srt pos =
     (if frame = None \<and> order_by = [] then srt
      else case frame_range frame pos (length srt) of (a, b) \<Rightarrow> map (\<lambda>p. srt ! p) [a..<b])"

text \<open>The value of a row at a distance, or the default evaluated on the row itself.\<close>

definition neighbour :: "'p eval_env \<Rightarrow> 'p expr \<Rightarrow> 'p expr option \<Rightarrow> row list \<Rightarrow> nat \<Rightarrow> u64 \<Rightarrow> (sql_error, val) outcome" where
  "neighbour E e fallback srt pos target_pos =
     (if 0 \<le> sint target_pos \<and> nat (sint target_pos) < length srt then eval_expr E e (srt ! nat (sint target_pos))
      else case fallback of Some d \<Rightarrow> eval_expr E d (srt ! pos) | None \<Rightarrow> Ok VNull)"

definition nth_or_null :: "'p eval_env \<Rightarrow> 'p expr \<Rightarrow> row list \<Rightarrow> nat \<Rightarrow> (sql_error, val list) outcome" where
  "nth_or_null E e srt i =
     obind (if i < length srt then eval_expr E e (srt ! i) else Ok VNull) (\<lambda>v. Ok (replicate (length srt) v))"

text \<open>The values of the function for the rows of a partition, in their order. \<open>first\<close> is the first row of all.\<close>

definition window_values ::
  "'p eval_env \<Rightarrow> 'p window_function \<Rightarrow> 'p sort_key list \<Rightarrow> window_frame option \<Rightarrow> row \<Rightarrow> row list \<Rightarrow> (sql_error, val list) outcome" where
  "window_values E func order_by frame first srt =
     (let n = length srt; F = floats E;
          each = (\<lambda>f. omap f [0..<n]);
          agg = (\<lambda>a e. each (\<lambda>pos. agg_value E (\<lambda>_ _. True) (frame_rows frame order_by srt pos) a e));
          keys = omap (\<lambda>r. omap (\<lambda>k. eval_expr E (sk_expr k) r) order_by) srt in
      case func of
        WRowNumber \<Rightarrow> Ok (map (\<lambda>p. VInt8 (of_nat (p + 1))) [0..<n])
      | WRank \<Rightarrow> obind keys (\<lambda>vss. Ok (rank_loop 1 None 1 vss))
      | WDenseRank \<Rightarrow> obind keys (\<lambda>vss. Ok (dense_rank_loop 1 None vss))
      | WSum e \<Rightarrow> agg AggSum e
      | WAvg e \<Rightarrow> agg AggAvg e
      | WMin e \<Rightarrow> agg AggMin e
      | WMax e \<Rightarrow> agg AggMax e
      | WCount e \<Rightarrow> each (\<lambda>pos. obind (count_values E e (frame_rows frame order_by srt pos)) (\<lambda>k. Ok (VInt8 (of_nat k))))
      | WLead e offset fallback \<Rightarrow> each (\<lambda>pos. neighbour E e fallback srt pos (of_nat pos + offset))
      | WLag e offset fallback \<Rightarrow> each (\<lambda>pos. neighbour E e fallback srt pos (of_nat pos - offset))
      | WFirstValue e \<Rightarrow> nth_or_null E e srt 0
      | WLastValue e \<Rightarrow> nth_or_null E e srt (n - 1)
      | WNthValue e k \<Rightarrow> nth_or_null E e srt (nat (max 0 (sint (k - 1))))
      | WCumeDist \<Rightarrow> Ok (map (\<lambda>p. VFloat8 (f_div F (f64_of_int (int (p + 1))) (f64_of_int (int n)))) [0..<n])
      | WPercentRank \<Rightarrow>
          Ok (map (\<lambda>p. VFloat8 (if n \<le> 1 then 0 else f_div F (f64_of_int (int p)) (f64_of_int (int (n - 1))))) [0..<n])
      | WNtile e \<Rightarrow>
          obind (eval_expr E e first) (\<lambda>v.
          let buckets = (case v of VInt4 i \<Rightarrow> nat (max 1 (sint i)) | VInt8 i \<Rightarrow> nat (max 1 (sint i)) | _ \<Rightarrow> 1) in
          Ok (map (\<lambda>p. VInt8 (of_nat (unat (of_nat (p * buckets) :: u64) div n + 1))) [0..<n])))"

definition put_values :: "nat list \<Rightarrow> val list \<Rightarrow> val list \<Rightarrow> val list" where
  "put_values idx vs acc = foldl (\<lambda>a (i, v). a[i := v]) acc (zip idx vs)"

definition append_column :: "rstring \<Rightarrow> row \<Rightarrow> val \<Rightarrow> row" where
  "append_column name r v = \<lparr>row_values = row_values r @ [v], row_schema = row_schema r @ [(name, TInt8)]\<rparr>"

definition apply_window_expr ::
  "'p eval_env \<Rightarrow> (hash_input list \<Rightarrow> hash_input list \<Rightarrow> bool) \<Rightarrow> row list \<Rightarrow> 'p window_expr \<Rightarrow> (sql_error, row list) outcome" where
  "apply_window_expr E H rs we =
     (case we of WindowExpr name func partition_by order_by frame \<Rightarrow>
      obind (partition_rows E H partition_by rs) (\<lambda>gs.
      obind (ofold (\<lambda>acc (key, idx).
          obind (sort_partition E order_by rs idx) (\<lambda>srt.
          obind (window_values E func order_by frame (rs ! 0) (map (\<lambda>i. rs ! i) srt)) (\<lambda>vs.
          Ok (put_values srt vs acc)))) (replicate (length rs) VNull) gs) (\<lambda>vals.
      Ok (map (\<lambda>(r, v). append_column name r v) (zip rs vals)))))"

definition exec_window ::
  "'p eval_env \<Rightarrow> (hash_input list \<Rightarrow> hash_input list \<Rightarrow> bool) \<Rightarrow> row list \<Rightarrow> 'p window_expr list \<Rightarrow> (sql_error, row list) outcome" where
  "exec_window E H rs wes = (if rs = [] then Ok rs else ofold (apply_window_expr E H) rs wes)"

section \<open>Partitions\<close>

lemma frame_in_partition: "pos < n \<Longrightarrow> snd (frame_range frame pos n) \<le> n"
  by (auto simp: frame_range_def split: option.splits window_frame_bound.splits)

lemma add_to_partition_mset:
  "mset (concat (map snd (add_to_partition same key i gs))) = add_mset i (mset (concat (map snd gs)))"
  by (induction same key i gs rule: add_to_partition.induct) auto

lemma partition_mset:
  assumes "partition_rows E H partition_by rs = Ok gs"
  shows "mset (concat (map snd gs)) = mset [0..<length rs]"
proof -
  have "mset (concat (map snd gs')) = mset (concat (map snd gs)) + mset is"
    if "ofold (\<lambda>gs i. obind (omap (\<lambda>e. eval_expr E e (rs ! i)) partition_by) (\<lambda>key.
       Ok (add_to_partition (same_key (floats E) H) key i gs))) gs is = Ok gs'" for gs gs' "is"
    using that by (induction "is" arbitrary: gs) (fastforce simp: outcome_simps add_to_partition_mset)+
  from this [of "[]" "[0..<length rs]" gs] show ?thesis using assms by (simp add: partition_rows_def)
qed

lemma partition_facts:
  assumes "partition_rows E H partition_by rs = Ok gs"
  shows "distinct (concat (map snd gs))" and "set (concat (map snd gs)) = {..<length rs}"
proof -
  note m = partition_mset [OF assms]
  show "distinct (concat (map snd gs))" using mset_eq_imp_distinct_iff [OF m] by simp
  show "set (concat (map snd gs)) = {..<length rs}" using mset_eq_setD [OF m] by (simp only: set_upt atLeast0LessThan)
qed

text \<open>Values put at distinct places inside are found there, and nothing else changes.\<close>

lemma put_values_simps [simp]: "put_values [] vs acc = acc" "put_values (i # is) (v # vs) acc = put_values is vs (acc[i := v])"
  by (simp_all add: put_values_def)

lemma put_values_outside:
  "length vs = length idx \<Longrightarrow> length (put_values idx vs acc) = length acc \<and> (i \<notin> set idx \<longrightarrow> put_values idx vs acc ! i = acc ! i)"
proof (induction idx arbitrary: vs acc)
  case (Cons j js)
  then show ?case by (cases vs) auto
qed simp

lemma put_values_nth:
  assumes "distinct idx" and "length vs = length idx" and "set idx \<subseteq> {..<length acc}" and "p < length idx"
  shows "put_values idx vs acc ! (idx ! p) = vs ! p"
  using assms
proof (induction idx arbitrary: vs acc p)
  case (Cons j js)
  obtain v ws where vs: "vs = v # ws" using Cons.prems(2) by (cases vs) auto
  show ?case
  proof (cases p)
    case 0
    then show ?thesis using Cons.prems vs put_values_outside [of ws js "acc[j := v]" j] by simp
  next
    case (Suc q)
    then show ?thesis using Cons.IH [of ws "acc[j := v]" q] Cons.prems vs by simp
  qed
qed simp

text \<open>What the loop over the partitions leaves: in every partition the values computed for it, in its order.\<close>

lemma window_loop:
  assumes "ofold (\<lambda>acc (key, idx). obind (S idx) (\<lambda>srt. obind (W srt) (\<lambda>vs. Ok (put_values srt vs acc)))) acc gs = Ok vals"
    and "distinct (concat (map snd gs))" and "set (concat (map snd gs)) \<subseteq> {..<length acc}"
    and S: "\<And>idx srt. S idx = Ok srt \<Longrightarrow> mset srt = mset idx"
    and W: "\<And>srt vs. W srt = Ok vs \<Longrightarrow> length vs = length srt"
  shows "length vals = length acc \<and> (\<forall>i. i \<notin> set (concat (map snd gs)) \<longrightarrow> vals ! i = acc ! i)
    \<and> (\<forall>(key, idx) \<in> set gs. \<exists>srt vs. S idx = Ok srt \<and> W srt = Ok vs \<and> (\<forall>p < length srt. vals ! (srt ! p) = vs ! p))"
  using assms(1-3)
proof (induction gs arbitrary: acc)
  case Nil
  then show ?case by simp
next
  case (Cons g gs)
  obtain key idx where g: "g = (key, idx)" by (cases g)
  obtain srt vs where sw: "S idx = Ok srt" "W srt = Ok vs"
    and rest: "ofold (\<lambda>acc (key, idx). obind (S idx) (\<lambda>srt. obind (W srt) (\<lambda>vs. Ok (put_values srt vs acc)))) (put_values srt vs acc) gs = Ok vals"
    using Cons.prems(1) g by (auto simp: outcome_simps)
  have m: "set srt = set idx" "distinct srt \<longleftrightarrow> distinct idx" "length vs = length srt"
    using mset_eq_setD [OF S [OF sw(1)]] mset_eq_imp_distinct_iff [OF S [OF sw(1)]] W [OF sw(2)] by auto
  have out: "length (put_values srt vs acc) = length acc"
    "\<And>i. i \<notin> set srt \<Longrightarrow> put_values srt vs acc ! i = acc ! i" using put_values_outside [OF m(3)] by auto
  have IH: "length vals = length acc" "\<forall>i. i \<notin> set (concat (map snd gs)) \<longrightarrow> vals ! i = put_values srt vs acc ! i"
    "\<forall>(key, idx) \<in> set gs. \<exists>srt vs. S idx = Ok srt \<and> W srt = Ok vs \<and> (\<forall>p < length srt. vals ! (srt ! p) = vs ! p)"
    using Cons.IH [OF rest] Cons.prems(2,3) out(1) by auto
  have "vals ! (srt ! p) = vs ! p" if "p < length srt" for p
  proof -
    have "srt ! p \<in> set idx" using that m(1) nth_mem by blast
    then have "srt ! p \<notin> set (concat (map snd gs))" using Cons.prems(2) g by auto
    then show ?thesis using IH(2) put_values_nth [of srt vs acc p] that m Cons.prems(2,3) g by auto
  qed
  then show ?case using sw IH out(2) m(1) g by auto
qed

section \<open>Sorted partitions\<close>

lemma insert_row_mset: "insert_row c x ys = Ok zs \<Longrightarrow> mset zs = add_mset x (mset ys)"
  by (induction ys arbitrary: zs) (auto simp: outcome_simps split: if_splits)

lemma sort_loop_mset: "sort_loop c ys xs = Ok zs \<Longrightarrow> mset zs = mset ys + mset xs"
  by (induction xs arbitrary: ys) (auto simp: outcome_simps dest!: insert_row_mset)

lemma sort_partition_mset: "sort_partition E keys rs idx = Ok srt \<Longrightarrow> mset srt = mset idx"
  by (auto simp: sort_partition_def outcome_simps dest!: sort_loop_mset split: if_splits)

lemma sort_partition_run:
  assumes "\<And>i. i \<in> set idx \<Longrightarrow> orderable E ty (window_keys keys) (rs ! i)"
  shows "\<exists>srt. sort_partition E keys rs idx = Ok srt
    \<and> sorted_wrt (\<lambda>i j. sort_cmp E (window_keys keys) (rs ! i) (rs ! j) \<noteq> Ok OGreater) srt"
proof (cases "keys = []")
  case True
  then show ?thesis by (simp add: sort_partition_def window_keys_def sorted_wrt_iff_nth_less)
next
  case False
  let ?A = "{i. orderable E ty (window_keys keys) (rs ! i)}" and ?c = "\<lambda>i j. row_order E (window_keys keys) (rs ! i) (rs ! j)"
  have pre: "preorder_cmp ?A ?c" by (rule preorder_pull [OF row_order_preorder]) simp
  obtain zs where z: "sort_loop (\<lambda>i j. sort_cmp E (window_keys keys) (rs ! i) (rs ! j)) [] idx = Ok zs" "mset zs = mset idx"
    "sorted_wrt (\<lambda>a b. ?c b a \<noteq> OGreater) zs"
    using preorder_cmp.sort_run [OF pre, of "\<lambda>i j. sort_cmp E (window_keys keys) (rs ! i) (rs ! j)" idx "[]"] sort_cmp_run [of E ty] assms
    by (auto simp: subset_iff)
  have "sort_cmp E (window_keys keys) (rs ! i) (rs ! j) = Ok (?c i j)" if "i \<in> set zs" "j \<in> set zs" for i j
    using that assms sort_cmp_run mset_eq_setD [OF z(2)] by metis
  then have "sorted_wrt (\<lambda>i j. sort_cmp E (window_keys keys) (rs ! i) (rs ! j) \<noteq> Ok OGreater) (rev zs)"
    using sorted_wrt_mono_rel [OF _ z(3), of "\<lambda>a b. sort_cmp E (window_keys keys) (rs ! b) (rs ! a) \<noteq> Ok OGreater"]
    by (simp add: sorted_wrt_rev)
  then show ?thesis using z(1) False by (simp add: sort_partition_def)
qed

section \<open>Properties\<close>

lemma omap_length: "omap f xs = Ok ys \<Longrightarrow> length ys = length xs"
  by (induction xs arbitrary: ys) (auto simp: outcome_simps)

lemma rank_lengths [simp]: "length (rank_loop r prev n vss) = length vss" "length (dense_rank_loop r prev vss) = length vss"
  by (induction vss arbitrary: r prev n) (simp_all split: option.splits)

lemma window_values_length: "window_values E func order_by frame r srt = Ok vs \<Longrightarrow> length vs = length srt"
  by (cases func) (auto simp: window_values_def Let_def outcome_simps nth_or_null_def dest!: omap_length)

lemma apply_window_rows:
  assumes "apply_window_expr E H rs (WindowExpr name func partition_by order_by frame) = Ok out"
  shows "\<exists>gs vals. partition_rows E H partition_by rs = Ok gs \<and> length vals = length rs
    \<and> out = map (\<lambda>(r, v). append_column name r v) (zip rs vals)
    \<and> (\<forall>(key, idx) \<in> set gs. \<exists>srt vs. sort_partition E order_by rs idx = Ok srt
      \<and> window_values E func order_by frame (rs ! 0) (map (\<lambda>i. rs ! i) srt) = Ok vs \<and> (\<forall>p < length srt. vals ! (srt ! p) = vs ! p))"
proof -
  let ?S = "sort_partition E order_by rs" and ?W = "\<lambda>srt. window_values E func order_by frame (rs ! 0) (map (\<lambda>i. rs ! i) srt)"
  obtain gs vals where g: "partition_rows E H partition_by rs = Ok gs"
    "ofold (\<lambda>acc (key, idx). obind (?S idx) (\<lambda>srt. obind (?W srt) (\<lambda>vs. Ok (put_values srt vs acc)))) (replicate (length rs) VNull) gs = Ok vals"
    "out = map (\<lambda>(r, v). append_column name r v) (zip rs vals)"
    using assms by (auto simp: apply_window_expr_def outcome_simps)
  note f = partition_facts [OF g(1)]
  have "length vals = length (replicate (length rs) VNull) \<and> (\<forall>i. i \<notin> set (concat (map snd gs)) \<longrightarrow> vals ! i = replicate (length rs) VNull ! i)
    \<and> (\<forall>(key, idx) \<in> set gs. \<exists>srt vs. ?S idx = Ok srt \<and> ?W srt = Ok vs \<and> (\<forall>p < length srt. vals ! (srt ! p) = vs ! p))"
    by (rule window_loop [OF g(2) f(1)]) (use f(2) in \<open>auto dest: sort_partition_mset window_values_length\<close>)
  then show ?thesis using g(1,3) by (intro exI [of _ gs] exI [of _ vals]) simp
qed

text \<open>
  Window functions keep the rows: the result has the input rows in their order, each with one value appended per window
  expression, and the columns declared for them.
\<close>

theorem window_keeps_the_rows:
  assumes "exec_window E H rs wes = Ok out" and "rs \<noteq> []"
  shows "length out = length rs \<and> (\<forall>i < length rs. \<exists>vs. length vs = length wes \<and> row_values (out ! i) = row_values (rs ! i) @ vs
    \<and> row_schema (out ! i) = row_schema (rs ! i) @ map (\<lambda>we. (case we of WindowExpr name _ _ _ _ \<Rightarrow> name, TInt8)) wes)"
proof -
  have "ofold (apply_window_expr E H) rs wes = Ok out" using assms by (simp add: exec_window_def)
  then show ?thesis
  proof (induction wes arbitrary: rs)
    case Nil
    then show ?case by simp
  next
    case (Cons we wes)
    obtain name func pb ob frame where we: "we = WindowExpr name func pb ob frame" by (cases we)
    obtain mid where mid: "apply_window_expr E H rs we = Ok mid" "ofold (apply_window_expr E H) mid wes = Ok out"
      using Cons.prems by (auto simp: outcome_simps)
    obtain vals where v: "length vals = length rs" "mid = map (\<lambda>(r, v). append_column name r v) (zip rs vals)"
      using apply_window_rows [OF mid(1) [unfolded we]] by blast
    have IH: "length out = length mid" "\<forall>i < length mid. \<exists>vs. length vs = length wes \<and> row_values (out ! i) = row_values (mid ! i) @ vs
      \<and> row_schema (out ! i) = row_schema (mid ! i) @ map (\<lambda>we. (case we of WindowExpr name _ _ _ _ \<Rightarrow> name, TInt8)) wes"
      using Cons.IH [OF mid(2)] by auto
    have "\<exists>vs. length vs = length (we # wes) \<and> row_values (out ! i) = row_values (rs ! i) @ vs
      \<and> row_schema (out ! i) = row_schema (rs ! i) @ map (\<lambda>we. (case we of WindowExpr name _ _ _ _ \<Rightarrow> name, TInt8)) (we # wes)"
      if i: "i < length rs" for i
    proof -
      have at: "mid ! i = append_column name (rs ! i) (vals ! i)" "i < length mid" using v i by simp_all
      obtain vs where vs: "length vs = length wes" "row_values (out ! i) = row_values (mid ! i) @ vs"
        "row_schema (out ! i) = row_schema (mid ! i) @ map (\<lambda>we. (case we of WindowExpr name _ _ _ _ \<Rightarrow> name, TInt8)) wes"
        using IH(2) at(2) by blast
      show ?thesis by (rule exI [of _ "vals ! i # vs"]) (use vs at(1) we in \<open>simp add: append_column_def\<close>)
    qed
    then show ?case using IH(1) v by simp
  qed
qed

definition three_rows :: "row list" where
  "three_rows = map (one_column ''x'') [VInt4 2, VNull, VInt4 1]"

theorem window_keeps_the_rows_witness:
  "\<exists>out. exec_window bare_env (\<lambda>_ _. True) three_rows [WindowExpr (lit ''n'') WRowNumber [] [SortKey x_column True False] None] = Ok out
    \<and> length out = 3"
proof -
  let ?w = "[WindowExpr (lit ''n'') WRowNumber [] [SortKey x_column True False] None]"
  have "is_ok (exec_window bare_env (\<lambda>_ _. True) three_rows ?w)" by code_simp
  then obtain out where out: "exec_window bare_env (\<lambda>_ _. True) three_rows ?w = Ok out"
    by (cases "exec_window bare_env (\<lambda>_ _. True) three_rows ?w") auto
  have "three_rows \<noteq> []" by (simp add: three_rows_def)
  from window_keeps_the_rows [OF out this] show ?thesis using out by (simp add: three_rows_def)
qed

lemma row_number_partitions:
  assumes gs: "partition_rows E H partition_by rs = Ok gs" and ord: "\<forall>r \<in> set rs. orderable E ty (window_keys order_by) r"
  shows "\<exists>out. apply_window_expr E H rs (WindowExpr name WRowNumber partition_by order_by frame) = Ok out
    \<and> (\<Union>g \<in> set gs. set (snd g)) = {..<length rs}
    \<and> (\<forall>(key, idx) \<in> set gs. \<exists>num. bij_betw num (set idx) {1..length idx}
        \<and> (\<forall>i \<in> set idx. out ! i = append_column name (rs ! i) (VInt8 (of_nat (num i))))
        \<and> (\<forall>i \<in> set idx. \<forall>j \<in> set idx. sort_cmp E (window_keys order_by) (rs ! i) (rs ! j) = Ok OLess \<longrightarrow> num i < num j))"
proof -
  let ?W = "WindowExpr name WRowNumber partition_by order_by frame"
  have cov: "(\<Union>g \<in> set gs. set (snd g)) = {..<length rs}" and dis: "distinct (concat (map snd gs))"
    using partition_facts [OF gs] by auto
  have inside: "i < length rs" if "(key, idx) \<in> set gs" "i \<in> set idx" for key idx i
    using cov that by (metis (no_types, lifting) UN_I lessThan_iff snd_conv)
  have run: "\<exists>srt. sort_partition E order_by rs idx = Ok srt
      \<and> sorted_wrt (\<lambda>i j. sort_cmp E (window_keys order_by) (rs ! i) (rs ! j) \<noteq> Ok OGreater) srt" if "(key, idx) \<in> set gs" for key idx
  proof (rule sort_partition_run [where ty = ty])
    fix i assume "i \<in> set idx"
    then have "i < length rs" using inside [OF that] by blast
    then show "orderable E ty (window_keys order_by) (rs ! i)" using ord by simp
  qed
  have "\<exists>vals. ofold (\<lambda>acc (key, idx). obind (sort_partition E order_by rs idx) (\<lambda>srt.
        obind (window_values E WRowNumber order_by frame (rs ! 0) (map (\<lambda>i. rs ! i) srt)) (\<lambda>vs. Ok (put_values srt vs acc)))) acc gs' = Ok vals"
    if "set gs' \<subseteq> set gs" for acc gs'
    using that
  proof (induction gs' arbitrary: acc)
    case (Cons g gs')
    then show ?case using run [of "fst g" "snd g"] by (cases g) (auto simp: window_values_def)
  qed simp
  from this [of gs "replicate (length rs) VNull"] obtain out where out: "apply_window_expr E H rs ?W = Ok out"
    by (auto simp: apply_window_expr_def gs)
  obtain gs' vals where gs': "partition_rows E H partition_by rs = Ok gs'" and v: "length vals = length rs"
    "out = map (\<lambda>(r, v). append_column name r v) (zip rs vals)"
    "\<forall>(key, idx) \<in> set gs'. \<exists>srt vs. sort_partition E order_by rs idx = Ok srt
      \<and> window_values E WRowNumber order_by frame (rs ! 0) (map (\<lambda>i. rs ! i) srt) = Ok vs \<and> (\<forall>p < length srt. vals ! (srt ! p) = vs ! p)"
    using apply_window_rows [OF out] by blast
  have "gs' = gs" using gs gs' by simp
  note v = v [unfolded this]
  have anti: "sort_cmp E (window_keys order_by) (rs ! j) (rs ! i) = Ok OGreater \<and> i \<noteq> j"
    if "i < length rs" "j < length rs" "sort_cmp E (window_keys order_by) (rs ! i) (rs ! j) = Ok OLess" for i j
    using that ord sort_cmp_run [of E ty "window_keys order_by"] preorder_cmp.anti [OF row_order_preorder [of E ty "window_keys order_by"], of "rs ! i" "rs ! j"]
      preorder_cmp.anti [OF row_order_preorder [of E ty "window_keys order_by"], of "rs ! i" "rs ! i"] by auto
  have part: "\<exists>num. bij_betw num (set idx) {1..length idx}
        \<and> (\<forall>i \<in> set idx. out ! i = append_column name (rs ! i) (VInt8 (of_nat (num i))))
        \<and> (\<forall>i \<in> set idx. \<forall>j \<in> set idx. sort_cmp E (window_keys order_by) (rs ! i) (rs ! j) = Ok OLess \<longrightarrow> num i < num j)"
    if g: "(key, idx) \<in> set gs" for key idx
  proof -
    obtain srt where srt: "sort_partition E order_by rs idx = Ok srt"
      "sorted_wrt (\<lambda>i j. sort_cmp E (window_keys order_by) (rs ! i) (rs ! j) \<noteq> Ok OGreater) srt" using run [OF g] by blast
    have vs: "vals ! (srt ! p) = VInt8 (of_nat (p + 1))" if "p < length srt" for p
      using v(3) g srt(1) that by (fastforce simp: window_values_def)
    note m = sort_partition_mset [OF srt(1)]
    have "distinct idx" using dis g by (metis distinct_concat_iff image_eqI list.set_map snd_conv)
    then have d: "distinct srt" "set srt = set idx" "length srt = length idx"
      using mset_eq_imp_distinct_iff [OF m] mset_eq_setD [OF m] mset_eq_length [OF m] by auto
    have bij: "bij_betw ((!) srt) {..<length srt} (set idx)" using bij_betw_nth [OF d(1)] d(2) by blast
    let ?at = "inv_into {..<length srt} ((!) srt)"
    have at: "?at i < length srt" "srt ! ?at i = i" if "i \<in> set idx" for i
      using bij that inv_into_into [of i "(!) srt" "{..<length srt}"] f_inv_into_f [of i "(!) srt" "{..<length srt}"]
      by (auto simp: bij_betw_def)
    have "bij_betw Suc {..<length srt} {1..length idx}" using d(3) by (simp add: bij_betw_def lessThan_atLeast0 image_Suc_atLeastLessThan atLeastLessThanSuc_atLeastAtMost)
    then have "bij_betw (Suc \<circ> ?at) (set idx) {1..length idx}" using bij_betw_inv_into [OF bij] by (rule bij_betw_trans [rotated])
    moreover have "out ! i = append_column name (rs ! i) (VInt8 (of_nat ((Suc \<circ> ?at) i)))" if "i \<in> set idx" for i
      using at [OF that] vs [of "?at i"] v(1,2) inside [OF g that] by simp
    moreover have "(Suc \<circ> ?at) i < (Suc \<circ> ?at) j"
      if ij: "i \<in> set idx" "j \<in> set idx" "sort_cmp E (window_keys order_by) (rs ! i) (rs ! j) = Ok OLess" for i j
    proof (rule ccontr)
      assume n: "\<not> ?thesis"
      have lt: "i < length rs" "j < length rs" using inside [OF g] ij(1,2) by blast+
      have "?at i \<noteq> ?at j" using anti [OF lt ij(3)] at(2) [OF ij(1)] at(2) [OF ij(2)] by auto
      then have "?at j < ?at i" using n by simp
      then show False using sorted_wrt_nth_less [OF srt(2), of "?at j" "?at i"] at [OF ij(1)] at [OF ij(2)] anti [OF lt ij(3)] by simp
    qed
    ultimately show ?thesis by blast
  qed
  show ?thesis using out cov part by blast
qed

lemma add_to_partition_new: "\<forall>g \<in> set gs. \<not> same (fst g) key \<Longrightarrow> add_to_partition same key i gs = gs @ [(key, [i])]"
  by (induction gs) auto

lemma add_to_partition_old:
  assumes "\<forall>k \<in> set ks. same k key \<longleftrightarrow> k = key" "key \<in> set ks" "distinct ks"
  shows "add_to_partition same key i (map (\<lambda>k. (k, f k)) ks) = map (\<lambda>k. (k, if k = key then f k @ [i] else f k)) ks"
  using assms by (induction ks) auto

text \<open>The partitions are the rows with equal keys, whatever the hash function.\<close>

lemma partition_rows_run:
  assumes "\<And>k. H k k" "\<And>r. r \<in> set rs \<Longrightarrow> groupable E ty partition_by r"
  defines "K \<equiv> \<lambda>i. group_key E partition_by (rs ! i)"
  shows "partition_rows E H partition_by rs = Ok (map (\<lambda>k. (k, filter (\<lambda>i. K i = k) [0..<length rs])) (first_keys (map K [0..<length rs])))"
proof -
  let ?F = "\<lambda>gs i. obind (omap (\<lambda>e. eval_expr E e (rs ! i)) partition_by) (\<lambda>key. Ok (add_to_partition (same_key (floats E) H) key i gs))"
  have key: "omap (\<lambda>e. eval_expr E e (rs ! i)) partition_by = Ok (K i)" if "i < length rs" for i
    unfolding K_def by (rule groupable_key(1) [OF assms(2)]) (use that in simp)
  have same: "same_key (floats E) H (K i) (K j) \<longleftrightarrow> K i = K j" if "i < length rs" "j < length rs" for i j
    unfolding K_def by (rule same_key_eq [OF assms(1) groupable_key(2) [OF assms(2)] groupable_key(2) [OF assms(2)]]) (use that in auto)
  have "ofold ?F [] [0..<n] = Ok (map (\<lambda>k. (k, filter (\<lambda>i. K i = k) [0..<n])) (first_keys (map K [0..<n])))" if "n \<le> length rs" for n
    using that
  proof (induction n)
    case (Suc n)
    let ?gs = "map (\<lambda>k. (k, filter (\<lambda>i. K i = k) [0..<n])) (first_keys (map K [0..<n]))"
    have step: "ofold ?F [] [0..<Suc n] = Ok (add_to_partition (same_key (floats E) H) (K n) n ?gs)" using Suc key [of n] by simp
    show ?case
    proof (cases "K n \<in> K ` {0..<n}")
      case True
      have "\<forall>k \<in> set (first_keys (map K [0..<n])). same_key (floats E) H k (K n) \<longleftrightarrow> k = K n" using same Suc.prems by auto
      then show ?thesis unfolding step
        using True add_to_partition_old [of "first_keys (map K [0..<n])" "same_key (floats E) H" "K n" n "\<lambda>k. filter (\<lambda>i. K i = k) [0..<n]"]
        by (auto simp: first_keys_snoc)
    next
      case False
      then have "filter (\<lambda>i. K i = K n) [0..<n] = []" unfolding filter_empty_conv by (metis atLeastLessThan_upt imageI)
      moreover have "\<forall>g \<in> set ?gs. \<not> same_key (floats E) H (fst g) (K n)" using same False Suc.prems by (force simp: image_iff)
      ultimately show ?thesis unfolding step using False by (auto simp: first_keys_snoc add_to_partition_new)
    qed
  qed (simp add: first_keys_def)
  then show ?thesis by (simp add: partition_rows_def)
qed

text \<open>
  \<^bold>\<open>C30.\<close> \<^verbatim>\<open>ROW_NUMBER\<close>. When on every row the partition keys and the order keys evaluate to a null or a sortable value of one
  type, it succeeds, whatever the hash function. Every row gets its number in a new last column: among the rows with the
  same partition keys the numbers are those from 1 to their count, each once, and a row that comes before another in the
  order asked for (nulls are the least values) has the smaller number.
\<close>

theorem row_number_follows_the_order:
  assumes "\<forall>k. H k k" and "\<forall>r \<in> set rs. groupable E ty partition_by r" and "\<forall>r \<in> set rs. orderable E ty' (window_keys order_by) r"
  defines "part \<equiv> \<lambda>i. {j. j < length rs \<and> group_key E partition_by (rs ! j) = group_key E partition_by (rs ! i)}"
  shows "\<exists>out num. apply_window_expr E H rs (WindowExpr name WRowNumber partition_by order_by frame) = Ok out \<and> length out = length rs
    \<and> (\<forall>i < length rs. out ! i = \<lparr>row_values = row_values (rs ! i) @ [VInt8 (of_nat (num i))], row_schema = row_schema (rs ! i) @ [(name, TInt8)]\<rparr>
        \<and> bij_betw num (part i) {1..card (part i)}
        \<and> (\<forall>j \<in> part i. row_before E (map (\<lambda>k. SortKey (sk_expr k) (sk_ascending k) True) order_by) (rs ! i) (rs ! j) \<longrightarrow> num i < num j))"
proof -
  let ?K = "\<lambda>i. group_key E partition_by (rs ! i)" and ?keys = "window_keys order_by"
  let ?gs = "map (\<lambda>k. (k, filter (\<lambda>i. ?K i = k) [0..<length rs])) (first_keys (map ?K [0..<length rs]))"
  have gs: "partition_rows E H partition_by rs = Ok ?gs" by (rule partition_rows_run) (use assms(1,2) in auto)
  obtain out where out: "apply_window_expr E H rs (WindowExpr name WRowNumber partition_by order_by frame) = Ok out"
    "\<forall>(key, idx) \<in> set ?gs. \<exists>num. bij_betw num (set idx) {1..length idx}
        \<and> (\<forall>i \<in> set idx. out ! i = append_column name (rs ! i) (VInt8 (of_nat (num i))))
        \<and> (\<forall>i \<in> set idx. \<forall>j \<in> set idx. sort_cmp E ?keys (rs ! i) (rs ! j) = Ok OLess \<longrightarrow> num i < num j)"
    using row_number_partitions [OF gs assms(3), of name frame] by blast
  have cmp: "sort_cmp E ?keys (rs ! i) (rs ! j) = Ok OLess \<longleftrightarrow> row_before E ?keys (rs ! i) (rs ! j)" if "i < length rs" "j < length rs" for i j
    using sort_cmp_run row_order_before(1) assms(3) that by (metis nth_mem outcome.inject(1))
  have part: "set (filter (\<lambda>j. ?K j = ?K i) [0..<length rs]) = part i" "length (filter (\<lambda>j. ?K j = ?K i) [0..<length rs]) = card (part i)" for i
    using distinct_card [of "filter (\<lambda>j. ?K j = ?K i) [0..<length rs]"] by (auto simp: part_def)
  have "\<exists>num. bij_betw num (part i) {1..card (part i)} \<and> (\<forall>j \<in> part i. out ! j = append_column name (rs ! j) (VInt8 (of_nat (num j))))
      \<and> (\<forall>j \<in> part i. \<forall>l \<in> part i. row_before E ?keys (rs ! j) (rs ! l) \<longrightarrow> num j < num l)" if "i < length rs" for i
  proof -
    have "(?K i, filter (\<lambda>j. ?K j = ?K i) [0..<length rs]) \<in> set ?gs" using that by auto
    from bspec [OF out(2) this] show ?thesis unfolding part split_conv using cmp by (auto simp: part_def)
  qed
  then obtain num where num: "\<And>i. i < length rs \<Longrightarrow> bij_betw (num i) (part i) {1..card (part i)}
      \<and> (\<forall>j \<in> part i. out ! j = append_column name (rs ! j) (VInt8 (of_nat (num i j))))
      \<and> (\<forall>j \<in> part i. \<forall>l \<in> part i. row_before E ?keys (rs ! j) (rs ! l) \<longrightarrow> num i j < num i l)" by metis
  define rep where "rep = (\<lambda>i. Min (part i))"
  have rep: "rep i < length rs" "part (rep i) = part i" "i \<in> part i" "j \<in> part i \<Longrightarrow> part j = part i" "j \<in> part i \<Longrightarrow> rep j = rep i" if "i < length rs" for i j
  proof -
    have "finite (part i)" "i \<in> part i" using that by (simp_all add: part_def)
    then have "rep i \<in> part i" unfolding rep_def by (intro Min_in) auto
    moreover have eq: "part j = part i" if "j \<in> part i" for j using that by (auto simp: part_def)
    ultimately show "rep i < length rs" "part (rep i) = part i" "i \<in> part i" using that by (auto simp: part_def)
    show "part j = part i" "rep j = rep i" if "j \<in> part i" using eq [OF that] by (simp_all add: rep_def)
  qed
  let ?num = "\<lambda>i. num (rep i) i"
  have "out ! i = \<lparr>row_values = row_values (rs ! i) @ [VInt8 (of_nat (?num i))], row_schema = row_schema (rs ! i) @ [(name, TInt8)]\<rparr>
        \<and> bij_betw ?num (part i) {1..card (part i)}
        \<and> (\<forall>j \<in> part i. row_before E (map (\<lambda>k. SortKey (sk_expr k) (sk_ascending k) True) order_by) (rs ! i) (rs ! j) \<longrightarrow> ?num i < ?num j)"
    if i: "i < length rs" for i
  proof -
    have n: "bij_betw (num (rep i)) (part i) {1..card (part i)}" "out ! i = append_column name (rs ! i) (VInt8 (of_nat (?num i)))"
      "\<forall>l \<in> part i. row_before E ?keys (rs ! i) (rs ! l) \<longrightarrow> ?num i < num (rep i) l"
      using num [OF rep(1) [OF i], unfolded rep(2) [OF i]] rep(3) [OF i] by blast+
    have same: "num (rep i) j = ?num j" if "j \<in> part i" for j using rep(5) [OF i that] by simp
    have "bij_betw ?num (part i) {1..card (part i)}" using n(1) bij_betw_cong [of "part i" ?num "num (rep i)"] same by simp
    moreover have "\<forall>j \<in> part i. row_before E ?keys (rs ! i) (rs ! j) \<longrightarrow> ?num i < ?num j" using n(3) same by simp
    ultimately show ?thesis using n(2) unfolding append_column_def window_keys_def by blast
  qed
  moreover have "length out = length rs" using apply_window_rows [OF out(1)] by auto
  ultimately show ?thesis using out(1) by (intro exI [of _ out] exI [of _ ?num]) blast
qed

theorem row_number_follows_the_order_witness:
  "\<exists>out num. apply_window_expr bare_env (\<lambda>_ _. True) three_rows (WindowExpr (lit ''n'') WRowNumber [] [SortKey x_column True False] None) = Ok out
    \<and> out ! 1 = \<lparr>row_values = row_values (three_rows ! 1) @ [VInt8 (of_nat (num 1))], row_schema = row_schema (three_rows ! 1) @ [(lit ''n'', TInt8)]\<rparr>
    \<and> bij_betw num {0, 1, 2 :: nat} {1..3} \<and> num 2 < num 0"
proof -
  let ?k = "[SortKey x_column True False]"
  have grp: "\<forall>r \<in> set three_rows. groupable bare_env (\<lambda>_. None) [] r" by (simp add: groupable_def)
  have ord: "list_all (orderable bare_env (\<lambda>_. Some TInt4) (window_keys ?k)) three_rows" by code_simp
  have "row_order bare_env (window_keys ?k) (three_rows ! 2) (three_rows ! 0) = OLess" by code_simp
  then have less: "row_before bare_env (map (\<lambda>k. SortKey (sk_expr k) (sk_ascending k) True) ?k) (three_rows ! 2) (three_rows ! 0)"
    using row_order_before(1) [of bare_env "\<lambda>_. Some TInt4" "window_keys ?k" "three_rows ! 2" "three_rows ! 0"] ord
    by (simp add: list_all_iff window_keys_def three_rows_def)
  have all: "{j. j < length three_rows \<and> group_key bare_env [] (three_rows ! j) = group_key bare_env [] (three_rows ! i)} = {0, 1, 2}" for i
    by (auto simp: group_key_def three_rows_def)
  obtain out num where o: "apply_window_expr bare_env (\<lambda>_ _. True) three_rows (WindowExpr (lit ''n'') WRowNumber [] ?k None) = Ok out"
    "\<forall>i < length three_rows. out ! i = \<lparr>row_values = row_values (three_rows ! i) @ [VInt8 (of_nat (num i))], row_schema = row_schema (three_rows ! i) @ [(lit ''n'', TInt8)]\<rparr>
      \<and> bij_betw num {0, 1, 2} {1..card {0, 1, 2 :: nat}}
      \<and> (\<forall>j \<in> {0, 1, 2}. row_before bare_env (map (\<lambda>k. SortKey (sk_expr k) (sk_ascending k) True) ?k) (three_rows ! i) (three_rows ! j) \<longrightarrow> num i < num j)"
    using row_number_follows_the_order [OF _ grp ord [unfolded list_all_iff], of "\<lambda>_ _. True" "lit ''n''" None] unfolding all by blast
  have n: "length three_rows = 3" "card {0, 1, 2 :: nat} = 3" by (simp_all add: three_rows_def)
  have "1 < length three_rows" "2 < length three_rows" using n(1) by simp_all
  then show ?thesis using o less unfolding n(2) by (intro exI [of _ out] exI [of _ num]) blast
qed

end
