(* ===== verification/Sql_Query.thy ===== *)
theory Sql_Query
  imports Sql_Dml Sql_Window
begin

text \<open>
  Queries: \<^verbatim>\<open>exec_plan\<close>, \<^verbatim>\<open>exec_plan_with_ctes\<close>, \<^verbatim>\<open>exec_cte\<close>, \<^verbatim>\<open>exec_recursive_cte\<close>, \<^verbatim>\<open>exec_lateral\<close>,
  \<^verbatim>\<open>exec_set_op\<close> and \<^verbatim>\<open>exec_generate_series\<close> of \<^verbatim>\<open>sql/src/executor.rs\<close>, which compose the operators on lists of
  rows along a plan, over the tables of the store, and the evaluation of a plan with an outer row
  (\<^verbatim>\<open>exec_plan_correlated\<close>, \<^verbatim>\<open>eval_expr_with_outer\<close>). The rows of the virtual catalogs are a parameter, as is what a
  subquery inside an expression evaluated by \<^verbatim>\<open>eval_expr\<close> returns.
\<close>

section \<open>Pieces\<close>

record query_lib =
  base :: dml_lib
  key_hash :: "hash_input list \<Rightarrow> hash_input list \<Rightarrow> bool"
  system_rows :: "rstring \<Rightarrow> rstring \<Rightarrow> row list xop"

abbreviation in_env :: "query_lib \<Rightarrow> (logical_plan eval_env \<Rightarrow> (sql_error, 'a) outcome) \<Rightarrow> 'a xop" where
  "in_env Q f \<equiv> xread (\<lambda>s. f (eval_in (base Q) s))"

definition scan_table ::
  "query_lib \<Rightarrow> xid \<Rightarrow> rstring \<Rightarrow> rstring option \<Rightarrow> table_schema \<Rightarrow> logical_plan expr option \<Rightarrow> row list xop" where
  "scan_table Q x name alias schema cond s =
     (case exec_table_scan (eval_in (base Q) s) (arrays (base Q)) x (x_heaps s (ts_oid schema)) name alias schema cond (x_mgr s) of
        (r, m) \<Rightarrow> Some (r, s\<lparr>x_mgr := m\<rparr>))"

text \<open>The index is the one opened for this table and column.\<close>

definition scan_index ::
  "query_lib \<Rightarrow> xid \<Rightarrow> rstring \<Rightarrow> table_schema \<Rightarrow> rstring \<Rightarrow> val option \<Rightarrow> val option \<Rightarrow> val option \<Rightarrow> logical_plan expr option
    \<Rightarrow> row list xop" where
  "scan_index Q x name schema col ev rs re cond =
     lbind (on_catalog (get_table_oid (lit ''public'') name)) (\<lambda>oid.
     lread (\<lambda>s. case find (\<lambda>(o2, spec, _). o2 = oid \<and> spec = col) (x_indexes s) of
         None \<Rightarrow> Some (Err Execution)
       | Some (_, _, tree) \<Rightarrow>
           exec_index_scan (eval_in (base Q) s) (arrays (base Q)) (x_mgr s) x (x_heaps s oid) schema ev rs re cond tree))"

definition aggregate_rows ::
  "query_lib \<Rightarrow> logical_plan expr list \<Rightarrow> (rstring \<times> agg_func \<times> logical_plan expr) list \<Rightarrow> logical_plan expr option
    \<Rightarrow> logical_plan expr list list option \<Rightarrow> row list \<Rightarrow> row list xop" where
  "aggregate_rows Q group_by aggs having sets rs =
     in_env Q (\<lambda>E. case sets of
         Some gs \<Rightarrow> exec_aggregate_grouping_sets E (key_hash Q) rs group_by gs aggs having
       | None \<Rightarrow> exec_aggregate E (key_hash Q) rs group_by aggs having)"

text \<open>The set operations under a \<^verbatim>\<open>WITH\<close>, where \<^verbatim>\<open>ALL\<close> decides only whether the result is deduplicated.\<close>

definition cte_set_op :: "set_operation \<Rightarrow> bool \<Rightarrow> row list \<Rightarrow> row list \<Rightarrow> row list" where
  "cte_set_op op all left_rows right_rows =
     (let left_schema = first_schema left_rows;
          right = map (\<lambda>r. if left_schema \<noteq> [] then r\<lparr>row_schema := left_schema\<rparr> else r) right_rows;
          keys = map row_values right;
          out = (case op of
                   Union_op \<Rightarrow> left_rows @ right
                 | Intersect_op \<Rightarrow> filter (\<lambda>r. rows_contain keys (row_values r)) left_rows
                 | Except_op \<Rightarrow> filter (\<lambda>r. \<not> rows_contain keys (row_values r)) left_rows) in
      if all then out else deduplicate_rows out)"

text \<open>The loop of \<^verbatim>\<open>generate_series\<close>. The counter wraps around, so it need not end.\<close>

partial_function (option) series_loop :: "u64 \<Rightarrow> u64 \<Rightarrow> u64 \<Rightarrow> u64 list option" where
  "series_loop i stop step =
     (if 0 < sint step \<and> sint i \<le> sint stop \<or> sint step < 0 \<and> sint stop \<le> sint i
      then Option.bind (series_loop (i + step) stop step) (\<lambda>rest. Some (i # rest))
      else Some [])"

definition series_arg :: "val \<Rightarrow> (sql_error, u64) outcome" where
  "series_arg v =
     (case v of VInt4 i \<Rightarrow> Ok (scast i) | VInt8 i \<Rightarrow> Ok i | VFloat8 f \<Rightarrow> Ok (i64_of_float f) | _ \<Rightarrow> Err Execution)"

definition exec_generate_series :: "query_lib \<Rightarrow> logical_plan expr \<Rightarrow> logical_plan expr \<Rightarrow> logical_plan expr \<Rightarrow> row list xop" where
  "exec_generate_series Q start stop step =
     lbind (lmap (\<lambda>e. xeval (base Q) e \<lparr>row_values = [], row_schema = []\<rparr>) [start, stop, step]) (\<lambda>vs.
     lbind (lmap (\<lambda>v. xread (\<lambda>_. series_arg v)) vs) (\<lambda>is.
     if is ! 2 = 0 then xerr Execution
     else lread (\<lambda>_. map_option (\<lambda>ns. Ok (map (\<lambda>n. \<lparr>row_values = [VInt8 n], row_schema = [(lit ''generate_series'', TInt8)]\<rparr>) ns))
            (series_loop (is ! 0) (is ! 1) (is ! 2)))))"

fun plan_contains_aggregate :: "logical_plan \<Rightarrow> bool" where
  "plan_contains_aggregate (PAggregate p g a h s) = True"
| "plan_contains_aggregate (PProject p cols d) = plan_contains_aggregate p"
| "plan_contains_aggregate (PFilter p e) = plan_contains_aggregate p"
| "plan_contains_aggregate (PSort p ks) = plan_contains_aggregate p"
| "plan_contains_aggregate (PLimit p n m) = plan_contains_aggregate p"
| "plan_contains_aggregate (PWindow p ws) = plan_contains_aggregate p"
| "plan_contains_aggregate (PJoin l r j c u alg) = (plan_contains_aggregate l \<or> plan_contains_aggregate r)"
| "plan_contains_aggregate (PSetOp op all l r) = (plan_contains_aggregate l \<or> plan_contains_aggregate r)"
| "plan_contains_aggregate (PCte ctes p) = plan_contains_aggregate p"
| "plan_contains_aggregate _ = False"

text \<open>The columns of the source a projection has left out, behind those it has.\<close>

definition supplement_row :: "row \<Rightarrow> row \<Rightarrow> row" where
  "supplement_row proj src =
     (let extra = filter (\<lambda>((name, ty), v). name \<notin> fst ` set (row_schema proj)) (zip (row_schema src) (row_values src)) in
      \<lparr>row_values = row_values proj @ map snd extra, row_schema = row_schema proj @ map fst extra\<rparr>)"

definition supplement_rows :: "row list \<Rightarrow> row list \<Rightarrow> row list" where
  "supplement_rows projected source_rows =
     (if length source_rows \<noteq> length projected then projected
      else map (\<lambda>(p, q). supplement_row p q) (zip projected source_rows))"

definition cte_source :: "logical_plan \<Rightarrow> logical_plan option" where
  "cte_source p = (case p of PProject q cols d \<Rightarrow> if plan_contains_aggregate q then None else Some q | _ \<Rightarrow> None)"

text \<open>Recursive queries: at most a thousand rounds, each on the rows of the round before.\<close>

definition rename_columns :: "rstring list \<Rightarrow> row \<Rightarrow> row" where
  "rename_columns aliases r =
     (if aliases \<noteq> [] \<and> length (row_schema r) = length aliases
      then r\<lparr>row_schema := zip aliases (map snd (row_schema r))\<rparr> else r)"

definition cycle_key :: "float_lib \<Rightarrow> rstring \<Rightarrow> row \<Rightarrow> rstring option" where
  "cycle_key F col r =
     map_option (show_val F) (row_get_by_idx r (case position (\<lambda>(n, _). n = col) (row_schema r) of Some i \<Rightarrow> i | None \<Rightarrow> 0))"

primrec drop_cycles :: "(row \<Rightarrow> rstring) \<Rightarrow> rstring set \<Rightarrow> row list \<Rightarrow> row list \<times> rstring set" where
  "drop_cycles key met [] = ([], met)"
| "drop_cycles key met (r # rs) =
     (if key r \<in> met then drop_cycles key met rs
      else case drop_cycles key (insert (key r) met) rs of (kept_rows, met') \<Rightarrow> (r # kept_rows, met'))"

definition text_or_empty :: "rstring option \<Rightarrow> rstring" where
  "text_or_empty t = (case t of Some s \<Rightarrow> s | None \<Rightarrow> [])"

primrec recursive_rounds ::
  "float_lib \<Rightarrow> rstring option \<Rightarrow> (rstring \<times> data_type) list \<Rightarrow> (row list \<Rightarrow> row list xop) \<Rightarrow> nat \<Rightarrow> rstring set \<Rightarrow> row list
    \<Rightarrow> row list \<Rightarrow> row list xop" where
  "recursive_rounds F cycle_col schema step 0 met frontier acc = xret acc"
| "recursive_rounds F cycle_col schema step (Suc n) met frontier acc =
     lbind (step frontier) (\<lambda>new_rows.
     if new_rows = [] then xret acc
     else
       let normalized = map (\<lambda>r. if schema \<noteq> [] then r\<lparr>row_schema := schema\<rparr> else r) new_rows in
       case (case cycle_col of
               Some c \<Rightarrow> drop_cycles (\<lambda>r. text_or_empty (cycle_key F c r)) met normalized
             | None \<Rightarrow> (normalized, met)) of
         (fresh, met') \<Rightarrow>
           if cycle_col \<noteq> None \<and> fresh = [] then xret acc
           else recursive_rounds F cycle_col schema step n met' fresh (acc @ fresh))"

definition number_rows :: "rstring option \<Rightarrow> rstring option \<Rightarrow> row list \<Rightarrow> row list" where
  "number_rows by_col set_col rs =
     (case (by_col, set_col) of
        (Some _, Some c) \<Rightarrow> map (\<lambda>(i, r). \<lparr>row_values = row_values r @ [VInt8 (of_nat i)], row_schema = row_schema r @ [(c, TInt8)]\<rparr>)
          (enumerate 0 rs)
      | _ \<Rightarrow> rs)"

definition mark_cycles :: "float_lib \<Rightarrow> rstring option \<Rightarrow> rstring option \<Rightarrow> rstring option \<Rightarrow> row list \<Rightarrow> row list" where
  "mark_cycles F cycle_col set_col path_col rs =
     (case (cycle_col, set_col, path_col) of
        (Some c, Some sc, Some pc) \<Rightarrow>
          map (\<lambda>r. \<lparr>row_values = row_values r @ [VBool False, VText ([123] @ text_or_empty (cycle_key F c r) @ [125])],
                   row_schema = row_schema r @ [(sc, TBoolean), (pc, TText)]\<rparr>) rs
      | _ \<Rightarrow> rs)"

definition lateral_row :: "rstring \<Rightarrow> row \<Rightarrow> row \<Rightarrow> row" where
  "lateral_row alias outer inner =
     \<lparr>row_values = row_values outer @ row_values inner,
      row_schema = row_schema outer @ map (\<lambda>(n, t). (if alias = [] \<or> 46 \<in> set n then n else alias @ [46] @ n, t)) (row_schema inner)\<rparr>"

text \<open>A column of a correlated plan: the row itself comes first, then the row outside.\<close>

definition names_table :: "rstring \<Rightarrow> row \<Rightarrow> bool" where
  "names_table tbl r \<longleftrightarrow> list_ex (\<lambda>(cn, _). take (length tbl + 1) cn = tbl @ [46]) (row_schema r)"

definition bare_column :: "rstring \<Rightarrow> row \<Rightarrow> row \<Rightarrow> (sql_error, val) outcome" where
  "bare_column name r outer_row =
     (case row_get r name of
        Some v \<Rightarrow> Ok v
      | None \<Rightarrow>
          (case columns_named r name of
             [i] \<Rightarrow> value_at r i
           | _ # _ \<Rightarrow> Err (AmbiguousColumn name)
           | [] \<Rightarrow>
               (case row_get outer_row name of
                  Some v \<Rightarrow> Ok v
                | None \<Rightarrow>
                    (case columns_named outer_row name of
                       [] \<Rightarrow> Err (SqlColumnNotFound name)
                     | [i] \<Rightarrow> value_at outer_row i
                     | _ \<Rightarrow> Err (AmbiguousColumn name)))))"

definition outer_column :: "rstring option \<Rightarrow> rstring \<Rightarrow> row \<Rightarrow> row \<Rightarrow> (sql_error, val) outcome" where
  "outer_column table name r outer_row =
     (case table of
        None \<Rightarrow> bare_column name r outer_row
      | Some tbl \<Rightarrow>
          (let qualified = tbl @ [46] @ name in
           case row_get r qualified of Some v \<Rightarrow> Ok v | None \<Rightarrow>
           case row_get outer_row qualified of Some v \<Rightarrow> Ok v | None \<Rightarrow>
           if names_table tbl r then bare_column name r outer_row
           else
             case row_get outer_row name of Some v \<Rightarrow> Ok v | None \<Rightarrow>
             case columns_named outer_row name of i # _ \<Rightarrow> value_at outer_row i | [] \<Rightarrow> bare_column name r outer_row))"

primrec lfilter :: "('a \<Rightarrow> bool xop) \<Rightarrow> 'a list \<Rightarrow> 'a list xop" where
  "lfilter p [] = xret []"
| "lfilter p (a # as) = lbind (p a) (\<lambda>b. lbind (lfilter p as) (\<lambda>bs. xret (if b then a # bs else bs)))"

section \<open>Plans\<close>

lemma cte_source_smaller: "cte_source p = Some q \<Longrightarrow> size q < size p"
  by (auto simp: cte_source_def split: logical_plan.splits if_splits)

function (sequential) exec_plan :: "query_lib \<Rightarrow> xid \<Rightarrow> logical_plan \<Rightarrow> row list xop"
  and exec_plan_with_ctes :: "query_lib \<Rightarrow> xid \<Rightarrow> logical_plan \<Rightarrow> (rstring \<rightharpoonup> row list) \<Rightarrow> row list xop"
  and exec_cte_list :: "query_lib \<Rightarrow> xid \<Rightarrow> bool \<Rightarrow> (rstring \<times> logical_plan) list \<Rightarrow> (rstring \<rightharpoonup> row list) \<Rightarrow> (rstring \<rightharpoonup> row list) xop"
  and exec_plan_correlated :: "query_lib \<Rightarrow> xid \<Rightarrow> logical_plan \<Rightarrow> row \<Rightarrow> row list xop"
  and eval_expr_with_outer :: "query_lib \<Rightarrow> xid \<Rightarrow> logical_plan expr \<Rightarrow> row \<Rightarrow> row \<Rightarrow> val xop"
  and eval_outer_columns :: "query_lib \<Rightarrow> xid \<Rightarrow> (rstring \<times> logical_plan expr) list \<Rightarrow> row \<Rightarrow> row \<Rightarrow> val list xop"
where
  "exec_plan Q x (PTableScan name alias schema cond) = scan_table Q x name alias schema cond"
| "exec_plan Q x (PFilter p e) = lbind (exec_plan Q x p) (\<lambda>rs. in_env Q (\<lambda>E. exec_filter E rs e))"
| "exec_plan Q x (PProject p cols d) =
     lbind (exec_plan Q x p) (\<lambda>rs. lbind (in_env Q (\<lambda>E. exec_project E rs cols)) (\<lambda>qs. xret (if d then deduplicate_rows qs else qs)))"
| "exec_plan Q x (PJoin l r j c u alg) =
     lbind (exec_plan Q x l) (\<lambda>ls. lbind (exec_plan Q x r) (\<lambda>rs. in_env Q (\<lambda>E. exec_join E ls rs j c u alg)))"
| "exec_plan Q x (PAggregate p g a h sets) = lbind (exec_plan Q x p) (aggregate_rows Q g a h sets)"
| "exec_plan Q x (PSort p keys) = lbind (exec_plan Q x p) (\<lambda>rs. in_env Q (\<lambda>E. exec_sort E rs keys))"
| "exec_plan Q x (PLimit p n m) = lbind (exec_plan Q x p) (\<lambda>rs. xread (\<lambda>_. exec_limit rs n m))"
| "exec_plan Q x (PIndexScan name schema col ev rs re cond) = scan_index Q x name schema col ev rs re cond"
| "exec_plan Q x (PSetOp op all l r) =
     lbind (exec_plan Q x l) (\<lambda>ls. lbind (exec_plan Q x r) (\<lambda>rs. xret (set_op_rows op all ls rs)))"
| "exec_plan Q x (PCte ctes inner) =
     lbind (exec_cte_list Q x True ctes Map.empty) (\<lambda>cm.
     exec_plan_with_ctes (Q\<lparr>base := (base Q)\<lparr>cte_context := cte_context (base Q) ++ cm\<rparr>\<rparr>) x inner cm)"
| "exec_plan Q x (PValues schema vss) = xret (map (\<lambda>vs. \<lparr>row_values = vs, row_schema = schema\<rparr>) vss)"
| "exec_plan Q x (PWindow p ws) = lbind (exec_plan Q x p) (\<lambda>rs. in_env Q (\<lambda>E. exec_window E (key_hash Q) rs ws))"
| "exec_plan Q x (PRecursiveCte name aliases b r sb ss c cs cp) =
     lbind (exec_plan Q x b) (\<lambda>base_rows.
     if base_rows = [] then xret base_rows
     else
       let start = map (rename_columns aliases) base_rows; F = number_lib (base Q);
           met = (case c of Some col \<Rightarrow> set (List.map_filter (cycle_key F col) start) | None \<Rightarrow> {}) in
       lbind (recursive_rounds F c (first_schema start) (\<lambda>frontier. exec_plan_with_ctes Q x r [name \<mapsto> frontier]) 1000 met start start) (\<lambda>acc.
       xret (mark_cycles F c cs cp (number_rows sb ss acc))))"
| "exec_plan Q x (PSystemCatalogScan cat name cond) =
     lbind (system_rows Q cat name) (\<lambda>rs. case cond of Some e \<Rightarrow> in_env Q (\<lambda>E. exec_filter E rs e) | None \<Rightarrow> xret rs)"
| "exec_plan Q x (PGenerateSeries a b c) = exec_generate_series Q a b c"
| "exec_plan Q x (PLateral p sub alias) =
     lbind (exec_plan Q x p) (\<lambda>os.
     lbind (lmap (\<lambda>o_row. lbind (exec_plan_correlated Q x sub o_row) (\<lambda>is. xret (map (lateral_row alias o_row) is))) os) (\<lambda>parts.
     xret (concat parts)))"
| "exec_plan Q x _ = xerr Execution"

| "exec_plan_with_ctes Q x p cm =
     (case p of
        PTableScan name alias schema cond \<Rightarrow>
          (case cm name of
        Some rs \<Rightarrow> xret (map (\<lambda>r. qualify_row_schema r alias) rs)
      | None \<Rightarrow> exec_plan Q x (PTableScan name alias schema cond))
      | PFilter p e \<Rightarrow>
          lbind (exec_plan_with_ctes Q x p cm) (\<lambda>rs. in_env Q (\<lambda>E. exec_filter E rs e))
      | PProject p cols d \<Rightarrow>
          lbind (exec_plan_with_ctes Q x p cm) (\<lambda>rs. lbind (in_env Q (\<lambda>E. exec_project E rs cols)) (\<lambda>qs. xret (if d then deduplicate_rows qs else qs)))
      | PJoin l r j c u alg \<Rightarrow>
          lbind (exec_plan_with_ctes Q x l cm) (\<lambda>ls. lbind (exec_plan_with_ctes Q x r cm) (\<lambda>rs. in_env Q (\<lambda>E. exec_join E ls rs j c u alg)))
      | PAggregate p g a h sets \<Rightarrow>
          lbind (exec_plan_with_ctes Q x p cm) (aggregate_rows Q g a h sets)
      | PSort p keys \<Rightarrow>
          lbind (exec_plan_with_ctes Q x p cm) (\<lambda>rs. in_env Q (\<lambda>E. exec_sort E rs keys))
      | PLimit p n m \<Rightarrow>
          lbind (exec_plan_with_ctes Q x p cm) (\<lambda>rs. xread (\<lambda>_. exec_limit rs n m))
      | PSetOp op all l r \<Rightarrow>
          lbind (exec_plan_with_ctes Q x l cm) (\<lambda>ls. lbind (exec_plan_with_ctes Q x r cm) (\<lambda>rs. xret (cte_set_op op all ls rs)))
      | PCte ctes inner \<Rightarrow>
          lbind (exec_cte_list Q x False ctes cm) (\<lambda>merged. exec_plan_with_ctes Q x inner merged)
      | PWindow p ws \<Rightarrow>
          lbind (exec_plan_with_ctes Q x p cm) (\<lambda>rs. in_env Q (\<lambda>E. exec_window E (key_hash Q) rs ws))
      | _ \<Rightarrow>
          exec_plan Q x p)"

| "exec_cte_list Q x supplement [] cm = xret cm"
| "exec_cte_list Q x supplement (np # ctes) cm =
     lbind (exec_plan_with_ctes Q x (snd np) cm) (\<lambda>rs.
     lbind (if supplement
            then (case cte_source (snd np) of
                    Some q \<Rightarrow> lbind (exec_plan_with_ctes Q x q cm) (\<lambda>ss. xret (supplement_rows rs ss))
                  | None \<Rightarrow> xret rs)
            else xret rs) (\<lambda>rs'.
     exec_cte_list Q x supplement ctes (cm(fst np \<mapsto> rs'))))"

| "exec_plan_correlated Q x p outer_row =
     (case p of
        PTableScan name alias schema cond \<Rightarrow>
          lbind (case cte_context (base Q) name of
              Some rs \<Rightarrow> xret (map (\<lambda>r. qualify_row_schema r alias) rs)
            | None \<Rightarrow> scan_table Q x name alias schema None) (\<lambda>rs.
     case cond of
       Some e \<Rightarrow> lfilter (\<lambda>r. lbind (eval_expr_with_outer Q x e r outer_row) (\<lambda>v. xret (v = VBool True))) rs
     | None \<Rightarrow> xret rs)
      | PFilter p e \<Rightarrow>
          lbind (exec_plan_correlated Q x p outer_row) (\<lambda>rs.
     lfilter (\<lambda>r. lbind (eval_expr_with_outer Q x e r outer_row) (\<lambda>v. xret (v = VBool True))) rs)
      | PProject p cols d \<Rightarrow>
          lbind (exec_plan_correlated Q x p outer_row) (\<lambda>rs.
     lbind (lmap (\<lambda>r. lbind (eval_outer_columns Q x cols r outer_row) (\<lambda>vs.
         xret \<lparr>row_values = vs, row_schema = map (\<lambda>(name, e). (name, infer_expr_type (unicode_lower (base Q)) e (row_schema r))) cols\<rparr>)) rs) (\<lambda>qs.
     xret (if d then deduplicate_rows qs else qs)))
      | PAggregate p g a h sets \<Rightarrow>
          lbind (exec_plan_correlated Q x p outer_row) (aggregate_rows Q g a h sets)
      | PSort p keys \<Rightarrow>
          lbind (exec_plan_correlated Q x p outer_row) (\<lambda>rs. in_env Q (\<lambda>E. exec_sort E rs keys))
      | PLimit p n m \<Rightarrow>
          lbind (exec_plan_correlated Q x p outer_row) (\<lambda>rs. xread (\<lambda>_. exec_limit rs n m))
      | PJoin l r j c u alg \<Rightarrow>
          lbind (exec_plan_correlated Q x l outer_row) (\<lambda>ls. lbind (exec_plan_correlated Q x r outer_row) (\<lambda>rs. in_env Q (\<lambda>E. exec_join E ls rs j c u alg)))
      | _ \<Rightarrow>
          exec_plan Q x p)"

| "eval_expr_with_outer Q x e r outer_row =
     (case e of
        EColumn table name \<Rightarrow>
          xread (\<lambda>_. outer_column table name r outer_row)
      | EBinaryOp left op right \<Rightarrow>
          lbind (eval_expr_with_outer Q x left r outer_row) (\<lambda>l.
     lbind (eval_expr_with_outer Q x right r outer_row) (\<lambda>v.
     in_env Q (\<lambda>E. eval_binary_op (floats E) (json_of E) l op v)))
      | EUnaryOp uop e \<Rightarrow>
          lbind (eval_expr_with_outer Q x e r outer_row) (\<lambda>v. xread (\<lambda>_. eval_unary_op uop v))
      | EIsNull e \<Rightarrow>
          lbind (eval_expr_with_outer Q x e r outer_row) (\<lambda>v. xret (VBool (v = VNull)))
      | EIsNotNull e \<Rightarrow>
          lbind (eval_expr_with_outer Q x e r outer_row) (\<lambda>v. xret (VBool (v \<noteq> VNull)))
      | EInSubquery e sub negated \<Rightarrow>
          lbind (eval_expr_with_outer Q x e r outer_row) (\<lambda>v.
     if v = VNull then xret VNull
     else lbind (exec_plan_correlated Q x sub (merge_rows r outer_row)) (\<lambda>rs.
       xret (VBool (found_in (number_lib (base Q)) rs v \<noteq> negated))))
      | EExists sub negated \<Rightarrow>
          lbind (exec_plan_correlated Q x sub (merge_rows r outer_row)) (\<lambda>rs. xret (VBool ((rs \<noteq> []) \<noteq> negated)))
      | EScalarSubquery sub \<Rightarrow>
          lbind (exec_plan_correlated Q x sub (merge_rows r outer_row)) (\<lambda>rs. xread (\<lambda>_. scalar_result rs))
      | _ \<Rightarrow>
          xeval (base Q) e r)"

| "eval_outer_columns Q x [] r outer_row = xret []"
| "eval_outer_columns Q x (c # cols) r outer_row =
     lbind (eval_expr_with_outer Q x (snd c) r outer_row) (\<lambda>v.
     lbind (eval_outer_columns Q x cols r outer_row) (\<lambda>vs. xret (v # vs)))"
  by pat_completeness auto

termination
proof (relation "measures [
    case_sum (case_sum (\<lambda>(Q, x, p). size p) (case_sum (\<lambda>(Q, x, p, cm). size p) (\<lambda>(Q, x, b, ctes, cm). size_list (size_prod (\<lambda>_. 0) size) ctes)))
      (case_sum (\<lambda>(Q, x, p, r). size p) (case_sum (\<lambda>(Q, x, e, r, outer_row). size_expr size e)
        (\<lambda>(Q, x, cols, r, outer_row). size_list (size_prod (\<lambda>_. 0) (size_expr size)) cols))),
    case_sum (case_sum (\<lambda>_. 0) (case_sum (\<lambda>_. 1) (\<lambda>_. 0))) (case_sum (\<lambda>_. 1) (case_sum (\<lambda>_. 0) (\<lambda>_. 0)))]", goal_cases)
qed (auto dest!: cte_source_smaller)

lemma exec_plan_with_ctes_simps [simp]:
  "exec_plan_with_ctes Q x (PTableScan name alias schema cond) cm =
     (case cm name of
        Some rs \<Rightarrow> xret (map (\<lambda>r. qualify_row_schema r alias) rs)
      | None \<Rightarrow> exec_plan Q x (PTableScan name alias schema cond))"
  "exec_plan_with_ctes Q x (PFilter p e) cm =
     lbind (exec_plan_with_ctes Q x p cm) (\<lambda>rs. in_env Q (\<lambda>E. exec_filter E rs e))"
  "exec_plan_with_ctes Q x (PProject p cols d) cm =
     lbind (exec_plan_with_ctes Q x p cm) (\<lambda>rs. lbind (in_env Q (\<lambda>E. exec_project E rs cols)) (\<lambda>qs. xret (if d then deduplicate_rows qs else qs)))"
  "exec_plan_with_ctes Q x (PJoin l r j c u alg) cm =
     lbind (exec_plan_with_ctes Q x l cm) (\<lambda>ls. lbind (exec_plan_with_ctes Q x r cm) (\<lambda>rs. in_env Q (\<lambda>E. exec_join E ls rs j c u alg)))"
  "exec_plan_with_ctes Q x (PAggregate p g a h sets) cm =
     lbind (exec_plan_with_ctes Q x p cm) (aggregate_rows Q g a h sets)"
  "exec_plan_with_ctes Q x (PSort p keys) cm =
     lbind (exec_plan_with_ctes Q x p cm) (\<lambda>rs. in_env Q (\<lambda>E. exec_sort E rs keys))"
  "exec_plan_with_ctes Q x (PLimit p n m) cm =
     lbind (exec_plan_with_ctes Q x p cm) (\<lambda>rs. xread (\<lambda>_. exec_limit rs n m))"
  "exec_plan_with_ctes Q x (PSetOp op all l r) cm =
     lbind (exec_plan_with_ctes Q x l cm) (\<lambda>ls. lbind (exec_plan_with_ctes Q x r cm) (\<lambda>rs. xret (cte_set_op op all ls rs)))"
  "exec_plan_with_ctes Q x (PCte ctes inner) cm =
     lbind (exec_cte_list Q x False ctes cm) (\<lambda>merged. exec_plan_with_ctes Q x inner merged)"
  "exec_plan_with_ctes Q x (PWindow p ws) cm =
     lbind (exec_plan_with_ctes Q x p cm) (\<lambda>rs. in_env Q (\<lambda>E. exec_window E (key_hash Q) rs ws))"
  by (subst exec_plan_with_ctes.simps, simp)+

lemma exec_plan_correlated_simps [simp]:
  "exec_plan_correlated Q x (PTableScan name alias schema cond) outer_row =
     lbind (case cte_context (base Q) name of
              Some rs \<Rightarrow> xret (map (\<lambda>r. qualify_row_schema r alias) rs)
            | None \<Rightarrow> scan_table Q x name alias schema None) (\<lambda>rs.
     case cond of
       Some e \<Rightarrow> lfilter (\<lambda>r. lbind (eval_expr_with_outer Q x e r outer_row) (\<lambda>v. xret (v = VBool True))) rs
     | None \<Rightarrow> xret rs)"
  "exec_plan_correlated Q x (PFilter p e) outer_row =
     lbind (exec_plan_correlated Q x p outer_row) (\<lambda>rs.
     lfilter (\<lambda>r. lbind (eval_expr_with_outer Q x e r outer_row) (\<lambda>v. xret (v = VBool True))) rs)"
  "exec_plan_correlated Q x (PProject p cols d) outer_row =
     lbind (exec_plan_correlated Q x p outer_row) (\<lambda>rs.
     lbind (lmap (\<lambda>r. lbind (eval_outer_columns Q x cols r outer_row) (\<lambda>vs.
         xret \<lparr>row_values = vs, row_schema = map (\<lambda>(name, e). (name, infer_expr_type (unicode_lower (base Q)) e (row_schema r))) cols\<rparr>)) rs) (\<lambda>qs.
     xret (if d then deduplicate_rows qs else qs)))"
  "exec_plan_correlated Q x (PAggregate p g a h sets) outer_row =
     lbind (exec_plan_correlated Q x p outer_row) (aggregate_rows Q g a h sets)"
  "exec_plan_correlated Q x (PSort p keys) outer_row =
     lbind (exec_plan_correlated Q x p outer_row) (\<lambda>rs. in_env Q (\<lambda>E. exec_sort E rs keys))"
  "exec_plan_correlated Q x (PLimit p n m) outer_row =
     lbind (exec_plan_correlated Q x p outer_row) (\<lambda>rs. xread (\<lambda>_. exec_limit rs n m))"
  "exec_plan_correlated Q x (PJoin l r j c u alg) outer_row =
     lbind (exec_plan_correlated Q x l outer_row) (\<lambda>ls. lbind (exec_plan_correlated Q x r outer_row) (\<lambda>rs. in_env Q (\<lambda>E. exec_join E ls rs j c u alg)))"
  by (subst exec_plan_correlated.simps, simp)+

lemma eval_expr_with_outer_simps [simp]:
  "eval_expr_with_outer Q x (EColumn table name) r outer_row =
     xread (\<lambda>_. outer_column table name r outer_row)"
  "eval_expr_with_outer Q x (EBinaryOp left op right) r outer_row =
     lbind (eval_expr_with_outer Q x left r outer_row) (\<lambda>l.
     lbind (eval_expr_with_outer Q x right r outer_row) (\<lambda>v.
     in_env Q (\<lambda>E. eval_binary_op (floats E) (json_of E) l op v)))"
  "eval_expr_with_outer Q x (EUnaryOp uop e) r outer_row =
     lbind (eval_expr_with_outer Q x e r outer_row) (\<lambda>v. xread (\<lambda>_. eval_unary_op uop v))"
  "eval_expr_with_outer Q x (EIsNull e) r outer_row =
     lbind (eval_expr_with_outer Q x e r outer_row) (\<lambda>v. xret (VBool (v = VNull)))"
  "eval_expr_with_outer Q x (EIsNotNull e) r outer_row =
     lbind (eval_expr_with_outer Q x e r outer_row) (\<lambda>v. xret (VBool (v \<noteq> VNull)))"
  "eval_expr_with_outer Q x (EInSubquery e sub negated) r outer_row =
     lbind (eval_expr_with_outer Q x e r outer_row) (\<lambda>v.
     if v = VNull then xret VNull
     else lbind (exec_plan_correlated Q x sub (merge_rows r outer_row)) (\<lambda>rs.
       xret (VBool (found_in (number_lib (base Q)) rs v \<noteq> negated))))"
  "eval_expr_with_outer Q x (EExists sub negated) r outer_row =
     lbind (exec_plan_correlated Q x sub (merge_rows r outer_row)) (\<lambda>rs. xret (VBool ((rs \<noteq> []) \<noteq> negated)))"
  "eval_expr_with_outer Q x (EScalarSubquery sub) r outer_row =
     lbind (exec_plan_correlated Q x sub (merge_rows r outer_row)) (\<lambda>rs. xread (\<lambda>_. scalar_result rs))"
  by (subst eval_expr_with_outer.simps, simp)+

lemma values_with_ctes [simp]: "exec_plan_with_ctes Q x (PValues schema vss) cm = exec_plan Q x (PValues schema vss)"
  by (subst exec_plan_with_ctes.simps) simp

declare exec_plan_with_ctes.simps [simp del] exec_plan_correlated.simps [simp del] eval_expr_with_outer.simps [simp del]

section \<open>Queries write nothing\<close>

definition reads_only :: "query_lib \<Rightarrow> bool" where
  "reads_only Q \<longleftrightarrow> (\<forall>cat name. calm (system_rows Q cat name))"

lemma calm_lread [calm_intros]: "calm (lread f)"
  by (auto simp: calm_def lread_def)

lemma calm_scan_table [calm_intros]: "calm (scan_table Q x name alias schema cond)"
  by (auto simp: calm_def scan_table_def exec_table_scan_def kept_def split: prod.splits if_splits dest: scan_keeps)

lemma get_table_oid_keeps:
  "get_table_oid sn tn (m, c) = Some (r, (m', c')) \<Longrightarrow> m' = m \<and> unique_registry (registries c') = unique_registry (registries c)"
  by (auto simp: get_table_oid_def named_table_def resolve_namespace_def lbind_def ltotal_def slift_def smod_def sret_def
      split: option.splits prod.splits outcome.splits)

lemma calm_get_table_oid [calm_intros]: "calm (on_catalog (get_table_oid sn tn))"
  by (auto simp: calm_def on_catalog_def kept_def split: option.splits prod.splits dest: get_table_oid_keeps)

lemma calm_scan_index [calm_intros]: "calm (scan_index Q x name schema col ev rs re cond)"
  unfolding scan_index_def by (intro calm_intros)

lemma calm_series [calm_intros]: "calm (exec_generate_series Q a b c)"
  unfolding exec_generate_series_def by (intro calm_intros)

lemma calm_aggregate [calm_intros]: "calm (aggregate_rows Q g a h sets rs)"
  unfolding aggregate_rows_def by (intro calm_intros)

lemma calm_rounds [calm_intros]: "(\<And>f. calm (step f)) \<Longrightarrow> calm (recursive_rounds F c schema step n met frontier acc)"
  by (induction n arbitrary: met frontier acc) (auto intro!: calm_intros split: prod.split simp: Let_def)

lemma calm_lfilter [calm_intros]: "(\<And>a. calm (p a)) \<Longrightarrow> calm (lfilter p as)"
  by (induction as) (auto intro!: calm_intros)

lemma calm_plans:
  "reads_only Q \<Longrightarrow> calm (exec_plan Q x p)"
  "reads_only Q \<Longrightarrow> calm (exec_plan_with_ctes Q x p cm)"
  "reads_only Q \<Longrightarrow> calm (exec_cte_list Q x b ctes cm)"
  "reads_only Q \<Longrightarrow> calm (exec_plan_correlated Q x p r)"
  "reads_only Q \<Longrightarrow> calm (eval_expr_with_outer Q x e r outer_row)"
  "reads_only Q \<Longrightarrow> calm (eval_outer_columns Q x cols r outer_row)"
proof (induction Q x p and Q x p cm and Q x b ctes cm and Q x p r and Q x e r outer_row and Q x cols r outer_row
    rule: exec_plan_exec_plan_with_ctes_exec_cte_list_exec_plan_correlated_eval_expr_with_outer_eval_outer_columns.induct)
  case (18 Q x p cm)
  show ?case
    using 18 by (cases p) (subst exec_plan_with_ctes.simps, (simp; fail)?, (simp, (assumption | rule calm_intros | simp)+)?)+
next
  case (21 Q x p r)
  show ?case
    using 21 by (cases p) (subst exec_plan_correlated.simps, (simp; fail)?, (simp, (assumption | rule calm_intros | simp)+)?)+
next
  case (22 Q x e r outer_row)
  show ?case
    using 22 by (cases e) (subst eval_expr_with_outer.simps, (simp; fail)?, (simp, (assumption | rule calm_intros | simp)+)?)+
qed (simp_all only: exec_plan.simps exec_cte_list.simps eval_outer_columns.simps Let_def,
     (assumption | rule calm_intros | simp add: reads_only_def)+)

text \<open>
  A query changes nothing that anybody sees: whatever the plan is and however it ends, every table, the log, all write locks
  and the undo log are as before, and every transaction sees the same rows. The hypothesis says the same of
  the virtual catalogs.
\<close>

theorem queries_write_nothing:
  assumes "reads_only Q" and "exec_plan Q x p s = Some (r, s')" and "store_inv n s"
  shows "x_heaps s' = x_heaps s \<and> tm_wal (x_mgr s') = tm_wal (x_mgr s) \<and> x_undo s' = x_undo s
    \<and> (\<forall>k. lock_of (x_mgr s') k = lock_of (x_mgr s) k)
    \<and> (\<forall>y oid. rows y (x_mgr s', x_heaps s' oid) = rows y (x_mgr s, x_heaps s oid))"
proof -
  have k: "kept s s'" by (rule calmD [OF calm_plans(1) [OF assms(1)] assms(2)])
  have "rows y (x_mgr s', x_heaps s' oid) = rows y (x_mgr s, x_heaps s oid)" for y oid
    using kept_seen [OF k assms(3), of y "key_table\<lparr>ts_oid := oid\<rparr>"] by simp
  then show ?thesis using k by (simp add: kept_def lock_of_def)
qed

definition plain_query :: query_lib where
  "plain_query = \<lparr>base = plain_lib, key_hash = (=), system_rows = (\<lambda>_ _. xerr NotImplemented)\<rparr>"

lemma plain_query_reads: "reads_only plain_query"
  by (auto simp: reads_only_def plain_query_def intro: calm_basic)

theorem queries_write_nothing_witness:
  "\<exists>m s' r. exec_plan plain_query 3 (PFilter (PTableScan (lit ''t'') None key_table None) (ELiteral (VBool True))) (key_store m) = Some (Ok r, s')
    \<and> x_heaps s' = x_heaps (key_store m) \<and> (\<forall>y. rows y (x_mgr s', x_heaps s' 1000) = rows y (m, []))"
proof (rule one_row)
  fix w s1 s2 k
  assume a: "db_inv (Some []) 998 s1" "snd s1 = []"
  let ?s = "key_store (fst s1)" and ?p = "PFilter (PTableScan (lit ''t'') None key_table None) (ELiteral (VBool True))"
  have inv: "store_inv 998 ?s" using db_inv_None [OF a(1)] a(2) by (cases s1) (simp add: store_inv_def key_store_def)
  have run: "exec_plan plain_query 3 ?p ?s = Some (Ok [], ?s)"
    by (simp add: scan_table_def exec_table_scan_def key_store_def empty_scan lit_def slift_def exec_filter_def okfilter_def ocollect_def)
  from queries_write_nothing [OF plain_query_reads run inv] run
  show ?thesis by (intro exI [of _ "fst s1"] exI [of _ ?s] exI [of _ "[]"]) (simp add: key_store_def)
qed

section \<open>WITH\<close>

text \<open>A plan without a \<^verbatim>\<open>WITH\<close> of its own that scans none of the names \<open>cm\<close> knows and has no \<^verbatim>\<open>INTERSECT ALL\<close> or \<^verbatim>\<open>EXCEPT ALL\<close>.\<close>

fun untouched :: "(rstring \<rightharpoonup> row list) \<Rightarrow> logical_plan \<Rightarrow> bool" where
  "untouched cm (PTableScan name alias schema cond) \<longleftrightarrow> cm name = None"
| "untouched cm (PFilter p e) = untouched cm p"
| "untouched cm (PProject p cols d) = untouched cm p"
| "untouched cm (PJoin l r j c u alg) \<longleftrightarrow> untouched cm l \<and> untouched cm r"
| "untouched cm (PAggregate p g a h s) = untouched cm p"
| "untouched cm (PSort p ks) = untouched cm p"
| "untouched cm (PLimit p n m) = untouched cm p"
| "untouched cm (PWindow p ws) = untouched cm p"
| "untouched cm (PSetOp op all l r) \<longleftrightarrow> (all \<longrightarrow> op = Union_op) \<and> untouched cm l \<and> untouched cm r"
| "untouched cm (PCte ctes p) = False"
| "untouched cm _ = True"

lemma cte_set_op_eq: "(all \<longrightarrow> op = Union_op) \<Longrightarrow> cte_set_op op all ls rs = set_op_rows op all ls rs"
  by (cases op) (auto simp: cte_set_op_def set_op_rows_def Let_def)

text \<open>
  A query under a \<^verbatim>\<open>WITH\<close> that does not use it is the query alone.
\<close>

theorem unused_with_changes_nothing:
  "untouched cm p \<Longrightarrow> exec_plan_with_ctes Q x p cm = exec_plan Q x p"
  by (induction cm p rule: untouched.induct) (subst exec_plan_with_ctes.simps, simp add: cte_set_op_eq)+

theorem unused_with_changes_nothing_witness:
  "exec_plan_with_ctes plain_query 3 (PSetOp Intersect_op False (PValues [(lit ''a'', TInt4)] [[VInt4 1], [VInt4 1]]) (PValues [(lit ''a'', TInt4)] [[VInt4 1]]))
     [lit ''t'' \<mapsto> []] =
   exec_plan plain_query 3 (PSetOp Intersect_op False (PValues [(lit ''a'', TInt4)] [[VInt4 1], [VInt4 1]]) (PValues [(lit ''a'', TInt4)] [[VInt4 1]]))"
  by (rule unused_with_changes_nothing) simp

text \<open>
  Finding. Under a \<^verbatim>\<open>WITH\<close>, \<^verbatim>\<open>INTERSECT ALL\<close> keeps every copy of the left side that occurs on the right at all, and \<^verbatim>\<open>EXCEPT
  ALL\<close> removes every such copy; alone they keep and remove one copy per row of the right side.
\<close>

theorem with_changes_intersect_all:
  fixes Q :: query_lib
  defines "one \<equiv> [VInt4 1]" and "sch \<equiv> [(lit ''a'', TInt4)]"
  defines "p \<equiv> \<lambda>op. PSetOp op True (PValues sch [one, one]) (PValues sch [one])"
  shows "exec_plan Q x (p Intersect_op) s = Some (Ok [\<lparr>row_values = one, row_schema = sch\<rparr>], s)
    \<and> exec_plan_with_ctes Q x (p Intersect_op) cm s = Some (Ok [\<lparr>row_values = one, row_schema = sch\<rparr>, \<lparr>row_values = one, row_schema = sch\<rparr>], s)
    \<and> exec_plan Q x (p Except_op) s = Some (Ok [\<lparr>row_values = one, row_schema = sch\<rparr>], s)
    \<and> exec_plan_with_ctes Q x (p Except_op) cm s = Some (Ok [], s)"
  by (simp add: p_def one_def sch_def sret_def set_op_rows_def cte_set_op_def first_schema_def rows_contain_def val_eq.simps position_def Let_def)

section \<open>Correlated plans\<close>

text \<open>
  An expression, a plan that mentions no column of the row outside: its columns are not qualified and have no namesake there,
  and it has no subqueries of its own.
\<close>

fun inner_expr :: "row \<Rightarrow> logical_plan expr \<Rightarrow> bool" where
  "inner_expr outer_row (EColumn table name) \<longleftrightarrow> table = None \<and> row_get outer_row name = None \<and> columns_named outer_row name = []"
| "inner_expr outer_row (EBinaryOp left op right) \<longleftrightarrow> inner_expr outer_row left \<and> inner_expr outer_row right"
| "inner_expr outer_row (EUnaryOp op e) = inner_expr outer_row e"
| "inner_expr outer_row (EIsNull e) = inner_expr outer_row e"
| "inner_expr outer_row (EIsNotNull e) = inner_expr outer_row e"
| "inner_expr outer_row (EInSubquery e p n) = False"
| "inner_expr outer_row (EExists p n) = False"
| "inner_expr outer_row (EScalarSubquery p) = False"
| "inner_expr outer_row _ = True"

fun inner_plan :: "(rstring \<rightharpoonup> row list) \<Rightarrow> row \<Rightarrow> logical_plan \<Rightarrow> bool" where
  "inner_plan cm outer_row (PTableScan name alias schema cond) \<longleftrightarrow> cm name = None \<and> cond = None"
| "inner_plan cm outer_row (PFilter p e) \<longleftrightarrow> inner_plan cm outer_row p \<and> inner_expr outer_row e"
| "inner_plan cm outer_row (PProject p cols d) \<longleftrightarrow> inner_plan cm outer_row p \<and> list_all (\<lambda>c. inner_expr outer_row (snd c)) cols"
| "inner_plan cm outer_row (PJoin l r j c u alg) \<longleftrightarrow> inner_plan cm outer_row l \<and> inner_plan cm outer_row r"
| "inner_plan cm outer_row (PAggregate p g a h s) = inner_plan cm outer_row p"
| "inner_plan cm outer_row (PSort p ks) = inner_plan cm outer_row p"
| "inner_plan cm outer_row (PLimit p n m) = inner_plan cm outer_row p"
| "inner_plan cm outer_row _ = True"

lemma inner_column:
  "row_get outer_row name = None \<Longrightarrow> columns_named outer_row name = [] \<Longrightarrow> bare_column name r outer_row = eval_column lower None name r"
  by (auto simp: bare_column_def eval_column_def split: option.splits list.splits)

text \<open>An operation that only reads is an evaluation.\<close>

definition evaluates :: "'a xop \<Rightarrow> (exec_state \<Rightarrow> (sql_error, 'a) outcome) \<Rightarrow> bool" where
  "evaluates f g \<longleftrightarrow> (\<forall>s. f s = Some (g s, s))"

lemma evaluatesD: "evaluates f g \<Longrightarrow> f = xread g"
  by (rule ext) (simp add: evaluates_def slift_def)

lemma evaluates_basic [intro!]: "evaluates (xread g) g" "evaluates (xret v) (\<lambda>_. Ok v)" "evaluates (xeval L e r) (\<lambda>s. eval_expr (eval_in L s) e r)"
  by (simp_all add: evaluates_def slift_def sret_def xeval_def)

lemma lbind_xret: "lbind f (\<lambda>v. xret v) = f"
  by (rule ext) (auto simp: lbind_def sret_def split: option.splits prod.splits outcome.splits)

lemma evaluates_lbind: "evaluates f g \<Longrightarrow> (\<And>v. evaluates (f' v) (g' v)) \<Longrightarrow> evaluates (lbind f f') (\<lambda>s. obind (g s) (\<lambda>v. g' v s))"
  by (auto simp: evaluates_def lbind_def split: outcome.split)

lemma eval_inner: "inner_expr outer_row e \<Longrightarrow> evaluates (eval_expr_with_outer Q x e r outer_row) (\<lambda>s. eval_expr (eval_in (base Q) s) e r)"
proof (induction e)
  case (EColumn table name)
  then show ?case
    by (simp add: evaluates_def outer_column_def inner_column [where lower = "unicode_lower (base Q)"] eval_in_def slift_def)
next
  case (EBinaryOp left op right)
  then show ?case
    using evaluates_lbind [OF EBinaryOp.IH(1) evaluates_lbind [OF EBinaryOp.IH(2) evaluates_basic(1)]] by simp
next
  case (EUnaryOp op e)
  then show ?case using evaluates_lbind [OF EUnaryOp.IH evaluates_basic(1)] by simp
next
  case (EIsNull e)
  then show ?case using evaluates_lbind [OF EIsNull.IH evaluates_basic(2)] by simp
next
  case (EIsNotNull e)
  then show ?case using evaluates_lbind [OF EIsNotNull.IH evaluates_basic(2)] by simp
qed ((simp; fail) | (subst eval_expr_with_outer.simps, simp only: expr.case, rule evaluates_basic(3)))+

lemma filter_inner:
  assumes "inner_expr outer_row e"
  shows "evaluates (lfilter (\<lambda>r. lbind (eval_expr_with_outer Q x e r outer_row) (\<lambda>v. xret (v = VBool True))) rs)
    (\<lambda>s. exec_filter (eval_in (base Q) s) rs e)"
proof (induction rs)
  case Nil
  then show ?case by (simp add: evaluates_def sret_def exec_filter_def okfilter_def ocollect_def)
next
  case (Cons r rs)
  have "obind (obind (eval_expr E e r) (\<lambda>v. Ok (v = VBool True))) (\<lambda>b. obind (exec_filter E rs e) (\<lambda>bs. Ok (if b then r # bs else bs)))
      = exec_filter E (r # rs) e" for E
    by (cases "eval_expr E e r"; cases "omap (\<lambda>x. obind (holds E e x) (\<lambda>b. Ok (if b then [x] else []))) rs")
      (simp_all add: exec_filter_def okfilter_def ocollect_def holds_def)
  then have step: "exec_filter E (r # rs) e =
      obind (obind (eval_expr E e r) (\<lambda>v. Ok (v = VBool True))) (\<lambda>b. obind (exec_filter E rs e) (\<lambda>bs. Ok (if b then r # bs else bs)))" for E
    by simp
  show ?case unfolding step lfilter.simps by (intro evaluates_lbind eval_inner [OF assms] evaluates_basic Cons)
qed

lemma columns_inner:
  "list_all (\<lambda>c. inner_expr outer_row (snd c)) cols \<Longrightarrow>
    evaluates (eval_outer_columns Q x cols r outer_row) (\<lambda>s. omap (\<lambda>(_, e). eval_expr (eval_in (base Q) s) e r) cols)"
proof (induction cols)
  case (Cons c cols)
  then show ?case
    using evaluates_lbind [OF eval_inner [of outer_row "snd c" Q x r] evaluates_lbind [OF Cons.IH evaluates_basic(2)]]
    by (simp add: case_prod_unfold)
qed (simp add: evaluates_def sret_def)

lemma project_inner:
  assumes "list_all (\<lambda>c. inner_expr outer_row (snd c)) cols"
  shows "evaluates (lmap (\<lambda>r. lbind (eval_outer_columns Q x cols r outer_row) (\<lambda>vs.
      xret \<lparr>row_values = vs, row_schema = map (\<lambda>(name, e). (name, infer_expr_type (unicode_lower (base Q)) e (row_schema r))) cols\<rparr>)) rs)
    (\<lambda>s. exec_project (eval_in (base Q) s) rs cols)"
proof (induction rs)
  case (Cons r rs)
  have step: "exec_project (eval_in (base Q) s) (r # rs) cols = obind (obind (omap (\<lambda>(_, e). eval_expr (eval_in (base Q) s) e r) cols) (\<lambda>vs.
      Ok \<lparr>row_values = vs, row_schema = map (\<lambda>(name, e). (name, infer_expr_type (unicode_lower (base Q)) e (row_schema r))) cols\<rparr>))
    (\<lambda>q. obind (exec_project (eval_in (base Q) s) rs cols) (\<lambda>qs. Ok (q # qs)))" for s
    by (simp add: exec_project_def) (simp add: eval_in_def)
  show ?case unfolding step lmap.simps by (intro evaluates_lbind columns_inner [OF assms] evaluates_basic Cons)
qed (simp add: evaluates_def sret_def exec_project_def)

text \<open>
  \<^bold>\<open>C18.\<close> A plan that mentions no column of the row outside is evaluated as if it stood alone: the subquery returns the same for
  every row of the query around it.
\<close>

theorem uncorrelated_plans_stand_alone:
  "inner_plan (cte_context (base Q)) outer_row p \<Longrightarrow> exec_plan_correlated Q x p outer_row = exec_plan Q x p"
proof (induction "cte_context (base Q)" outer_row p rule: inner_plan.induct)
  case (1 outer_row name al schema cond)
  then show ?case by (simp add: lbind_xret)
next
  case (2 outer_row p e)
  then show ?case by (simp add: evaluatesD [OF filter_inner])
next
  case (3 outer_row p cols d)
  then show ?case by (simp add: evaluatesD [OF project_inner])
qed (subst exec_plan_correlated.simps, simp)+

theorem uncorrelated_plans_stand_alone_witness:
  "exec_plan_correlated plain_query 3 (PFilter (PTableScan (lit ''t'') None key_table None) (EIsNull (EColumn None (lit ''a'')))) (one_column ''b'' (VInt4 1)) =
   exec_plan plain_query 3 (PFilter (PTableScan (lit ''t'') None key_table None) (EIsNull (EColumn None (lit ''a''))))"
  by (rule uncorrelated_plans_stand_alone)
    (simp add: plain_query_def plain_lib_def row_get_def position_def one_column_def columns_named_def ends_with_def lit_def)

text \<open>
  Finding. Only operators and null tests look at the row outside: a cast, a function call, a \<^verbatim>\<open>CASE\<close> and the like evaluate their
  arguments in the inner row alone. A column that exists outside only is found by itself and not found inside a cast.
\<close>

theorem casts_do_not_see_the_outer_row:
  assumes "row_get r name = None" and "columns_named r name = []" and "row_get outer_row name = Some v"
  shows "eval_expr_with_outer Q x (EColumn None name) r outer_row s = Some (Ok v, s)
    \<and> eval_expr_with_outer Q x (ECast (EColumn None name) ty) r outer_row s = Some (Err (SqlColumnNotFound name), s)"
proof -
  have "eval_expr_with_outer Q x (ECast (EColumn None name) ty) r outer_row = xeval (base Q) (ECast (EColumn None name) ty) r"
    by (subst eval_expr_with_outer.simps) simp
  then show ?thesis
    using assms by (simp add: outer_column_def bare_column_def slift_def xeval_def eval_column_def)
qed

section \<open>Series\<close>

definition series_length :: "int \<Rightarrow> int \<Rightarrow> int \<Rightarrow> nat" where
  "series_length a b d = (if a \<le> b then nat ((b - a) div d) + 1 else 0)"

lemma series_length_step:
  assumes "a \<le> b" and "0 < d"
  shows "series_length a b d = Suc (series_length (a + d) b d)"
proof (cases "a + d \<le> b")
  case True
  have "(b - a) div d = (b - (a + d)) div d + 1" using assms(2) div_add_self2 [of d "b - (a + d)"] by simp
  moreover have "0 \<le> (b - (a + d)) div d" using True assms(2) by (simp add: pos_imp_zdiv_nonneg_iff)
  ultimately show ?thesis using True assms(1) by (simp add: series_length_def)
next
  case False
  then have "(b - a) div d = 0" using assms by (simp add: div_pos_pos_trivial)
  then show ?thesis using False assms(1) by (simp add: series_length_def)
qed

text \<open>
  \<^bold>\<open>C19.\<close> A rising series ends and has exactly the numbers it should, if a step beyond its end still is a 64-bit number.
\<close>

theorem rising_series_is_exact:
  assumes "0 < sint step" and "sint stop + sint step < 2 ^ 63"
  shows "series_loop i stop step
    = Some (map (\<lambda>k. word_of_int (sint i + int k * sint step)) [0..<series_length (sint i) (sint stop) (sint step)])"
proof (induction "series_length (sint i) (sint stop) (sint step)" arbitrary: i)
  case 0
  then have "sint stop < sint i" by (auto simp: series_length_def split: if_splits)
  then show ?case using 0 assms(1) by (subst series_loop.simps) (simp add: series_length_def)
next
  case (Suc n)
  then have le: "sint i \<le> sint stop" by (auto simp: series_length_def split: if_splits)
  have "sint i + sint step < 2 ^ 63" "- (2 ^ 63) \<le> sint i + sint step"
    using le assms sint_ge [of i] by simp_all
  then have s: "sint (i + step) = sint i + sint step" by (simp add: sint_word_ariths signed_take_bit_int_eq_self)
  have len: "series_length (sint i) (sint stop) (sint step) = Suc (series_length (sint (i + step)) (sint stop) (sint step))"
    using series_length_step [OF le assms(1)] s by simp
  have "series_loop (i + step) stop step
      = Some (map (\<lambda>k. word_of_int (sint (i + step) + int k * sint step)) [0..<series_length (sint (i + step)) (sint stop) (sint step)])"
    by (rule Suc.hyps(1)) (use Suc.hyps(2) len in simp)
  then have "series_loop i stop step = Some (i # map (\<lambda>k. word_of_int (sint (i + step) + int k * sint step))
      [0..<series_length (sint (i + step)) (sint stop) (sint step)])"
    using le assms(1) by (subst series_loop.simps) simp
  also have "\<dots> = Some (map (\<lambda>k. word_of_int (sint i + int k * sint step)) [0..<series_length (sint i) (sint stop) (sint step)])"
    unfolding len s by (simp add: upt_conv_Cons map_Suc_upt [symmetric] algebra_simps del: upt_Suc)
  finally show ?case .
qed

theorem rising_series_is_exact_witness: "series_loop 3 10 4 = Some [3, 7]"
  using rising_series_is_exact [of 4 10 3] by (simp add: series_length_def)

text \<open>
  Finding. A series up to the largest number never ends: the counter wraps around to the smallest one.
\<close>

theorem series_to_the_maximum_never_ends: "series_loop i 0x7FFFFFFFFFFFFFFF 1 = None"
proof -
  have "sint j \<le> 0x7FFFFFFFFFFFFFFF" for j :: u64 using sint_lt [of j] by simp
  then have more: "series_loop j 0x7FFFFFFFFFFFFFFF 1 = Option.bind (series_loop (j + 1) 0x7FFFFFFFFFFFFFFF 1) (\<lambda>rest. Some (j # rest))" for j
    by (subst series_loop.simps) simp
  have "series_loop j 0x7FFFFFFFFFFFFFFF 1 \<noteq> Some ns" for ns j
  proof (induction ns arbitrary: j)
    case Nil
    then show ?case by (subst more) (auto simp: Option.bind_eq_Some_conv)
  next
    case (Cons n ns)
    then show ?case by (subst more) (auto simp: Option.bind_eq_Some_conv)
  qed
  then show ?thesis by (cases "series_loop i 0x7FFFFFFFFFFFFFFF 1") auto
qed

end
