(* ===== verification/Sql_Array.thy ===== *)
theory Sql_Array
  imports Sql_Join Sql_Row
begin

text \<open>
  Arrays in stored rows: \<^verbatim>\<open>value_to_json_value\<close> and \<^verbatim>\<open>json_value_to_value\<close> of \<^verbatim>\<open>sql/src/value.rs\<close>, which turn the elements
  of an array into JSON values and back. The text of a JSON value is printed and parsed by the crate \<^verbatim>\<open>serde_json\<close>,
  a parameter (\<open>json_lib\<close>), as are its floating point numbers. With them the parameter \<open>array_codec\<close> of the row codec
  is a definition, and rows with arrays come back as they were stored.
\<close>

section \<open>Conversions\<close>

record array_lib =
  json_text :: json_lib
  number_of_f64 :: "u64 \<Rightarrow> rstring option"
  number_as_f64 :: "rstring \<Rightarrow> u64 option"

fun value_to_json_value :: "array_lib \<Rightarrow> val \<Rightarrow> json" where
  "value_to_json_value S VNull = JNull"
| "value_to_json_value S (VBool b) = JBool b"
| "value_to_json_value S (VInt4 i) = JNumber (fmt_int 0 (sint i))"
| "value_to_json_value S (VInt8 i) = JNumber (fmt_int 0 (sint i))"
| "value_to_json_value S (VFloat8 f) = (case number_of_f64 S f of Some n \<Rightarrow> JNumber n | None \<Rightarrow> JNull)"
| "value_to_json_value S (VText s) = JString s"
| "value_to_json_value S (VNumeric s) = JString s"
| "value_to_json_value S (VUuid s) = JString s"
| "value_to_json_value S (VJson s) = (case j_parse (json_text S) s of Some j \<Rightarrow> j | None \<Rightarrow> JString s)"
| "value_to_json_value S (VArray vs) = JArray (map (value_to_json_value S) vs)"
| "value_to_json_value S (VBytes b) = JString (hex_encode b)"
| "value_to_json_value S (VDate d) = JString (format_date (sint d))"
| "value_to_json_value S (VTimestamp t) = JString (format_timestamp (sint t))"

text \<open>\<^verbatim>\<open>as_i64\<close> of a number is its value when it is an integer of 64 bits.\<close>

definition as_i64_or_0 :: "rstring \<Rightarrow> int" where
  "as_i64_or_0 n = (case parse_i64 n of Some i \<Rightarrow> i | None \<Rightarrow> 0)"

fun json_value_to_value :: "array_lib \<Rightarrow> json \<Rightarrow> data_type \<Rightarrow> (sql_error, val) outcome"
  and json_values_to_values :: "array_lib \<Rightarrow> json list \<Rightarrow> data_type \<Rightarrow> (sql_error, val list) outcome" where
  "json_value_to_value S JNull dt = Ok VNull"
| "json_value_to_value S (JBool b) dt = Ok (VBool b)"
| "json_value_to_value S (JNumber n) dt =
     (case dt of
        TInt4 \<Rightarrow> Ok (VInt4 (word_of_int (as_i64_or_0 n)))
      | TInt8 \<Rightarrow> Ok (VInt8 (word_of_int (as_i64_or_0 n)))
      | TFloat8 \<Rightarrow> Ok (VFloat8 (case number_as_f64 S n of Some f \<Rightarrow> f | None \<Rightarrow> 0))
      | _ \<Rightarrow> Ok (VText n))"
| "json_value_to_value S (JString s) dt = Ok (VText s)"
| "json_value_to_value S (JArray js) dt =
     (case dt of
        TArray inner \<Rightarrow> obind (json_values_to_values S js inner) (\<lambda>vs. Ok (VArray vs))
      | _ \<Rightarrow> Ok (VJson (j_text (json_text S) (JArray js))))"
| "json_value_to_value S (JObject kvs) dt = Ok (VJson (j_text (json_text S) (JObject kvs)))"
| "json_values_to_values S [] dt = Ok []"
| "json_values_to_values S (j # js) dt =
     obind (json_value_to_value S j dt) (\<lambda>v. obind (json_values_to_values S js dt) (\<lambda>vs. Ok (v # vs)))"

text \<open>The array cases of \<^verbatim>\<open>to_bytes\<close> and \<^verbatim>\<open>from_bytes\<close>.\<close>

definition json_arrays :: "array_lib \<Rightarrow> array_codec" where
  "json_arrays S = \<lparr>
     ser = (\<lambda>vs. j_text (json_text S) (JArray (map (value_to_json_value S) vs))),
     de = (\<lambda>inner s. case j_parse (json_text S) s of
         Some (JArray js) \<Rightarrow> json_values_to_values S js inner
       | _ \<Rightarrow> Err TypeError)\<rparr>"

section \<open>Arrays that come back\<close>

text \<open>
  The elements that survive the way through JSON: nulls, booleans, integers and texts of the declared type, and arrays
  of them.
\<close>

fun element :: "data_type \<Rightarrow> val \<Rightarrow> bool" where
  "element dt VNull \<longleftrightarrow> True"
| "element dt (VBool b) \<longleftrightarrow> dt = TBoolean"
| "element dt (VInt4 i) \<longleftrightarrow> dt = TInt4"
| "element dt (VInt8 i) \<longleftrightarrow> dt = TInt8"
| "element dt (VText s) \<longleftrightarrow> dt = TText \<or> (\<exists>n. dt = TVarChar n)"
| "element dt (VArray vs) \<longleftrightarrow> (\<exists>u. dt = TArray u \<and> list_all (element u) vs)"
| "element dt _ \<longleftrightarrow> False"

lemma parse_fmt_int0:
  assumes "lo \<le> x" "x \<le> hi"
  shows "parse_int lo hi (fmt_int 0 x) = Some x"
proof (cases "0 \<le> x")
  case False
  then have "fmt_int 0 x = 45 # dec (nat (- x))" by (simp add: fmt_int_def)
  then show ?thesis using False assms dec_digits [of "nat (- x)"] by (simp add: parse_int_def digits_val_dec)
qed (use assms in \<open>simp add: parse_fmt_int\<close>)

lemma as_i64_fmt: "as_i64_or_0 (fmt_int 0 (sint i)) = sint i" for i :: u64
  using parse_fmt_int0 [of _ "sint i"] sint_ge [of i] sint_lt [of i] by (simp add: as_i64_or_0_def)

lemma as_i64_fmt32: "as_i64_or_0 (fmt_int 0 (sint i)) = sint i" for i :: u32
  using parse_fmt_int0 [of _ "sint i"] sint_ge [of i] sint_lt [of i] by (simp add: as_i64_or_0_def)

lemma element_back: "element dt v \<Longrightarrow> json_value_to_value S (value_to_json_value S v) dt = Ok v"
proof (induction v arbitrary: dt)
  case (VArray vs)
  then obtain u where u: "dt = TArray u" "\<forall>v \<in> set vs. element u v" by (auto simp: list_all_iff)
  have "json_values_to_values S (map (value_to_json_value S) vs) u = Ok vs"
    using VArray.IH u(2) by (induction vs) auto
  then show ?case using u(1) by simp
qed (auto simp: as_i64_fmt as_i64_fmt32)

lemma elements_back:
  assumes "\<forall>v \<in> set vs. element u v"
  shows "json_values_to_values S (map (value_to_json_value S) vs) u = Ok vs"
  using assms by (induction vs) (auto simp: element_back)


text \<open>What the code relies on of \<^verbatim>\<open>serde_json\<close>: the text it prints for the elements is UTF-8 and it reads it back.\<close>

definition reads_back :: "array_lib \<Rightarrow> val list \<Rightarrow> bool" where
  "reads_back S vs \<longleftrightarrow>
     (let j = JArray (map (value_to_json_value S) vs); s = j_text (json_text S) j in
      j_parse (json_text S) s = Some j \<and> utf8_ok s \<and> length s < 2 ^ 32)"

definition storable_in :: "array_lib \<Rightarrow> val \<Rightarrow> data_type \<Rightarrow> bool" where
  "storable_in S v t \<longleftrightarrow> v = VNull \<or> has_type v t \<and>
     (case v of VText s \<Rightarrow> length s < 2 ^ 32 | VBytes b \<Rightarrow> length b < 2 ^ 32 | VNumeric s \<Rightarrow> length s < 2 ^ 32
      | VUuid s \<Rightarrow> length s < 2 ^ 32 | VJson s \<Rightarrow> length s < 2 ^ 32
      | VArray vs \<Rightarrow> element t v \<and> reads_back S vs
      | _ \<Rightarrow> True)"

lemma storable_json: "storable_in S v t \<Longrightarrow> storable (json_arrays S) v t"
  by (cases v) (auto simp: storable_in_def storable_def json_arrays_def reads_back_def Let_def list_all_iff elements_back)

text \<open>
  \<^bold>\<open>C35.\<close> A stored row comes back exactly as it was, nulls and arrays included: in a table of at most 32 columns, when every value
  has the type of its column, texts and arrays take less than four gigabytes, and the elements of arrays are booleans,
  integers, texts and nulls, or arrays of them. \<^verbatim>\<open>serde_json\<close> reads back what it has printed for the arrays.
\<close>

theorem stored_row_comes_back:
  assumes "list_all2 (storable_in S) (row_values r) (map col_type (columns schema))"
    and "row_schema r = map (\<lambda>c. (col_name c, col_type c)) (columns schema)" and "length (columns schema) \<le> 32"
  shows "payload_row (json_arrays S) (row_payload (json_arrays S) r) schema = Ok r"
proof (rule payload_roundtrip)
  show "fits (json_arrays S) r schema"
    unfolding fits_def using assms(1,2) list_all2_mono [OF assms(1) storable_json] by simp
qed (fact assms(3))

text \<open>An array of integers with a null, and a library that knows this array.\<close>

definition one_json :: json where
  "one_json = JArray [JNumber (lit ''1''), JNull]"

definition small_json :: array_lib where
  "small_json = \<lparr>json_text = \<lparr>j_parse = (\<lambda>s. if s = lit ''[1,null]'' then Some one_json else None), j_text = (\<lambda>_. lit ''[1,null]'')\<rparr>,
     number_of_f64 = (\<lambda>_. None), number_as_f64 = (\<lambda>_. None)\<rparr>"

definition array_table :: table_schema where
  "array_table = \<lparr>ts_oid = 1000, ts_name = [116], namespace_oid = 100,
     columns = [(int_column [97] 1)\<lparr>col_type := TArray TInt4\<rparr>, int_column [98] 2], foreign_keys = [], check_constraints = []\<rparr>"

theorem stored_row_comes_back_witness:
  "payload_row (json_arrays small_json) (row_payload (json_arrays small_json)
      \<lparr>row_values = [VArray [VInt4 1, VNull], VInt4 7], row_schema = [([97], TArray TInt4), ([98], TInt4)]\<rparr>) array_table
    = Ok \<lparr>row_values = [VArray [VInt4 1, VNull], VInt4 7], row_schema = [([97], TArray TInt4), ([98], TInt4)]\<rparr>"
proof (rule stored_row_comes_back)
  have "fmt_int 0 1 = lit ''1''" by code_simp
  moreover have "utf8_ok (lit ''[1,null]'')" by code_simp
  ultimately have "reads_back small_json [VInt4 1, VNull]" by (simp add: reads_back_def small_json_def one_json_def Let_def) (simp add: lit_def)
  then show "list_all2 (storable_in small_json) (row_values \<lparr>row_values = [VArray [VInt4 1, VNull], VInt4 7],
      row_schema = [([97], TArray TInt4), ([98], TInt4)]\<rparr>) (map col_type (columns array_table))"
    by (simp add: array_table_def int_column_def storable_in_def)
qed (simp_all add: array_table_def int_column_def)

text \<open>
  Finding. Dates, timestamps, numerics, identifiers and bytes in an array are printed as JSON texts and come back as texts.
\<close>

theorem array_elements_lose_their_type:
  "json_value_to_value S (value_to_json_value S (VDate d)) TDate = Ok (VText (format_date (sint d)))
   \<and> json_value_to_value S (value_to_json_value S (VTimestamp t)) TTimestamp = Ok (VText (format_timestamp (sint t)))
   \<and> json_value_to_value S (value_to_json_value S (VNumeric n)) TNumeric = Ok (VText n)
   \<and> json_value_to_value S (value_to_json_value S (VUuid u)) TUuid = Ok (VText u)
   \<and> json_value_to_value S (value_to_json_value S (VBytes b)) TBytea = Ok (VText (hex_encode b))"
  by simp

end
