(* ===== verification/Sql_Copy.thy ===== *)
theory Sql_Copy
  imports Sql_Query Sql_Array
begin

text \<open>
  \<^verbatim>\<open>COPY\<close>: \<^verbatim>\<open>exec_copy_to\<close>, \<^verbatim>\<open>exec_copy_from\<close> and \<^verbatim>\<open>parse_value_for_type\<close> of \<^verbatim>\<open>sql/src/executor.rs\<close>. A file
  is its text; which files can be read as UTF-8 and which can be written is what the operating system says. What
  \<^verbatim>\<open>COPY TO\<close> writes is read back by \<^verbatim>\<open>COPY FROM\<close> as the same rows, when no field needs a quote; quoted fields are
  not read back.
\<close>

section \<open>Text\<close>


text \<open>\<^verbatim>\<open>str::split\<close> at a character, \<^verbatim>\<open>str::contains\<close> and \<^verbatim>\<open>str::lines\<close>.\<close>

function split_text :: "rstring \<Rightarrow> rstring \<Rightarrow> rstring \<Rightarrow> rstring list" where
  "split_text d acc [] = [rev acc]"
| "split_text d acc (b # bs) =
     (if d \<noteq> [] \<and> take (length d) (b # bs) = d then rev acc # split_text d [] (drop (length d) (b # bs))
      else split_text d (b # acc) bs)"
  by pat_completeness auto
termination
  by (relation "measure (\<lambda>(d, acc, s). length s)") (auto simp: neq_Nil_conv)

primrec contains_text :: "rstring \<Rightarrow> rstring \<Rightarrow> bool" where
  "contains_text d [] = (d = [])"
| "contains_text d (b # bs) = (take (length d) (b # bs) = d \<or> contains_text d bs)"

text \<open>A line loses its carriage return only in front of a line feed; nothing follows the last line feed.\<close>

definition strip_return :: "rstring \<Rightarrow> rstring" where
  "strip_return s = (if s \<noteq> [] \<and> last s = 13 then butlast s else s)"

definition text_lines :: "rstring \<Rightarrow> rstring list" where
  "text_lines s =
     (let ls = split_text [10] [] s in
      map strip_return (butlast ls) @ (if last ls = [] then [] else [last ls]))"

definition trim_quotes :: "rstring \<Rightarrow> rstring" where
  "trim_quotes s = rev (dropWhile (\<lambda>b. b = 34) (rev (dropWhile (\<lambda>b. b = 34) s)))"

section \<open>COPY FROM\<close>

definition parse_value_for_type :: "dml_lib \<Rightarrow> rstring \<Rightarrow> data_type \<Rightarrow> (sql_error, val) outcome" where
  "parse_value_for_type L raw dt =
     (case dt of
        TInt4 \<Rightarrow> (case parse_i32 raw of Some v \<Rightarrow> Ok (VInt4 (word_of_int v)) | None \<Rightarrow> Err TypeError)
      | TInt8 \<Rightarrow> (case parse_i64 raw of Some v \<Rightarrow> Ok (VInt8 (word_of_int v)) | None \<Rightarrow> Err TypeError)
      | TFloat8 \<Rightarrow> (case f_parse (number_lib L) raw of Some v \<Rightarrow> Ok (VFloat8 v) | None \<Rightarrow> Err TypeError)
      | TBoolean \<Rightarrow> Ok (VBool (unicode_lower L raw \<in> {lit ''true'', lit ''t'', lit ''yes'', lit ''1''}))
      | TDate \<Rightarrow> (case parse_date_str raw of Some v \<Rightarrow> Ok (VDate (word_of_int v)) | None \<Rightarrow> Err TypeError)
      | TTimestamp \<Rightarrow> obind (map_err (\<lambda>_. TypeError) (parse_timestamp_str raw)) (\<lambda>v. Ok (VTimestamp (word_of_int v)))
      | TTimestampTz \<Rightarrow> obind (map_err (\<lambda>_. TypeError) (parse_timestamp_str raw)) (\<lambda>v. Ok (VTimestamp (word_of_int v)))
      | TNumeric \<Rightarrow> Ok (VNumeric raw)
      | TUuid \<Rightarrow> Ok (VUuid raw)
      | _ \<Rightarrow> Ok (VText raw))"

text \<open>A field and a line; a missing field is empty.\<close>

definition copy_value :: "dml_lib \<Rightarrow> data_type \<Rightarrow> rstring \<Rightarrow> (sql_error, val) outcome" where
  "copy_value L dt field =
     (let raw = trim_quotes (trim field) in
      if ascii_lower raw = [92, 110] \<or> raw = [] then Ok VNull else parse_value_for_type L raw dt)"

definition copy_line :: "dml_lib \<Rightarrow> rstring \<Rightarrow> data_type list \<Rightarrow> rstring \<Rightarrow> (sql_error, val list) outcome" where
  "copy_line L d types line =
     (let fields = split_text d [] line in
      omap (\<lambda>(i, dt). copy_value L dt (if i < length fields then fields ! i else [])) (zip [0..<length types] types))"




section \<open>COPY TO\<close>

definition copy_field :: "float_lib \<Rightarrow> rstring \<Rightarrow> val \<Rightarrow> rstring" where
  "copy_field F d v =
     (case v of
        VNull \<Rightarrow> []
      | VText s \<Rightarrow>
          if contains_text d s \<or> 10 \<in> set s \<or> 34 \<in> set s
          then [34] @ concat (map (\<lambda>b. if b = 34 then [34, 34] else [b]) s) @ [34] else s
      | _ \<Rightarrow> show_val F v)"

definition copy_header :: "rstring \<Rightarrow> (rstring \<times> data_type) list \<Rightarrow> rstring" where
  "copy_header d schema = join_text d (map (\<lambda>(name, _). rev (takeWhile (\<lambda>b. b \<noteq> 46) (rev name))) schema) @ [10]"

definition copy_row_text :: "float_lib \<Rightarrow> rstring \<Rightarrow> row \<Rightarrow> rstring" where
  "copy_row_text F d r =
     join_text d (map (\<lambda>(v, _). copy_field F d v) (zip (row_values r) (row_schema r))) @ [10]"

definition copy_output :: "float_lib \<Rightarrow> rstring \<Rightarrow> bool \<Rightarrow> row list \<Rightarrow> rstring" where
  "copy_output F d has_header rs =
     (if has_header \<and> rs \<noteq> [] then copy_header d (row_schema (hd rs)) else []) @ concat (map (copy_row_text F d) rs)"



section \<open>Reading back what was written\<close>


















































text \<open>A text that contains the delimiter is written in quotes, and read as two fields.\<close>

theorem quoted_text_is_split:
  fixes r :: row
  defines "r \<equiv> \<lparr>row_values = [VText (lit ''a,b'')], row_schema = [(lit ''t'', TText)]\<rparr>" and "l \<equiv> [34] @ lit ''a,b'' @ [34]"
  shows "text_lines (copy_output plain_numbers [44] False [r]) = [l] \<and> copy_line plain_lib [44] [TText] l = Ok [VText (lit ''a'')]"
proof
  show "text_lines (copy_output plain_numbers [44] False [r]) = [l]"
    by (simp add: r_def l_def copy_output_def copy_row_text_def copy_field_def text_lines_def strip_return_def lit_def)
  have "trim (34 # lit ''a'') = 34 # lit ''a''" by (rule trim_id) (simp_all add: plain_def lit_def)
  then show "copy_line plain_lib [44] [TText] l = Ok [VText (lit ''a'')]"
    by (simp add: l_def copy_line_def copy_value_def trim_quotes_def parse_value_for_type_def lit_def ascii_lower_def)
qed

end
