(* ===== verification/Sql_Vacuum.thy ===== *)
theory Sql_Vacuum
  imports Sql_Dml
begin

text \<open>
  \<^verbatim>\<open>VACUUM\<close> and \<^verbatim>\<open>ANALYZE\<close>: \<^verbatim>\<open>exec_vacuum\<close> of \<^verbatim>\<open>sql/src/executor.rs\<close>. The slots of versions whose deleter has
  committed are cleared, directly in the file. The order in which a hash map delivers its entries is a parameter; the
  times of the runs, kept for the autovacuum task, are left out.
\<close>

section \<open>Clearing slots\<close>

definition dead_version :: "xid set \<Rightarrow> tuple_header \<Rightarrow> bool" where
  "dead_version comm h \<longleftrightarrow> t_xmax h \<noteq> 0 \<and> t_xmax h \<in> comm"

definition slot_dead :: "xid set \<Rightarrow> page \<Rightarrow> u16 \<Rightarrow> (page_error, bool) outcome" where
  "slot_dead comm page i =
     (case page_get_tuple page i of
        Ok bytes \<Rightarrow> Ok (TUPLE_HEADER_SIZE \<le> length bytes \<and> (case decode_from bytes of Ok h \<Rightarrow> dead_version comm h | _ \<Rightarrow> False))
      | Err _ \<Rightarrow> Ok False
      | Panic \<Rightarrow> Panic)"

primrec vacuum_slots :: "xid set \<Rightarrow> nat list \<Rightarrow> page \<Rightarrow> nat \<Rightarrow> (page_error, page \<times> nat) outcome" where
  "vacuum_slots comm [] page n = Ok (page, n)"
| "vacuum_slots comm (i # is) page n =
     obind (slot_dead comm page (of_nat i)) (\<lambda>gone.
     if gone then obind (mark_dead page (of_nat i)) (\<lambda>page'. vacuum_slots comm is page' (Suc n))
     else vacuum_slots comm is page n)"

definition vacuum_page :: "xid \<Rightarrow> xid set \<Rightarrow> u32 \<Rightarrow> (heap, heap_error, nat) sop" where
  "vacuum_page x comm pn h =
     (case heap_read_page h pn of
        Err _ \<Rightarrow> (Ok 0, h)
      | Panic \<Rightarrow> (Panic, h)
      | Ok page \<Rightarrow>
          (case vacuum_slots comm [0..<unat (num_slots page)] page 0 of
             Ok (page', n) \<Rightarrow>
               if n = 0 then (Ok 0, h)
               else (case heap_write_page pn (set_prune_xid page' x) h of
                       (Panic, h') \<Rightarrow> (Panic, h')
                     | (_, h') \<Rightarrow> (Ok n, h'))
           | Err e \<Rightarrow> (Err (HeapPage e), h)
           | Panic \<Rightarrow> (Panic, h)))"

primrec vacuum_pages :: "xid \<Rightarrow> xid set \<Rightarrow> nat list \<Rightarrow> (heap, heap_error, nat) sop" where
  "vacuum_pages x comm [] = sret 0"
| "vacuum_pages x comm (i # is) =
     sbind (vacuum_page x comm (of_nat i)) (\<lambda>n. sbind (vacuum_pages x comm is) (\<lambda>k. sret (n + k)))"

definition vacuum_heap :: "xid \<Rightarrow> xid set \<Rightarrow> (heap, heap_error, nat) sop" where
  "vacuum_heap x comm h = vacuum_pages x comm [0..<unat (num_pages h)] h"

definition vacuum_table :: "xid \<Rightarrow> u32 \<Rightarrow> nat xop" where
  "vacuum_table x oid s =
     (case vacuum_heap x (committed_set (x_mgr s)) (x_heaps s oid) of
        (r, h) \<Rightarrow> Some (map_err (\<lambda>e. SqlStorage (StorageHeap e)) r, s\<lparr>x_heaps := (x_heaps s)(oid := h)\<rparr>))"

section \<open>Statistics\<close>

text \<open>The ten most frequent values, those of equal frequency in the order of the hash map.\<close>

definition frequencies :: "((rstring \<times> nat) list \<Rightarrow> (rstring \<times> nat) list) \<Rightarrow> rstring list \<Rightarrow> (rstring \<times> nat) list" where
  "frequencies map_order vs =
     take 10 (sort_key (\<lambda>(_, n). - int n) (map_order (map (\<lambda>v. (v, count_list vs v)) (remdups vs))))"

definition column_statistics ::
  "float_lib \<Rightarrow> ((rstring \<times> nat) list \<Rightarrow> (rstring \<times> nat) list) \<Rightarrow> nat \<Rightarrow> rstring option list \<Rightarrow> column_stats" where
  "column_statistics F map_order n_rows vals =
     (if n_rows = 0 then \<lparr>null_frac = 0, n_distinct = 0, most_common_vals = [], most_common_freqs = []\<rparr>
      else
        let number = (\<lambda>n. f64_of_int (int n)); non_null = List.map_filter id vals; freqs = frequencies map_order non_null in
        \<lparr>null_frac = f_div F (number (length (filter (\<lambda>v. v = None) vals))) (number n_rows),
         n_distinct = number (length (remdups non_null)),
         most_common_vals = map fst freqs,
         most_common_freqs = map (\<lambda>(_, n). f_div F (number n) (number (max (length non_null) 1))) freqs\<rparr>)"

definition text_of_value :: "float_lib \<Rightarrow> val \<Rightarrow> rstring option" where
  "text_of_value F v = (if v = VNull then None else Some (show_val F v))"

definition table_statistics ::
  "float_lib \<Rightarrow> ((rstring \<times> nat) list \<Rightarrow> (rstring \<times> nat) list) \<Rightarrow> column_def list \<Rightarrow> row list \<Rightarrow> rstring \<rightharpoonup> column_stats" where
  "table_statistics F map_order cols rs =
     foldl (\<lambda>m (i, c). m(col_name c \<mapsto>
         column_statistics F map_order (length rs) (map (\<lambda>r. Option.bind (row_get_by_idx r i) (text_of_value F)) rs)))
       Map.empty (enumerate 0 cols)"

definition analyze_table ::
  "dml_lib \<Rightarrow> ((rstring \<times> nat) list \<Rightarrow> (rstring \<times> nat) list) \<Rightarrow> xid \<Rightarrow> rstring \<Rightarrow> rstring \<Rightarrow> unit xop" where
  "analyze_table L map_order x schema table =
     lbind (lattempt (on_catalog (get_table schema table))) (\<lambda>found.
     case found of
       None \<Rightarrow> xret ()
     | Some info \<Rightarrow>
         lbind (lattempt (visible_tuples x (ts_oid info))) (\<lambda>seen_tuples.
         case seen_tuples of
           None \<Rightarrow> xret ()
         | Some visible \<Rightarrow>
             lbind (xread (\<lambda>_. if \<exists>v \<in> set visible. payload_row (arrays L) (tdata (snd v)) info = Panic then Panic
                               else Ok (List.map_filter (\<lambda>v. case payload_row (arrays L) (tdata (snd v)) info of Ok r \<Rightarrow> Some r | _ \<Rightarrow> None) visible))) (\<lambda>rs.
             ltotal (\<lambda>s. (Ok (), s\<lparr>x_cat := (x_cat s)\<lparr>registries :=
               store_table_stats table (table_statistics (number_lib L) map_order (columns info) rs) (registries (x_cat s))\<rparr>\<rparr>)))))"

section \<open>The statement\<close>

definition vacuum_named :: "xid \<Rightarrow> rstring \<Rightarrow> rstring \<Rightarrow> nat xop" where
  "vacuum_named x schema table =
     lbind (lattempt (on_catalog (get_table schema table))) (\<lambda>found.
     case found of None \<Rightarrow> xret 0 | Some info \<Rightarrow> vacuum_table x (ts_oid info))"

definition exec_vacuum ::
  "dml_lib \<Rightarrow> ((rstring \<times> nat) list \<Rightarrow> (rstring \<times> nat) list) \<Rightarrow> xid \<Rightarrow> rstring \<Rightarrow> rstring option \<Rightarrow> bool \<Rightarrow> nat xop" where
  "exec_vacuum L map_order x schema table_name analyze =
     lbind (case table_name of Some t \<Rightarrow> xret [t] | None \<Rightarrow> on_catalog (list_tables schema)) (\<lambda>tables.
     lbind (lmap (vacuum_named x schema) tables) (\<lambda>counts.
     lbind (if analyze then lmap (analyze_table L map_order x schema) tables else xret []) (\<lambda>_.
     xret (sum_list counts))))"

section \<open>What is cleared\<close>

definition raw_dead :: "xid set \<Rightarrow> byte list \<Rightarrow> bool" where
  "raw_dead comm b \<longleftrightarrow> TUPLE_HEADER_SIZE \<le> length b \<and> (case decode_from b of Ok h \<Rightarrow> dead_version comm h | _ \<Rightarrow> False)"

definition without_dead :: "xid set \<Rightarrow> byte list option \<Rightarrow> byte list option" where
  "without_dead comm z = (case z of Some b \<Rightarrow> if raw_dead comm b then None else Some b | None \<Rightarrow> None)"

definition gone :: "xid set \<Rightarrow> byte list option \<Rightarrow> bool" where
  "gone comm z \<longleftrightarrow> without_dead comm z \<noteq> z"

lemma gone_simps [simp]: "\<not> gone comm None" "gone comm (Some b) \<longleftrightarrow> raw_dead comm b"
  by (simp_all add: gone_def without_dead_def)

lemma without_dead_gone: "without_dead comm z = (if gone comm z then None else z)"
  by (cases z) (simp_all add: without_dead_def)

lemma slot_dead_run:
  assumes "page_wf p" and "i < n_slots p"
  shows "slot_dead comm p (of_nat i) = Ok (gone comm (page_abs p (of_nat i)))"
proof -
  have "unat (of_nat i :: u16) = i" using assms n_slots_num_slots [OF assms(1)] by simp
  then show ?thesis
    using assms(2) by (simp add: slot_dead_def page_get_cases [OF assms(1)] page_abs_def raw_dead_def split: option.split)
qed

lemma mark_dead_run:
  assumes "page_wf p" and "i < n_slots p" and "gone comm (page_abs p (of_nat i))"
  shows "mark_dead p (of_nat i) = Ok (cleared p i)"
proof -
  have u: "unat (of_nat i :: u16) = i" using assms n_slots_num_slots [OF assms(1)] by simp
  then obtain b where "slot_bytes p i = Some b" using assms(2,3) by (cases "slot_bytes p i") (simp_all add: page_abs_def)
  then show ?thesis using u assms(2) by (simp add: mark_dead_def page_delete_cases [OF assms(1)])
qed

lemma vacuum_slots_law:
  assumes "page_wf p" and "distinct is" and "set is \<subseteq> {..<n_slots p}"
  shows "\<exists>q. vacuum_slots comm is p n = Ok (q, n + card {i \<in> set is. gone comm (page_abs p (of_nat i))}) \<and> page_wf q
    \<and> (\<forall>s. page_abs q s = (if unat s \<in> set is then without_dead comm (page_abs p s) else page_abs p s))"
  using assms
proof (induction "is" arbitrary: p n)
  case Nil
  then show ?case by simp
next
  case (Cons i js)
  let ?here = "\<lambda>p js. {j \<in> set js. gone comm (page_abs p (of_nat j))}"
  have i: "i < n_slots p" "i \<notin> set js" using Cons.prems by auto
  have u: "unat (of_nat j :: u16) = j" if "j < n_slots p" for j
    using that n_slots_num_slots [OF Cons.prems(1)] by simp
  have su: "s = of_nat i" if "unat s = i" for s :: u16 using that by auto
  show ?case
  proof (cases "gone comm (page_abs p (of_nat i))")
    case False
    obtain q where q: "vacuum_slots comm js p n = Ok (q, n + card (?here p js))" "page_wf q"
      "\<forall>s. page_abs q s = (if unat s \<in> set js then without_dead comm (page_abs p s) else page_abs p s)"
      using Cons.IH [of p n] Cons.prems by auto
    have "?here p (i # js) = ?here p js" using False by auto
    moreover have "page_abs q s = (if unat s \<in> set (i # js) then without_dead comm (page_abs p s) else page_abs p s)" for s
      using q(3) False su [of s] by (auto simp: without_dead_gone)
    ultimately show ?thesis using q(1,2) False slot_dead_run [OF Cons.prems(1) i(1)] by simp
  next
    case True
    let ?p = "cleared p i"
    note cl = page_delete_correct [OF Cons.prems(1) i(1)] cleared_facts(4) [OF Cons.prems(1) i(1)]
    obtain q where q: "vacuum_slots comm js ?p (Suc n) = Ok (q, Suc n + card (?here ?p js))" "page_wf q"
      "\<forall>s. page_abs q s = (if unat s \<in> set js then without_dead comm (page_abs ?p s) else page_abs ?p s)"
      using Cons.IH [of ?p "Suc n"] Cons.prems cl by auto
    have other: "(of_nat j :: u16) \<noteq> of_nat i" if "j \<in> set js" for j
    proof -
      have "j < n_slots p" "j \<noteq> i" using that Cons.prems by auto
      then show ?thesis using u [OF i(1)] u [of j] by metis
    qed
    have "?here ?p js = ?here p js" using other cl(3) by auto
    moreover have "?here p (i # js) = insert i (?here p js)" using True by auto
    ultimately have "Suc n + card (?here ?p js) = n + card (?here p (i # js))" using i(2) by simp
    moreover have "page_abs q s = (if unat s \<in> set (i # js) then without_dead comm (page_abs p s) else page_abs p s)" for s
    proof (cases "unat s = i")
      case t: True
      then show ?thesis using q(3) True su [of s] cl(3) i(2) by (simp add: without_dead_gone)
    next
      case f: False
      then have "s \<noteq> of_nat i" using u [OF i(1)] by auto
      then show ?thesis using q(3) f cl(3) by simp
    qed
    ultimately show ?thesis
      using q(1,2) True slot_dead_run [OF Cons.prems(1) i(1)] mark_dead_run [OF Cons.prems(1) i(1) True] by simp
  qed
qed

lemma set_prune_xid_facts:
  assumes "page_wf p"
  shows "page_wf (set_prune_xid p x)" and "page_abs (set_prune_xid p x) = page_abs p"
  using header_write_wf [OF assms, of 20 "u32_bytes x"] by (simp_all add: set_prune_xid_def hdr_set_u32_def)

lemma card_gone_page:
  assumes wf: "heap_wf h" and i: "i < n_blocks h"
  shows "card {t. unat (page_no t) = i \<and> gone comm (heap_raw h t)}
    = card {j \<in> set [0..<n_slots (block h i)]. gone comm (page_abs (block h i) (of_nat j))}" (is "card ?A = card ?B")
proof -
  let ?p = "block h i" and ?f = "\<lambda>j. TID_new (of_nat i) (of_nat j :: u16)"
  have pw: "page_wf ?p" and lt: "i < 2 ^ 32" using wf i by (auto simp: heap_wf_def)
  have u: "unat (of_nat j :: u16) = j" if "j < n_slots ?p" for j
    using that n_slots_num_slots(2) [OF pw] by simp
  have "inj_on ?f ?B" by (rule inj_on_inverseI [of _ "unat \<circ> slot"]) (simp add: TID_new_def u)
  moreover have "?f ` ?B = ?A"
  proof (intro set_eqI iffI)
    fix t assume "t \<in> ?f ` ?B"
    then show "t \<in> ?A" using i lt u by (auto simp: TID_new_def heap_raw_def)
  next
    fix t assume t: "t \<in> ?A"
    then have g: "gone comm (page_abs ?p (slot t))" using i by (auto simp: heap_raw_def)
    then have "unat (slot t) \<in> ?B" by (cases "page_abs ?p (slot t)") (auto simp: page_abs_def split: if_splits)
    moreover have "t = ?f (unat (slot t))" using t by (cases t) (auto simp: TID_new_def)
    ultimately show "t \<in> ?f ` ?B" by blast
  qed
  ultimately show ?thesis using card_image [of ?f ?B] by simp
qed

lemma vacuum_page_law:
  assumes wf: "heap_wf h" and i: "i < n_blocks h"
  shows "\<exists>h'. vacuum_page x comm (of_nat i) h = (Ok (card {t. unat (page_no t) = i \<and> gone comm (heap_raw h t)}), h')
    \<and> heap_wf h' \<and> n_blocks h' = n_blocks h
    \<and> (\<forall>t. heap_raw h' t = (if unat (page_no t) = i then without_dead comm (heap_raw h t) else heap_raw h t))"
proof -
  let ?p = "block h i" and ?n = "card {t. unat (page_no t) = i \<and> gone comm (heap_raw h t)}"
  have pw: "page_wf ?p" and lt: "i < 2 ^ 32" using wf i by (auto simp: heap_wf_def)
  have un: "unat (of_nat i :: u32) = i" using lt by simp
  have pn: "page_no t = of_nat i \<longleftrightarrow> unat (page_no t) = i" for t :: tid using un by (auto simp: word_unat_eq_iff)
  obtain q where q: "vacuum_slots comm [0..<n_slots ?p] ?p 0 = Ok (q, ?n)" "page_wf q"
    "\<And>s. page_abs q s = (if unat s \<in> set [0..<n_slots ?p] then without_dead comm (page_abs ?p s) else page_abs ?p s)"
    using vacuum_slots_law [OF pw, of "[0..<n_slots ?p]" comm 0] unfolding card_gone_page [OF wf i] by (auto simp: atLeast0LessThan)
  have abs: "page_abs q s = without_dead comm (page_abs ?p s)" for s
    using q(3) [of s] by (auto simp: page_abs_def without_dead_def)
  note sp = set_prune_xid_facts [OF q(2), of x]
  note wr = heap_write_wf [OF wf _ sp(1), of "of_nat i", unfolded un, OF i]
  have run: "vacuum_page x comm (of_nat i) h = (if ?n = 0 then (Ok 0, h)
      else case heap_write_page (of_nat i) (set_prune_xid q x) h of (Panic, h') \<Rightarrow> (Panic, h') | (_, h') \<Rightarrow> (Ok ?n, h'))"
    by (simp add: vacuum_page_def heap_read_nat [OF wf i] n_slots_num_slots [OF pw] q(1))
  show ?thesis
  proof (cases "?n = 0")
    case True
    then have "{j \<in> set [0..<n_slots ?p]. gone comm (page_abs ?p (of_nat j))} = {}" using card_gone_page [OF wf i] by simp
    then have "\<not> gone comm (page_abs ?p s)" for s
      by (cases "page_abs ?p s") (auto simp: page_abs_def split: if_splits)
    then have "heap_raw h t = (if unat (page_no t) = i then without_dead comm (heap_raw h t) else heap_raw h t)" for t
      using i by (auto simp: heap_raw_def without_dead_gone)
    then show ?thesis using run True wf by auto
  next
    case False
    then show ?thesis using run wr abs i sp(2) pn by (auto simp: heap_raw_def)
  qed
qed

lemma finite_tids: "finite (A :: tid set)"
proof (rule finite_subset [OF _ finite_imageI])
  show "A \<subseteq> (\<lambda>(p, s). TID_new p s) ` (UNIV :: (u32 \<times> u16) set)"
    by (auto simp: TID_new_def image_iff) (metis tid.cases)
qed simp

lemma vacuum_pages_law:
  assumes "heap_wf h" and "distinct is" and "set is \<subseteq> {..<n_blocks h}"
  shows "\<exists>h'. vacuum_pages x comm is h = (Ok (card {t. unat (page_no t) \<in> set is \<and> gone comm (heap_raw h t)}), h')
    \<and> heap_wf h' \<and> n_blocks h' = n_blocks h
    \<and> (\<forall>t. heap_raw h' t = (if unat (page_no t) \<in> set is then without_dead comm (heap_raw h t) else heap_raw h t))"
  using assms
proof (induction "is" arbitrary: h)
  case Nil
  then show ?case by (simp add: sret_def)
next
  case (Cons i js)
  let ?at = "\<lambda>h is. {t. unat (page_no t) \<in> set is \<and> gone comm (heap_raw h t)}"
  obtain h1 where 1: "vacuum_page x comm (of_nat i) h = (Ok (card {t. unat (page_no t) = i \<and> gone comm (heap_raw h t)}), h1)"
    "heap_wf h1" "n_blocks h1 = n_blocks h"
    "\<And>t. heap_raw h1 t = (if unat (page_no t) = i then without_dead comm (heap_raw h t) else heap_raw h t)"
    using vacuum_page_law [OF Cons.prems(1), of i x comm] Cons.prems(3) by auto
  obtain h2 where 2: "vacuum_pages x comm js h1 = (Ok (card (?at h1 js)), h2)" "heap_wf h2" "n_blocks h2 = n_blocks h1"
    "\<And>t. heap_raw h2 t = (if unat (page_no t) \<in> set js then without_dead comm (heap_raw h1 t) else heap_raw h1 t)"
    using Cons.IH [OF 1(2)] Cons.prems 1(3) by auto
  have i: "i \<notin> set js" using Cons.prems(2) by simp
  have "?at h1 js = ?at h js" using 1(4) i by auto
  moreover have "?at h (i # js) = {t. unat (page_no t) = i \<and> gone comm (heap_raw h t)} \<union> ?at h js" by auto
  moreover have "{t. unat (page_no t) = i \<and> gone comm (heap_raw h t)} \<inter> ?at h js = {}" using i by auto
  ultimately have "card {t. unat (page_no t) = i \<and> gone comm (heap_raw h t)} + card (?at h1 js) = card (?at h (i # js))"
    by (simp add: card_Un_disjoint finite_tids)
  moreover have "heap_raw h2 t = (if unat (page_no t) \<in> set (i # js) then without_dead comm (heap_raw h t) else heap_raw h t)" for t
    using 1(4) 2(4) i by auto
  ultimately show ?case using 1 2 by (simp add: sret_def)
qed

text \<open>On tables of whole tuples: exactly the versions whose deleter has committed go, and they are counted.\<close>

lemma raw_dead_tuple: "Tuple_decode b = Ok t \<Longrightarrow> raw_dead comm b \<longleftrightarrow> dead_version comm (header t)"
  by (auto simp: Tuple_decode_def raw_dead_def decode_from_def Let_def split: if_splits)

lemma vacuum_heap_law:
  assumes inv: "table_inv h"
  obtains h' where "vacuum_heap x comm h = (Ok (card {k. \<exists>t. heap_abs h k = Some t \<and> dead_version comm (header t)}), h')"
    and "table_inv h'" and "n_blocks h' = n_blocks h"
    and "\<And>k. heap_abs h' k = (case heap_abs h k of Some t \<Rightarrow> if dead_version comm (header t) then None else Some t | None \<Rightarrow> None)"
proof -
  have wf: "heap_wf h" and ok: "tuples_ok h" using inv by (auto simp: table_inv_def heap_inv_def)
  obtain h' where v: "vacuum_heap x comm h = (Ok (card {t. unat (page_no t) < n_blocks h \<and> gone comm (heap_raw h t)}), h')"
    "heap_wf h'" "n_blocks h' = n_blocks h"
    "\<And>t. heap_raw h' t = (if unat (page_no t) < n_blocks h then without_dead comm (heap_raw h t) else heap_raw h t)"
    using vacuum_pages_law [OF wf, of "[0..<n_blocks h]" x comm] by (auto simp: vacuum_heap_def unat_num_pages [OF wf] atLeast0LessThan)
  have dec: "\<exists>t. Tuple_decode b = Ok t" if "heap_raw h k = Some b" for k b
  proof -
    have "is_ok (Tuple_decode b)" using ok that by (auto simp: tuples_ok_def)
    then show ?thesis by (cases "Tuple_decode b") auto
  qed
  have raw: "heap_raw h' k = without_dead comm (heap_raw h k)" for k
    using v(4) [of k] by (auto simp: heap_raw_def without_dead_def)
  have abs: "heap_abs h' k = (case heap_abs h k of Some t \<Rightarrow> if dead_version comm (header t) then None else Some t | None \<Rightarrow> None)" for k
    using dec [of k] raw_dead_tuple [of _ _ comm]
    by (cases "heap_raw h k") (auto simp: heap_abs_def raw without_dead_def decode_opt_def)
  have "unat (page_no k) < n_blocks h \<and> gone comm (heap_raw h k) \<longleftrightarrow> (\<exists>t. heap_abs h k = Some t \<and> dead_version comm (header t))" for k
    using dec [of k] raw_dead_tuple [of _ _ comm]
    by (cases "heap_raw h k") (auto simp: heap_abs_def decode_opt_def heap_raw_def split: if_splits)
  then have run: "vacuum_heap x comm h = (Ok (card {k. \<exists>t. heap_abs h k = Some t \<and> dead_version comm (header t)}), h')" using v(1) by simp
  have "tuples_ok h'" using ok by (auto simp: tuples_ok_def raw without_dead_def split: option.splits if_splits)
  moreover have "tuple_wf t" if "heap_abs h' k = Some t" for k t
    using that abs [of k] table_invD(3) [OF inv, of k t] by (auto split: option.splits if_splits)
  ultimately have "table_inv h'" using v(2) by (simp add: table_inv_def heap_inv_def)
  then show ?thesis using that run v(3) abs by blast
qed

section \<open>What transactions see afterwards\<close>

lemma kept_store_inv: "kept s s' \<Longrightarrow> store_inv n s \<Longrightarrow> store_inv n s'"
  unfolding store_inv_def kept_def by (metis db_inv_keep)

lemma vacuum_run:
  assumes inv: "store_inv n s" and tab: "on_catalog (get_table schema table) s = Some (Ok info, s1)"
  shows "\<exists>s'. exec_vacuum L map_order x schema (Some table) False s =
      Some (Ok (card {k. \<exists>t. stored_at s (ts_oid info) k = Some t \<and> dead_version (committed (x_mgr s)) (header t)}), s')
    \<and> store_inv n s' \<and> same_txns (x_mgr s) (x_mgr s') \<and> (\<forall>o2. o2 \<noteq> ts_oid info \<longrightarrow> x_heaps s' o2 = x_heaps s o2)
    \<and> tm_wal (x_mgr s') = tm_wal (x_mgr s)
    \<and> (\<forall>k. stored_at s' (ts_oid info) k = (case stored_at s (ts_oid info) k of
        Some t \<Rightarrow> if dead_version (committed (x_mgr s)) (header t) then None else Some t | None \<Rightarrow> None))
    \<and> (\<forall>y k t. (k, t) \<in> rows y (x_mgr s', x_heaps s' (ts_oid info)) \<longleftrightarrow>
      (k, t) \<in> rows y (x_mgr s, x_heaps s (ts_oid info)) \<and> \<not> dead_version (committed (x_mgr s)) (header t))"
proof -
  let ?oid = "ts_oid info" and ?c = "committed (x_mgr s)"
  have k: "kept s s1" by (rule calmD [OF calm_get_table tab])
  then have same: "same_txns (x_mgr s) (x_mgr s1)" "x_heaps s1 = x_heaps s" "committed (x_mgr s1) = ?c"
    by (auto simp: kept_def same_txns_def)
  have inv1: "store_inv n s1" by (rule kept_store_inv [OF k inv])
  then have here: "db_inv None n (x_mgr s1, x_heaps s ?oid)" using same(2) by (metis store_inv_def)
  note facts = db_inv_facts [OF here]
  obtain h where h: "vacuum_heap x ?c (x_heaps s ?oid) =
      (Ok (card {k. \<exists>t. stored_at s ?oid k = Some t \<and> dead_version ?c (header t)}), h)" "table_inv h"
    "n_blocks h = n_blocks (x_heaps s ?oid)"
    "\<And>k. heap_abs h k = (case stored_at s ?oid k of Some t \<Rightarrow> if dead_version ?c (header t) then None else Some t | None \<Rightarrow> None)"
    by (rule vacuum_heap_law [OF facts(1), of x ?c]) blast
  let ?s = "s1\<lparr>x_heaps := (x_heaps s1)(?oid := h)\<rparr>"
  have "db_inv None n (x_mgr s1, h)" by (rule db_inv_other [OF here h(2)]) (use h(3) facts(2) in simp)
  then have inv': "store_inv n ?s" using inv1 by (simp add: store_inv_def)
  have run: "exec_vacuum L map_order x schema (Some table) False s =
      Some (Ok (card {k. \<exists>t. stored_at s ?oid k = Some t \<and> dead_version ?c (header t)}), ?s)"
    using tab h(1) same by (simp add: exec_vacuum_def vacuum_named_def lattempt_def vacuum_table_def committed_set_def sret_def)
  have seen: "(k, t) \<in> rows y (x_mgr ?s, x_heaps ?s ?oid) \<longleftrightarrow>
      (k, t) \<in> rows y (x_mgr s, x_heaps s ?oid) \<and> \<not> dead_version ?c (header t)" for y k t
    using h(4) [of k] same_txns_visible [OF same(1), of y "header t"] table_invD(2) [OF h(2)] table_invD(2) [OF facts(1)]
    by (auto simp: rows_iff split: option.splits if_splits)
  have "same_txns (x_mgr s) (x_mgr ?s)" "\<forall>o2. o2 \<noteq> ?oid \<longrightarrow> x_heaps ?s o2 = x_heaps s o2" "tm_wal (x_mgr ?s) = tm_wal (x_mgr s)"
    "\<forall>k. stored_at ?s ?oid k = (case stored_at s ?oid k of Some t \<Rightarrow> if dead_version ?c (header t) then None else Some t | None \<Rightarrow> None)"
    using same k h(4) by (simp_all add: kept_def)
  then show ?thesis using run inv' seen by blast
qed

text \<open>
  \<^bold>\<open>C20.\<close> VACUUM of a table removes exactly the versions whose deleter has committed, keeps all others as they are and returns
  the number of those removed. No transaction that reads with a snapshot of the moment notices it: such a transaction sees
  the same rows before and after, unless it has made a row itself that a committed transaction has deleted. Other tables
  and the log are not touched.
\<close>

theorem vacuum_keeps_current_rows:
  assumes inv: "store_inv n s" and tm: "tm_inv (x_mgr s)"
    and tab: "on_catalog (get_table schema table) s = Some (Ok info, s1)"
    and fresh: "current_snapshot (x_mgr s) y = take_snapshot_inner (x_mgr s) y"
    and own: "\<forall>k t. stored_at s (ts_oid info) k = Some t \<and> t_xmin (header t) = y \<longrightarrow> t_xmax (header t) \<notin> committed (x_mgr s)"
  shows "\<exists>s'. exec_vacuum L map_order x schema (Some table) False s =
      Some (Ok (card {k. \<exists>t. stored_at s (ts_oid info) k = Some t \<and> t_xmax (header t) \<noteq> 0 \<and> t_xmax (header t) \<in> committed (x_mgr s)}), s')
    \<and> (\<forall>k. stored_at s' (ts_oid info) k = (case stored_at s (ts_oid info) k of
        Some t \<Rightarrow> if t_xmax (header t) \<noteq> 0 \<and> t_xmax (header t) \<in> committed (x_mgr s) then None else Some t | None \<Rightarrow> None))
    \<and> (\<forall>oid. rows y (x_mgr s', x_heaps s' oid) = rows y (x_mgr s, x_heaps s oid))
    \<and> (\<forall>oid. oid \<noteq> ts_oid info \<longrightarrow> x_heaps s' oid = x_heaps s oid) \<and> tm_wal (x_mgr s') = tm_wal (x_mgr s)"
proof -
  let ?m = "x_mgr s" and ?oid = "ts_oid info"
  obtain s' where v: "exec_vacuum L map_order x schema (Some table) False s =
      Some (Ok (card {k. \<exists>t. stored_at s ?oid k = Some t \<and> dead_version (committed ?m) (header t)}), s')"
    "store_inv n s'" "same_txns ?m (x_mgr s')" "\<forall>o2. o2 \<noteq> ?oid \<longrightarrow> x_heaps s' o2 = x_heaps s o2" "tm_wal (x_mgr s') = tm_wal ?m"
    "\<forall>y k t. (k, t) \<in> rows y (x_mgr s', x_heaps s' ?oid) \<longleftrightarrow>
      (k, t) \<in> rows y (?m, x_heaps s ?oid) \<and> \<not> dead_version (committed ?m) (header t)"
    "\<forall>k. stored_at s' ?oid k = (case stored_at s ?oid k of Some t \<Rightarrow> if dead_version (committed ?m) (header t) then None else Some t | None \<Rightarrow> None)"
    using vacuum_run [OF inv tab, of L map_order x] by blast
  have wf: "heap_wf (x_heaps s oid)" "heap_wf (x_heaps s' oid)" for oid
    using inv v(2) db_inv_facts(1) table_invD(2) unfolding store_inv_def by blast+
  have seen_by_fresh: "xid_is_visible (take_snapshot_inner ?m y) z" if "z \<in> committed ?m" "z \<noteq> 0" for z
  proof -
    have "z < next_xid ?m" "z \<notin> fst ` set (active ?m)" using tm that(1) by (auto simp: tm_inv_def)
    then show ?thesis using that(2) by (auto simp: xid_is_visible_def take_snapshot_inner_def Let_def not_le)
  qed
  have "\<not> dead_version (committed ?m) (header t)" if "(k, t) \<in> rows y (?m, x_heaps s ?oid)" for k t
    using that own seen_by_fresh [of "t_xmax (header t)"] fresh
    by (auto simp: rows_iff [OF wf(1)] dead_version_def version_visible_def is_tuple_visible_def split: if_splits)
  then have "rows y (x_mgr s', x_heaps s' ?oid) = rows y (?m, x_heaps s ?oid)" using v(6) by auto
  moreover have "rows y (x_mgr s', x_heaps s' oid) = rows y (?m, x_heaps s oid)" if "oid \<noteq> ?oid" for oid
    using v(4) that wf same_txns_visible [OF v(3), of y] by (auto simp: rows_iff)
  ultimately have "\<forall>oid. rows y (x_mgr s', x_heaps s' oid) = rows y (?m, x_heaps s oid)" by metis
  then show ?thesis using v(1,7) [unfolded dead_version_def] v(4,5) by blast
qed

text \<open>
  \<^bold>\<open>C21.\<close> Finding. VACUUM asks only whether the deleter has committed, not whether somebody still reads with an older snapshot: a
  row a repeatable-read transaction sees, deleted meanwhile by a committed transaction, disappears from its sight.
\<close>

theorem vacuum_breaks_repeatable_read:
  assumes inv: "store_inv n s" and tab: "on_catalog (get_table schema table) s = Some (Ok info, s1)"
    and vis: "(k, t) \<in> rows y (x_mgr s, x_heaps s (ts_oid info))"
    and del: "t_xmax (header t) \<in> committed (x_mgr s)" "t_xmax (header t) \<noteq> 0"
  shows "\<exists>dead s'. exec_vacuum L map_order x schema (Some table) False s = Some (Ok dead, s') \<and> 0 < dead
    \<and> current_snapshot (x_mgr s') y = current_snapshot (x_mgr s) y
    \<and> (k, t) \<notin> rows y (x_mgr s', x_heaps s' (ts_oid info))"
proof -
  let ?dead = "{k. \<exists>t. stored_at s (ts_oid info) k = Some t \<and> dead_version (committed (x_mgr s)) (header t)}"
  have d: "dead_version (committed (x_mgr s)) (header t)" using del by (simp add: dead_version_def)
  obtain s' where v: "exec_vacuum L map_order x schema (Some table) False s = Some (Ok (card ?dead), s')"
    "store_inv n s'" "same_txns (x_mgr s) (x_mgr s')"
    "\<forall>o2. o2 \<noteq> ts_oid info \<longrightarrow> x_heaps s' o2 = x_heaps s o2" "tm_wal (x_mgr s') = tm_wal (x_mgr s)"
    "\<forall>y k t. (k, t) \<in> rows y (x_mgr s', x_heaps s' (ts_oid info)) \<longleftrightarrow>
      (k, t) \<in> rows y (x_mgr s, x_heaps s (ts_oid info)) \<and> \<not> dead_version (committed (x_mgr s)) (header t)"
    using vacuum_run [OF inv tab, of L map_order x] by blast
  have "heap_wf (x_heaps s (ts_oid info))" using inv db_inv_facts(1) table_invD(2) unfolding store_inv_def by blast
  then have "k \<in> ?dead" using vis d by (auto simp: rows_iff)
  then have "0 < card ?dead" by (auto simp: card_gt_0_iff finite_tids)
  then show ?thesis using v(1) d v(6) same_txns_snapshot [OF v(3), of y] by auto
qed

text \<open>A table with one row, made by transaction 3 and deleted by 5, while 4 reads with a snapshot between the two.\<close>

definition reader_snapshot :: snapshot where
  "reader_snapshot = \<lparr>s_xmin = 4, s_xmax = 5, in_progress = {4}\<rparr>"

definition with_reader :: "txn_manager \<Rightarrow> txn_manager" where
  "with_reader m = m\<lparr>committed := {3, 5}, aborted := {}, next_xid := 6, global_next := 6,
     active := [(4, (Transaction_new 4 RepeatableRead)\<lparr>tx_snapshot := Some reader_snapshot\<rparr>)]\<rparr>"

definition vacuum_store :: "txn_manager \<Rightarrow> heap \<Rightarrow> exec_state" where
  "vacuum_store m h = \<lparr>x_mgr = with_reader m,
     x_cat = fresh_catalog\<lparr>registries := new_catalog\<lparr>schema_cache := [1000 \<mapsto> key_table]\<rparr>, name_cache := [(OID_NS_PUBLIC, lit ''t'') \<mapsto> 1000]\<rparr>,
     x_heaps = (\<lambda>oid. if oid = 1000 then h else []), x_indexes = [], x_undo = None\<rparr>"

lemma vacuum_store_table:
  "on_catalog (get_table (lit ''public'') (lit ''t'')) (vacuum_store m h) = Some (Ok key_table, vacuum_store m h)"
  by (simp add: on_catalog_def get_table_def resolve_namespace_def vacuum_store_def fresh_catalog_def slift_def sret_def lit_def)

lemma vacuum_store_oid [simp]: "ts_oid key_table = 1000" "x_heaps (vacuum_store m h) 1000 = h" "x_mgr (vacuum_store m h) = with_reader m"
  by (simp_all add: key_table_def vacuum_store_def)

lemma with_reader_facts:
  "tm_inv (with_reader m)" "committed (with_reader m) = {3, 5}" "current_snapshot (with_reader m) 4 = reader_snapshot"
  "current_snapshot (with_reader m) 7 = take_snapshot_inner (with_reader m) 7"
  by (simp_all add: tm_inv_def with_reader_def current_snapshot_def snapshot_ok_def reader_snapshot_def Transaction_new_def)

lemma deleted_row:
  obtains m h k where "store_inv 0 (vacuum_store m h)" and "heap_abs h = [k \<mapsto> set_xmax (new_version 3 [7]) 5]"
proof (rule one_stored_row [of "[7]"])
  fix w s1 s2 k
  assume a: "heap_abs (snd s2) = [k \<mapsto> new_version 3 [7]]" "db_inv (Some []) 996 s2" "tm_locks (fst s2) = LockManager_new"
  have inv: "db_inv None (Suc 995) (fst s2, snd s2)" using db_inv_None [OF a(2)] by simp
  have free: "lock_of (fst s2) k = None \<or> lock_of (fst s2) k = Some 5" using a(3) by (simp add: lock_of_def LockManager_new_def)
  have old: "heap_abs (snd s2) k = Some (new_version 3 [7])" using a(1) by simp
  obtain m h where d: "db_inv None 995 (m, h)" "heap_abs h = (heap_abs (snd s2))(k \<mapsto> set_xmax (new_version 3 [7]) 5)"
    by (rule delete_run [OF inv free old])
  have r: "db_inv None 0 (with_reader m, h)"
    using db_inv_mono [OF d(1), of 0] by (auto intro: db_inv_keep simp: with_reader_def)
  then have "db_inv None 0 (with_reader m, [])"
    by (rule db_inv_other) (use heap_inv_Nil in \<open>simp_all add: table_inv_def heap_abs_def heap_raw_def\<close>)
  with r have "store_inv 0 (vacuum_store m h)" by (simp add: store_inv_def vacuum_store_def)
  then show thesis by (rule that) (simp add: d(2) a(1))
qed simp

lemma deleted_row_headers: "t_xmin (header (set_xmax (new_version 3 [7]) 5)) = 3" "t_xmax (header (set_xmax (new_version 3 [7]) 5)) = 5"
  by (simp_all add: new_version_def)

theorem vacuum_keeps_current_rows_witness:
  "\<exists>m h s'. exec_vacuum plain_lib id 7 (lit ''public'') (Some (lit ''t'')) False (vacuum_store m h) = Some (Ok 1, s')
    \<and> (\<exists>k. heap_abs h k \<noteq> None \<and> heap_abs (x_heaps s' 1000) k = None) \<and> rows 7 (x_mgr s', x_heaps s' 1000) = rows 7 (with_reader m, h)"
proof (rule deleted_row)
  fix m h k
  assume a: "store_inv 0 (vacuum_store m h)" "heap_abs h = [k \<mapsto> set_xmax (new_version 3 [7]) 5]"
  have one: "{j. \<exists>t. stored_at (vacuum_store m h) (ts_oid key_table) j = Some t \<and> t_xmax (header t) \<noteq> 0
      \<and> t_xmax (header t) \<in> committed (x_mgr (vacuum_store m h))} = {k}"
    using deleted_row_headers by (auto simp: a(2) with_reader_facts split: if_splits)
  have own: "\<forall>j t. stored_at (vacuum_store m h) (ts_oid key_table) j = Some t \<and> t_xmin (header t) = 7
      \<longrightarrow> t_xmax (header t) \<notin> committed (x_mgr (vacuum_store m h))"
    using deleted_row_headers by (auto simp: a(2) split: if_splits)
  have "tm_inv (x_mgr (vacuum_store m h))" "current_snapshot (x_mgr (vacuum_store m h)) 7 = take_snapshot_inner (x_mgr (vacuum_store m h)) 7"
    by (simp_all add: with_reader_facts)
  from vacuum_keeps_current_rows [OF a(1) this(1) vacuum_store_table this(2) own, of plain_lib id 7]
  obtain s' where v: "exec_vacuum plain_lib id 7 (lit ''public'') (Some (lit ''t'')) False (vacuum_store m h) = Some (Ok 1, s')"
    "rows 7 (x_mgr s', x_heaps s' 1000) = rows 7 (with_reader m, x_heaps (vacuum_store m h) 1000)"
    "\<forall>k. stored_at s' 1000 k = (case stored_at (vacuum_store m h) 1000 k of
        Some t \<Rightarrow> if t_xmax (header t) \<noteq> 0 \<and> t_xmax (header t) \<in> committed (x_mgr (vacuum_store m h)) then None else Some t | None \<Rightarrow> None)"
    unfolding one by auto
  have "heap_abs h k \<noteq> None \<and> heap_abs (x_heaps s' 1000) k = None"
    using v(3) [THEN spec, of k] deleted_row_headers by (simp add: a(2) with_reader_facts)
  then show ?thesis using v(1,2) by (intro exI [of _ m] exI [of _ h] exI [of _ s']) auto
qed

theorem vacuum_breaks_repeatable_read_witness:
  "\<exists>m h k t dead s'. tm_inv (with_reader m) \<and> current_snapshot (with_reader m) 4 = reader_snapshot \<and> (k, t) \<in> rows 4 (with_reader m, h)
    \<and> exec_vacuum plain_lib id 7 (lit ''public'') (Some (lit ''t'')) False (vacuum_store m h) = Some (Ok dead, s')
    \<and> (k, t) \<notin> rows 4 (x_mgr s', x_heaps s' 1000)"
proof (rule deleted_row)
  fix m h k
  let ?s = "vacuum_store m h" and ?t = "set_xmax (new_version 3 [7]) 5"
  assume a: "store_inv 0 ?s" "heap_abs h = [k \<mapsto> ?t]"
  have "db_inv None 0 (with_reader m, h)" using a(1) by (auto simp: store_inv_def vacuum_store_def split: if_splits)
  then have "heap_wf h" using db_inv_facts(1) table_invD(2) by blast
  then have v: "(k, ?t) \<in> rows 4 (with_reader m, h)"
    using deleted_row_headers a(2)
    by (simp add: rows_iff with_reader_facts version_visible_def is_tuple_visible_def xid_is_visible_def reader_snapshot_def)
  have "(k, ?t) \<in> rows 4 (x_mgr ?s, x_heaps ?s (ts_oid key_table))" using v by simp
  from vacuum_breaks_repeatable_read [OF a(1) vacuum_store_table this, of plain_lib id 7]
  obtain dead s' where "exec_vacuum plain_lib id 7 (lit ''public'') (Some (lit ''t'')) False ?s = Some (Ok dead, s')"
    "(k, ?t) \<notin> rows 4 (x_mgr s', x_heaps s' 1000)"
    using deleted_row_headers with_reader_facts(2) by auto
  with v with_reader_facts(1,3) show ?thesis by blast
qed

end
