(* ===== verification/Txn_Repeatable.thy ===== *)
theory Txn_Repeatable
  imports Txn_Heap
begin

text \<open>
  Repeatable read over a table. \<open>Txn_Isolation\<close> shows that the snapshot of an open transaction stays as it is; here the
  operations of the other transactions also change the heap file, and the rows a scan of the transaction delivers stay
  the same: their places and their contents.
\<close>

section \<open>What others do\<close>






section \<open>A step\<close>













section \<open>Histories\<close>






section \<open>Property\<close>







end
