(* ===== verification/Spec2Isabelle.thy ===== *)
theory Spec2Isabelle
  imports Sql_Engine Sql_Query Sql_Window Sql_Copy Sql_Array Sql_Vacuum Txn_Repeatable BTree_Client Sql_Text
begin

text \<open>
  A model of icedb, a relational database in Rust, and what it guarantees.

  \<^bold>\<open>The program.\<close> A statement travels downwards through these parts, all under \<^verbatim>\<open>src/crates\<close>:
  \<^item> \<^verbatim>\<open>sql/src/engine.rs\<close> keeps sessions, opens a transaction for a statement, checks privileges, calls parser and planner,
    rewrites the plan (\<^verbatim>\<open>optimizer.rs\<close>) and runs it (\<^verbatim>\<open>executor.rs\<close>), with savepoints undone from the log of
    \<^verbatim>\<open>subtxn.rs\<close>;
  \<^item> the executor reads and writes rows (\<^verbatim>\<open>value.rs\<close>, \<^verbatim>\<open>row.rs\<close>, \<^verbatim>\<open>codec.rs\<close>) of tables the catalog describes
    (\<^verbatim>\<open>catalog/src/manager.rs\<close>), through indexes (\<^verbatim>\<open>btree\<close>) where it has them;
  \<^item> every read and write goes through the transaction manager (\<^verbatim>\<open>txn/src/manager.rs\<close>): snapshots decide which
    versions of a row are visible, locks keep writers apart, a page is logged before it is written;
  \<^item> pages live in heap files (\<^verbatim>\<open>storage/src/heap.rs\<close>, \<^verbatim>\<open>page.rs\<close>) behind a buffer pool (\<^verbatim>\<open>buffer.rs\<close>); the log
    (\<^verbatim>\<open>wal\<close>) consists of segments and is replayed by recovery.

  \<^bold>\<open>The theories.\<close> A definition has the name of the Rust function it models, with a prefix where two files share one
  (\<open>page_insert_tuple\<close>, \<open>heap_insert_tuple\<close>, \<open>txn_insert_tuple\<close>).
  \<^item> \<open>Ice_Prelude\<close>: words, bytes, the result type \<open>outcome\<close> (\<open>Ok\<close>, \<open>Err\<close>, and \<open>Panic\<close> for a Rust panic), state-passing
    operations (\<open>sop\<close>) and their partial version for loops that may not end (\<open>lop\<close>, whose \<open>None\<close> is not returning).
  \<^item> Storage: \<open>Tuple_Store\<close> (the contract of a container of tuples, a locale), \<open>Heap_Tuple\<close>, \<open>Page\<close>, \<open>Block_File\<close>,
    \<open>Heap_File\<close>, \<open>Buffer_Pool\<close>. A page is its 8192 bytes, a file is its bytes. The page implements a list of slots,
    the heap a map from identifiers to tuples; the pool is transparent under any interleaving of its clients.
  \<^item> Log: \<open>Wal_Record\<close>, \<open>Wal_Log\<close>, \<open>Wal_Recovery\<close>. What was appended is read back, across segments and after a torn
    write; recovery is the redo of page images.
  \<^item> Transactions: \<open>Txn_Core\<close>, \<open>Cycle_Check\<close>, \<open>Txn_Manager\<close>, \<open>Txn_Isolation\<close>, \<open>Txn_Heap\<close>, \<open>Txn_Repeatable\<close>,
    \<open>Txn_Outcome\<close>, \<open>Txn_Tables\<close>. Consistency of reachable states, no dirty reads, the exact effect of every tuple
    operation on what each transaction sees, that the writes of others change neither the snapshot nor the stored rows a
    repeatable-read transaction scans, that the log reproduces the file, outcomes after a restart; several
    tables behind one manager (\<open>db_inv\<close>).
  \<^item> Indexes: \<open>BTree_Node\<close>, \<open>BTree\<close> (the code), \<open>BTree_Shape\<close> (trees as mathematical objects), \<open>BTree_Store\<close>,
    \<open>BTree_Insert\<close>, \<open>BTree_Up\<close>, \<open>BTree_Index\<close>, \<open>BTree_Map\<close>, \<open>BTree_Client\<close>: the pages answer as a sorted
    association list.
  \<^item> Rows: \<open>Sql_Type\<close>, \<open>Sql_Value\<close>, \<open>Sql_Row\<close>, \<open>Sql_Array\<close> (array elements as JSON values, and stored rows with
    arrays), \<open>Sql_Date\<close>, \<open>Sql_Text\<close>, \<open>Sql_Order\<close>. Rows and values are read back from their bytes; index keys sort as values.
  \<^item> Catalog: \<open>Catalog_Rows\<close>, \<open>Catalog_Manager\<close> (registries), \<open>Catalog_Tables\<close> (the four catalog tables).
  \<^item> Queries: \<open>Sql_Plan\<close> (expressions and plans), \<open>Sql_Eval\<close> (\<open>eval_expr\<close>), \<open>Sql_Exec\<close>, \<open>Sql_Join\<close>, \<open>Sql_Algebra\<close>,
    \<open>Sql_Sort\<close>, \<open>Sql_Group\<close>, \<open>Sql_Window\<close> (operators on lists of rows), \<open>Sql_Index\<close>, \<open>Sql_Optimizer\<close>, and \<open>Sql_Query\<close>,
    which runs plans over the tables, with table expressions and outer rows. The operators are measured by specifications of
    their own: \<open>relational_join\<close> for joins, \<open>row_before\<close> for orders, operations on multisets for the set operations.
  \<^item> Statements: \<open>Sql_Store\<close> (what a statement works on: manager, catalog, files, indexes, undo log; recorded writes and
    their undoing), \<open>Sql_Dml\<close> (\<^verbatim>\<open>INSERT\<close>, \<^verbatim>\<open>UPDATE\<close>, \<^verbatim>\<open>DELETE\<close> with all constraints),
    \<open>Sql_Copy\<close> (\<^verbatim>\<open>COPY\<close>), \<open>Sql_Vacuum\<close> (\<^verbatim>\<open>VACUUM\<close> and \<^verbatim>\<open>ANALYZE\<close>), \<open>Sql_Engine\<close> (sessions).

  \<^bold>\<open>Interfaces.\<close> Where a component relies on another, the contract is a locale, interpreted on the model: \<open>tuple_store\<close>
  (page and heap), \<open>page_store\<close>, \<open>transparent\<close> (buffer pool), the map of a B+ tree, the ordering of rows behind sorting,
  the laws of the tables of a store, the codec of array values and others; each stands beside the component that
  provides it.

  \<^bold>\<open>Bounds.\<close> Page and file sizes, word widths and wrap-around are those of the code. A theorem about writing assumes
  room: in the log for the records it appends (\<open>db_inv n\<close> and \<open>store_inv n\<close> say that \<open>n\<close> more operations fit the 64-bit
  sequence numbers and the page numbers), in an index for the key (at most \<open>MAX_KEY\<close> = 128 bytes, and \<open>bt_holds\<close>
  counts the free page numbers). Loops that always end are total functions with a measure; \<open>series_loop\<close>, the walks
  over index pages and the like are partial, and the theorems say when they return. The nesting of
  prepared statements in \<open>execute_in_txn_inner\<close> is bounded by fuel, since a statement may execute another; running out is
  \<open>None\<close>. Recursive queries end after the thousand rounds of the code.

  \<^bold>\<open>Parameters.\<close> What is not the program's code, or not modelled, is an argument: floating point text (\<open>float_lib\<close>), the
  text of JSON values (\<open>json_lib\<close>, \<open>array_lib\<close>), the hasher of hash tables, clock, random numbers and Unicode case mapping
  (fields of \<open>dml_lib\<close>); the library of SQL functions and the rows of subqueries (\<open>eval_env\<close>, \<open>dml_lib\<close>); the
  virtual catalogs (\<open>query_lib\<close>); which files can be read and written (\<open>Sql_Copy\<close>); parser, planner and executor as the engine calls
  them (\<open>engine_lib\<close>). The codec of arrays is a parameter of the row codec (\<open>array_codec\<close>) that \<open>json_arrays\<close> instantiates with
  the conversions of the code. Theorems name what they need of the parameters as hypotheses, and their witnesses
  instantiate them. The sort of the standard library is modelled by insertion, which agrees with every stable sort for a
  consistent comparison.

  \<^bold>\<open>Not modelled.\<close> The grammar is that of the crate \<^verbatim>\<open>sqlparser\<close>, and \<^verbatim>\<open>planner.rs\<close> translates its syntax trees, so
  of the planner only the choice of the join algorithm is here. The wire protocol, authentication, the command line
  client and the servers are input and output on sockets. Threads are modelled as interleavings of whole methods (in the
  transaction manager also of the halves of \<open>begin\<close> and \<open>commit\<close>), device errors and \<^verbatim>\<open>fsync\<close> not at all.
\<close>

end
